(* ===== verification/Prelude.thy ===== *)
theory Prelude
  imports Main "HOL-Library.Word" "HOL-Library.Monad_Syntax"
begin

text \<open>
  Shared vocabulary of the development: the machine types of the runtime, little-endian byte
  encodings (the wire format and the memory layout of x86-64), reads and writes of byte buffers
  that fail when they leave the buffer, and the generic lemmas on lists, options and words the
  components use.
\<close>

unbundle bit_operations_syntax

named_theorems le_simps \<open>reading back what was encoded\<close>
named_theorems inv_pres \<open>operations keep the invariant of their component\<close>

type_synonym byte = "8 word"
type_synonym i32 = "32 word"
type_synonym i64 = "64 word"

lemma sint_nonneg:
  fixes w :: "'a :: len word"
  assumes "0 \<le>s w"
  shows "sint w = int (unat w)"
proof -
  have "0 \<le> sint w" using assms by (simp add: word_sle_eq)
  moreover have "sint w < 2 ^ LENGTH('a)"
    using sint_lt [of w] by (rule less_le_trans) (simp add: power_increasing)
  ultimately have "uint w = sint w" unfolding uint_sint by (simp add: take_bit_int_eq_self)
  then show ?thesis by simp
qed

lemma small_of_nat:
  assumes "n < 2 ^ 63"
  shows "unat (of_nat n :: i64) = n" "sint (of_nat n :: i64) = int n" "0 \<le>s (of_nat n :: i64)"
proof -
  show u: "unat (of_nat n :: i64) = n" using assms by (simp add: unsigned_of_nat take_bit_nat_eq_self)
  then have "uint (of_nat n :: i64) = int n" by (metis uint_nat)
  then show "sint (of_nat n :: i64) = int n"
    using assms by (simp add: sint_uint signed_take_bit_int_eq_self)
  then show "0 \<le>s (of_nat n :: i64)" by (simp add: word_sle_eq)
qed

section \<open>Little-endian bytes\<close>

primrec le_bytes :: "nat \<Rightarrow> i64 \<Rightarrow> byte list" where
  "le_bytes 0 w = []"
| "le_bytes (Suc n) w = ucast w # le_bytes n (drop_bit 8 w)"

primrec le_word :: "byte list \<Rightarrow> i64" where
  "le_word [] = 0"
| "le_word (b # bs) = (ucast b OR push_bit 8 (le_word bs))"

lemma length_le_bytes [simp]: "length (le_bytes n w) = n"
  by (induction n arbitrary: w) auto

lemma le_bytes_numeral [simp]:
  "le_bytes (numeral k) w = ucast w # le_bytes (pred_numeral k) (drop_bit 8 w)"
  by (simp add: numeral_eq_Suc)

lemma split_low_byte: "(ucast (ucast (w :: i64) :: byte) OR push_bit 8 (take_bit m (drop_bit 8 w))) = take_bit (8 + m) w"
  by (rule bit_word_eqI) (auto simp: bit_simps)

lemma le_word_le_bytes_take: "le_word (le_bytes n w) = take_bit (8 * n) w"
proof (induction n arbitrary: w)
  case 0
  then show ?case by simp
next
  case (Suc n)
  then show ?case using split_low_byte [of w "8 * n"] by simp
qed

lemma le_word_le_bytes [le_simps]: "le_word (le_bytes 8 w) = w"
proof -
  have "take_bit 64 w = w" by (rule bit_word_eqI) (auto simp: bit_simps dest: bit_imp_le_length)
  then show ?thesis using le_word_le_bytes_take [of 8 w] by (simp del: le_bytes_numeral)
qed

lemma low_byte_of_cons: "(ucast (ucast (b :: byte) OR push_bit 8 (x :: i64)) :: byte) = b"
  by (rule bit_word_eqI) (auto simp: bit_simps)

lemma high_bytes_of_cons: "drop_bit 8 (ucast (b :: byte) OR push_bit 8 (x :: i64)) = take_bit 56 x"
  by (rule bit_word_eqI) (auto simp: bit_simps dest: bit_imp_le_length)

lemma le_bytes_take_bit: "8 * n \<le> m \<Longrightarrow> le_bytes n (take_bit m w) = le_bytes n w"
proof (induction n arbitrary: m w)
  case 0
  then show ?case by simp
next
  case (Suc n)
  have "(ucast (take_bit m w) :: byte) = ucast w"
    using Suc.prems by (intro bit_word_eqI) (auto simp: bit_simps)
  moreover have "drop_bit 8 (take_bit m w) = take_bit (m - 8) (drop_bit 8 w)"
    by (rule bit_word_eqI) (use Suc.prems in \<open>auto simp: bit_simps\<close>)
  ultimately show ?case using Suc by simp
qed

lemma le_bytes_le_word: "length bs \<le> 8 \<Longrightarrow> le_bytes (length bs) (le_word bs) = bs"
proof (induction bs)
  case Nil
  then show ?case by simp
next
  case (Cons b bs)
  then have "le_bytes (length bs) (drop_bit 8 (ucast b OR push_bit 8 (le_word bs))) = bs"
    by (simp only: high_bytes_of_cons) (simp add: le_bytes_take_bit)
  then show ?case
    by (simp only: le_word.simps length_Cons le_bytes.simps low_byte_of_cons)
qed

lemma le_word_inject:
  assumes "length xs = length ys" "length xs \<le> 8" "le_word xs = le_word ys"
  shows "xs = ys"
  by (metis assms le_bytes_le_word)

section \<open>Byte buffers\<close>

text \<open>
  A read or a write outside the buffer is undefined behaviour of the C program: the model returns
  \<open>None\<close> there.
\<close>

definition rd_bytes :: "byte list \<Rightarrow> nat \<Rightarrow> nat \<Rightarrow> byte list option" where
  "rd_bytes bs off n = (if off + n \<le> length bs then Some (take n (drop off bs)) else None)"

definition rd_i64 :: "byte list \<Rightarrow> nat \<Rightarrow> i64 option" where
  "rd_i64 bs off = map_option le_word (rd_bytes bs off 8)"

definition wr_bytes :: "byte list \<Rightarrow> nat \<Rightarrow> byte list \<Rightarrow> byte list option" where
  "wr_bytes bs off d =
     (if off + length d \<le> length bs
      then Some (take off bs @ d @ drop (off + length d) bs) else None)"

lemma length_wr_bytes: "wr_bytes bs off d = Some bs' \<Longrightarrow> length bs' = length bs"
  by (auto simp: wr_bytes_def split: if_splits)

lemma length_rd_bytes: "rd_bytes bs off n = Some d \<Longrightarrow> length d = n"
  by (auto simp: rd_bytes_def split: if_splits)

lemma rd_wr_same: "wr_bytes bs off d = Some bs' \<Longrightarrow> rd_bytes bs' off (length d) = Some d"
  by (auto simp: wr_bytes_def rd_bytes_def split: if_splits)

lemma wr_bytes_nth:
  "wr_bytes bs off d = Some bs' \<Longrightarrow> i < length bs \<Longrightarrow>
   bs' ! i = (if off \<le> i \<and> i < off + length d then d ! (i - off) else bs ! i)"
  by (auto simp: wr_bytes_def nth_append min_def split: if_splits)

lemma rd_bytes_nth:
  "rd_bytes bs off n = Some d \<Longrightarrow> i < n \<Longrightarrow> d ! i = bs ! (off + i)"
  by (auto simp: rd_bytes_def split: if_splits)

lemma rd_bytes_eqI:
  assumes "length bs' = length bs" "\<And>i. off \<le> i \<Longrightarrow> i < off + n \<Longrightarrow> i < length bs \<Longrightarrow> bs' ! i = bs ! i"
  shows "rd_bytes bs' off n = rd_bytes bs off n"
  using assms by (auto simp: rd_bytes_def intro!: nth_equalityI)

lemma rd_wr_other:
  assumes "wr_bytes bs off d = Some bs'" "off' + n \<le> off \<or> off + length d \<le> off'"
  shows "rd_bytes bs' off' n = rd_bytes bs off' n"
  using assms by (intro rd_bytes_eqI) (auto simp: length_wr_bytes wr_bytes_nth)

lemma rd_bytes_append_left:
  "off + n \<le> length xs \<Longrightarrow> rd_bytes (xs @ ys) off n = rd_bytes xs off n"
  by (simp add: rd_bytes_def)

lemma rd_bytes_append_right:
  "rd_bytes (xs @ ys) (length xs + off) n = rd_bytes ys off n"
  by (simp add: rd_bytes_def)

lemma rd_bytes_prefix: "rd_bytes (xs @ ys) 0 (length xs) = Some xs"
  by (simp add: rd_bytes_def)

end
