(* ===== verification/Probing.thy ===== *)
theory Probing
  imports Prelude
begin

text \<open>
  Linear probing in general. Both hash tables of \<^verbatim>\<open>common/api.c\<close> walk their slot array
  from the hash of the key with \<^verbatim>\<open>hash = (hash + 1 == alloc ? 0 : hash + 1)\<close> until they
  meet the key or an empty slot. This theory proves once what both need: inserting at the empty slot
  that ended a probe keeps every stored key findable, a probe in a table with an empty slot ends
  within \<open>alloc\<close> steps, and a probe that has not ended by then never ends. It models no code
  of its own.
\<close>

definition next_slot :: "nat \<Rightarrow> nat \<Rightarrow> nat" where
  "next_slot alloc i = (if i + 1 = alloc then 0 else i + 1)"

datatype probed = Spin | Free nat | At nat

fun probe :: "nat \<Rightarrow> (nat \<Rightarrow> 'k option) \<Rightarrow> 'k \<Rightarrow> nat \<Rightarrow> nat \<Rightarrow> probed" where
  "probe alloc occ k 0 i = Spin"
| "probe alloc occ k (Suc f) i =
     (case occ i of
        None \<Rightarrow> Free i
      | Some k' \<Rightarrow> if k' = k then At i else probe alloc occ k f (next_slot alloc i))"

lemma next_slot_less: "i < alloc \<Longrightarrow> next_slot alloc i < alloc"
  by (auto simp: next_slot_def)

lemma next_slot_mod: "i < alloc \<Longrightarrow> next_slot alloc i = (i + 1) mod alloc"
  by (auto simp: next_slot_def)

lemma probe_At_occ: "probe alloc occ k f s = At j \<Longrightarrow> occ j = Some k"
  by (induction f arbitrary: s) (auto split: option.splits if_splits)

lemma probe_Free_occ: "probe alloc occ k f s = Free j \<Longrightarrow> occ j = None"
  by (induction f arbitrary: s) (auto split: option.splits if_splits)

lemma probe_less: "s < alloc \<Longrightarrow> probe alloc occ k f s = At j \<Longrightarrow> j < alloc"
  by (induction f arbitrary: s) (auto split: option.splits if_splits intro: next_slot_less)

lemma probe_Free_less: "s < alloc \<Longrightarrow> probe alloc occ k f s = Free j \<Longrightarrow> j < alloc"
  by (induction f arbitrary: s) (auto split: option.splits if_splits intro: next_slot_less)

lemma probe_At_insert:
  "probe alloc occ k' f s = At j \<Longrightarrow> occ i = None \<Longrightarrow>
   probe alloc (occ(i := Some k)) k' f s = At j"
  by (induction f arbitrary: s) (auto split: option.splits if_splits)

lemma probe_Free_insert:
  "probe alloc occ k f s = Free i \<Longrightarrow> probe alloc (occ(i := Some k)) k f s = At i"
  by (induction f arbitrary: s) (auto split: option.splits if_splits dest: probe_Free_occ)

lemma probe_Spin_iff:
  "s < alloc \<Longrightarrow>
   probe alloc occ k f s = Spin \<longleftrightarrow> (\<forall>j<f. \<exists>k'. occ ((s + j) mod alloc) = Some k' \<and> k' \<noteq> k)"
proof (induction f arbitrary: s)
  case 0
  then show ?case by simp
next
  case (Suc f)
  have step: "(next_slot alloc s + j) mod alloc = (s + Suc j) mod alloc" for j
    using Suc.prems by (simp add: next_slot_mod mod_simps)
  show ?case
    using Suc by (auto simp: next_slot_less step less_Suc_eq_0_disj
        split: option.splits if_splits)
qed

lemma slot_reached:
  assumes "s < (alloc :: nat)" "i < alloc"
  shows "\<exists>j<alloc. (s + j) mod alloc = i"
proof (cases "s \<le> i")
  case True
  then show ?thesis using assms by (intro exI [of _ "i - s"]) auto
next
  case False
  then have "(s + (alloc - s + i)) mod alloc = i" "alloc - s + i < alloc" using assms by auto
  then show ?thesis by blast
qed

lemma probe_ends:
  assumes "s < alloc" "i < alloc" "occ i = None"
  shows "probe alloc occ k alloc s \<noteq> Spin"
proof -
  obtain j where "j < alloc" "(s + j) mod alloc = i" using slot_reached [OF assms(1,2)] by blast
  then show ?thesis using assms by (auto simp: probe_Spin_iff)
qed

text \<open>The bound \<open>alloc\<close> on the number of steps is exact: a probe still running then runs for ever.\<close>

lemma probe_Spin_forever:
  assumes "s < alloc" "probe alloc occ k alloc s = Spin"
  shows "probe alloc occ k f s = Spin"
proof -
  have "\<exists>k'. occ ((s + j) mod alloc) = Some k' \<and> k' \<noteq> k" for j
  proof -
    have "j mod alloc < alloc" using assms(1) by (intro mod_less_divisor) simp
    then have "\<exists>k'. occ ((s + j mod alloc) mod alloc) = Some k' \<and> k' \<noteq> k"
      using assms by (auto simp: probe_Spin_iff)
    then show ?thesis by (simp add: mod_add_right_eq)
  qed
  then show ?thesis using assms(1) by (simp add: probe_Spin_iff)
qed

section \<open>The invariant of a probed table\<close>

definition well_placed :: "nat \<Rightarrow> (nat \<Rightarrow> 'k option) \<Rightarrow> ('k \<Rightarrow> nat) \<Rightarrow> bool" where
  "well_placed alloc occ hash \<longleftrightarrow>
     (\<forall>k. hash k < alloc) \<and>
     (\<forall>i<alloc. \<forall>k. occ i = Some k \<longrightarrow> probe alloc occ k alloc (hash k) = At i)"

definition keys_of :: "nat \<Rightarrow> (nat \<Rightarrow> 'k option) \<Rightarrow> 'k set" where
  "keys_of alloc occ = {k. \<exists>i<alloc. occ i = Some k}"

lemma keys_of_empty [simp]: "keys_of alloc (\<lambda>_. None) = {}"
  by (simp add: keys_of_def)

lemma well_placed_empty: "0 < alloc \<Longrightarrow> (\<And>k. hash k < alloc) \<Longrightarrow> well_placed alloc (\<lambda>_. None) hash"
  by (simp add: well_placed_def)

lemma finite_keys_of [simp]: "finite (keys_of alloc occ)"
proof -
  have "keys_of alloc occ = (\<lambda>i. the (occ i)) ` {i. i < alloc \<and> occ i \<noteq> None}"
    by (force simp: keys_of_def image_iff)
  then show ?thesis by simp
qed

lemma probe_At_iff:
  assumes "well_placed alloc occ hash"
  shows "(\<exists>i. probe alloc occ k alloc (hash k) = At i) \<longleftrightarrow> k \<in> keys_of alloc occ"
proof
  assume "\<exists>i. probe alloc occ k alloc (hash k) = At i"
  then obtain i where i: "probe alloc occ k alloc (hash k) = At i" by blast
  then have "i < alloc" using assms probe_less by (metis well_placed_def)
  then show "k \<in> keys_of alloc occ" using probe_At_occ [OF i] by (auto simp: keys_of_def)
qed (use assms in \<open>auto simp: well_placed_def keys_of_def\<close>)

lemma keys_of_insert:
  "i < alloc \<Longrightarrow> occ i = None \<Longrightarrow> keys_of alloc (occ(i := Some k)) = insert k (keys_of alloc occ)"
proof (rule set_eqI)
  fix x assume a: "i < alloc" "occ i = None"
  have "(\<exists>j<alloc. (occ(i := Some k)) j = Some x) \<longleftrightarrow> x = k \<or> (\<exists>j<alloc. occ j = Some x)"
    using a by (metis fun_upd_apply option.distinct(1) option.inject)
  then show "x \<in> keys_of alloc (occ(i := Some k)) \<longleftrightarrow> x \<in> insert k (keys_of alloc occ)"
    by (simp add: keys_of_def)
qed

lemma well_placed_insert:
  assumes wp: "well_placed alloc occ hash" and free: "probe alloc occ k alloc (hash k) = Free i"
  shows "well_placed alloc (occ(i := Some k)) hash"
proof -
  have "occ i = None" using free by (rule probe_Free_occ)
  then show ?thesis using wp free
    by (auto simp: well_placed_def probe_At_insert probe_Free_insert split: if_splits)
qed

lemma probe_insert_other:
  assumes wp: "well_placed alloc occ hash" and free: "probe alloc occ k alloc (hash k) = Free i"
    and "k' \<noteq> k"
  shows "probe alloc (occ(i := Some k)) k' alloc (hash k') = At j \<longleftrightarrow>
         probe alloc occ k' alloc (hash k') = At j"
proof
  assume a: "probe alloc (occ(i := Some k)) k' alloc (hash k') = At j"
  then have "j < alloc" using wp by (auto simp: well_placed_def intro: probe_less)
  moreover have "occ j = Some k'" using probe_At_occ [OF a] assms(3) by (auto split: if_splits)
  ultimately show "probe alloc occ k' alloc (hash k') = At j" using wp by (auto simp: well_placed_def)
qed (use free in \<open>auto simp: probe_Free_occ probe_At_insert\<close>)

text \<open>A table with fewer keys than slots has an empty slot, so no probe spins in it.\<close>

lemma empty_slot_exists:
  assumes "well_placed alloc occ hash" "card (keys_of alloc occ) < alloc"
  shows "\<exists>i<alloc. occ i = None"
proof (rule ccontr)
  assume "\<not> ?thesis"
  then have full: "occ i \<noteq> None" if "i < alloc" for i using that by auto
  have "inj_on (\<lambda>i. the (occ i)) {..<alloc}"
  proof (rule inj_onI)
    fix i j assume "i \<in> {..<alloc}" "j \<in> {..<alloc}" "the (occ i) = the (occ j)"
    moreover from this obtain k where "occ i = Some k" "occ j = Some k"
      using full [of i] full [of j] by auto
    ultimately have "probe alloc occ k alloc (hash k) = At i \<and> probe alloc occ k alloc (hash k) = At j"
      using assms(1) unfolding well_placed_def by blast
    then show "i = j" by (metis probed.inject(2))
  qed
  then have "card ((\<lambda>i. the (occ i)) ` {..<alloc}) = alloc" by (simp add: card_image)
  moreover have "(\<lambda>i. the (occ i)) ` {..<alloc} \<subseteq> keys_of alloc occ"
    using full by (fastforce simp: keys_of_def)
  ultimately have "alloc \<le> card (keys_of alloc occ)"
    by (metis card_mono finite_keys_of)
  then show False using assms(2) by simp
qed

lemma probe_no_spin:
  assumes "well_placed alloc occ hash" "card (keys_of alloc occ) < alloc"
  shows "probe alloc occ k alloc (hash k) \<noteq> Spin"
proof -
  obtain i where "i < alloc" "occ i = None" using empty_slot_exists [OF assms] by blast
  then show ?thesis using assms(1) by (intro probe_ends) (auto simp: well_placed_def)
qed

lemma probe_cases_placed:
  assumes "well_placed alloc occ hash" "card (keys_of alloc occ) < alloc"
  obtains (At) i where "probe alloc occ k alloc (hash k) = At i" "k \<in> keys_of alloc occ"
        | (Free) i where "probe alloc occ k alloc (hash k) = Free i" "k \<notin> keys_of alloc occ" "i < alloc"
proof (cases "probe alloc occ k alloc (hash k)")
  case Spin
  then show ?thesis using probe_no_spin [OF assms] by blast
next
  case (Free i)
  then have "\<not> (\<exists>i. probe alloc occ k alloc (hash k) = At i)" by simp
  then have "k \<notin> keys_of alloc occ" using probe_At_iff [OF assms(1)] by blast
  moreover have "i < alloc" using Free assms(1) by (auto simp: well_placed_def intro: probe_Free_less)
  ultimately show ?thesis using Free that(2) by blast
next
  case (At i)
  then show ?thesis using that(1) probe_At_iff [OF assms(1)] by blast
qed

section \<open>Values stored in the slots\<close>

definition plookup ::
  "nat \<Rightarrow> (nat \<Rightarrow> 'k option) \<Rightarrow> ('k \<Rightarrow> nat) \<Rightarrow> (nat \<Rightarrow> 'v) \<Rightarrow> 'k \<Rightarrow> 'v option" where
  "plookup alloc occ hash val k =
     (case probe alloc occ k alloc (hash k) of At i \<Rightarrow> Some (val i) | _ \<Rightarrow> None)"

lemma plookup_keys:
  assumes "well_placed alloc occ hash"
  shows "plookup alloc occ hash val k = None \<longleftrightarrow> k \<notin> keys_of alloc occ"
  using probe_At_iff [OF assms, of k] by (auto simp: plookup_def split: probed.splits)

lemma plookup_NoneI: "\<forall>j. probe alloc occ k alloc (hash k) \<noteq> At j \<Longrightarrow> plookup alloc occ hash val k = None"
  by (auto simp: plookup_def split: probed.splits)

lemma plookup_insert:
  assumes wp: "well_placed alloc occ hash" and free: "probe alloc occ k alloc (hash k) = Free i"
  shows "plookup alloc (occ(i := Some k)) hash (val(i := v)) = (plookup alloc occ hash val)(k := Some v)"
proof (rule ext)
  fix x
  have empty: "occ i = None" using free by (rule probe_Free_occ)
  show "plookup alloc (occ(i := Some k)) hash (val(i := v)) x =
      ((plookup alloc occ hash val)(k := Some v)) x"
  proof (cases "x = k")
    case True
    then show ?thesis using probe_Free_insert [OF free] by (simp add: plookup_def)
  next
    case False
    note same = probe_insert_other [OF wp free False]
    show ?thesis
    proof (cases "\<exists>j. probe alloc occ x alloc (hash x) = At j")
      case True
      then obtain j where j: "probe alloc occ x alloc (hash x) = At j" by blast
      then have "j \<noteq> i" using empty by (auto dest: probe_At_occ)
      then show ?thesis using j same [of j] False by (simp add: plookup_def)
    qed (use same False in \<open>simp add: plookup_NoneI\<close>)
  qed
qed

lemma plookup_overwrite:
  assumes "probe alloc occ k alloc (hash k) = At i"
  shows "plookup alloc occ hash (val(i := v)) = (plookup alloc occ hash val)(k := Some v)"
proof (rule ext)
  fix x
  have at: "occ i = Some k" using assms by (rule probe_At_occ)
  show "plookup alloc occ hash (val(i := v)) x = ((plookup alloc occ hash val)(k := Some v)) x"
  proof (cases "probe alloc occ x alloc (hash x)")
    case (At j)
    then have "occ j = Some x" by (rule probe_At_occ)
    then show ?thesis using At at assms by (auto simp: plookup_def)
  qed (use assms in \<open>auto simp: plookup_def\<close>)
qed

end
