(* ===== verification/Layers.thy ===== *)
theory Layers
  imports Prelude
begin

text \<open>
  Tables that grow by adding a layer. Both hash tables of \<^verbatim>\<open>common/api.c\<close> never move their
  entries: when a layer passes a quarter of its slots, an empty layer of twice the size is put in front
  of it, and a lookup that misses in front copies the older entry forward. This theory gives the two
  operations over any kind of layer, the interface their clients use (locale \<open>kv_table\<close>), what a
  layer has to promise (locale \<open>layered\<close>), and the proof that the second gives the first
  (\<^theory_text>\<open>sublocale\<close>). The concrete tables are HashTable64 and HashTableBytes.
\<close>

section \<open>The interface of a table\<close>

text \<open>
  What the clients of a table use: a lookup returns the contents and keeps them, and a compare-exchange
  from 0 enters a key that is absent, or returns the value of a key that a lookup has just found.
\<close>

locale kv_table =
  fixes get :: "'t \<Rightarrow> 'k \<Rightarrow> ('t \<times> i64) option"
    and put :: "'t \<Rightarrow> 'k \<Rightarrow> i64 \<Rightarrow> ('t \<times> i64) option"
    and contents :: "'t \<Rightarrow> 'k \<Rightarrow> i64"
    and ok :: "'t \<Rightarrow> bool"
    and valid :: "'k \<Rightarrow> bool"
  assumes get_law: "ok t \<Longrightarrow> valid k \<Longrightarrow>
      \<exists>t'. get t k = Some (t', contents t k) \<and> ok t' \<and> contents t' = contents t"
    and put_law: "ok t \<Longrightarrow> valid k \<Longrightarrow> contents t k = 0 \<Longrightarrow>
      \<exists>t'. put t k v = Some (t', 0) \<and> ok t' \<and> contents t' = (contents t)(k := v)"
    and put_found_law: "ok t \<Longrightarrow> valid k \<Longrightarrow> get t k = Some (t1, w) \<Longrightarrow> w \<noteq> 0 \<Longrightarrow>
      \<exists>t2. put t1 k v = Some (t2, w) \<and> ok t2 \<and> contents t2 = contents t"

fun put_all :: "('t \<Rightarrow> 'k \<Rightarrow> i64 \<Rightarrow> ('t \<times> i64) option) \<Rightarrow> 't \<Rightarrow> ('k \<times> i64) list \<Rightarrow> 't option" where
  "put_all put t [] = Some t"
| "put_all put t ((k, v) # kvs) =
     (case put t k v of None \<Rightarrow> None | Some (t', _) \<Rightarrow> put_all put t' kvs)"

context kv_table
begin

lemma put_all_contents:
  assumes "ok t" "distinct (map fst kvs)" "\<And>k. k \<in> fst ` set kvs \<Longrightarrow> valid k \<and> contents t k = 0"
  shows "\<exists>t'. put_all put t kvs = Some t' \<and> ok t' \<and>
           (\<forall>k. contents t' k = (case map_of kvs k of Some v \<Rightarrow> v | None \<Rightarrow> contents t k))"
  using assms
proof (induction kvs arbitrary: t)
  case Nil
  then show ?case by simp
next
  case (Cons kv kvs)
  obtain k v where kv: "kv = (k, v)" by fastforce
  have "valid k" "contents t k = 0" using Cons.prems kv by auto
  then obtain t1 where t1: "put t k v = Some (t1, 0)" "ok t1" "contents t1 = (contents t)(k := v)"
    using put_law [OF Cons.prems(1)] by metis
  obtain t' where t': "put_all put t1 kvs = Some t'" "ok t'"
      "\<forall>k. contents t' k = (case map_of kvs k of Some v \<Rightarrow> v | None \<Rightarrow> contents t1 k)"
  proof (atomize_elim, rule Cons.IH [OF t1(2)])
    show "distinct (map fst kvs)" using Cons.prems by auto
    show "valid k' \<and> contents t1 k' = 0" if "k' \<in> fst ` set kvs" for k'
      using that Cons.prems(2,3) kv t1(3) by auto
  qed
  have "map_of kvs k = None" using Cons.prems(2) kv by (simp add: map_of_eq_None_iff)
  then have "contents t' k' = (case map_of (kv # kvs) k' of Some v \<Rightarrow> v | None \<Rightarrow> contents t k')" for k'
    using t'(3) t1(3) kv by (cases "k' = k"; cases "map_of kvs k'") auto
  then show ?case using t1(1) t'(1,2) kv by auto
qed

lemma get_after_put:
  assumes "ok t" "valid k" "contents t k = 0"
  shows "\<exists>t1 t2. put t k v = Some (t1, 0) \<and> get t1 k = Some (t2, v) \<and> ok t2"
  using put_law [OF assms, of v] get_law [of _ k] assms(2) by (metis fun_upd_same)

lemma lookup_then_put:
  assumes "ok t" "valid k"
  shows "\<exists>t1 t2. get t k = Some (t1, contents t k) \<and> put t1 k v = Some (t2, contents t k) \<and> ok t2 \<and>
           contents t2 = (if contents t k = 0 then (contents t)(k := v) else contents t)"
proof -
  obtain t1 where t1: "get t k = Some (t1, contents t k)" "ok t1" "contents t1 = contents t"
    using get_law [OF assms] by blast
  then show ?thesis
    using put_law [OF t1(2) assms(2), of v] put_found_law [OF assms t1(1), of v]
    by (cases "contents t k = 0") auto
qed

end

section \<open>Layers\<close>

fun chain_get ::
  "('l \<Rightarrow> 'k \<Rightarrow> i64 option option) \<Rightarrow> ('l \<Rightarrow> 'k \<Rightarrow> i64 \<Rightarrow> ('l \<times> i64) option) \<Rightarrow>
   'l list \<Rightarrow> 'k \<Rightarrow> ('l list \<times> i64) option" where
  "chain_get scan upd [] key = None"
| "chain_get scan upd (h # prev) key =
     (case scan h key of
        None \<Rightarrow> None
      | Some (Some v) \<Rightarrow> Some (h # prev, v)
      | Some None \<Rightarrow>
          if prev = [] then Some (h # prev, 0)
          else case chain_get scan upd prev key of
              None \<Rightarrow> None
            | Some (prev', val) \<Rightarrow>
                if val \<noteq> 0 then
                  (case upd h key val of
                     None \<Rightarrow> None
                   | Some (h', res) \<Rightarrow> Some (h' # prev', if res \<noteq> 0 then res else val))
                else Some (h # prev', val))"

definition chain_put ::
  "('l \<Rightarrow> 'k \<Rightarrow> i64 \<Rightarrow> ('l \<times> i64) option) \<Rightarrow> ('l \<Rightarrow> bool) \<Rightarrow> ('l \<Rightarrow> 'l) \<Rightarrow> ('l \<Rightarrow> 'l) \<Rightarrow>
   'l list \<Rightarrow> 'k \<Rightarrow> i64 \<Rightarrow> ('l list \<times> i64) option" where
  "chain_put upd grow fresh mark hs key nv =
     (case hs of
        [] \<Rightarrow> None
      | h # prev \<Rightarrow>
          (case upd h key nv of
             None \<Rightarrow> None
           | Some (h', r) \<Rightarrow>
               if r = 0 \<and> grow h' then Some (fresh h' # mark h' # prev, r)
               else Some (h' # prev, r)))"

text \<open>
  Copies of older entries add to the length of a layer without the growth test, so the bound that keeps
  a slot empty is on the distinct keys of a layer and all the older ones.
\<close>

fun chain_keys :: "('l \<Rightarrow> 'k set) \<Rightarrow> 'l list \<Rightarrow> 'k set" where
  "chain_keys keys [] = {}"
| "chain_keys keys (h # prev) = keys h \<union> chain_keys keys prev"

fun chain_ok :: "('l \<Rightarrow> bool) \<Rightarrow> ('l \<Rightarrow> 'k set) \<Rightarrow> ('l \<Rightarrow> nat) \<Rightarrow> 'l list \<Rightarrow> bool" where
  "chain_ok ok keys alloc [] \<longleftrightarrow> True"
| "chain_ok ok keys alloc (h # prev) \<longleftrightarrow>
     ok h \<and> 8 \<le> alloc h \<and>
     card (keys h - chain_keys keys prev) \<le> alloc h div 4 + 1 \<and>
     (prev \<noteq> [] \<longrightarrow> alloc h = 2 * alloc (hd prev)) \<and> chain_ok ok keys alloc prev"

definition chain_table_ok ::
  "('l \<Rightarrow> bool) \<Rightarrow> ('l \<Rightarrow> 'k set) \<Rightarrow> ('l \<Rightarrow> nat) \<Rightarrow> ('l \<Rightarrow> bool) \<Rightarrow> 'l list \<Rightarrow> bool" where
  "chain_table_ok ok keys alloc flag hs \<longleftrightarrow>
     hs \<noteq> [] \<and> chain_ok ok keys alloc hs \<and> \<not> flag (hd hs) \<and>
     card (keys (hd hs) - chain_keys keys (tl hs)) \<le> alloc (hd hs) div 4"

fun chain_abs :: "('l \<Rightarrow> 'k \<Rightarrow> i64 option) \<Rightarrow> 'l list \<Rightarrow> 'k \<Rightarrow> i64" where
  "chain_abs lookup [] key = 0"
| "chain_abs lookup (h # prev) key =
     (case lookup h key of Some v \<Rightarrow> v | None \<Rightarrow> chain_abs lookup prev key)"

text \<open>What a layer promises.\<close>

locale layered =
  fixes scan :: "'l \<Rightarrow> 'k \<Rightarrow> i64 option option"
    and upd :: "'l \<Rightarrow> 'k \<Rightarrow> i64 \<Rightarrow> ('l \<times> i64) option"
    and grow :: "'l \<Rightarrow> bool" and fresh :: "'l \<Rightarrow> 'l" and mark :: "'l \<Rightarrow> 'l"
    and ok :: "'l \<Rightarrow> bool" and keys :: "'l \<Rightarrow> 'k set" and alloc :: "'l \<Rightarrow> nat"
    and flag :: "'l \<Rightarrow> bool" and lookup :: "'l \<Rightarrow> 'k \<Rightarrow> i64 option" and valid :: "'k \<Rightarrow> bool"
  assumes finite_keys: "finite (keys h)"
    and lookup_keys: "ok h \<Longrightarrow> lookup h k = None \<longleftrightarrow> k \<notin> keys h"
    and scan_law: "ok h \<Longrightarrow> card (keys h) < alloc h \<Longrightarrow> valid k \<Longrightarrow> scan h k = Some (lookup h k)"
    and upd_law: "ok h \<Longrightarrow> card (keys h) < alloc h \<Longrightarrow> valid k \<Longrightarrow>
      \<exists>h' r. upd h k nv = Some (h', r) \<and> ok h' \<and> alloc h' = alloc h \<and> flag h' = flag h \<and>
        keys h' = insert k (keys h) \<and> r = (case lookup h k of Some w \<Rightarrow> w | None \<Rightarrow> 0) \<and>
        lookup h' = (if r \<noteq> 0 then lookup h else (lookup h)(k := Some nv))"
    and grow_law: "ok h \<Longrightarrow> \<not> flag h \<Longrightarrow> grow h \<longleftrightarrow> card (keys h) > alloc h div 4"
    and fresh_law: "ok h \<Longrightarrow> 8 \<le> alloc h \<Longrightarrow>
      ok (fresh h) \<and> keys (fresh h) = {} \<and> alloc (fresh h) = 2 * alloc h \<and> \<not> flag (fresh h)"
    and mark_law: "ok h \<Longrightarrow>
      ok (mark h) \<and> keys (mark h) = keys h \<and> alloc (mark h) = alloc h \<and> lookup (mark h) = lookup h"
begin

lemma finite_chain_keys: "finite (chain_keys keys hs)"
  by (induction hs) (auto simp: finite_keys)

lemma chain_card: "chain_ok ok keys alloc (h # prev) \<Longrightarrow>
    4 * card (chain_keys keys (h # prev)) \<le> 3 * alloc h"
proof (induction prev arbitrary: h)
  case Nil
  then show ?case by auto
next
  case (Cons g prev)
  have "4 * card (chain_keys keys (g # prev)) \<le> 3 * alloc g" using Cons by simp
  moreover have "alloc h = 2 * alloc g" "8 \<le> alloc h" using Cons.prems by simp_all
  moreover have "card (keys h - chain_keys keys (g # prev)) \<le> alloc h div 4 + 1"
    using Cons.prems chain_ok.simps(2) [of ok keys alloc h "g # prev"] by blast
  then have "4 * card (keys h - chain_keys keys (g # prev)) \<le> alloc h + 4" by linarith
  moreover have "chain_keys keys (h # g # prev) =
      (keys h - chain_keys keys (g # prev)) \<union> chain_keys keys (g # prev)" by auto
  then have "card (chain_keys keys (h # g # prev)) \<le>
      card (keys h - chain_keys keys (g # prev)) + card (chain_keys keys (g # prev))"
    by (metis card_Un_le)
  ultimately show ?case by linarith
qed

lemma chain_room: "chain_ok ok keys alloc (h # prev) \<Longrightarrow> card (keys h) < alloc h"
proof -
  assume ok: "chain_ok ok keys alloc (h # prev)"
  have "card (keys h) \<le> card (chain_keys keys (h # prev))"
    by (intro card_mono finite_chain_keys) simp
  then show ?thesis using chain_card [OF ok] ok by (simp del: chain_keys.simps)
qed

lemma abs_update:
  assumes "lookup h k = None" "lookup h' = (lookup h)(k := Some (chain_abs lookup prev k))"
    "chain_abs lookup prev' = chain_abs lookup prev"
  shows "chain_abs lookup (h' # prev') = chain_abs lookup (h # prev)"
proof (rule ext)
  show "chain_abs lookup (h' # prev') x = chain_abs lookup (h # prev) x" for x
    using assms(1) by (cases "x = k") (simp_all only: chain_abs.simps assms(2,3) fun_upd_apply
        if_True if_False option.case simp_thms)
qed

lemma chain_get_step:
  assumes "chain_ok ok keys alloc hs" "hs \<noteq> []" "valid key"
  shows "\<exists>hs'. chain_get scan upd hs key = Some (hs', chain_abs lookup hs key) \<and>
           chain_ok ok keys alloc hs' \<and>
           map alloc hs' = map alloc hs \<and> map flag hs' = map flag hs \<and>
           chain_keys keys hs' = chain_keys keys hs \<and> chain_abs lookup hs' = chain_abs lookup hs \<and>
           keys (hd hs') - chain_keys keys (tl hs') = keys (hd hs) - chain_keys keys (tl hs) \<and>
           (chain_abs lookup hs key \<noteq> 0 \<longrightarrow>
            lookup (hd hs') key = Some (chain_abs lookup hs key))"
  using assms
proof (induction hs)
  case Nil
  then show ?case by simp
next
  case (Cons h prev)
  have ok: "ok h" and room: "card (keys h) < alloc h" using Cons.prems chain_room by auto
  note found = scan_law [OF ok room Cons.prems(3)]
  show ?case
  proof (cases "lookup h key \<noteq> None \<or> prev = []")
    case True
    then show ?thesis using found Cons.prems by (auto split: option.splits)
  next
    case False
    then have None: "lookup h key = None" and ne0: "prev \<noteq> []" by auto
    obtain prev' where get: "chain_get scan upd prev key = Some (prev', chain_abs lookup prev key)"
      and ok': "chain_ok ok keys alloc prev'" "map alloc prev' = map alloc prev"
        "map flag prev' = map flag prev" "chain_keys keys prev' = chain_keys keys prev"
        "chain_abs lookup prev' = chain_abs lookup prev"
      and mem: "chain_abs lookup prev key \<noteq> 0 \<longrightarrow>
        lookup (hd prev') key = Some (chain_abs lookup prev key)"
      using Cons ne0 by auto
    have ne: "prev' \<noteq> []" using ok'(2) ne0 by auto
    then have hd: "alloc (hd prev') = alloc (hd prev)" using ok'(2) ne0
      by (cases prev; cases prev') auto
    show ?thesis
    proof (cases "chain_abs lookup prev key = 0")
      case True
      have "chain_abs lookup (h # prev') = chain_abs lookup (h # prev)"
        by (rule ext) (simp only: chain_abs.simps ok'(5))
      then show ?thesis using None found True ne0 get ok' hd ne Cons.prems by auto
    next
      case val: False
      obtain h' where h': "upd h key (chain_abs lookup prev key) = Some (h', 0)" "ok h'"
        "alloc h' = alloc h" "flag h' = flag h" "keys h' = insert key (keys h)"
        "lookup h' = (lookup h)(key := Some (chain_abs lookup prev key))"
        using upd_law [OF ok room Cons.prems(3), of "chain_abs lookup prev key"] None by force
      have "ok (hd prev')" using ok'(1) ne by (cases prev') auto
      then have "key \<in> keys (hd prev')" using mem val lookup_keys [of "hd prev'" key] by simp
      then have "key \<in> chain_keys keys prev'" using ne by (cases prev') auto
      then have diff: "keys h' - chain_keys keys prev = keys h - chain_keys keys prev"
        and un: "keys h' \<union> chain_keys keys prev = keys h \<union> chain_keys keys prev"
        using h'(5) ok'(4) by auto
      show ?thesis
        using None found ne0 get val h' ok' hd ne Cons.prems diff un
          abs_update [OF None h'(6) ok'(5)] by auto
    qed
  qed
qed

lemma chain_get_ok:
  assumes "chain_table_ok ok keys alloc flag hs" "valid key"
  shows "\<exists>hs'. chain_get scan upd hs key = Some (hs', chain_abs lookup hs key) \<and>
    chain_table_ok ok keys alloc flag hs' \<and> chain_abs lookup hs' = chain_abs lookup hs \<and>
    (chain_abs lookup hs key \<noteq> 0 \<longrightarrow> lookup (hd hs') key = Some (chain_abs lookup hs key))"
proof -
  have "chain_ok ok keys alloc hs" "hs \<noteq> []" using assms(1) by (auto simp: chain_table_ok_def)
  then obtain hs' where hs': "chain_get scan upd hs key = Some (hs', chain_abs lookup hs key)"
      "chain_ok ok keys alloc hs'" "map alloc hs' = map alloc hs" "map flag hs' = map flag hs"
      "chain_abs lookup hs' = chain_abs lookup hs"
      "keys (hd hs') - chain_keys keys (tl hs') = keys (hd hs) - chain_keys keys (tl hs)"
      "chain_abs lookup hs key \<noteq> 0 \<longrightarrow> lookup (hd hs') key = Some (chain_abs lookup hs key)"
    using chain_get_step [OF _ _ assms(2)] by metis
  have "hs' \<noteq> []" using hs'(3) \<open>hs \<noteq> []\<close> by auto
  then have "chain_table_ok ok keys alloc flag hs'"
    using hs' assms(1) by (cases hs; cases hs') (auto simp: chain_table_ok_def)
  then show ?thesis using hs' by blast
qed

text \<open>
  The operations beside get and put write to the newest layer, after copying the entry there when an
  older layer has it.
\<close>

lemma front_ok:
  assumes "chain_table_ok ok keys alloc flag (h # prev)"
    "ok h'" "alloc h' = alloc h" "flag h' = flag h" "keys h' = keys h"
  shows "chain_table_ok ok keys alloc flag (h' # prev)"
  using assms by (simp add: chain_table_ok_def)

lemma migrate_ok:
  assumes tok: "chain_table_ok ok keys alloc flag (h # prev)" and key: "valid key"
    and None: "lookup h key = None" and ne: "prev \<noteq> []"
  shows "\<exists>prev'. chain_get scan upd prev key = Some (prev', chain_abs lookup prev key) \<and>
    chain_table_ok ok keys alloc flag (h # prev') \<and>
    chain_abs lookup (h # prev') = chain_abs lookup (h # prev) \<and>
    (chain_abs lookup prev key \<noteq> 0 \<longrightarrow> (\<exists>h'. upd h key v = Some (h', 0) \<and>
      chain_table_ok ok keys alloc flag (h' # prev') \<and> lookup h' key = Some v \<and>
      chain_abs lookup (h' # prev') = (chain_abs lookup (h # prev))(key := v)))"
proof -
  have cok: "chain_ok ok keys alloc prev" and lok: "ok h" and cok2: "chain_ok ok keys alloc (h # prev)"
    using tok by (auto simp: chain_table_ok_def)
  obtain prev' where p: "chain_get scan upd prev key = Some (prev', chain_abs lookup prev key)"
      "chain_ok ok keys alloc prev'" "map alloc prev' = map alloc prev"
      "chain_keys keys prev' = chain_keys keys prev" "chain_abs lookup prev' = chain_abs lookup prev"
    and mem: "chain_abs lookup prev key \<noteq> 0 \<longrightarrow> lookup (hd prev') key = Some (chain_abs lookup prev key)"
    using chain_get_step [OF cok ne key] by metis
  have ne': "prev' \<noteq> []" using p(3) ne by auto
  have hd: "alloc (hd prev') = alloc (hd prev)" using p(3) ne by (cases prev; cases prev') auto
  have old: "chain_table_ok ok keys alloc flag (h # prev')"
    using tok [unfolded chain_table_ok_def chain_ok.simps list.sel] p(2) ne
    unfolding chain_table_ok_def chain_ok.simps list.sel p(4) hd by blast
  have same: "chain_abs lookup (h # prev') = chain_abs lookup (h # prev)"
    by (rule ext) (simp only: chain_abs.simps p(5))
  obtain h' where h': "upd h key v = Some (h', 0)" "ok h'" "alloc h' = alloc h" "flag h' = flag h"
      "keys h' = insert key (keys h)" "lookup h' = (lookup h)(key := Some v)"
    using upd_law [OF lok chain_room [OF cok2] key, of v] None by force
  {
    assume "chain_abs lookup prev key \<noteq> 0"
    moreover have "ok (hd prev')" using p(2) ne' by (cases prev') auto
    ultimately have "key \<in> keys (hd prev')" using mem lookup_keys [of "hd prev'" key] by simp
    then have "key \<in> chain_keys keys prev'" using ne' by (cases prev') auto
    then have "keys h' - chain_keys keys prev' = keys h - chain_keys keys prev'" using h'(5) by auto
    then have "chain_table_ok ok keys alloc flag (h' # prev')"
      using old h'(2-4) by (simp add: chain_table_ok_def)
  }
  moreover have "chain_abs lookup (h' # prev') = (chain_abs lookup (h # prev))(key := v)"
  proof (rule ext)
    show "chain_abs lookup (h' # prev') x = ((chain_abs lookup (h # prev))(key := v)) x" for x
      by (cases "x = key") (simp_all only: chain_abs.simps h'(6) p(5) fun_upd_apply
          if_True if_False option.case simp_thms)
  qed
  ultimately show ?thesis using p(1) old same h'(1,6) by auto
qed

lemma put_few:
  assumes ok: "chain_table_ok ok keys alloc flag (h # prev)"
    and h': "ok h'" "alloc h' = alloc h" "keys h' = insert key (keys h)"
    and small: "key \<in> keys h \<or> card (keys h') \<le> alloc h div 4"
  shows "card (keys h' - chain_keys keys prev) \<le> alloc h div 4"
proof (cases "key \<in> keys h")
  case True
  then show ?thesis using ok h'(3) by (simp add: insert_absorb chain_table_ok_def)
next
  case False
  have "card (keys h' - chain_keys keys prev) \<le> card (keys h')"
    by (intro card_mono finite_keys) auto
  then show ?thesis using False small by simp
qed

lemma chain_put_ok:
  assumes ok: "chain_table_ok ok keys alloc flag (h # prev)" and key: "valid key"
  shows "\<exists>hs'. chain_put upd grow fresh mark (h # prev) key nv =
       Some (hs', case lookup h key of Some w \<Rightarrow> w | None \<Rightarrow> 0) \<and>
    chain_table_ok ok keys alloc flag hs' \<and>
    chain_abs lookup hs' =
      (if lookup h key \<notin> {None, Some 0} then chain_abs lookup (h # prev)
       else (chain_abs lookup (h # prev))(key := nv))"
proof -
  have lok: "ok h" and cok: "chain_ok ok keys alloc (h # prev)" and old: "\<not> flag h" and
    few: "card (keys h - chain_keys keys prev) \<le> alloc h div 4"
    using ok by (auto simp: chain_table_ok_def)
  obtain h' r where h': "upd h key nv = Some (h', r)" "ok h'" "alloc h' = alloc h" "flag h' = flag h"
      "keys h' = insert key (keys h)"
    and r: "r = (case lookup h key of Some w \<Rightarrow> w | None \<Rightarrow> 0)"
    and lk: "lookup h' = (if r \<noteq> 0 then lookup h else (lookup h)(key := Some nv))"
    using upd_law [OF lok chain_room [OF cok] key] by metis
  have "card (keys h' - chain_keys keys prev) \<le> card (insert key (keys h - chain_keys keys prev))"
    using h'(5) finite_keys by (intro card_mono) auto
  also have "\<dots> \<le> card (keys h - chain_keys keys prev) + 1"
    using finite_keys by (simp add: card_insert_if)
  finally have cok': "chain_ok ok keys alloc (h' # prev)" using few cok h' by simp
  have abs: "chain_abs lookup (h' # prev) =
      (if lookup h key \<notin> {None, Some 0} then chain_abs lookup (h # prev)
       else (chain_abs lookup (h # prev))(key := nv))"
    by (rule ext) (use lk r in \<open>auto split: option.splits if_splits\<close>)
  have grow': "grow h' \<longleftrightarrow> card (keys h') > alloc h div 4"
    using grow_law [OF h'(2)] h'(3,4) old by simp
  show ?thesis
  proof (cases "r = 0 \<and> grow h'")
    case True
    have f: "ok (fresh h')" "keys (fresh h') = {}" "alloc (fresh h') = 2 * alloc h'" "\<not> flag (fresh h')"
      using fresh_law [OF h'(2)] cok' by auto
    have m: "ok (mark h')" "keys (mark h') = keys h'" "alloc (mark h') = alloc h'"
      "lookup (mark h') = lookup h'" using mark_law [OF h'(2)] by auto
    have "lookup (fresh h') k = None" for k using lookup_keys [OF f(1)] f(2) by simp
    then have "chain_abs lookup (fresh h' # mark h' # prev) = chain_abs lookup (h' # prev)"
      by (intro ext) (simp add: m)
    moreover have "chain_table_ok ok keys alloc flag (fresh h' # mark h' # prev)"
      using cok' f m by (simp add: chain_table_ok_def)
    ultimately show ?thesis
      using True h'(1) abs r by (intro exI [of _ "fresh h' # mark h' # prev"]) (simp add: chain_put_def)
  next
    case False
    then have "key \<in> keys h \<or> card (keys h') \<le> alloc h div 4"
      using r lookup_keys [OF lok, of key] grow' by (auto split: option.splits)
    then have "card (keys h' - chain_keys keys prev) \<le> alloc h div 4"
      by (rule put_few [OF ok h'(2,3,5)])
    then have "chain_table_ok ok keys alloc flag (h' # prev)"
      using cok' h'(3,4) old by (simp add: chain_table_ok_def)
    then show ?thesis using False h'(1) abs r
      by (intro exI [of _ "h' # prev"]) (auto simp: chain_put_def)
  qed
qed

end

sublocale layered \<subseteq> kv_table "chain_get scan upd" "chain_put upd grow fresh mark"
    "chain_abs lookup" "chain_table_ok ok keys alloc flag" valid
proof
  fix t k v w t1
  assume ok: "chain_table_ok ok keys alloc flag t" and k: "valid k"
  show "\<exists>t'. chain_get scan upd t k = Some (t', chain_abs lookup t k) \<and>
      chain_table_ok ok keys alloc flag t' \<and> chain_abs lookup t' = chain_abs lookup t"
    using chain_get_ok [OF ok k] by blast
  obtain h prev where t: "t = h # prev" using ok by (cases t) (auto simp: chain_table_ok_def)
  {
    assume "chain_abs lookup t k = 0"
    then have "lookup h k = None \<or> lookup h k = Some 0" by (auto simp: t split: option.splits)
    then show "\<exists>t'. chain_put upd grow fresh mark t k v = Some (t', 0) \<and>
        chain_table_ok ok keys alloc flag t' \<and> chain_abs lookup t' = (chain_abs lookup t)(k := v)"
      using chain_put_ok [OF ok [unfolded t] k, of v, folded t] by (elim disjE) simp_all
  }
  {
    assume get: "chain_get scan upd t k = Some (t1, w)" and w: "w \<noteq> 0"
    then have t1: "chain_table_ok ok keys alloc flag t1" "chain_abs lookup t1 = chain_abs lookup t"
        "lookup (hd t1) k = Some w"
      using chain_get_ok [OF ok k] by auto
    obtain h1 prev1 where hp: "t1 = h1 # prev1" using t1(1) by (cases t1) (auto simp: chain_table_ok_def)
    then have "lookup h1 k = Some w" using t1(3) by simp
    then show "\<exists>t2. chain_put upd grow fresh mark t1 k v = Some (t2, w) \<and>
        chain_table_ok ok keys alloc flag t2 \<and> chain_abs lookup t2 = chain_abs lookup t"
      using chain_put_ok [OF t1(1) [unfolded hp] k, of v, folded hp] t1(2) w by simp
  }
qed

end
