(* ===== verification/HashTable64.thy ===== *)
theory HashTable64
  imports Probing Layers
begin

text \<open>
  The table from 64-bit keys to 64-bit values of \<^verbatim>\<open>common/api.c\<close> (lines 64 to 229), in the
  \<^verbatim>\<open>__CX16__\<close> build. A table is the list of its layers, newest first: the C field
  \<^verbatim>\<open>prev\<close> is the tail of the list. Slots hold the pair of a key and a value that the C code
  swaps with one 128-bit compare-exchange; the model gives the behaviour of one operation that no other
  thread disturbs, so the exchange succeeds when the slot holds what was expected. A loop of the C code
  that never ends is the value \<open>None\<close>: the loops get \<open>alloc\<close> steps, and
  \<open>probe_Spin_forever\<close> (theory Probing) shows that one still running then runs for ever.
\<close>

section \<open>The hash\<close>

definition hash_mix :: "i64 \<Rightarrow> i64" where
  "hash_mix key = key XOR signed_drop_bit 33 key"

definition GetInt64Hash :: "i64 \<Rightarrow> i64" where
  "GetInt64Hash key =
     (let key = key + 1;
          key = hash_mix key;
          key = key * 0xff51afd7ed558ccd;
          key = hash_mix key;
          key = key * 0xc4ceb9fe1a85ec53
      in hash_mix key)"

text \<open>
  The shifts are on a signed \<^verbatim>\<open>int64_t\<close>, so they copy the sign bit and the mixing step forgets
  it: the hash takes each value twice.
\<close>

lemma hash_mix_NOT: "hash_mix (NOT x) = hash_mix x"
  unfolding hash_mix_def
  by (rule bit_word_eqI) (auto simp: bit_simps)

lemma GetInt64Hash_mirror: "GetInt64Hash (- k - 3) = GetInt64Hash k"
proof -
  have "- k - 3 + 1 = NOT (k + 1)" by (simp add: not_eq_complement)
  then show ?thesis by (simp add: GetInt64Hash_def hash_mix_NOT)
qed

section \<open>One layer\<close>

record i64layer =
  ht_updating :: bool
  ht_table :: "nat \<Rightarrow> i64 \<times> i64"
  ht_len :: nat
  ht_alloc :: nat

type_synonym i64hashtable = "i64layer list"

definition slot64 :: "i64layer \<Rightarrow> i64 \<Rightarrow> nat" where
  "slot64 h key = unat (GetInt64Hash key) mod ht_alloc h"

fun i64_update_loop :: "nat \<Rightarrow> i64layer \<Rightarrow> i64 \<Rightarrow> i64 \<Rightarrow> i64 \<Rightarrow> nat \<Rightarrow> (i64layer \<times> i64) option" where
  "i64_update_loop 0 h key new_value old_value idx = None"
| "i64_update_loop (Suc f) h key new_value old_value idx =
     (let (k, v) = ht_table h idx in
      if old_value = 0 \<and> k = 0 \<and> v = 0 then
        Some (h\<lparr>ht_table := (ht_table h)(idx := (key, new_value)), ht_len := ht_len h + 1\<rparr>, 0)
      else if k = key then
        (if v \<noteq> old_value then Some (h, v)
         else Some (h\<lparr>ht_table := (ht_table h)(idx := (key, new_value))\<rparr>, old_value))
      else i64_update_loop f h key new_value old_value (next_slot (ht_alloc h) idx))"

definition i64_raw_update :: "i64layer \<Rightarrow> i64 \<Rightarrow> i64 \<Rightarrow> i64 \<Rightarrow> (i64layer \<times> i64) option" where
  "i64_raw_update h key new_value old_value =
     i64_update_loop (ht_alloc h) h key new_value old_value (slot64 h key)"

text \<open>The scan of \<^verbatim>\<open>i64_get\<close>: \<open>Some None\<close> is the \<^verbatim>\<open>break\<close> at an empty slot.\<close>

fun i64_find :: "nat \<Rightarrow> i64layer \<Rightarrow> i64 \<Rightarrow> nat \<Rightarrow> i64 option option" where
  "i64_find 0 h key idx = None"
| "i64_find (Suc f) h key idx =
     (let (k, v) = ht_table h idx in
      if k = 0 then Some None
      else if k = key then Some (Some v)
      else i64_find f h key (next_slot (ht_alloc h) idx))"

section \<open>The table\<close>

fun i64_get :: "i64hashtable \<Rightarrow> i64 \<Rightarrow> (i64hashtable \<times> i64) option" where
  "i64_get [] key = None"
| "i64_get (h # prev) key =
     (case i64_find (ht_alloc h) h key (slot64 h key) of
        None \<Rightarrow> None
      | Some (Some v) \<Rightarrow> Some (h # prev, v)
      | Some None \<Rightarrow>
          if prev = [] then Some (h # prev, 0)
          else case i64_get prev key of
              None \<Rightarrow> None
            | Some (prev', val) \<Rightarrow>
                if val \<noteq> 0 then
                  (case i64_raw_update h key val 0 of
                     None \<Rightarrow> None
                   | Some (h', res) \<Rightarrow> Some (h' # prev', if res \<noteq> 0 then res else val))
                else Some (h # prev', val))"

definition i64GetHashtable :: "i64hashtable \<Rightarrow> i64 \<Rightarrow> (i64hashtable \<times> i64) option" where
  "i64GetHashtable ph key = i64_get ph key"

definition i64_empty_layer :: "nat \<Rightarrow> i64layer" where
  "i64_empty_layer n = \<lparr>ht_updating = False, ht_table = (\<lambda>_. (0, 0)), ht_len = 0, ht_alloc = n\<rparr>"

definition i64SetHashtable ::
  "i64hashtable \<Rightarrow> i64 \<Rightarrow> i64 \<Rightarrow> i64 \<Rightarrow> (i64hashtable \<times> i64) option" where
  "i64SetHashtable ph key new_value old_value =
     (case ph of
        [] \<Rightarrow> None
      | h # prev \<Rightarrow>
          (case i64_raw_update h key new_value old_value of
             None \<Rightarrow> None
           | Some (h', result) \<Rightarrow>
               if result = 0 \<and> old_value = 0 \<and> ht_len h' > ht_alloc h' div 4 \<and> \<not> ht_updating h'
               then Some (i64_empty_layer (2 * ht_alloc h') # h'\<lparr>ht_updating := True\<rparr> # prev, result)
               else Some (h' # prev, result)))"

definition init_hashtable64 :: i64hashtable where
  "init_hashtable64 = [i64_empty_layer 1024]"

section \<open>Invariant and contents of a layer\<close>

definition occ64 :: "i64layer \<Rightarrow> nat \<Rightarrow> i64 option" where
  "occ64 h i = (if fst (ht_table h i) = 0 then None else Some (fst (ht_table h i)))"

definition keys64 :: "i64layer \<Rightarrow> i64 set" where
  "keys64 h = keys_of (ht_alloc h) (occ64 h)"

definition probe64 :: "i64layer \<Rightarrow> i64 \<Rightarrow> probed" where
  "probe64 h key = probe (ht_alloc h) (occ64 h) key (ht_alloc h) (slot64 h key)"

definition layer_ok :: "i64layer \<Rightarrow> bool" where
  "layer_ok h \<longleftrightarrow>
     0 < ht_alloc h \<and>
     well_placed (ht_alloc h) (occ64 h) (slot64 h) \<and>
     (\<forall>i. fst (ht_table h i) = 0 \<longrightarrow> snd (ht_table h i) = 0) \<and>
     ht_len h = card (keys64 h)"

definition layer_lookup :: "i64layer \<Rightarrow> i64 \<Rightarrow> i64 option" where
  "layer_lookup h = plookup (ht_alloc h) (occ64 h) (slot64 h) (\<lambda>i. snd (ht_table h i))"

lemma layer_lookup_At: "probe64 h key = At i \<Longrightarrow> layer_lookup h key = Some (snd (ht_table h i))"
  by (simp add: layer_lookup_def plookup_def probe64_def)

lemma layer_lookup_Free: "probe64 h key = Free i \<Longrightarrow> layer_lookup h key = None"
  by (simp add: layer_lookup_def plookup_def probe64_def)

lemma finite_keys64 [simp]: "finite (keys64 h)"
  by (simp add: keys64_def)

lemma slot64_less: "0 < ht_alloc h \<Longrightarrow> slot64 h key < ht_alloc h"
  by (simp add: slot64_def)

lemma occ64_empty [simp]: "occ64 (i64_empty_layer n) = (\<lambda>_. None)"
  by (rule ext) (simp add: occ64_def i64_empty_layer_def)

lemma empty_layer_fields [simp]:
  "ht_alloc (i64_empty_layer n) = n" "ht_len (i64_empty_layer n) = 0"
  "ht_table (i64_empty_layer n) = (\<lambda>_. (0, 0))" "\<not> ht_updating (i64_empty_layer n)"
  by (simp_all add: i64_empty_layer_def)

lemma keys64_empty [simp]: "keys64 (i64_empty_layer n) = {}"
  by (simp add: keys64_def)

lemma layer_ok_empty: "0 < n \<Longrightarrow> layer_ok (i64_empty_layer n)"
  using slot64_less [of "i64_empty_layer n"] by (simp add: layer_ok_def well_placed_empty)

lemma layer_lookup_keys: "layer_ok h \<Longrightarrow> layer_lookup h key = None \<longleftrightarrow> key \<notin> keys64 h"
  unfolding layer_ok_def layer_lookup_def keys64_def by (blast dest: plookup_keys)

lemma occ64_At: "occ64 h i = Some key \<Longrightarrow> fst (ht_table h i) = key"
  by (auto simp: occ64_def split: if_splits)

text \<open>The loops of the code, in terms of the probe.\<close>

lemma i64_find_probe:
  "key \<noteq> 0 \<Longrightarrow>
   i64_find f h key idx =
     (case probe (ht_alloc h) (occ64 h) key f idx of
        Spin \<Rightarrow> None | Free i \<Rightarrow> Some None | At i \<Rightarrow> Some (Some (snd (ht_table h i))))"
  by (induction f arbitrary: idx) (auto simp: occ64_def split: prod.splits)

lemma i64_update_loop_probe:
  assumes "key \<noteq> 0" "\<And>i. fst (ht_table h i) = 0 \<Longrightarrow> snd (ht_table h i) = 0"
  shows
  "i64_update_loop f h key nv 0 idx =
     (case probe (ht_alloc h) (occ64 h) key f idx of
        Spin \<Rightarrow> None
      | Free i \<Rightarrow> Some (h\<lparr>ht_table := (ht_table h)(i := (key, nv)), ht_len := ht_len h + 1\<rparr>, 0)
      | At i \<Rightarrow>
          if snd (ht_table h i) \<noteq> 0 then Some (h, snd (ht_table h i))
          else Some (h\<lparr>ht_table := (ht_table h)(i := (key, nv))\<rparr>, 0))"
proof (induction f arbitrary: idx)
  case 0
  then show ?case by simp
next
  case (Suc f)
  obtain k v where kv: "ht_table h idx = (k, v)" by fastforce
  have "k = 0 \<Longrightarrow> v = 0" using assms(2) [of idx] by (simp add: kv)
  then show ?case using Suc assms(1) kv by (auto simp: occ64_def)
qed

lemma i64_raw_update_probe:
  assumes "key \<noteq> 0" "\<And>i. fst (ht_table h i) = 0 \<Longrightarrow> snd (ht_table h i) = 0"
  shows
  "i64_raw_update h key nv 0 =
     (case probe64 h key of
        Spin \<Rightarrow> None
      | Free i \<Rightarrow> Some (h\<lparr>ht_table := (ht_table h)(i := (key, nv)), ht_len := ht_len h + 1\<rparr>, 0)
      | At i \<Rightarrow>
          if snd (ht_table h i) \<noteq> 0 then Some (h, snd (ht_table h i))
          else Some (h\<lparr>ht_table := (ht_table h)(i := (key, nv))\<rparr>, 0))"
  unfolding i64_raw_update_def probe64_def by (rule i64_update_loop_probe [OF assms])

text \<open>What a compare-exchange from 0 does to a layer that has an empty slot.\<close>

lemma layer_write:
  assumes "key \<noteq> 0" "h' = h\<lparr>ht_table := (ht_table h)(i := (key, nv)), ht_len := n\<rparr>"
  shows "ht_alloc h' = ht_alloc h" "slot64 h' = slot64 h" "ht_updating h' = ht_updating h"
    "ht_len h' = n" "occ64 h' = (occ64 h)(i := Some key)"
    "ht_table h' = (ht_table h)(i := (key, nv))"
  using assms by (auto simp: slot64_def occ64_def fun_eq_iff)

lemma raw_update_insert:
  assumes ok: "layer_ok h" and key: "key \<noteq> 0" and free: "probe64 h key = Free i" and "i < ht_alloc h"
    and h': "h' = h\<lparr>ht_table := (ht_table h)(i := (key, nv)), ht_len := ht_len h + 1\<rparr>"
  shows "layer_ok h' \<and> keys64 h' = insert key (keys64 h) \<and>
         layer_lookup h' = (layer_lookup h)(key := Some nv)"
proof -
  note fields = layer_write [OF key h']
  have wp: "well_placed (ht_alloc h) (occ64 h) (slot64 h)" using ok by (simp add: layer_ok_def)
  have empty: "occ64 h i = None" using free unfolding probe64_def by (rule probe_Free_occ)
  have new: "key \<notin> keys64 h" using free probe_At_iff [OF wp, of key]
    by (auto simp: keys64_def probe64_def)
  have keys: "keys64 h' = insert key (keys64 h)"
    using keys_of_insert [of i "ht_alloc h" "occ64 h" key] assms(4) empty
    by (simp add: keys64_def fields)
  have wp': "well_placed (ht_alloc h') (occ64 h') (slot64 h')"
    using well_placed_insert [where hash = "slot64 h" and k = key, OF wp free [unfolded probe64_def]]
    by (simp add: fields)
  have "(\<lambda>j. snd (ht_table h' j)) = (\<lambda>j. snd (ht_table h j))(i := nv)" by (auto simp: fields)
  then have "layer_lookup h' = (layer_lookup h)(key := Some nv)"
    using plookup_insert [where hash = "slot64 h" and k = key, OF wp free [unfolded probe64_def]]
    by (simp add: layer_lookup_def fields)
  moreover have "layer_ok h'"
    using ok new keys wp' key by (auto simp: layer_ok_def fields)
  ultimately show ?thesis using keys by blast
qed

lemma raw_update_overwrite:
  assumes ok: "layer_ok h" and key: "key \<noteq> 0" and found: "probe64 h key = At i"
    and h': "h' = h\<lparr>ht_table := (ht_table h)(i := (key, nv))\<rparr>"
  shows "layer_ok h' \<and> keys64 h' = keys64 h \<and> layer_lookup h' = (layer_lookup h)(key := Some nv)"
proof -
  have h'': "h' = h\<lparr>ht_table := (ht_table h)(i := (key, nv)), ht_len := ht_len h\<rparr>" using h' by simp
  note fields = layer_write [OF key h'']
  have at: "occ64 h i = Some key" using found unfolding probe64_def by (rule probe_At_occ)
  then have occ: "occ64 h' = occ64 h" by (simp add: fields fun_eq_iff)
  have "(\<lambda>j. snd (ht_table h' j)) = (\<lambda>j. snd (ht_table h j))(i := nv)" by (auto simp: fields)
  then have "layer_lookup h' = (layer_lookup h)(key := Some nv)"
    using plookup_overwrite [where hash = "slot64 h" and k = key, OF found [unfolded probe64_def]]
    by (simp add: layer_lookup_def occ fields(1,2))
  moreover have "layer_ok h'" using ok key by (auto simp: layer_ok_def fields(1,2,4,6) occ keys64_def)
  ultimately show ?thesis by (auto simp: keys64_def fields(1) occ)
qed

lemma raw_update_new:
  assumes ok: "layer_ok h" and room: "card (keys64 h) < ht_alloc h" and key: "key \<noteq> 0"
  obtains h' r where
    "i64_raw_update h key nv 0 = Some (h', r)" "layer_ok h'"
    "ht_alloc h' = ht_alloc h" "ht_updating h' = ht_updating h"
    "keys64 h' = insert key (keys64 h)"
    "r = (case layer_lookup h key of Some w \<Rightarrow> w | None \<Rightarrow> 0)"
    "layer_lookup h' = (if r \<noteq> 0 then layer_lookup h else (layer_lookup h)(key := Some nv))"
proof -
  have wp: "well_placed (ht_alloc h) (occ64 h) (slot64 h)" and
    zero: "\<And>i. fst (ht_table h i) = 0 \<Longrightarrow> snd (ht_table h i) = 0"
    using ok by (auto simp: layer_ok_def)
  note upd = i64_raw_update_probe [OF key zero, where nv = nv]
  from wp room [unfolded keys64_def] show ?thesis
  proof (cases rule: probe_cases_placed [of _ _ _ key])
    case (At i)
    then have p: "probe64 h key = At i" and mem: "key \<in> keys64 h" by (simp_all add: probe64_def keys64_def)
    show ?thesis
    proof (cases "snd (ht_table h i) = 0")
      case True
      show ?thesis
        by (rule that [of "h\<lparr>ht_table := (ht_table h)(i := (key, nv))\<rparr>" 0]) (use True raw_update_overwrite [OF ok key p refl] upd mem p in
            \<open>auto simp: layer_lookup_At insert_absorb\<close>)
    next
      case False
      show ?thesis
        by (rule that [of h "snd (ht_table h i)"]) (use False upd mem p ok in \<open>auto simp: layer_lookup_At insert_absorb\<close>)
    qed
  next
    case (Free i)
    then have p: "probe64 h key = Free i" by (simp add: probe64_def)
    show ?thesis
      by (rule that [of "h\<lparr>ht_table := (ht_table h)(i := (key, nv)), ht_len := ht_len h + 1\<rparr>" 0])
        (use raw_update_insert [OF ok key p Free(3) refl] upd p in
          \<open>auto simp: layer_lookup_Free\<close>)
  qed
qed

section \<open>A table is a layered table\<close>

definition scan64 :: "i64layer \<Rightarrow> i64 \<Rightarrow> i64 option option" where
  "scan64 h key = i64_find (ht_alloc h) h key (slot64 h key)"

definition upd64 :: "i64layer \<Rightarrow> i64 \<Rightarrow> i64 \<Rightarrow> (i64layer \<times> i64) option" where
  "upd64 h key v = i64_raw_update h key v 0"

definition grow64 :: "i64layer \<Rightarrow> bool" where
  "grow64 h \<longleftrightarrow> ht_len h > ht_alloc h div 4 \<and> \<not> ht_updating h"

definition fresh64 :: "i64layer \<Rightarrow> i64layer" where
  "fresh64 h = i64_empty_layer (2 * ht_alloc h)"

definition mark64 :: "i64layer \<Rightarrow> i64layer" where
  "mark64 h = h\<lparr>ht_updating := True\<rparr>"

definition table_ok :: "i64hashtable \<Rightarrow> bool" where
  "table_ok = chain_table_ok layer_ok keys64 ht_alloc ht_updating"

definition abs64 :: "i64hashtable \<Rightarrow> i64 \<Rightarrow> i64" where
  "abs64 = chain_abs layer_lookup"

lemma updating_irrelevant [simp]:
  "occ64 (h\<lparr>ht_updating := b\<rparr>) = occ64 h" "slot64 (h\<lparr>ht_updating := b\<rparr>) = slot64 h"
  "keys64 (h\<lparr>ht_updating := b\<rparr>) = keys64 h" "probe64 (h\<lparr>ht_updating := b\<rparr>) = probe64 h"
  "layer_lookup (h\<lparr>ht_updating := b\<rparr>) = layer_lookup h"
  "layer_ok (h\<lparr>ht_updating := b\<rparr>) = layer_ok h"
proof -
  show o: "occ64 (h\<lparr>ht_updating := b\<rparr>) = occ64 h" by (rule ext) (simp add: occ64_def)
  show s: "slot64 (h\<lparr>ht_updating := b\<rparr>) = slot64 h" by (rule ext) (simp add: slot64_def)
  show k: "keys64 (h\<lparr>ht_updating := b\<rparr>) = keys64 h" by (simp add: keys64_def o)
  show p: "probe64 (h\<lparr>ht_updating := b\<rparr>) = probe64 h" by (rule ext) (simp add: probe64_def o s)
  show "layer_lookup (h\<lparr>ht_updating := b\<rparr>) = layer_lookup h"
    by (simp add: layer_lookup_def o s)
  show "layer_ok (h\<lparr>ht_updating := b\<rparr>) = layer_ok h" by (simp add: layer_ok_def o s k)
qed

lemma scan64_lookup:
  assumes "layer_ok h" "card (keys64 h) < ht_alloc h" "key \<noteq> 0"
  shows "scan64 h key = Some (layer_lookup h key)"
proof -
  have "probe64 h key \<noteq> Spin"
    using probe_no_spin [of "ht_alloc h" "occ64 h" "slot64 h" key] assms(1,2)
    by (simp add: layer_ok_def probe64_def keys64_def)
  then show ?thesis using assms(3)
    by (auto simp: scan64_def i64_find_probe layer_lookup_def plookup_def probe64_def
        split: probed.splits)
qed

interpretation lay64: layered scan64 upd64 grow64 fresh64 mark64
  layer_ok keys64 ht_alloc ht_updating layer_lookup "\<lambda>k. k \<noteq> 0"
proof
  fix h :: i64layer and k nv :: i64
  assume ok: "layer_ok h" and room: "card (keys64 h) < ht_alloc h" and k: "k \<noteq> 0"
  show "\<exists>h' r. upd64 h k nv = Some (h', r) \<and> layer_ok h' \<and> ht_alloc h' = ht_alloc h \<and>
      ht_updating h' = ht_updating h \<and> keys64 h' = insert k (keys64 h) \<and>
      r = (case layer_lookup h k of Some w \<Rightarrow> w | None \<Rightarrow> 0) \<and>
      layer_lookup h' = (if r \<noteq> 0 then layer_lookup h else (layer_lookup h)(k := Some nv))"
    using raw_update_new [OF ok room k, of nv] unfolding upd64_def by metis
qed (auto simp: layer_lookup_keys scan64_lookup grow64_def fresh64_def mark64_def layer_ok_empty,
     simp_all add: layer_ok_def)

lemma i64_get_chain: "i64_get hs key = chain_get scan64 upd64 hs key"
  by (induction hs) (simp_all add: scan64_def upd64_def cong: option.case_cong)

lemma i64_set_chain: "i64SetHashtable hs key v 0 = chain_put upd64 grow64 fresh64 mark64 hs key v"
  by (simp add: i64SetHashtable_def chain_put_def upd64_def grow64_def fresh64_def mark64_def
      split: list.splits option.splits)

interpretation ht64: kv_table i64GetHashtable "\<lambda>t k v. i64SetHashtable t k v 0" abs64 table_ok "\<lambda>k. k \<noteq> 0"
  unfolding abs64_def table_ok_def i64_set_chain i64GetHashtable_def [abs_def] i64_get_chain
  by (rule lay64.kv_table_axioms)

lemma table_ok_init: "table_ok init_hashtable64"
  by (simp add: init_hashtable64_def table_ok_def chain_table_ok_def layer_ok_empty)

lemma abs64_init: "abs64 init_hashtable64 = (\<lambda>_. 0)"
proof
  fix k
  have "layer_lookup (i64_empty_layer 1024) k = None"
    using layer_lookup_keys [OF layer_ok_empty, of 1024] by simp
  then show "abs64 init_hashtable64 k = 0" by (simp add: init_hashtable64_def abs64_def)
qed

section \<open>Properties\<close>

text \<open>
  C19. From an initial table, entering any number of distinct non-zero keys always returns (through every
  growth of the table), and a lookup of any non-zero key then returns the value entered for it, or 0.
\<close>

theorem i64_insert_all_then_get:
  assumes "distinct (map fst kvs)" "0 \<notin> fst ` set kvs" "k \<noteq> 0"
  shows "\<exists>t t'. put_all (\<lambda>t k v. i64SetHashtable t k v 0) init_hashtable64 kvs = Some t \<and>
           i64GetHashtable t k = Some (t', case map_of kvs k of Some v \<Rightarrow> v | None \<Rightarrow> 0)"
proof -
  obtain t where t: "put_all (\<lambda>t k v. i64SetHashtable t k v 0) init_hashtable64 kvs = Some t" "table_ok t"
    "abs64 t k = (case map_of kvs k of Some v \<Rightarrow> v | None \<Rightarrow> 0)"
    using ht64.put_all_contents [OF table_ok_init assms(1)] assms(2) unfolding abs64_init by blast
  show ?thesis using t ht64.get_law [OF t(2) assms(3)] by auto
qed

theorem i64_insert_all_then_get_witness:
  "\<exists>t t'. put_all (\<lambda>t k v. i64SetHashtable t k v 0) init_hashtable64 [(5, 50), (-3, 7)] = Some t \<and>
     i64GetHashtable t 5 = Some (t', 50)"
  using i64_insert_all_then_get [of "[(5, 50), (-3, 7)]" 5] by simp

text \<open>
  The use the message handlers make of a table, a lookup followed by a compare-exchange from 0, is an
  atomic "insert if absent": both calls return, the second answers the value the key had, the entry is
  made exactly when the key had none, and the table invariant (with its bound on the load) is kept.
\<close>

theorem i64_lookup_then_insert:
  assumes "table_ok t" "k \<noteq> 0"
  shows "\<exists>t1 t2. i64GetHashtable t k = Some (t1, abs64 t k) \<and>
           i64SetHashtable t1 k v 0 = Some (t2, abs64 t k) \<and> table_ok t2 \<and>
           abs64 t2 = (if abs64 t k = 0 then (abs64 t)(k := v) else abs64 t)"
  by (rule ht64.lookup_then_put [OF assms])

theorem i64_lookup_then_insert_witness:
  "\<exists>t1 t2. i64GetHashtable init_hashtable64 9 = Some (t1, 0) \<and>
     i64SetHashtable t1 9 77 0 = Some (t2, 0) \<and> abs64 t2 9 = 77"
  using i64_lookup_then_insert [OF table_ok_init, of 9 77] by (auto simp: abs64_init)

text \<open>
  A compare-exchange from a non-zero value on a key the layer does not hold never returns, whatever
  number of steps the loop is given: it walks past the empty slots too.
\<close>

theorem i64_update_absent_spins:
  assumes "layer_ok h" "key \<noteq> 0" "old_value \<noteq> 0" "key \<notin> keys64 h" "idx < ht_alloc h"
  shows "i64_update_loop f h key new_value old_value idx = None"
  using assms(5)
proof (induction f arbitrary: idx)
  case 0
  then show ?case by simp
next
  case (Suc f)
  have "fst (ht_table h idx) \<noteq> key"
    using assms(2,4) Suc.prems by (auto simp: keys64_def keys_of_def occ64_def)
  then show ?case using Suc assms(3) by (auto simp: next_slot_less split: prod.splits)
qed

theorem i64_update_absent_spins_witness:
  "i64_update_loop 5000 (i64_empty_layer 1024) 7 8 9 3 = None"
  by (rule i64_update_absent_spins) (simp_all add: layer_ok_empty)

lemma loop_1024:
  "i64_update_loop 1024 = i64_update_loop (Suc (Suc 1022))" "i64_find 1024 = i64_find (Suc (Suc 1022))"
  by (simp_all only: Suc_numeral semiring_norm)

text \<open>
  Key 0 is not usable: an entry for it is accepted, is never found again, and makes an entry stored
  behind it unreachable: after key 0, the key -3 (which hashes to the same slot) is entered and lost.
\<close>

theorem i64_zero_key_breaks_table:
  assumes "v \<noteq> 0"
  shows "\<exists>t t'. i64SetHashtable init_hashtable64 0 v 0 = Some (t, 0) \<and>
           i64GetHashtable t 0 = Some (t, 0) \<and>
           i64SetHashtable t (-3) w 0 = Some (t', 0) \<and> i64GetHashtable t' (-3) = Some (t', 0)"
proof -
  define s where "s = unat (GetInt64Hash 0) mod 1024"
  have slot: "slot64 h 0 = s" "slot64 h (-3) = s" if "ht_alloc h = 1024" for h
    using that GetInt64Hash_mirror [of 0] by (simp_all add: slot64_def s_def)
  have ne: "next_slot 1024 s \<noteq> s" by (simp add: next_slot_def)
  define L1 where "L1 = (i64_empty_layer 1024)\<lparr>ht_table := (\<lambda>_. (0, 0))(s := (0, v)), ht_len := 1\<rparr>"
  define L2 where "L2 = L1\<lparr>ht_table := (ht_table L1)(next_slot 1024 s := (-3, w)), ht_len := 2\<rparr>"
  have L: "ht_alloc L1 = 1024" "ht_alloc L2 = 1024" "ht_len L1 = 1" "ht_len L2 = 2"
    "ht_table L1 = (\<lambda>_. (0, 0))(s := (0, v))" "\<not> ht_updating L1" "\<not> ht_updating L2"
    "ht_table L2 = (\<lambda>_. (0, 0))(s := (0, v), next_slot 1024 s := (-3, w))"
    by (simp_all add: L1_def L2_def)
  have "i64_update_loop (Suc f) (i64_empty_layer 1024) 0 v 0 s = Some (L1, 0)" for f
    by (simp add: L1_def)
  then have "i64_raw_update (i64_empty_layer 1024) 0 v 0 = Some (L1, 0)"
    by (simp only: i64_raw_update_def slot empty_layer_fields loop_1024)
  moreover have "i64_update_loop (Suc (Suc f)) L1 (-3) w 0 s = Some (L2, 0)" for f
    using assms ne by (simp add: L L2_def)
  then have "i64_raw_update L1 (-3) w 0 = Some (L2, 0)"
    by (simp only: i64_raw_update_def slot L loop_1024)
  moreover have "i64_find (Suc f) L1 0 s = Some None" "i64_find (Suc f) L2 (-3) s = Some None" for f
    using ne by (simp_all add: L)
  then have "i64_find 1024 L1 0 s = Some None" "i64_find 1024 L2 (-3) s = Some None"
    by (simp_all only: loop_1024)
  ultimately show ?thesis
    by (simp add: init_hashtable64_def i64SetHashtable_def i64GetHashtable_def L slot)
qed

theorem i64_zero_key_breaks_table_witness:
  "\<exists>t t'. i64SetHashtable init_hashtable64 0 1 0 = Some (t, 0) \<and>
     i64GetHashtable t 0 = Some (t, 0) \<and>
     i64SetHashtable t (-3) 2 0 = Some (t', 0) \<and> i64GetHashtable t' (-3) = Some (t', 0)"
  by (rule i64_zero_key_breaks_table) simp

end
