(* ===== verification/Objects.thy ===== *)
theory Objects
  imports Prelude "HOL-Library.Signed_Division"
begin

text \<open>
  Objects in memory (\<^verbatim>\<open>common/runtime.h\<close>, \<^verbatim>\<open>x64/new_object.c\<close>, \<^verbatim>\<open>loc/new_object.c\<close>,
  \<^verbatim>\<open>x64/push_object.c\<close>, \<^verbatim>\<open>loc/push_object.c\<close>, \<^verbatim>\<open>x64/query_object.c\<close>,
  \<^verbatim>\<open>loc/query_object.c\<close>). The runtime passes the address of the data of an object; the header lies
  in front of it. An object of the model is the block that \<^verbatim>\<open>myMalloc\<close> returned and the offset of
  the data in it, so that every access of the C code is a read or write of the block, and one that leaves
  the block is \<open>None\<close>.
\<close>

section \<open>Layout\<close>

definition OBJECT_PIPE :: i64 where "OBJECT_PIPE = 1"
definition OBJECT_PROMISE :: i64 where "OBJECT_PROMISE = 2"
definition OBJECT_ARRAY :: i64 where "OBJECT_ARRAY = 3"
definition OBJECT_OBJECT :: i64 where "OBJECT_OBJECT = 4"
definition OBJECT_DEFINED_ARRAY :: i64 where "OBJECT_DEFINED_ARRAY = 5"

definition PROVIDER_X64 :: i64 where "PROVIDER_X64 = 0"
definition PROVIDER_GPU :: i64 where "PROVIDER_GPU = 1"
definition PROVIDER_DLL :: i64 where "PROVIDER_DLL = 2"
definition PROVIDER_LOC :: i64 where "PROVIDER_LOC = 3"

lemmas object_types = OBJECT_PIPE_def OBJECT_PROMISE_def OBJECT_ARRAY_def OBJECT_OBJECT_def
  OBJECT_DEFINED_ARRAY_def

record obj =
  ob_block :: "byte list"
  ob_base :: nat

text \<open>
  \<^verbatim>\<open>struct object\<close>: 48 bits of size, 8 of provider, 8 of type, packed; the \<^verbatim>\<open>DATA_OFFSET\<close>
  of the structures that contain it.
\<close>

definition header_bytes :: "i64 \<Rightarrow> i64 \<Rightarrow> i64 \<Rightarrow> byte list" where
  "header_bytes data_size provider type =
     le_bytes 6 data_size @ [ucast provider, ucast type]"

definition DATA_OFFSET_object :: nat where "DATA_OFFSET_object = 8"
definition DATA_OFFSET_promise :: nat where "DATA_OFFSET_promise = 9"
definition DATA_OFFSET_array :: nat where "DATA_OFFSET_array = 16"

lemmas data_offsets = DATA_OFFSET_object_def DATA_OFFSET_promise_def DATA_OFFSET_array_def

text \<open>Reads and writes at an address relative to the data of an object.\<close>

definition obj_read :: "obj \<Rightarrow> int \<Rightarrow> int \<Rightarrow> byte list option" where
  "obj_read ob offset n =
     (if 0 \<le> int (ob_base ob) + offset \<and> 0 \<le> n
      then rd_bytes (ob_block ob) (nat (int (ob_base ob) + offset)) (nat n) else None)"

definition obj_write :: "obj \<Rightarrow> int \<Rightarrow> byte list \<Rightarrow> obj option" where
  "obj_write ob offset d =
     (if 0 \<le> int (ob_base ob) + offset
      then map_option (\<lambda>b. ob\<lparr>ob_block := b\<rparr>)
             (wr_bytes (ob_block ob) (nat (int (ob_base ob) + offset)) d)
      else None)"

definition obj_type :: "obj \<Rightarrow> byte option" where
  "obj_type ob = map_option hd (obj_read ob (-1) 1)"

definition obj_provider :: "obj \<Rightarrow> byte option" where
  "obj_provider ob = map_option hd (obj_read ob (-2) 1)"

definition obj_ready :: "obj \<Rightarrow> byte option" where
  "obj_ready ob = map_option hd (obj_read ob (- int DATA_OFFSET_promise) 1)"

definition obj_data_size :: "obj \<Rightarrow> i64 option" where
  "obj_data_size ob = map_option le_word (obj_read ob (-8) 6)"

definition obj_length :: "obj \<Rightarrow> i64 option" where
  "obj_length ob = map_option le_word (obj_read ob (-16) 8)"

section \<open>New objects\<close>

text \<open>
  The block of a new object, shared by the x64 and the loc provider, which differ in the provider byte
  and in whether the object is registered. \<^verbatim>\<open>myMalloc\<close> gives zeroed memory; a negative size is
  refused by it, and a zero \<^verbatim>\<open>param\<close> is a division by zero.
\<close>

definition alloc_block :: "nat \<Rightarrow> i64 \<Rightarrow> i64 \<Rightarrow> i64 \<Rightarrow> i64 \<Rightarrow> obj option" where
  "alloc_block base type provider data_size sz =
     (if 0 \<le>s sz
      then wr_bytes (replicate (base + unat sz) 0) (base - DATA_OFFSET_object)
             (header_bytes data_size provider type) \<bind>
           (\<lambda>b. Some \<lparr>ob_block = b, ob_base = base\<rparr>)
      else None)"

definition set_length :: "obj \<Rightarrow> i64 \<Rightarrow> i64 \<Rightarrow> obj option" where
  "set_length ob sz param =
     (if param = 0 then None
      else obj_write ob (-16) (le_bytes 8 (word_of_int (sint sz sdiv sint param))))"

definition new_object_block ::
  "byte list list \<Rightarrow> i64 \<Rightarrow> i64 \<Rightarrow> i64 \<Rightarrow> i64 \<Rightarrow> obj option option" where
  "new_object_block defined_arrays provider type sz param =
     (if type = OBJECT_PIPE \<or> type = OBJECT_PROMISE then
        map_option Some (alloc_block DATA_OFFSET_promise type provider sz sz)
      else if type = OBJECT_ARRAY then
        do { ob \<leftarrow> alloc_block DATA_OFFSET_array type provider sz sz;
             ob \<leftarrow> set_length ob sz param;
             Some (Some ob) }
      else if type = OBJECT_OBJECT then
        map_option Some (alloc_block DATA_OFFSET_object type provider sz sz)
      else if type = OBJECT_DEFINED_ARRAY then
        (if unat sz < length defined_arrays then
           do { let d = defined_arrays ! unat sz;
                let objSize = word_of_nat (length d);
                ob \<leftarrow> alloc_block DATA_OFFSET_array OBJECT_ARRAY provider objSize objSize;
                ob \<leftarrow> set_length ob objSize param;
                ob \<leftarrow> obj_write ob 0 d;
                Some (Some ob) }
         else None)
      else Some None)"

section \<open>Push and query of a local object\<close>

text \<open>
  The source of a push: a value in the pointer argument itself when the size is -1, -2, -4 or -8, and
  otherwise the bytes that can be read from the pointer on.
\<close>

datatype push_source = Immediate i64 | Memory "byte list"

definition push_bytes :: "i64 \<Rightarrow> push_source \<Rightarrow> byte list option" where
  "push_bytes sz source =
     (if sz \<in> {-1, -2, -4, -8} then
        (case source of Immediate v \<Rightarrow> Some (le_bytes (nat (- sint sz)) v) | Memory _ \<Rightarrow> None)
      else if 0 \<le>s sz then
        (case source of Immediate _ \<Rightarrow> None | Memory d \<Rightarrow> rd_bytes d 0 (unat sz))
      else None)"

definition UpdateLocalPush :: "obj \<Rightarrow> i64 \<Rightarrow> i64 \<Rightarrow> push_source \<Rightarrow> obj option" where
  "UpdateLocalPush ob offset sz source =
     do { t \<leftarrow> obj_type ob;
          ob \<leftarrow> (if ucast t = OBJECT_PROMISE then obj_write ob (- int DATA_OFFSET_promise) [1] else Some ob);
          d \<leftarrow> push_bytes sz source;
          obj_write ob (sint offset) d }"

text \<open>\<open>Some None\<close>: the promise is not ready. The bytes go to the destination, or to the register value.\<close>

definition QueryLocalObject :: "obj \<Rightarrow> i64 \<Rightarrow> i64 \<Rightarrow> byte list option option" where
  "QueryLocalObject ob offset sz =
     do { t \<leftarrow> obj_type ob;
          ready \<leftarrow> (if ucast t = OBJECT_PROMISE then obj_ready ob else Some 1);
          if ready \<noteq> 0 then map_option Some (obj_read ob (sint offset) (abs (sint sz)))
          else Some None }"

section \<open>Reads after writes\<close>

lemma obj_write_base: "obj_write ob off d = Some ob' \<Longrightarrow> ob_base ob' = ob_base ob"
  by (auto simp: obj_write_def split: if_splits)

lemma obj_read_write_same:
  assumes "obj_write ob off d = Some ob'"
  shows "obj_read ob' off (int (length d)) = Some d"
  using assms by (auto simp: obj_write_def obj_read_def rd_wr_same split: if_splits)

lemma obj_read_write_other:
  assumes "obj_write ob off d = Some ob'" "off' + n \<le> off \<or> off + int (length d) \<le> off'"
  shows "obj_read ob' off' n = obj_read ob off' n"
proof (cases "0 \<le> int (ob_base ob) + off' \<and> 0 \<le> n")
  case True
  from assms(1) obtain b where b: "wr_bytes (ob_block ob) (nat (int (ob_base ob) + off)) d = Some b"
    "0 \<le> int (ob_base ob) + off" "ob' = ob\<lparr>ob_block := b\<rparr>"
    by (auto simp: obj_write_def split: if_splits)
  have "rd_bytes b (nat (int (ob_base ob) + off')) (nat n) =
      rd_bytes (ob_block ob) (nat (int (ob_base ob) + off')) (nat n)"
    using assms(2) True b(2) by (intro rd_wr_other [OF b(1)]) linarith
  then show ?thesis using True b by (simp add: obj_read_def)
qed (use assms(1) in \<open>auto simp: obj_read_def obj_write_base\<close>)

lemma obj_header_write:
  assumes "obj_write ob off d = Some ob'" "0 \<le> off"
  shows "obj_type ob' = obj_type ob" "obj_provider ob' = obj_provider ob" "obj_ready ob' = obj_ready ob"
    "obj_data_size ob' = obj_data_size ob" "obj_length ob' = obj_length ob"
  using obj_read_write_other [OF assms(1)] assms(2)
  by (simp_all add: obj_type_def obj_provider_def obj_ready_def obj_data_size_def obj_length_def
      DATA_OFFSET_promise_def)

lemma obj_write_Some:
  "obj_write ob off d \<noteq> None \<longleftrightarrow>
   0 \<le> int (ob_base ob) + off \<and> int (ob_base ob) + off + int (length d) \<le> int (length (ob_block ob))"
  by (auto simp: obj_write_def wr_bytes_def split: if_splits)

lemma length_obj_write: "obj_write ob off d = Some ob' \<Longrightarrow> length (ob_block ob') = length (ob_block ob)"
  by (auto simp: obj_write_def length_wr_bytes split: if_splits)

lemma length_header [simp]: "length (header_bytes s p t) = 8"
  by (simp add: header_bytes_def)

lemma obj_read_split:
  assumes "obj_read ob off (int (length a + length b)) = Some (a @ b)"
  shows "obj_read ob off (int (length a)) = Some a"
    "obj_read ob (off + int (length a)) (int (length b)) = Some b"
proof -
  define i where "i = nat (int (ob_base ob) + off)"
  have i: "0 \<le> int (ob_base ob) + off" "rd_bytes (ob_block ob) i (length a + length b) = Some (a @ b)"
    using assms by (auto simp: obj_read_def i_def nat_add_distrib split: if_splits)
  have le: "i + length a + length b \<le> length (ob_block ob)" and
    eq: "take (length a + length b) (drop i (ob_block ob)) = a @ b"
    using i(2) by (auto simp: rd_bytes_def split: if_splits)
  have "take (length a) (drop i (ob_block ob)) = a"
    using arg_cong [OF eq, of "take (length a)"] by simp
  then show "obj_read ob off (int (length a)) = Some a"
    using i(1) le by (simp add: obj_read_def rd_bytes_def flip: i_def)
  have "take (length b) (drop (i + length a) (ob_block ob)) = b"
    using arg_cong [OF eq, of "drop (length a)"] by (simp add: drop_take add.commute)
  moreover have "nat (int (ob_base ob) + (off + int (length a))) = i + length a"
    using i(1) by (simp add: i_def)
  ultimately show "obj_read ob (off + int (length a)) (int (length b)) = Some b"
    using i(1) le by (simp add: obj_read_def rd_bytes_def)
qed

lemma alloc_block_header:
  assumes "alloc_block base type provider data_size sz = Some ob" "8 \<le> base"
  shows "obj_type ob = Some (ucast type)" "obj_provider ob = Some (ucast provider)"
    "obj_data_size ob = Some (take_bit 48 data_size)" "ob_base ob = base"
    "length (ob_block ob) = base + unat sz"
proof -
  obtain b where b: "wr_bytes (replicate (base + unat sz) 0) (base - 8)
      (header_bytes data_size provider type) = Some b" "ob = \<lparr>ob_block = b, ob_base = base\<rparr>"
    using assms(1) by (auto simp: alloc_block_def DATA_OFFSET_object_def Option.bind_eq_Some_conv split: if_splits)
  have "obj_read ob (-8) 8 = Some (header_bytes data_size provider type)"
    using rd_wr_same [OF b(1)] assms(2) b(2) by (simp add: obj_read_def nat_diff_distrib)
  then have r: "obj_read ob (-8) (int (length (le_bytes 6 data_size) + length [ucast provider, ucast type])) =
      Some (le_bytes 6 data_size @ [ucast provider, ucast type :: byte])"
    by (simp add: header_bytes_def del: le_bytes_numeral)
  note r2 = obj_read_split(2) [OF r]
  have pt: "obj_read ob (-2) (int (length [ucast provider :: byte] + length [ucast type :: byte])) =
      Some ([ucast provider] @ [ucast type])" using r2 by simp
  show "obj_type ob = Some (ucast type)" "obj_provider ob = Some (ucast provider)"
    using obj_read_split [OF pt] by (simp_all add: obj_type_def obj_provider_def)
  show "obj_data_size ob = Some (take_bit 48 data_size)"
    using obj_read_split(1) [OF r] le_word_le_bytes_take [of 6 data_size]
    by (simp add: obj_data_size_def del: le_bytes_numeral)
  show "ob_base ob = base" using b(2) by simp
  show "length (ob_block ob) = base + unat sz" using length_wr_bytes [OF b(1)] b(2) by simp
qed

lemma alloc_block_zero:
  assumes "alloc_block base type provider data_size sz = Some ob" "8 \<le> base"
    "0 \<le> off" "0 \<le> n" "off + n \<le> sint sz"
  shows "obj_read ob off n = Some (replicate (nat n) 0)"
proof -
  obtain b where b: "wr_bytes (replicate (base + unat sz) 0) (base - 8)
      (header_bytes data_size provider type) = Some b" "ob = \<lparr>ob_block = b, ob_base = base\<rparr>" "0 \<le>s sz"
    using assms(1) by (auto simp: alloc_block_def DATA_OFFSET_object_def Option.bind_eq_Some_conv split: if_splits)
  have "sint sz = int (unat sz)" using b(3) by (rule sint_nonneg)
  then have room: "base + nat off + nat n \<le> base + unat sz" using assms(3-5) by linarith
  have "rd_bytes b (base + nat off) (nat n) = rd_bytes (replicate (base + unat sz) 0) (base + nat off) (nat n)"
    using assms(2) by (intro rd_wr_other [OF b(1)]) simp
  also have "\<dots> = Some (replicate (nat n) 0)" using room by (simp add: rd_bytes_def)
  finally show ?thesis using assms(3,4) b(2) by (simp add: obj_read_def nat_add_distrib)
qed

lemma push_then_query_aux:
  assumes push: "UpdateLocalPush ob offset sz source = Some ob'" and d: "push_bytes sz source = Some d"
    and off: "0 \<le>s offset"
  shows "QueryLocalObject ob' offset sz = Some (Some d)"
proof -
  obtain t where t: "obj_type ob = Some t" using push by (auto simp: UpdateLocalPush_def Option.bind_eq_Some_conv)
  obtain ob1 where ob1: "(if ucast t = OBJECT_PROMISE then obj_write ob (- int DATA_OFFSET_promise) [1] else Some ob) = Some ob1"
    and w: "obj_write ob1 (sint offset) d = Some ob'"
    using push t d by (auto simp: UpdateLocalPush_def Option.bind_eq_Some_conv)
  have off0: "0 \<le> sint offset" using off by (simp add: word_sle_eq)
  have ty: "obj_type ob1 = Some t"
    using ob1 t obj_read_write_other [of ob "- int DATA_OFFSET_promise" "[1]" ob1 "-1" 1]
    by (auto simp: obj_type_def DATA_OFFSET_promise_def split: if_splits)
  have rdy: "ucast t = OBJECT_PROMISE \<Longrightarrow> obj_ready ob' = Some 1"
    using ob1 obj_read_write_same [of ob "- int DATA_OFFSET_promise" "[1]" ob1] obj_header_write(3) [OF w off0]
    by (simp add: obj_ready_def)
  have len: "abs (sint sz) = int (length d)"
    using d by (auto simp: push_bytes_def rd_bytes_def sint_nonneg split: if_splits push_source.splits)
  show ?thesis
    using rdy obj_read_write_same [OF w] len obj_header_write(1) [OF w off0] ty
    by (simp add: QueryLocalObject_def)
qed

lemma push_writes:
  assumes t: "obj_type ob = Some t" and base: "ucast t = OBJECT_PROMISE \<Longrightarrow> DATA_OFFSET_promise \<le> ob_base ob"
    and d: "push_bytes sz source = Some d" and off: "0 \<le>s offset"
    and room: "ob_base ob + unat offset + length d \<le> length (ob_block ob)"
  obtains ob1 ob' where "UpdateLocalPush ob offset sz source = Some ob'" "obj_write ob1 (sint offset) d = Some ob'"
    "\<And>off' n. - int DATA_OFFSET_object \<le> off' \<Longrightarrow> obj_read ob1 off' n = obj_read ob off' n"
proof -
  have off0: "sint offset = int (unat offset)" using off by (rule sint_nonneg)
  have rd: "obj_read ob (-1) 1 \<noteq> None" using t by (auto simp: obj_type_def)
  have b1: "1 \<le> ob_base ob" using rd by (auto simp: obj_read_def split: if_splits)
  obtain ob1 where ob1: "(if ucast t = OBJECT_PROMISE then obj_write ob (- int DATA_OFFSET_promise) [1] else Some ob) = Some ob1"
    "length (ob_block ob1) = length (ob_block ob)" "ob_base ob1 = ob_base ob"
  proof (cases "ucast t = OBJECT_PROMISE")
    case True
    have "obj_write ob (- int DATA_OFFSET_promise) [1] \<noteq> None"
      using base [OF True] room unfolding obj_write_Some by (simp add: DATA_OFFSET_promise_def)
    then show ?thesis using that True by (auto simp: length_obj_write obj_write_base)
  qed (use that in auto)
  have "obj_write ob1 (sint offset) d \<noteq> None" using room ob1(2,3) off0 unfolding obj_write_Some by linarith
  then obtain ob' where w: "obj_write ob1 (sint offset) d = Some ob'" by blast
  have "UpdateLocalPush ob offset sz source = Some ob'"
    using t ob1(1) d w by (simp add: UpdateLocalPush_def split: if_splits)
  moreover have "obj_read ob1 off' n = obj_read ob off' n" if "- int DATA_OFFSET_object \<le> off'" for off' n
    using ob1(1) that obj_read_write_other [of ob "- int DATA_OFFSET_promise" "[1]" ob1 off' n]
    by (auto simp: data_offsets split: if_splits)
  ultimately show ?thesis using that w by blast
qed

section \<open>Properties\<close>

text \<open>
  C23. What is pushed to a local object is what a query of the same place reads: a push within the object
  succeeds and makes a promise ready, a query of the same offset and size then returns the pushed bytes,
  and the type, the size and all other bytes of the object are as before.
\<close>

theorem push_then_query:
  assumes "obj_type ob = Some t" "ucast t = OBJECT_PROMISE \<Longrightarrow> DATA_OFFSET_promise \<le> ob_base ob"
    "push_bytes sz source = Some d" "0 \<le>s offset"
    "ob_base ob + unat offset + length d \<le> length (ob_block ob)"
  shows "\<exists>ob'. UpdateLocalPush ob offset sz source = Some ob' \<and> QueryLocalObject ob' offset sz = Some (Some d) \<and>
    obj_type ob' = Some t \<and> obj_data_size ob' = obj_data_size ob \<and>
    (\<forall>off' n. 0 \<le> off' \<and> (off' + n \<le> sint offset \<or> sint offset + int (length d) \<le> off') \<longrightarrow>
       obj_read ob' off' n = obj_read ob off' n)"
proof -
  obtain ob1 ob' where p: "UpdateLocalPush ob offset sz source = Some ob'"
    and w: "obj_write ob1 (sint offset) d = Some ob'"
    and same: "\<And>off' n. - int DATA_OFFSET_object \<le> off' \<Longrightarrow> obj_read ob1 off' n = obj_read ob off' n"
    by (rule push_writes [OF assms]) (assumption | rule that)+
  have off0: "0 \<le> sint offset" using assms(4) by (simp add: word_sle_eq)
  have "obj_type ob' = Some t" "obj_data_size ob' = obj_data_size ob"
    using obj_header_write(1,4) [OF w off0] assms(1) same [of "-1" 1] same [of "-8" 6]
    by (simp_all add: obj_type_def obj_data_size_def DATA_OFFSET_object_def)
  moreover have "obj_read ob' off' n = obj_read ob off' n"
    if "0 \<le> off'" "off' + n \<le> sint offset \<or> sint offset + int (length d) \<le> off'" for off' n
    using obj_read_write_other [OF w that(2)] same [of off' n] that(1) by (simp add: data_offsets)
  ultimately show ?thesis using p push_then_query_aux [OF p assms(3,4)] by blast
qed

theorem push_then_query_witness:
  "\<exists>ob'. UpdateLocalPush \<lparr>ob_block = [0, 4, 0, 0, 0, 0, 0, 0, 2, 0, 0, 0, 0], ob_base = 9\<rparr> 1 (-2) (Immediate 0x1234) = Some ob' \<and>
     QueryLocalObject ob' 1 (-2) = Some (Some [0x34, 0x12])"
  using push_then_query [of "\<lparr>ob_block = [0, 4, 0, 0, 0, 0, 0, 0, 2, 0, 0, 0, 0], ob_base = 9\<rparr>" 2 "-2"
      "Immediate 0x1234" "[0x34, 0x12]" 1]
  by (auto simp: obj_type_def obj_read_def rd_bytes_def object_types DATA_OFFSET_promise_def push_bytes_def
      word_sle_eq)

lemma new_promise_ok:
  assumes "0 \<le>s sz"
  shows "\<exists>ob. new_object_block arrays provider OBJECT_PROMISE sz param = Some (Some ob) \<and>
    obj_type ob = Some (ucast OBJECT_PROMISE) \<and> obj_provider ob = Some (ucast provider) \<and>
    obj_data_size ob = Some (take_bit 48 sz) \<and> (\<forall>offset n. QueryLocalObject ob offset n = Some None) \<and>
    ob_base ob = 9 \<and> length (ob_block ob) = 9 + unat sz \<and> obj_ready ob = Some 0"
proof -
  have "wr_bytes (replicate (9 + unat sz) 0) 1 (header_bytes sz provider OBJECT_PROMISE) \<noteq> None"
    by (simp add: wr_bytes_def)
  then obtain ob where a: "alloc_block 9 OBJECT_PROMISE provider sz sz = Some ob"
    using assms by (auto simp: alloc_block_def DATA_OFFSET_object_def)
  note h = alloc_block_header [OF a]
  obtain b where b: "wr_bytes (replicate (9 + unat sz) 0) 1 (header_bytes sz provider OBJECT_PROMISE) = Some b"
    "ob = \<lparr>ob_block = b, ob_base = 9\<rparr>"
    using a by (auto simp: alloc_block_def DATA_OFFSET_object_def Option.bind_eq_Some_conv split: if_splits)
  have "obj_ready ob = Some 0"
    using rd_wr_other [OF b(1), of 0 1] b(2)
    by (simp add: obj_ready_def obj_read_def DATA_OFFSET_promise_def rd_bytes_def)
  then show ?thesis
    using a h by (simp add: new_object_block_def QueryLocalObject_def DATA_OFFSET_promise_def object_types)
qed

text \<open>
  C38. A new promise is not ready: for every size there is a promise of that size and of the provider that
  was asked for, and every query of it, of any offset and size, says that it is not ready.
\<close>

theorem new_promise_not_ready:
  assumes "0 \<le>s sz"
  shows "\<exists>ob. new_object_block arrays provider OBJECT_PROMISE sz param = Some (Some ob) \<and>
    obj_type ob = Some (ucast OBJECT_PROMISE) \<and> obj_provider ob = Some (ucast provider) \<and>
    obj_data_size ob = Some (take_bit 48 sz) \<and> QueryLocalObject ob offset n = Some None"
  using new_promise_ok [OF assms] by blast

theorem new_promise_not_ready_witness:
  "\<exists>ob. new_object_block [] PROVIDER_X64 OBJECT_PROMISE 4 4 = Some (Some ob) \<and> QueryLocalObject ob 0 (-4) = Some None"
  using new_promise_not_ready [of 4 "[]" PROVIDER_X64 4 0 "-4"] by (auto simp: word_sle_eq)

lemma new_array_ok:
  assumes "0 \<le>s sz" "param \<noteq> 0"
  shows "\<exists>ob. new_object_block arrays provider OBJECT_ARRAY sz param = Some (Some ob) \<and>
    obj_length ob = Some (word_of_int (sint sz sdiv sint param)) \<and> obj_data_size ob = Some (take_bit 48 sz) \<and>
    QueryLocalObject ob 0 sz = Some (Some (replicate (unat sz) 0)) \<and>
    ob_base ob = 16 \<and> length (ob_block ob) = 16 + unat sz \<and> obj_type ob = Some 3"
proof -
  have "wr_bytes (replicate (16 + unat sz) 0) 8 (header_bytes sz provider OBJECT_ARRAY) \<noteq> None"
    by (simp add: wr_bytes_def)
  then obtain ob0 where a: "alloc_block 16 OBJECT_ARRAY provider sz sz = Some ob0"
    using assms(1) by (auto simp: alloc_block_def DATA_OFFSET_object_def)
  note h = alloc_block_header [OF a, simplified]
  let ?l = "le_bytes 8 (word_of_int (sint sz sdiv sint param) :: i64)"
  have "obj_write ob0 (-16) ?l \<noteq> None" using h(4,5) unfolding obj_write_Some by (simp del: le_bytes_numeral)
  then obtain ob where w: "obj_write ob0 (-16) ?l = Some ob" by blast
  have other: "obj_read ob off n = obj_read ob0 off n" if "-8 \<le> off" for off n
    using obj_read_write_other [OF w, of off n] that by (simp del: le_bytes_numeral)
  have "obj_read ob (-16) 8 = Some ?l" using obj_read_write_same [OF w] by (simp del: le_bytes_numeral)
  then have "obj_length ob = Some (word_of_int (sint sz sdiv sint param))"
    by (simp add: obj_length_def le_word_le_bytes del: le_bytes_numeral)
  moreover have "obj_type ob = Some 3" "obj_data_size ob = Some (take_bit 48 sz)"
    using h other by (simp_all add: obj_type_def obj_data_size_def object_types)
  moreover have sz: "sint sz = int (unat sz)" using assms(1) by (rule sint_nonneg)
  moreover have "obj_read ob0 0 (int (unat sz)) = Some (replicate (unat sz) 0)"
    using alloc_block_zero [OF a, of 0 "int (unat sz)"] sz by simp
  moreover have "ob_base ob = 16" "length (ob_block ob) = 16 + unat sz"
    using obj_write_base [OF w] length_obj_write [OF w] h(4,5) by simp_all
  ultimately show ?thesis
    using a w other assms(2)
    by (simp add: new_object_block_def set_length_def QueryLocalObject_def data_offsets object_types
        del: le_bytes_numeral)
qed

text \<open>
  A new array is zero and knows its length: for every size that is not negative and every element size
  but 0, the array exists, its length field is the quotient of the two, its size field is the size modulo
  2 to the 48, and every byte of it reads as 0.
\<close>

theorem new_array_zero:
  assumes "0 \<le>s sz" "param \<noteq> 0"
  shows "\<exists>ob. new_object_block arrays provider OBJECT_ARRAY sz param = Some (Some ob) \<and>
    obj_length ob = Some (word_of_int (sint sz sdiv sint param)) \<and> obj_data_size ob = Some (take_bit 48 sz) \<and>
    QueryLocalObject ob 0 sz = Some (Some (replicate (unat sz) 0))"
  using new_array_ok [OF assms] by blast

theorem new_array_zero_witness:
  "\<exists>ob. new_object_block [] PROVIDER_X64 OBJECT_ARRAY 24 8 = Some (Some ob) \<and> obj_length ob = Some 3"
  using new_array_zero [of 24 8 "[]" PROVIDER_X64] by (auto simp: word_sle_eq signed_divide_int_def)

end
