(* ===== verification/RingQueue.thy ===== *)
theory RingQueue
  imports Prelude
begin

text \<open>
  The ring buffer of \<^verbatim>\<open>common/queue.c\<close> (lines 8 to 72), one per priority: its three operations,
  run without interference, and the proof that they are a double-ended queue of non-null pointers with
  room for \<^verbatim>\<open>RING_SIZE\<close> entries. Head and tail are signed numbers of 64 bits that move
  by one per operation in either direction, and are unbounded here: a run that leaves the 64 bits
  has more than 2^63 operations. Their cell is their value masked. A loop that waits for another thread (for a cell to
  become empty or full) never ends when there is none, and is \<open>None\<close>.
\<close>

definition RING_SIZE :: nat where
  "RING_SIZE = 4 * 64 * 1024"

definition RING_MASK :: int where
  "RING_MASK = int RING_SIZE - 1"

record task_queue =
  q_buffer :: "nat \<Rightarrow> i64"
  q_head :: int
  q_tail :: int

definition ring_cell :: "int \<Rightarrow> nat" where
  "ring_cell t = nat (t AND RING_MASK)"

definition queue_init :: task_queue where
  "queue_init = \<lparr>q_buffer = (\<lambda>_. 0), q_head = 0, q_tail = 0\<rparr>"

definition queue_push :: "task_queue \<Rightarrow> i64 \<Rightarrow> task_queue option" where
  "queue_push q data =
     (let t = q_tail q in
      Some (q\<lparr>q_tail := t + 1, q_buffer := (q_buffer q)(ring_cell t := data)\<rparr>))"

definition queue_push_front :: "task_queue \<Rightarrow> i64 \<Rightarrow> task_queue option" where
  "queue_push_front q data =
     (let h = q_head q - 1; q = q\<lparr>q_head := h\<rparr> in
      if q_buffer q (ring_cell h) = 0
      then Some (q\<lparr>q_buffer := (q_buffer q)(ring_cell h := data)\<rparr>)
      else None)"

definition queue_pop :: "task_queue \<Rightarrow> (task_queue \<times> i64) option" where
  "queue_pop q =
     (let h = q_head q in
      if q_tail q \<le> h then Some (q, 0)
      else let q = q\<lparr>q_head := h + 1\<rparr>; data = q_buffer q (ring_cell h) in
        if data = 0 then None
        else Some (q\<lparr>q_buffer := (q_buffer q)(ring_cell h := 0)\<rparr>, data))"

section \<open>The interface: a bounded double-ended queue\<close>

locale deque =
  fixes push push_front :: "'q \<Rightarrow> 'a \<Rightarrow> 'q option"
    and pop :: "'q \<Rightarrow> ('q \<times> 'a) option"
    and items :: "'q \<Rightarrow> 'a list" and ok :: "'q \<Rightarrow> bool" and cap :: nat and null :: 'a
  assumes push_law: "ok q \<Longrightarrow> length (items q) < cap \<Longrightarrow> d \<noteq> null \<Longrightarrow>
      \<exists>q'. push q d = Some q' \<and> ok q' \<and> items q' = items q @ [d]"
    and push_front_law: "ok q \<Longrightarrow> length (items q) < cap \<Longrightarrow> d \<noteq> null \<Longrightarrow>
      \<exists>q'. push_front q d = Some q' \<and> ok q' \<and> items q' = d # items q"
    and pop_empty: "ok q \<Longrightarrow> items q = [] \<Longrightarrow> pop q = Some (q, null)"
    and pop_law: "ok q \<Longrightarrow> items q = x # xs \<Longrightarrow>
      \<exists>q'. pop q = Some (q', x) \<and> ok q' \<and> items q' = xs"
    and not_null: "ok q \<Longrightarrow> null \<notin> set (items q)"
begin

lemma pop_result:
  assumes "ok q"
  shows "\<exists>q'. pop q = Some (q', case items q of [] \<Rightarrow> null | x # _ \<Rightarrow> x) \<and> ok q' \<and>
    items q' = tl (items q)"
  using assms pop_empty pop_law by (cases "items q") auto

lemma pop_null_iff: "ok q \<Longrightarrow> pop q = Some (q', r) \<Longrightarrow> r = null \<longleftrightarrow> items q = []"
  using pop_result not_null by (cases "items q") fastforce+

lemma push_front_pop:
  assumes "ok q" "length (items q) < cap" "d \<noteq> null"
  shows "\<exists>q1 q2. push_front q d = Some q1 \<and> pop q1 = Some (q2, d) \<and> ok q2 \<and> items q2 = items q"
  using push_front_law [OF assms] pop_law by metis

end

section \<open>The ring buffer provides it\<close>

definition queue_items :: "task_queue \<Rightarrow> i64 list" where
  "queue_items q = map (\<lambda>k. q_buffer q (ring_cell (q_head q + int k))) [0..<nat (q_tail q - q_head q)]"

definition queue_ok :: "task_queue \<Rightarrow> bool" where
  "queue_ok q \<longleftrightarrow>
     q_head q \<le> q_tail q \<and> q_tail q - q_head q \<le> int RING_SIZE \<and>
     (\<forall>j. q_head q \<le> j \<longrightarrow> j < q_tail q \<longrightarrow> q_buffer q (ring_cell j) \<noteq> 0) \<and>
     (\<forall>j. q_tail q \<le> j \<longrightarrow> j < q_head q + int RING_SIZE \<longrightarrow> q_buffer q (ring_cell j) = 0)"

lemma ring_cell_mod: "ring_cell t = nat (t mod int RING_SIZE)"
proof -
  have "RING_MASK = mask 18" by (simp add: RING_MASK_def RING_SIZE_def mask_eq_exp_minus_1)
  moreover have "t AND mask 18 = t mod 2 ^ 18" by (simp add: take_bit_eq_mod flip: take_bit_eq_mask)
  moreover have "(2 :: int) ^ 18 = int RING_SIZE" by (simp add: RING_SIZE_def)
  ultimately show ?thesis by (simp only: ring_cell_def)
qed

lemma ring_cell_less: "ring_cell t < RING_SIZE"
  by (simp add: ring_cell_mod RING_SIZE_def nat_less_iff)

lemma ring_cell_eq: "ring_cell a = ring_cell b \<longleftrightarrow> a mod int RING_SIZE = b mod int RING_SIZE"
  by (simp add: ring_cell_mod RING_SIZE_def eq_nat_nat_iff)

lemma ring_cell_shift: "ring_cell (j + int RING_SIZE) = ring_cell j" "ring_cell (j - int RING_SIZE) = ring_cell j"
  by (simp_all add: ring_cell_eq)

text \<open>Two positions less than a round apart have different cells.\<close>

lemma ring_cell_distinct:
  assumes "a < b" "b < a + int RING_SIZE"
  shows "ring_cell a \<noteq> ring_cell b"
proof
  assume "ring_cell a = ring_cell b"
  then have "int RING_SIZE dvd b - a" by (simp add: ring_cell_eq mod_eq_dvd_iff dvd_diff_commute)
  then show False using assms zdvd_imp_le [of "int RING_SIZE" "b - a"] by simp
qed

lemma length_queue_items: "length (queue_items q) = nat (q_tail q - q_head q)"
  by (simp add: queue_items_def)

lemma queue_items_eqI:
  assumes "length xs = nat (q_tail q - q_head q)"
    "\<And>k. k < length xs \<Longrightarrow> q_buffer q (ring_cell (q_head q + int k)) = xs ! k"
  shows "queue_items q = xs"
  using assms by (auto simp: queue_items_def intro!: nth_equalityI)

lemma queue_items_nth:
  "k < nat (q_tail q - q_head q) \<Longrightarrow> queue_items q ! k = q_buffer q (ring_cell (q_head q + int k))"
  by (simp add: queue_items_def)

lemma queue_ok_init: "queue_ok queue_init"
  by (simp add: queue_ok_def queue_init_def)

lemma queue_items_init: "queue_items queue_init = []"
  by (simp add: queue_items_def queue_init_def)

lemma queue_push_ok:
  assumes ok: "queue_ok q" and room: "length (queue_items q) < RING_SIZE" and d: "d \<noteq> 0"
  shows "\<exists>q'. queue_push q d = Some q' \<and> queue_ok q' \<and> queue_items q' = queue_items q @ [d]"
proof -
  let ?q = "q\<lparr>q_tail := q_tail q + 1, q_buffer := (q_buffer q)(ring_cell (q_tail q) := d)\<rparr>"
  have len: "q_head q \<le> q_tail q" "q_tail q < q_head q + int RING_SIZE"
    using ok room by (auto simp: queue_ok_def length_queue_items)
  have diff: "ring_cell j \<noteq> ring_cell (q_tail q)" if "q_head q \<le> j" "j < q_tail q" for j
    using that len by (intro ring_cell_distinct) auto
  have diff': "ring_cell j \<noteq> ring_cell (q_tail q)" if "q_tail q < j" "j < q_head q + int RING_SIZE" for j
    using that len ring_cell_distinct [of "q_tail q" j] by auto
  have "queue_ok ?q"
    using ok len d diff' by (auto simp: queue_ok_def)
  moreover have "queue_items ?q = queue_items q @ [d]"
  proof (rule queue_items_eqI)
    fix k assume "k < length (queue_items q @ [d])"
    then consider "k < nat (q_tail q - q_head q)" | "k = nat (q_tail q - q_head q)"
      by (auto simp: length_queue_items less_Suc_eq)
    then show "q_buffer ?q (ring_cell (q_head ?q + int k)) = (queue_items q @ [d]) ! k"
      using len diff [of "q_head q + int k"]
      by cases (simp_all add: nth_append length_queue_items queue_items_nth)
  qed (use len in \<open>simp add: length_queue_items\<close>)
  ultimately show ?thesis by (simp add: queue_push_def Let_def)
qed

lemma queue_push_front_ok:
  assumes ok: "queue_ok q" and room: "length (queue_items q) < RING_SIZE" and d: "d \<noteq> 0"
  shows "\<exists>q'. queue_push_front q d = Some q' \<and> queue_ok q' \<and> queue_items q' = d # queue_items q"
proof -
  let ?h = "q_head q - 1"
  let ?q = "q\<lparr>q_head := ?h, q_buffer := (q_buffer q)(ring_cell ?h := d)\<rparr>"
  have len: "q_head q \<le> q_tail q" "q_tail q < q_head q + int RING_SIZE"
    using ok room by (auto simp: queue_ok_def length_queue_items)
  have "q_buffer q (ring_cell (?h + int RING_SIZE)) = 0"
    using ok len unfolding queue_ok_def by auto
  then have free: "q_buffer q (ring_cell ?h) = 0" by (simp only: ring_cell_shift)
  have diff: "ring_cell ?h \<noteq> ring_cell j" if "q_head q \<le> j" "j < ?h + int RING_SIZE" for j
    using that by (intro ring_cell_distinct) auto
  have diff': "ring_cell j \<noteq> ring_cell ?h" if "q_head q \<le> j" "j < ?h + int RING_SIZE" for j
    using diff [OF that] by simp
  have "q_buffer ?q (ring_cell j) \<noteq> 0" if "?h \<le> j" "j < q_tail q" for j
    using that ok d len diff' [of j] by (cases "j = ?h") (auto simp: queue_ok_def)
  then have "queue_ok ?q"
    using ok len diff' unfolding queue_ok_def by auto
  moreover have "queue_items ?q = d # queue_items q"
  proof (rule queue_items_eqI)
    fix k assume "k < length (d # queue_items q)"
    then show "q_buffer ?q (ring_cell (q_head ?q + int k)) = (d # queue_items q) ! k"
      using len diff' [of "q_head q + int (k - 1)"]
      by (cases k) (auto simp: length_queue_items queue_items_nth algebra_simps)
  qed (use len in \<open>simp add: length_queue_items\<close>)
  ultimately show ?thesis using free by (simp add: queue_push_front_def Let_def)
qed

lemma queue_pop_ok:
  assumes ok: "queue_ok q" and items: "queue_items q = x # xs"
  shows "\<exists>q'. queue_pop q = Some (q', x) \<and> queue_ok q' \<and> queue_items q' = xs"
proof -
  let ?h = "q_head q"
  let ?q = "q\<lparr>q_head := ?h + 1, q_buffer := (q_buffer q)(ring_cell ?h := 0)\<rparr>"
  have n: "nat (q_tail q - ?h) = Suc (length xs)" using items by (simp flip: length_queue_items)
  have len: "?h < q_tail q" "q_tail q \<le> ?h + int RING_SIZE"
    using ok n by (auto simp: queue_ok_def)
  have x: "q_buffer q (ring_cell ?h) = x" using queue_items_nth [of 0 q] n items by simp
  have diff: "ring_cell j \<noteq> ring_cell ?h" if "?h < j" "j < ?h + int RING_SIZE" for j
    using that ring_cell_distinct [of ?h j] by simp
  have "queue_ok ?q"
  proof -
    have "q_buffer ?q (ring_cell j) = 0" if "q_tail q \<le> j" "j < ?h + 1 + int RING_SIZE" for j
    proof (cases "j = ?h + int RING_SIZE")
      case True
      then show ?thesis by (simp add: ring_cell_shift)
    next
      case False
      then show ?thesis using that ok by (auto simp: queue_ok_def)
    qed
    then show ?thesis using ok len diff by (auto simp: queue_ok_def)
  qed
  moreover have "queue_items ?q = xs"
  proof (rule queue_items_eqI)
    fix k assume k: "k < length xs"
    then have "queue_items q ! Suc k = q_buffer q (ring_cell (?h + int (Suc k)))"
      using n by (intro queue_items_nth) simp
    then show "q_buffer ?q (ring_cell (q_head ?q + int k)) = xs ! k"
      using k n len diff [of "?h + 1 + int k"] items by (simp add: algebra_simps)
  qed (use n in simp)
  moreover have "x \<noteq> 0" using x ok len by (auto simp: queue_ok_def)
  ultimately show ?thesis using x len by (simp add: queue_pop_def Let_def)
qed

interpretation ring: deque queue_push queue_push_front queue_pop queue_items queue_ok RING_SIZE 0
proof
  fix q assume ok: "queue_ok q"
  show "queue_pop q = Some (q, 0)" if "queue_items q = []"
    using that ok length_queue_items [of q] by (simp add: queue_pop_def queue_ok_def)
  show "0 \<notin> set (queue_items q)"
    using ok by (auto simp: queue_items_def queue_ok_def)
qed (auto intro: queue_push_ok queue_push_front_ok queue_pop_ok)

section \<open>Properties\<close>

text \<open>
  A full ring is not refused: \<^verbatim>\<open>queue_push\<close> overwrites the entry at the head, which is lost,
  and counts the new one, so that the next pop returns the newest entry and leaves an empty cell behind
  on which a later pop waits for ever. \<^verbatim>\<open>queue_push_front\<close> on a full ring never returns.
\<close>

theorem full_ring:
  assumes "queue_ok q" "length (queue_items q) = RING_SIZE" "d \<noteq> 0"
  shows "queue_push_front q d = None \<and>
         (\<exists>q' q''. queue_push q d = Some q' \<and> queue_items q' = d # tl (queue_items q) @ [d] \<and>
           queue_pop q' = Some (q'', d) \<and> last (queue_items q'') = 0)"
proof -
  have n: "q_tail q = q_head q + int RING_SIZE"
    using assms(1,2) by (auto simp: queue_ok_def length_queue_items)
  have "q_buffer q (ring_cell (q_tail q - 1)) \<noteq> 0"
    using assms(1) n by (auto simp: queue_ok_def RING_SIZE_def)
  moreover have "ring_cell (q_head q - 1) = ring_cell (q_tail q - 1)"
    using ring_cell_shift(1) [of "q_head q - 1"] n by (simp add: algebra_simps)
  ultimately have spin: "queue_push_front q d = None" by (simp add: queue_push_front_def)
  let ?q = "q\<lparr>q_tail := q_tail q + 1, q_buffer := (q_buffer q)(ring_cell (q_tail q) := d)\<rparr>"
  have cell: "ring_cell (q_tail q) = ring_cell (q_head q)" using n by (simp add: ring_cell_shift)
  have diff: "ring_cell (q_head q + int k) \<noteq> ring_cell (q_head q)" if "0 < k" "k < RING_SIZE" for k
    using that ring_cell_distinct [of "q_head q" "q_head q + int k"] by simp
  have items: "queue_items ?q = d # tl (queue_items q) @ [d]"
  proof (rule queue_items_eqI)
    have "0 < RING_SIZE" by (simp add: RING_SIZE_def)
    then show len: "length (d # tl (queue_items q) @ [d]) = nat (q_tail ?q - q_head ?q)"
      using assms(2) n by simp
    fix k assume k: "k < length (d # tl (queue_items q) @ [d])"
    have R: "k \<le> RING_SIZE" using k len n by simp
    consider "k = 0" | "0 < k" "k < RING_SIZE" | "k = RING_SIZE" using R by linarith
    then show "q_buffer ?q (ring_cell (q_head ?q + int k)) = (d # tl (queue_items q) @ [d]) ! k"
    proof cases
      case 2
      then have "queue_items q ! k = q_buffer q (ring_cell (q_head q + int k))"
        using n by (intro queue_items_nth) simp
      then show ?thesis using 2 diff [OF 2] assms(2) cell
        by (cases k) (auto simp: nth_append nth_tl less_diff_conv)
    next
      case 3
      then show ?thesis using n cell assms(2) by (cases k) (simp_all add: nth_append ring_cell_shift)
    qed (use cell in simp)
  qed
  let ?q2 = "?q\<lparr>q_head := q_head q + 1, q_buffer := (q_buffer ?q)(ring_cell (q_head q) := 0)\<rparr>"
  have pop: "queue_pop ?q = Some (?q2, d)"
    using assms(3) n cell by (simp add: queue_pop_def Let_def)
  have "queue_items ?q2 \<noteq> []" using n by (simp add: length_0_conv [symmetric] length_queue_items RING_SIZE_def)
  then have "last (queue_items ?q2) = queue_items ?q2 ! (RING_SIZE - 1)"
    using n by (simp add: last_conv_nth length_queue_items)
  also have "\<dots> = q_buffer ?q2 (ring_cell (q_head q + 1 + int (RING_SIZE - 1)))"
    using n by (subst queue_items_nth) (simp_all add: RING_SIZE_def)
  also have "q_head q + 1 + int (RING_SIZE - 1) = q_head q + int RING_SIZE" by (simp add: RING_SIZE_def)
  also have "q_buffer ?q2 (ring_cell \<dots>) = 0" by (simp add: ring_cell_shift)
  finally have "last (queue_items ?q2) = 0" .
  moreover have "queue_push q d = Some ?q" by (simp add: queue_push_def Let_def)
  ultimately show ?thesis using spin items pop by blast
qed

lemma full_ring_exists:
  "queue_ok \<lparr>q_buffer = (\<lambda>_. 7), q_head = 0, q_tail = int RING_SIZE\<rparr>"
  "length (queue_items \<lparr>q_buffer = (\<lambda>_. 7), q_head = 0, q_tail = int RING_SIZE\<rparr>) = RING_SIZE"
  by (simp_all add: queue_ok_def length_queue_items)

theorem full_ring_witness:
  "queue_push_front \<lparr>q_buffer = (\<lambda>_. 7), q_head = 0, q_tail = int RING_SIZE\<rparr> 9 = None"
  using full_ring [OF full_ring_exists, of 9] by simp

text \<open>
  C26. The ring is a double-ended queue: with fewer than \<^verbatim>\<open>RING_SIZE\<close> entries, an entry pushed at
  either end is stored at that end and the rest stays in order, and a pop returns the first entry, or
  null exactly when there is none.
\<close>

theorem ring_is_deque:
  assumes "queue_ok q" "length (queue_items q) < RING_SIZE" "d \<noteq> 0"
  shows "(\<exists>q'. queue_push q d = Some q' \<and> queue_ok q' \<and> queue_items q' = queue_items q @ [d]) \<and>
         (\<exists>q'. queue_push_front q d = Some q' \<and> queue_ok q' \<and> queue_items q' = d # queue_items q) \<and>
         (\<exists>q'. queue_pop q = Some (q', case queue_items q of [] \<Rightarrow> 0 | x # _ \<Rightarrow> x) \<and>
           queue_ok q' \<and> queue_items q' = tl (queue_items q))"
  using ring.push_law [OF assms] ring.push_front_law [OF assms] ring.pop_result [OF assms(1)] by blast

theorem ring_is_deque_witness:
  "\<exists>q'. queue_push_front queue_init 5 = Some q' \<and> queue_items q' = [5]"
  using ring_is_deque [OF queue_ok_init, of 5] by (auto simp: queue_items_init RING_SIZE_def)

end
