(* ===== verification/Scheduler.thy ===== *)
theory Scheduler
  imports RingQueue "HOL-Library.Multiset"
begin

text \<open>
  The scheduler of \<^verbatim>\<open>common/queue.c\<close> (lines 75 to 241): per worker thread 16 rings, one per
  priority, with a bit mask of the rings that may hold tasks; enqueueing by affinity or by the shorter of
  two random queues, dequeueing with stealing. Tasks are pointers, 0 is NULL; the sizes are unbounded
  numbers, as the positions of the rings. Every operation is run
  without interference, as in RingQueue. The interface its callers rely on is the locale
  \<open>task_pool\<close>: no task is lost or made twice, and NULL is returned only when there is no task.
\<close>

section \<open>The queues of one worker thread\<close>

definition MAX_TASK_PRIORITY :: nat where
  "MAX_TASK_PRIORITY = 16"

record scheduler_queue =
  sq_queues :: "task_queue list"
  sq_active_mask :: i64
  sq_size :: int

text \<open>\<^verbatim>\<open>myMalloc\<close> returns zeroed memory, so \<^verbatim>\<open>size\<close>, which is read before it is set, is 0.\<close>

definition scheduler_queue_init :: scheduler_queue where
  "scheduler_queue_init =
     \<lparr>sq_queues = replicate MAX_TASK_PRIORITY queue_init, sq_active_mask = 0, sq_size = 0\<rparr>"

definition bit_of :: "nat \<Rightarrow> i64" where
  "bit_of priority = push_bit priority 1"

definition after_push :: "scheduler_queue \<Rightarrow> nat \<Rightarrow> task_queue \<Rightarrow> scheduler_queue" where
  "after_push s p q =
     s\<lparr>sq_queues := (sq_queues s)[p := q], sq_active_mask := sq_active_mask s OR bit_of p,
       sq_size := sq_size s + 1\<rparr>"

text \<open>The priority is a C \<^verbatim>\<open>int\<close>; outside 0 to 15 the access leaves the array.\<close>

definition scheduler_queue_push_front :: "scheduler_queue \<Rightarrow> int \<Rightarrow> i64 \<Rightarrow> scheduler_queue option" where
  "scheduler_queue_push_front s priority data =
     (if 0 \<le> priority \<and> priority < int MAX_TASK_PRIORITY then
        map_option (after_push s (nat priority)) (queue_push_front (sq_queues s ! nat priority) data)
      else None)"

definition scheduler_queue_push :: "scheduler_queue \<Rightarrow> int \<Rightarrow> i64 \<Rightarrow> scheduler_queue option" where
  "scheduler_queue_push s priority data =
     (if 0 \<le> priority \<and> priority < int MAX_TASK_PRIORITY then
        map_option (after_push s (nat priority)) (queue_push (sq_queues s ! nat priority) data)
      else None)"

primrec clz_from :: "nat \<Rightarrow> i64 \<Rightarrow> nat" where
  "clz_from 0 w = 0"
| "clz_from (Suc n) w = (if bit w n then 0 else Suc (clz_from n w))"

definition builtin_clzll :: "i64 \<Rightarrow> nat" where
  "builtin_clzll w = clz_from 64 w"

text \<open>Each turn of the loop that finds nothing clears a bit, so 65 turns are enough.\<close>

fun scheduler_queue_pop_loop :: "nat \<Rightarrow> scheduler_queue \<Rightarrow> (scheduler_queue \<times> i64) option" where
  "scheduler_queue_pop_loop 0 s = None"
| "scheduler_queue_pop_loop (Suc f) s =
     (if sq_active_mask s = 0 then Some (s, 0)
      else let priority = 63 - builtin_clzll (sq_active_mask s) in
        if MAX_TASK_PRIORITY \<le> priority then None
        else case queue_pop (sq_queues s ! priority) of
            None \<Rightarrow> None
          | Some (q, data) \<Rightarrow>
              let s = s\<lparr>sq_queues := (sq_queues s)[priority := q]\<rparr> in
              if data \<noteq> 0 then Some (s\<lparr>sq_size := sq_size s - 1\<rparr>, data)
              else scheduler_queue_pop_loop f
                     (s\<lparr>sq_active_mask := sq_active_mask s AND NOT (bit_of priority)\<rparr>))"

definition scheduler_queue_pop :: "scheduler_queue \<Rightarrow> (scheduler_queue \<times> i64) option" where
  "scheduler_queue_pop s = scheduler_queue_pop_loop 65 s"

section \<open>The scheduler\<close>

record scheduler =
  sd_workers :: "scheduler_queue list"
  sd_len :: i64
  sd_rnd_state :: i64

definition scheduler_rnd :: "i64 \<Rightarrow> i64" where
  "scheduler_rnd state =
     (let x = state;
          x = x XOR push_bit 13 x;
          x = x XOR drop_bit 7 x
      in x XOR push_bit 17 x)"

definition scheduler_init :: "i64 \<Rightarrow> nat \<Rightarrow> scheduler" where
  "scheduler_init ticks workers_len =
     \<lparr>sd_workers = replicate workers_len scheduler_queue_init, sd_len = 0, sd_rnd_state = ticks\<rparr>"

definition push_to :: "scheduler \<Rightarrow> nat \<Rightarrow> int \<Rightarrow> i64 \<Rightarrow> scheduler option" where
  "push_to s i priority wk =
     map_option (\<lambda>w. s\<lparr>sd_workers := (sd_workers s)[i := w]\<rparr>)
       (scheduler_queue_push_front (sd_workers s ! i) priority wk)"

definition scheduler_enqueue_with_affinity ::
  "scheduler \<Rightarrow> i64 \<Rightarrow> int \<Rightarrow> i64 \<Rightarrow> nat \<Rightarrow> scheduler option" where
  "scheduler_enqueue_with_affinity s affinity priority wk worker_id =
     (if sd_workers s = [] then None
      else let s = s\<lparr>sd_len := sd_len s + 1\<rparr>
        in push_to s (unat affinity mod length (sd_workers s)) priority wk)"

text \<open>\<open>affinity\<close> is the affinity of the worker the task runs, \<^verbatim>\<open>Workers[wk->id].affinity\<close>.\<close>

definition scheduler_enqueue :: "scheduler \<Rightarrow> i64 \<Rightarrow> int \<Rightarrow> i64 \<Rightarrow> nat \<Rightarrow> scheduler option" where
  "scheduler_enqueue s affinity priority wk worker_id =
     (if affinity \<noteq> -1 then scheduler_enqueue_with_affinity s affinity priority wk worker_id
      else if sd_workers s = [] then None
      else
        let r1 = scheduler_rnd (sd_rnd_state s);
            r2 = scheduler_rnd r1;
            s = s\<lparr>sd_rnd_state := r2\<rparr>;
            i = unat r1 mod length (sd_workers s);
            j = unat r2 mod length (sd_workers s);
            target = (if sq_size (sd_workers s ! i) < sq_size (sd_workers s ! j) then i else j)
        in map_option (\<lambda>s. s\<lparr>sd_len := sd_len s + 1\<rparr>) (push_to s target priority wk))"

fun steal :: "nat \<Rightarrow> scheduler \<Rightarrow> nat \<Rightarrow> (scheduler \<times> i64) option" where
  "steal 0 s victim_id = Some (s, 0)"
| "steal (Suc n) s victim_id =
     (let victim_id = (if victim_id + 1 \<ge> length (sd_workers s) then 0 else victim_id + 1) in
      if sq_active_mask (sd_workers s ! victim_id) \<noteq> 0 then
        (case scheduler_queue_pop (sd_workers s ! victim_id) of
           None \<Rightarrow> None
         | Some (w, data) \<Rightarrow>
             let s = s\<lparr>sd_workers := (sd_workers s)[victim_id := w]\<rparr> in
             if data \<noteq> 0 then Some (s\<lparr>sd_len := sd_len s - 1\<rparr>, data)
             else steal n s victim_id)
      else steal n s victim_id)"

definition scheduler_dequeue :: "scheduler \<Rightarrow> nat \<Rightarrow> (scheduler \<times> i64) option" where
  "scheduler_dequeue s worker_id =
     (if length (sd_workers s) \<le> worker_id then None
      else case scheduler_queue_pop (sd_workers s ! worker_id) of
          None \<Rightarrow> None
        | Some (w, data) \<Rightarrow>
            let s = s\<lparr>sd_workers := (sd_workers s)[worker_id := w]\<rparr> in
            if data \<noteq> 0 then Some (s\<lparr>sd_len := sd_len s - 1\<rparr>, data)
            else steal (length (sd_workers s)) s worker_id)"

section \<open>The highest set bit\<close>

lemma clz_from_le: "clz_from n w \<le> n"
  by (induction n) auto

lemma clz_from_top:
  assumes "\<exists>i<n. bit w i"
  shows "bit w (n - 1 - clz_from n w) \<and> (\<forall>i<n. n - 1 - clz_from n w < i \<longrightarrow> \<not> bit w i) \<and> clz_from n w < n"
  using assms
proof (induction n)
  case (Suc n)
  show ?case
  proof (cases "bit w n")
    case False
    then have "\<exists>i<n. bit w i" using Suc.prems by (metis less_Suc_eq)
    then show ?thesis using Suc.IH False by (auto simp: less_Suc_eq)
  qed auto
qed simp

lemma top_bit:
  assumes "w \<noteq> 0"
  shows "bit w (63 - builtin_clzll w)" "\<And>i. 63 - builtin_clzll w < i \<Longrightarrow> \<not> bit w i"
proof -
  obtain i where "bit w i" using assms by (metis bit_eqI bit_0_eq bot_apply bot_bool_def)
  then have "\<exists>i<64. bit w i" using bit_imp_le_length [of w i] by auto
  note top = clz_from_top [OF this]
  then show "bit w (63 - builtin_clzll w)" by (simp add: builtin_clzll_def)
  show "\<not> bit w i" if "63 - builtin_clzll w < i" for i
    using top that bit_imp_le_length [of w i] by (cases "i < 64") (auto simp: builtin_clzll_def)
qed

lemma bit_bit_of [simp]: "bit (bit_of p) i \<longleftrightarrow> p = i \<and> i < 64"
  by (auto simp: bit_of_def bit_simps)

section \<open>The queues of one thread refine a list per priority\<close>

definition levels :: "scheduler_queue \<Rightarrow> i64 list list" where
  "levels s = map queue_items (sq_queues s)"

definition scheduler_queue_ok :: "scheduler_queue \<Rightarrow> bool" where
  "scheduler_queue_ok s \<longleftrightarrow>
     length (sq_queues s) = MAX_TASK_PRIORITY \<and> (\<forall>q \<in> set (sq_queues s). queue_ok q) \<and>
     (\<forall>p. bit (sq_active_mask s) p \<longrightarrow> p < MAX_TASK_PRIORITY) \<and>
     (\<forall>p < MAX_TASK_PRIORITY. levels s ! p \<noteq> [] \<longrightarrow> bit (sq_active_mask s) p) \<and>
     sq_size s = int (length (concat (levels s)))"

lemma scheduler_queue_okI:
  assumes "length (sq_queues s) = MAX_TASK_PRIORITY" "\<forall>q \<in> set (sq_queues s). queue_ok q"
    "\<And>p. bit (sq_active_mask s) p \<Longrightarrow> p < MAX_TASK_PRIORITY"
    "\<forall>p < MAX_TASK_PRIORITY. levels s ! p \<noteq> [] \<longrightarrow> bit (sq_active_mask s) p"
    "sq_size s = int (length (concat (levels s)))"
  shows "scheduler_queue_ok s"
  using assms by (simp add: scheduler_queue_ok_def)

lemma scheduler_queue_okD:
  assumes "scheduler_queue_ok s"
  shows "length (sq_queues s) = MAX_TASK_PRIORITY" "\<forall>q \<in> set (sq_queues s). queue_ok q"
    "\<And>p. bit (sq_active_mask s) p \<Longrightarrow> p < MAX_TASK_PRIORITY"
    "\<And>p. p < MAX_TASK_PRIORITY \<Longrightarrow> levels s ! p \<noteq> [] \<Longrightarrow> bit (sq_active_mask s) p"
    "sq_size s = int (length (concat (levels s)))"
  using assms by (auto simp: scheduler_queue_ok_def)

text \<open>The abstract pop: the first entry of the highest non-empty level.\<close>

definition top_level :: "i64 list list \<Rightarrow> nat option" where
  "top_level lv =
     (case filter (\<lambda>p. lv ! p \<noteq> []) (rev [0..<length lv]) of [] \<Rightarrow> None | p # _ \<Rightarrow> Some p)"

definition pop_levels :: "i64 list list \<Rightarrow> i64 list list \<times> i64" where
  "pop_levels lv =
     (case top_level lv of None \<Rightarrow> (lv, 0) | Some p \<Rightarrow> (lv[p := tl (lv ! p)], hd (lv ! p)))"

lemma top_level_None: "top_level lv = None \<longleftrightarrow> (\<forall>p < length lv. lv ! p = [])"
proof -
  have "top_level lv = None \<longleftrightarrow> filter (\<lambda>p. lv ! p \<noteq> []) (rev [0..<length lv]) = []"
    by (simp add: top_level_def split: list.split)
  then show ?thesis by (auto simp: filter_empty_conv)
qed

lemma top_level_Some:
  assumes "p < length lv" "lv ! p \<noteq> []" "\<And>q. p < q \<Longrightarrow> q < length lv \<Longrightarrow> lv ! q = []"
  shows "top_level lv = Some p"
proof -
  have "[0..<length lv] = [0..<p] @ p # [Suc p..<length lv]"
    using assms(1) upt_add_eq_append [of 0 p "length lv - p"] by (simp add: upt_conv_Cons)
  then have "rev [0..<length lv] = rev [Suc p..<length lv] @ p # rev [0..<p]" by simp
  moreover have "filter (\<lambda>p. lv ! p \<noteq> []) (rev [Suc p..<length lv]) = []"
    using assms(3) by (auto simp: filter_empty_conv)
  ultimately show ?thesis using assms(2) by (simp add: top_level_def)
qed

lemma top_level_SomeD:
  assumes "top_level lv = Some p"
  shows "p < length lv \<and> lv ! p \<noteq> []"
proof -
  obtain ps where "filter (\<lambda>p. lv ! p \<noteq> []) (rev [0..<length lv]) = p # ps"
    using assms by (auto simp: top_level_def split: list.splits)
  then have "p \<in> set (filter (\<lambda>p. lv ! p \<noteq> []) (rev [0..<length lv]))" by simp
  then show ?thesis by auto
qed

lemma length_concat_update:
  "p < length lv \<Longrightarrow> length (concat (lv[p := xs])) + length (lv ! p) = length (concat lv) + length xs"
  by (induction lv arbitrary: p) (auto split: nat.splits)

lemma levels_nth: "p < length (sq_queues s) \<Longrightarrow> levels s ! p = queue_items (sq_queues s ! p)"
  by (simp add: levels_def)

lemma length_levels: "scheduler_queue_ok s \<Longrightarrow> length (levels s) = MAX_TASK_PRIORITY"
  by (simp add: levels_def scheduler_queue_ok_def)

lemma pop_loop_ok:
  assumes "scheduler_queue_ok s" "\<And>p. n \<le> p \<Longrightarrow> \<not> bit (sq_active_mask s) p" "n < f"
  shows "\<exists>s'. scheduler_queue_pop_loop f s = Some (s', snd (pop_levels (levels s))) \<and>
           scheduler_queue_ok s' \<and> levels s' = fst (pop_levels (levels s))"
  using assms
proof (induction f arbitrary: s n)
  case (Suc f)
  note ok = Suc.prems(1)
  have len: "length (levels s) = MAX_TASK_PRIORITY" "length (sq_queues s) = MAX_TASK_PRIORITY"
    using ok by (simp_all add: length_levels) (simp add: scheduler_queue_ok_def)
  show ?case
  proof (cases "sq_active_mask s = 0")
    case True
    then have "top_level (levels s) = None"
      using ok len unfolding top_level_None by (simp add: scheduler_queue_ok_def)
    then show ?thesis using True ok by (simp add: pop_levels_def)
  next
    case False
    define p where "p = 63 - builtin_clzll (sq_active_mask s)"
    have p: "bit (sq_active_mask s) p" "\<And>i. p < i \<Longrightarrow> \<not> bit (sq_active_mask s) i"
      using top_bit [OF False] by (simp_all add: p_def)
    have p16: "p < MAX_TASK_PRIORITY" using p(1) ok by (simp add: scheduler_queue_ok_def)
    have qok: "queue_ok (sq_queues s ! p)" using ok p16 by (simp add: scheduler_queue_ok_def)
    have above: "levels s ! q = []" if "p < q" "q < MAX_TASK_PRIORITY" for q
      using that p(2) ok by (auto simp: scheduler_queue_ok_def)
    show ?thesis
    proof (cases "queue_items (sq_queues s ! p)")
      case Nil
      let ?s = "s\<lparr>sq_active_mask := sq_active_mask s AND NOT (bit_of p)\<rparr>"
      have empty: "levels s ! p = []" using Nil p16 len by (simp add: levels_nth)
      have lv: "levels ?s = levels s" by (simp add: levels_def)
      have "scheduler_queue_ok ?s"
        using ok empty p16 unfolding scheduler_queue_ok_def lv
        by (auto simp: bit_simps MAX_TASK_PRIORITY_def)
      moreover have "\<not> bit (sq_active_mask ?s) i" if "p \<le> i" for i
        using that p(2) [of i] bit_imp_le_length [of "sq_active_mask s" i]
        by (cases "p = i") (auto simp: bit_simps)
      moreover have "p < f"
        using p(1) Suc.prems(2) [of p] Suc.prems(3) by (metis less_Suc_eq_le not_le order.strict_trans2)
      ultimately have "\<exists>s'. scheduler_queue_pop_loop f ?s = Some (s', snd (pop_levels (levels s))) \<and>
           scheduler_queue_ok s' \<and> levels s' = fst (pop_levels (levels s))"
        using Suc.IH [of ?s p] lv by simp
      moreover have "scheduler_queue_pop_loop (Suc f) s = scheduler_queue_pop_loop f ?s"
        using False p16 ring.pop_empty [OF qok Nil] by (simp add: p_def Let_def)
      ultimately show ?thesis by simp
    next
      case (Cons x xs)
      obtain q where q: "queue_pop (sq_queues s ! p) = Some (q, x)" "queue_ok q" "queue_items q = xs"
        using ring.pop_law [OF qok Cons] by blast
      have "x \<noteq> 0" using ring.not_null [OF qok] Cons by auto
      let ?s = "s\<lparr>sq_queues := (sq_queues s)[p := q], sq_size := sq_size s - 1\<rparr>"
      have lvp: "levels s ! p = x # xs" using Cons p16 len by (simp add: levels_nth)
      have lv: "levels ?s = (levels s)[p := xs]" using q(3) by (simp add: levels_def map_update)
      have "top_level (levels s) = Some p"
        using lvp p16 len above by (intro top_level_Some) auto
      then have pop: "pop_levels (levels s) = ((levels s)[p := xs], x)"
        using lvp by (simp add: pop_levels_def)
      have "int (length (concat ((levels s)[p := xs]))) + 1 = int (length (concat (levels s)))"
        using length_concat_update [of p "levels s" xs] p16 len lvp by simp
      moreover have "\<forall>i < MAX_TASK_PRIORITY. (levels s)[p := xs] ! i \<noteq> [] \<longrightarrow> bit (sq_active_mask s) i"
      proof (intro allI impI)
        fix i assume "i < MAX_TASK_PRIORITY" "(levels s)[p := xs] ! i \<noteq> []"
        then show "bit (sq_active_mask s) i"
          using ok p(1) by (cases "i = p") (auto simp: scheduler_queue_ok_def)
      qed
      moreover have "\<forall>r \<in> set ((sq_queues s)[p := q]). queue_ok r"
        using ok q(2) by (auto simp: scheduler_queue_ok_def dest!: set_update_subset_insert [THEN subsetD])
      ultimately have "scheduler_queue_ok ?s"
        by (intro scheduler_queue_okI; (unfold lv)?)
          (use scheduler_queue_okD(3,5) [OF ok] len in simp_all)
      moreover have "scheduler_queue_pop_loop (Suc f) s = Some (?s, x)"
        using False p16 q(1) \<open>x \<noteq> 0\<close> by (simp add: p_def Let_def)
      ultimately show ?thesis using pop lv by simp
    qed
  qed
qed simp

lemma scheduler_queue_pop_ok:
  assumes "scheduler_queue_ok s"
  shows "\<exists>s'. scheduler_queue_pop s = Some (s', snd (pop_levels (levels s))) \<and>
           scheduler_queue_ok s' \<and> levels s' = fst (pop_levels (levels s))"
  unfolding scheduler_queue_pop_def
  by (rule pop_loop_ok [OF assms, of 64]) (auto dest: bit_imp_le_length)

lemma scheduler_queue_push_front_ok:
  assumes ok: "scheduler_queue_ok s" and p: "0 \<le> priority" "priority < int MAX_TASK_PRIORITY"
    and room: "length (levels s ! nat priority) < RING_SIZE" and d: "d \<noteq> 0"
  shows "\<exists>s'. scheduler_queue_push_front s priority d = Some s' \<and> scheduler_queue_ok s' \<and>
           levels s' = (levels s)[nat priority := d # levels s ! nat priority]"
proof -
  define n where "n = nat priority"
  have n: "n < MAX_TASK_PRIORITY" using p by (simp add: n_def)
  have len: "length (levels s) = MAX_TASK_PRIORITY" "length (sq_queues s) = MAX_TASK_PRIORITY"
    using ok by (simp_all add: length_levels) (simp add: scheduler_queue_ok_def)
  have qok: "queue_ok (sq_queues s ! n)" using ok n by (simp add: scheduler_queue_ok_def)
  have lvn: "levels s ! n = queue_items (sq_queues s ! n)" using n len by (simp add: levels_nth)
  obtain q where q: "queue_push_front (sq_queues s ! n) d = Some q" "queue_ok q"
      "queue_items q = d # levels s ! n"
    using ring.push_front_law [OF qok _ d] room lvn by (auto simp: n_def)
  let ?s = "after_push s n q"
  have lv: "levels ?s = (levels s)[n := d # levels s ! n]"
    using q(3) by (simp add: levels_def map_update after_push_def)
  have "length (concat ((levels s)[n := d # levels s ! n])) = length (concat (levels s)) + 1"
    using length_concat_update [of n "levels s" "d # levels s ! n"] n len by simp
  moreover have "\<forall>i < MAX_TASK_PRIORITY. (levels s)[n := d # levels s ! n] ! i \<noteq> [] \<longrightarrow>
      bit (sq_active_mask s OR bit_of n) i"
  proof (intro allI impI)
    fix i assume "i < MAX_TASK_PRIORITY" "(levels s)[n := d # levels s ! n] ! i \<noteq> []"
    then show "bit (sq_active_mask s OR bit_of n) i"
      using ok by (cases "i = n") (auto simp: scheduler_queue_ok_def bit_or_iff MAX_TASK_PRIORITY_def)
  qed
  moreover have "\<forall>r \<in> set ((sq_queues s)[n := q]). queue_ok r"
    using ok q(2) by (auto simp: scheduler_queue_ok_def dest!: set_update_subset_insert [THEN subsetD])
  ultimately have "scheduler_queue_ok ?s"
    by (intro scheduler_queue_okI; (unfold lv)?)
      (use scheduler_queue_okD(3,5) [OF ok] len n in \<open>auto simp: after_push_def bit_or_iff\<close>)
  moreover have "scheduler_queue_push_front s priority d = Some ?s"
    using p q(1) by (simp add: scheduler_queue_push_front_def n_def)
  ultimately show ?thesis using lv by (simp add: n_def)
qed

section \<open>The interface of a pool of tasks\<close>

text \<open>
  What the threads use: entering a task adds it to the pool, and taking returns a task of the pool and
  removes it, or NULL when the pool is empty.
\<close>

locale task_pool =
  fixes enter :: "'s \<Rightarrow> 'e \<Rightarrow> 's option" and fetch :: "'s \<Rightarrow> 'w \<Rightarrow> ('s \<times> i64) option"
    and task :: "'e \<Rightarrow> i64" and tasks :: "'s \<Rightarrow> i64 multiset" and ok :: "'s \<Rightarrow> bool"
    and valid :: "'e \<Rightarrow> bool" and worker :: "'w \<Rightarrow> bool" and cap :: nat
  assumes enter_law: "ok s \<Longrightarrow> valid e \<Longrightarrow> size (tasks s) < cap \<Longrightarrow>
      \<exists>s'. enter s e = Some s' \<and> ok s' \<and> tasks s' = add_mset (task e) (tasks s)"
    and take_law: "ok s \<Longrightarrow> worker w \<Longrightarrow>
      \<exists>s' r. fetch s w = Some (s', r) \<and> ok s' \<and>
        (if tasks s = {#} then r = 0 \<and> tasks s' = {#} else r \<noteq> 0 \<and> tasks s = add_mset r (tasks s'))"

datatype ('e, 'w) pool_op = Enter 'e | Take 'w

fun run_pool ::
  "('s \<Rightarrow> 'e \<Rightarrow> 's option) \<Rightarrow> ('s \<Rightarrow> 'w \<Rightarrow> ('s \<times> i64) option) \<Rightarrow> 's \<Rightarrow> ('e, 'w) pool_op list \<Rightarrow>
   ('s \<times> i64 list) option" where
  "run_pool enter fetch s [] = Some (s, [])"
| "run_pool enter fetch s (Enter e # ops) =
     (case enter s e of None \<Rightarrow> None | Some s' \<Rightarrow> run_pool enter fetch s' ops)"
| "run_pool enter fetch s (Take w # ops) =
     (case fetch s w of
        None \<Rightarrow> None
      | Some (s', r) \<Rightarrow> map_option (\<lambda>(s'', rs). (s'', r # rs)) (run_pool enter fetch s' ops))"

definition entered :: "('e, 'w) pool_op list \<Rightarrow> 'e list" where
  "entered ops = List.map_filter (\<lambda>x. case x of Enter e \<Rightarrow> Some e | Take _ \<Rightarrow> None) ops"

lemma entered_simps [simp]:
  "entered [] = []" "entered (Enter e # ops) = e # entered ops" "entered (Take w # ops) = entered ops"
  by (simp_all add: entered_def map_filter_simps)

definition takers :: "('e, 'w) pool_op list \<Rightarrow> 'w list" where
  "takers ops = List.map_filter (\<lambda>x. case x of Enter _ \<Rightarrow> None | Take w \<Rightarrow> Some w) ops"

lemma takers_simps [simp]:
  "takers [] = []" "takers (Enter e # ops) = takers ops" "takers (Take w # ops) = w # takers ops"
  by (simp_all add: takers_def map_filter_simps)

context task_pool
begin

lemma conservation:
  assumes "ok s" "\<forall>e \<in> set (entered ops). valid e" "\<forall>w \<in> set (takers ops). worker w"
    "size (tasks s) + length (entered ops) \<le> cap"
  shows "\<exists>s' rs. run_pool enter fetch s ops = Some (s', rs) \<and> ok s' \<and>
    tasks s + mset (map task (entered ops)) = mset (filter (\<lambda>r. r \<noteq> 0) rs) + tasks s'"
  using assms
proof (induction ops arbitrary: s)
  case (Cons opn ops)
  show ?case
  proof (cases opn)
    case (Enter e)
    obtain s1 where s1: "enter s e = Some s1" "ok s1" "tasks s1 = add_mset (task e) (tasks s)"
      using enter_law [OF Cons.prems(1), of e] Cons.prems(2,4) Enter by auto
    then show ?thesis using Cons.IH [OF s1(2)] Cons.prems Enter by auto
  next
    case (Take w)
    obtain s1 r where s1: "fetch s w = Some (s1, r)" "ok s1"
      "if tasks s = {#} then r = 0 \<and> tasks s1 = {#} else r \<noteq> 0 \<and> tasks s = add_mset r (tasks s1)"
      using take_law [OF Cons.prems(1), of w] Cons.prems(3) Take by auto
    then have "size (tasks s1) \<le> size (tasks s)" by (auto split: if_splits)
    then obtain s2 rs where "run_pool enter fetch s1 ops = Some (s2, rs)" "ok s2"
      "tasks s1 + mset (map task (entered ops)) = mset (filter (\<lambda>r. r \<noteq> 0) rs) + tasks s2"
      using Cons.IH [OF s1(2)] Cons.prems Take by auto
    then show ?thesis using s1 Take by (auto split: if_splits)
  qed
qed simp

end

section \<open>The scheduler provides it\<close>

definition sq_tasks :: "scheduler_queue \<Rightarrow> i64 multiset" where
  "sq_tasks s = mset (concat (levels s))"

definition sched_tasks :: "scheduler \<Rightarrow> i64 multiset" where
  "sched_tasks s = (\<Sum>w \<leftarrow> sd_workers s. sq_tasks w)"

definition sched_ok :: "nat \<Rightarrow> scheduler \<Rightarrow> bool" where
  "sched_ok n s \<longleftrightarrow>
     0 < n \<and> length (sd_workers s) = n \<and> (\<forall>w \<in> set (sd_workers s). scheduler_queue_ok w) \<and>
     sd_len s = of_nat (size (sched_tasks s))"

lemma mset_concat_update:
  "p < length lv \<Longrightarrow> mset (concat (lv[p := xs])) + mset (lv ! p) = mset (concat lv) + mset xs"
  by (induction lv arbitrary: p) (auto split: nat.splits simp: ac_simps)

lemma sum_list_map_update:
  fixes f :: "'a \<Rightarrow> 'b :: comm_monoid_add"
  shows "i < length xs \<Longrightarrow>
    sum_list (map f (xs[i := y])) + f (xs ! i) = sum_list (map f xs) + f y"
  by (induction xs arbitrary: i) (auto split: nat.splits simp: ac_simps)

lemma sq_tasks_le: "w \<in> set ws \<Longrightarrow> size (sq_tasks w) \<le> size (\<Sum>w \<leftarrow> ws. sq_tasks w)"
  by (induction ws) auto

lemma level_le: "p < length lv \<Longrightarrow> length (lv ! p) \<le> length (concat lv)"
  by (induction lv arbitrary: p) (auto split: nat.splits simp: nth_Cons intro: le_SucI trans_le_add2)

lemma sq_tasks_empty_iff: "sq_tasks s = {#} \<longleftrightarrow> (\<forall>p < length (levels s). levels s ! p = [])"
  by (auto simp: sq_tasks_def all_set_conv_all_nth)

lemma pop_tasks:
  assumes ok: "scheduler_queue_ok s"
  shows "\<exists>s' r. scheduler_queue_pop s = Some (s', r) \<and> scheduler_queue_ok s' \<and>
    (if sq_tasks s = {#} then r = 0 \<and> sq_tasks s' = {#} else r \<noteq> 0 \<and> sq_tasks s = add_mset r (sq_tasks s'))"
proof -
  obtain s' where s': "scheduler_queue_pop s = Some (s', snd (pop_levels (levels s)))"
    "scheduler_queue_ok s'" "levels s' = fst (pop_levels (levels s))"
    using scheduler_queue_pop_ok [OF ok] by blast
  show ?thesis
  proof (cases "top_level (levels s)")
    case None
    then have "sq_tasks s = {#}" by (simp add: top_level_None sq_tasks_empty_iff)
    moreover have "sq_tasks s' = sq_tasks s" "snd (pop_levels (levels s)) = 0"
      using s'(3) None by (simp_all add: sq_tasks_def pop_levels_def)
    ultimately show ?thesis using s' by simp
  next
    case (Some p)
    then have p: "p < length (levels s)" "levels s ! p \<noteq> []"
      by (auto dest: top_level_SomeD)
    then have hd: "hd (levels s ! p) \<in> set (levels s ! p)" by simp
    have "queue_ok (sq_queues s ! p)" "levels s ! p = queue_items (sq_queues s ! p)"
      using ok p(1) by (auto simp: scheduler_queue_ok_def levels_def)
    then have nz: "hd (levels s ! p) \<noteq> 0" using hd ring.not_null by metis
    have "mset (concat ((levels s)[p := tl (levels s ! p)])) + mset (levels s ! p) =
        sq_tasks s + mset (tl (levels s ! p))"
      using mset_concat_update [OF p(1)] by (simp add: sq_tasks_def)
    moreover have "mset (levels s ! p) = add_mset (hd (levels s ! p)) (mset (tl (levels s ! p)))"
      using p(2) by (metis list.collapse mset.simps(2))
    ultimately have "sq_tasks s = add_mset (hd (levels s ! p)) (sq_tasks s')"
      using s'(3) Some by (simp add: pop_levels_def sq_tasks_def)
    then show ?thesis using s' Some nz by (simp add: pop_levels_def)
  qed
qed

definition workers_ok :: "scheduler \<Rightarrow> bool" where
  "workers_ok s \<longleftrightarrow> (\<forall>w \<in> set (sd_workers s). scheduler_queue_ok w)"

lemma workers_ok_update:
  "workers_ok s \<Longrightarrow> scheduler_queue_ok w \<Longrightarrow> workers_ok (s\<lparr>sd_workers := (sd_workers s)[i := w]\<rparr>)"
  by (auto simp: workers_ok_def dest!: set_update_subset_insert [THEN subsetD])

lemma sched_tasks_update:
  "i < length (sd_workers s) \<Longrightarrow>
   sched_tasks (s\<lparr>sd_workers := (sd_workers s)[i := w]\<rparr>) + sq_tasks (sd_workers s ! i) =
   sched_tasks s + sq_tasks w"
  by (simp add: sched_tasks_def sum_list_map_update)

lemma sched_tasks_irrelevant [simp]:
  "sched_tasks (s\<lparr>sd_len := l\<rparr>) = sched_tasks s" "sched_tasks (s\<lparr>sd_rnd_state := r\<rparr>) = sched_tasks s"
  "workers_ok (s\<lparr>sd_len := l\<rparr>) = workers_ok s" "workers_ok (s\<lparr>sd_rnd_state := r\<rparr>) = workers_ok s"
  by (simp_all add: sched_tasks_def workers_ok_def)

lemma push_to_ok:
  assumes ok: "workers_ok s" and i: "i < length (sd_workers s)"
    and p: "0 \<le> priority" "priority < int MAX_TASK_PRIORITY" and wk: "wk \<noteq> 0"
    and room: "size (sched_tasks s) < RING_SIZE"
  shows "\<exists>w. push_to s i priority wk = Some (s\<lparr>sd_workers := (sd_workers s)[i := w]\<rparr>) \<and>
    workers_ok (s\<lparr>sd_workers := (sd_workers s)[i := w]\<rparr>) \<and>
    sched_tasks (s\<lparr>sd_workers := (sd_workers s)[i := w]\<rparr>) = add_mset wk (sched_tasks s)"
proof -
  let ?w = "sd_workers s ! i" and ?n = "nat priority"
  have wok: "scheduler_queue_ok ?w" using ok i by (simp add: workers_ok_def)
  have n: "?n < length (levels ?w)" using p length_levels [OF wok] by simp
  have "length (levels ?w ! ?n) \<le> size (sq_tasks ?w)"
    using level_le [OF n] by (simp add: sq_tasks_def)
  also have "\<dots> \<le> size (sched_tasks s)" using i by (simp add: sq_tasks_le sched_tasks_def)
  finally have "length (levels ?w ! ?n) < RING_SIZE" using room by simp
  then obtain w where w: "scheduler_queue_push_front ?w priority wk = Some w" "scheduler_queue_ok w"
      "levels w = (levels ?w)[?n := wk # levels ?w ! ?n]"
    using scheduler_queue_push_front_ok [OF wok p _ wk] by blast
  have "sq_tasks w = add_mset wk (sq_tasks ?w)"
    using mset_concat_update [OF n, of "wk # levels ?w ! ?n"] w(3) by (simp add: sq_tasks_def)
  then have "sched_tasks (s\<lparr>sd_workers := (sd_workers s)[i := w]\<rparr>) = add_mset wk (sched_tasks s)"
    using sched_tasks_update [OF i, of w] by simp
  then show ?thesis using w(1) workers_ok_update [OF ok w(2), of i] by (auto simp: push_to_def)
qed

lemma sched_ok_alt:
  "sched_ok n s \<longleftrightarrow> 0 < n \<and> length (sd_workers s) = n \<and> workers_ok s \<and>
     sd_len s = of_nat (size (sched_tasks s))"
  by (auto simp: sched_ok_def workers_ok_def)

lemma scheduler_enqueue_ok:
  assumes ok: "sched_ok n s" and p: "0 \<le> priority" "priority < int MAX_TASK_PRIORITY"
    and wk: "wk \<noteq> 0" and room: "size (sched_tasks s) < RING_SIZE"
  shows "\<exists>s'. scheduler_enqueue s affinity priority wk worker_id = Some s' \<and> sched_ok n s' \<and>
    sched_tasks s' = add_mset wk (sched_tasks s)"
proof (cases "affinity = -1")
  case True
  let ?r1 = "scheduler_rnd (sd_rnd_state s)"
  let ?s = "s\<lparr>sd_rnd_state := scheduler_rnd ?r1\<rparr>"
  let ?i = "unat ?r1 mod n" and ?j = "unat (scheduler_rnd ?r1) mod n"
  let ?t = "if sq_size (sd_workers s ! ?i) < sq_size (sd_workers s ! ?j) then ?i else ?j"
  have len: "length (sd_workers s) = n" "0 < n" using ok by (simp_all add: sched_ok_def)
  then have ne: "sd_workers s \<noteq> []" by auto
  have "?t < length (sd_workers ?s)" using len by simp
  moreover have "workers_ok ?s" "size (sched_tasks ?s) < RING_SIZE"
    using ok room by (simp_all add: sched_ok_alt)
  ultimately obtain w where "push_to ?s ?t priority wk = Some (?s\<lparr>sd_workers := (sd_workers ?s)[?t := w]\<rparr>)"
      "workers_ok (?s\<lparr>sd_workers := (sd_workers ?s)[?t := w]\<rparr>)"
      "sched_tasks (?s\<lparr>sd_workers := (sd_workers ?s)[?t := w]\<rparr>) = add_mset wk (sched_tasks ?s)"
    using push_to_ok [of ?s ?t, OF _ _ p wk] by blast
  then show ?thesis
    using True ok ne len by (auto simp: scheduler_enqueue_def sched_ok_alt Let_def)
next
  case False
  let ?s = "s\<lparr>sd_len := sd_len s + 1\<rparr>" and ?i = "unat affinity mod n"
  have len: "length (sd_workers s) = n" "0 < n" using ok by (simp_all add: sched_ok_def)
  then have ne: "sd_workers s \<noteq> []" by auto
  have "?i < length (sd_workers ?s)" using len by simp
  moreover have "workers_ok ?s" "size (sched_tasks ?s) < RING_SIZE"
    using ok room by (simp_all add: sched_ok_alt)
  ultimately obtain w where "push_to ?s ?i priority wk = Some (?s\<lparr>sd_workers := (sd_workers ?s)[?i := w]\<rparr>)"
      "workers_ok (?s\<lparr>sd_workers := (sd_workers ?s)[?i := w]\<rparr>)"
      "sched_tasks (?s\<lparr>sd_workers := (sd_workers ?s)[?i := w]\<rparr>) = add_mset wk (sched_tasks ?s)"
    using push_to_ok [of ?s ?i, OF _ _ p wk] by blast
  then show ?thesis
    using False ok ne len
    by (auto simp: scheduler_enqueue_def scheduler_enqueue_with_affinity_def sched_ok_alt Let_def)
qed

text \<open>One attempt on the queues of one thread.\<close>

lemma take_from:
  assumes ok: "workers_ok s" and i: "i < length (sd_workers s)"
  obtains (Empty) w where "scheduler_queue_pop (sd_workers s ! i) = Some (w, 0)"
      "workers_ok (s\<lparr>sd_workers := (sd_workers s)[i := w]\<rparr>)"
      "sched_tasks (s\<lparr>sd_workers := (sd_workers s)[i := w]\<rparr>) = sched_tasks s"
      "sq_tasks (sd_workers s ! i) = {#}" "sq_tasks w = {#}"
  | (Task) w r where "scheduler_queue_pop (sd_workers s ! i) = Some (w, r)" "r \<noteq> 0"
      "workers_ok (s\<lparr>sd_workers := (sd_workers s)[i := w]\<rparr>)"
      "sched_tasks s = add_mset r (sched_tasks (s\<lparr>sd_workers := (sd_workers s)[i := w]\<rparr>))"
proof -
  have "scheduler_queue_ok (sd_workers s ! i)" using ok i by (simp add: workers_ok_def)
  from pop_tasks [OF this] obtain w r where w: "scheduler_queue_pop (sd_workers s ! i) = Some (w, r)"
    "scheduler_queue_ok w"
    "if sq_tasks (sd_workers s ! i) = {#} then r = 0 \<and> sq_tasks w = {#}
     else r \<noteq> 0 \<and> sq_tasks (sd_workers s ! i) = add_mset r (sq_tasks w)" by blast
  note upd = sched_tasks_update [OF i, of w] and wok = workers_ok_update [OF ok w(2), of i]
  show ?thesis
  proof (cases "sq_tasks (sd_workers s ! i) = {#}")
    case True
    then show ?thesis using Empty [of w] w upd wok by simp
  next
    case False
    then show ?thesis using Task [of w r] w upd wok by simp
  qed
qed

lemma next_worker:
  fixes v n :: nat
  assumes "v < n"
  shows "(if v + 1 \<ge> n then 0 else v + 1) = (v + 1) mod n" "(if v + 1 \<ge> n then 0 else v + 1) < n"
proof -
  have "v + 1 = n \<or> v + 1 < n" using assms by linarith
  then show "(if v + 1 \<ge> n then 0 else v + 1) = (v + 1) mod n" by auto
qed (use assms in auto)

lemma steal_ok:
  assumes "workers_ok s" "v < length (sd_workers s)"
    "\<And>k. k < length (sd_workers s) \<Longrightarrow> sq_tasks (sd_workers s ! k) \<noteq> {#} \<Longrightarrow>
      \<exists>j<m. k = (v + 1 + j) mod length (sd_workers s)"
  shows "\<exists>s' r. steal m s v = Some (s', r) \<and> workers_ok s' \<and>
    length (sd_workers s') = length (sd_workers s) \<and>
    (if sched_tasks s = {#} then r = 0 \<and> sched_tasks s' = {#} \<and> sd_len s' = sd_len s
     else r \<noteq> 0 \<and> sched_tasks s = add_mset r (sched_tasks s') \<and> sd_len s' = sd_len s - 1)"
  using assms
proof (induction m arbitrary: s v)
  case 0
  then have "\<forall>w \<in> set (sd_workers s). sq_tasks w = {#}" by (metis in_set_conv_nth not_less_zero)
  moreover have "(\<forall>w \<in> set ws. sq_tasks w = {#}) \<Longrightarrow> sum_list (map sq_tasks ws) = {#}" for ws
    by (induction ws) auto
  ultimately have "sched_tasks s = {#}" by (simp add: sched_tasks_def)
  then show ?case using 0 by simp
next
  case (Suc m)
  let ?n = "length (sd_workers s)"
  define u where "u = (if v + 1 \<ge> ?n then 0 else v + 1)"
  have u: "u = (v + 1) mod ?n" "u < ?n" using next_worker [OF Suc.prems(2)] by (simp_all only: u_def)
  have later: "\<exists>j<m. k = (u + 1 + j) mod ?n"
    if k: "k < ?n" "sq_tasks (sd_workers s ! k) \<noteq> {#}" "k \<noteq> u" for k
  proof -
    obtain j where j: "j < Suc m" "k = (v + 1 + j) mod ?n" using Suc.prems(3) [OF k(1,2)] by blast
    have "j \<noteq> 0" using k(3) u(1) j(2) by (metis add_0_right)
    then obtain i where i: "j = Suc i" using not0_implies_Suc by blast
    have "(u + 1 + i) mod ?n = (v + 1 + 1 + i) mod ?n" 
      using mod_add_left_eq [of "v + 1" ?n "1 + i"] by (simp only: u(1) add.assoc)
    then have "k = (u + 1 + i) mod ?n" using j(2) i by (simp add: add.commute add.left_commute)
    then show ?thesis using j(1) i by blast
  qed
  have next_one: ?case if eq: "steal (Suc m) s v = steal m s1 u" and wok1: "workers_ok s1"
    and same: "sched_tasks s1 = sched_tasks s" "length (sd_workers s1) = ?n" "sd_len s1 = sd_len s"
    and upd: "sd_workers s1 = (sd_workers s)[u := w]" and empty: "sq_tasks w = {#}" for s1 w
  proof -
    have "\<exists>j<m. k = (u + 1 + j) mod ?n" if "k < ?n" "sq_tasks (sd_workers s1 ! k) \<noteq> {#}" for k
      using that later [of k] empty u(2) upd by (cases "k = u") auto
    then show ?thesis using Suc.IH [OF wok1, of u] u(2) unfolding eq same by blast
  qed
  have wok: "scheduler_queue_ok (sd_workers s ! u)" using Suc.prems(1) u(2) by (simp add: workers_ok_def)
  have step: "steal (Suc m) s v =
      (if sq_active_mask (sd_workers s ! u) \<noteq> 0 then
        (case scheduler_queue_pop (sd_workers s ! u) of
           None \<Rightarrow> None
         | Some (w, data) \<Rightarrow>
             if data \<noteq> 0 then Some (s\<lparr>sd_workers := (sd_workers s)[u := w], sd_len := sd_len s - 1\<rparr>, data)
             else steal m (s\<lparr>sd_workers := (sd_workers s)[u := w]\<rparr>) u)
      else steal m s u)"
    by (simp only: steal.simps Let_def u_def [symmetric]) (simp split: option.split)
  show ?case
  proof (cases "sq_active_mask (sd_workers s ! u) = 0")
    case True
    then have "levels (sd_workers s ! u) ! p = []" if "p < length (levels (sd_workers s ! u))" for p
      using scheduler_queue_okD(4) [OF wok] length_levels [OF wok] that by fastforce
    then have "sq_tasks (sd_workers s ! u) = {#}" by (simp add: sq_tasks_empty_iff)
    then show ?thesis
      by (intro next_one [of s "sd_workers s ! u"]) (simp_all only: step True Suc.prems(1), simp_all)
  next
    case False
    show ?thesis using Suc.prems(1) u(2)
    proof (cases rule: take_from)
      case (Empty w)
      then show ?thesis
        by (intro next_one [of "s\<lparr>sd_workers := (sd_workers s)[u := w]\<rparr>" w])
          (simp_all add: step False del: steal.simps)
    next
      case (Task w r)
      have "steal (Suc m) s v = Some (s\<lparr>sd_workers := (sd_workers s)[u := w], sd_len := sd_len s - 1\<rparr>, r)"
        using Task(1,2) False by (simp add: step del: steal.simps)
      then show ?thesis using Task(2-4) by (simp del: steal.simps)
    qed
  qed
qed

lemma scheduler_dequeue_ok:
  assumes ok: "sched_ok n s" and w: "worker_id < n"
  shows "\<exists>s' r. scheduler_dequeue s worker_id = Some (s', r) \<and> sched_ok n s' \<and>
    (if sched_tasks s = {#} then r = 0 \<and> sched_tasks s' = {#}
     else r \<noteq> 0 \<and> sched_tasks s = add_mset r (sched_tasks s'))"
proof -
  have wok: "workers_ok s" "length (sd_workers s) = n" using ok by (simp_all add: sched_ok_alt)
  have i: "worker_id < length (sd_workers s)" using w wok by simp
  show ?thesis using wok(1) i
  proof (cases rule: take_from)
    case (Task q r)
    then have "sched_ok n (s\<lparr>sd_workers := (sd_workers s)[worker_id := q], sd_len := sd_len s - 1\<rparr>)"
      using ok by (simp add: sched_ok_alt)
    then show ?thesis using Task i by (auto simp: scheduler_dequeue_def)
  next
    case (Empty q)
    let ?s = "s\<lparr>sd_workers := (sd_workers s)[worker_id := q]\<rparr>"
    have "\<exists>j<n. k = (worker_id + 1 + j) mod n" if "k < n" for k
    proof (cases "worker_id < k")
      case True
      then show ?thesis using that by (intro exI [of _ "k - worker_id - 1"]) auto
    next
      case False
      then show ?thesis using that w by (intro exI [of _ "n - worker_id - 1 + k"]) auto
    qed
    moreover define s1 where "s1 = ?s"
    moreover have s1: "workers_ok s1" "sched_tasks s1 = sched_tasks s" "length (sd_workers s1) = n"
        "sd_len s1 = sd_len s"
      using Empty wok(2) by (simp_all add: s1_def)
    ultimately obtain s' r where st: "steal n s1 worker_id = Some (s', r)" "workers_ok s'"
      "length (sd_workers s') = n"
      "if sched_tasks s = {#} then r = 0 \<and> sched_tasks s' = {#} \<and> sd_len s' = sd_len s
       else r \<noteq> 0 \<and> sched_tasks s = add_mset r (sched_tasks s') \<and> sd_len s' = sd_len s - 1"
      using steal_ok [OF s1(1), of worker_id n] w unfolding s1(2-4) by blast
    then have "sched_ok n s'" using ok by (auto simp: sched_ok_alt split: if_splits)
    moreover have "scheduler_dequeue s worker_id = steal n s1 worker_id"
      using Empty(1) i wok(2) by (simp add: scheduler_dequeue_def s1_def)
    ultimately show ?thesis using st by (auto split: if_splits)
  qed
qed

type_synonym enqueue_args = "i64 \<times> int \<times> i64 \<times> nat"

definition enqueue_op :: "scheduler \<Rightarrow> enqueue_args \<Rightarrow> scheduler option" where
  "enqueue_op s = (\<lambda>(affinity, priority, wk, worker_id).
     scheduler_enqueue s affinity priority wk worker_id)"

definition enqueue_task :: "enqueue_args \<Rightarrow> i64" where
  "enqueue_task = (\<lambda>(affinity, priority, wk, worker_id). wk)"

definition enqueue_valid :: "enqueue_args \<Rightarrow> bool" where
  "enqueue_valid = (\<lambda>(affinity, priority, wk, worker_id). 0 \<le> priority \<and> priority < 16 \<and> wk \<noteq> 0)"

interpretation sched: task_pool enqueue_op scheduler_dequeue enqueue_task sched_tasks "sched_ok n"
  enqueue_valid "\<lambda>w. w < n" RING_SIZE for n
proof
  fix s e assume "sched_ok n s" "enqueue_valid e" "size (sched_tasks s) < RING_SIZE"
  then show "\<exists>s'. enqueue_op s e = Some s' \<and> sched_ok n s' \<and>
      sched_tasks s' = add_mset (enqueue_task e) (sched_tasks s)"
    by (cases e) (auto simp: enqueue_op_def enqueue_task_def enqueue_valid_def MAX_TASK_PRIORITY_def
        intro!: scheduler_enqueue_ok)
qed (rule scheduler_dequeue_ok)

lemma scheduler_queue_ok_init: "scheduler_queue_ok scheduler_queue_init"
  by (intro scheduler_queue_okI)
    (auto simp: scheduler_queue_init_def levels_def queue_ok_init queue_items_init MAX_TASK_PRIORITY_def)

lemma sched_tasks_init: "sched_tasks (scheduler_init ticks n) = {#}"
  by (induction n)
    (simp_all add: sched_tasks_def scheduler_init_def sq_tasks_def levels_def scheduler_queue_init_def
      queue_items_init)

lemma sched_ok_init: "0 < n \<Longrightarrow> sched_ok n (scheduler_init ticks n)"
  using sched_tasks_init [of ticks n]
  by (auto simp: sched_ok_def scheduler_init_def scheduler_queue_ok_init)

section \<open>The random number generator\<close>

lemma xor_shift_left_inj:
  fixes x :: i64
  assumes "x XOR push_bit n x = 0" "0 < n"
  shows "x = 0"
proof -
  have "\<not> bit x i" for i
  proof (induction i rule: less_induct)
    case (less i)
    have "bit (x XOR push_bit n x) i = False" using assms(1) by simp
    then show ?case using less [of "i - n"] assms(2) bit_imp_le_length [of x i]
      by (auto simp: bit_xor_iff bit_push_bit_iff)
  qed
  then show ?thesis by (intro bit_eqI) simp
qed

lemma xor_shift_right_inj:
  fixes x :: i64
  assumes "x XOR drop_bit n x = 0" "0 < n"
  shows "x = 0"
proof -
  have "\<not> bit x j" for j
  proof (induction j rule: measure_induct_rule [where f = "\<lambda>j. 64 - j"])
    case (less j)
    show ?case
    proof
      assume b: "bit x j"
      have "bit (x XOR drop_bit n x) j = False" using assms(1) by simp
      then have hi: "bit x (j + n)" using b by (simp add: bit_xor_iff bit_drop_bit_eq add.commute)
      then have "j + n < 64" by (auto dest: bit_imp_le_length)
      then show False using less [of "j + n"] hi assms(2) by linarith
    qed
  qed
  then show ?thesis by (intro bit_eqI) simp
qed

section \<open>Properties\<close>

text \<open>
  C3. No task is lost and none is made twice: whatever sequence of enqueue operations (with at most
  \<^verbatim>\<open>RING_SIZE\<close> tasks in all, by affinity or not, at any priority) and dequeue operations of the
  worker threads is run on a fresh scheduler, all of them return, and the tasks entered are, as a
  multiset, those dequeued and those still queued; the length counter agrees with the latter.
\<close>

theorem scheduler_conserves_tasks:
  assumes "0 < n" "\<forall>(affinity, priority, wk, worker_id) \<in> set (entered ops). 0 \<le> priority \<and> priority < 16 \<and> wk \<noteq> 0"
    "\<forall>w \<in> set (takers ops). w < n" "length (entered ops) \<le> RING_SIZE"
  shows "\<exists>s rs. run_pool enqueue_op scheduler_dequeue (scheduler_init ticks n) ops = Some (s, rs) \<and>
    mset (map enqueue_task (entered ops)) = mset (filter (\<lambda>r. r \<noteq> 0) rs) + sched_tasks s \<and>
    sd_len s = of_nat (size (sched_tasks s))"
proof -
  have "\<forall>e \<in> set (entered ops). enqueue_valid e" using assms(2) by (auto simp: enqueue_valid_def)
  then obtain s rs where "run_pool enqueue_op scheduler_dequeue (scheduler_init ticks n) ops = Some (s, rs)"
    "sched_ok n s" "mset (map enqueue_task (entered ops)) = mset (filter (\<lambda>r. r \<noteq> 0) rs) + sched_tasks s"
    using sched.conservation [OF sched_ok_init [OF assms(1), of ticks], of ops] assms(3,4)
    by (auto simp: sched_tasks_init)
  then show ?thesis unfolding sched_ok_def by blast
qed

theorem scheduler_conserves_tasks_witness:
  "\<exists>s rs. run_pool enqueue_op scheduler_dequeue (scheduler_init 12345 4)
      [Enter (-1, 1, 16, 0), Enter (2, 3, 32, 1), Take 3, Take 0] = Some (s, rs) \<and>
    {#16, 32#} = mset (filter (\<lambda>r. r \<noteq> 0) rs) + sched_tasks s"
  using scheduler_conserves_tasks [of 4 "[Enter (-1, 1, 16, 0), Enter (2, 3, 32, 1), Take 3, Take 0]" 12345]
  by (auto simp: enqueue_task_def RING_SIZE_def)

text \<open>
  A worker thread is idle only when there is nothing to do: \<^verbatim>\<open>scheduler_dequeue\<close> always
  returns, and returns NULL exactly when no queue of any thread holds a task; otherwise it returns a task
  that was queued and removes that one.
\<close>

theorem dequeue_null_iff_idle:
  assumes "sched_ok n s" "worker_id < n"
  shows "\<exists>s' r. scheduler_dequeue s worker_id = Some (s', r) \<and> sched_ok n s' \<and>
    (r = 0 \<longleftrightarrow> sched_tasks s = {#}) \<and> (r \<noteq> 0 \<longrightarrow> sched_tasks s = add_mset r (sched_tasks s'))"
  using scheduler_dequeue_ok [OF assms] by (auto split: if_splits)

theorem dequeue_null_iff_idle_witness:
  "\<exists>s' r. scheduler_dequeue (scheduler_init 99 4) 2 = Some (s', r) \<and> r = 0"
  using dequeue_null_iff_idle [OF sched_ok_init, of 4 2 99] by (auto simp: sched_tasks_init)

text \<open>
  C25. The queues of one thread refine a list per priority: a pop returns the first task of the highest
  priority that has one and leaves all the others in their order, and NULL when there is none; the mask
  of active priorities may be stale, but never misses a level that holds tasks.
\<close>

theorem pop_highest_priority:
  assumes "scheduler_queue_ok s"
  shows "\<exists>s'. scheduler_queue_pop s = Some (s', snd (pop_levels (levels s))) \<and>
           scheduler_queue_ok s' \<and> levels s' = fst (pop_levels (levels s)) \<and>
           (\<forall>p < 16. levels s' ! p \<noteq> [] \<longrightarrow> bit (sq_active_mask s') p)"
  using scheduler_queue_pop_ok [OF assms] scheduler_queue_okD(4) by (metis MAX_TASK_PRIORITY_def)

theorem pop_highest_priority_witness:
  "\<exists>s'. scheduler_queue_pop scheduler_queue_init = Some (s', 0)"
proof -
  have "top_level (levels scheduler_queue_init) = None"
    by (auto simp: top_level_None levels_def scheduler_queue_init_def queue_items_init)
  then show ?thesis
    using pop_highest_priority [OF scheduler_queue_ok_init] by (auto simp: pop_levels_def)
qed

text \<open>
  The random numbers that spread the tasks never get stuck: from a non-zero seed the state stays
  non-zero; from a zero seed it stays 0, and then every task without affinity goes to thread 0.
\<close>

theorem scheduler_rnd_zero_iff: "scheduler_rnd state = 0 \<longleftrightarrow> state = 0"
proof -
  define x where "x = state XOR push_bit 13 state"
  define y where "y = x XOR drop_bit 7 x"
  have "scheduler_rnd state = y XOR push_bit 17 y"
    by (simp add: scheduler_rnd_def Let_def x_def y_def)
  then show ?thesis
    using xor_shift_left_inj [of y 17] xor_shift_right_inj [of x 7] xor_shift_left_inj [of state 13]
    by (auto simp: x_def y_def)
qed

text \<open>
  \<^verbatim>\<open>ALWAYS_PUSH_FRONT\<close> makes the scheduler a stack: a task entered for a thread at a priority
  at or above all tasks waiting there is the next one that thread takes, before every older task.
\<close>

theorem enqueue_is_lifo:
  assumes ok: "sched_ok n s" and a: "affinity \<noteq> -1" "unat affinity < n" and p: "0 \<le> priority" "priority < 16"
    and wk: "wk \<noteq> 0" and room: "size (sched_tasks s) < RING_SIZE"
    and top: "\<forall>q < 16. priority < int q \<longrightarrow> levels (sd_workers s ! unat affinity) ! q = []"
  shows "\<exists>s1 s2. scheduler_enqueue s affinity priority wk worker_id = Some s1 \<and>
           scheduler_dequeue s1 (unat affinity) = Some (s2, wk) \<and> sched_tasks s2 = sched_tasks s"
proof -
  let ?i = "unat affinity" and ?p = "nat priority"
  let ?w = "sd_workers s ! ?i"
  have len: "length (sd_workers s) = n" "workers_ok s" using ok by (simp_all add: sched_ok_alt)
  have wok: "scheduler_queue_ok ?w" using len a(2) by (simp add: workers_ok_def)
  have n: "?p < length (levels ?w)" using p length_levels [OF wok] by (simp add: MAX_TASK_PRIORITY_def)
  have "size (sq_tasks ?w) \<le> size (sched_tasks s)" using len a(2) by (simp add: sq_tasks_le sched_tasks_def)
  then have "length (levels ?w ! ?p) < RING_SIZE"
    using level_le [OF n] room by (simp add: sq_tasks_def)
  then obtain w where w: "scheduler_queue_push_front ?w priority wk = Some w" "scheduler_queue_ok w"
      "levels w = (levels ?w)[?p := wk # levels ?w ! ?p]"
    using scheduler_queue_push_front_ok [OF wok p(1) _ _ wk] p(2) by (auto simp: MAX_TASK_PRIORITY_def)
  let ?s1 = "s\<lparr>sd_len := sd_len s + 1, sd_workers := (sd_workers s)[?i := w]\<rparr>"
  have enq: "scheduler_enqueue s affinity priority wk worker_id = Some ?s1"
    using a len w(1) by (auto simp: scheduler_enqueue_def scheduler_enqueue_with_affinity_def push_to_def Let_def)
  have "top_level (levels w) = Some ?p"
    using n w(3) top p length_levels [OF wok]
    by (intro top_level_Some) (auto simp: MAX_TASK_PRIORITY_def nth_list_update)
  then have pop: "pop_levels (levels w) = (levels ?w, wk)"
    using n w(3) by (simp add: pop_levels_def)
  obtain w' where w': "scheduler_queue_pop w = Some (w', wk)" "levels w' = levels ?w"
    using scheduler_queue_pop_ok [OF w(2)] pop by auto
  have "sq_tasks w' = sq_tasks ?w" using w'(2) by (simp add: sq_tasks_def)
  then have "sched_tasks (s\<lparr>sd_workers := (sd_workers s)[?i := w']\<rparr>) = sched_tasks s"
    using sched_tasks_update [of ?i s w'] len a(2) by simp
  then have tasks: "sched_tasks (?s1\<lparr>sd_workers := (sd_workers s)[?i := w'], sd_len := sd_len s\<rparr>) = sched_tasks s"
    by (simp add: sched_tasks_def)
  have "scheduler_dequeue ?s1 ?i =
      Some (?s1\<lparr>sd_workers := (sd_workers s)[?i := w'], sd_len := sd_len s\<rparr>, wk)"
    using w'(1) wk len a(2) by (simp add: scheduler_dequeue_def Let_def)
  then show ?thesis using enq tasks by blast
qed

theorem enqueue_is_lifo_witness:
  "\<exists>s1 s2. scheduler_enqueue (scheduler_init 7 2) 1 1 48 0 = Some s1 \<and>
     scheduler_dequeue s1 1 = Some (s2, 48) \<and> sched_tasks s2 = {#}"
  using enqueue_is_lifo [OF sched_ok_init, of 2 1 1 48 7 0]
  by (simp add: sched_tasks_init RING_SIZE_def)
    (simp add: scheduler_init_def levels_def scheduler_queue_init_def queue_items_init MAX_TASK_PRIORITY_def)

end
