(* ===== verification/Framing.thy ===== *)
theory Framing
  imports Prelude
begin

text \<open>
  The receiving loop of the network threads, \<^verbatim>\<open>Worker\<close> in \<^verbatim>\<open>common/remote.c\<close> (lines 1139 to
  1261): it cuts the byte stream of a connection, which arrives in chunks of any size, into messages and
  calls the handler for each. The handler is a parameter here (it is HandleApiCall in Handlers); the
  loop is modelled on the fields of the connection context. What a message is, is said independently by
  \<open>frames\<close>, a function on the whole stream.
\<close>

section \<open>The loop\<close>

text \<open>The context of a connection; \<^verbatim>\<open>buffer\<close>, the last chunk, is an argument of the loop.\<close>

record conn_ctx =
  x_socket :: i64
  x_api_call :: i64
  x_buffer_len :: i64
  x_current_len :: i64
  x_buffer :: "byte list"

definition STATE_WAITING_MESSAGE :: i64 where "STATE_WAITING_MESSAGE = -1"

text \<open>
  The result is the context, the state of the handlers, and whether the connection is still open. A
  write beyond the 4096 bytes of \<^verbatim>\<open>res_buffer\<close> is \<open>None\<close>. A step that receives the last bytes of a
  body, or finds that a body has none, leaves at least the state behind it, so the loop ends.
\<close>

function receive_loop ::
  "('s \<Rightarrow> conn_ctx \<Rightarrow> ('s \<times> bool) option) \<Rightarrow> conn_ctx \<Rightarrow> byte list \<Rightarrow> 's \<Rightarrow>
   (conn_ctx \<times> 's \<times> bool) option" where
  "receive_loop handle ctx [] s = Some (ctx, s, True)"
| "receive_loop handle ctx (b # bs) s =
     (if x_buffer_len ctx = STATE_WAITING_MESSAGE then
        receive_loop handle (ctx\<lparr>x_api_call := ucast b, x_buffer_len := -2\<rparr>) bs s
      else if x_buffer_len ctx <s 0 then
        let readBytes = length (b # bs);
            current_body_size = unat (-2 - x_buffer_len ctx);
            missing_body_size = 7 - current_body_size
        in if missing_body_size \<le> readBytes then
             receive_loop handle
               (ctx\<lparr>x_buffer_len := le_word (take current_body_size (x_buffer ctx) @
                       take missing_body_size (b # bs)),
                    x_current_len := 0\<rparr>)
               (drop (missing_body_size - 1) bs) s
           else
             (case wr_bytes (x_buffer ctx) current_body_size (b # bs) of
                None \<Rightarrow> None
              | Some buf \<Rightarrow>
                  Some (ctx\<lparr>x_buffer := buf,
                            x_buffer_len := -2 - word_of_nat (current_body_size + readBytes)\<rparr>, s, True))
      else
        let readBytes = length (b # bs);
            current_body_size = unat (x_current_len ctx);
            missing_body_size = unat (x_buffer_len ctx) - current_body_size
        in if missing_body_size \<le> readBytes then
             (case wr_bytes (x_buffer ctx) current_body_size (take missing_body_size (b # bs)) of
                None \<Rightarrow> None
              | Some buf \<Rightarrow>
                  let ctx = ctx\<lparr>x_buffer := buf, x_current_len := x_buffer_len ctx\<rparr> in
                  (case handle s ctx of
                     None \<Rightarrow> None
                   | Some (s', False) \<Rightarrow> Some (ctx, s', False)
                   | Some (s', True) \<Rightarrow>
                       receive_loop handle (ctx\<lparr>x_buffer_len := STATE_WAITING_MESSAGE\<rparr>)
                         (drop missing_body_size (b # bs)) s'))
           else
             (case wr_bytes (x_buffer ctx) current_body_size (b # bs) of
                None \<Rightarrow> None
              | Some buf \<Rightarrow>
                  Some (ctx\<lparr>x_buffer := buf,
                            x_current_len := x_current_len ctx + word_of_nat readBytes\<rparr>, s, True)))"
  by pat_completeness auto
termination
  by (relation "measure (\<lambda>(h, ctx, bs, s). 2 * length bs + (if 0 \<le>s x_buffer_len ctx then 1 else 0))")
    (auto simp: STATE_WAITING_MESSAGE_def word_sle_eq word_sless_alt)

text \<open>A new connection, and the chunks that one thread receives on it, one after the other.\<close>

definition new_context :: conn_ctx where
  "new_context = \<lparr>x_socket = 0, x_api_call = 0, x_buffer_len = STATE_WAITING_MESSAGE, x_current_len = 0,
     x_buffer = replicate 4096 0\<rparr>"

fun receive_chunks ::
  "('s \<Rightarrow> conn_ctx \<Rightarrow> ('s \<times> bool) option) \<Rightarrow> conn_ctx \<Rightarrow> byte list list \<Rightarrow> 's \<Rightarrow>
   (conn_ctx \<times> 's \<times> bool) option" where
  "receive_chunks handle ctx [] s = Some (ctx, s, True)"
| "receive_chunks handle ctx (c # cs) s =
     (case receive_loop handle ctx c s of
        None \<Rightarrow> None
      | Some (ctx', s', False) \<Rightarrow> Some (ctx', s', False)
      | Some (ctx', s', True) \<Rightarrow> receive_chunks handle ctx' cs s')"

section \<open>What a stream says\<close>

definition frame_len :: "byte list \<Rightarrow> nat" where
  "frame_len bs = unat (le_word (take 7 (drop 1 bs)))"

text \<open>
  A message with an empty body counts only when another byte has arrived behind it, as in the loop.
\<close>

definition complete :: "byte list \<Rightarrow> bool" where
  "complete bs \<longleftrightarrow> 8 \<le> length bs \<and> 8 + frame_len bs \<le> length bs \<and> (0 < frame_len bs \<or> 8 < length bs)"

function frames :: "byte list \<Rightarrow> (i64 \<times> byte list) list \<times> byte list" where
  "frames bs =
     (if complete bs then
        let (ms, rest) = frames (drop (8 + frame_len bs) bs)
        in ((ucast (hd bs), take (frame_len bs) (drop 8 bs)) # ms, rest)
      else ([], bs))"
  by pat_completeness auto
termination by (relation "measure length") (auto simp: complete_def)

declare frames.simps [simp del]

fun deliver :: "('s \<Rightarrow> i64 \<Rightarrow> byte list \<Rightarrow> ('s \<times> bool) option) \<Rightarrow> 's \<Rightarrow> (i64 \<times> byte list) list \<Rightarrow>
    ('s \<times> bool) option" where
  "deliver H s [] = Some (s, True)"
| "deliver H s ((call, body) # ms) =
     (case H s call body of
        None \<Rightarrow> None
      | Some (s', False) \<Rightarrow> Some (s', False)
      | Some (s', True) \<Rightarrow> deliver H s' ms)"

text \<open>
  No body of the stream, nor the one that is still arriving, is longer than the buffer, and the messages are
  those that the handler expects.
\<close>

definition fits :: "(i64 \<Rightarrow> byte list \<Rightarrow> bool) \<Rightarrow> byte list \<Rightarrow> bool" where
  "fits expected bs \<longleftrightarrow> (\<forall>(call, body) \<in> set (fst (frames bs)). length body \<le> 4096 \<and> expected call body) \<and>
     (8 \<le> length (snd (frames bs)) \<longrightarrow> frame_len (snd (frames bs)) \<le> 4096)"

section \<open>The loop finds the messages of the stream\<close>

text \<open>The context stands for the bytes of the message that has not ended yet.\<close>

definition pending :: "conn_ctx \<Rightarrow> byte list \<Rightarrow> bool" where
  "pending ctx p \<longleftrightarrow> length (x_buffer ctx) = 4096 \<and>
     (if p = [] then x_buffer_len ctx = -1
      else x_api_call ctx = ucast (hd p) \<and>
        (if length p < 8 then
           x_buffer_len ctx = -2 - word_of_nat (length p - 1) \<and>
           take (length p - 1) (x_buffer ctx) = tl p
         else
           x_buffer_len ctx = le_word (take 7 (tl p)) \<and> x_current_len ctx = word_of_nat (length p - 8) \<and>
           take (length p - 8) (x_buffer ctx) = drop 8 p \<and> \<not> complete p))"

lemma pending_new: "pending new_context []"
  by (simp add: pending_def new_context_def STATE_WAITING_MESSAGE_def)

lemma le_word_7_less: "length bs \<le> 7 \<Longrightarrow> unat (le_word bs) < 2 ^ 56"
proof -
  assume "length bs \<le> 7"
  have "le_word bs = take_bit (8 * length bs) (le_word bs)"
    using le_word_le_bytes_take [of "length bs" "le_word bs"] \<open>length bs \<le> 7\<close>
    by (simp add: le_bytes_le_word)
  then have "unat (le_word bs) = take_bit (8 * length bs) (unat (le_word bs))"
    by (metis unsigned_take_bit_eq)
  moreover have "take_bit (8 * length bs) (unat (le_word bs)) < 2 ^ (8 * length bs)" by simp
  moreover have "(2 :: nat) ^ (8 * length bs) \<le> 2 ^ 56"
    using \<open>length bs \<le> 7\<close> by (intro power_increasing) auto
  ultimately show ?thesis by linarith
qed

lemma frame_len_less: "frame_len bs < 2 ^ 56"
  unfolding frame_len_def by (rule le_word_7_less) simp

lemma small_nonneg: "unat (w :: i64) < 2 ^ 56 \<Longrightarrow> 0 \<le>s w \<and> w \<noteq> -1"
proof -
  assume a: "unat w < 2 ^ 56"
  have "int (unat w) < int (2 ^ 56)" using a by (simp only: of_nat_less_iff)
  then have "uint w < 2 ^ 63" by simp
  moreover have "- (2 ^ 63) \<le> uint w" by (rule order_trans [of _ 0]) simp_all
  ultimately have "sint w = int (unat w)" by (simp add: sint_uint signed_take_bit_int_eq_self)
  then have "0 \<le> sint w" by simp
  then show ?thesis by (auto simp: word_sle_eq)
qed

lemma idle_length: "(-2 - word_of_nat k :: i64) = - word_of_nat (k + 2)"
  by (simp add: algebra_simps)

lemma length_state:
  assumes "k < 7"
  shows "(-2 - word_of_nat k :: i64) <s 0" "(-2 - word_of_nat k :: i64) \<noteq> -1"
    "unat (-2 - (-2 - word_of_nat k :: i64)) = k"
proof -
  have "k = 0 \<or> k = 1 \<or> k = 2 \<or> k = 3 \<or> k = 4 \<or> k = 5 \<or> k = 6" using assms by linarith
  then show "(-2 - word_of_nat k :: i64) <s 0" "(-2 - word_of_nat k :: i64) \<noteq> -1"
    by (auto simp: word_sless_alt)
  have "-2 - (-2 - word_of_nat k :: i64) = word_of_nat k" by simp
  then show "unat (-2 - (-2 - word_of_nat k :: i64)) = k"
    using assms by (simp add: unat_of_nat take_bit_nat_eq_self)
qed

lemma take_wr_bytes:
  assumes "wr_bytes buf k d = Some buf'" "take k buf = q" "length q = k"
  shows "take (k + length d) buf' = q @ d"
  using assms by (auto simp: wr_bytes_def split: if_splits)

lemma wr_bytes_fits: "k + length d \<le> length buf \<Longrightarrow> \<exists>buf'. wr_bytes buf k d = Some buf'"
  by (simp add: wr_bytes_def)

lemma frame_len_prefix: "8 \<le> length p \<Longrightarrow> frame_len (p @ bs) = frame_len p"
  by (simp add: frame_len_def)

lemma frame_len_tl: "frame_len p = unat (le_word (take 7 (tl p)))"
  by (simp add: frame_len_def drop_Suc)

lemma frames_incomplete: "\<not> complete bs \<Longrightarrow> frames bs = ([], bs)"
  by (simp add: frames.simps)

lemma fits_prefix_len: "fits expected bs \<Longrightarrow> 8 \<le> length bs \<Longrightarrow> frame_len bs \<le> 4096"
proof (cases "complete bs")
  case True
  assume "fits expected bs"
  then have "length (take (frame_len bs) (drop 8 bs)) \<le> 4096"
    using True by (simp add: fits_def frames.simps [of bs] Let_def case_prod_beta)
  then show ?thesis using True by (simp add: complete_def min_def split: if_splits)
qed (auto simp: fits_def frames_incomplete)

text \<open>The claim of the induction, for the loop started on \<open>bs\<close> with \<open>p\<close> pending.\<close>

definition follows ::
  "('s \<Rightarrow> i64 \<Rightarrow> byte list \<Rightarrow> ('s \<times> bool) option) \<Rightarrow> byte list \<Rightarrow> 's \<Rightarrow>
   (conn_ctx \<times> 's \<times> bool) option \<Rightarrow> bool" where
  "follows H stream s result \<longleftrightarrow>
     (case deliver H s (fst (frames stream)) of
        None \<Rightarrow> result = None
      | Some (s', False) \<Rightarrow> (\<exists>ctx. result = Some (ctx, s', False))
      | Some (s', True) \<Rightarrow> (\<exists>ctx. result = Some (ctx, s', True) \<and> pending ctx (snd (frames stream))))"

lemma follows_incomplete: "\<not> complete p \<Longrightarrow> pending ctx p \<Longrightarrow> follows H p s (Some (ctx, s, True))"
  by (simp add: follows_def frames_incomplete)

lemma pending_incomplete: "pending ctx p \<Longrightarrow> \<not> complete p"
  by (auto simp: pending_def complete_def split: if_splits)

text \<open>One message more: the loop after the handler, and the stream after the message.\<close>

lemma follows_message:
  assumes c: "complete stream" and H: "H s (ucast (hd stream)) (take (frame_len stream) (drop 8 stream)) = r"
    and rest: "\<And>s'. r = Some (s', True) \<Longrightarrow> follows H (drop (8 + frame_len stream) stream) s' (k s')"
  shows "follows H stream s (case r of None \<Rightarrow> None | Some (s', False) \<Rightarrow> Some (ctx, s', False)
    | Some (s', True) \<Rightarrow> k s')"
proof -
  have fr: "fst (frames stream) = (ucast (hd stream), take (frame_len stream) (drop 8 stream)) #
      fst (frames (drop (8 + frame_len stream) stream))"
    "snd (frames stream) = snd (frames (drop (8 + frame_len stream) stream))"
    using c by (simp_all add: frames.simps [of stream] Let_def case_prod_beta)
  show ?thesis
  proof (cases r)
    case None
    then show ?thesis using H by (simp add: follows_def fr)
  next
    case (Some x)
    obtain s' a where x: "x = (s', a)" by fastforce
    show ?thesis
    proof (cases a)
      case True
      then have eq: "(case r of None \<Rightarrow> None | Some (s', False) \<Rightarrow> Some (ctx, s', False)
          | Some (s', True) \<Rightarrow> k s') = k s'"
        using Some x by simp
      have "follows H (drop (8 + frame_len stream) stream) s' (k s')" using rest Some x True by simp
      then show ?thesis using H Some x True unfolding eq follows_def fr by simp
    qed (use H Some x in \<open>simp add: follows_def fr\<close>)
  qed
qed

lemma fits_rest: "complete bs \<Longrightarrow> fits expected bs \<Longrightarrow> fits expected (drop (8 + frame_len bs) bs)"
  by (simp add: fits_def frames.simps [of bs] Let_def case_prod_beta)

lemma fits_expected:
  "complete bs \<Longrightarrow> fits expected bs \<Longrightarrow> expected (ucast (hd bs)) (take (frame_len bs) (drop 8 bs))"
  by (simp add: fits_def frames.simps [of bs] Let_def case_prod_beta)

text \<open>The handler does what \<open>H\<close> says on every message that it expects.\<close>

definition handles ::
  "(i64 \<Rightarrow> byte list \<Rightarrow> bool) \<Rightarrow> ('s \<Rightarrow> i64 \<Rightarrow> byte list \<Rightarrow> ('s \<times> bool) option) \<Rightarrow>
   ('s \<Rightarrow> conn_ctx \<Rightarrow> ('s \<times> bool) option) \<Rightarrow> bool" where
  "handles expected H handle \<longleftrightarrow> (\<forall>s ctx body. take (length body) (x_buffer ctx) = body \<longrightarrow>
     unat (x_buffer_len ctx) = length body \<longrightarrow> length (x_buffer ctx) = 4096 \<longrightarrow>
     expected (x_api_call ctx) body \<longrightarrow> handle s ctx = H s (x_api_call ctx) body)"

lemma receive_loop_follows:
  "handles expected H handle \<Longrightarrow> pending ctx p \<Longrightarrow> fits expected (p @ bs) \<Longrightarrow> follows H (p @ bs) s (receive_loop handle ctx bs s)"
proof (induction handle ctx bs s arbitrary: p rule: receive_loop.induct)
  case (1 handle ctx s)
  then show ?case using follows_incomplete [OF pending_incomplete] by simp
next
  case (2 handle ctx b bs s)
  have buf: "length (x_buffer ctx) = 4096" using "2.prems"(2) by (simp add: pending_def)
  consider (Idle) "p = []" | (Length) "p \<noteq> []" "length p < 8" | (Body) "8 \<le> length p" by fastforce
  then show ?case
  proof cases
    case Idle
    then have idle: "x_buffer_len ctx = STATE_WAITING_MESSAGE"
      using "2.prems"(2) by (simp add: pending_def STATE_WAITING_MESSAGE_def)
    have "pending (ctx\<lparr>x_api_call := ucast b, x_buffer_len := -2\<rparr>) [b]"
      using buf by (simp add: pending_def)
    from "2.IH"(1) [OF idle "2.prems"(1) this] show ?thesis using idle Idle "2.prems"(3) by simp
  next
    case Length
    define k where "k = length p - 1"
    have k: "k < 7" "length p = Suc k" using Length by (cases p; simp add: k_def)+
    have st: "x_buffer_len ctx = -2 - word_of_nat k" "take k (x_buffer ctx) = tl p"
        "x_api_call ctx = ucast (hd p)"
      using "2.prems"(2) Length by (simp_all add: pending_def k_def)
    have neg: "x_buffer_len ctx \<noteq> STATE_WAITING_MESSAGE" "x_buffer_len ctx <s 0"
      "unat (-2 - x_buffer_len ctx) = k"
      using length_state [OF k(1)] unfolding st(1) STATE_WAITING_MESSAGE_def by blast+
    show ?thesis
    proof (cases "7 - k \<le> length (b # bs)")
      case True
      let ?p = "p @ take (7 - k) (b # bs)"
      let ?ctx = "ctx\<lparr>x_buffer_len := le_word (take k (x_buffer ctx) @ take (7 - k) (b # bs)), x_current_len := 0\<rparr>"
      have len: "length ?p = 8" using True k by simp
      have ne: "p \<noteq> []" using Length by simp
      have "\<not> complete ?p" using len by (auto simp: complete_def)
      moreover have "take 7 (tl ?p) = take k (x_buffer ctx) @ take (7 - k) (b # bs)"
        using st(2) ne k by simp
      ultimately have pend: "pending ?ctx ?p"
        using len ne st(3) buf by (simp add: pending_def)
      have drop: "drop (7 - k - 1) bs = drop (7 - k) (b # bs)" using k by (cases "7 - k") auto
      have str: "?p @ drop (7 - k - 1) bs = p @ b # bs"
        by (simp only: drop append_assoc append_take_drop_id)
      have "follows H (?p @ drop (7 - k - 1) bs) s (receive_loop handle ?ctx (drop (7 - k - 1) bs) s)"
        by (rule "2.IH"(2) [OF neg(1,2) refl refl refl, unfolded neg(3), OF True "2.prems"(1) pend])
          (simp only: str "2.prems"(3))
      then have "follows H (p @ b # bs) s (receive_loop handle ?ctx (drop (7 - k - 1) bs) s)"
        by (simp only: str)
      moreover have "receive_loop handle ctx (b # bs) s = receive_loop handle ?ctx (drop (7 - k - 1) bs) s"
        using True neg by (simp only: receive_loop.simps Let_def if_True if_False)
      ultimately show ?thesis by (simp only:)
    next
      case False
      have "k + length (b # bs) \<le> length (x_buffer ctx)" using buf k(1) False by simp
      then obtain buf' where buf': "wr_bytes (x_buffer ctx) k (b # bs) = Some buf'"
        using wr_bytes_fits by blast
      let ?ctx = "ctx\<lparr>x_buffer := buf', x_buffer_len := -2 - word_of_nat (k + length (b # bs))\<rparr>"
      have "take (k + length (b # bs)) buf' = tl p @ b # bs"
        using take_wr_bytes [OF buf' st(2)] k(2) by simp
      then have pend: "pending ?ctx (p @ b # bs)"
        using Length k False st(3) length_wr_bytes [OF buf'] buf by (cases p) (auto simp: pending_def)
      have "receive_loop handle ctx (b # bs) s = Some (?ctx, s, True)"
        using False neg buf' by (simp add: Let_def)
      then show ?thesis using follows_incomplete [OF pending_incomplete [OF pend] pend] by simp
    qed
  next
    case Body
    define j where "j = length p - 8"
    define L where "L = frame_len p"
    have ne: "p \<noteq> []" using Body by auto
    have st: "x_api_call ctx = ucast (hd p)" "x_buffer_len ctx = le_word (take 7 (tl p))"
      "x_current_len ctx = word_of_nat j" "take j (x_buffer ctx) = drop 8 p" "\<not> complete p"
      using "2.prems"(2) Body ne by (simp_all add: pending_def j_def)
    have L: "unat (x_buffer_len ctx) = L" by (simp add: st(2) L_def frame_len_tl)
    have L4: "L \<le> 4096"
      using fits_prefix_len [OF "2.prems"(3)] Body frame_len_prefix [OF Body] by (simp add: L_def)
    have jL: "j \<le> L" using st(5) Body by (auto simp: complete_def j_def L_def)
    have j: "unat (x_current_len ctx) = j"
      using jL L4 by (simp add: st(3) unat_of_nat take_bit_nat_eq_self)
    have pos: "x_buffer_len ctx \<noteq> STATE_WAITING_MESSAGE" "\<not> x_buffer_len ctx <s 0"
      using small_nonneg [of "x_buffer_len ctx"] L L4
      by (auto simp: STATE_WAITING_MESSAGE_def word_sle_eq word_sless_alt)
    show ?thesis
    proof (cases "L - j \<le> length (b # bs)")
      case True
      let ?d = "take (L - j) (b # bs)"
      have dl: "length ?d = L - j" using True by simp
      have "j + length ?d \<le> length (x_buffer ctx)" using buf jL L4 dl by simp
      then obtain buf' where buf': "wr_bytes (x_buffer ctx) j ?d = Some buf'"
        using wr_bytes_fits by blast
      let ?ctx = "ctx\<lparr>x_buffer := buf', x_current_len := x_buffer_len ctx\<rparr>"
      have body: "take L buf' = drop 8 p @ ?d"
        using take_wr_bytes [OF buf' st(4)] jL dl by (simp add: j_def)
      have flen: "frame_len (p @ b # bs) = L" using frame_len_prefix [OF Body] by (simp add: L_def)
      have comp: "complete (p @ b # bs)"
        using Body True jL unfolding complete_def flen by (auto simp: j_def)
      have tk: "take L (drop 8 (p @ b # bs)) = drop 8 p @ ?d"
        using Body jL by (simp add: j_def)
      have rest: "drop (8 + L) (p @ b # bs) = drop (L - j) (b # bs)"
        using Body jL by (simp add: j_def add.commute)
      have run: "receive_loop handle ctx (b # bs) s =
          (case handle s ?ctx of None \<Rightarrow> None | Some (s', False) \<Rightarrow> Some (?ctx, s', False)
           | Some (s', True) \<Rightarrow> receive_loop handle (?ctx\<lparr>x_buffer_len := STATE_WAITING_MESSAGE\<rparr>)
               (drop (L - j) (b # bs)) s')"
        using True pos buf' by (simp only: receive_loop.simps Let_def L j if_True if_False option.case)
      have h: "H s (ucast (hd (p @ b # bs))) (take (frame_len (p @ b # bs)) (drop 8 (p @ b # bs))) = handle s ?ctx"
      proof -
        have "expected (x_api_call ?ctx) (drop 8 p @ ?d)"
          using fits_expected [OF comp "2.prems"(3)] ne by (simp add: flen tk st(1) del: drop_append take_append)
        moreover have "length (drop 8 p @ ?d) = L" using jL dl by (simp add: j_def)
        moreover have "take L (x_buffer ?ctx) = drop 8 p @ ?d" "unat (x_buffer_len ?ctx) = L" "length (x_buffer ?ctx) = 4096"
          using body L length_wr_bytes [OF buf'] buf by simp_all
        ultimately have "handle s ?ctx = H s (x_api_call ?ctx) (drop 8 p @ ?d)"
          using "2.prems"(1) unfolding handles_def by presburger
        then show ?thesis using ne by (simp add: flen st(1) tk del: drop_append take_append)
      qed
      show ?thesis unfolding run
      proof (rule follows_message [where H = H, OF comp h])
        fix s' assume hs: "handle s ?ctx = Some (s', True)"
        have pend: "pending (?ctx\<lparr>x_buffer_len := STATE_WAITING_MESSAGE\<rparr>) []"
          using length_wr_bytes [OF buf'] buf by (simp add: pending_def STATE_WAITING_MESSAGE_def)
        have fit: "fits expected ([] @ drop (L - j) (b # bs))"
          using fits_rest [OF comp "2.prems"(3)] by (simp add: flen rest del: drop_append)
        show "follows H (drop (8 + frame_len (p @ b # bs)) (p @ b # bs)) s'
            (receive_loop handle (?ctx\<lparr>x_buffer_len := STATE_WAITING_MESSAGE\<rparr>) (drop (L - j) (b # bs)) s')"
          using "2.IH"(3) [OF pos refl refl refl, unfolded L j, OF True buf' refl hs refl refl "2.prems"(1) pend fit]
          by (simp only: flen rest append_Nil)
      qed
    next
      case False
      have "j + length (b # bs) \<le> length (x_buffer ctx)" using buf L4 False by simp
      then obtain buf' where buf': "wr_bytes (x_buffer ctx) j (b # bs) = Some buf'"
        using wr_bytes_fits by blast
      let ?ctx = "ctx\<lparr>x_buffer := buf', x_current_len := x_current_len ctx + word_of_nat (length (b # bs))\<rparr>"
      have "take (j + length (b # bs)) buf' = drop 8 p @ b # bs"
        using take_wr_bytes [OF buf' st(4)] by (simp add: j_def)
      moreover have "\<not> complete (p @ b # bs)"
        using Body False frame_len_prefix [OF Body] by (auto simp: complete_def j_def L_def)
      moreover have "take 7 (tl (p @ b # bs)) = take 7 (tl p)" using Body by (cases p) auto
      moreover have "length (p @ b # bs) - 8 = j + length (b # bs)" using Body by (simp add: j_def)
      ultimately have pend: "pending ?ctx (p @ b # bs)"
        using Body ne st(1-3) length_wr_bytes [OF buf'] buf
        by (simp add: pending_def del: length_append length_Cons)
      have "receive_loop handle ctx (b # bs) s = Some (?ctx, s, True)"
        using False pos buf' by (simp add: Let_def L j)
      then show ?thesis using follows_incomplete [OF pending_incomplete [OF pend] pend] by simp
    qed
  qed
qed

section \<open>Chunks\<close>

lemma complete_append:
  assumes "complete xs"
  shows "complete (xs @ ys)" "frame_len (xs @ ys) = frame_len xs" "hd (xs @ ys) = hd xs"
    "take (frame_len xs) (drop 8 (xs @ ys)) = take (frame_len xs) (drop 8 xs)"
    "drop (8 + frame_len xs) (xs @ ys) = drop (8 + frame_len xs) xs @ ys"
proof -
  have len: "8 \<le> length xs" "8 + frame_len xs \<le> length xs" using assms by (auto simp: complete_def)
  show fl: "frame_len (xs @ ys) = frame_len xs" using frame_len_prefix [OF len(1)] .
  show "complete (xs @ ys)" using assms len unfolding complete_def fl by auto
  show "hd (xs @ ys) = hd xs" using len by (cases xs) auto
  show "take (frame_len xs) (drop 8 (xs @ ys)) = take (frame_len xs) (drop 8 xs)" using len by simp
  show "drop (8 + frame_len xs) (xs @ ys) = drop (8 + frame_len xs) xs @ ys" using len by simp
qed

lemma frames_append:
  "frames (xs @ ys) =
     (fst (frames xs) @ fst (frames (snd (frames xs) @ ys)), snd (frames (snd (frames xs) @ ys)))"
proof (induction xs rule: frames.induct)
  case (1 xs)
  show ?case
  proof (cases "complete xs")
    case True
    note c = complete_append [OF True, of ys]
    have "frames (xs @ ys) =
        ((ucast (hd xs), take (frame_len xs) (drop 8 xs)) # fst (frames (drop (8 + frame_len xs) xs @ ys)),
         snd (frames (drop (8 + frame_len xs) xs @ ys)))"
      using c(1) by (simp only: frames.simps [of "xs @ ys"] c(2-5) if_True Let_def case_prod_beta)
    then show ?thesis using "1.IH" [OF True]
      by (simp add: frames.simps [of xs] True Let_def case_prod_beta)
  qed (simp add: frames_incomplete)
qed

lemma fits_append: "fits expected (xs @ ys) \<Longrightarrow> fits expected xs \<and> fits expected (snd (frames xs) @ ys)"
proof -
  assume f: "fits expected (xs @ ys)"
  then have rest: "fits expected (snd (frames xs) @ ys)"
    by (simp add: fits_def frames_append [of xs ys])
  moreover have "8 \<le> length (snd (frames xs)) \<Longrightarrow> frame_len (snd (frames xs)) \<le> 4096"
    using fits_prefix_len [OF rest] frame_len_prefix by fastforce
  ultimately show ?thesis using f by (simp add: fits_def frames_append [of xs ys])
qed

lemma deliver_append:
  "deliver H s (xs @ ys) =
     (case deliver H s xs of None \<Rightarrow> None | Some (s', False) \<Rightarrow> Some (s', False)
      | Some (s', True) \<Rightarrow> deliver H s' ys)"
  by (induction xs arbitrary: s) (auto split: option.splits bool.splits)

lemma receive_chunks_follows:
  assumes H: "handles expected H handle"
  shows "pending ctx p \<Longrightarrow> fits expected (p @ concat cs) \<Longrightarrow> follows H (p @ concat cs) s (receive_chunks handle ctx cs s)"
proof (induction cs arbitrary: ctx p s)
  case Nil
  then show ?case using follows_incomplete [OF pending_incomplete] by simp
next
  case (Cons c cs)
  have fit: "fits expected (p @ c)" "fits expected (snd (frames (p @ c)) @ concat cs)"
    using fits_append [of expected "p @ c" "concat cs"] Cons.prems(2) by auto
  have one: "follows H (p @ c) s (receive_loop handle ctx c s)"
    by (rule receive_loop_follows [where H = H and handle = handle, OF H Cons.prems(1) fit(1)])
  have str: "frames (p @ concat (c # cs)) =
      (fst (frames (p @ c)) @ fst (frames (snd (frames (p @ c)) @ concat cs)),
       snd (frames (snd (frames (p @ c)) @ concat cs)))"
    using frames_append [of "p @ c" "concat cs"] by simp
  show ?case
  proof (cases "deliver H s (fst (frames (p @ c)))")
    case None
    then show ?thesis using one unfolding follows_def str fst_conv snd_conv deliver_append by simp
  next
    case (Some x)
    obtain s' a where x: "x = (s', a)" by fastforce
    show ?thesis
    proof (cases a)
      case True
      then obtain ctx' where run: "receive_loop handle ctx c s = Some (ctx', s', True)"
        "pending ctx' (snd (frames (p @ c)))"
        using one Some x by (auto simp: follows_def)
      have "follows H (snd (frames (p @ c)) @ concat cs) s' (receive_chunks handle ctx' cs s')"
        by (rule Cons.IH [OF run(2) fit(2)])
      moreover have "receive_chunks handle ctx (c # cs) s = receive_chunks handle ctx' cs s'"
        using run(1) by simp
      ultimately show ?thesis using Some x True unfolding follows_def str
        by (simp only: deliver_append fst_conv snd_conv option.case prod.case bool.case)
    next
      case False
      then show ?thesis using one Some x unfolding follows_def str fst_conv snd_conv deliver_append by auto
    qed
  qed
qed

definition encode_message :: "i64 \<times> byte list \<Rightarrow> byte list" where
  "encode_message = (\<lambda>(call, body). ucast call # le_bytes 7 (word_of_nat (length body)) @ body)"

lemma encode_message_complete:
  assumes "body \<noteq> []" "length body < 2 ^ 56"
  shows "complete (encode_message (call, body) @ ys)" "frame_len (encode_message (call, body) @ ys) = length body"
proof -
  have "take 7 (drop 1 (encode_message (call, body) @ ys)) = le_bytes 7 (word_of_nat (length body))"
    by (simp add: encode_message_def del: le_bytes_numeral)
  moreover have "unat (take_bit 56 (word_of_nat (length body) :: i64)) = length body"
    using assms(2) by (simp add: unsigned_take_bit_eq unat_of_nat take_bit_nat_eq_self)
  ultimately show fl: "frame_len (encode_message (call, body) @ ys) = length body"
    by (simp add: frame_len_def le_word_le_bytes_take del: le_bytes_numeral)
  show "complete (encode_message (call, body) @ ys)"
    using assms(1) unfolding complete_def fl by (simp add: encode_message_def del: le_bytes_numeral)
qed

lemma frames_encode:
  assumes "\<forall>(call, body) \<in> set ms. call < 256 \<and> body \<noteq> [] \<and> length body \<le> 4096"
  shows "frames (concat (map encode_message ms)) = (ms, [])"
  using assms
proof (induction ms)
  case Nil
  show ?case by (simp add: frames_incomplete complete_def)
next
  case (Cons m ms)
  obtain call body where m: "m = (call, body)" by fastforce
  let ?ys = "concat (map encode_message ms)"
  have ok: "call < 256" "body \<noteq> []" "length body < 2 ^ 56" using Cons.prems m by auto
  note c = encode_message_complete [OF ok(2,3), of call ?ys]
  have "unat (ucast (ucast call :: byte) :: i64) = unat call"
    using ok(1) by (simp add: unsigned_ucast_eq unsigned_take_bit_eq take_bit_nat_eq_self word_less_nat_alt)
  then have "(ucast (ucast call :: byte) :: i64) = call" by (rule unsigned_word_eqI)
  then have "ucast (hd (encode_message m @ ?ys)) = call" by (simp add: encode_message_def m)
  moreover have d8: "drop 8 (encode_message m @ ?ys) = body @ ?ys"
    by (simp add: encode_message_def m del: le_bytes_numeral)
  then have "take (length body) (drop 8 (encode_message m @ ?ys)) = body"
    "drop (8 + length body) (encode_message m @ ?ys) = ?ys"
    by (simp_all add: add.commute [of 8] del: drop_append take_append flip: drop_drop) simp_all
  moreover have "frames ?ys = (ms, [])" using Cons by simp
  moreover have "concat (map encode_message (m # ms)) = encode_message m @ ?ys" by simp
  ultimately show ?case using c unfolding m
    by (simp only: frames.simps [of "encode_message (call, body) @ ?ys"] Let_def case_prod_beta
        if_True fst_conv snd_conv)
qed

lemma stream_delivered:
  assumes "\<And>s ctx call body. (call, body) \<in> set ms \<Longrightarrow> x_api_call ctx = call \<Longrightarrow>
      take (length body) (x_buffer ctx) = body \<Longrightarrow> unat (x_buffer_len ctx) = length body \<Longrightarrow>
      length (x_buffer ctx) = 4096 \<Longrightarrow> handle s ctx = H s call body"
    "\<forall>(call, body) \<in> set ms. call < 256 \<and> body \<noteq> [] \<and> length body \<le> 4096"
    "concat chunks = concat (map encode_message ms)"
  shows "map_option snd (receive_chunks handle new_context chunks s) = deliver H s ms"
proof -
  let ?expected = "\<lambda>call body. (call, body) \<in> set ms"
  have fr: "frames (concat chunks) = (ms, [])" using frames_encode [OF assms(2)] assms(3) by simp
  then have fit: "fits ?expected ([] @ concat chunks)" using assms(2) by (auto simp: fits_def frame_len_def dest: bspec)
  have "handles ?expected H handle" using assms(1) unfolding handles_def by blast
  from receive_chunks_follows [OF this pending_new fit, of s] show ?thesis
    by (auto simp: follows_def fr split: option.splits prod.splits bool.splits)
qed

section \<open>Properties\<close>

text \<open>
  C15. Messages survive any chunking: when the stream of a connection is the concatenation of messages with
  bodies of 1 to 4096 bytes, then however the network cuts it, the handler is called for exactly these
  messages, in order, until it closes the connection; of the handler it is only assumed that for each of
  them it depends on the call number and the body.
\<close>

theorem messages_survive_chunking:
  assumes "\<And>s ctx call body. (call, body) \<in> set ms \<Longrightarrow> x_api_call ctx = call \<Longrightarrow>
      take (length body) (x_buffer ctx) = body \<Longrightarrow> unat (x_buffer_len ctx) = length body \<Longrightarrow>
      length (x_buffer ctx) = 4096 \<Longrightarrow> handle s ctx = H s call body"
    "\<forall>(call, body) \<in> set ms. call < 256 \<and> body \<noteq> [] \<and> length body \<le> 4096"
    "concat chunks = concat (map encode_message ms)"
  shows "map_option snd (receive_chunks handle new_context chunks s) = deliver H s ms"
  by (rule stream_delivered [OF assms])

theorem messages_survive_chunking_witness:
  "map_option snd (receive_chunks (\<lambda>s ctx. Some (s @ [(x_api_call ctx,
       take (unat (x_buffer_len ctx)) (x_buffer ctx))], True))
     new_context [[4, 2, 0], [0, 0, 0, 0], [0, 7], [8, 6, 1, 0, 0, 0, 0, 0, 0, 9]] []) =
   Some ([(4, [7, 8]), (6, [9])], True)"
  by (subst messages_survive_chunking [where H = "\<lambda>s call body. Some (s @ [(call, body)], True)" and
        ms = "[(4, [7, 8]), (6, [9])]"]) (auto simp: encode_message_def)

text \<open>
  A message without a body is not handled when it has arrived, but only together with the first byte of
  the message after it: at the end of a chunk the handler has not been called.
\<close>

theorem empty_message_waits:
  "\<exists>ctx. receive_loop handle new_context (encode_message (call, [])) s = Some (ctx, s, True) \<and>
     x_buffer_len ctx = 0 \<and>
     receive_loop handle ctx (b # bs) s =
       (case handle s ctx of None \<Rightarrow> None | Some (s', False) \<Rightarrow> Some (ctx, s', False)
        | Some (s', True) \<Rightarrow>
            receive_loop handle (ctx\<lparr>x_buffer_len := STATE_WAITING_MESSAGE\<rparr>) (b # bs) s')"
proof -
  let ?ctx = "new_context\<lparr>x_api_call := ucast (ucast call :: byte), x_buffer_len := 0, x_current_len := 0\<rparr>"
  have zero: "le_word [0, 0, 0, 0, 0, 0, 0] = 0" by simp
  have run: "receive_loop handle new_context (encode_message (call, [])) s = Some (?ctx, s, True)"
    by (simp add: encode_message_def new_context_def STATE_WAITING_MESSAGE_def word_sless_alt zero)
  have wr: "wr_bytes (x_buffer ctx) 0 [] = Some (x_buffer ctx)" for ctx by (simp add: wr_bytes_def)
  have step: "receive_loop handle ctx (b # bs) s =
      (case handle s ctx of None \<Rightarrow> None | Some (s', False) \<Rightarrow> Some (ctx, s', False)
       | Some (s', True) \<Rightarrow> receive_loop handle (ctx\<lparr>x_buffer_len := STATE_WAITING_MESSAGE\<rparr>) (b # bs) s')"
    if "x_buffer_len ctx = 0" "x_current_len ctx = 0" for ctx
  proof -
    have same: "ctx\<lparr>x_current_len := 0\<rparr> = ctx" using that(2) by simp
    show ?thesis using that wr [of ctx] unfolding STATE_WAITING_MESSAGE_def
      by (simp add: Let_def same STATE_WAITING_MESSAGE_def word_sless_alt del: receive_loop.simps
          cong: option.case_cong add: receive_loop.simps(2) [of _ ctx])
  qed
  show ?thesis using run by (intro exI [of _ ?ctx] conjI step) simp_all
qed

text \<open>
  The length of a message is not checked against the receive buffer: a message whose header announces
  more than 4096 bytes makes the loop write past the end of \<^verbatim>\<open>res_buffer\<close> when they arrive.
\<close>

theorem long_message_overflows:
  assumes "4096 < length body" "length body < 2 ^ 56"
  shows "receive_loop handle new_context (encode_message (call, body)) s = None"
proof -
  let ?L = "word_of_nat (length body) :: i64"
  have L: "unat ?L = length body" using assms(2) by (simp add: unat_of_nat take_bit_nat_eq_self)
  have "unat (take_bit 56 ?L) = unat ?L"
    using assms(2) by (simp add: unsigned_take_bit_eq L take_bit_nat_eq_self)
  then have L7: "le_word (le_bytes 7 ?L) = ?L"
    unfolding le_word_le_bytes_take by (intro unsigned_word_eqI) simp
  have pos: "0 \<le>s ?L" "?L \<noteq> -1" using small_nonneg [of ?L] assms(2) L by simp_all
  then have ns: "\<not> ?L <s 0" by (simp add: word_sle_eq word_sless_alt)
  obtain b0 bs where cons: "le_bytes 7 ?L @ body = b0 # bs" "drop 6 bs = body"
    by (simp add: numeral_eq_Suc)
  have tk: "take 7 (b0 # bs) = le_bytes 7 ?L" using cons(1) [symmetric] by (simp del: le_bytes_numeral)
  have len: "7 \<le> length (b0 # bs)" using cons(1) [symmetric] by (simp del: le_bytes_numeral)
  obtain c cs where body: "body = c # cs" using assms(1) by (cases body) auto
  let ?ctx = "new_context\<lparr>x_api_call := ucast (ucast call :: byte), x_buffer_len := ?L, x_current_len := 0\<rparr>"
  have "receive_loop handle new_context (encode_message (call, body)) s = receive_loop handle ?ctx body s"
    using len tk L7 cons by (simp add: encode_message_def new_context_def STATE_WAITING_MESSAGE_def word_sless_alt
        del: le_bytes_numeral take_Suc_Cons)
  also have "\<dots> = None"
    using assms(1) pos ns L unfolding body
    by (simp add: new_context_def STATE_WAITING_MESSAGE_def wr_bytes_def)
  finally show ?thesis .
qed

theorem long_message_overflows_witness:
  "receive_loop (\<lambda>s ctx. Some (s, True)) new_context (encode_message (4, replicate 5000 1)) () = None"
  by (rule long_message_overflows) simp_all

end
