(* ===== verification/Hive.thy ===== *)
theory Hive
  imports Objects Scheduler Framing
begin

text \<open>
  The state of one hive, as the handlers of \<^verbatim>\<open>common/remote.c\<close>, \<^verbatim>\<open>common/runtime.c\<close> and the x64
  provider see it, and its basic operations. C globals are fields of one record; structures that are
  reached by pointer live in one typed heap each, with addresses drawn from a common counter
  (\<^verbatim>\<open>myMalloc\<close>); the memory of worker programs is a byte array of its own. The hash tables appear by
  their contents: theories HashTable64 and HashTableBytes prove that the operations of the C tables act
  on the contents as \<open>tbl_get\<close>, \<open>tbl_insert\<close>, \<open>tbl_take\<close> and \<open>tbl_add\<close> do here. What the
  operating system supplies (random bytes, the clock, the sockets that a dial returns) are streams that
  the state consumes. An operation that leaves the defined behaviour of C, never returns, or ends the
  process is \<open>None\<close>.
\<close>

section \<open>Connections\<close>

record conn =
  c_local_id :: i64
  c_ctx :: "conn_ctx option"
  c_outgoing :: i64
  c_wait_list_len :: i64
  c_queue_len :: i64
  c_idle_time :: i64

definition INVALID_SOCKET :: i64 where "INVALID_SOCKET = -1"
definition INT_INFINITY :: i64 where "INT_INFINITY = 999999"
definition INFINITY_DISTANCE :: i64 where "INFINITY_DISTANCE = 999999"
definition BROADCAST_ID_LENGTH :: nat where "BROADCAST_ID_LENGTH = 27"
definition OBJECTS_PER_PAGE :: nat where "OBJECTS_PER_PAGE = 2 ^ 24"

record memory_page =
  pg_id :: i64
  pg_next :: nat

section \<open>Structures reached by pointer\<close>

text \<open>
  Entries of the wait lists (\<^verbatim>\<open>get_wait_list_value\<close>, \<^verbatim>\<open>set_wait_list_value\<close>): the callback is one
  of four functions, and \<^verbatim>\<open>params\<close> is a local id or a worker.
\<close>

datatype callback =
    callbackQueryAnswerLocalId
  | callbackPushAnswerLocalId
  | callbackContinueWorkerFromWaitingQuery
  | callbackContinueWorkerFromWaitingPush

record waiter =
  wt_next :: i64
  wt_params :: i64
  wt_callback :: callback

record broadcast =
  br_id :: i64
  br_redirect :: i64
  br_answered :: i32
  br_requested :: i32

record path =
  pa_local_id :: i64
  pa_distance :: i64

text \<open>
  A paused worker; its \<^verbatim>\<open>state\<close> and \<^verbatim>\<open>state_data\<close> are one datatype. A waiting push has object,
  offset, size, hash, the address of the copied data, these bytes and the time to repeat; a waiting query
  has object, offset, size, destination and the time to repeat.
\<close>

datatype wait_state =
    NewObjectWaitPages i64 i64 i64
  | PushObjectWait i64 i64 i64 i64 i64 "byte list" i64
  | QueryObjectWait i64 i64 i64 i64 i64
  | TimerWait i64
  | CastWait nat

record waiting_worker =
  w_state :: wait_state
  w_queued :: i64
  w_links :: i64
  w_id :: i64
  w_depth :: i64
  w_data :: i64
  w_rbp :: i64
  w_context :: "i64 list"

record queued_worker =
  k_id :: i64
  k_depth :: i64
  k_data :: i64
  k_rdi :: i64
  k_rbp :: i64
  k_context :: "i64 list"

text \<open>\<^verbatim>\<open>struct worker_info\<close> with the provider data of an x64 worker: the range of its code and the first
  of its free stack buffers, which are linked through their first eight bytes.\<close>

record worker_info =
  wi_provider :: i64
  wi_input_size :: i64
  wi_affinity :: i64
  wi_start :: i64
  wi_end :: i64
  wi_next_buffer :: i64

record thread_data =
  td_number :: nat
  td_running_id :: i64
  td_running_depth :: i64

section \<open>The state\<close>

record hive =
  h_conns :: "conn list"
  h_next_local_id :: i64
  h_server_port :: i64
  h_server_id :: i64
  h_id_lock :: bool
  h_pages :: "memory_page list"
  h_local_objects :: "i64 \<Rightarrow> i64"
  h_object_paths :: "i64 \<Rightarrow> i64"
  h_global_id_paths :: "i64 \<Rightarrow> i64"
  h_get_id_ids :: "i64 \<Rightarrow> i64"
  h_get_page_ids :: "i64 \<Rightarrow> i64"
  h_get_wait_list :: "byte list \<Rightarrow> i64"
  h_set_wait_list :: "byte list \<Rightarrow> i64"
  h_get_id_broadcasts :: "byte list \<Rightarrow> i64"
  h_get_page_broadcasts :: "byte list \<Rightarrow> i64"
  h_get_path_broadcasts :: "byte list \<Rightarrow> i64"
  h_get_path_to_id_broadcasts :: "byte list \<Rightarrow> i64"
  h_objects :: "i64 \<Rightarrow> obj option"
  h_waiters :: "i64 \<Rightarrow> waiter option"
  h_broadcasts :: "i64 \<Rightarrow> broadcast option"
  h_paths :: "i64 \<Rightarrow> path option"
  h_waiting :: "i64 \<Rightarrow> waiting_worker option"
  h_queued :: "i64 \<Rightarrow> queued_worker option"
  h_stale_queued :: "i64 \<Rightarrow> queued_worker"
  h_mem :: "i64 \<Rightarrow> byte"
  h_brk :: i64
  h_free_waiting :: "i64 list"
  h_free_queued :: "i64 list"
  h_free_nodes :: "i64 list"
  h_wait_list :: "(i64 \<times> i64) list"
  h_wait_list_len :: i64
  h_sched :: scheduler
  h_workers :: "worker_info list"
  h_defined_arrays :: "byte list list"
  h_thread :: "thread_data option"
  h_stat_misses :: i64
  h_stat_output :: i64
  h_stat_input :: i64
  h_sent :: "i64 \<Rightarrow> byte list"
  h_random :: "nat \<Rightarrow> byte"
  h_random_pos :: nat
  h_clock :: "nat \<Rightarrow> i64"
  h_clock_pos :: nat
  h_dial :: "nat \<Rightarrow> i64"
  h_dial_pos :: nat
  h_junk :: "nat \<Rightarrow> i64"
  h_junk_pos :: nat

section \<open>What the operating system supplies\<close>

definition SECURE_RANDOM :: "nat \<Rightarrow> hive \<Rightarrow> hive \<times> byte list" where
  "SECURE_RANDOM n s =
     (s\<lparr>h_random_pos := h_random_pos s + n\<rparr>, map (\<lambda>i. h_random s (h_random_pos s + i)) [0..<n])"

definition GetTicks :: "hive \<Rightarrow> hive \<times> i64" where
  "GetTicks s = (s\<lparr>h_clock_pos := h_clock_pos s + 1\<rparr>, h_clock s (h_clock_pos s))"

text \<open>What an uninitialised local variable holds.\<close>

definition uninitialised :: "hive \<Rightarrow> hive \<times> i64" where
  "uninitialised s = (s\<lparr>h_junk_pos := h_junk_pos s + 1\<rparr>, h_junk s (h_junk_pos s))"

text \<open>On Linux \<^verbatim>\<open>frequency\<close> is 1000000, so a tick is a microsecond; the product may wrap.\<close>

definition MicrosecondsToTicks :: "i64 \<Rightarrow> i64" where
  "MicrosecondsToTicks microseconds = word_of_int (sint (1000000 * microseconds) sdiv 1000000)"

definition TicksToMicroseconds :: "i64 \<Rightarrow> i64" where
  "TicksToMicroseconds ticks = word_of_int (sint (ticks * 1000000) sdiv 1000000)"

definition SheduleTimeoutFromNow :: "i64 \<Rightarrow> hive \<Rightarrow> hive \<times> i64" where
  "SheduleTimeoutFromNow microseconds s = (let (s, t) = GetTicks s in (s, t + MicrosecondsToTicks microseconds))"

text \<open>\<^verbatim>\<open>send\<close> on a blocking socket sends all of its bytes; on an invalid socket it fails, unnoticed.\<close>

definition emitData :: "i64 \<Rightarrow> byte list \<Rightarrow> hive \<Rightarrow> hive" where
  "emitData sock bytes s =
     (if sock = INVALID_SOCKET then s
      else s\<lparr>h_sent := (h_sent s)(sock := h_sent s sock @ bytes)\<rparr>)"

text \<open>
  \<^verbatim>\<open>myMalloc\<close>: the address of a fresh block, aligned to 16 bytes. When the address space is used
  up the C function returns a null pointer, which its callers go on to write to.
\<close>

definition myMalloc :: "nat \<Rightarrow> hive \<Rightarrow> (hive \<times> i64) option" where
  "myMalloc n s =
     (let room = 16 * (n div 16 + 1) in
      if unat (h_brk s) + room < 2 ^ 63
      then Some (s\<lparr>h_brk := h_brk s + word_of_nat room\<rparr>, h_brk s) else None)"

definition mem_write :: "i64 \<Rightarrow> byte list \<Rightarrow> (i64 \<Rightarrow> byte) \<Rightarrow> i64 \<Rightarrow> byte" where
  "mem_write a bs m = (\<lambda>x. if unat (x - a) < length bs then bs ! unat (x - a) else m x)"

definition mem_read :: "i64 \<Rightarrow> nat \<Rightarrow> (i64 \<Rightarrow> byte) \<Rightarrow> byte list" where
  "mem_read a n m = map (\<lambda>i. m (a + word_of_nat i)) [0..<n]"

section \<open>Tables by their contents\<close>

definition tbl_get :: "(i64 \<Rightarrow> i64) \<Rightarrow> i64 \<Rightarrow> i64" where
  "tbl_get t key = (if key = 0 then 0 else t key)"

text \<open>
  The exchange from 0: the contents after it and the value returned. An entry for key 0 would break the
  table, so there is no result for it.
\<close>

definition tbl_insert :: "(i64 \<Rightarrow> i64) \<Rightarrow> i64 \<Rightarrow> i64 \<Rightarrow> ((i64 \<Rightarrow> i64) \<times> i64) option" where
  "tbl_insert t key v =
     (if key = 0 then None else if t key = 0 then Some (t(key := v), 0) else Some (t, t key))"

definition btbl_get :: "nat \<Rightarrow> (byte list \<Rightarrow> i64) \<Rightarrow> byte list \<Rightarrow> i64" where
  "btbl_get ks t key = t (take ks key)"

definition btbl_insert :: "nat \<Rightarrow> (byte list \<Rightarrow> i64) \<Rightarrow> byte list \<Rightarrow> i64 \<Rightarrow> (byte list \<Rightarrow> i64) \<times> i64" where
  "btbl_insert ks t key v =
     (if t (take ks key) = 0 then (t(take ks key := v), 0) else (t, t (take ks key)))"

section \<open>Connections\<close>

definition GetConnectionById :: "i64 \<Rightarrow> hive \<Rightarrow> conn option" where
  "GetConnectionById local_id s = List.find (\<lambda>c. c_local_id c = local_id) (h_conns s)"

fun index_of :: "('a \<Rightarrow> bool) \<Rightarrow> 'a list \<Rightarrow> nat option" where
  "index_of P [] = None"
| "index_of P (x # xs) = (if P x then Some 0 else map_option Suc (index_of P xs))"

text \<open>\<^verbatim>\<open>connections[index] = connections[--connections_len]\<close>\<close>

definition remove_swap :: "nat \<Rightarrow> 'a list \<Rightarrow> 'a list" where
  "remove_swap i xs = butlast (xs[i := last xs])"

definition update_conn :: "i64 \<Rightarrow> (conn \<Rightarrow> conn) \<Rightarrow> hive \<Rightarrow> hive" where
  "update_conn local_id f s =
     s\<lparr>h_conns := map (\<lambda>c. if c_local_id c = local_id then f c else c) (h_conns s)\<rparr>"

text \<open>
  The broadcasts of \<^verbatim>\<open>remote.c\<close>: a message to every connection that has an incoming side, except one.
\<close>

definition broadcast_targets :: "i64 option \<Rightarrow> hive \<Rightarrow> conn list" where
  "broadcast_targets except s = filter (\<lambda>c. c_ctx c \<noteq> None \<and> Some (c_local_id c) \<noteq> except) (h_conns s)"

fun send_to :: "conn list \<Rightarrow> byte list \<Rightarrow> hive \<Rightarrow> hive" where
  "send_to [] message s = s"
| "send_to (c # cs) message s = send_to cs message (emitData (c_outgoing c) message s)"

definition myAbs :: "i64 \<Rightarrow> i64" where
  "myAbs x = (if x <s 0 then - x else x)"

text \<open>
  The state after \<^verbatim>\<open>InitInternalStructures\<close> and \<^verbatim>\<open>scheduler_init\<close>: all tables are empty. The
  program that was loaded and what the system will supply are parameters.
\<close>

definition init_hive ::
  "nat \<Rightarrow> worker_info list \<Rightarrow> byte list list \<Rightarrow> (nat \<Rightarrow> byte) \<Rightarrow> (nat \<Rightarrow> i64) \<Rightarrow> (nat \<Rightarrow> i64) \<Rightarrow> (nat \<Rightarrow> i64) \<Rightarrow>
   hive" where
  "init_hive threads workers arrays random clock dials junk =
     \<lparr>h_conns = [], h_next_local_id = 0, h_server_port = -1, h_server_id = -1, h_id_lock = False,
      h_pages = [], h_local_objects = (\<lambda>_. 0), h_object_paths = (\<lambda>_. 0), h_global_id_paths = (\<lambda>_. 0),
      h_get_id_ids = (\<lambda>_. 0), h_get_page_ids = (\<lambda>_. 0),
      h_get_wait_list = (\<lambda>_. 0), h_set_wait_list = (\<lambda>_. 0),
      h_get_id_broadcasts = (\<lambda>_. 0), h_get_page_broadcasts = (\<lambda>_. 0),
      h_get_path_broadcasts = (\<lambda>_. 0), h_get_path_to_id_broadcasts = (\<lambda>_. 0),
      h_objects = (\<lambda>_. None), h_waiters = (\<lambda>_. None), h_broadcasts = (\<lambda>_. None), h_paths = (\<lambda>_. None),
      h_waiting = (\<lambda>_. None), h_queued = (\<lambda>_. None),
      h_stale_queued = (\<lambda>_. \<lparr>k_id = 0, k_depth = 0, k_data = 0, k_rdi = 0, k_rbp = 0, k_context = replicate 14 0\<rparr>),
      h_mem = (\<lambda>_. 0), h_brk = 0x1000,
      h_free_waiting = [], h_free_queued = [], h_free_nodes = [], h_wait_list = [], h_wait_list_len = 0,
      h_sched = scheduler_init (clock 0) threads, h_workers = workers, h_defined_arrays = arrays,
      h_thread = None, h_stat_misses = 0, h_stat_output = 0, h_stat_input = 0, h_sent = (\<lambda>_. []),
      h_random = random, h_random_pos = 0, h_clock = clock, h_clock_pos = 1, h_dial = dials,
      h_dial_pos = 0, h_junk = junk, h_junk_pos = 0\<rparr>"

section \<open>Basic facts\<close>

lemma length_SECURE_RANDOM: "SECURE_RANDOM n s = (s', bs) \<Longrightarrow> length bs = n"
  by (auto simp: SECURE_RANDOM_def)

lemma GetConnectionById_Some: "GetConnectionById i s = Some c \<Longrightarrow> c \<in> set (h_conns s) \<and> c_local_id c = i"
  by (auto simp: GetConnectionById_def find_Some_iff)

lemma send_to_sent:
  "h_sent (send_to cs message s) sock =
     h_sent s sock @ (if sock = INVALID_SOCKET then []
       else concat (map (\<lambda>_. message) (filter (\<lambda>c. c_outgoing c = sock) cs)))"
  by (induction cs arbitrary: s) (auto simp: emitData_def)

lemma emitData_eq: "emitData sock bytes s = s\<lparr>h_sent := h_sent (emitData sock bytes s)\<rparr>"
  by (simp add: emitData_def)

lemma send_to_eq: "send_to cs message s = s\<lparr>h_sent := h_sent (send_to cs message s)\<rparr>"
proof (induction cs arbitrary: s)
  case (Cons c cs)
  have "send_to (c # cs) message s = (emitData (c_outgoing c) message s)\<lparr>h_sent := h_sent (send_to (c # cs) message s)\<rparr>"
    using Cons by simp
  also have "\<dots> = s\<lparr>h_sent := h_sent (send_to (c # cs) message s)\<rparr>"
    by (subst emitData_eq) simp
  finally show ?case .
qed simp

text \<open>The heaps hold only addresses that \<open>myMalloc\<close> has given out.\<close>

definition heap_ok :: "hive \<Rightarrow> bool" where
  "heap_ok s \<longleftrightarrow> 16 dvd unat (h_brk s) \<and> 0 < h_brk s \<and>
     (\<forall>a \<ge> h_brk s. h_waiters s a = None \<and> h_waiting s a = None \<and> h_queued s a = None \<and>
        h_broadcasts s a = None \<and> h_paths s a = None \<and> h_objects s a = None)"

lemma myMalloc_ok:
  assumes "myMalloc n s = Some (s', a)" "heap_ok s"
  shows "heap_ok s'" "a < h_brk s'" "h_brk s \<le> h_brk s'" "a = h_brk s" "s' = s\<lparr>h_brk := h_brk s'\<rparr>"
    "a AND 0xF = 0" "a \<noteq> 0"
    "h_waiters s a = None" "h_waiting s a = None" "h_queued s a = None" "h_broadcasts s a = None"
    "h_paths s a = None" "h_objects s a = None"
proof -
  define room where "room = 16 * (n div 16 + 1)"
  have s': "s' = s\<lparr>h_brk := h_brk s + word_of_nat room\<rparr>" and a: "a = h_brk s"
    and fit: "unat (h_brk s) + room < 2 ^ 63"
    using assms(1) by (auto simp: myMalloc_def room_def Let_def split: if_splits)
  have u: "unat (h_brk s') = unat (h_brk s) + room"
    using fit by (simp add: s' unat_word_ariths unat_of_nat)
  have lt: "a < h_brk s'" using u by (simp add: word_less_nat_alt a room_def)
  show "heap_ok s'" using assms(2) u lt
    by (auto simp: heap_ok_def room_def s' a dest: order.trans less_imp_le)
  show "a < h_brk s'" "h_brk s \<le> h_brk s'" using lt a by auto
  show "a = h_brk s" "s' = s\<lparr>h_brk := h_brk s'\<rparr>" using a s' by auto
  have "unat (a mod 16) = 0" using assms(2) by (auto simp: heap_ok_def a unat_mod)
  then have "a AND mask 4 = 0" by (simp add: unsigned_eq_0_iff take_bit_eq_mod flip: take_bit_eq_mask)
  then show "a AND 0xF = 0" by (simp add: mask_eq_exp_minus_1)
  show "a \<noteq> 0" using assms(2) by (auto simp: heap_ok_def a)
  show "h_waiters s a = None" "h_waiting s a = None" "h_queued s a = None" "h_broadcasts s a = None"
    "h_paths s a = None" "h_objects s a = None"
    using assms(2) by (auto simp: heap_ok_def a)
qed

lemma heap_ok_init: "heap_ok (init_hive n ws ds r c d j)"
  by (simp add: heap_ok_def init_hive_def)

lemma emitData_append: "emitData sock b (emitData sock a s) = emitData sock (a @ b) s"
  by (simp add: emitData_def)

end
