(* ===== verification/RunTimeLib.thy ===== *)
theory RunTimeLib
  imports Hive
begin

text \<open>
  The run time library of the Windows runtime (\<^verbatim>\<open>win/runtime_lib.c\<close>), whose build is
  freestanding (\<^verbatim>\<open>win/build.ps1\<close> passes \<^verbatim>\<open>-DFREESTANDING\<close>) and brings its own C library: printing and
  reading of numbers and strings, the formatted output, and the copying of memory. A wide character has
  16 bits there. Signed overflow, which C leaves undefined, is an outcome of its own: it is never
  taken to wrap around. On Linux the functions of the same names call the C library
  and are not modelled.
\<close>

type_synonym wchar = "16 word"

section \<open>Printing numbers\<close>

text \<open>The digits are written in reverse, then the characters are swapped in place.\<close>

function digit_loop :: "i64 \<Rightarrow> wchar list" where
  "digit_loop v = ucast (48 + v mod 10) # (if v div 10 = 0 then [] else digit_loop (v div 10))"
  by pat_completeness auto

lemma unat_numeral_10: "unat (10 :: i64) = 10" by simp

lemma div_10_less: "(v :: i64) div 10 \<noteq> 0 \<Longrightarrow> unat (v div 10) < unat v"
proof -
  assume "v div 10 \<noteq> 0"
  then have "unat v \<noteq> 0" using unat_eq_zero [of v] by auto
  then show ?thesis by (simp add: unat_div)
qed

termination digit_loop
  by (relation "measure unat") (use div_10_less in auto)

declare digit_loop.simps [simp del]

function swap_loop :: "wchar list \<Rightarrow> nat \<Rightarrow> nat \<Rightarrow> wchar list" where
  "swap_loop xs i j = (if i < j then swap_loop (xs[j := xs ! i, i := xs ! j]) (Suc i) (j - 1) else xs)"
  by pat_completeness auto
termination by (relation "measure (\<lambda>(_, i, j). j - i)") auto

declare swap_loop.simps [simp del]

definition PrintI64 :: "i64 \<Rightarrow> wchar list" where
  "PrintI64 v = (let ds = digit_loop v in swap_loop ds 0 (length ds - 1))"

definition hex_digit :: "i64 \<Rightarrow> wchar" where
  "hex_digit d = ucast (if d < 10 then 48 + d else 65 - 10 + d)"

primrec hex_loop :: "nat \<Rightarrow> i64 \<Rightarrow> wchar list \<Rightarrow> wchar list" where
  "hex_loop 0 v dest = dest"
| "hex_loop (Suc n) v dest = hex_loop n (v div 16) (hex_digit (v mod 16) # dest)"

definition PrintI64H :: "i64 \<Rightarrow> wchar list" where "PrintI64H v = hex_loop 16 v []"
definition Print2H :: "byte \<Rightarrow> wchar list" where "Print2H v = hex_loop 2 (ucast v) []"

section \<open>Reading numbers\<close>

text \<open>
  Both loops add a digit to a signed accumulator, an \<^verbatim>\<open>int\<close> in \<^verbatim>\<open>myAtoll\<close> and an \<^verbatim>\<open>int64_t\<close> in
  \<^verbatim>\<open>myScanI64\<close>: multiply by 10, then add. \<open>checked\<close> is \<open>None\<close> where the signed result does
  not fit, which is undefined behaviour.
\<close>

definition checked :: "int \<Rightarrow> 'a :: len word option" where
  "checked v = (if - (2 ^ (LENGTH('a) - 1)) \<le> v \<and> v < 2 ^ (LENGTH('a) - 1) then Some (word_of_int v) else None)"

definition add_digit :: "'a :: len word \<Rightarrow> int \<Rightarrow> 'a word option" where
  "add_digit res d =
     do { ten :: 'a word \<leftarrow> checked (sint res * 10);
          checked (sint ten + d) }"

text \<open>A string argument is the list of its characters, without the terminating 0.\<close>

definition blank :: "wchar \<Rightarrow> bool" where "blank c \<longleftrightarrow> c \<in> {32, 10, 9, 13}"
definition is_digit :: "wchar \<Rightarrow> bool" where "is_digit c \<longleftrightarrow> 48 \<le> c \<and> c \<le> 57"

fun atoll_loop :: "wchar list \<Rightarrow> i32 \<Rightarrow> i32 option" where
  "atoll_loop [] res = Some res"
| "atoll_loop (c # cs) res =
     (if is_digit c then do { res \<leftarrow> add_digit res (uint c - 48); atoll_loop cs res } else Some res)"

definition myAtoll :: "wchar list \<Rightarrow> i64 option" where
  "myAtoll number =
     (let number = dropWhile blank number;
          (neg, number) = (case number of
             [] \<Rightarrow> (False, [])
           | c # cs \<Rightarrow> if c = 43 then (False, cs) else if c = 45 then (True, cs) else (False, number))
      in do { res :: i32 \<leftarrow> atoll_loop number 0;
              res :: i32 \<leftarrow> (if neg then checked (- sint res) else Some res);
              Some (scast res) })"

text \<open>
  At the end of the input \<^verbatim>\<open>get_char\<close> returns 0, again and again. Its result is a signed
  \<^verbatim>\<open>char\<close> that \<^verbatim>\<open>myScanI64\<close> widens to a \<^verbatim>\<open>wchar_t\<close>. The loop has three outcomes: \<open>None\<close>, it never
  ends; \<open>Some None\<close>, the accumulator overflows; \<open>Some (Some r)\<close>, it returns.
\<close>

fun get_char :: "byte list \<Rightarrow> byte \<times> byte list" where
  "get_char [] = (0, [])"
| "get_char (c # cs) = (c, cs)"

partial_function (option) scan_loop :: "byte list \<Rightarrow> i64 \<Rightarrow> i64 \<Rightarrow> i64 \<Rightarrow> (i64 \<times> byte list) option option" where
  "scan_loop inp res y t =
     (if t = 0 then Some (Some (res, inp))
      else let (ch, inp) = get_char inp; buf = (scast ch :: wchar) in
        if buf < 48 \<or> 57 < buf then scan_loop inp res y (t - y)
        else (case add_digit res (uint buf - 48) of
                None \<Rightarrow> Some None
              | Some res \<Rightarrow> scan_loop inp res 1 t))"

definition myScanI64 :: "byte list \<Rightarrow> (i64 \<times> byte list) option option" where
  "myScanI64 inp = scan_loop inp 0 0 1"

text \<open>
  \<^verbatim>\<open>myScanS\<close>: after a first blank the condition of the loop reads the byte before the buffer, so
  there is no result.
\<close>

fun scan_string :: "byte list \<Rightarrow> byte list \<Rightarrow> (byte list \<times> byte list) option" where
  "scan_string [] str = Some (str, [])"
| "scan_string (c # cs) str =
     (if c = 0 then Some (str, cs)
      else if c = 32 \<and> str = [] then None
      else if c \<in> {32, 10, 13, 9} then Some (str, cs)
      else scan_string cs (str @ [c]))"

definition myScanS :: "byte list \<Rightarrow> (byte list \<times> byte list) option" where
  "myScanS inp = scan_string inp []"

section \<open>Formatted output\<close>

text \<open>
  The arguments that are left, and the characters for the console. \<open>wide\<close> is
  \<^verbatim>\<open>MultiByteToWideChar\<close>, called with length -1: it converts the terminating 0 as well. The output
  buffer has 32768 characters.
\<close>

datatype print_arg = PInt i64 | PStr "byte list"

fun printf_loop :: "(byte list \<Rightarrow> wchar list) \<Rightarrow> wchar list \<Rightarrow> print_arg list \<Rightarrow> wchar list option" where
  "printf_loop wide [] args = Some []"
| "printf_loop wide (c # s) args =
     (if c \<noteq> 37 then map_option ((#) c) (printf_loop wide s args)
      else case (s, args) of
        (a # s1, _) \<Rightarrow>
          if a = 37 then map_option ((#) 37) (printf_loop wide s1 args)
          else if a = 115 then
            (case args of
               PStr str # args \<Rightarrow> map_option ((@) (wide (str @ [0]))) (printf_loop wide s1 args)
             | _ \<Rightarrow> None)
          else if take 2 s1 = [108, 100] \<and> a = 108 then
            (case args of
               PInt v # args \<Rightarrow> map_option ((@) (PrintI64 v)) (printf_loop wide (drop 2 s1) args)
             | _ \<Rightarrow> None)
          else if 49 \<le> a \<and> a \<le> 57 \<and> take 3 s1 = [108, 108, 100] then
            (case args of
               PInt v # args \<Rightarrow>
                 map_option ((@) (replicate (unat a - 48 - length (PrintI64 v)) 32 @ PrintI64 v))
                   (printf_loop wide (drop 3 s1) args)
             | _ \<Rightarrow> None)
          else if a = 112 then
            (case args of
               PInt v # args \<Rightarrow> map_option ((@) (PrintI64H v)) (printf_loop wide s1 args)
             | _ \<Rightarrow> None)
          else if a = 48 \<and> take 2 s1 = [50, 120] then
            (case args of
               PInt v # args \<Rightarrow> map_option ((@) (Print2H (ucast v))) (printf_loop wide (drop 2 s1) args)
             | _ \<Rightarrow> None)
          else if a = 108 \<and> take 2 s1 = [108, 120] then
            (case args of
               PInt v # args \<Rightarrow> map_option ((@) (PrintI64H v)) (printf_loop wide (drop 2 s1) args)
             | _ \<Rightarrow> None)
          else printf_loop wide s args
      | _ \<Rightarrow> printf_loop wide s args)"

definition myPrintf :: "(byte list \<Rightarrow> wchar list) \<Rightarrow> wchar list \<Rightarrow> print_arg list \<Rightarrow> wchar list option" where
  "myPrintf wide format args =
     do { d \<leftarrow> printf_loop wide format args;
          if length d \<le> 16 * 2048 then Some d else None }"

section \<open>Copying memory\<close>

text \<open>\<open>avx\<close> says whether the build has \<^verbatim>\<open>__AVX2__\<close>. A chunk is read before it is written.\<close>

function copy_chunks :: "nat \<Rightarrow> i64 \<Rightarrow> i64 \<Rightarrow> nat \<Rightarrow> (i64 \<Rightarrow> byte) \<Rightarrow> i64 \<times> i64 \<times> nat \<times> (i64 \<Rightarrow> byte)" where
  "copy_chunks k dst src n m =
     (if 0 < k \<and> k \<le> n
      then copy_chunks k (dst + of_nat k) (src + of_nat k) (n - k) (mem_write dst (mem_read src k m) m)
      else (dst, src, n, m))"
  by pat_completeness auto
termination by (relation "measure (\<lambda>(_, _, _, n, _). n)") auto

declare copy_chunks.simps [simp del]

definition memcpy :: "bool \<Rightarrow> i64 \<Rightarrow> i64 \<Rightarrow> nat \<Rightarrow> (i64 \<Rightarrow> byte) \<Rightarrow> i64 \<Rightarrow> byte" where
  "memcpy avx dst src n m =
     (if n = 4 then mem_write dst (mem_read src 4 m) m
      else if n = 8 then mem_write dst (mem_read src 8 m) m
      else
        let (dst, src, n, m) = (if avx then copy_chunks 32 dst src n m else (dst, src, n, m));
            (dst, src, n, m) = copy_chunks 8 dst src n m;
            (_, _, _, m) = copy_chunks 1 dst src n m
        in m)"

primrec memset :: "i64 \<Rightarrow> i32 \<Rightarrow> nat \<Rightarrow> (i64 \<Rightarrow> byte) \<Rightarrow> i64 \<Rightarrow> byte" where
  "memset dst v 0 m = m"
| "memset dst v (Suc n) m = memset (dst + 1) v n (m(dst := ucast v))"

section \<open>Facts about numbers\<close>

text \<open>The decimal numeral of a natural number, the first digit first.\<close>

fun show_nat :: "nat \<Rightarrow> wchar list" where
  "show_nat n = (if n < 10 then [] else show_nat (n div 10)) @ [of_nat (48 + n mod 10)]"

declare show_nat.simps [simp del]

lemma ucast_small: "k < 256 \<Longrightarrow> LENGTH('a) \<ge> 8 \<Longrightarrow> (ucast (of_nat k :: 'a :: len word) :: 'b :: len word) = of_nat k"
  by (simp add: unsigned_of_nat take_bit_nat_eq_self less_le_trans [OF _ power_increasing [of 8 "LENGTH('a)" "2 :: nat"]])

lemma rev_digit_loop: "rev (digit_loop v) = show_nat (unat v)"
proof (induction v rule: digit_loop.induct)
  case (1 v)
  have "of_nat (unat (v mod 10)) = v mod 10" by simp
  then have "v mod 10 = of_nat (unat v mod 10)" by (simp add: unat_mod)
  then have "48 + v mod 10 = of_nat (48 + unat v mod 10)" by simp
  then have d: "(ucast (48 + v mod 10) :: wchar) = of_nat (48 + unat v mod 10)"
    by (simp only:) (rule ucast_small; simp)
  have dl: "digit_loop v = of_nat (48 + unat v mod 10) # (if v div 10 = 0 then [] else digit_loop (v div 10))"
    by (subst digit_loop.simps) (simp only: d)
  have sn: "show_nat (unat v) =
      (if unat v < 10 then [] else show_nat (unat v div 10)) @ [of_nat (48 + unat v mod 10)]"
    by (rule show_nat.simps)
  have ud: "unat (v div 10) = unat v div 10" by (simp add: unat_div)
  show ?case
  proof (cases "v div 10 = 0")
    case True
    then have "unat v div 10 = 0" using ud by simp
    then have "unat v < 10" by simp
    then show ?thesis unfolding dl sn using True by simp
  next
    case False
    then have "\<not> unat v < 10" using ud unat_eq_zero [of "v div 10"] by auto
    then show ?thesis unfolding dl sn using 1 [OF False] False
      by (simp only: if_False rev.simps ud)
  qed
qed

lemma swap_loop_nth:
  "j < length xs \<Longrightarrow> length (swap_loop xs i j) = length xs \<and>
   (\<forall>k < length xs. swap_loop xs i j ! k = (if i \<le> k \<and> k \<le> j then xs ! (i + j - k) else xs ! k))"
proof (induction xs i j rule: swap_loop.induct)
  case (1 xs i j)
  show ?case
  proof (cases "i < j")
    case True
    have "length (swap_loop (xs[j := xs ! i, i := xs ! j]) (Suc i) (j - 1)) = length xs \<and>
      (\<forall>k < length xs. swap_loop (xs[j := xs ! i, i := xs ! j]) (Suc i) (j - 1) ! k =
        (if Suc i \<le> k \<and> k \<le> j - 1 then xs[j := xs ! i, i := xs ! j] ! (Suc i + (j - 1) - k)
         else xs[j := xs ! i, i := xs ! j] ! k))"
      using 1(1) [OF True] 1(2) True by simp
    then show ?thesis using True 1(2) by (subst (1 2) swap_loop.simps) (auto simp: nth_list_update)
  next
    case False
    then show ?thesis using 1(2) by (subst (1 2) swap_loop.simps) (auto dest: le_antisym intro!: arg_cong [where f = "(!) xs"])
  qed
qed

lemma swap_loop_rev: "swap_loop xs 0 (length xs - 1) = rev xs"
proof (cases "xs = []")
  case True
  then show ?thesis by (simp add: swap_loop.simps)
next
  case False
  then show ?thesis
    using swap_loop_nth [of "length xs - 1" xs 0] by (auto intro!: nth_equalityI simp: rev_nth)
qed

lemma PrintI64_eq: "PrintI64 v = show_nat (unat v)"
  by (simp only: PrintI64_def Let_def swap_loop_rev rev_digit_loop)

text \<open>The value of a string of digits after the number \<open>r\<close>; it never gets smaller.\<close>

definition digits_value :: "nat \<Rightarrow> wchar list \<Rightarrow> nat" where
  "digits_value = foldl (\<lambda>r c. r * 10 + (unat c - 48))"

lemma digits_value_simps [simp]:
  "digits_value r [] = r" "digits_value r (c # cs) = digits_value (r * 10 + (unat c - 48)) cs"
  by (simp_all add: digits_value_def)

lemma digits_value_mono: "r \<le> digits_value r cs"
proof (induction cs arbitrary: r)
  case (Cons c cs)
  have "r \<le> r * 10 + (unat c - 48)" by simp
  then show ?case using Cons [of "r * 10 + (unat c - 48)"] by (simp only: digits_value_simps)
qed simp

lemma unat_digit: "d < 10 \<Longrightarrow> LENGTH('a) \<ge> 8 \<Longrightarrow> unat (of_nat (48 + d) :: 'a :: len word) = 48 + d"
  by (simp add: unsigned_of_nat take_bit_nat_eq_self less_le_trans [OF _ power_increasing [of 8 "LENGTH('a)" "2 :: nat"]]
      del: of_nat_add)

lemma digits_value_show: "digits_value 0 (show_nat n) = n"
proof (induction n rule: show_nat.induct)
  case (1 n)
  have "digits_value 0 (if n < 10 then [] else show_nat (n div 10)) = n div 10" using 1 by auto
  then show ?case by (subst show_nat.simps) (simp add: digits_value_def unat_digit del: of_nat_add)
qed

lemma checked_nat:
  "(checked (int n) :: 'a :: len word option) =
    (if n < 2 ^ (LENGTH('a) - 1) then Some (of_nat n) else None)"
proof -
  have "int n < 2 ^ (LENGTH('a) - 1) \<longleftrightarrow> n < 2 ^ (LENGTH('a) - 1)"
    using of_nat_less_iff [of n "2 ^ (LENGTH('a) - 1)", where 'a = int] by simp
  moreover have "- (2 ^ (LENGTH('a) - 1)) \<le> int n" by (rule order_trans [of _ 0]) simp_all
  ultimately show ?thesis by (simp add: checked_def)
qed

lemma sint_nat: "n < 2 ^ (LENGTH('a :: len) - 1) \<Longrightarrow> sint (of_nat n :: 'a word) = int n"
proof -
  assume "n < 2 ^ (LENGTH('a) - 1)"
  then have "int n < 2 ^ (LENGTH('a) - 1)"
    using of_nat_less_iff [of n "2 ^ (LENGTH('a) - 1)", where 'a = int] by simp
  moreover have "- (2 ^ (LENGTH('a) - 1)) \<le> int n" by (rule order_trans [of _ 0]) simp_all
  ultimately show ?thesis by (simp add: signed_of_nat signed_take_bit_int_eq_self)
qed

lemma add_digit_nat:
  assumes "r < 2 ^ (LENGTH('a :: len) - 1)"
  shows "add_digit (of_nat r :: 'a word) (int d) =
    (if r * 10 + d < 2 ^ (LENGTH('a) - 1) then Some (of_nat (r * 10 + d)) else None)"
proof (cases "r * 10 < 2 ^ (LENGTH('a) - 1)")
  case True
  have "sint (of_nat r :: 'a word) * 10 = int (r * 10)" using sint_nat [OF assms] by simp
  moreover have "sint (of_nat (r * 10) :: 'a word) + int d = int (r * 10 + d)" using sint_nat [OF True] by simp
  ultimately show ?thesis using True by (simp only: add_digit_def checked_nat if_True bind.bind_lunit)
next
  case False
  have "sint (of_nat r :: 'a word) * 10 = int (r * 10)" using sint_nat [OF assms] by simp
  then show ?thesis using False by (simp only: add_digit_def checked_nat) simp
qed

lemma show_nat_digits: "c \<in> set (show_nat n) \<Longrightarrow> \<exists>d < 10. c = of_nat (48 + d)"
proof (induction n rule: show_nat.induct)
  case (1 n)
  then show ?case by (subst (asm) show_nat.simps) (auto split: if_splits intro: exI [of _ "n mod 10"])
qed

lemma show_nat_not_Nil: "show_nat n \<noteq> []"
  by (subst show_nat.simps) simp

section \<open>Facts about reading\<close>

lemma digit_word: "d < 10 \<Longrightarrow> is_digit (of_nat (48 + d))"
  by (simp add: is_digit_def word_le_nat_alt unat_digit del: of_nat_add)

lemma show_nat_is_digit: "c \<in> set (show_nat n) \<Longrightarrow> is_digit c"
  using show_nat_digits digit_word by blast

lemma digit_value: "is_digit c \<Longrightarrow> uint c - 48 = int (unat c - 48)"
proof -
  assume "is_digit c"
  then have "48 \<le> unat c" by (simp add: is_digit_def word_le_nat_alt)
  moreover have "uint c = int (unat c)" by simp
  ultimately show ?thesis by linarith
qed

lemma atoll_digits:
  "\<forall>c \<in> set ds. is_digit c \<Longrightarrow> rest = [] \<or> \<not> is_digit (hd rest) \<Longrightarrow> r < 2 ^ 31 \<Longrightarrow>
   atoll_loop (ds @ rest) (of_nat r) =
     (if digits_value r ds < 2 ^ 31 then Some (of_nat (digits_value r ds)) else None)"
proof (induction ds arbitrary: r)
  case Nil
  then show ?case by (cases rest) simp_all
next
  case (Cons c ds)
  have step: "add_digit (of_nat r :: i32) (uint c - 48) =
      (if r * 10 + (unat c - 48) < 2 ^ 31 then Some (of_nat (r * 10 + (unat c - 48))) else None)"
    using Cons.prems add_digit_nat [of r "unat c - 48", where 'a = 32] digit_value [of c] by simp
  show ?case
  proof (cases "r * 10 + (unat c - 48) < 2 ^ 31")
    case True
    then show ?thesis using Cons step by (simp del: of_nat_add of_nat_mult)
  next
    case False
    then have "\<not> digits_value r (c # ds) < 2 ^ 31"
      using digits_value_mono [of "r * 10 + (unat c - 48)" ds] by simp
    then show ?thesis using Cons.prems(1) step False by simp
  qed
qed

lemma not_sign: "is_digit c \<Longrightarrow> \<not> blank c \<and> c \<noteq> 43 \<and> c \<noteq> 45"
  by (auto simp: is_digit_def blank_def)

lemma myAtoll_number:
  assumes "\<forall>c \<in> set ws. blank c" "rest = [] \<or> \<not> is_digit (hd rest)"
  shows "myAtoll (ws @ show_nat n @ rest) = (if n < 2 ^ 31 then Some (of_nat n) else None)"
    "myAtoll (ws @ 45 # show_nat n @ rest) = (if n < 2 ^ 31 then Some (- of_nat n) else None)"
proof -
  have drop: "dropWhile blank (ws @ x # xs) = x # xs" if "\<not> blank x" for x xs
    using assms(1) that by (simp add: dropWhile_append2)
  have run: "atoll_loop (show_nat n @ rest) 0 = (if n < 2 ^ 31 then Some (of_nat n) else None)"
    using atoll_digits [of "show_nat n" rest 0] assms(2) show_nat_is_digit by (simp add: digits_value_show)
  obtain c cs where sn: "show_nat n = c # cs" by (cases "show_nat n") (auto simp: show_nat_not_Nil)
  then have c: "\<not> blank c" "c \<noteq> 43" "c \<noteq> 45" using not_sign [OF show_nat_is_digit [of c n]] by auto
  have val: "scast (word_of_int i :: i32) = (word_of_int i :: i64)" if "- (2 ^ 31) \<le> i" "i < 2 ^ 31" for i
    using that by (simp add: scast_eq signed_of_int signed_take_bit_int_eq_self)
  have pos: "scast (of_nat n :: i32) = (of_nat n :: i64)" if "n < 2 ^ 31"
    using val [of "int n"] that by simp
  have neg: "checked (- sint (of_nat n :: i32)) = Some (- of_nat n :: i32)"
      "scast (- of_nat n :: i32) = (- of_nat n :: i64)" if "n < 2 ^ 31"
    using val [of "- int n"] sint_nat [of n, where 'a = 32] that by (simp_all add: checked_def)
  show "myAtoll (ws @ show_nat n @ rest) = (if n < 2 ^ 31 then Some (of_nat n) else None)"
    using drop [OF c(1)] c(2,3) run pos unfolding sn by (simp add: myAtoll_def)
  have "\<not> blank 45" by (simp add: blank_def)
  then show "myAtoll (ws @ 45 # show_nat n @ rest) = (if n < 2 ^ 31 then Some (- of_nat n) else None)"
    using drop [of 45] run neg by (simp add: myAtoll_def)
qed

abbreviation digit_byte :: "byte \<Rightarrow> bool" where "digit_byte c \<equiv> \<not> (c < 48 \<or> 57 < c)"

text \<open>The widening of a character keeps the digits.\<close>

lemma widened:
  "((scast (c :: byte) :: wchar) < 48 \<or> 57 < (scast c :: wchar)) \<longleftrightarrow> \<not> digit_byte c"
  "digit_byte c \<Longrightarrow> uint (scast c :: wchar) - 48 = int (unat c - 48)"
proof -
  have wide: "uint (ucast c :: wchar) = uint c" by (rule uint_up_ucast) (simp add: is_up)
  have small: "(scast c :: wchar) = ucast c" if "c < 128"
  proof -
    have "unat c < 128" using that by (simp add: word_less_nat_alt)
    then have "sint c = int (unat c)" using sint_nat [of "unat c", where 'a = 8] by simp
    then have "(scast c :: wchar) = of_nat (unat c)" by (simp only: scast_eq of_int_of_nat_eq)
    then show ?thesis by simp
  qed
  have large: "57 < (scast c :: wchar)" if "\<not> c < 128"
  proof -
    have c: "128 \<le> uint c" "uint c < 256" using that uint_bounded [of c] by (simp_all add: word_less_def)
    have "word_of_int (uint c - 256) = c" by simp
    then have "sint c = sint (word_of_int (uint c - 256) :: byte)" by (simp only:)
    also have "\<dots> = signed_take_bit 7 (uint c - 256)" by (subst signed_of_int) simp
    also have "\<dots> = uint c - 256" using c by (intro signed_take_bit_int_eq_self) simp_all
    finally have "(scast c :: wchar) = word_of_int (uint c - 256)" by (simp only: scast_eq)
    then have "uint (scast c :: wchar) = take_bit 16 (uint c - 256)" by (simp only: unsigned_of_int) simp
    also have "\<dots> = (uint c - 256) mod 65536" by (simp add: take_bit_eq_mod)
    also have "\<dots> = (uint c - 256 + 65536) mod 65536" by (simp only: mod_add_self2)
    also have "\<dots> = uint c - 256 + 65536" using c by (intro mod_pos_pos_trivial) simp_all
    finally show ?thesis using c by (simp add: word_less_def)
  qed
  show "((scast c :: wchar) < 48 \<or> 57 < (scast c :: wchar)) \<longleftrightarrow> \<not> digit_byte c"
  proof (cases "c < 128")
    case True
    show ?thesis using small [OF True] wide by (simp add: word_less_def)
  next
    case False
    then have "57 < c" by (simp add: word_less_def)
    then show ?thesis using large [OF False] by simp
  qed
  assume "digit_byte c"
  moreover from this have "c < 128" by (simp add: word_less_nat_alt)
  ultimately show "uint (scast c :: wchar) - 48 = int (unat c - 48)"
    using small wide by (simp add: word_less_nat_alt of_nat_diff)
qed

lemma scan_step:
  "scan_loop (c # cs) r y 1 =
     (if digit_byte c
      then (case add_digit r (int (unat c - 48)) of None \<Rightarrow> Some None | Some r \<Rightarrow> scan_loop cs r 1 1)
      else scan_loop cs r y (1 - y))"
proof -
  have "scan_loop (c # cs) r y 1 =
     (if (scast c :: wchar) < 48 \<or> 57 < (scast c :: wchar) then scan_loop cs r y (1 - y)
      else (case add_digit r (uint (scast c :: wchar) - 48) of None \<Rightarrow> Some None | Some r \<Rightarrow> scan_loop cs r 1 1))"
    by (subst scan_loop.simps) simp
  then show ?thesis using widened [of c] by (cases "digit_byte c") simp_all
qed

lemma scan_junk:
  "\<forall>c \<in> set junk. \<not> digit_byte c \<Longrightarrow> scan_loop (junk @ inp) r 0 1 = scan_loop inp r 0 1"
  by (induction junk) (auto simp: scan_step)

lemma scan_end:
  "inp = [] \<or> \<not> digit_byte (hd inp) \<Longrightarrow> scan_loop inp r 1 1 = Some (Some (r, tl inp))"
  by (cases inp) (auto simp: scan_step scan_loop.simps [of _ r 1 0] scan_loop.simps [of "[]" r 1 1])

lemma scan_digits:
  "\<forall>c \<in> set ds. \<exists>d < 10. c = of_nat (48 + d) \<Longrightarrow> ds \<noteq> [] \<or> y = 1 \<Longrightarrow> r < 2 ^ 63 \<Longrightarrow>
   scan_loop (map ucast ds @ inp) (of_nat r) y 1 =
     (if digits_value r ds < 2 ^ 63 then scan_loop inp (of_nat (digits_value r ds)) 1 1 else Some None)"
proof (induction ds arbitrary: r y)
  case (Cons c ds)
  then obtain d where d: "d < 10" "c = of_nat (48 + d)" by auto
  have b: "(ucast c :: byte) = of_nat (48 + d)" unfolding d(2) using d(1) by (intro ucast_small) auto
  have u: "unat (ucast c :: byte) = 48 + d" "unat c = 48 + d"
    unfolding b unfolding d(2) using d(1) by (simp_all add: unat_digit del: of_nat_add)
  have "digit_byte (ucast c)" using u(1) d(1) by (simp add: word_less_nat_alt)
  then have step: "scan_loop (map ucast (c # ds) @ inp) (of_nat r) y 1 =
      (if r * 10 + d < 2 ^ 63 then scan_loop (map ucast ds @ inp) (of_nat (r * 10 + d)) 1 1 else Some None)"
    using u(1) add_digit_nat [of r d, where 'a = 64] Cons.prems(3) by (simp add: scan_step del: of_nat_add of_nat_mult)
  show ?case
  proof (cases "r * 10 + d < 2 ^ 63")
    case True
    then show ?thesis using Cons step u(2) by (simp del: of_nat_add of_nat_mult)
  next
    case False
    then have "\<not> digits_value r (c # ds) < 2 ^ 63" using digits_value_mono [of "r * 10 + d" ds] u(2) by simp
    then show ?thesis using step False by simp
  qed
qed simp

lemma scan_number:
  assumes "\<forall>c \<in> set junk. \<not> digit_byte c" "rest = [] \<or> \<not> digit_byte (hd rest)"
  shows "myScanI64 (junk @ map ucast (show_nat n) @ rest) =
    Some (if n < 2 ^ 63 then Some (of_nat n, tl rest) else None)"
proof -
  have "\<forall>c \<in> set (show_nat n). \<exists>d < 10. c = of_nat (48 + d)" using show_nat_digits by blast
  from scan_digits [OF this, of 0 0 rest]
  show ?thesis
    using scan_junk [OF assms(1)] scan_end [OF assms(2)]
    by (simp add: myScanI64_def digits_value_show show_nat_not_Nil)
qed

text \<open>Without a digit in the input the loop of \<^verbatim>\<open>myScanI64\<close> never ends.\<close>

lemma scan_loop_returns_digit:
  assumes "scan_loop inp r 0 1 = Some res"
  shows "\<exists>c \<in> set inp. digit_byte c"
proof -
  let ?P = "\<lambda>inp (r :: i64) (y :: i64) (t :: i64) (res :: (i64 \<times> byte list) option).
    t = 1 \<longrightarrow> y = 0 \<longrightarrow> (\<exists>c \<in> set inp. digit_byte c)"
  have "?P inp r 0 1 res"
  proof (rule scan_loop.raw_induct [where P = ?P, OF _ assms], intro impI)
    fix scan :: "byte list \<Rightarrow> i64 \<Rightarrow> i64 \<Rightarrow> i64 \<Rightarrow> (i64 \<times> byte list) option option"
    fix inp r and y t :: i64 and out
    assume IH: "\<And>inp r y t out. scan inp r y t = Some out \<Longrightarrow> ?P inp r y t out" and start: "t = 1" "y = 0"
      and step: "(if t = 0 then Some (Some (r, inp))
         else let (ch, inp) = get_char inp; buf = (scast ch :: wchar) in
           if buf < 48 \<or> 57 < buf then scan inp r y (t - y)
           else (case add_digit r (uint buf - 48) of None \<Rightarrow> Some None | Some res \<Rightarrow> scan inp res 1 t)) = Some out"
    show "\<exists>c \<in> set inp. digit_byte c"
    proof (cases inp)
      case Nil
      then have "scan [] r 0 1 = Some out" using step start by simp
      then show ?thesis using IH [of "[]" r 0 1 out] by simp
    next
      case (Cons c cs)
      show ?thesis
      proof (cases "digit_byte c")
        case False
        then have "scan cs r 0 1 = Some out" using step start Cons by (simp only: get_char.simps Let_def prod.case widened) simp
        then show ?thesis using IH [of cs] Cons by auto
      qed (simp add: Cons)
    qed
  qed
  then show ?thesis by simp
qed

lemma scan_loop_returns: "scan_loop inp r 1 1 \<noteq> None"
proof (induction inp arbitrary: r)
  case Nil
  then show ?case using scan_end [of "[]"] by simp
next
  case (Cons c inp)
  then show ?case using scan_end [of "c # inp" r] by (cases "digit_byte c") (auto simp: scan_step split: option.split)
qed

lemma scan_loop_digit_returns:
  "\<exists>c \<in> set inp. digit_byte c \<Longrightarrow> scan_loop inp r 0 1 \<noteq> None"
proof (induction inp)
  case (Cons c inp)
  then show ?case using scan_loop_returns by (cases "digit_byte c") (auto simp: scan_step split: option.split)
qed simp

section \<open>Facts about copying\<close>

lemma mem_read_append: "mem_read a (j + k) m = mem_read a j m @ mem_read (a + of_nat j) k m"
  unfolding mem_read_def by (rule nth_equalityI) (auto simp: nth_append algebra_simps simp flip: of_nat_add)

lemma mem_write_append:
  assumes "length xs + length ys \<le> 2 ^ 64"
  shows "mem_write (a + of_nat (length xs)) ys (mem_write a xs m) = mem_write a (xs @ ys) m"
proof (cases "ys = []")
  case False
  let ?l = "length xs"
  have l: "?l < 2 ^ 64" using assms False by (cases ys) auto
  then have ul: "unat (of_nat ?l :: i64) = ?l" by (simp add: unsigned_of_nat take_bit_nat_eq_self)
  show ?thesis
  proof (rule ext)
    fix x :: i64
    let ?d = "x - a"
    have d: "x - (a + of_nat ?l) = ?d - of_nat ?l" by simp
    show "mem_write (a + of_nat ?l) ys (mem_write a xs m) x = mem_write a (xs @ ys) m x"
    proof (cases "unat ?d < ?l")
      case True
      have "unat (?d - of_nat ?l) = 2 ^ 64 + unat ?d - ?l"
        using True ul by (simp add: unat_sub_if_size word_size)
      moreover have "\<not> 2 ^ 64 + unat ?d - ?l < length ys" using assms l by linarith
      ultimately show ?thesis using True unfolding mem_write_def d by (simp add: nth_append)
    next
      case False
      then have "unat (?d - of_nat ?l) = unat ?d - ?l" using ul by (simp add: unat_sub_if_size)
      then show ?thesis using False unfolding mem_write_def d by (auto simp: nth_append)
    qed
  qed
qed (simp add: mem_write_def)

definition disjoint_blocks :: "i64 \<Rightarrow> i64 \<Rightarrow> nat \<Rightarrow> bool" where
  "disjoint_blocks dst src n \<longleftrightarrow> (\<forall>i < n. \<forall>j < n. dst + of_nat i \<noteq> src + of_nat j)"

lemma mem_read_other:
  assumes "\<forall>i < length bs. \<forall>j < k. dst + of_nat i \<noteq> src + of_nat j"
  shows "mem_read src k (mem_write dst bs m) = mem_read src k m"
proof -
  have "\<not> unat (src + of_nat j - dst) < length bs" if "j < k" for j
  proof
    let ?i = "unat (src + of_nat j - dst)"
    assume "?i < length bs"
    then have "dst + of_nat ?i \<noteq> src + of_nat j" using assms that by blast
    then show False by simp
  qed
  then show ?thesis by (simp add: mem_read_def mem_write_def)
qed

lemma copy_more:
  assumes "n \<le> 2 ^ 64" "disjoint_blocks dst src n" "a + k \<le> n"
  shows "mem_write (dst + of_nat a) (mem_read (src + of_nat a) k (mem_write dst (mem_read src a m) m))
      (mem_write dst (mem_read src a m) m) = mem_write dst (mem_read src (a + k) m) m"
proof -
  let ?m = "mem_write dst (mem_read src a m) m"
  have "mem_read (src + of_nat a) k ?m = mem_read (src + of_nat a) k m"
  proof (rule mem_read_other, intro allI impI)
    fix i j assume "i < length (mem_read src a m)" "j < k"
    then have "i < n" "a + j < n" using assms(3) by (auto simp: mem_read_def)
    then have "dst + of_nat i \<noteq> src + of_nat (a + j)" using assms(2) unfolding disjoint_blocks_def by blast
    then show "dst + of_nat i \<noteq> src + of_nat a + of_nat j" by (simp add: add.assoc)
  qed
  moreover have "length (mem_read src a m) = a" "length (mem_read (src + of_nat a) k m) = k" by (simp_all add: mem_read_def)
  ultimately show ?thesis
    using mem_write_append [of "mem_read src a m" "mem_read (src + of_nat a) k m" dst m] assms(1,3)
    by (simp add: mem_read_append)
qed

lemma copy_chunks_copied:
  assumes "n \<le> 2 ^ 64" "disjoint_blocks dst src n" "0 < k"
  shows "a \<le> n \<Longrightarrow> \<exists>b. b \<le> n \<and> n - b = (n - a) mod k \<and>
    copy_chunks k (dst + of_nat a) (src + of_nat a) (n - a) (mem_write dst (mem_read src a m) m) =
      (dst + of_nat b, src + of_nat b, n - b, mem_write dst (mem_read src b m) m)"
proof (induction "n - a" arbitrary: a rule: less_induct)
  case less
  show ?case
  proof (cases "k \<le> n - a")
    case False
    then show ?thesis using less(2) by (intro exI [of _ a], subst copy_chunks.simps) simp
  next
    case True
    then have "n - (a + k) < n - a" "a + k \<le> n" using assms(3) by auto
    from less(1) [OF this] obtain b where b: "b \<le> n" "n - b = (n - (a + k)) mod k"
      "copy_chunks k (dst + of_nat (a + k)) (src + of_nat (a + k)) (n - (a + k))
         (mem_write dst (mem_read src (a + k) m) m) =
       (dst + of_nat b, src + of_nat b, n - b, mem_write dst (mem_read src b m) m)"
      by blast
    have "n - b = (n - a) mod k" using True b(2) by (simp add: le_mod_geq)
    then show ?thesis
      using b(1,3) True assms(3) copy_more [OF assms(1,2) \<open>a + k \<le> n\<close>, of m]
      by (intro exI [of _ b], subst copy_chunks.simps) (simp add: add.assoc)
  qed
qed

section \<open>Properties\<close>

text \<open>
  C34. Reading a printed number: \<^verbatim>\<open>myAtoll\<close> skips blanks, accepts a minus sign and stops at the first
  character that is no digit. What \<^verbatim>\<open>PrintI64\<close> has printed it reads back, for numbers below 2^31; a
  larger number overflows the \<^verbatim>\<open>int\<close> it is collected in, which is undefined behaviour.
\<close>

theorem printed_number_read_back:
  assumes "\<forall>c \<in> set ws. blank c" "rest = [] \<or> \<not> is_digit (hd rest)"
  shows "myAtoll (ws @ PrintI64 v @ rest) = (if v < 2 ^ 31 then Some v else None) \<and>
    myAtoll (ws @ 45 # PrintI64 v @ rest) = (if v < 2 ^ 31 then Some (- v) else None)"
proof -
  have "unat v < 2 ^ 31 \<longleftrightarrow> v < 2 ^ 31" by (simp add: word_less_nat_alt)
  then show ?thesis using myAtoll_number [OF assms, of "unat v"] by (simp only: PrintI64_eq of_nat_unat ucast_id simp_thms)
qed

theorem printed_number_read_back_witness:
  "myAtoll ([32] @ PrintI64 4294967299 @ [10]) = None \<and> myAtoll ([32] @ 45 # PrintI64 17 @ [10]) = Some (- 17)"
  using printed_number_read_back [of "[32]" "[10]" 4294967299] printed_number_read_back [of "[32]" "[10]" 17]
  by (simp add: blank_def is_digit_def)

text \<open>
  C35. \<^verbatim>\<open>myScanI64\<close> ends exactly when the input has a digit. It skips what is before the first digit
  (a minus sign too), reads back a number below 2^63, and consumes the character after it; a larger number
  overflows, which is undefined behaviour.
\<close>

theorem scanned_number:
  assumes "\<forall>c \<in> set junk. c < 48 \<or> 57 < c" "rest = [] \<or> hd rest < 48 \<or> 57 < hd rest"
  shows "myScanI64 (junk @ map ucast (PrintI64 v) @ rest) = Some (if v < 2 ^ 63 then Some (v, tl rest) else None) \<and>
    (\<forall>inp. (\<exists>r. myScanI64 inp = Some r) \<longleftrightarrow> (\<exists>c \<in> set inp. 48 \<le> c \<and> c \<le> 57))"
proof
  have "unat v < 2 ^ 63 \<longleftrightarrow> v < 2 ^ 63" by (simp add: word_less_nat_alt)
  then show "myScanI64 (junk @ map ucast (PrintI64 v) @ rest) = Some (if v < 2 ^ 63 then Some (v, tl rest) else None)"
    using scan_number [of junk rest "unat v"] assms by (simp only: PrintI64_eq of_nat_unat ucast_id not_not simp_thms)
  show "\<forall>inp. (\<exists>r. myScanI64 inp = Some r) \<longleftrightarrow> (\<exists>c \<in> set inp. 48 \<le> c \<and> c \<le> 57)"
    using scan_loop_returns_digit scan_loop_digit_returns unfolding myScanI64_def not_less [symmetric] by blast
qed

theorem scanned_number_witness:
  "myScanI64 ([45] @ map ucast (PrintI64 4294967299) @ [10, 49]) = Some (Some (4294967299, [49]))"
  using scanned_number [of "[45]" "[10, 49]" 4294967299] by simp

text \<open>
  C36. \<^verbatim>\<open>memcpy\<close> by chunks of 32, 8 and 1 bytes is the copy of the whole block at once, for blocks that
  do not overlap, with and without AVX2.
\<close>

theorem memcpy_is_copy:
  assumes "n \<le> 2 ^ 64" "disjoint_blocks dst src n"
  shows "memcpy avx dst src n m = mem_write dst (mem_read src n m) m"
proof -
  let ?st = "\<lambda>b. (dst + of_nat b, src + of_nat b, n - b, mem_write dst (mem_read src b m) m)"
  note run = copy_chunks_copied [OF assms, of _ _ m]
  have "?st 0 = (dst, src, n, m)" by (simp add: mem_read_def mem_write_def)
  then obtain a where a: "a \<le> n" "(if avx then copy_chunks 32 dst src n m else (dst, src, n, m)) = ?st a"
    using run [of 32 0] by (cases avx) (auto intro: that [of 0])
  obtain b where b: "b \<le> n" "copy_chunks 8 (dst + of_nat a) (src + of_nat a) (n - a)
      (mem_write dst (mem_read src a m) m) = ?st b"
    using run [of 8, OF _ a(1)] by auto
  obtain c where c: "n - c = 0" "c \<le> n" "copy_chunks 1 (dst + of_nat b) (src + of_nat b) (n - b)
      (mem_write dst (mem_read src b m) m) = ?st c"
    using run [of 1, OF _ b(1)] by auto
  show ?thesis unfolding memcpy_def a(2) Let_def using b(2) c by auto
qed

theorem memcpy_is_copy_witness:
  "memcpy True 0x1000 0x2000 43 (\<lambda>x. ucast x) 0x102A = 0x2A"
proof -
  have "(0x1000 :: i64) + of_nat i \<noteq> 0x2000 + of_nat j" if "i < 43" "j < 43" for i j
  proof
    assume "(0x1000 :: i64) + of_nat i = 0x2000 + of_nat j"
    then have "unat ((0x1000 :: i64) + of_nat i) = unat ((0x2000 :: i64) + of_nat j)" by simp
    moreover have "unat (of_nat i :: i64) = i" "unat (of_nat j :: i64) = j"
      using that by (simp_all add: unsigned_of_nat take_bit_nat_eq_self)
    ultimately show False using that by (simp add: unat_word_ariths)
  qed
  then have "disjoint_blocks 0x1000 0x2000 43" by (simp add: disjoint_blocks_def)
  then have "memcpy True 0x1000 0x2000 43 (\<lambda>x. ucast x) =
      mem_write 0x1000 (mem_read 0x2000 43 (\<lambda>x. ucast x)) (\<lambda>x. ucast x)"
    by (intro memcpy_is_copy) simp_all
  then show ?thesis by (simp add: mem_write_def mem_read_def)
qed

end
