(* ===== verification/HashTableBytes.thy ===== *)
theory HashTableBytes
  imports Probing Layers
begin

text \<open>
  The table with byte-string keys of \<^verbatim>\<open>common/api.c\<close> (lines 37 to 61 and 233 to 660), in the
  \<^verbatim>\<open>__CX16__\<close> build with \<^verbatim>\<open>NDEBUG\<close>: its hash, the allocator of key copies, and the operations
  get, set (compare-exchange), add and take-with-tag. Layers are a list, newest first, as in HashTable64.
  A slot holds a pointer to the copy of the key and a 64-bit value; a pointer is the number of the key
  segment and the index in it, and \<open>bt_mem\<close> is the memory of the segments. Operations are modelled
  without interference; a loop that never ends is \<open>None\<close>. The race of the key allocator between
  threads has its own step relation at the end.
\<close>

section \<open>Hash and comparison of byte strings\<close>

definition GetByteStringHash :: "byte list \<Rightarrow> i64" where
  "GetByteStringHash bs =
     (let hash = foldl (\<lambda>hash b. hash * 37 + ucast b) (123 :: i64) bs in if hash = 0 then 1 else 0)"

text \<open>
  \<^verbatim>\<open>equal_bytes\<close>: neither pointer moves in the loop over 8-byte words. The arguments are the bytes
  from each pointer on; reading past them is undefined and gives \<open>None\<close>.
\<close>

fun equal_tail :: "byte list \<Rightarrow> byte list \<Rightarrow> nat \<Rightarrow> bool option" where
  "equal_tail a b 0 = Some True"
| "equal_tail (x # a) (y # b) (Suc len) = (if x = y then equal_tail a b len else Some False)"
| "equal_tail _ _ (Suc len) = None"

fun equal_words :: "byte list \<Rightarrow> byte list \<Rightarrow> nat \<Rightarrow> bool option" where
  "equal_words a b len =
     (if len \<ge> 8 then
        (case (rd_i64 a 0, rd_i64 b 0) of
           (Some x, Some y) \<Rightarrow> if x = y then equal_words a b (len - 8) else equal_tail a b len
         | _ \<Rightarrow> None)
      else equal_tail a b len)"

definition equal_bytes :: "byte list \<Rightarrow> byte list \<Rightarrow> nat \<Rightarrow> bool option" where
  "equal_bytes a b len =
     (if len = 8 then
        (case (rd_i64 a 0, rd_i64 b 0) of (Some x, Some y) \<Rightarrow> Some (x = y) | _ \<Rightarrow> None)
      else equal_words a b len)"

section \<open>Key segments\<close>

definition SEGMENT_CAPACITY :: nat where
  "SEGMENT_CAPACITY = 4096"

type_synonym kptr = "nat \<times> nat"

record key_space =
  ks_offset :: nat
  ks_segment :: "nat option"
  ks_next :: nat

text \<open>
  Without interference the exchange on \<^verbatim>\<open>segment_allocating\<close> succeeds and is undone, so the
  waiting branch is not taken; \<open>ks_next\<close> numbers the segments that \<^verbatim>\<open>myMalloc\<close> returns.
\<close>

definition hashtable_alloc_key_space :: "key_space \<Rightarrow> key_space \<times> kptr" where
  "hashtable_alloc_key_space s =
     (let local_offset = ks_offset s;
          local_idx = local_offset mod SEGMENT_CAPACITY;
          s = s\<lparr>ks_offset := local_offset + 1\<rparr>
      in case ks_segment s of
           None \<Rightarrow> (s\<lparr>ks_segment := Some (ks_next s), ks_next := ks_next s + 1\<rparr>, (ks_next s, local_idx))
         | Some seg \<Rightarrow>
             if local_idx = 0 then
               (if local_offset \<ge> (local_offset div SEGMENT_CAPACITY) * SEGMENT_CAPACITY
                then (s\<lparr>ks_segment := Some (ks_next s), ks_next := ks_next s + 1\<rparr>, (ks_next s, local_idx))
                else (s, (seg, local_idx)))
             else (s, (seg, local_idx)))"

section \<open>One layer\<close>

record blayer =
  bt_updating :: bool
  bt_table :: "nat \<Rightarrow> kptr option \<times> i64"
  bt_len :: nat
  bt_alloc :: nat
  bt_key_size :: nat
  bt_space :: key_space
  bt_mem :: "kptr \<Rightarrow> byte list"

type_synonym hashtable = "blayer list"

definition key_at :: "blayer \<Rightarrow> byte list \<Rightarrow> byte list" where
  "key_at h key = take (bt_key_size h) key"

definition slotb :: "blayer \<Rightarrow> byte list \<Rightarrow> nat" where
  "slotb h key = unat (GetByteStringHash (key_at h key)) mod bt_alloc h"

text \<open>The first loop of \<^verbatim>\<open>hashtable_raw_update\<close> and the loops of get, add and take.\<close>

datatype found = Missing nat | Found nat

fun b_find :: "nat \<Rightarrow> blayer \<Rightarrow> byte list \<Rightarrow> nat \<Rightarrow> found option" where
  "b_find 0 h key idx = None"
| "b_find (Suc f) h key idx =
     (case fst (bt_table h idx) of
        None \<Rightarrow> Some (Missing idx)
      | Some p \<Rightarrow>
          if bt_mem h p = key_at h key then Some (Found idx)
          else b_find f h key (next_slot (bt_alloc h) idx))"

text \<open>Its second loop, which claims an empty slot for the copied key.\<close>

fun b_claim :: "nat \<Rightarrow> blayer \<Rightarrow> byte list \<Rightarrow> kptr \<Rightarrow> i64 \<Rightarrow> i64 \<Rightarrow> nat \<Rightarrow> (blayer \<times> i64) option" where
  "b_claim 0 h key p new_value old_value idx = None"
| "b_claim (Suc f) h key p new_value old_value idx =
     (let (kp, v) = bt_table h idx in
      if kp = None \<and> v = 0 then
        Some (h\<lparr>bt_table := (bt_table h)(idx := (Some p, new_value)), bt_len := bt_len h + 1\<rparr>, 0)
      else if kp \<noteq> None \<and> bt_mem h (the kp) = key_at h key then
        (if v \<noteq> old_value then Some (h, v)
         else Some (h\<lparr>bt_table := (bt_table h)(idx := (kp, new_value))\<rparr>, old_value))
      else b_claim f h key p new_value old_value (next_slot (bt_alloc h) idx))"

definition hashtable_raw_update ::
  "blayer \<Rightarrow> byte list \<Rightarrow> i64 \<Rightarrow> i64 \<Rightarrow> (blayer \<times> i64) option" where
  "hashtable_raw_update h key new_value old_value =
     (case b_find (bt_alloc h) h key (slotb h key) of
        None \<Rightarrow> None
      | Some (Found i) \<Rightarrow>
          let (kp, v) = bt_table h i in
          if v \<noteq> old_value then Some (h, v)
          else Some (h\<lparr>bt_table := (bt_table h)(i := (kp, new_value))\<rparr>, old_value)
      | Some (Missing i) \<Rightarrow>
          let (space, p) = hashtable_alloc_key_space (bt_space h);
              h = h\<lparr>bt_space := space, bt_mem := (bt_mem h)(p := key_at h key)\<rparr>
          in b_claim (bt_alloc h) h key p new_value old_value i)"

section \<open>The table\<close>

fun hashtable_get :: "hashtable \<Rightarrow> byte list \<Rightarrow> (hashtable \<times> i64) option" where
  "hashtable_get [] key = None"
| "hashtable_get (h # prev) key =
     (case b_find (bt_alloc h) h key (slotb h key) of
        None \<Rightarrow> None
      | Some (Found i) \<Rightarrow> Some (h # prev, snd (bt_table h i))
      | Some (Missing _) \<Rightarrow>
          if prev = [] then Some (h # prev, 0)
          else case hashtable_get prev key of
              None \<Rightarrow> None
            | Some (prev', val) \<Rightarrow>
                if val \<noteq> 0 then
                  (case hashtable_raw_update h key val 0 of
                     None \<Rightarrow> None
                   | Some (h', res) \<Rightarrow> Some (h' # prev', if res \<noteq> 0 then res else val))
                else Some (h # prev', val))"

definition GetHashtable :: "hashtable \<Rightarrow> byte list \<Rightarrow> (hashtable \<times> i64) option" where
  "GetHashtable ph key = hashtable_get ph key"

definition b_empty_layer :: "nat \<Rightarrow> nat \<Rightarrow> blayer" where
  "b_empty_layer n ks =
     \<lparr>bt_updating = False, bt_table = (\<lambda>_. (None, 0)), bt_len = 0, bt_alloc = n, bt_key_size = ks,
      bt_space = \<lparr>ks_offset = 0, ks_segment = None, ks_next = 0\<rparr>, bt_mem = (\<lambda>_. [])\<rparr>"

definition SetHashtable ::
  "hashtable \<Rightarrow> byte list \<Rightarrow> i64 \<Rightarrow> i64 \<Rightarrow> (hashtable \<times> i64) option" where
  "SetHashtable ph key new_value old_value =
     (case ph of
        [] \<Rightarrow> None
      | h # prev \<Rightarrow>
          (case hashtable_raw_update h key new_value old_value of
             None \<Rightarrow> None
           | Some (h', result) \<Rightarrow>
               if result = 0 \<and> old_value = 0 \<and> bt_len h' > bt_alloc h' div 4 \<and> \<not> bt_updating h'
               then Some (b_empty_layer (2 * bt_alloc h') (bt_key_size h') #
                          h'\<lparr>bt_updating := True\<rparr> # prev, result)
               else Some (h' # prev, result)))"

text \<open>
  \<^verbatim>\<open>hashtable_add\<close> and \<^verbatim>\<open>hashtable_take_tagged\<close>: the recursive call, made when a copy of an
  older entry was not the first, spends one unit of fuel; two are enough without interference.
\<close>

fun hashtable_add_fuel :: "nat \<Rightarrow> hashtable \<Rightarrow> byte list \<Rightarrow> i64 \<Rightarrow> (hashtable \<times> i64) option" where
  "hashtable_add_fuel 0 hs key delta = None"
| "hashtable_add_fuel (Suc n) [] key delta = None"
| "hashtable_add_fuel (Suc n) (h # prev) key delta =
     (case b_find (bt_alloc h) h key (slotb h key) of
        None \<Rightarrow> None
      | Some (Found i) \<Rightarrow>
          let (kp, v) = bt_table h i
          in Some (h\<lparr>bt_table := (bt_table h)(i := (kp, v + delta))\<rparr> # prev, v + delta)
      | Some (Missing _) \<Rightarrow>
          if prev = [] then Some (h # prev, 0)
          else case hashtable_get prev key of
              None \<Rightarrow> None
            | Some (prev', val) \<Rightarrow>
                if val \<noteq> 0 then
                  (case hashtable_raw_update h key (val + delta) 0 of
                     None \<Rightarrow> None
                   | Some (h', res) \<Rightarrow>
                       if res \<noteq> 0 then hashtable_add_fuel n (h' # prev') key delta
                       else Some (h' # prev', val + delta))
                else Some (h # prev', 0))"

definition AddHashtable :: "hashtable \<Rightarrow> byte list \<Rightarrow> i64 \<Rightarrow> (hashtable \<times> i64) option" where
  "AddHashtable ph key delta = hashtable_add_fuel 2 ph key delta"

text \<open>The wait for the tag: while it is at the limit the loop spins, for ever when nobody else runs.\<close>

definition take_cell :: "i64 \<Rightarrow> i64 \<Rightarrow> i64 \<Rightarrow> (i64 \<times> i64) option" where
  "take_cell value msk compareto =
     (if compareto <=s (value AND msk) then None
      else let res_val = value AND NOT msk in
        if res_val = 0 then Some (value, 0) else Some ((value AND msk) + 1, res_val))"

fun hashtable_take_fuel :: "nat \<Rightarrow> hashtable \<Rightarrow> byte list \<Rightarrow> i64 \<Rightarrow> i64 \<Rightarrow> (hashtable \<times> i64) option" where
  "hashtable_take_fuel 0 hs key msk compareto = None"
| "hashtable_take_fuel (Suc n) [] key msk compareto = None"
| "hashtable_take_fuel (Suc n) (h # prev) key msk compareto =
     (case b_find (bt_alloc h) h key (slotb h key) of
        None \<Rightarrow> None
      | Some (Found i) \<Rightarrow>
          (let (kp, v) = bt_table h i in
           case take_cell v msk compareto of
             None \<Rightarrow> None
           | Some (v', res) \<Rightarrow> Some (h\<lparr>bt_table := (bt_table h)(i := (kp, v'))\<rparr> # prev, res))
      | Some (Missing _) \<Rightarrow>
          if prev = [] then Some (h # prev, 0)
          else case hashtable_get prev key of
              None \<Rightarrow> None
            | Some (prev', val) \<Rightarrow>
                if val \<noteq> 0 then
                  (case hashtable_raw_update h key val 0 of
                     None \<Rightarrow> None
                   | Some (h', _) \<Rightarrow> hashtable_take_fuel n (h' # prev') key msk compareto)
                else Some (h # prev', 0))"

definition TakeTaggedHashtable ::
  "hashtable \<Rightarrow> byte list \<Rightarrow> i64 \<Rightarrow> i64 \<Rightarrow> (hashtable \<times> i64) option" where
  "TakeTaggedHashtable ph key msk compareto = hashtable_take_fuel 2 ph key msk compareto"

definition init_hashtable :: "nat \<Rightarrow> hashtable" where
  "init_hashtable k_size = [b_empty_layer 1024 k_size]"

section \<open>Invariant and contents of a layer\<close>

definition occb :: "blayer \<Rightarrow> nat \<Rightarrow> byte list option" where
  "occb h i = map_option (bt_mem h) (fst (bt_table h i))"

definition keysb :: "blayer \<Rightarrow> byte list set" where
  "keysb h = keys_of (bt_alloc h) (occb h)"

definition probeb :: "blayer \<Rightarrow> byte list \<Rightarrow> probed" where
  "probeb h key = probe (bt_alloc h) (occb h) key (bt_alloc h) (slotb h key)"

text \<open>The pointer a key-space offset stands for, and the allocator after so many allocations.\<close>

definition kptr_of :: "nat \<Rightarrow> kptr" where
  "kptr_of off = (off div SEGMENT_CAPACITY, off mod SEGMENT_CAPACITY)"

definition space_ok :: "key_space \<Rightarrow> bool" where
  "space_ok s \<longleftrightarrow>
     ks_segment s = (if ks_offset s = 0 then None else Some ((ks_offset s - 1) div SEGMENT_CAPACITY)) \<and>
     ks_next s = (if ks_offset s = 0 then 0 else (ks_offset s - 1) div SEGMENT_CAPACITY + 1)"

definition blayer_ok :: "nat \<Rightarrow> blayer \<Rightarrow> bool" where
  "blayer_ok ks h \<longleftrightarrow>
     0 < bt_alloc h \<and> bt_key_size h = ks \<and>
     well_placed (bt_alloc h) (occb h) (slotb h) \<and>
     (\<forall>i. fst (bt_table h i) = None \<longrightarrow> snd (bt_table h i) = 0) \<and>
     bt_len h = card (keysb h) \<and> space_ok (bt_space h) \<and>
     (\<forall>i p. fst (bt_table h i) = Some p \<longrightarrow> (\<exists>off < ks_offset (bt_space h). p = kptr_of off))"

definition blookup :: "blayer \<Rightarrow> byte list \<Rightarrow> i64 option" where
  "blookup h = plookup (bt_alloc h) (occb h) (slotb h) (\<lambda>i. snd (bt_table h i))"

lemma kptr_of_inject [simp]: "kptr_of a = kptr_of b \<longleftrightarrow> a = b"
proof
  assume "kptr_of a = kptr_of b"
  then have "a div 4096 = b div 4096" "a mod 4096 = b mod 4096"
    by (auto simp: kptr_of_def SEGMENT_CAPACITY_def)
  then show "a = b" by (metis div_mult_mod_eq)
qed simp

text \<open>Without interference the allocator gives out the pointers in order, each once.\<close>

lemma hashtable_alloc_key_space_next:
  assumes "space_ok s"
  shows "\<exists>s'. hashtable_alloc_key_space s = (s', kptr_of (ks_offset s)) \<and>
           ks_offset s' = ks_offset s + 1 \<and> space_ok s'"
proof (cases "ks_offset s = 0")
  case True
  then show ?thesis using assms
    by (simp add: hashtable_alloc_key_space_def space_ok_def kptr_of_def)
next
  case False
  define n where "n = ks_offset s"
  have n: "0 < n" "ks_segment s = Some ((n - 1) div 4096)" "ks_next s = (n - 1) div 4096 + 1"
    using False assms by (auto simp: n_def space_ok_def SEGMENT_CAPACITY_def)
  have ge: "n div 4096 * 4096 \<le> n" by simp
  show ?thesis
  proof (cases "n mod 4096 = 0")
    case True
    then have "(n - 1) div 4096 + 1 = n div 4096" using n(1) div_Suc [of "n - 1" 4096] by simp
    with True ge n show ?thesis
      by (simp add: hashtable_alloc_key_space_def Let_def space_ok_def SEGMENT_CAPACITY_def kptr_of_def
          flip: n_def)
  next
    case False
    then have "(n - 1) div 4096 = n div 4096" using n(1) div_Suc [of "n - 1" 4096] by simp
    with False n show ?thesis
      by (simp add: hashtable_alloc_key_space_def Let_def space_ok_def SEGMENT_CAPACITY_def kptr_of_def
          flip: n_def)
  qed
qed

lemma finite_keysb [simp]: "finite (keysb h)"
  by (simp add: keysb_def)

lemma occb_empty [simp]: "occb (b_empty_layer n ks) = (\<lambda>_. None)"
  by (rule ext) (simp add: occb_def b_empty_layer_def)

lemma b_empty_fields [simp]:
  "bt_alloc (b_empty_layer n ks) = n" "bt_len (b_empty_layer n ks) = 0"
  "bt_table (b_empty_layer n ks) = (\<lambda>_. (None, 0))" "\<not> bt_updating (b_empty_layer n ks)"
  "bt_key_size (b_empty_layer n ks) = ks"
  by (simp_all add: b_empty_layer_def)

lemma keysb_empty [simp]: "keysb (b_empty_layer n ks) = {}"
  by (simp add: keysb_def)

lemma blayer_ok_empty: "0 < n \<Longrightarrow> blayer_ok ks (b_empty_layer n ks)"
  by (simp add: blayer_ok_def well_placed_empty slotb_def)
     (simp add: b_empty_layer_def space_ok_def)

lemma blookup_keys: "blayer_ok ks h \<Longrightarrow> blookup h key = None \<longleftrightarrow> key \<notin> keysb h"
  unfolding blayer_ok_def blookup_def keysb_def by (blast dest: plookup_keys)

lemma blookup_At: "probeb h key = At i \<Longrightarrow> blookup h key = Some (snd (bt_table h i))"
  by (simp add: blookup_def plookup_def probeb_def)

lemma blookup_Free: "probeb h key = Free i \<Longrightarrow> blookup h key = None"
  by (simp add: blookup_def plookup_def probeb_def)

lemma key_at_full [simp]: "length key = bt_key_size h \<Longrightarrow> key_at h key = key"
  by (simp add: key_at_def)

text \<open>The scan of the code, in terms of the probe.\<close>

lemma b_find_probe:
  "length key = bt_key_size h \<Longrightarrow>
   b_find f h key idx =
     (case probe (bt_alloc h) (occb h) key f idx of
        Spin \<Rightarrow> None | Free i \<Rightarrow> Some (Missing i) | At i \<Rightarrow> Some (Found i))"
  by (induction f arbitrary: idx) (auto simp: occb_def split: option.splits)

text \<open>Writing the slot of a key that is there, and claiming an empty slot with a new copy of the key.\<close>

lemma b_overwrite:
  assumes ok: "blayer_ok ks h" and found: "probeb h key = At i"
    and h': "h' = h\<lparr>bt_table := (bt_table h)(i := (fst (bt_table h i), nv))\<rparr>"
  shows "blayer_ok ks h' \<and> keysb h' = keysb h \<and> bt_alloc h' = bt_alloc h \<and>
         bt_updating h' = bt_updating h \<and> blookup h' = (blookup h)(key := Some nv)"
proof -
  have at: "occb h i = Some key" using found unfolding probeb_def by (rule probe_At_occ)
  have fields: "bt_alloc h' = bt_alloc h" "slotb h' = slotb h" "occb h' = occb h"
    using h' by (auto simp: slotb_def occb_def key_at_def fun_eq_iff)
  have "(\<lambda>j. snd (bt_table h' j)) = (\<lambda>j. snd (bt_table h j))(i := nv)" by (auto simp: h')
  then have "blookup h' = (blookup h)(key := Some nv)"
    using plookup_overwrite [where hash = "slotb h" and k = key, OF found [unfolded probeb_def]]
    by (simp add: blookup_def fields)
  moreover have "keysb h' = keysb h" by (simp add: keysb_def fields)
  moreover have "blayer_ok ks h'"
  proof -
    have "fst (bt_table h' j) = fst (bt_table h j)" for j by (simp add: h')
    moreover have "snd (bt_table h' j) = 0" if "fst (bt_table h j) = None" for j
      using that ok at by (auto simp: h' blayer_ok_def occb_def)
    ultimately show ?thesis
      using ok fields \<open>keysb h' = keysb h\<close> by (simp add: blayer_ok_def) (simp add: h')
  qed
  ultimately show ?thesis by (simp add: fields h')
qed

definition b_insert :: "blayer \<Rightarrow> nat \<Rightarrow> byte list \<Rightarrow> i64 \<Rightarrow> blayer" where
  "b_insert h i key nv =
     (let (space, p) = hashtable_alloc_key_space (bt_space h)
      in h\<lparr>bt_space := space, bt_mem := (bt_mem h)(p := key),
           bt_table := (bt_table h)(i := (Some p, nv)), bt_len := bt_len h + 1\<rparr>)"

lemma b_insert_ok:
  assumes ok: "blayer_ok ks h" and free: "probeb h key = Free i" and "i < bt_alloc h"
  shows "blayer_ok ks (b_insert h i key nv) \<and> keysb (b_insert h i key nv) = insert key (keysb h) \<and>
         bt_alloc (b_insert h i key nv) = bt_alloc h \<and>
         bt_updating (b_insert h i key nv) = bt_updating h \<and>
         blookup (b_insert h i key nv) = (blookup h)(key := Some nv)"
proof -
  define h' where "h' = b_insert h i key nv"
  have wp: "well_placed (bt_alloc h) (occb h) (slotb h)" and sok: "space_ok (bt_space h)"
    using ok by (auto simp: blayer_ok_def)
  obtain s' where s': "hashtable_alloc_key_space (bt_space h) = (s', kptr_of (ks_offset (bt_space h)))"
    "ks_offset s' = ks_offset (bt_space h) + 1" "space_ok s'"
    using hashtable_alloc_key_space_next [OF sok] by blast
  define p where "p = kptr_of (ks_offset (bt_space h))"
  have h': "h' = h\<lparr>bt_space := s', bt_mem := (bt_mem h)(p := key),
      bt_table := (bt_table h)(i := (Some p, nv)), bt_len := bt_len h + 1\<rparr>"
    by (simp add: h'_def b_insert_def s'(1) p_def)
  have fresh: "fst (bt_table h j) \<noteq> Some p" for j
  proof
    assume "fst (bt_table h j) = Some p"
    then obtain off where "off < ks_offset (bt_space h)" "p = kptr_of off"
      using ok unfolding blayer_ok_def by metis
    then show False by (simp add: p_def)
  qed
  have "map_option ((bt_mem h)(p := key)) (fst (bt_table h j)) = occb h j" for j
    using fresh [of j] by (cases "fst (bt_table h j)") (auto simp: occb_def)
  then have occ: "occb h' = (occb h)(i := Some key)"
    by (intro ext) (simp add: occb_def h')
  have fields: "bt_alloc h' = bt_alloc h" "slotb h' = slotb h"
    by (auto simp: h' slotb_def key_at_def fun_eq_iff)
  have empty: "occb h i = None" using free unfolding probeb_def by (rule probe_Free_occ)
  have new: "key \<notin> keysb h" using free probe_At_iff [OF wp, of key]
    by (auto simp: keysb_def probeb_def)
  have keys: "keysb h' = insert key (keysb h)"
    using keys_of_insert [of i "bt_alloc h" "occb h" key] assms(3) empty
    by (simp add: keysb_def fields occ)
  have wp': "well_placed (bt_alloc h') (occb h') (slotb h')"
    using well_placed_insert [where hash = "slotb h" and k = key, OF wp free [unfolded probeb_def]]
    by (simp add: fields occ)
  have "(\<lambda>j. snd (bt_table h' j)) = (\<lambda>j. snd (bt_table h j))(i := nv)" by (auto simp: h')
  then have "blookup h' = (blookup h)(key := Some nv)"
    using plookup_insert [where hash = "slotb h" and k = key, OF wp free [unfolded probeb_def]]
    by (simp add: blookup_def fields occ)
  moreover have "blayer_ok ks h'"
  proof -
    have "\<exists>off < ks_offset s'. q = kptr_of off" if "fst (bt_table h' j) = Some q" for j q
    proof (cases "j = i")
      case True
      then show ?thesis using that s'(2) by (auto simp: h' p_def)
    next
      case False
      then have "fst (bt_table h j) = Some q" using that by (simp add: h')
      then obtain off where "off < ks_offset (bt_space h)" "q = kptr_of off"
        using ok unfolding blayer_ok_def by blast
      then show ?thesis using s'(2) by (metis less_Suc_eq Suc_eq_plus1)
    qed
    moreover have "bt_len h' = card (keysb h')"
      using ok new keys by (simp add: blayer_ok_def h')
    moreover have "snd (bt_table h' j) = 0" if "fst (bt_table h' j) = None" for j
      using that ok by (auto simp: h' blayer_ok_def split: if_splits)
    ultimately show ?thesis using ok wp' s'(3) unfolding blayer_ok_def by (simp add: fields) (simp add: h')
  qed
  ultimately show ?thesis using keys fields by (simp add: h' flip: h'_def)
qed

lemma raw_update_probe:
  assumes ok: "blayer_ok ks h" and len: "length key = ks"
  shows
  "hashtable_raw_update h key nv 0 =
     (case probeb h key of
        Spin \<Rightarrow> None
      | Free i \<Rightarrow> Some (b_insert h i key nv, 0)
      | At i \<Rightarrow>
          if snd (bt_table h i) \<noteq> 0 then Some (h, snd (bt_table h i))
          else Some (h\<lparr>bt_table := (bt_table h)(i := (fst (bt_table h i), nv))\<rparr>, 0))"
proof -
  have ks: "length key = bt_key_size h" using assms by (simp add: blayer_ok_def)
  note scan = b_find_probe [OF ks, of "bt_alloc h" "slotb h key", folded probeb_def]
  show ?thesis
  proof (cases "probeb h key")
    case (Free i)
    then have "occb h i = None" unfolding probeb_def by (rule probe_Free_occ)
    then have "bt_table h i = (None, 0)"
      using ok by (auto simp: occb_def blayer_ok_def intro: prod_eqI)
    moreover obtain n where "bt_alloc h = Suc n"
      using ok by (cases "bt_alloc h") (auto simp: blayer_ok_def)
    ultimately show ?thesis using Free scan ks
      by (simp add: hashtable_raw_update_def b_insert_def split: prod.splits)
  qed (use scan in \<open>simp_all add: hashtable_raw_update_def split: prod.splits\<close>)
qed

lemma b_probe_cases:
  assumes ok: "blayer_ok ks h" and room: "card (keysb h) < bt_alloc h"
  obtains (At) i where "probeb h key = At i" "key \<in> keysb h"
    | (Free) i where "probeb h key = Free i" "key \<notin> keysb h" "i < bt_alloc h"
proof -
  have "well_placed (bt_alloc h) (occb h) (slotb h)" using ok by (simp add: blayer_ok_def)
  then show ?thesis
    by (rule probe_cases_placed [of _ _ _ key, OF _ room [unfolded keysb_def]])
      (use that in \<open>auto simp: probeb_def keysb_def\<close>)
qed

lemma raw_update_ok:
  assumes ok: "blayer_ok ks h" and room: "card (keysb h) < bt_alloc h" and len: "length key = ks"
  shows "\<exists>h' r. hashtable_raw_update h key nv 0 = Some (h', r) \<and> blayer_ok ks h' \<and>
    bt_alloc h' = bt_alloc h \<and> bt_updating h' = bt_updating h \<and> keysb h' = insert key (keysb h) \<and>
    r = (case blookup h key of Some w \<Rightarrow> w | None \<Rightarrow> 0) \<and>
    blookup h' = (if r \<noteq> 0 then blookup h else (blookup h)(key := Some nv))"
proof (rule b_probe_cases [OF ok room, of key])
  fix i assume p: "probeb h key = At i" and mem: "key \<in> keysb h"
  show ?thesis
    using raw_update_probe [OF ok len, of nv] p mem b_overwrite [OF ok p refl, of nv] ok
    by (cases "snd (bt_table h i) = 0") (simp_all add: blookup_At insert_absorb)
next
  fix i assume p: "probeb h key = Free i" and "i < bt_alloc h"
  then show ?thesis
    using raw_update_probe [OF ok len, of nv] b_insert_ok [OF ok p, of nv] by (simp add: blookup_Free)
qed

section \<open>A table is a layered table\<close>

definition scanb :: "blayer \<Rightarrow> byte list \<Rightarrow> i64 option option" where
  "scanb h key =
     (case b_find (bt_alloc h) h key (slotb h key) of
        None \<Rightarrow> None
      | Some (Found i) \<Rightarrow> Some (Some (snd (bt_table h i)))
      | Some (Missing _) \<Rightarrow> Some None)"

definition updb :: "blayer \<Rightarrow> byte list \<Rightarrow> i64 \<Rightarrow> (blayer \<times> i64) option" where
  "updb h key v = hashtable_raw_update h key v 0"

definition growb :: "blayer \<Rightarrow> bool" where
  "growb h \<longleftrightarrow> bt_len h > bt_alloc h div 4 \<and> \<not> bt_updating h"

definition freshb :: "blayer \<Rightarrow> blayer" where
  "freshb h = b_empty_layer (2 * bt_alloc h) (bt_key_size h)"

definition markb :: "blayer \<Rightarrow> blayer" where
  "markb h = h\<lparr>bt_updating := True\<rparr>"

definition btable_ok :: "nat \<Rightarrow> hashtable \<Rightarrow> bool" where
  "btable_ok ks = chain_table_ok (blayer_ok ks) keysb bt_alloc bt_updating"

definition absb :: "hashtable \<Rightarrow> byte list \<Rightarrow> i64" where
  "absb = chain_abs blookup"

lemma markb_fields [simp]:
  "occb (markb h) = occb h" "slotb (markb h) = slotb h" "bt_alloc (markb h) = bt_alloc h"
  "bt_table (markb h) = bt_table h" "bt_len (markb h) = bt_len h" "bt_space (markb h) = bt_space h"
  "bt_key_size (markb h) = bt_key_size h"
  by (auto simp: markb_def occb_def slotb_def key_at_def fun_eq_iff)

lemma scanb_lookup:
  assumes "blayer_ok ks h" "card (keysb h) < bt_alloc h" "length key = ks"
  shows "scanb h key = Some (blookup h key)"
proof -
  have "b_find (bt_alloc h) h key (slotb h key) =
      (case probeb h key of Spin \<Rightarrow> None | Free i \<Rightarrow> Some (Missing i) | At i \<Rightarrow> Some (Found i))"
    using assms by (simp add: b_find_probe probeb_def blayer_ok_def)
  then show ?thesis
    using b_probe_cases [OF assms(1,2), of key "scanb h key = Some (blookup h key)"]
    by (simp add: scanb_def blookup_At blookup_Free)
qed

interpretation layb: layered scanb updb growb freshb markb
  "blayer_ok ks" keysb bt_alloc bt_updating blookup "\<lambda>k. length k = ks" for ks
proof
  fix h assume "blayer_ok ks h"
  then show "blayer_ok ks (markb h) \<and> keysb (markb h) = keysb h \<and> bt_alloc (markb h) = bt_alloc h \<and>
      blookup (markb h) = blookup h"
    by (simp add: blayer_ok_def keysb_def blookup_def)
  assume "8 \<le> bt_alloc h"
  with \<open>blayer_ok ks h\<close> show "blayer_ok ks (freshb h) \<and> keysb (freshb h) = {} \<and>
      bt_alloc (freshb h) = 2 * bt_alloc h \<and> \<not> bt_updating (freshb h)"
    using blayer_ok_empty [of "2 * bt_alloc h" ks] by (simp add: freshb_def) (simp add: blayer_ok_def)
next
  fix h :: blayer and k :: "byte list" and nv :: i64
  assume "blayer_ok ks h" "card (keysb h) < bt_alloc h" "length k = ks"
  then show "\<exists>h' r. updb h k nv = Some (h', r) \<and> blayer_ok ks h' \<and>
    bt_alloc h' = bt_alloc h \<and> bt_updating h' = bt_updating h \<and> keysb h' = insert k (keysb h) \<and>
    r = (case blookup h k of Some w \<Rightarrow> w | None \<Rightarrow> 0) \<and>
    blookup h' = (if r \<noteq> 0 then blookup h else (blookup h)(k := Some nv))"
    unfolding updb_def by (rule raw_update_ok)
qed (auto simp: blookup_keys scanb_lookup growb_def, simp_all add: blayer_ok_def)

lemma hashtable_get_chain: "hashtable_get hs key = chain_get scanb updb hs key"
proof (induction hs)
  case (Cons h hs)
  show ?case
    by (cases "b_find (bt_alloc h) h key (slotb h key)")
      (simp_all add: scanb_def updb_def Cons split: found.splits cong: option.case_cong)
qed simp

lemma SetHashtable_chain: "SetHashtable hs key v 0 = chain_put updb growb freshb markb hs key v"
  by (simp add: SetHashtable_def chain_put_def updb_def growb_def freshb_def markb_def
      split: list.splits option.splits)

interpretation htb: kv_table GetHashtable "\<lambda>t k v. SetHashtable t k v 0" absb "btable_ok ks"
  "\<lambda>k. length k = ks" for ks
  unfolding absb_def btable_ok_def SetHashtable_chain GetHashtable_def [abs_def] hashtable_get_chain
  by (rule layb.kv_table_axioms)

lemma btable_ok_init: "btable_ok ks (init_hashtable ks)"
  by (simp add: init_hashtable_def btable_ok_def chain_table_ok_def blayer_ok_empty)

lemma absb_init: "absb (init_hashtable ks) = (\<lambda>_. 0)"
proof
  fix k
  have "blookup (b_empty_layer 1024 ks) k = None"
    using blookup_keys [OF blayer_ok_empty, of 1024] by simp
  then show "absb (init_hashtable ks) k = 0" by (simp add: init_hashtable_def absb_def)
qed

section \<open>Add and take\<close>

lemma front_cases:
  assumes tok: "btable_ok ks t" and len: "length key = ks"
  obtains (Found) h prev i where "t = h # prev" "probeb h key = At i"
      "b_find (bt_alloc h) h key (slotb h key) = Some (Found i)" "absb t key = snd (bt_table h i)"
    | (Missing) h prev i where "t = h # prev" "blookup h key = None"
      "b_find (bt_alloc h) h key (slotb h key) = Some (Missing i)" "absb t key = absb prev key"
proof -
  obtain h prev where t: "t = h # prev" and cok: "chain_ok (blayer_ok ks) keysb bt_alloc (h # prev)"
    using tok by (cases t) (auto simp: btable_ok_def chain_table_ok_def)
  then have ok: "blayer_ok ks h" and room: "card (keysb h) < bt_alloc h"
    using layb.chain_room [OF cok] by auto
  then have scan: "b_find (bt_alloc h) h key (slotb h key) =
      (case probeb h key of Spin \<Rightarrow> None | Free i \<Rightarrow> Some (Missing i) | At i \<Rightarrow> Some (Found i))"
    using len by (simp add: b_find_probe probeb_def blayer_ok_def)
  show ?thesis
  proof (rule b_probe_cases [OF ok room, of key])
    show ?thesis if "probeb h key = At i" for i
      using that scan t by (intro Found) (simp_all add: absb_def blookup_At)
    show ?thesis if "probeb h key = Free i" for i
      using that scan t by (intro Missing) (simp_all add: absb_def blookup_Free)
  qed
qed

lemma front_write:
  assumes tok: "btable_ok ks (h # prev)" and p: "probeb h key = At i"
  shows "btable_ok ks (h\<lparr>bt_table := (bt_table h)(i := (fst (bt_table h i), nv))\<rparr> # prev) \<and>
         absb (h\<lparr>bt_table := (bt_table h)(i := (fst (bt_table h i), nv))\<rparr> # prev) =
           (absb (h # prev))(key := nv)"
proof -
  have "blayer_ok ks h" using tok by (simp add: btable_ok_def chain_table_ok_def)
  note w = b_overwrite [OF this p refl, of nv]
  have "absb (h\<lparr>bt_table := (bt_table h)(i := (fst (bt_table h i), nv))\<rparr> # prev) =
           (absb (h # prev))(key := nv)"
    by (rule ext) (simp add: absb_def w)
  then show ?thesis using layb.front_ok [OF tok [unfolded btable_ok_def]] w
    by (simp add: btable_ok_def)
qed

lemma front_missing:
  assumes tok: "btable_ok ks (h # prev)" and len: "length key = ks"
    and None: "blookup h key = None" and ne: "prev \<noteq> []"
  shows "\<exists>prev'. hashtable_get prev key = Some (prev', absb prev key) \<and>
    btable_ok ks (h # prev') \<and> absb (h # prev') = absb (h # prev) \<and>
    (absb prev key \<noteq> 0 \<longrightarrow> (\<exists>h'. hashtable_raw_update h key v 0 = Some (h', 0) \<and>
      btable_ok ks (h' # prev') \<and> blookup h' key = Some v \<and>
      absb (h' # prev') = (absb (h # prev))(key := v)))"
  using layb.migrate_ok [OF tok [unfolded btable_ok_def] len None ne, of v]
  by (simp add: hashtable_get_chain absb_def btable_ok_def updb_def)

lemma fuel_2: "hashtable_add_fuel 2 = hashtable_add_fuel (Suc (Suc 0))"
  "hashtable_take_fuel 2 = hashtable_take_fuel (Suc (Suc 0))"
  by (simp_all add: numeral_2_eq_2)

lemma take_found:
  assumes tok: "btable_ok ks (h # prev)" and p: "probeb h key = At i" and len: "length key = ks"
    and v: "v = snd (bt_table h i)" and low: "\<not> compareto <=s (v AND msk)"
  shows "\<exists>t'. hashtable_take_fuel (Suc n) (h # prev) key msk compareto = Some (t', v AND NOT msk) \<and>
    btable_ok ks t' \<and>
    absb t' = (if v AND NOT msk = 0 then absb (h # prev)
               else (absb (h # prev))(key := (v AND msk) + 1))"
proof -
  have scan: "b_find (bt_alloc h) h key (slotb h key) = Some (Found i)"
    using p len tok by (simp add: b_find_probe probeb_def btable_ok_def chain_table_ok_def blayer_ok_def)
  have v0: "absb (h # prev) key = v" using p v by (simp add: absb_def blookup_At)
  show ?thesis
    using front_write [OF tok p, of v] front_write [OF tok p, of "(v AND msk) + 1"] low scan v0
    by (auto simp: take_cell_def Let_def fun_upd_idem case_prod_beta v)
qed

lemma AddHashtable_ok:
  assumes "btable_ok ks t" "length key = ks" "absb t key \<noteq> 0"
  shows "\<exists>t'. AddHashtable t key delta = Some (t', absb t key + delta) \<and> btable_ok ks t' \<and>
           absb t' = (absb t)(key := absb t key + delta)"
proof (rule front_cases [OF assms(1,2)])
  fix h prev i
  assume t: "t = h # prev" and p: "probeb h key = At i" and
    scan: "b_find (bt_alloc h) h key (slotb h key) = Some (Found i)" and v: "absb t key = snd (bt_table h i)"
  show ?thesis
    using front_write [OF assms(1) [unfolded t] p, of "absb t key + delta"] scan v
    by (simp add: AddHashtable_def fuel_2 t Let_def case_prod_beta)
next
  fix h prev i
  assume t: "t = h # prev" and none: "blookup h key = None" and
    scan: "b_find (bt_alloc h) h key (slotb h key) = Some (Missing i)" and v: "absb t key = absb prev key"
  have "prev \<noteq> []" using assms(3) v by (auto simp: absb_def)
  then show ?thesis
    using front_missing [OF assms(1) [unfolded t] assms(2) none, of "absb t key + delta"] assms(3) scan v
    by (auto simp: AddHashtable_def fuel_2 t)
qed

lemma TakeTaggedHashtable_ok:
  assumes "btable_ok ks t" "length key = ks" "v = absb t key" "\<not> compareto <=s (v AND msk)"
  shows "\<exists>t'. TakeTaggedHashtable t key msk compareto = Some (t', v AND NOT msk) \<and> btable_ok ks t' \<and>
           absb t' = (if v AND NOT msk = 0 then absb t else (absb t)(key := (v AND msk) + 1))"
proof (rule front_cases [OF assms(1,2)])
  fix h prev i
  assume t: "t = h # prev" and p: "probeb h key = At i" and v: "absb t key = snd (bt_table h i)"
  show ?thesis
    unfolding TakeTaggedHashtable_def fuel_2 t
    by (rule take_found [OF assms(1) [unfolded t] p assms(2) _ assms(4)]) (simp add: assms(3) v)
next
  fix h prev i
  assume t: "t = h # prev" and none: "blookup h key = None" and
    scan: "b_find (bt_alloc h) h key (slotb h key) = Some (Missing i)" and v: "absb t key = absb prev key"
  show ?thesis
  proof (cases "prev = []")
    case True
    then show ?thesis using scan v assms by (simp add: TakeTaggedHashtable_def fuel_2 t absb_def)
  next
    case ne: False
    obtain prev' where p: "hashtable_get prev key = Some (prev', absb prev key)"
      "btable_ok ks (h # prev')" "absb (h # prev') = absb (h # prev)"
      "absb prev key \<noteq> 0 \<longrightarrow> (\<exists>h'. hashtable_raw_update h key v 0 = Some (h', 0) \<and>
        btable_ok ks (h' # prev') \<and> blookup h' key = Some v \<and>
        absb (h' # prev') = (absb (h # prev))(key := v))"
      using front_missing [OF assms(1) [unfolded t] assms(2) none ne, of v] by blast
    show ?thesis
    proof (cases "v = 0")
      case True
      then show ?thesis using p scan v assms(3) ne by (simp add: TakeTaggedHashtable_def fuel_2 t)
    next
      case False
      then obtain h' where h': "hashtable_raw_update h key v 0 = Some (h', 0)"
        "btable_ok ks (h' # prev')" "blookup h' key = Some v" "absb (h' # prev') = absb t"
        using p(4) v assms(3) t by (auto simp: fun_upd_idem)
      then obtain j where "probeb h' key = At j" "v = snd (bt_table h' j)"
        by (auto simp: blookup_def plookup_def probeb_def split: probed.splits)
      note taken = take_found [OF h'(2) this(1) assms(2) this(2) assms(4), of 0]
      have "TakeTaggedHashtable t key msk compareto = hashtable_take_fuel (Suc 0) (h' # prev') key msk compareto"
        using False p(1) scan v assms(3) h'(1) ne
        by (simp add: TakeTaggedHashtable_def fuel_2 t hashtable_take_fuel.simps(3) [of "Suc 0" h prev]
            del: hashtable_take_fuel.simps)
      then show ?thesis using taken by (simp only: h'(4))
    qed
  qed
qed

section \<open>Properties\<close>

text \<open>
  C20. The table with byte-string keys is a map: from an initial table for keys of \<open>ks\<close> bytes, entering
  any number of distinct keys of that length always returns, through every growth, and a lookup then
  returns the value entered for its key, or 0.
\<close>

theorem insert_all_then_get:
  assumes "distinct (map fst kvs)" "\<forall>k \<in> fst ` set kvs. length k = ks" "length k = ks"
  shows "\<exists>t t'. put_all (\<lambda>t k v. SetHashtable t k v 0) (init_hashtable ks) kvs = Some t \<and>
           GetHashtable t k = Some (t', case map_of kvs k of Some v \<Rightarrow> v | None \<Rightarrow> 0)"
proof -
  obtain t where t: "put_all (\<lambda>t k v. SetHashtable t k v 0) (init_hashtable ks) kvs = Some t"
    "btable_ok ks t" "absb t k = (case map_of kvs k of Some v \<Rightarrow> v | None \<Rightarrow> 0)"
    using htb.put_all_contents [OF btable_ok_init assms(1)] assms(2) unfolding absb_init by blast
  show ?thesis using t htb.get_law [OF t(2) assms(3)] by auto
qed

theorem insert_all_then_get_witness:
  "\<exists>t t'. put_all (\<lambda>t k v. SetHashtable t k v 0) (init_hashtable 2) [([1, 2], 50), ([2, 1], 7)] = Some t \<and>
     GetHashtable t [2, 1] = Some (t', 7)"
  using insert_all_then_get [of "[([1, 2], 50), ([2, 1], 7)]" 2 "[2, 1]"] by simp

text \<open>
  \<^verbatim>\<open>AddHashtable\<close> on a key the table holds with a non-zero value, in whatever layer, adds to it and
  returns the new value; every other key keeps its value.
\<close>

theorem add_to_key:
  assumes "btable_ok ks t" "length key = ks" "absb t key \<noteq> 0"
  shows "\<exists>t'. AddHashtable t key delta = Some (t', absb t key + delta) \<and> btable_ok ks t' \<and>
           absb t' = (absb t)(key := absb t key + delta)"
  by (rule AddHashtable_ok [OF assms])

theorem add_to_key_witness:
  "\<exists>t t'. SetHashtable (init_hashtable 2) [1, 2] 40 0 = Some (t, 0) \<and> AddHashtable t [1, 2] 2 = Some (t', 42)"
proof -
  obtain t where "SetHashtable (init_hashtable 2) [1, 2] 40 0 = Some (t, 0)" "btable_ok 2 t"
    "absb t [1, 2] = 40"
    using htb.put_law [OF btable_ok_init, of "[1, 2]" 2 40] by (auto simp: absb_init)
  then show ?thesis using add_to_key [of 2 t "[1, 2]" 2] by auto
qed

text \<open>
  \<^verbatim>\<open>TakeTaggedHashtable\<close>, when the tag of the key is below the limit, returns the tagged pointer
  without its tag; when that is not null it leaves a null pointer with the tag one higher, and otherwise
  it changes nothing. This holds for a key in any layer, and for a key the table does not hold.
\<close>

theorem take_tagged_spec:
  assumes "btable_ok ks t" "length key = ks" "v = absb t key" "\<not> compareto <=s (v AND msk)"
  shows "\<exists>t'. TakeTaggedHashtable t key msk compareto = Some (t', v AND NOT msk) \<and> btable_ok ks t' \<and>
           absb t' = (if v AND NOT msk = 0 then absb t else (absb t)(key := (v AND msk) + 1))"
  by (rule TakeTaggedHashtable_ok [OF assms])

theorem take_tagged_spec_witness:
  "\<exists>t t'. SetHashtable (init_hashtable 1) [9] 0x5000000000000003 0 = Some (t, 0) \<and>
     TakeTaggedHashtable t [9] 0xFF 10 = Some (t', 0x5000000000000000) \<and> absb t' [9] = 4"
proof -
  obtain t where "SetHashtable (init_hashtable 1) [9] 0x5000000000000003 0 = Some (t, 0)" "btable_ok 1 t"
    "absb t [9] = 0x5000000000000003"
    using htb.put_law [OF btable_ok_init, of "[9]" 1 "0x5000000000000003"] by (auto simp: absb_init)
  then show ?thesis using take_tagged_spec [of 1 t "[9]" "0x5000000000000003" 10 "0xFF"] by auto
qed

section \<open>The key allocator under interleaving\<close>

text \<open>
  \<^verbatim>\<open>hashtable_alloc_key_space\<close> runs without the lock of the caller. Its atomic actions, one step
  each: a thread fetches its offset, loads the current segment, and then either uses it, or tries the
  exchange on \<^verbatim>\<open>segment_allocating\<close> and installs a new segment, or waits for a change.
\<close>

datatype alloc_pc =
    Idle
  | Fetched nat
  | Loaded nat "nat option"
  | Holding nat
  | Installed nat nat
  | Waiting nat "nat option"

record race =
  ra_offset :: nat
  ra_segment :: "nat option"
  ra_lock :: bool
  ra_next :: nat
  ra_pc :: "nat \<Rightarrow> alloc_pc"
  ra_given :: "kptr list"

definition race_init :: race where
  "race_init = \<lparr>ra_offset = 0, ra_segment = None, ra_lock = False, ra_next = 0,
                ra_pc = (\<lambda>_. Idle), ra_given = []\<rparr>"

definition give :: "nat \<Rightarrow> nat \<Rightarrow> nat \<Rightarrow> race \<Rightarrow> race" where
  "give t seg off s = s\<lparr>ra_pc := (ra_pc s)(t := Idle),
                        ra_given := (seg, off mod SEGMENT_CAPACITY) # ra_given s\<rparr>"

definition needs_lock :: "nat option \<Rightarrow> nat \<Rightarrow> bool" where
  "needs_lock seg off \<longleftrightarrow> seg = None \<or> off mod SEGMENT_CAPACITY = 0"

inductive alloc_step :: "nat \<Rightarrow> race \<Rightarrow> race \<Rightarrow> bool" where
  fetch_add: "ra_pc s t = Idle \<Longrightarrow>
    alloc_step t s (s\<lparr>ra_offset := ra_offset s + 1, ra_pc := (ra_pc s)(t := Fetched (ra_offset s))\<rparr>)"
| load: "ra_pc s t = Fetched off \<Longrightarrow>
    alloc_step t s (s\<lparr>ra_pc := (ra_pc s)(t := Loaded off (ra_segment s))\<rparr>)"
| use_segment: "ra_pc s t = Loaded off (Some seg) \<Longrightarrow> \<not> needs_lock (Some seg) off \<Longrightarrow>
    alloc_step t s (give t seg off s)"
| take_lock: "ra_pc s t = Loaded off seg \<Longrightarrow> needs_lock seg off \<Longrightarrow> \<not> ra_lock s \<Longrightarrow>
    alloc_step t s (s\<lparr>ra_lock := True, ra_pc := (ra_pc s)(t := Holding off)\<rparr>)"
| lock_busy: "ra_pc s t = Loaded off seg \<Longrightarrow> needs_lock seg off \<Longrightarrow> ra_lock s \<Longrightarrow>
    alloc_step t s (s\<lparr>ra_pc := (ra_pc s)(t := Waiting off seg)\<rparr>)"
| install_new: "ra_pc s t = Holding off \<Longrightarrow>
    ra_segment s = None \<or> (off div SEGMENT_CAPACITY) * SEGMENT_CAPACITY \<le> off \<Longrightarrow>
    alloc_step t s (s\<lparr>ra_segment := Some (ra_next s), ra_next := ra_next s + 1,
                      ra_pc := (ra_pc s)(t := Installed off (ra_next s))\<rparr>)"
| keep_old: "ra_pc s t = Holding off \<Longrightarrow> ra_segment s = Some seg \<Longrightarrow>
    off < (off div SEGMENT_CAPACITY) * SEGMENT_CAPACITY \<Longrightarrow>
    alloc_step t s (s\<lparr>ra_pc := (ra_pc s)(t := Installed off seg)\<rparr>)"
| unlock: "ra_pc s t = Installed off seg \<Longrightarrow>
    alloc_step t s (give t seg off (s\<lparr>ra_lock := False\<rparr>))"
| wake: "ra_pc s t = Waiting off seg \<Longrightarrow> ra_segment s = Some seg' \<Longrightarrow> seg \<noteq> Some seg' \<Longrightarrow>
    alloc_step t s (give t seg' off s)"
| spin: "ra_pc s t = Waiting off (ra_segment s) \<Longrightarrow> alloc_step t s s"

inductive race_reach :: "race \<Rightarrow> bool" where
  race_start: "race_reach race_init"
| race_more: "race_reach s \<Longrightarrow> alloc_step t s s' \<Longrightarrow> race_reach s'"

inductive_cases alloc_stepE: "alloc_step t s s'"

text \<open>The lock does exclude: no two threads are between taking it and releasing it.\<close>

definition in_section :: "alloc_pc \<Rightarrow> bool" where
  "in_section pc \<longleftrightarrow> (\<exists>off. pc = Holding off) \<or> (\<exists>off seg. pc = Installed off seg)"

lemma in_section_simps [simp]:
  "\<not> in_section Idle" "\<not> in_section (Fetched a)" "\<not> in_section (Loaded a b)"
  "in_section (Holding a)" "in_section (Installed a c)" "\<not> in_section (Waiting a b)"
  by (simp_all add: in_section_def)

lemma lock_excludes_aux:
  "race_reach s \<Longrightarrow> (\<forall>t. in_section (ra_pc s t) \<longrightarrow> ra_lock s) \<and>
    (\<forall>t u. in_section (ra_pc s t) \<longrightarrow> in_section (ra_pc s u) \<longrightarrow> t = u)"
proof (induction rule: race_reach.induct)
  case race_start
  then show ?case by (simp add: race_init_def)
next
  case (race_more s t s')
  from race_more.hyps(2) show ?case
  proof cases
    case (unlock off seg)
    then have "in_section (ra_pc s t)" by simp
    then show ?thesis using race_more.IH unlock by (auto simp: give_def)
  next
    case (install_new off)
    then have "in_section (ra_pc s t)" by simp
    then have "ra_lock s" "\<forall>u. in_section (ra_pc s u) \<longrightarrow> u = t" using race_more.IH by blast+
    then show ?thesis using install_new by auto
  next
    case (keep_old off seg)
    then have "in_section (ra_pc s t)" by simp
    then have "ra_lock s" "\<forall>u. in_section (ra_pc s u) \<longrightarrow> u = t" using race_more.IH by blast+
    then show ?thesis using keep_old by auto
  qed (use race_more.IH in \<open>auto simp: give_def split: if_splits\<close>)
qed

text \<open>One thread alone gets the pointers of the first segment in order.\<close>

definition race_after :: "nat \<Rightarrow> race" where
  "race_after n = \<lparr>ra_offset = n, ra_segment = (if n = 0 then None else Some 0), ra_lock = False,
      ra_next = (if n = 0 then 0 else 1), ra_pc = (\<lambda>_. Idle), ra_given = map (Pair 0) (rev [0..<n])\<rparr>"

lemma race_after_0: "race_after 0 = race_init"
  by (simp add: race_after_def race_init_def)

lemma idle_again: "(\<lambda>_. Idle)(t := pc, t := pc', t := Idle) = (\<lambda>_. Idle)"
  by auto

lemma race_after_reach: "n \<le> SEGMENT_CAPACITY \<Longrightarrow> race_reach (race_after n)"
proof (induction n)
  case 0
  then show ?case by (simp add: race_after_0 race_start)
next
  case (Suc n)
  then have r: "race_reach (race_after n)" and n: "n < 4096" by (simp_all add: SEGMENT_CAPACITY_def)
  let ?s = "race_after n"
  let ?s1 = "?s\<lparr>ra_offset := ra_offset ?s + 1, ra_pc := (ra_pc ?s)(0 := Fetched (ra_offset ?s))\<rparr>"
  let ?s2 = "?s1\<lparr>ra_pc := (ra_pc ?s1)(0 := Loaded n (ra_segment ?s1))\<rparr>"
  have "race_reach ?s1" by (rule race_more [OF r fetch_add]) (simp add: race_after_def)
  then have r2: "race_reach ?s2"
    by (rule race_more [OF _ load]) (simp add: race_after_def)
  show ?case
  proof (cases "n = 0")
    case True
    let ?s3 = "?s2\<lparr>ra_lock := True, ra_pc := (ra_pc ?s2)(0 := Holding n)\<rparr>"
    let ?s4 = "?s3\<lparr>ra_segment := Some (ra_next ?s3), ra_next := ra_next ?s3 + 1,
                   ra_pc := (ra_pc ?s3)(0 := Installed n (ra_next ?s3))\<rparr>"
    have "race_reach ?s3"
      by (rule race_more [OF r2 take_lock]) (use True in \<open>auto simp: race_after_def needs_lock_def\<close>)
    then have "race_reach ?s4" by (rule race_more [OF _ install_new]) (use True in simp_all)
    then have "race_reach (give 0 0 n (?s4\<lparr>ra_lock := False\<rparr>))"
      by (rule race_more [OF _ unlock]) (use True in \<open>simp add: race_after_def\<close>)
    moreover have "give 0 0 n (?s4\<lparr>ra_lock := False\<rparr>) = race_after (Suc n)"
      using True by (simp add: give_def race_after_def fun_eq_iff)
    ultimately show ?thesis by simp
  next
    case False
    have "race_reach (give 0 0 n ?s2)"
      by (rule race_more [OF r2 use_segment])
        (use False n in \<open>auto simp: race_after_def needs_lock_def SEGMENT_CAPACITY_def\<close>)
    moreover have "give 0 0 n ?s2 = race_after (Suc n)"
      using False n by (simp add: give_def race_after_def fun_eq_iff SEGMENT_CAPACITY_def)
    ultimately show ?thesis by simp
  qed
qed

text \<open>
  C37. The allocator can give out the same key memory twice. At the end of a segment the thread that draws
  index 0 has to install the next segment; a thread that draws a later index before that happens still
  sees the old, full segment and takes a place in it that belongs to another key.
\<close>

theorem key_space_given_twice:
  "\<exists>s. race_reach s \<and> \<not> distinct (ra_given s) \<and> ra_offset s = SEGMENT_CAPACITY + 2"
proof -
  let ?s = "race_after SEGMENT_CAPACITY"
  let ?s1 = "?s\<lparr>ra_offset := ra_offset ?s + 1, ra_pc := (ra_pc ?s)(1 := Fetched (ra_offset ?s))\<rparr>"
  let ?s2 = "?s1\<lparr>ra_offset := ra_offset ?s1 + 1, ra_pc := (ra_pc ?s1)(2 := Fetched (ra_offset ?s1))\<rparr>"
  let ?s3 = "?s2\<lparr>ra_pc := (ra_pc ?s2)(2 := Loaded 4097 (ra_segment ?s2))\<rparr>"
  have "race_reach ?s1"
    by (rule race_more [OF race_after_reach [OF order_refl] fetch_add]) (simp add: race_after_def)
  then have "race_reach ?s2" by (rule race_more [OF _ fetch_add]) (simp add: race_after_def)
  then have "race_reach ?s3"
    by (rule race_more [OF _ load]) (simp add: race_after_def SEGMENT_CAPACITY_def)
  then have "race_reach (give 2 0 4097 ?s3)"
    by (rule race_more [OF _ use_segment])
      (simp_all add: race_after_def SEGMENT_CAPACITY_def needs_lock_def)
  moreover have "(0, 1) \<in> set (map (Pair 0) (rev [0..<4096]))" by auto
  then have "\<not> distinct (ra_given (give 2 0 4097 ?s3))"
    by (simp add: give_def race_after_def SEGMENT_CAPACITY_def)
  moreover have "ra_offset (give 2 0 4097 ?s3) = SEGMENT_CAPACITY + 2"
    by (simp add: give_def race_after_def)
  ultimately show ?thesis by blast
qed

text \<open>
  C24. The exchange on \<^verbatim>\<open>segment_allocating\<close> excludes as it should: in every reachable state at most
  one thread is between winning it and releasing it, and then the flag is set.
\<close>

theorem segment_lock_excludes:
  assumes "race_reach s" "in_section (ra_pc s t)"
  shows "ra_lock s \<and> (\<forall>u. in_section (ra_pc s u) \<longrightarrow> u = t)"
  using lock_excludes_aux [OF assms(1)] assms(2) by blast

theorem segment_lock_excludes_witness:
  "ra_lock (race_init\<lparr>ra_offset := 1, ra_lock := True, ra_pc := (\<lambda>_. Idle)(3 := Holding 0)\<rparr>)"
proof -
  let ?s1 = "race_init\<lparr>ra_offset := 1, ra_pc := (\<lambda>_. Idle)(3 := Fetched 0)\<rparr>"
  let ?s2 = "?s1\<lparr>ra_pc := (\<lambda>_. Idle)(3 := Loaded 0 None)\<rparr>"
  have "alloc_step 3 race_init ?s1" using fetch_add [of race_init 3] by (simp add: race_init_def)
  then have 1: "race_reach ?s1" by (rule race_more [OF race_start])
  have "alloc_step 3 ?s1 ?s2" using load [of ?s1 3 0] by (simp add: race_init_def)
  then have 2: "race_reach ?s2" by (rule race_more [OF 1])
  have "alloc_step 3 ?s2 (?s2\<lparr>ra_lock := True, ra_pc := (\<lambda>_. Idle)(3 := Holding 0)\<rparr>)"
    using take_lock [of ?s2 3 0 None] by (simp add: race_init_def needs_lock_def)
  then have "race_reach (?s2\<lparr>ra_lock := True, ra_pc := (\<lambda>_. Idle)(3 := Holding 0)\<rparr>)"
    by (rule race_more [OF 2])
  then show ?thesis using segment_lock_excludes [of _ 3] by (fastforce simp: race_init_def)
qed

end
