(* ===== verification/WaitLists.thy ===== *)
theory WaitLists
  imports HashTableBytes Hive
begin

text \<open>
  The wait lists of \<^verbatim>\<open>common/remote.c\<close> (lines 350 to 431): per key of an object request, a linked
  list of waiters whose head pointer is the value of the key in a hash table, with a tag in its low four
  bits that counts the threads that are walking a list they have taken. First the operations on the
  concrete table, with the proof of what they do to its contents; then the same operations on the
  contents, which the state of Hive holds; then what insertion and taking do to the list of waiters.
\<close>

definition GETSET_WAIT_LIST_VALUE_PROCESSING_TAG :: i64 where
  "GETSET_WAIT_LIST_VALUE_PROCESSING_TAG = 0xF"

definition GETSET_WAIT_LIST_PARALLEL_PROCESSING :: i64 where
  "GETSET_WAIT_LIST_PARALLEL_PROCESSING = 1"

definition get_wait_list_key :: "i64 \<Rightarrow> i64 \<Rightarrow> i64 \<Rightarrow> byte list" where
  "get_wait_list_key object_id offset sz = le_bytes 8 object_id @ le_bytes 8 offset @ le_bytes 8 sz"

definition set_wait_list_key :: "i64 \<Rightarrow> i64 \<Rightarrow> i64 \<Rightarrow> i64 \<Rightarrow> byte list" where
  "set_wait_list_key object_id offset sz hash =
     le_bytes 8 object_id @ le_bytes 8 offset @ le_bytes 8 sz @ le_bytes 8 hash"

abbreviation "TAG \<equiv> GETSET_WAIT_LIST_VALUE_PROCESSING_TAG"

lemma length_keys [simp]:
  "length (get_wait_list_key a b c) = 24" "length (set_wait_list_key a b c d) = 32"
  by (simp_all add: get_wait_list_key_def set_wait_list_key_def del: le_bytes_numeral)

lemma get_wait_list_key_inject:
  "get_wait_list_key a b c = get_wait_list_key a' b' c' \<longleftrightarrow> a = a' \<and> b = b' \<and> c = c'"
  unfolding get_wait_list_key_def
  by (metis append_eq_append_conv length_le_bytes le_word_le_bytes)

lemma set_wait_list_key_inject:
  "set_wait_list_key a b c d = set_wait_list_key a' b' c' d' \<longleftrightarrow> a = a' \<and> b = b' \<and> c = c' \<and> d = d'"
  unfolding set_wait_list_key_def
  by (metis append_eq_append_conv length_le_bytes le_word_le_bytes)

section \<open>Insertion into the concrete table\<close>

text \<open>
  The loop of \<^verbatim>\<open>GetsetInsertTagged\<close> repeats when the head changed between the lookup and the
  exchange; the result is the table and the pointer that was written to the \<^verbatim>\<open>next\<close> field of the
  node. Without interference one turn is enough.
\<close>

fun GetsetInsertTagged_loop :: "nat \<Rightarrow> hashtable \<Rightarrow> byte list \<Rightarrow> i64 \<Rightarrow> (hashtable \<times> i64) option" where
  "GetsetInsertTagged_loop 0 t key new_node = None"
| "GetsetInsertTagged_loop (Suc f) t key new_node =
     (case GetHashtable t key of
        None \<Rightarrow> None
      | Some (t1, v) \<Rightarrow>
          (case SetHashtable t1 key ((v AND TAG) OR new_node) v of
             None \<Rightarrow> None
           | Some (t2, r) \<Rightarrow>
               if r = v then Some (t2, v AND NOT TAG)
               else GetsetInsertTagged_loop f t2 key new_node))"

lemma set_found:
  assumes tok: "btable_ok ks t" and len: "length key = ks"
    and get: "GetHashtable t key = Some (t1, v)" and v: "v \<noteq> 0"
  shows "\<exists>t2. SetHashtable t1 key nv v = Some (t2, v) \<and> btable_ok ks t2 \<and> absb t2 = (absb t)(key := nv)"
proof -
  have "chain_get scanb updb t key = Some (t1, v)" using get by (simp add: GetHashtable_def hashtable_get_chain)
  then have t1: "btable_ok ks t1" "absb t1 = absb t" "blookup (hd t1) key = Some v"
    using layb.chain_get_ok [OF tok [unfolded btable_ok_def] len] v by (auto simp: btable_ok_def absb_def)
  obtain h prev where hp: "t1 = h # prev" using t1(1) by (cases t1) (auto simp: btable_ok_def chain_table_ok_def)
  obtain i where p: "probeb h key = At i" and vi: "snd (bt_table h i) = v"
    using t1(3) hp by (auto simp: blookup_def plookup_def probeb_def split: probed.splits)
  have "bt_key_size h = ks" using t1(1) hp by (simp add: btable_ok_def chain_table_ok_def blayer_ok_def)
  then have "b_find (bt_alloc h) h key (slotb h key) = Some (Found i)"
    using len p by (simp add: b_find_probe probeb_def)
  then have "hashtable_raw_update h key nv v =
      Some (h\<lparr>bt_table := (bt_table h)(i := (fst (bt_table h i), nv))\<rparr>, v)"
    using vi by (simp add: hashtable_raw_update_def case_prod_beta)
  then have "SetHashtable t1 key nv v =
      Some (h\<lparr>bt_table := (bt_table h)(i := (fst (bt_table h i), nv))\<rparr> # prev, v)"
    using v hp by (simp add: SetHashtable_def)
  then show ?thesis using front_write [OF t1(1) [unfolded hp] p, of nv] t1(2) hp by simp
qed

section \<open>The same operations on the contents\<close>

definition tagged_insert :: "i64 \<Rightarrow> i64 \<Rightarrow> i64" where
  "tagged_insert v new_node = ((v AND TAG) OR new_node)"

definition btbl_take :: "nat \<Rightarrow> (byte list \<Rightarrow> i64) \<Rightarrow> byte list \<Rightarrow> ((byte list \<Rightarrow> i64) \<times> i64) option" where
  "btbl_take ks t key =
     (let v = t (take ks key) in
      if GETSET_WAIT_LIST_PARALLEL_PROCESSING <=s (v AND TAG) then None
      else if v AND NOT TAG = 0 then Some (t, 0)
      else Some (t(take ks key := (v AND TAG) + 1), v AND NOT TAG))"

text \<open>On a value of 0 the contents do not tell whether the key is in the table: no result.\<close>

definition btbl_add :: "nat \<Rightarrow> (byte list \<Rightarrow> i64) \<Rightarrow> byte list \<Rightarrow> i64 \<Rightarrow> (byte list \<Rightarrow> i64) option" where
  "btbl_add ks t key delta =
     (let v = t (take ks key) in if v = 0 then None else Some (t(take ks key := v + delta)))"

text \<open>
  \<^verbatim>\<open>GetsetInsertTagged\<close> on the contents and the heap of waiters: the node's next pointer becomes the
  head without its tag, and the node the head, with the tag. The assertion that the address of the node
  leaves the tag bits free is kept.
\<close>

definition GetsetInsertTagged ::
  "nat \<Rightarrow> (byte list \<Rightarrow> i64) \<Rightarrow> byte list \<Rightarrow> i64 \<Rightarrow> (i64 \<Rightarrow> waiter option) \<Rightarrow>
   ((byte list \<Rightarrow> i64) \<times> (i64 \<Rightarrow> waiter option)) option" where
  "GetsetInsertTagged ks t key new_node heap =
     (let v = btbl_get ks t key in
      case heap new_node of
        None \<Rightarrow> None
      | Some w \<Rightarrow>
          if new_node AND TAG \<noteq> 0 then None
          else Some (t(take ks key := tagged_insert v new_node), heap(new_node \<mapsto> w\<lparr>wt_next := v AND NOT TAG\<rparr>)))"

text \<open>
  A new waiter in one of the two lists, as every caller of \<^verbatim>\<open>GetsetInsertTagged\<close> makes it: the node is
  allocated, filled in and inserted.
\<close>

definition new_waiter :: "nat \<Rightarrow> i64 \<Rightarrow> callback \<Rightarrow> hive \<Rightarrow> (hive \<times> i64) option" where
  "new_waiter n params cb s =
     (case myMalloc n s of
        None \<Rightarrow> None
      | Some (s, a) \<Rightarrow>
          Some (s\<lparr>h_waiters := (h_waiters s)(a \<mapsto> \<lparr>wt_next = 0, wt_params = params, wt_callback = cb\<rparr>)\<rparr>, a))"

definition insert_get_waiter :: "nat \<Rightarrow> byte list \<Rightarrow> i64 \<Rightarrow> callback \<Rightarrow> hive \<Rightarrow> hive option" where
  "insert_get_waiter n key params cb s =
     (case new_waiter n params cb s of
        None \<Rightarrow> None
      | Some (s, a) \<Rightarrow>
          (case GetsetInsertTagged 24 (h_get_wait_list s) key a (h_waiters s) of
             None \<Rightarrow> None
           | Some (t, heap) \<Rightarrow> Some (s\<lparr>h_get_wait_list := t, h_waiters := heap\<rparr>)))"

definition insert_set_waiter :: "nat \<Rightarrow> byte list \<Rightarrow> i64 \<Rightarrow> callback \<Rightarrow> hive \<Rightarrow> hive option" where
  "insert_set_waiter n key params cb s =
     (case new_waiter n params cb s of
        None \<Rightarrow> None
      | Some (s, a) \<Rightarrow>
          (case GetsetInsertTagged 32 (h_set_wait_list s) key a (h_waiters s) of
             None \<Rightarrow> None
           | Some (t, heap) \<Rightarrow> Some (s\<lparr>h_set_wait_list := t, h_waiters := heap\<rparr>)))"

lemma insert_get_waiter_shape:
  assumes "heap_ok s" "unat (h_brk s) + 4096 < 2 ^ 63" "m \<le> 40"
  obtains brk where "insert_get_waiter m key params cb s = Some (s\<lparr>h_brk := brk,
      h_waiters := (h_waiters s)(h_brk s \<mapsto> \<lparr>wt_next = h_get_wait_list s (take 24 key) AND NOT TAG,
        wt_params = params, wt_callback = cb\<rparr>),
      h_get_wait_list := (h_get_wait_list s)(take 24 key := tagged_insert (h_get_wait_list s (take 24 key)) (h_brk s))\<rparr>)"
    "h_brk s \<le> brk" "h_brk s < brk" "unat brk \<le> unat (h_brk s) + 48" "16 dvd unat brk"
    "h_brk s AND TAG = 0" "h_brk s \<noteq> 0"
proof -
  define room where "room = 16 * (m div 16 + 1)"
  have room: "room \<le> 48" using assms(3) by (simp add: room_def)
  have fit: "unat (h_brk s) + room < 2 ^ 63" using assms(2) room by linarith
  then obtain s1 where m: "myMalloc m s = Some (s1, h_brk s)" by (simp add: myMalloc_def room_def)
  note mo = myMalloc_ok [OF m assms(1)]
  have brk: "h_brk s1 = h_brk s + word_of_nat room"
    using m by (auto simp: myMalloc_def Let_def room_def split: if_splits)
  have "unat (word_of_nat room :: i64) = room" using room by (simp add: unat_of_nat)
  then have "unat (h_brk s1) = unat (h_brk s) + room" using fit by (simp add: brk unat_word_ariths)
  moreover have "16 dvd unat (h_brk s1)" using mo(1) by (simp add: heap_ok_def)
  moreover have "h_brk s AND TAG = 0" using mo(6) by (simp add: GETSET_WAIT_LIST_VALUE_PROCESSING_TAG_def)
  moreover have s1: "s1 = s\<lparr>h_brk := h_brk s1\<rparr>" by (rule mo(5))
  have "insert_get_waiter m key params cb s = Some (s\<lparr>h_brk := h_brk s1,
      h_waiters := (h_waiters s)(h_brk s \<mapsto> \<lparr>wt_next = h_get_wait_list s (take 24 key) AND NOT TAG,
        wt_params = params, wt_callback = cb\<rparr>),
      h_get_wait_list := (h_get_wait_list s)(take 24 key := tagged_insert (h_get_wait_list s (take 24 key)) (h_brk s))\<rparr>)"
    using m \<open>h_brk s AND TAG = 0\<close>
    by (simp add: insert_get_waiter_def new_waiter_def GetsetInsertTagged_def btbl_get_def Let_def) (subst s1, simp)+
  ultimately show ?thesis using that [of "h_brk s1"] mo(2,3,7) room by simp
qed

section \<open>Properties of the table operations\<close>

text \<open>
  \<^verbatim>\<open>GetsetInsertTagged\<close> always returns and pushes the new node at the head of the list of its
  key: the node's next pointer is the old head, the tag in the low bits is kept, and every other key of
  the table keeps its value.
\<close>

theorem tagged_insert_spec:
  assumes "btable_ok ks t" "length key = ks" "0 < f"
  shows "\<exists>t'. GetsetInsertTagged_loop f t key new_node = Some (t', absb t key AND NOT TAG) \<and>
           btable_ok ks t' \<and> absb t' = (absb t)(key := tagged_insert (absb t key) new_node)"
proof -
  obtain n where f: "f = Suc n" using assms(3) by (cases f) auto
  obtain t1 where t1: "GetHashtable t key = Some (t1, absb t key)" "btable_ok ks t1" "absb t1 = absb t"
    using htb.get_law [OF assms(1,2)] by blast
  show ?thesis
  proof (cases "absb t key = 0")
    case True
    obtain t2 where "SetHashtable t1 key new_node 0 = Some (t2, 0)" "btable_ok ks t2"
      "absb t2 = (absb t1)(key := new_node)"
      using htb.put_law [OF t1(2) assms(2)] True t1(3) by metis
    then show ?thesis using t1 True by (simp add: f tagged_insert_def)
  next
    case False
    then show ?thesis
      using set_found [OF assms(1,2) t1(1) False, of "(absb t key AND TAG) OR new_node"] t1(1)
      by (auto simp: f tagged_insert_def)
  qed
qed

theorem tagged_insert_spec_witness:
  "\<exists>t. GetsetInsertTagged_loop 1 (init_hashtable 24) (get_wait_list_key 1 2 3) 64 = Some (t, 0) \<and>
     absb t (get_wait_list_key 1 2 3) = 64"
proof -
  obtain t where "GetsetInsertTagged_loop 1 (init_hashtable 24) (get_wait_list_key 1 2 3) 64 =
      Some (t, absb (init_hashtable 24) (get_wait_list_key 1 2 3) AND NOT TAG)"
    "absb t = (absb (init_hashtable 24))(get_wait_list_key 1 2 3 :=
      tagged_insert (absb (init_hashtable 24) (get_wait_list_key 1 2 3)) 64)"
    using tagged_insert_spec [OF btable_ok_init, of "get_wait_list_key 1 2 3" 24 1 64] length_keys by auto
  then show ?thesis by (simp add: absb_init tagged_insert_def)
qed

text \<open>The operations on the contents are those of the concrete table.\<close>

lemma btbl_get_refines:
  "btable_ok ks t \<Longrightarrow> length key = ks \<Longrightarrow>
   \<exists>t'. GetHashtable t key = Some (t', btbl_get ks (absb t) key) \<and> btable_ok ks t' \<and> absb t' = absb t"
  using htb.get_law [of ks t key] by (simp add: btbl_get_def)

lemma btbl_insert_refines:
  assumes "btable_ok ks t" "length key = ks"
  shows "\<exists>t1 t2 v'. GetHashtable t key = Some (t1, v') \<and>
    SetHashtable t1 key v 0 = Some (t2, snd (btbl_insert ks (absb t) key v)) \<and> btable_ok ks t2 \<and>
    absb t2 = fst (btbl_insert ks (absb t) key v)"
  using htb.lookup_then_put [OF assms, of v] assms(2) by (auto simp: btbl_insert_def)

lemma btbl_take_refines:
  assumes "btable_ok ks t" "length key = ks" "btbl_take ks (absb t) key = Some (c, r)"
  shows "\<exists>t'. TakeTaggedHashtable t key TAG GETSET_WAIT_LIST_PARALLEL_PROCESSING = Some (t', r) \<and>
    btable_ok ks t' \<and> absb t' = c"
proof -
  have "\<not> GETSET_WAIT_LIST_PARALLEL_PROCESSING <=s (absb t key AND TAG)"
    using assms(2,3) by (auto simp: btbl_take_def Let_def split: if_splits)
  from TakeTaggedHashtable_ok [OF assms(1,2) refl this] show ?thesis
    using assms(2,3) by (auto simp: btbl_take_def Let_def split: if_splits)
qed

lemma btbl_add_refines:
  assumes "btable_ok ks t" "length key = ks" "btbl_add ks (absb t) key delta = Some c"
  shows "\<exists>t' r. AddHashtable t key delta = Some (t', r) \<and> btable_ok ks t' \<and> absb t' = c"
  using AddHashtable_ok [OF assms(1,2), of delta] assms(2,3)
  by (auto simp: btbl_add_def Let_def split: if_splits)

end
