(* ===== verification/Senders.thy ===== *)
theory Senders
  imports WaitLists
begin

text \<open>
  The sending side of \<^verbatim>\<open>common/remote.c\<close> (lines 1263 to 1812) and the connection table: message
  headers, the answers, the broadcasts to all connections with an incoming side, and the setting up of
  connections. A message is a frame of one byte call, seven bytes of length and the body; what a
  connection has been sent is a byte stream per socket.
\<close>

section \<open>Call numbers\<close>

definition API_REQUEST_CONNECTION :: i64 where "API_REQUEST_CONNECTION = 0x00"
definition API_REQUEST_MEM_PAGE :: i64 where "API_REQUEST_MEM_PAGE = 0x02"
definition API_QUERY_OBJECT :: i64 where "API_QUERY_OBJECT = 0x04"
definition API_PUSH_OBJECT :: i64 where "API_PUSH_OBJECT = 0x06"
definition API_REQUEST_PATH :: i64 where "API_REQUEST_PATH = 0x08"
definition API_CALL_WORKER :: i64 where "API_CALL_WORKER = 0x10"
definition API_GET_HIVE_STATE :: i64 where "API_GET_HIVE_STATE = 0x12"
definition API_REQUEST_ID :: i64 where "API_REQUEST_ID = 0xFE"
definition API_REQUEST_PATH_TO_ID :: i64 where "API_REQUEST_PATH_TO_ID = 0xFC"

definition answer_to :: "i64 \<Rightarrow> i64" where
  "answer_to call = (call OR 0x1)"

lemmas api_numbers = API_REQUEST_CONNECTION_def API_REQUEST_MEM_PAGE_def API_QUERY_OBJECT_def
  API_PUSH_OBJECT_def API_REQUEST_PATH_def API_CALL_WORKER_def API_GET_HIVE_STATE_def
  API_REQUEST_ID_def API_REQUEST_PATH_TO_ID_def answer_to_def

section \<open>Frames\<close>

text \<open>
  The header as the senders initialise it: the length is one byte of the array initialiser, and the
  other six bytes are zero, so lengths are truncated modulo 256.
\<close>

definition header :: "i64 \<Rightarrow> i64 \<Rightarrow> byte list" where
  "header call len = [ucast call, ucast len, 0, 0, 0, 0, 0, 0]"

definition SendPageAllocationConfirm :: "conn \<Rightarrow> byte list \<Rightarrow> hive \<Rightarrow> hive" where
  "SendPageAllocationConfirm con broadcast_id s =
     emitData (c_outgoing con)
       (header (answer_to API_REQUEST_MEM_PAGE) 27 @ take BROADCAST_ID_LENGTH broadcast_id) s"

definition SendIDConfirm :: "conn \<Rightarrow> byte list \<Rightarrow> hive \<Rightarrow> hive" where
  "SendIDConfirm con broadcast_id s =
     emitData (c_outgoing con)
       (header (answer_to API_REQUEST_ID) 27 @ take BROADCAST_ID_LENGTH broadcast_id) s"

definition count_requests :: "i64 \<Rightarrow> nat \<Rightarrow> hive \<Rightarrow> hive option" where
  "count_requests ptr n s =
     (case h_broadcasts s ptr of
        None \<Rightarrow> None
      | Some b \<Rightarrow> Some (s\<lparr>h_broadcasts := (h_broadcasts s)(ptr \<mapsto>
          b\<lparr>br_requested := br_requested b + word_of_nat n\<rparr>)\<rparr>))"

definition RedirectBroadcastQuery :: "i64 \<Rightarrow> byte list \<Rightarrow> i64 \<Rightarrow> i64 \<Rightarrow> hive \<Rightarrow> hive option" where
  "RedirectBroadcastQuery page_id broadcast_id except_this_local_id send_counter s =
     (let message = header API_REQUEST_MEM_PAGE 0x20 @ le_bytes 5 page_id @
            take BROADCAST_ID_LENGTH broadcast_id;
          targets = broadcast_targets (Some except_this_local_id) s
      in count_requests send_counter (length targets) (send_to targets message s))"

definition RedirectBroadcastIDQuery :: "i64 \<Rightarrow> byte list \<Rightarrow> i64 \<Rightarrow> i64 \<Rightarrow> hive \<Rightarrow> hive option" where
  "RedirectBroadcastIDQuery want_id broadcast_id except_this_local_id send_counter s =
     (let message = header API_REQUEST_ID (8 + 27) @ le_bytes 8 want_id @
            take BROADCAST_ID_LENGTH broadcast_id;
          targets = broadcast_targets (Some except_this_local_id) s
      in count_requests send_counter (length targets) (send_to targets message s))"

section \<open>Connections\<close>

text \<open>
  A dial takes the next socket the system supplies, or fails (\<^verbatim>\<open>socket\<close>, \<^verbatim>\<open>connect\<close> and the
  resolution of the address together).
\<close>

definition dial :: "hive \<Rightarrow> hive \<times> i64" where
  "dial s = (s\<lparr>h_dial_pos := h_dial_pos s + 1\<rparr>, h_dial s (h_dial_pos s))"

definition ConfirmConnection :: "i64 \<Rightarrow> i64 \<Rightarrow> i64 \<Rightarrow> hive \<Rightarrow> hive" where
  "ConfirmConnection local_id reply_id port s =
     (let (s, sock) = dial s in
      if sock = INVALID_SOCKET then s
      else emitData sock (le_bytes 8 reply_id)
             (emitData sock [0x01, 0x08, 0, 0, 0, 0, 0, 0]
               (update_conn local_id (\<lambda>c. c\<lparr>c_outgoing := sock\<rparr>) s)))"

definition InitiateConnection :: "hive \<Rightarrow> (hive \<times> i64) option" where
  "InitiateConnection s =
     (if h_server_port s = -1 then Some (s, -1)
      else let (s, sock) = dial s in
        if sock = INVALID_SOCKET then Some (s, -1)
        else if 1024 \<le> length (h_conns s) then None
        else
          let local_id = h_next_local_id s;
              con = \<lparr>c_local_id = local_id, c_ctx = None, c_outgoing = sock,
                     c_wait_list_len = INT_INFINITY, c_queue_len = INT_INFINITY, c_idle_time = 0\<rparr>;
              s = s\<lparr>h_next_local_id := local_id + 1, h_conns := h_conns s @ [con]\<rparr>;
              s = emitData sock (header API_REQUEST_CONNECTION 0x10) s;
              s = emitData sock (le_bytes 8 local_id) s;
              s = emitData sock (le_bytes 8 (h_server_port s)) s
          in Some (s, local_id))"

definition HandleNewConnection :: "i64 \<Rightarrow> hive \<Rightarrow> hive option" where
  "HandleNewConnection client s =
     (if 1024 \<le> length (h_conns s) then None
      else
        let ctx = \<lparr>x_socket = client, x_api_call = 0, x_buffer_len = -1, x_current_len = 0,
                   x_buffer = replicate 4096 0\<rparr>;
            con = \<lparr>c_local_id = h_next_local_id s, c_ctx = Some ctx, c_outgoing = INVALID_SOCKET,
                   c_wait_list_len = INT_INFINITY, c_queue_len = INT_INFINITY, c_idle_time = 0\<rparr>
        in Some (s\<lparr>h_next_local_id := h_next_local_id s + 1, h_conns := h_conns s @ [con]\<rparr>))"

section \<open>Answers\<close>

definition AnswerPushObject :: "conn \<Rightarrow> i64 \<Rightarrow> i64 \<Rightarrow> i64 \<Rightarrow> i64 \<Rightarrow> hive \<Rightarrow> hive" where
  "AnswerPushObject con object_id offset sz hash s =
     (let sock = c_outgoing con;
          s = emitData sock (header (answer_to API_PUSH_OBJECT) 32) s;
          s = emitData sock (le_bytes 8 object_id) s;
          s = emitData sock (le_bytes 8 offset) s;
          s = emitData sock (le_bytes 8 sz) s
      in emitData sock (le_bytes 8 hash) s)"

text \<open>\<open>data\<close> are the bytes the buffer pointer gives access to; sending more than that is undefined.\<close>

definition AnswerQueryObject :: "conn \<Rightarrow> byte list \<Rightarrow> i64 \<Rightarrow> i64 \<Rightarrow> i64 \<Rightarrow> hive \<Rightarrow> hive option" where
  "AnswerQueryObject con data object_id offset sz s =
     (if 0 \<le>s sz \<and> unat sz \<le> length data then
        let sock = c_outgoing con;
            s = emitData sock (header (answer_to API_QUERY_OBJECT) (24 + sz)) s;
            s = emitData sock (le_bytes 8 object_id) s;
            s = emitData sock (le_bytes 8 offset) s;
            s = emitData sock (le_bytes 8 sz) s
        in Some (emitData sock (take (unat sz) data) s)
      else None)"

definition AnswerRequestObjectPath :: "i64 \<Rightarrow> i64 \<Rightarrow> hive \<Rightarrow> hive" where
  "AnswerRequestObjectPath object_id distance s =
     send_to (broadcast_targets None s)
       (header (answer_to API_REQUEST_PATH) 16 @ le_bytes 8 object_id @ le_bytes 8 distance) s"

definition forget_distance :: "i64 \<Rightarrow> hive \<Rightarrow> hive option" where
  "forget_distance ptr s =
     (if ptr = 0 then Some s
      else case h_paths s ptr of
          None \<Rightarrow> None
        | Some p \<Rightarrow> Some (s\<lparr>h_paths := (h_paths s)(ptr \<mapsto> p\<lparr>pa_distance := INFINITY_DISTANCE\<rparr>)\<rparr>))"

definition RequestObjectPathBroadcast :: "i64 \<Rightarrow> i64 \<Rightarrow> hive \<Rightarrow> hive option" where
  "RequestObjectPathBroadcast object_id except_this_local_id s =
     do { s \<leftarrow> forget_distance (tbl_get (h_object_paths s) object_id) s;
          let (s, broadcast_id) = SECURE_RANDOM BROADCAST_ID_LENGTH s;
          Some (send_to (broadcast_targets (Some except_this_local_id) s)
            (header API_REQUEST_PATH (8 + 27) @ le_bytes 8 object_id @ broadcast_id) s) }"

definition AnswerRequestPathToID :: "i64 \<Rightarrow> i64 \<Rightarrow> hive \<Rightarrow> hive" where
  "AnswerRequestPathToID global_id distance s =
     send_to (broadcast_targets None s)
       (header (answer_to API_REQUEST_PATH) 16 @ le_bytes 8 global_id @ le_bytes 8 distance) s"

definition RequestPathToIDBroadcast :: "i64 \<Rightarrow> i64 \<Rightarrow> hive \<Rightarrow> hive option" where
  "RequestPathToIDBroadcast global_id except_this_local_id s =
     do { s \<leftarrow> forget_distance (tbl_get (h_global_id_paths s) global_id) s;
          let (s, broadcast_id) = SECURE_RANDOM BROADCAST_ID_LENGTH s;
          Some (send_to (broadcast_targets (Some except_this_local_id) s)
            (header API_REQUEST_PATH (8 + 27) @ le_bytes 8 global_id @ broadcast_id) s) }"

definition SendHiveState :: "hive \<Rightarrow> hive" where
  "SendHiveState s =
     send_to (broadcast_targets None s)
       (header API_GET_HIVE_STATE 24 @ le_bytes 8 (h_wait_list_len s) @
        le_bytes 8 (sd_len (h_sched s)) @ le_bytes 8 0) s"

text \<open>
  One turn of \<^verbatim>\<open>StateSender\<close>: the start time is subtracted the wrong way round. \<open>time\<close> is the time
  of the last sending.
\<close>

definition StateSender_turn :: "i64 \<Rightarrow> hive \<Rightarrow> hive \<times> i64" where
  "StateSender_turn time s =
     (let (s, now) = GetTicks s in
      if 50000 <s time - now
      then (let (s, time) = GetTicks s in (SendHiveState s, time))
      else (s, time))"

text \<open>
  \<^verbatim>\<open>worker_id\<close> indexes the fixed table of workers; the length byte is that of the input table plus 16.
\<close>

definition StartNewWorkerRemote :: "i64 \<Rightarrow> i64 \<Rightarrow> i64 \<Rightarrow> byte list \<Rightarrow> hive \<Rightarrow> hive option" where
  "StartNewWorkerRemote local_id worker_id global_id inputTable s =
     (case GetConnectionById local_id s of
        None \<Rightarrow> None
      | Some con \<Rightarrow>
          if unat worker_id < length (h_workers s) then
            let sz = wi_input_size (h_workers s ! unat worker_id);
                sock = c_outgoing con;
                s = s\<lparr>h_stat_output := h_stat_output s + 1\<rparr>;
                s = update_conn local_id (\<lambda>c. c\<lparr>c_queue_len := c_queue_len c + 1\<rparr>) s;
                s = emitData sock (header API_CALL_WORKER (16 + sz)) s;
                s = emitData sock (le_bytes 8 worker_id) s;
                s = emitData sock (le_bytes 8 global_id) s
            in if 0 \<le>s sz \<and> unat sz \<le> length inputTable
               then Some (emitData sock (take (unat sz) inputTable) s) else None
          else None)"

end
