(* ===== verification/Allocators.thy ===== *)
theory Allocators
  imports Hive
begin

text \<open>
  \<^verbatim>\<open>common/allocators.c\<close>: the three free lists (paused workers, queued workers, nodes of the wait
  list) and the wait list itself. A free list is the list of its addresses; its links lie in the freed
  structures, which the C code overwrites. One interface, \<open>pool\<close>, states what the runtime relies
  on; it is interpreted on the queued workers and on the nodes.
\<close>

section \<open>The interface\<close>

locale pool =
  fixes alloc :: "'s \<Rightarrow> ('s \<times> i64) option"
    and release :: "i64 \<Rightarrow> 's \<Rightarrow> 's"
    and live :: "'s \<Rightarrow> i64 set"
    and inv :: "'s \<Rightarrow> bool"
  assumes alloc_law: "inv s \<Longrightarrow> alloc s = Some (s', a) \<Longrightarrow>
      inv s' \<and> a \<noteq> 0 \<and> a \<notin> live s \<and> live s' = insert a (live s)"
    and release_law: "inv s \<Longrightarrow> a \<in> live s \<Longrightarrow> inv (release a s) \<and> live (release a s) = live s - {a}"
begin

text \<open>
  A sequence of requests: \<open>None\<close> allocates, \<open>Some i\<close> releases the \<open>i\<close>-th of the addresses that are out.
  What is live and not out is what was live before, as the client has not released it.
\<close>

fun run :: "nat option list \<Rightarrow> i64 list \<Rightarrow> 's \<Rightarrow> ('s \<times> i64 list) option" where
  "run [] out s = Some (s, out)"
| "run (None # rs) out s = (case alloc s of None \<Rightarrow> None | Some (s', a) \<Rightarrow> run rs (out @ [a]) s')"
| "run (Some i # rs) out s =
     (if i < length out then run rs (take i out @ drop (Suc i) out) (release (out ! i) s) else None)"

lemma run_distinct:
  "run rs out s = Some (s', out') \<Longrightarrow> inv s \<Longrightarrow> distinct out \<Longrightarrow> set out \<subseteq> live s \<Longrightarrow>
   inv s' \<and> distinct out' \<and> set out' \<subseteq> live s' \<and> live s' - set out' = live s - set out"
proof (induction rs out s rule: run.induct)
  case (2 rs out s)
  then obtain s1 a where a: "alloc s = Some (s1, a)" "run rs (out @ [a]) s1 = Some (s', out')"
    by (auto split: option.splits)
  show ?case
    using "2.IH" [OF a(1) refl a(2)] alloc_law [OF "2.prems"(2) a(1)] "2.prems"(3,4) by auto
next
  case (3 i rs out s)
  let ?rest = "take i out @ drop (Suc i) out"
  have i: "i < length out" and r: "run rs ?rest (release (out ! i) s) = Some (s', out')"
    using "3.prems"(1) by (auto split: if_splits)
  have split: "out = take i out @ out ! i # drop (Suc i) out" using i by (rule id_take_nth_drop)
  have "distinct (take i out @ out ! i # drop (Suc i) out)" using "3.prems"(3) split by simp
  then have d: "distinct ?rest" "out ! i \<notin> set ?rest" by auto
  have out: "set out = insert (out ! i) (set ?rest)" by (subst split) auto
  have l: "out ! i \<in> live s" using "3.prems"(4) i by auto
  note rel = release_law [OF "3.prems"(2) l]
  have "set ?rest \<subseteq> live (release (out ! i) s)" using "3.prems"(4) out d(2) rel by blast
  then have "inv s' \<and> distinct out' \<and> set out' \<subseteq> live s' \<and> live s' - set out' = live (release (out ! i) s) - set ?rest"
    using "3.IH" [OF i r] rel d(1) by blast
  moreover have "live (release (out ! i) s) - set ?rest = live s - set out" using rel out by blast
  ultimately show ?case by simp
qed auto

end

section \<open>Paused workers\<close>

text \<open>
  A recycled structure keeps its fields, \<^verbatim>\<open>queued\<close> among them; a fresh one is zero.
\<close>

definition zero_waiting :: waiting_worker where
  "zero_waiting = \<lparr>w_state = NewObjectWaitPages 0 0 0, w_queued = 0, w_links = 0, w_id = 0, w_depth = 0,
     w_data = 0, w_rbp = 0, w_context = replicate 14 0\<rparr>"

definition AllocateWaitingWorker :: "hive \<Rightarrow> (hive \<times> i64) option" where
  "AllocateWaitingWorker s =
     (case h_free_waiting s of
        a # rest \<Rightarrow> Some (s\<lparr>h_free_waiting := rest\<rparr>, a)
      | [] \<Rightarrow>
          (case myMalloc 176 s of
             None \<Rightarrow> None
           | Some (s, a) \<Rightarrow> Some (s\<lparr>h_waiting := (h_waiting s)(a \<mapsto> zero_waiting)\<rparr>, a)))"

definition FreeWaitingWorkerBase :: "i64 \<Rightarrow> hive \<Rightarrow> hive" where
  "FreeWaitingWorkerBase t s = (if t = 0 then s else s\<lparr>h_free_waiting := t # h_free_waiting s\<rparr>)"

section \<open>Queued workers\<close>

text \<open>
  A fresh structure is zero. A released one keeps its bytes, in \<open>h_stale_queued\<close>, except that
  the link to the next free structure lies over its first field; with them it is handed out again.
\<close>

definition zero_queued :: queued_worker where
  "zero_queued = \<lparr>k_id = 0, k_depth = 0, k_data = 0, k_rdi = 0, k_rbp = 0, k_context = replicate 14 0\<rparr>"

definition AllocateQueuedWorker :: "hive \<Rightarrow> (hive \<times> i64) option" where
  "AllocateQueuedWorker s =
     (case h_free_queued s of
        a # rest \<Rightarrow> Some (s\<lparr>h_free_queued := rest, h_queued := (h_queued s)(a \<mapsto> h_stale_queued s a)\<rparr>, a)
      | [] \<Rightarrow>
          (case myMalloc 152 s of
             None \<Rightarrow> None
           | Some (s, a) \<Rightarrow> Some (s\<lparr>h_queued := (h_queued s)(a \<mapsto> zero_queued)\<rparr>, a)))"

definition FreeQueuedWorker :: "i64 \<Rightarrow> hive \<Rightarrow> hive" where
  "FreeQueuedWorker t s =
     (if t = 0 then s
      else let g_free_workers = (case h_free_queued s of [] \<Rightarrow> 0 | a # _ \<Rightarrow> a);
               old = (case h_queued s t of Some q \<Rightarrow> q | None \<Rightarrow> h_stale_queued s t)
           in s\<lparr>h_queued := (h_queued s)(t := None),
                h_stale_queued := (h_stale_queued s)(t := old\<lparr>k_id := g_free_workers\<rparr>),
                h_free_queued := t # h_free_queued s\<rparr>)"

section \<open>The wait list\<close>

text \<open>
  The list of \<^verbatim>\<open>wait_list_node\<close> structures, each with its worker. Its length counter is set to 0 when
  the list is taken as a whole and may differ from the length.
\<close>

definition WaitListNode :: "i64 \<Rightarrow> i64 \<Rightarrow> hive \<Rightarrow> hive" where
  "WaitListNode node worker s =
     s\<lparr>h_wait_list := (node, worker) # h_wait_list s, h_wait_list_len := h_wait_list_len s + 1\<rparr>"

definition take_node :: "hive \<Rightarrow> (hive \<times> i64) option" where
  "take_node s =
     (case h_free_nodes s of
        a # rest \<Rightarrow> Some (s\<lparr>h_free_nodes := rest\<rparr>, a)
      | [] \<Rightarrow> myMalloc 16 s)"

definition WaitListWorker :: "i64 \<Rightarrow> hive \<Rightarrow> hive option" where
  "WaitListWorker t s =
     (case take_node s of None \<Rightarrow> None | Some (s, node) \<Rightarrow> Some (WaitListNode node t s))"

definition FreeWaitingNode :: "i64 \<Rightarrow> hive \<Rightarrow> hive" where
  "FreeWaitingNode node s = (if node = 0 then s else s\<lparr>h_free_nodes := node # h_free_nodes s\<rparr>)"

section \<open>The pool of queued workers\<close>

definition queued_pool_ok :: "hive \<Rightarrow> bool" where
  "queued_pool_ok s \<longleftrightarrow> heap_ok s \<and> distinct (h_free_queued s) \<and>
     (\<forall>a. a \<in> set (h_free_queued s) \<longrightarrow> a < h_brk s \<and> a \<noteq> 0 \<and> h_queued s a = None) \<and>
     h_queued s 0 = None"

lemma AllocateQueuedWorker_ok:
  assumes "queued_pool_ok s" "AllocateQueuedWorker s = Some (s', a)"
  shows "queued_pool_ok s'" "a \<noteq> 0" "h_queued s a = None"
    "\<exists>q. h_queued s' = (h_queued s)(a \<mapsto> q)"
proof -
  have h: "heap_ok s" and d: "distinct (h_free_queued s)"
    and f: "\<And>x. x \<in> set (h_free_queued s) \<Longrightarrow> x < h_brk s \<and> x \<noteq> 0 \<and> h_queued s x = None"
    and z: "h_queued s 0 = None"
    using assms(1) by (auto simp: queued_pool_ok_def)
  have "queued_pool_ok s' \<and> a \<noteq> 0 \<and> h_queued s a = None \<and> (\<exists>q. h_queued s' = (h_queued s)(a \<mapsto> q))"
  proof (cases "h_free_queued s")
    case (Cons x rest)
    then have s': "s' = s\<lparr>h_free_queued := rest, h_queued := (h_queued s)(x \<mapsto> h_stale_queued s x)\<rparr>" "a = x"
      using assms(2) by (auto simp: AllocateQueuedWorker_def)
    have x: "x < h_brk s" "x \<noteq> 0" "h_queued s x = None" using f [of x] Cons by auto
    have "heap_ok s'" using h x(1) by (auto simp: heap_ok_def s')
    moreover have "distinct rest" "x \<notin> set rest" using d Cons by auto
    moreover have "y < h_brk s \<and> y \<noteq> 0 \<and> h_queued s y = None \<and> y \<noteq> x" if "y \<in> set rest" for y
      using f [of y] that Cons \<open>x \<notin> set rest\<close> by auto
    ultimately show ?thesis using x z by (auto simp: queued_pool_ok_def s')
  next
    case Nil
    then obtain s1 where m: "myMalloc 152 s = Some (s1, a)"
      and s': "s' = s1\<lparr>h_queued := (h_queued s1)(a \<mapsto> zero_queued)\<rparr>"
      using assms(2) by (auto simp: AllocateQueuedWorker_def split: option.splits)
    note mo = myMalloc_ok [OF m h]
    have s1: "s1 = s\<lparr>h_brk := h_brk s1\<rparr>" by (rule mo(5))
    have eq: "h_queued s1 = h_queued s" "h_free_queued s1 = []" using Nil by (subst s1, simp)+
    have "heap_ok s'" using mo(1,2) by (auto simp: heap_ok_def s')
    then show ?thesis using mo(7,10) z eq by (auto simp: queued_pool_ok_def s')
  qed
  then show "queued_pool_ok s'" "a \<noteq> 0" "h_queued s a = None" "\<exists>q. h_queued s' = (h_queued s)(a \<mapsto> q)"
    by auto
qed

lemma AllocateQueuedWorker_frame:
  "AllocateQueuedWorker s = Some (s', a) \<Longrightarrow>
   s' = s\<lparr>h_brk := h_brk s', h_free_queued := h_free_queued s', h_queued := h_queued s'\<rparr>"
  by (auto simp: AllocateQueuedWorker_def myMalloc_def Let_def split: list.splits option.splits if_splits)

lemma AllocateQueuedWorker_brk:
  "AllocateQueuedWorker s = Some (s', a) \<Longrightarrow> unat (h_brk s') \<le> unat (h_brk s) + 160"
  by (auto simp: AllocateQueuedWorker_def myMalloc_def Let_def unat_word_ariths
      split: list.splits option.splits if_splits)

lemma AllocateQueuedWorker_returns:
  assumes "unat (h_brk s) + 160 < 2 ^ 63"
  obtains s' a where "AllocateQueuedWorker s = Some (s', a)"
  using assms by (cases "h_free_queued s") (auto simp: AllocateQueuedWorker_def myMalloc_def)

interpretation queued: pool AllocateQueuedWorker FreeQueuedWorker "\<lambda>s. dom (h_queued s)" queued_pool_ok
proof
  fix s s' a assume "queued_pool_ok s" "AllocateQueuedWorker s = Some (s', a)"
  note ok = AllocateQueuedWorker_ok [OF this]
  show "queued_pool_ok s' \<and> a \<noteq> 0 \<and> a \<notin> dom (h_queued s) \<and> dom (h_queued s') = insert a (dom (h_queued s))"
    using ok by auto
next
  fix s a assume ok: "queued_pool_ok s" and live: "a \<in> dom (h_queued s)"
  have h: "heap_ok s" and d: "distinct (h_free_queued s)"
    and f: "\<And>x. x \<in> set (h_free_queued s) \<Longrightarrow> x < h_brk s \<and> x \<noteq> 0 \<and> h_queued s x = None"
    and z: "h_queued s 0 = None"
    using ok by (auto simp: queued_pool_ok_def)
  obtain q where q: "h_queued s a = Some q" using live by blast
  have a: "a \<noteq> 0" "a \<notin> set (h_free_queued s)" using q z f [of a] by auto
  have lt: "a < h_brk s"
  proof (rule ccontr)
    assume "\<not> a < h_brk s"
    then show False using h q by (simp add: heap_ok_def not_less)
  qed
  have "heap_ok (FreeQueuedWorker a s)" using h by (simp add: heap_ok_def FreeQueuedWorker_def Let_def)
  then show "queued_pool_ok (FreeQueuedWorker a s) \<and> dom (h_queued (FreeQueuedWorker a s)) = dom (h_queued s) - {a}"
    using a lt d f z by (simp add: queued_pool_ok_def FreeQueuedWorker_def Let_def)
qed

section \<open>The pool of nodes\<close>

text \<open>
  A node is in use while it is in the wait list. Taking a node and putting it on the list are one
  operation, \<^verbatim>\<open>WaitListWorker\<close>.
\<close>

definition node_pool_ok :: "hive \<Rightarrow> bool" where
  "node_pool_ok s \<longleftrightarrow> heap_ok s \<and> distinct (h_free_nodes s @ map fst (h_wait_list s)) \<and>
     (\<forall>a. a \<in> set (h_free_nodes s @ map fst (h_wait_list s)) \<longrightarrow> a < h_brk s \<and> a \<noteq> 0)"

lemma WaitListWorker_ok:
  assumes "node_pool_ok s" "WaitListWorker w s = Some s'"
  shows "node_pool_ok s'" "\<exists>node. node \<noteq> 0 \<and> node \<notin> fst ` set (h_wait_list s) \<and>
    h_wait_list s' = (node, w) # h_wait_list s"
proof -
  obtain s1 node where t: "take_node s = Some (s1, node)" and s': "s' = WaitListNode node w s1"
    using assms(2) by (auto simp: WaitListWorker_def split: option.splits)
  have h: "heap_ok s" and d: "distinct (h_free_nodes s @ map fst (h_wait_list s))"
    and b: "\<And>x. x \<in> set (h_free_nodes s @ map fst (h_wait_list s)) \<Longrightarrow> x < h_brk s \<and> x \<noteq> 0"
    using assms(1) unfolding node_pool_ok_def by blast+
  have "node_pool_ok s' \<and> node \<noteq> 0 \<and> node \<notin> fst ` set (h_wait_list s) \<and> h_wait_list s' = (node, w) # h_wait_list s"
  proof (cases "h_free_nodes s")
    case (Cons x rest)
    then have s1: "s1 = s\<lparr>h_free_nodes := rest\<rparr>" "node = x" using t by (auto simp: take_node_def)
    have "heap_ok s'" using h by (simp add: heap_ok_def s' s1 WaitListNode_def)
    then show ?thesis using d b Cons by (auto simp: node_pool_ok_def s' s1 WaitListNode_def)
  next
    case Nil
    then have m: "myMalloc 16 s = Some (s1, node)" using t by (simp add: take_node_def)
    note mo = myMalloc_ok [OF m h]
    have s1: "s1 = s\<lparr>h_brk := h_brk s1\<rparr>" by (rule mo(5))
    have eq: "h_free_nodes s1 = []" "h_wait_list s1 = h_wait_list s" using Nil by (subst s1, simp)+
    have new: "node \<notin> fst ` set (h_wait_list s)" using b mo(4) by fastforce
    have "heap_ok s'" using mo(1) by (simp add: heap_ok_def s' WaitListNode_def)
    moreover have "x < h_brk s1 \<and> x \<noteq> 0" if "x \<in> fst ` set (h_wait_list s)" for x
      using b [of x] that mo(3) by (auto intro: less_le_trans)
    ultimately show ?thesis using d mo(2,7) eq new by (auto simp: node_pool_ok_def s' WaitListNode_def)
  qed
  then show "node_pool_ok s'" "\<exists>node. node \<noteq> 0 \<and> node \<notin> fst ` set (h_wait_list s) \<and>
    h_wait_list s' = (node, w) # h_wait_list s" by auto
qed

section \<open>Properties\<close>

text \<open>
  C22. The free list of queued workers never gives out an address twice: after any sequence of allocations
  and releases of what was allocated, the addresses that are out are distinct and not 0, none of them is the
  address of a worker that was queued before, and they and the workers that were queued before are
  all the queued workers; and the address that the next allocation gives out is not the address of
  a queued worker.
\<close>

theorem queued_workers_distinct:
  assumes "queued_pool_ok s" "queued.run requests [] s = Some (s', out)"
  shows "distinct out \<and> 0 \<notin> set out \<and> set out \<inter> dom (h_queued s) = {} \<and>
    dom (h_queued s') = set out \<union> dom (h_queued s) \<and> queued_pool_ok s' \<and>
    (\<forall>s'' a. AllocateQueuedWorker s' = Some (s'', a) \<longrightarrow> a \<noteq> 0 \<and> a \<notin> dom (h_queued s'))"
proof -
  have run: "queued_pool_ok s' \<and> distinct out \<and> set out \<subseteq> dom (h_queued s') \<and>
      dom (h_queued s') - set out = dom (h_queued s) - set []"
    using queued.run_distinct [OF assms(2,1)] by simp
  then have "0 \<notin> set out" by (auto simp: queued_pool_ok_def)
  moreover have "set out \<inter> dom (h_queued s) = {}" "dom (h_queued s') = set out \<union> dom (h_queued s)"
    using run by auto
  moreover have "a \<noteq> 0 \<and> a \<notin> dom (h_queued s')" if "AllocateQueuedWorker s' = Some (s'', a)" for s'' a
    using AllocateQueuedWorker_ok(2,3) [OF _ that] run by (simp add: domIff)
  ultimately show ?thesis using run by blast
qed

theorem queued_workers_distinct_witness:
  "\<exists>s'. queued.run [None, None, Some 0, None] [] (init_hive 1 [] [] (\<lambda>_. 0) (\<lambda>_. 0) (\<lambda>_. 0) (\<lambda>_. 0)) =
     Some (s', [0x10A0, 0x1000]) \<and> distinct [0x10A0, 0x1000 :: i64] \<and> dom (h_queued s') = {0x10A0, 0x1000}"
proof -
  let ?s = "init_hive 1 [] [] (\<lambda>_. 0) (\<lambda>_. 0) (\<lambda>_. 0) (\<lambda>_. 0)"
  have ok: "queued_pool_ok ?s" using heap_ok_init by (simp add: queued_pool_ok_def init_hive_def)
  obtain s' where run: "queued.run [None, None, Some 0, None] [] ?s = Some (s', [0x10A0, 0x1000])"
    by (simp add: AllocateQueuedWorker_def FreeQueuedWorker_def myMalloc_def init_hive_def)
  have "dom (h_queued ?s) = {}" by (simp add: init_hive_def)
  then show ?thesis using queued_workers_distinct [OF ok run] run by auto
qed

text \<open>
  The wait list never holds a node twice: queueing a paused worker takes a node that is on no list, also
  when it recycles one, and puts the worker in front.
\<close>

theorem wait_list_nodes_distinct:
  assumes "node_pool_ok s" "WaitListWorker w s = Some s'"
  shows "node_pool_ok s' \<and> (\<exists>node. node \<notin> fst ` set (h_wait_list s) \<and> h_wait_list s' = (node, w) # h_wait_list s)"
  using WaitListWorker_ok [OF assms] by blast

theorem wait_list_nodes_distinct_witness:
  "\<exists>s'. WaitListWorker 7 (init_hive 1 [] [] (\<lambda>_. 0) (\<lambda>_. 0) (\<lambda>_. 0) (\<lambda>_. 0)) = Some s' \<and> node_pool_ok s'"
proof -
  let ?s = "init_hive 1 [] [] (\<lambda>_. 0) (\<lambda>_. 0) (\<lambda>_. 0) (\<lambda>_. 0)"
  have ok: "node_pool_ok ?s" using heap_ok_init by (simp add: node_pool_ok_def init_hive_def)
  obtain s' where run: "WaitListWorker 7 ?s = Some s'"
    by (simp add: WaitListWorker_def take_node_def myMalloc_def init_hive_def)
  show ?thesis using wait_list_nodes_distinct [OF ok run] run by auto
qed

end
