(* ===== verification/Workers.thy ===== *)
theory Workers
  imports Senders Allocators
begin

text \<open>
  Workers between running and waiting (\<^verbatim>\<open>common/runtime.c\<close> lines 60 to 180 and 368 to 410,
  \<^verbatim>\<open>common/callbacks.c\<close>, \<^verbatim>\<open>x64/await_worker.c\<close>, \<^verbatim>\<open>x64/call_object.c\<close>, the end of
  \<^verbatim>\<open>x64/execute_worker.c\<close>, and the walks over the wait lists, \<^verbatim>\<open>common/remote.c\<close> lines 371 to
  431): a running worker is paused into a record of its own, waits in a list, and is put back into the
  scheduler when its request is answered.
\<close>

section \<open>New objects\<close>

definition RegisterObjectWithId :: "i64 \<Rightarrow> i64 \<Rightarrow> hive \<Rightarrow> hive option" where
  "RegisterObjectWithId oid ob s =
     (case tbl_insert (h_local_objects s) oid ob of
        None \<Rightarrow> None
      | Some (t, result) \<Rightarrow> if result = 0 then Some (s\<lparr>h_local_objects := t\<rparr>) else None)"

text \<open>The first page that has an id left gives it; the result says whether there was one.\<close>

fun take_id :: "memory_page list \<Rightarrow> memory_page list \<times> i64 option" where
  "take_id [] = ([], None)"
| "take_id (p # ps) =
     (if pg_next p < OBJECTS_PER_PAGE
      then (p\<lparr>pg_next := pg_next p + 1\<rparr> # ps, Some (push_bit 24 (pg_id p) OR word_of_nat (pg_next p)))
      else let (ps, r) = take_id ps in (p # ps, r))"

definition GetNewObjectId :: "hive \<Rightarrow> hive \<times> i64 option" where
  "GetNewObjectId s = (let (ps, r) = take_id (h_pages s) in (s\<lparr>h_pages := ps\<rparr>, r))"

definition x64NewObjectUsingPage :: "i64 \<Rightarrow> i64 \<Rightarrow> i64 \<Rightarrow> i64 \<Rightarrow> hive \<Rightarrow> hive option" where
  "x64NewObjectUsingPage type sz param remote_id s =
     do { r \<leftarrow> new_object_block (h_defined_arrays s) PROVIDER_X64 type sz param;
          (case r of
             None \<Rightarrow> Some s
           | Some ob \<Rightarrow>
               do { (s, res) \<leftarrow> myMalloc (length (ob_block ob)) s;
                    let pointer = res + word_of_nat (ob_base ob);
                    let s = s\<lparr>h_objects := (h_objects s)(pointer \<mapsto> ob)\<rparr>;
                    RegisterObjectWithId remote_id pointer s }) }"

section \<open>Pausing\<close>

definition load_words :: "i64 \<Rightarrow> nat \<Rightarrow> (i64 \<Rightarrow> byte) \<Rightarrow> i64 list" where
  "load_words a n m = map (\<lambda>i. le_word (mem_read (a + word_of_nat (8 * i)) 8 m)) [0..<n]"

definition x64PauseWorker :: "i64 \<Rightarrow> i64 \<Rightarrow> wait_state \<Rightarrow> hive \<Rightarrow> (hive \<times> i64) option" where
  "x64PauseWorker returnAddress rbpValue st s =
     do { (s, t) \<leftarrow> AllocateWaitingWorker s;
          td \<leftarrow> h_thread s;
          w \<leftarrow> h_waiting s t;
          let w = w\<lparr>w_context := load_words (rbpValue - 1024) 14 (h_mem s), w_links := 1,
                    w_id := td_running_id td, w_depth := td_running_depth td, w_data := returnAddress,
                    w_state := st, w_rbp := rbpValue\<rparr>;
          Some (s\<lparr>h_waiting := (h_waiting s)(t \<mapsto> w)\<rparr>, t) }"

definition worker_provider :: "i64 \<Rightarrow> hive \<Rightarrow> i64 option" where
  "worker_provider wid s =
     (if unat wid < length (h_workers s) then Some (wi_provider (h_workers s ! unat wid)) else None)"

text \<open>A worker of another provider ends the process.\<close>

definition universalPauseWorker :: "i64 \<Rightarrow> i64 \<Rightarrow> wait_state \<Rightarrow> hive \<Rightarrow> (hive \<times> i64) option" where
  "universalPauseWorker returnAddress rbpValue st s =
     do { td \<leftarrow> h_thread s;
          provider \<leftarrow> worker_provider (td_running_id td) s;
          if provider = PROVIDER_X64 then x64PauseWorker returnAddress rbpValue st s else None }"

definition set_stallable :: "hive \<Rightarrow> hive option" where
  "set_stallable s = (if h_thread s = None then None else Some s)"

section \<open>Continuing\<close>

definition thread_number :: "hive \<Rightarrow> nat" where
  "thread_number s = (case h_thread s of None \<Rightarrow> 0 | Some td \<Rightarrow> td_number td)"

definition enqueue_worker :: "i64 \<Rightarrow> queued_worker \<Rightarrow> hive \<Rightarrow> hive option" where
  "enqueue_worker t q s =
     (let s = s\<lparr>h_queued := (h_queued s)(t \<mapsto> q)\<rparr> in
      if unat (k_id q) < length (h_workers s) then
        (case scheduler_enqueue (h_sched s) (wi_affinity (h_workers s ! unat (k_id q))) 1 t (thread_number s) of
           None \<Rightarrow> None
         | Some sd \<Rightarrow> Some (s\<lparr>h_sched := sd\<rparr>))
      else None)"

text \<open>Only the first call for a paused worker queues it.\<close>

definition EnqueueWorkerFromWaitList :: "i64 \<Rightarrow> i64 \<Rightarrow> hive \<Rightarrow> hive option" where
  "EnqueueWorkerFromWaitList p rdi_value s =
     do { w \<leftarrow> h_waiting s p;
          if w_queued w \<noteq> 0 then Some s
          else do {
            let s = s\<lparr>h_waiting := (h_waiting s)(p \<mapsto> w\<lparr>w_queued := 1\<rparr>)\<rparr>;
            (s, t) \<leftarrow> AllocateQueuedWorker s;
            enqueue_worker t \<lparr>k_id = w_id w, k_depth = w_depth w, k_data = w_data w, k_rdi = rdi_value,
              k_rbp = w_rbp w, k_context = w_context w\<rparr> s } }"

definition FreeWaitingWorker :: "i64 \<Rightarrow> hive \<Rightarrow> hive option" where
  "FreeWaitingWorker p s =
     do { w \<leftarrow> h_waiting s p;
          provider \<leftarrow> worker_provider (w_id w) s;
          if provider = PROVIDER_X64 \<or> provider = PROVIDER_DLL
          then Some (s\<lparr>h_waiting := (h_waiting s)(p := None)\<rparr>) else None }"

definition release_link :: "i64 \<Rightarrow> hive \<Rightarrow> hive option" where
  "release_link p s =
     do { w \<leftarrow> h_waiting s p;
          let s = s\<lparr>h_waiting := (h_waiting s)(p \<mapsto> w\<lparr>w_links := w_links w - 1\<rparr>)\<rparr>;
          if w_links w <s 1 then None
          else if w_links w = 1 then FreeWaitingWorker p s else Some s }"

definition continue_worker :: "i64 \<Rightarrow> i64 \<Rightarrow> hive \<Rightarrow> hive option" where
  "continue_worker p rdi_value s = EnqueueWorkerFromWaitList p rdi_value s \<bind> release_link p"

section \<open>Starting\<close>

text \<open>
  The input table is copied in front of the address that becomes \<^verbatim>\<open>rbp\<close>; a table of more than 1024
  bytes would be written in front of the buffer. \<open>start_with_buffer\<close> is the part that the providers
  share.
\<close>

definition start_with_buffer ::
  "i64 \<Rightarrow> byte list \<Rightarrow> i64 \<Rightarrow> i64 \<Rightarrow> i64 \<Rightarrow> i64 \<Rightarrow> hive \<Rightarrow> hive option" where
  "start_with_buffer workerId inputTable data t code depth s =
     (let tableSize = wi_input_size (h_workers s ! unat workerId) in
      if 0 \<le>s tableSize \<and> unat tableSize \<le> 1024 \<and> unat tableSize \<le> length inputTable then
        let at = data + 1024 - tableSize;
            s = s\<lparr>h_mem := mem_write at (take (unat tableSize) inputTable) (h_mem s)\<rparr>
        in enqueue_worker t \<lparr>k_id = workerId, k_depth = depth, k_data = code, k_rdi = at, k_rbp = data + 1024,
             k_context = replicate 14 0\<rparr> s
      else None)"

definition x64StartNewLocalWorker :: "i64 \<Rightarrow> byte list \<Rightarrow> hive \<Rightarrow> hive option" where
  "x64StartNewLocalWorker workerId inputTable s =
     (let i = unat workerId; wk = h_workers s ! i in
      do { (s, data) \<leftarrow>
             (if wi_next_buffer wk \<noteq> 0
              then Some (s\<lparr>h_workers := (h_workers s)[i := wk\<lparr>wi_next_buffer :=
                     le_word (mem_read (wi_next_buffer wk) 8 (h_mem s))\<rparr>]\<rparr>, wi_next_buffer wk)
              else myMalloc (1024 + 2048) s);
           (s, t) \<leftarrow> AllocateQueuedWorker s;
           start_with_buffer workerId inputTable data t (wi_start wk)
             (case h_thread s of None \<Rightarrow> 0 | Some td \<Rightarrow> td_running_depth td) s })"

text \<open>\<^verbatim>\<open>Workers[workerId].data\<close> of the other two providers is the entry of their record; the GPU one reads the thread data unguarded.\<close>

definition dllStartNewLocalWorker :: "i64 \<Rightarrow> byte list \<Rightarrow> hive \<Rightarrow> hive option" where
  "dllStartNewLocalWorker workerId inputTable s =
     do { (s, data) \<leftarrow> myMalloc (1024 + 2048) s;
          (s, t) \<leftarrow> myMalloc 152 s;
          start_with_buffer workerId inputTable data t (wi_start (h_workers s ! unat workerId))
            (case h_thread s of None \<Rightarrow> 0 | Some td \<Rightarrow> td_running_depth td + 1) s }"

definition gpuStartNewLocalWorker :: "i64 \<Rightarrow> byte list \<Rightarrow> hive \<Rightarrow> hive option" where
  "gpuStartNewLocalWorker workerId inputTable s =
     (if h_thread s = None then None else dllStartNewLocalWorker workerId inputTable s)"

definition start_local_worker :: "i64 \<Rightarrow> byte list \<Rightarrow> hive \<Rightarrow> hive option" where
  "start_local_worker workerId inputTable s =
     do { provider \<leftarrow> worker_provider workerId s;
          if provider = PROVIDER_X64 then x64StartNewLocalWorker workerId inputTable s
          else if provider = PROVIDER_GPU then gpuStartNewLocalWorker workerId inputTable s
          else if provider = PROVIDER_DLL then dllStartNewLocalWorker workerId inputTable s
          else if provider = PROVIDER_LOC then Some s
          else None }"

text \<open>The random number is taken modulo the number of connections with its sign.\<close>

definition runs_remote :: "i64 \<Rightarrow> i64 \<Rightarrow> hive \<Rightarrow> bool" where
  "runs_remote rnd global_id s =
     (let random_confirm = rnd AND 0x80000000 \<noteq> 0 \<and>
            sint rnd smod 100 < 5 * sint (h_wait_list_len s + sd_len (h_sched s))
      in (random_confirm \<or> global_id \<noteq> 0) \<and> global_id \<noteq> 1 \<or> global_id = 2)"

definition accepts_remote :: "conn \<Rightarrow> i64 \<Rightarrow> bool" where
  "accepts_remote c global_id \<longleftrightarrow> c_outgoing c \<noteq> INVALID_SOCKET \<and>
     (c_wait_list_len c <s 50 \<and> c_queue_len c <s 30 \<or> c_queue_len c = 0 \<or> global_id = 2)"

definition StartNewWorker :: "i64 \<Rightarrow> i64 \<Rightarrow> byte list \<Rightarrow> hive \<Rightarrow> hive option" where
  "StartNewWorker workerId global_id inputTable s =
     (let (s, r) = SECURE_RANDOM 8 s; rnd = myAbs (le_word r) in
      if runs_remote rnd global_id s \<and> h_conns s \<noteq> [] then
        if rnd <s 0 then None
        else let c = h_conns s ! (unat rnd mod length (h_conns s)) in
          if accepts_remote c global_id
          then StartNewWorkerRemote (c_local_id c) workerId (if bit global_id 63 then global_id else 0) inputTable s
          else start_local_worker workerId inputTable s
      else start_local_worker workerId inputTable s)"

text \<open>After an x64 worker has run, its buffer is linked in front of the free buffers of its kind.\<close>

definition x64FinishWorker :: "i64 \<Rightarrow> hive \<Rightarrow> hive option" where
  "x64FinishWorker p s =
     do { td \<leftarrow> h_thread s;
          q \<leftarrow> h_queued s p;
          let i = unat (td_running_id td);
          let basebuffer = k_rbp q - 1024;
          if i < length (h_workers s) then
            let wk = h_workers s ! i;
                s = s\<lparr>h_mem := mem_write basebuffer (le_bytes 8 (wi_next_buffer wk)) (h_mem s),
                      h_workers := (h_workers s)[i := wk\<lparr>wi_next_buffer := basebuffer\<rparr>]\<rparr>
            in Some (FreeQueuedWorker p s)
          else None }"

section \<open>Facts\<close>

lemma mem_read_write:
  assumes "length d < 2 ^ 64"
  shows "mem_read a (length d) (mem_write a d m) = d"
proof (rule nth_equalityI)
  fix i assume "i < length (mem_read a (length d) (mem_write a d m))"
  then have i: "i < length d" by (simp add: mem_read_def)
  then have "unat (word_of_nat i :: i64) = i" using assms by (simp add: unat_of_nat)
  then show "mem_read a (length d) (mem_write a d m) ! i = d ! i"
    using i by (simp add: mem_read_def mem_write_def)
qed (simp add: mem_read_def)

text \<open>A hive that can take one more task.\<close>

definition room_for_task :: "nat \<Rightarrow> hive \<Rightarrow> bool" where
  "room_for_task n s \<longleftrightarrow> queued_pool_ok s \<and> sched_ok n (h_sched s) \<and>
     size (sched_tasks (h_sched s)) < RING_SIZE \<and> unat (h_brk s) + 4096 < 2 ^ 63"

lemma enqueue_worker_ok:
  assumes "sched_ok n (h_sched s)" "size (sched_tasks (h_sched s)) < RING_SIZE" "t \<noteq> 0"
    "unat (k_id q) < length (h_workers s)"
  obtains sd where "enqueue_worker t q s = Some (s\<lparr>h_queued := (h_queued s)(t \<mapsto> q), h_sched := sd\<rparr>)"
    "sched_ok n sd" "sched_tasks sd = add_mset t (sched_tasks (h_sched s))"
proof -
  let ?e = "(wi_affinity (h_workers s ! unat (k_id q)), 1, t, thread_number s)"
  have "enqueue_valid ?e" using assms(3) by (simp add: enqueue_valid_def)
  then obtain sd where sd: "enqueue_op (h_sched s) ?e = Some sd" "sched_ok n sd"
    "sched_tasks sd = add_mset (enqueue_task ?e) (sched_tasks (h_sched s))"
    using sched.enter_law [OF assms(1) _ assms(2)] by blast
  have "thread_number (s\<lparr>h_queued := x\<rparr>) = thread_number s" for x by (simp add: thread_number_def)
  then have "enqueue_worker t q s = Some (s\<lparr>h_queued := (h_queued s)(t \<mapsto> q), h_sched := sd\<rparr>)"
    using sd(1) assms(4) by (simp add: enqueue_worker_def enqueue_op_def Let_def)
  then show ?thesis using that sd(2,3) by (simp add: enqueue_task_def)
qed

text \<open>Allocation of a task and its entry into the scheduler, as both ways to start a worker do it.\<close>

lemma queue_new_task:
  assumes "room_for_task n s"
  obtains s1 t old where "AllocateQueuedWorker s = Some (s1, t)" "t \<noteq> 0" "h_queued s t = None"
    "queued_pool_ok s1" "h_queued s1 = (h_queued s)(t \<mapsto> old)"
    "s1 = s\<lparr>h_brk := h_brk s1, h_free_queued := h_free_queued s1, h_queued := h_queued s1\<rparr>"
    "h_sched s1 = h_sched s" "h_workers s1 = h_workers s" "h_thread s1 = h_thread s" "h_mem s1 = h_mem s"
    "h_waiting s1 = h_waiting s"
proof -
  have ok: "queued_pool_ok s" and room: "unat (h_brk s) + 160 < 2 ^ 63" using assms by (auto simp: room_for_task_def)
  obtain s1 t where a: "AllocateQueuedWorker s = Some (s1, t)" using AllocateQueuedWorker_returns [OF room] .
  note fr = AllocateQueuedWorker_frame [OF a]
  have "h_sched s1 = h_sched s" "h_workers s1 = h_workers s" "h_thread s1 = h_thread s" "h_mem s1 = h_mem s"
    "h_waiting s1 = h_waiting s"
    by (subst fr, simp)+
  then show ?thesis using that a fr AllocateQueuedWorker_ok [OF ok a] by blast
qed

lemma queued_pool_ok_update:
  assumes "queued_pool_ok s" "h_queued s t \<noteq> None"
  shows "queued_pool_ok (s\<lparr>h_queued := (h_queued s)(t \<mapsto> q), h_sched := sd\<rparr>)"
proof -
  have "t < h_brk s" "t \<notin> set (h_free_queued s)" "t \<noteq> 0"
    using assms by (auto simp: queued_pool_ok_def heap_ok_def not_le intro: leI)
  then show ?thesis using assms(1) by (auto simp: queued_pool_ok_def heap_ok_def)
qed

lemma room_for_task_init: "0 < n \<Longrightarrow> room_for_task n (init_hive n ws ds r c d j)"
  using heap_ok_init [of n ws ds r c d j] sched_ok_init [of n "c 0"]
  by (simp add: room_for_task_def queued_pool_ok_def init_hive_def sched_tasks_init RING_SIZE_def)

lemma room_for_task_waiting:
  "room_for_task n s \<Longrightarrow> p < h_brk s \<Longrightarrow> room_for_task n (s\<lparr>h_waiting := (h_waiting s)(p \<mapsto> w)\<rparr>)"
  by (auto simp: room_for_task_def queued_pool_ok_def heap_ok_def)

lemma room_for_task_frame [simp]:
  "room_for_task n (s\<lparr>h_get_wait_list := t\<rparr>) = room_for_task n s"
  "room_for_task n (s\<lparr>h_set_wait_list := t\<rparr>) = room_for_task n s"
  "room_for_task n (s\<lparr>h_junk_pos := i\<rparr>) = room_for_task n s"
  "room_for_task n (s\<lparr>h_mem := m\<rparr>) = room_for_task n s"
  by (auto simp: room_for_task_def queued_pool_ok_def heap_ok_def)

lemma worker_provider_frame [simp]:
  "worker_provider i (s\<lparr>h_get_wait_list := t\<rparr>) = worker_provider i s"
  "worker_provider i (s\<lparr>h_set_wait_list := t\<rparr>) = worker_provider i s"
  "worker_provider i (s\<lparr>h_junk_pos := k\<rparr>) = worker_provider i s"
  "worker_provider i (s\<lparr>h_mem := m\<rparr>) = worker_provider i s"
  by (simp_all add: worker_provider_def)

text \<open>A program with one x64 worker, for the examples.\<close>

definition sample_program :: hive where
  "sample_program = init_hive 1 [\<lparr>wi_provider = PROVIDER_X64, wi_input_size = 3, wi_affinity = -1,
     wi_start = 0x400, wi_end = 0x500, wi_next_buffer = 0\<rparr>] [] (\<lambda>_. 0) (\<lambda>_. 7) (\<lambda>_. 5) (\<lambda>_. 0)"

definition sample_paused :: waiting_worker where
  "sample_paused = zero_waiting\<lparr>w_links := 1, w_data := 0x420\<rparr>"

section \<open>Object ids\<close>

definition page_ids :: "memory_page \<Rightarrow> i64 set" where
  "page_ids p = (\<lambda>t. push_bit 24 (pg_id p) OR word_of_nat t) ` {..<pg_next p}"

definition issued :: "memory_page list \<Rightarrow> i64 set" where
  "issued ps = (\<Union>p \<in> set ps. page_ids p)"

definition pages_ok :: "memory_page list \<Rightarrow> bool" where
  "pages_ok ps \<longleftrightarrow> distinct (map (\<lambda>p. take_bit 40 (pg_id p)) ps) \<and> (\<forall>p \<in> set ps. pg_next p \<le> OBJECTS_PER_PAGE)"

definition ids_left :: "memory_page list \<Rightarrow> nat" where
  "ids_left ps = (\<Sum>p \<leftarrow> ps. OBJECTS_PER_PAGE - pg_next p)"

text \<open>The ids that \<open>n\<close> calls of \<^verbatim>\<open>GetNewObjectId\<close> return.\<close>

fun new_ids :: "nat \<Rightarrow> hive \<Rightarrow> i64 list" where
  "new_ids 0 s = []"
| "new_ids (Suc n) s = (case GetNewObjectId s of (s', None) \<Rightarrow> [] | (s', Some i) \<Rightarrow> i # new_ids n s')"

lemma id_parts:
  assumes "t < 2 ^ 24"
  shows "take_bit 24 (push_bit 24 a OR word_of_nat t :: i64) = word_of_nat t"
    "drop_bit 24 (push_bit 24 a OR word_of_nat t :: i64) = take_bit 40 a"
proof -
  have "unat (word_of_nat t :: i64) = t" using assms by (simp add: unat_of_nat)
  then have "unat (take_bit 24 (word_of_nat t :: i64)) = t"
    using assms by (simp add: unsigned_take_bit_eq take_bit_nat_eq_self)
  then have t: "take_bit 24 (word_of_nat t :: i64) = word_of_nat t"
    using \<open>unat (word_of_nat t :: i64) = t\<close> by (metis unsigned_word_eqI)
  then have high: "\<not> bit (word_of_nat t :: i64) i" if "24 \<le> i" for i
    using that by (metis bit_take_bit_iff not_le)
  show "take_bit 24 (push_bit 24 a OR word_of_nat t :: i64) = word_of_nat t"
  proof (rule bit_word_eqI)
    fix i
    show "bit (take_bit 24 (push_bit 24 a OR word_of_nat t :: i64)) i = bit (word_of_nat t :: i64) i"
      using high [of i] by (cases "i < 24") (auto simp: bit_simps)
  qed
  show "drop_bit 24 (push_bit 24 a OR word_of_nat t :: i64) = take_bit 40 a"
  proof (rule bit_word_eqI)
    fix i
    show "bit (drop_bit 24 (push_bit 24 a OR word_of_nat t :: i64)) i = bit (take_bit 40 a) i"
      using high [of "24 + i"] by (auto simp: bit_simps)
  qed
qed

lemma id_inject:
  assumes "push_bit 24 a OR word_of_nat t = (push_bit 24 b OR word_of_nat u :: i64)" "t < 2 ^ 24" "u < 2 ^ 24"
  shows "take_bit 40 a = take_bit 40 b \<and> t = u"
proof
  show "take_bit 40 a = take_bit 40 b" using id_parts(2) assms by metis
  have "(word_of_nat t :: i64) = word_of_nat u" using id_parts(1) assms by metis
  then have "unat (word_of_nat t :: i64) = unat (word_of_nat u :: i64)" by simp
  then show "t = u" using assms(2,3) by (simp add: unat_of_nat)
qed

lemma take_id_ok:
  assumes "pages_ok ps" "take_id ps = (ps', r)"
  shows "map pg_id ps' = map pg_id ps \<and> pages_ok ps' \<and>
    (case r of
       None \<Rightarrow> ps' = ps \<and> ids_left ps = 0
     | Some i \<Rightarrow> i \<notin> issued ps \<and> issued ps' = insert i (issued ps) \<and> ids_left ps = Suc (ids_left ps') \<and>
         (\<exists>q \<in> set ps. \<exists>t < OBJECTS_PER_PAGE. i = push_bit 24 (pg_id q) OR word_of_nat t))"
  using assms
proof (induction ps arbitrary: ps' r)
  case Nil
  then show ?case by (simp add: ids_left_def)
next
  case (Cons p ps)
  have ok: "pages_ok ps" "pg_next p \<le> OBJECTS_PER_PAGE"
    and new: "\<And>q. q \<in> set ps \<Longrightarrow> take_bit 40 (pg_id q) \<noteq> take_bit 40 (pg_id p)"
    using Cons.prems(1) by (auto simp: pages_ok_def rev_image_eqI)
  have bound: "\<And>q. q \<in> set ps \<Longrightarrow> pg_next q \<le> OBJECTS_PER_PAGE" using ok(1) by (simp add: pages_ok_def)
  show ?case
  proof (cases "pg_next p < OBJECTS_PER_PAGE")
    case True
    let ?p = "p\<lparr>pg_next := pg_next p + 1\<rparr>" and ?i = "push_bit 24 (pg_id p) OR word_of_nat (pg_next p)"
    have r: "r = Some ?i" "ps' = ?p # ps" using Cons.prems(2) True by auto
    have "?i \<notin> page_ids p"
    proof
      assume "?i \<in> page_ids p"
      then obtain t where "t < pg_next p" "?i = push_bit 24 (pg_id p) OR word_of_nat t" by (auto simp: page_ids_def)
      then show False
        using id_inject [of "pg_id p" "pg_next p" "pg_id p" t] True by (simp add: OBJECTS_PER_PAGE_def)
    qed
    moreover have "?i \<notin> page_ids q" if q: "q \<in> set ps" for q
    proof
      assume "?i \<in> page_ids q"
      then obtain t where "t < pg_next q" "?i = push_bit 24 (pg_id q) OR word_of_nat t" by (auto simp: page_ids_def)
      then show False
        using id_inject [of "pg_id p" "pg_next p" "pg_id q" t] new [OF q] bound [OF q] True
        by (auto simp: OBJECTS_PER_PAGE_def)
    qed
    moreover have "page_ids ?p = insert ?i (page_ids p)" by (simp add: page_ids_def lessThan_Suc)
    moreover have "pages_ok (?p # ps)" using Cons.prems(1) True by (auto simp: pages_ok_def)
    ultimately show ?thesis using True by (auto simp: r issued_def ids_left_def)
  next
    case False
    then have full: "pg_next p = OBJECTS_PER_PAGE" using ok(2) by simp
    obtain qs x where rec: "take_id ps = (qs, x)" by fastforce
    have r: "ps' = p # qs" "r = x" using Cons.prems(2) False rec by auto
    note IH = Cons.IH [OF ok(1) rec]
    have ids: "map pg_id qs = map pg_id ps" and qs: "pages_ok qs" using IH by auto
    have "map (\<lambda>p. take_bit 40 (pg_id p)) qs = map (\<lambda>p. take_bit 40 (pg_id p)) ps"
      using arg_cong [OF ids, of "map (take_bit 40)"] by (simp add: comp_def)
    then have pq: "pages_ok (p # qs)"
      using Cons.prems(1) qs by (auto simp: pages_ok_def simp flip: set_map)
    show ?thesis
    proof (cases x)
      case None
      then show ?thesis using IH r pq ids full by (simp add: ids_left_def)
    next
      case (Some i)
      obtain q t where q: "q \<in> set ps" "t < OBJECTS_PER_PAGE" "i = push_bit 24 (pg_id q) OR word_of_nat t"
        using IH Some by auto
      have "i \<notin> page_ids p"
      proof
        assume "i \<in> page_ids p"
        then obtain u where "u < pg_next p" "i = push_bit 24 (pg_id p) OR word_of_nat u" by (auto simp: page_ids_def)
        then show False
          using id_inject [of "pg_id q" t "pg_id p" u] new [OF q(1)] q full by (auto simp: OBJECTS_PER_PAGE_def)
      qed
      moreover have "i \<notin> issued ps" "issued qs = insert i (issued ps)" "ids_left ps = Suc (ids_left qs)"
        using IH Some by auto
      moreover have "issued (p # ys) = page_ids p \<union> issued ys" "ids_left (p # ys) = ids_left ys" for ys
        using full by (simp_all add: issued_def ids_left_def)
      ultimately show ?thesis using pq ids q by (auto simp: r Some)
    qed
  qed
qed

lemma new_ids_ok:
  "pages_ok (h_pages s) \<Longrightarrow>
   distinct (new_ids n s) \<and> set (new_ids n s) \<inter> issued (h_pages s) = {} \<and>
   length (new_ids n s) = min n (ids_left (h_pages s))"
proof (induction n arbitrary: s)
  case (Suc n)
  obtain ps r where t: "take_id (h_pages s) = (ps, r)" by fastforce
  note ok = take_id_ok [OF Suc.prems t]
  have g: "GetNewObjectId s = (s\<lparr>h_pages := ps\<rparr>, r)" by (simp add: GetNewObjectId_def t)
  show ?case
  proof (cases r)
    case None
    then show ?thesis using ok g by simp
  next
    case (Some i)
    have "pages_ok (h_pages (s\<lparr>h_pages := ps\<rparr>))" using ok by simp
    from Suc.IH [OF this] show ?thesis using ok g Some by auto
  qed
qed simp

lemma queued_pool_ok_waiting:
  "queued_pool_ok s \<Longrightarrow> queued_pool_ok (s\<lparr>h_waiting := (h_waiting s)(p := None)\<rparr>)"
  by (auto simp: queued_pool_ok_def heap_ok_def)

section \<open>One task more\<close>

lemma continue_worker_ok:
  assumes "room_for_task n s" "h_waiting s p = Some w" "w_queued w = 0" "w_links w = 1"
    "worker_provider (w_id w) s = Some PROVIDER_X64"
  shows "\<exists>s' t. continue_worker p rdi s = Some s' \<and> h_queued s t = None \<and>
    h_queued s' = (h_queued s)(t \<mapsto> \<lparr>k_id = w_id w, k_depth = w_depth w, k_data = w_data w, k_rdi = rdi,
      k_rbp = w_rbp w, k_context = w_context w\<rparr>) \<and>
    sched_ok n (h_sched s') \<and> sched_tasks (h_sched s') = add_mset t (sched_tasks (h_sched s)) \<and>
    h_waiting s' = (h_waiting s)(p := None) \<and> h_mem s' = h_mem s \<and> h_waiters s' = h_waiters s \<and>
    h_get_wait_list s' = h_get_wait_list s \<and> h_set_wait_list s' = h_set_wait_list s \<and> h_sent s' = h_sent s \<and>
    h_wait_list s' = h_wait_list s \<and> h_workers s' = h_workers s \<and> queued_pool_ok s' \<and>
    h_thread s' = h_thread s \<and> unat (h_brk s') \<le> unat (h_brk s) + 160"
proof -
  define s0 where "s0 = s\<lparr>h_waiting := (h_waiting s)(p \<mapsto> w\<lparr>w_queued := 1\<rparr>)\<rparr>"
  have "p < h_brk s" using assms(1,2) by (auto simp: room_for_task_def queued_pool_ok_def heap_ok_def not_le intro: leI)
  then have room: "room_for_task n s0" using assms(1) by (auto simp: room_for_task_def queued_pool_ok_def heap_ok_def s0_def)
  obtain s1 t old where a: "AllocateQueuedWorker s0 = Some (s1, t)" "t \<noteq> 0" "h_queued s0 t = None"
    "h_queued s1 = (h_queued s0)(t \<mapsto> old)"
    "h_sched s1 = h_sched s0" "h_workers s1 = h_workers s0" "h_waiting s1 = h_waiting s0"
    "s1 = s0\<lparr>h_brk := h_brk s1, h_free_queued := h_free_queued s1, h_queued := h_queued s1\<rparr>"
    "queued_pool_ok s1"
    using queue_new_task [OF room] by metis
  have same: "h_mem s1 = h_mem s" "h_waiters s1 = h_waiters s" "h_get_wait_list s1 = h_get_wait_list s"
    "h_set_wait_list s1 = h_set_wait_list s" "h_sent s1 = h_sent s" "h_wait_list s1 = h_wait_list s"
    "h_thread s1 = h_thread s"
    by (subst a(8), simp add: s0_def)+
  have brk: "unat (h_brk s1) \<le> unat (h_brk s) + 160"
    using AllocateQueuedWorker_brk [OF a(1)] by (simp add: s0_def)
  have wid: "unat (w_id w) < length (h_workers s)" "wi_provider (h_workers s ! unat (w_id w)) = PROVIDER_X64"
    using assms(5) by (auto simp: worker_provider_def split: if_splits)
  let ?q = "\<lparr>k_id = w_id w, k_depth = w_depth w, k_data = w_data w, k_rdi = rdi, k_rbp = w_rbp w, k_context = w_context w\<rparr>"
  obtain sd where e: "enqueue_worker t ?q s1 = Some (s1\<lparr>h_queued := (h_queued s1)(t \<mapsto> ?q), h_sched := sd\<rparr>)"
    "sched_ok n sd" "sched_tasks sd = add_mset t (sched_tasks (h_sched s1))"
    using enqueue_worker_ok [of n s1 t ?q] room a(2,5,6) wid(1) by (auto simp: room_for_task_def s0_def)
  let ?s2 = "s1\<lparr>h_queued := (h_queued s1)(t \<mapsto> ?q), h_sched := sd\<rparr>"
  have "EnqueueWorkerFromWaitList p rdi s = Some ?s2"
    using assms(2,3) a(1) e(1) by (simp add: EnqueueWorkerFromWaitList_def s0_def)
  moreover have "h_waiting ?s2 p = Some (w\<lparr>w_queued := 1\<rparr>)" using a(7) by (simp add: s0_def)
  moreover have "worker_provider (w_id w) s' = Some PROVIDER_X64" if "h_workers s' = h_workers s" for s'
    using assms(5) that by (simp add: worker_provider_def split: if_splits)
  ultimately have "continue_worker p rdi s = Some (?s2\<lparr>h_waiting := (h_waiting s)(p := None)\<rparr>)"
    using assms(4) a(6,7)
    by (simp add: continue_worker_def release_link_def FreeWaitingWorker_def s0_def word_sless_alt)
  moreover have "queued_pool_ok (?s2\<lparr>h_waiting := (h_waiting s)(p := None)\<rparr>)"
    using queued_pool_ok_waiting [OF queued_pool_ok_update [where q = ?q and sd = sd and t = t, OF a(9)], of p] a(4,7) by (simp add: s0_def)
  ultimately show ?thesis using a(3,4,5,6) e same brk by (auto simp: s0_def)
qed

section \<open>Properties\<close>

text \<open>
  C21. Object ids are never given twice: when the pages of a hive have different ids (in their low 40 bits),
  any number of calls of \<^verbatim>\<open>GetNewObjectId\<close> returns different ids, none of which these pages have
  given before, and a call fails only when all ids of all pages are used.
\<close>

theorem object_ids_unique:
  assumes "pages_ok (h_pages s)"
  shows "distinct (new_ids n s) \<and> set (new_ids n s) \<inter> issued (h_pages s) = {} \<and>
    length (new_ids n s) = min n (ids_left (h_pages s))"
  using new_ids_ok [OF assms] .

theorem object_ids_unique_witness:
  "length (new_ids 3 (init_hive 1 [] [] (\<lambda>_. 0) (\<lambda>_. 0) (\<lambda>_. 0) (\<lambda>_. 0)\<lparr>h_pages :=
     [\<lparr>pg_id = 5, pg_next = OBJECTS_PER_PAGE - 2\<rparr>, \<lparr>pg_id = 9, pg_next = 0\<rparr>]\<rparr>)) = 3"
proof -
  let ?s = "init_hive 1 [] [] (\<lambda>_. 0) (\<lambda>_. 0) (\<lambda>_. 0) (\<lambda>_. 0)\<lparr>h_pages :=
     [\<lparr>pg_id = 5, pg_next = OBJECTS_PER_PAGE - 2\<rparr>, \<lparr>pg_id = 9, pg_next = 0\<rparr>]\<rparr>"
  have "pages_ok (h_pages ?s)" by (simp add: pages_ok_def OBJECTS_PER_PAGE_def take_bit_eq_mod)
  from object_ids_unique [OF this, of 3] show ?thesis by (simp add: ids_left_def OBJECTS_PER_PAGE_def)
qed

text \<open>
  C30. An answered worker runs again exactly once: continuing a paused worker that nobody has continued puts
  one new task into the scheduler, which has the registers that the worker was paused with and the answer
  in \<^verbatim>\<open>rdi\<close>; no other task is touched, and the record of the paused worker is freed.
\<close>

theorem answered_worker_runs_once:
  assumes "room_for_task n s" "h_waiting s p = Some w" "w_queued w = 0" "w_links w = 1"
    "worker_provider (w_id w) s = Some PROVIDER_X64"
  shows "\<exists>s' t. continue_worker p rdi s = Some s' \<and> h_queued s t = None \<and>
    h_queued s' = (h_queued s)(t \<mapsto> \<lparr>k_id = w_id w, k_depth = w_depth w, k_data = w_data w, k_rdi = rdi,
      k_rbp = w_rbp w, k_context = w_context w\<rparr>) \<and>
    sched_ok n (h_sched s') \<and> sched_tasks (h_sched s') = add_mset t (sched_tasks (h_sched s)) \<and>
    h_waiting s' = (h_waiting s)(p := None)"
  using continue_worker_ok [OF assms, of rdi] by blast

theorem answered_worker_runs_once_witness:
  "\<exists>s' t. continue_worker 0x100 9 (sample_program\<lparr>h_waiting := [0x100 \<mapsto> sample_paused]\<rparr>) = Some s' \<and>
     map_option k_rdi (h_queued s' t) = Some 9 \<and> sched_tasks (h_sched s') = {#t#}"
proof -
  let ?s = "sample_program\<lparr>h_waiting := (h_waiting sample_program)(0x100 \<mapsto> sample_paused)\<rparr>"
  have "room_for_task 1 sample_program" using room_for_task_init [of 1] by (simp add: sample_program_def)
  then have room: "room_for_task 1 ?s"
    by (rule room_for_task_waiting) (simp add: sample_program_def init_hive_def)
  have "h_waiting sample_program = Map.empty" "sched_tasks (h_sched sample_program) = {#}"
    by (simp_all add: sample_program_def init_hive_def sched_tasks_init)
  moreover have "worker_provider (w_id sample_paused) ?s = Some PROVIDER_X64"
    by (simp add: worker_provider_def sample_paused_def zero_waiting_def sample_program_def init_hive_def)
  ultimately show ?thesis
    using answered_worker_runs_once [OF room, of "0x100" sample_paused 9]
    by (fastforce simp: sample_paused_def zero_waiting_def)
qed

text \<open>The buffer of a new x64 worker is there: the rest of the start does not depend on where it is from.\<close>

lemma start_in_buffer:
  assumes "queued_pool_ok s" "unat (h_brk s) + 160 < 2 ^ 63" "sched_ok n (h_sched s)"
    "size (sched_tasks (h_sched s)) < RING_SIZE" "unat workerId < length (h_workers s)"
    "wi_input_size (h_workers s ! unat workerId) = sz" "0 \<le>s sz" "length inputTable = unat sz" "length inputTable \<le> 1024"
  obtains s1 t s' q where "AllocateQueuedWorker s = Some (s1, t)" "h_thread s1 = h_thread s"
    "start_with_buffer workerId inputTable data t code depth s1 = Some s'" "h_queued s' t = Some q"
    "sched_tasks (h_sched s') = add_mset t (sched_tasks (h_sched s))" "sched_ok n (h_sched s')"
    "k_id q = workerId" "k_data q = code" "k_rbp q = data + 1024" "k_rdi q + sz = k_rbp q"
    "mem_read (k_rdi q) (length inputTable) (h_mem s') = inputTable" "h_sent s' = h_sent s"
    "h_local_objects s' = h_local_objects s" "h_objects s' = h_objects s" "h_workers s' = h_workers s"
proof -
  obtain s1 t where a: "AllocateQueuedWorker s = Some (s1, t)" using AllocateQueuedWorker_returns [OF assms(2)] .
  note ao = AllocateQueuedWorker_ok [OF assms(1) a]
  have fr: "s1 = s\<lparr>h_brk := h_brk s1, h_free_queued := h_free_queued s1, h_queued := h_queued s1\<rparr>"
    by (rule AllocateQueuedWorker_frame [OF a])
  have eq: "h_sched s1 = h_sched s" "h_workers s1 = h_workers s" "h_thread s1 = h_thread s" "h_sent s1 = h_sent s"
    "h_local_objects s1 = h_local_objects s" "h_objects s1 = h_objects s"
    by (subst fr, simp)+
  let ?at = "data + 1024 - sz"
  let ?q = "\<lparr>k_id = workerId, k_depth = depth, k_data = code, k_rdi = ?at, k_rbp = data + 1024,
    k_context = replicate 14 0\<rparr>"
  let ?s = "s1\<lparr>h_mem := mem_write ?at inputTable (h_mem s1)\<rparr>"
  obtain sd where e: "enqueue_worker t ?q ?s = Some (?s\<lparr>h_queued := (h_queued ?s)(t \<mapsto> ?q), h_sched := sd\<rparr>)"
    "sched_tasks sd = add_mset t (sched_tasks (h_sched ?s))" "sched_ok n sd"
    using enqueue_worker_ok [of n ?s t ?q] assms(3-5) ao(2) eq by auto
  let ?s' = "?s\<lparr>h_queued := (h_queued ?s)(t \<mapsto> ?q), h_sched := sd\<rparr>"
  have "start_with_buffer workerId inputTable data t code depth s1 = Some ?s'"
    using e(1) assms(6-9) eq(2) by (simp add: start_with_buffer_def Let_def)
  then show ?thesis
    using that [of s1 t ?s' ?q] a e(2,3) eq mem_read_write [of inputTable ?at "h_mem s1"] assms(9) by simp
qed

lemma start_worker_ok:
  assumes "room_for_task n s" "unat workerId < length (h_workers s)" "h_workers s ! unat workerId = wk"
    "wi_provider wk = PROVIDER_X64" "0 \<le>s wi_input_size wk"
    "length inputTable = unat (wi_input_size wk)" "length inputTable \<le> 1024" "global_id = 1"
  shows "\<exists>s' t q. StartNewWorker workerId global_id inputTable s = Some s' \<and> h_queued s' t = Some q \<and>
    sched_tasks (h_sched s') = add_mset t (sched_tasks (h_sched s)) \<and> k_id q = workerId \<and> k_data q = wi_start wk \<and>
    mem_read (k_rdi q) (length inputTable) (h_mem s') = inputTable \<and>
    k_rdi q + wi_input_size wk = k_rbp q \<and> h_sent s' = h_sent s \<and> sched_ok n (h_sched s') \<and>
    h_local_objects s' = h_local_objects s \<and> h_objects s' = h_objects s \<and>
    k_rbp q = (if wi_next_buffer wk = 0 then h_brk s else wi_next_buffer wk) + 1024 \<and>
    h_workers s' = (if wi_next_buffer wk = 0 then h_workers s
      else (h_workers s)[unat workerId := wk\<lparr>wi_next_buffer := le_word (mem_read (wi_next_buffer wk) 8 (h_mem s))\<rparr>])"
proof -
  obtain s1 r where rnd: "SECURE_RANDOM 8 s = (s1, r)" by fastforce
  have s1: "s1 = s\<lparr>h_random_pos := h_random_pos s + 8\<rparr>" using rnd by (simp add: SECURE_RANDOM_def)
  have room: "unat (h_brk s1) + 4096 < 2 ^ 63" using assms(1) by (simp add: room_for_task_def s1)
  have qp1: "queued_pool_ok s1" using assms(1) by (auto simp: room_for_task_def queued_pool_ok_def heap_ok_def s1)
  let ?i = "unat workerId" and ?nb = "wi_next_buffer wk"
  let ?ws = "if ?nb = 0 then h_workers s else (h_workers s)[?i := wk\<lparr>wi_next_buffer := le_word (mem_read ?nb 8 (h_mem s))\<rparr>]"
  define get where "get = (if ?nb \<noteq> 0
      then Some (s1\<lparr>h_workers := (h_workers s1)[?i := wk\<lparr>wi_next_buffer := le_word (mem_read ?nb 8 (h_mem s1))\<rparr>]\<rparr>, ?nb)
      else myMalloc (1024 + 2048) s1)"
  obtain s2 data where g: "get = Some (s2, data)" "data = (if ?nb = 0 then h_brk s else ?nb)" "queued_pool_ok s2"
    "unat (h_brk s2) + 160 < 2 ^ 63" "h_workers s2 = ?ws" "h_sched s2 = h_sched s" "h_thread s2 = h_thread s"
    "h_sent s2 = h_sent s" "h_local_objects s2 = h_local_objects s" "h_objects s2 = h_objects s"
  proof (cases "?nb = 0")
    case True
    have m: "myMalloc (1024 + 2048) s1 = Some (s1\<lparr>h_brk := h_brk s1 + 3088\<rparr>, h_brk s1)"
      using room by (simp add: myMalloc_def)
    have "heap_ok s1" using qp1 by (simp add: queued_pool_ok_def)
    note mo = myMalloc_ok [OF m this]
    have "queued_pool_ok (s1\<lparr>h_brk := h_brk s1 + 3088\<rparr>)"
      using qp1 mo(1,3) by (fastforce simp: queued_pool_ok_def)
    then show ?thesis using True m room
      by (intro that [of "s1\<lparr>h_brk := h_brk s1 + 3088\<rparr>" "h_brk s"]) (simp_all add: get_def s1 unat_word_ariths)
  next
    case False
    then show ?thesis using qp1 room
      by (intro that [of "s1\<lparr>h_workers := (h_workers s1)[?i := wk\<lparr>wi_next_buffer :=
          le_word (mem_read ?nb 8 (h_mem s1))\<rparr>]\<rparr>" ?nb]) (auto simp: get_def s1 queued_pool_ok_def heap_ok_def)
  qed
  have i: "?i < length (h_workers s2)" "wi_input_size (h_workers s2 ! ?i) = wi_input_size wk"
    using assms(2,3) g(5) by simp_all
  have sched: "sched_ok n (h_sched s2)" "size (sched_tasks (h_sched s2)) < RING_SIZE"
    using assms(1) g(6) by (simp_all add: room_for_task_def)
  obtain s3 t s' q where b: "AllocateQueuedWorker s2 = Some (s3, t)" "h_thread s3 = h_thread s2"
    "start_with_buffer workerId inputTable data t (wi_start wk)
       (case h_thread s of None \<Rightarrow> 0 | Some td \<Rightarrow> td_running_depth td) s3 = Some s'" "h_queued s' t = Some q"
    "sched_tasks (h_sched s') = add_mset t (sched_tasks (h_sched s2))" "sched_ok n (h_sched s')"
    "k_id q = workerId" "k_data q = wi_start wk" "k_rbp q = data + 1024" "k_rdi q + wi_input_size wk = k_rbp q"
    "mem_read (k_rdi q) (length inputTable) (h_mem s') = inputTable" "h_sent s' = h_sent s2"
    "h_local_objects s' = h_local_objects s2" "h_objects s' = h_objects s2" "h_workers s' = h_workers s2"
    by (rule start_in_buffer [OF g(3,4) sched i assms(5-7)]) (rule that)
  have "x64StartNewLocalWorker workerId inputTable s1 = Some s'"
  proof -
    have wk: "h_workers s1 ! ?i = wk" using assms(3) by (simp add: s1)
    have "x64StartNewLocalWorker workerId inputTable s1 =
        do { (s, data) \<leftarrow> get; (s, t) \<leftarrow> AllocateQueuedWorker s;
             start_with_buffer workerId inputTable data t (wi_start wk)
               (case h_thread s of None \<Rightarrow> 0 | Some td \<Rightarrow> td_running_depth td) s }"
      by (simp only: x64StartNewLocalWorker_def Let_def get_def wk)
    then show ?thesis using g(1,7) b(1-3) by simp
  qed
  then have "StartNewWorker workerId global_id inputTable s = Some s'"
    using assms(2-4,8) rnd by (simp add: StartNewWorker_def runs_remote_def start_local_worker_def worker_provider_def s1 Let_def)
  then show ?thesis using b g by (intro exI [of _ s'] exI [of _ t] exI [of _ q]) simp
qed

text \<open>
  C31. An x64 worker that is started on this hive, with an input table of its size and at most 1024 bytes, and with
  room in the queues and the heap, finds its arguments: \<^verbatim>\<open>rdi\<close> points to the whole input table,
  which ends at \<^verbatim>\<open>rbp\<close>, the task starts at the entry of the worker, and it is one new task
  of the scheduler. The table lies in the first free buffer of the worker's kind, which is taken off the
  list, or, when there is none, in a new one. Nothing is sent.
\<close>

theorem started_worker_finds_arguments:
  assumes "room_for_task n s" "unat workerId < length (h_workers s)" "h_workers s ! unat workerId = wk"
    "wi_provider wk = PROVIDER_X64" "0 \<le>s wi_input_size wk"
    "length inputTable = unat (wi_input_size wk)" "length inputTable \<le> 1024" "global_id = 1"
  shows "\<exists>s' t q. StartNewWorker workerId global_id inputTable s = Some s' \<and> h_queued s' t = Some q \<and>
    sched_tasks (h_sched s') = add_mset t (sched_tasks (h_sched s)) \<and> k_id q = workerId \<and> k_data q = wi_start wk \<and>
    mem_read (k_rdi q) (length inputTable) (h_mem s') = inputTable \<and>
    k_rdi q + wi_input_size wk = k_rbp q \<and> h_sent s' = h_sent s \<and>
    k_rbp q = (if wi_next_buffer wk = 0 then h_brk s else wi_next_buffer wk) + 1024 \<and>
    h_workers s' = (if wi_next_buffer wk = 0 then h_workers s
      else (h_workers s)[unat workerId := wk\<lparr>wi_next_buffer := le_word (mem_read (wi_next_buffer wk) 8 (h_mem s))\<rparr>])"
  using start_worker_ok [OF assms] by metis

text \<open>A worker with one free buffer, at 0x900, whose link is 0.\<close>

theorem started_worker_finds_arguments_witness:
  "\<exists>s' t q. StartNewWorker 0 1 [1, 2, 3] (sample_program\<lparr>h_workers :=
       [\<lparr>wi_provider = PROVIDER_X64, wi_input_size = 3, wi_affinity = -1, wi_start = 0x400, wi_end = 0x500,
         wi_next_buffer = 0x900\<rparr>]\<rparr>) = Some s' \<and>
     h_queued s' t = Some q \<and> mem_read (k_rdi q) 3 (h_mem s') = [1, 2, 3] \<and> k_data q = 0x400 \<and> k_rbp q = 0xD00 \<and>
     wi_next_buffer (h_workers s' ! 0) = 0"
proof -
  let ?wk = "\<lparr>wi_provider = PROVIDER_X64, wi_input_size = 3, wi_affinity = -1, wi_start = 0x400, wi_end = 0x500,
    wi_next_buffer = 0x900\<rparr>"
  let ?s = "sample_program\<lparr>h_workers := [?wk]\<rparr>"
  have "room_for_task 1 sample_program" using room_for_task_init [of 1] by (simp add: sample_program_def)
  then have room: "room_for_task 1 ?s" by (simp add: room_for_task_def queued_pool_ok_def heap_ok_def)
  have "mem_read 0x900 8 (h_mem ?s) = replicate 8 0"
    by (simp add: sample_program_def init_hive_def mem_read_def map_replicate_const)
  then have link: "le_word (mem_read 0x900 8 (h_mem ?s)) = (0 :: i64)" by (simp add: eval_nat_numeral)
  have pre: "unat (0 :: i64) < length (h_workers ?s)" "h_workers ?s ! unat (0 :: i64) = ?wk" "wi_provider ?wk = PROVIDER_X64"
    "0 \<le>s wi_input_size ?wk" "length [1, 2, 3 :: byte] = unat (wi_input_size ?wk)" "length [1, 2, 3 :: byte] \<le> 1024"
    by (simp_all add: word_sle_eq)
  from started_worker_finds_arguments [OF room pre refl] obtain s' t q where
    r: "StartNewWorker 0 1 [1, 2, 3] ?s = Some s'" "h_queued s' t = Some q" "k_data q = wi_start ?wk"
    "mem_read (k_rdi q) (length [1, 2, 3 :: byte]) (h_mem s') = [1, 2, 3]"
    "k_rbp q = (if wi_next_buffer ?wk = 0 then h_brk ?s else wi_next_buffer ?wk) + 1024"
    "h_workers s' = (if wi_next_buffer ?wk = 0 then h_workers ?s
      else (h_workers ?s)[unat (0 :: i64) := ?wk\<lparr>wi_next_buffer := le_word (mem_read (wi_next_buffer ?wk) 8 (h_mem ?s))\<rparr>])"
    by (elim exE conjE) (rule that; assumption)
  have "wi_next_buffer (h_workers s' ! 0) = 0" unfolding r(6) using link by simp
  then show ?thesis using r(1-5) by (intro exI [of _ s'] exI [of _ t] exI [of _ q]) (simp add: numeral_3_eq_3)
qed

end
