(* ===== verification/Callbacks.thy ===== *)
theory Callbacks
  imports Workers
begin

text \<open>
  What happens when a request on an object is answered: the four callbacks (\<^verbatim>\<open>common/callbacks.c\<close>),
  the x64 handlers of answers (\<^verbatim>\<open>x64/query_object.c\<close>, \<^verbatim>\<open>x64/push_object.c\<close>), and the walks
  over the lists of waiters (\<^verbatim>\<open>common/remote.c\<close> lines 371 to 431).
\<close>

section \<open>Answers of queries\<close>

text \<open>
  The answer goes to the destination, or to the value that the worker gets in \<^verbatim>\<open>rdi\<close>; reading beyond
  the bytes of the answer or writing beyond the value is undefined.
\<close>

definition UpdateFromQueryResult :: "i64 \<Rightarrow> i64 \<Rightarrow> byte list \<Rightarrow> i64 \<Rightarrow> hive \<Rightarrow> (hive \<times> i64) option" where
  "UpdateFromQueryResult destination sz result_data rdi s =
     (let n = unat (myAbs sz) in
      if length result_data < n then None
      else if sz <s 0 then
        (if n \<le> 8 then Some (s, le_word (take n result_data @ drop n (le_bytes 8 rdi))) else None)
      else Some (s\<lparr>h_mem := mem_write destination (take n result_data) (h_mem s)\<rparr>, rdi))"

definition wait_for_query :: "i64 \<Rightarrow> i64 \<Rightarrow> i64 \<Rightarrow> i64 \<Rightarrow> hive \<Rightarrow> hive option" where
  "wait_for_query object_id offset sz w s =
     insert_get_waiter 24 (get_wait_list_key object_id offset (myAbs sz)) w callbackContinueWorkerFromWaitingQuery s"

definition wait_for_push :: "i64 \<Rightarrow> i64 \<Rightarrow> i64 \<Rightarrow> i64 \<Rightarrow> i64 \<Rightarrow> hive \<Rightarrow> hive option" where
  "wait_for_push object_id offset sz hash w s =
     insert_set_waiter 24 (set_wait_list_key object_id offset (myAbs sz) hash) w callbackContinueWorkerFromWaitingPush s"

text \<open>
  \<open>w\<close> is the address of the paused worker; the result is the state, whether the worker can go on, and
  its \<^verbatim>\<open>rdi\<close>. The waits of a cast between providers need the GPU and are not modelled.
\<close>

definition x64OnQueryObject ::
  "i64 \<Rightarrow> wait_state \<Rightarrow> i64 \<Rightarrow> i64 \<Rightarrow> i64 \<Rightarrow> byte list \<Rightarrow> i64 \<Rightarrow> hive \<Rightarrow> (hive \<times> bool \<times> i64) option" where
  "x64OnQueryObject w st object offset sz data rdi s =
     (case st of
        QueryObjectWait object_id off size_ destination timeout \<Rightarrow>
          if object_id = object \<and> myAbs size_ = sz \<and> off = offset
          then map_option (\<lambda>(s, rdi). (s, True, rdi)) (UpdateFromQueryResult destination size_ data rdi s)
          else map_option (\<lambda>s. (s, False, rdi)) (wait_for_query object_id off size_ w s)
      | _ \<Rightarrow> None)"

definition x64OnPushObject :: "i64 \<Rightarrow> wait_state \<Rightarrow> i64 \<Rightarrow> i64 \<Rightarrow> i64 \<Rightarrow> i64 \<Rightarrow> hive \<Rightarrow> (hive \<times> bool) option" where
  "x64OnPushObject w st object offset sz hash s =
     (case st of
        PushObjectWait object_id off size_ hash_ ptr data timeout \<Rightarrow>
          if object_id = object \<and> off = offset \<and> myAbs size_ = sz \<and> hash_ = hash then Some (s, True)
          else map_option (\<lambda>s. (s, False)) (wait_for_push object_id off size_ hash_ w s)
      | _ \<Rightarrow> None)"

section \<open>Callbacks\<close>

definition callback_query_local_id :: "i64 \<Rightarrow> i64 \<Rightarrow> i64 \<Rightarrow> byte list \<Rightarrow> i64 \<Rightarrow> hive \<Rightarrow> hive option" where
  "callback_query_local_id object_id offset sz data params s =
     do { con \<leftarrow> GetConnectionById params s; AnswerQueryObject con data object_id offset sz s }"

definition callback_push_local_id :: "i64 \<Rightarrow> i64 \<Rightarrow> i64 \<Rightarrow> i64 \<Rightarrow> i64 \<Rightarrow> hive \<Rightarrow> hive option" where
  "callback_push_local_id object_id offset sz hash params s =
     do { con \<leftarrow> GetConnectionById params s; Some (AnswerPushObject con object_id offset sz hash s) }"

definition callback_continue_query :: "i64 \<Rightarrow> i64 \<Rightarrow> i64 \<Rightarrow> byte list \<Rightarrow> i64 \<Rightarrow> hive \<Rightarrow> hive option" where
  "callback_continue_query object_id offset sz data params s =
     do { w \<leftarrow> h_waiting s params;
          let (s, rdi) = uninitialised s;
          (case w_state w of
             QueryObjectWait _ _ _ _ _ \<Rightarrow>
               do { (s, res, rdi) \<leftarrow> x64OnQueryObject params (w_state w) object_id offset sz data rdi s;
                    if res then continue_worker params rdi s else Some s }
           | CastWait _ \<Rightarrow> None
           | _ \<Rightarrow> Some s) }"

definition callback_continue_push :: "i64 \<Rightarrow> i64 \<Rightarrow> i64 \<Rightarrow> i64 \<Rightarrow> i64 \<Rightarrow> hive \<Rightarrow> hive option" where
  "callback_continue_push object_id offset sz hash params s =
     do { w \<leftarrow> h_waiting s params;
          (case w_state w of
             PushObjectWait _ _ _ _ _ _ _ \<Rightarrow>
               do { (s, res) \<leftarrow> x64OnPushObject params (w_state w) object_id offset sz hash s;
                    if res then continue_worker params 0 s else Some s }
           | _ \<Rightarrow> Some s) }"

text \<open>Calling a callback of the other kind of list through the type of this one is undefined.\<close>

definition run_query_callback :: "i64 \<Rightarrow> i64 \<Rightarrow> i64 \<Rightarrow> byte list \<Rightarrow> waiter \<Rightarrow> hive \<Rightarrow> hive option" where
  "run_query_callback object_id offset sz data q s =
     (case wt_callback q of
        callbackQueryAnswerLocalId \<Rightarrow> callback_query_local_id object_id offset sz data (wt_params q) s
      | callbackContinueWorkerFromWaitingQuery \<Rightarrow> callback_continue_query object_id offset sz data (wt_params q) s
      | _ \<Rightarrow> None)"

definition run_push_callback :: "i64 \<Rightarrow> i64 \<Rightarrow> i64 \<Rightarrow> i64 \<Rightarrow> waiter \<Rightarrow> hive \<Rightarrow> hive option" where
  "run_push_callback object_id offset sz hash q s =
     (case wt_callback q of
        callbackPushAnswerLocalId \<Rightarrow> callback_push_local_id object_id offset sz hash (wt_params q) s
      | callbackContinueWorkerFromWaitingPush \<Rightarrow> callback_continue_push object_id offset sz hash (wt_params q) s
      | _ \<Rightarrow> None)"

section \<open>Walks\<close>

text \<open>
  The walk calls the callback of each node, then reads its \<^verbatim>\<open>next\<close> and frees it. A list that does
  not end, or that passes through a freed node, gives \<open>None\<close>.
\<close>

partial_function (option) UpdateWaitingQueryList ::
  "i64 \<Rightarrow> i64 \<Rightarrow> i64 \<Rightarrow> byte list \<Rightarrow> i64 \<Rightarrow> hive \<Rightarrow> hive option" where
  "UpdateWaitingQueryList object_id offset sz data q s =
     (if q = 0 then Some s
      else Option.bind (h_waiters s q) (\<lambda>v.
           Option.bind (run_query_callback object_id offset sz data v s) (\<lambda>s.
           Option.bind (h_waiters s q) (\<lambda>v.
           UpdateWaitingQueryList object_id offset sz data (wt_next v)
             (s\<lparr>h_waiters := (h_waiters s)(q := None)\<rparr>)))))"

partial_function (option) UpdateWaitingPushList ::
  "i64 \<Rightarrow> i64 \<Rightarrow> i64 \<Rightarrow> i64 \<Rightarrow> i64 \<Rightarrow> hive \<Rightarrow> hive option" where
  "UpdateWaitingPushList object_id offset sz hash q s =
     (if q = 0 then Some s
      else Option.bind (h_waiters s q) (\<lambda>v.
           Option.bind (run_push_callback object_id offset sz hash v s) (\<lambda>s.
           Option.bind (h_waiters s q) (\<lambda>v.
           UpdateWaitingPushList object_id offset sz hash (wt_next v)
             (s\<lparr>h_waiters := (h_waiters s)(q := None)\<rparr>)))))"

definition UpdateWaitingQuery :: "i64 \<Rightarrow> i64 \<Rightarrow> i64 \<Rightarrow> byte list \<Rightarrow> hive \<Rightarrow> hive option" where
  "UpdateWaitingQuery object_id offset sz data s =
     (let key = get_wait_list_key object_id offset sz in
      case btbl_take 24 (h_get_wait_list s) key of
        None \<Rightarrow> None
      | Some (t, q) \<Rightarrow>
          let s = s\<lparr>h_get_wait_list := t\<rparr> in
          if q = 0 then Some s
          else (case UpdateWaitingQueryList object_id offset sz data q s of
                  None \<Rightarrow> None
                | Some s \<Rightarrow>
                    map_option (\<lambda>t. s\<lparr>h_get_wait_list := t\<rparr>) (btbl_add 24 (h_get_wait_list s) key (-1))))"

definition UpdateWaitingPush :: "i64 \<Rightarrow> i64 \<Rightarrow> i64 \<Rightarrow> i64 \<Rightarrow> hive \<Rightarrow> hive option" where
  "UpdateWaitingPush object_id offset sz hash s =
     (let key = set_wait_list_key object_id offset sz hash in
      case btbl_take 32 (h_set_wait_list s) key of
        None \<Rightarrow> None
      | Some (t, q) \<Rightarrow>
          let s = s\<lparr>h_set_wait_list := t\<rparr> in
          if q = 0 then Some s
          else (case UpdateWaitingPushList object_id offset sz hash q s of
                  None \<Rightarrow> None
                | Some s \<Rightarrow>
                    map_option (\<lambda>t. s\<lparr>h_set_wait_list := t\<rparr>) (btbl_add 32 (h_set_wait_list s) key (-1))))"

section \<open>Lists of waiters\<close>

fun chain :: "(i64 \<Rightarrow> waiter option) \<Rightarrow> i64 \<Rightarrow> (i64 \<times> waiter) list \<Rightarrow> bool" where
  "chain heap q [] \<longleftrightarrow> q = 0"
| "chain heap q ((a, v) # xs) \<longleftrightarrow> q = a \<and> a \<noteq> 0 \<and> heap a = Some v \<and> chain heap (wt_next v) xs"

lemma chain_update:
  "a \<notin> set (map fst xs) \<Longrightarrow> chain (heap(a := x)) q xs = chain heap q xs"
  by (induction xs arbitrary: q) auto

definition released :: "(i64 \<times> waiter) list \<Rightarrow> (i64 \<Rightarrow> waiter option) \<Rightarrow> i64 \<Rightarrow> waiter option" where
  "released xs heap = (\<lambda>a. if a \<in> set (map fst xs) then None else heap a)"

lemma released_simps [simp]:
  "released [] heap = heap" "released ((a, v) # xs) heap = released xs (heap(a := None))"
  by (auto simp: released_def)

text \<open>The message that answers a query, and the one that answers a push.\<close>

definition query_answer :: "i64 \<Rightarrow> i64 \<Rightarrow> i64 \<Rightarrow> byte list \<Rightarrow> byte list" where
  "query_answer object_id offset sz data =
     header (answer_to API_QUERY_OBJECT) (24 + sz) @ le_bytes 8 object_id @ le_bytes 8 offset @ le_bytes 8 sz @
     take (unat sz) data"

definition push_answer :: "i64 \<Rightarrow> i64 \<Rightarrow> i64 \<Rightarrow> i64 \<Rightarrow> byte list" where
  "push_answer object_id offset sz hash =
     header (answer_to API_PUSH_OBJECT) 32 @ le_bytes 8 object_id @ le_bytes 8 offset @ le_bytes 8 sz @ le_bytes 8 hash"

lemma AnswerQueryObject_eq:
  "AnswerQueryObject con data object_id offset sz s =
     (if 0 \<le>s sz \<and> unat sz \<le> length data
      then Some (emitData (c_outgoing con) (query_answer object_id offset sz data) s) else None)"
  by (simp add: AnswerQueryObject_def query_answer_def emitData_append Let_def del: le_bytes_numeral)

lemma AnswerPushObject_eq:
  "AnswerPushObject con object_id offset sz hash s =
     emitData (c_outgoing con) (push_answer object_id offset sz hash) s"
  by (simp add: AnswerPushObject_def push_answer_def emitData_append Let_def del: le_bytes_numeral)

lemma GetConnectionById_emit [simp]:
  "GetConnectionById i (emitData sock bytes s) = GetConnectionById i s"
  "GetConnectionById i (s\<lparr>h_waiters := heap\<rparr>) = GetConnectionById i s"
  "GetConnectionById i (s\<lparr>h_get_wait_list := t\<rparr>) = GetConnectionById i s"
  "GetConnectionById i (s\<lparr>h_set_wait_list := t\<rparr>) = GetConnectionById i s"
  by (simp_all add: GetConnectionById_def emitData_def)

lemma emitData_fields [simp]:
  "h_waiters (emitData sock bytes s) = h_waiters s" "h_get_wait_list (emitData sock bytes s) = h_get_wait_list s"
  "h_set_wait_list (emitData sock bytes s) = h_set_wait_list s" "h_conns (emitData sock bytes s) = h_conns s"
  by (simp_all add: emitData_def)

lemma send_to_fields [simp]:
  "h_waiters (send_to cs bytes s) = h_waiters s" "h_get_wait_list (send_to cs bytes s) = h_get_wait_list s"
  "h_set_wait_list (send_to cs bytes s) = h_set_wait_list s" "h_conns (send_to cs bytes s) = h_conns s"
  by (induction cs arbitrary: s) auto

lemma emitData_waiters: "(emitData sock bytes s)\<lparr>h_waiters := h\<rparr> = emitData sock bytes (s\<lparr>h_waiters := h\<rparr>)"
  by (simp add: emitData_def)

lemma send_to_waiters: "(send_to cs bytes s)\<lparr>h_waiters := h\<rparr> = send_to cs bytes (s\<lparr>h_waiters := h\<rparr>)"
  by (induction cs arbitrary: s) (auto simp: emitData_waiters)

definition askers :: "(i64 \<times> waiter) list \<Rightarrow> hive \<Rightarrow> conn list" where
  "askers xs s = map (\<lambda>(a, v). the (GetConnectionById (wt_params v) s)) xs"

lemma query_list_remote:
  assumes "chain (h_waiters s) q xs" "distinct (map fst xs)"
    "\<forall>(a, v) \<in> set xs. wt_callback v = callbackQueryAnswerLocalId \<and> GetConnectionById (wt_params v) s \<noteq> None"
    "0 \<le>s sz" "unat sz \<le> length data"
  shows "UpdateWaitingQueryList object_id offset sz data q s =
    Some ((send_to (askers xs s) (query_answer object_id offset sz data) s)\<lparr>h_waiters := released xs (h_waiters s)\<rparr>)"
  using assms(1-3)
proof (induction xs arbitrary: q s)
  case Nil
  then show ?case by (simp add: UpdateWaitingQueryList.simps askers_def)
next
  case (Cons x xs)
  obtain a v where x: "x = (a, v)" by fastforce
  obtain c where c: "GetConnectionById (wt_params v) s = Some c" using Cons.prems(3) x by auto
  let ?m = "query_answer object_id offset sz data"
  define s1 where "s1 = (emitData (c_outgoing c) ?m s)\<lparr>h_waiters := (h_waiters s)(a := None)\<rparr>"
  have conns: "GetConnectionById i s1 = GetConnectionById i s" for i by (simp add: s1_def)
  have q: "q = a" "a \<noteq> 0" "h_waiters s a = Some v" "chain (h_waiters s) (wt_next v) xs" "a \<notin> set (map fst xs)"
    using Cons.prems(1,2) x by auto
  have cb: "run_query_callback object_id offset sz data v s = Some (emitData (c_outgoing c) ?m s)"
    using Cons.prems(3) x c assms(4,5)
    by (simp add: run_query_callback_def callback_query_local_id_def AnswerQueryObject_eq)
  have "chain (h_waiters s1) (wt_next v) xs" using q(4) chain_update [OF q(5)] by (simp add: s1_def)
  moreover have "distinct (map fst xs)" using Cons.prems(2) by simp
  moreover have "\<forall>(a, v) \<in> set xs. wt_callback v = callbackQueryAnswerLocalId \<and> GetConnectionById (wt_params v) s1 \<noteq> None"
    using Cons.prems(3) by (simp add: conns)
  ultimately have IH: "UpdateWaitingQueryList object_id offset sz data (wt_next v) s1 =
      Some ((send_to (askers xs s1) ?m s1)\<lparr>h_waiters := released xs (h_waiters s1)\<rparr>)" by (rule Cons.IH)
  have "UpdateWaitingQueryList object_id offset sz data q s = UpdateWaitingQueryList object_id offset sz data (wt_next v) s1"
    using q(1-3) cb by (subst UpdateWaitingQueryList.simps) (simp add: s1_def)
  also have "\<dots> = Some ((send_to (c # askers xs s) ?m s)\<lparr>h_waiters := released (x # xs) (h_waiters s)\<rparr>)"
    unfolding IH by (simp add: x askers_def conns send_to_waiters s1_def)
  also have "c # askers xs s = askers (x # xs) s" by (simp add: askers_def x c)
  finally show ?case .
qed

lemma push_list_remote:
  assumes "chain (h_waiters s) q xs" "distinct (map fst xs)"
    "\<forall>(a, v) \<in> set xs. wt_callback v = callbackPushAnswerLocalId \<and> GetConnectionById (wt_params v) s \<noteq> None"
  shows "UpdateWaitingPushList object_id offset sz hash q s =
    Some ((send_to (askers xs s) (push_answer object_id offset sz hash) s)\<lparr>h_waiters := released xs (h_waiters s)\<rparr>)"
  using assms
proof (induction xs arbitrary: q s)
  case Nil
  then show ?case by (simp add: UpdateWaitingPushList.simps askers_def)
next
  case (Cons x xs)
  obtain a v where x: "x = (a, v)" by fastforce
  obtain c where c: "GetConnectionById (wt_params v) s = Some c" using Cons.prems(3) x by auto
  let ?m = "push_answer object_id offset sz hash"
  define s1 where "s1 = (emitData (c_outgoing c) ?m s)\<lparr>h_waiters := (h_waiters s)(a := None)\<rparr>"
  have conns: "GetConnectionById i s1 = GetConnectionById i s" for i by (simp add: s1_def)
  have q: "q = a" "a \<noteq> 0" "h_waiters s a = Some v" "chain (h_waiters s) (wt_next v) xs" "a \<notin> set (map fst xs)"
    using Cons.prems(1,2) x by auto
  have cb: "run_push_callback object_id offset sz hash v s = Some (emitData (c_outgoing c) ?m s)"
    using Cons.prems(3) x c by (simp add: run_push_callback_def callback_push_local_id_def AnswerPushObject_eq)
  have "chain (h_waiters s1) (wt_next v) xs" using q(4) chain_update [OF q(5)] by (simp add: s1_def)
  moreover have "distinct (map fst xs)" using Cons.prems(2) by simp
  moreover have "\<forall>(a, v) \<in> set xs. wt_callback v = callbackPushAnswerLocalId \<and> GetConnectionById (wt_params v) s1 \<noteq> None"
    using Cons.prems(3) by (simp add: conns)
  ultimately have IH: "UpdateWaitingPushList object_id offset sz hash (wt_next v) s1 =
      Some ((send_to (askers xs s1) ?m s1)\<lparr>h_waiters := released xs (h_waiters s1)\<rparr>)" by (rule Cons.IH)
  have "UpdateWaitingPushList object_id offset sz hash q s = UpdateWaitingPushList object_id offset sz hash (wt_next v) s1"
    using q(1-3) cb by (subst UpdateWaitingPushList.simps) (simp add: s1_def)
  also have "\<dots> = Some ((send_to (c # askers xs s) ?m s)\<lparr>h_waiters := released (x # xs) (h_waiters s)\<rparr>)"
    unfolding IH by (simp add: x askers_def conns send_to_waiters s1_def)
  also have "c # askers xs s = askers (x # xs) s" by (simp add: askers_def x c)
  finally show ?case .
qed

text \<open>Taking an untagged list and releasing it.\<close>

lemma untagged:
  assumes "q AND TAG = 0" "q \<noteq> 0" "t (take ks key) = q"
  shows "btbl_take ks t key = Some (t(take ks key := 1), q)"
proof -
  have "q = (q AND TAG) OR (q AND NOT TAG)" by (rule bit_word_eqI) (auto simp: bit_simps)
  then have "q AND NOT TAG = q" using assms(1) by simp
  then show ?thesis
    using assms by (simp add: btbl_take_def GETSET_WAIT_LIST_PARALLEL_PROCESSING_def word_sle_eq)
qed

lemma release_tag: "t (take ks key) = 1 \<Longrightarrow> btbl_add ks t key (-1) = Some (t(take ks key := 0))"
  by (simp add: btbl_add_def)

lemma answer_wakes_worker:
  assumes "room_for_task n s" "h_get_wait_list s (get_wait_list_key object_id offset (myAbs sz)) = q"
    "q \<noteq> 0" "q AND TAG = 0"
    "h_waiters s q = Some \<lparr>wt_next = 0, wt_params = p, wt_callback = callbackContinueWorkerFromWaitingQuery\<rparr>"
    "h_waiting s p = Some w" "w_state w = QueryObjectWait object_id offset sz destination timeout"
    "w_queued w = 0" "w_links w = 1" "worker_provider (w_id w) s = Some PROVIDER_X64"
    "unat (myAbs sz) \<le> length data" "if sz <s 0 then unat (myAbs sz) \<le> 8 else True"
  shows "\<exists>s' t k. UpdateWaitingQuery object_id offset (myAbs sz) data s = Some s' \<and> h_queued s' t = Some k \<and>
    sched_tasks (h_sched s') = add_mset t (sched_tasks (h_sched s)) \<and>
    k_id k = w_id w \<and> k_data k = w_data w \<and> k_rbp k = w_rbp w \<and> k_context k = w_context w \<and>
    (if sz <s 0 then take (unat (myAbs sz)) (le_bytes 8 (k_rdi k)) = take (unat (myAbs sz)) data
     else mem_read destination (unat (myAbs sz)) (h_mem s') = take (unat (myAbs sz)) data) \<and>
    h_get_wait_list s' = (h_get_wait_list s)(get_wait_list_key object_id offset (myAbs sz) := 0) \<and>
    h_waiting s' p = None"
proof -
  let ?key = "get_wait_list_key object_id offset (myAbs sz)" and ?n = "unat (myAbs sz)"
  let ?t1 = "(h_get_wait_list s)(?key := 1)"
  have take: "btbl_take 24 (h_get_wait_list s) ?key = Some (?t1, q)"
    using untagged [of q "h_get_wait_list s" 24 ?key] assms(2-4) by simp
  define s1 where "s1 = s\<lparr>h_get_wait_list := ?t1, h_junk_pos := h_junk_pos s + 1\<rparr>"
  obtain rdi0 where un: "uninitialised (s\<lparr>h_get_wait_list := ?t1\<rparr>) = (s1, rdi0)"
    by (simp add: uninitialised_def s1_def)
  define rdi where "rdi = (if sz <s 0 then le_word (take ?n data @ drop ?n (le_bytes 8 rdi0)) else rdi0)"
  define s2 where "s2 = (if sz <s 0 then s1 else s1\<lparr>h_mem := mem_write destination (take ?n data) (h_mem s1)\<rparr>)"
  have up: "UpdateFromQueryResult destination sz data rdi0 s1 = Some (s2, rdi)"
    using assms(11,12) by (auto simp: UpdateFromQueryResult_def s2_def rdi_def Let_def)
  have s2: "room_for_task n s2" "h_waiting s2 p = Some w" "worker_provider (w_id w) s2 = Some PROVIDER_X64"
    "h_waiters s2 = h_waiters s" "h_get_wait_list s2 = ?t1" "h_sched s2 = h_sched s"
    using assms(1,6,10) by (simp_all add: s2_def s1_def)
  obtain s3 t where cont: "continue_worker p rdi s2 = Some s3"
    "h_queued s3 = (h_queued s2)(t \<mapsto> \<lparr>k_id = w_id w, k_depth = w_depth w, k_data = w_data w, k_rdi = rdi,
      k_rbp = w_rbp w, k_context = w_context w\<rparr>)"
    "sched_tasks (h_sched s3) = add_mset t (sched_tasks (h_sched s2))" "h_waiting s3 = (h_waiting s2)(p := None)"
    "h_mem s3 = h_mem s2" "h_waiters s3 = h_waiters s2" "h_get_wait_list s3 = h_get_wait_list s2"
    using continue_worker_ok [OF s2(1,2) assms(8,9) s2(3), of rdi] by blast
  have cb: "run_query_callback object_id offset (myAbs sz) data
      \<lparr>wt_next = 0, wt_params = p, wt_callback = callbackContinueWorkerFromWaitingQuery\<rparr>
      (s\<lparr>h_get_wait_list := ?t1\<rparr>) = Some s3"
    using assms(6,7) un up cont(1)
    by (simp add: run_query_callback_def callback_continue_query_def x64OnQueryObject_def)
  let ?s4 = "s3\<lparr>h_waiters := (h_waiters s3)(q := None)\<rparr>"
  have "h_waiters s3 q = Some \<lparr>wt_next = 0, wt_params = p, wt_callback = callbackContinueWorkerFromWaitingQuery\<rparr>"
    using assms(5) cont(6) s2(4) by simp
  then have walk: "UpdateWaitingQueryList object_id offset (myAbs sz) data q (s\<lparr>h_get_wait_list := ?t1\<rparr>) = Some ?s4"
    using assms(3,5) cb by (subst UpdateWaitingQueryList.simps) (simp add: UpdateWaitingQueryList.simps [of _ _ _ _ 0])
  have rel: "btbl_add 24 (h_get_wait_list ?s4) ?key (-1) = Some (?t1(?key := 0))"
    using release_tag [of ?t1 24 ?key] cont(7) s2(5) by simp
  have run: "UpdateWaitingQuery object_id offset (myAbs sz) data s = Some (?s4\<lparr>h_get_wait_list := ?t1(?key := 0)\<rparr>)"
    unfolding UpdateWaitingQuery_def Let_def take
    by (simp only: option.case prod.case walk rel assms(3) if_False option.map)
  have "take ?n (le_bytes 8 rdi) = take ?n data" if "sz <s 0"
  proof -
    have "length (take ?n data @ drop ?n (le_bytes 8 rdi0)) = 8"
      using assms(11,12) that by (simp del: le_bytes_numeral)
    then have "le_bytes 8 rdi = take ?n data @ drop ?n (le_bytes 8 rdi0)"
      using le_bytes_le_word [of "take ?n data @ drop ?n (le_bytes 8 rdi0)"] that
      by (simp add: rdi_def del: le_bytes_numeral)
    then show ?thesis using assms(11) by (simp del: le_bytes_numeral)
  qed
  moreover have "mem_read destination ?n (h_mem s3) = take ?n data" if "\<not> sz <s 0"
  proof -
    have len: "length (take ?n data) = ?n" using assms(11) by simp
    moreover have "?n < 2 ^ 64" using unsigned_less [of "myAbs sz", where ?'a = nat] by simp
    ultimately show ?thesis
      using mem_read_write [of "take ?n data" destination "h_mem s1"] that cont(5) by (simp add: s2_def)
  qed
  ultimately show ?thesis
    using run cont(2-4) s2(6)
    by (intro exI [of _ "?s4\<lparr>h_get_wait_list := ?t1(?key := 0)\<rparr>"] exI [of _ t]
        exI [of _ "\<lparr>k_id = w_id w, k_depth = w_depth w, k_data = w_data w, k_rdi = rdi,
          k_rbp = w_rbp w, k_context = w_context w\<rparr>"]) (simp del: le_bytes_numeral)
qed

text \<open>Two connections that wait for two bytes of object 7, for the examples.\<close>

definition sample_conn :: "i64 \<Rightarrow> i64 \<Rightarrow> conn" where
  "sample_conn i sock = \<lparr>c_local_id = i, c_ctx = Some new_context, c_outgoing = sock, c_wait_list_len = 0,
     c_queue_len = 0, c_idle_time = 0\<rparr>"

definition sample_waiting :: hive where
  "sample_waiting = sample_program\<lparr>h_conns := [sample_conn 3 10, sample_conn 4 11],
     h_waiters := [0x200 \<mapsto> \<lparr>wt_next = 0x210, wt_params = 3, wt_callback = callbackQueryAnswerLocalId\<rparr>,
                   0x210 \<mapsto> \<lparr>wt_next = 0, wt_params = 4, wt_callback = callbackQueryAnswerLocalId\<rparr>],
     h_get_wait_list := (\<lambda>_. 0)(get_wait_list_key 7 0 2 := 0x200)\<rparr>"

section \<open>Properties\<close>

text \<open>
  C32. An answer reaches every hive that waits for it, once: when the list of waiters of a query holds any
  number of other hives, \<^verbatim>\<open>UpdateWaitingQuery\<close> returns, has sent the answer to each of them in the
  order of the list and nothing else, has freed all nodes, and leaves the list of this key empty and
  untagged, and all other lists as they were.
\<close>

theorem waiting_hives_answered:
  assumes "h_get_wait_list s (get_wait_list_key object_id offset sz) = q" "q \<noteq> 0" "q AND TAG = 0"
    "chain (h_waiters s) q xs" "distinct (map fst xs)"
    "\<forall>(a, v) \<in> set xs. wt_callback v = callbackQueryAnswerLocalId \<and> GetConnectionById (wt_params v) s \<noteq> None"
    "0 \<le>s sz" "unat sz \<le> length data"
  shows "\<exists>s'. UpdateWaitingQuery object_id offset sz data s = Some s' \<and>
    h_sent s' = h_sent (send_to (askers xs s) (query_answer object_id offset sz data) s) \<and>
    h_waiters s' = released xs (h_waiters s) \<and>
    h_get_wait_list s' = (h_get_wait_list s)(get_wait_list_key object_id offset sz := 0)"
proof -
  let ?key = "get_wait_list_key object_id offset sz"
  let ?m = "query_answer object_id offset sz data"
  have key: "take 24 ?key = ?key" by simp
  have take: "btbl_take 24 (h_get_wait_list s) ?key = Some ((h_get_wait_list s)(?key := 1), q)"
    using untagged [of q "h_get_wait_list s" 24 ?key] assms(1-3) key by simp
  let ?s = "s\<lparr>h_get_wait_list := (h_get_wait_list s)(?key := 1)\<rparr>"
  have "chain (h_waiters ?s) q xs"
    "\<forall>(a, v) \<in> set xs. wt_callback v = callbackQueryAnswerLocalId \<and> GetConnectionById (wt_params v) ?s \<noteq> None"
    using assms(4,6) by auto
  note walk = query_list_remote [OF this(1) assms(5) this(2) assms(7,8), of object_id offset]
  let ?s' = "(send_to (askers xs ?s) ?m ?s)\<lparr>h_waiters := released xs (h_waiters ?s)\<rparr>"
  have rel: "btbl_add 24 (h_get_wait_list ?s') ?key (-1) = Some ((h_get_wait_list s)(?key := 0))"
    using release_tag [of "(h_get_wait_list s)(?key := 1)" 24 ?key] key by simp
  have "UpdateWaitingQuery object_id offset sz data s =
      Some (?s'\<lparr>h_get_wait_list := (h_get_wait_list s)(?key := 0)\<rparr>)"
    unfolding UpdateWaitingQuery_def Let_def take
    by (simp only: option.case prod.case walk rel assms(2) if_False option.map)
  moreover have "askers xs ?s = askers xs s" by (simp add: askers_def)
  moreover have "h_sent (send_to cs ?m ?s) = h_sent (send_to cs ?m s)" for cs by (simp add: send_to_sent fun_eq_iff)
  ultimately show ?thesis by simp
qed

theorem waiting_hives_answered_witness:
  "\<exists>s'. UpdateWaitingQuery 7 0 2 [5, 6, 99] sample_waiting = Some s' \<and>
     h_sent s' 10 = query_answer 7 0 2 [5, 6, 99] \<and> h_sent s' 11 = query_answer 7 0 2 [5, 6, 99] \<and> h_sent s' 12 = []"
proof -
  let ?xs = "[(0x200, \<lparr>wt_next = 0x210, wt_params = 3, wt_callback = callbackQueryAnswerLocalId\<rparr>),
     (0x210, \<lparr>wt_next = 0, wt_params = 4, wt_callback = callbackQueryAnswerLocalId\<rparr>)]"
  have conns: "GetConnectionById 3 sample_waiting = Some (sample_conn 3 10)"
    "GetConnectionById 4 sample_waiting = Some (sample_conn 4 11)"
    by (simp_all add: GetConnectionById_def sample_waiting_def sample_conn_def)
  have "\<exists>s'. UpdateWaitingQuery 7 0 2 [5, 6, 99] sample_waiting = Some s' \<and>
      h_sent s' = h_sent (send_to (askers ?xs sample_waiting) (query_answer 7 0 2 [5, 6, 99]) sample_waiting)"
    using waiting_hives_answered [of sample_waiting 7 0 2 "0x200" ?xs "[5, 6, 99]"] conns
    by (auto simp: sample_waiting_def word_sle_eq GETSET_WAIT_LIST_VALUE_PROCESSING_TAG_def)
  moreover have "askers ?xs sample_waiting = [sample_conn 3 10, sample_conn 4 11]" by (simp add: askers_def conns)
  moreover have "h_sent sample_waiting = (\<lambda>_. [])" by (simp add: sample_waiting_def sample_program_def init_hive_def)
  ultimately show ?thesis by (auto simp: emitData_def sample_conn_def INVALID_SOCKET_def)
qed

text \<open>
  The acknowledgement of a push reaches every hive that waits for it, once: the same for the list of
  a push, where the message carries the hash of the data.
\<close>

theorem waiting_pushes_answered:
  assumes "h_set_wait_list s (set_wait_list_key object_id offset sz hash) = q" "q \<noteq> 0" "q AND TAG = 0"
    "chain (h_waiters s) q xs" "distinct (map fst xs)"
    "\<forall>(a, v) \<in> set xs. wt_callback v = callbackPushAnswerLocalId \<and> GetConnectionById (wt_params v) s \<noteq> None"
  shows "\<exists>s'. UpdateWaitingPush object_id offset sz hash s = Some s' \<and>
    h_sent s' = h_sent (send_to (askers xs s) (push_answer object_id offset sz hash) s) \<and>
    h_waiters s' = released xs (h_waiters s) \<and>
    h_set_wait_list s' = (h_set_wait_list s)(set_wait_list_key object_id offset sz hash := 0)"
proof -
  let ?key = "set_wait_list_key object_id offset sz hash"
  let ?m = "push_answer object_id offset sz hash"
  have key: "take 32 ?key = ?key" by simp
  have take: "btbl_take 32 (h_set_wait_list s) ?key = Some ((h_set_wait_list s)(?key := 1), q)"
    using untagged [of q "h_set_wait_list s" 32 ?key] assms(1-3) key by simp
  let ?s = "s\<lparr>h_set_wait_list := (h_set_wait_list s)(?key := 1)\<rparr>"
  have "chain (h_waiters ?s) q xs"
    "\<forall>(a, v) \<in> set xs. wt_callback v = callbackPushAnswerLocalId \<and> GetConnectionById (wt_params v) ?s \<noteq> None"
    using assms(4,6) by auto
  note walk = push_list_remote [OF this(1) assms(5) this(2), of object_id offset sz hash]
  let ?s' = "(send_to (askers xs ?s) ?m ?s)\<lparr>h_waiters := released xs (h_waiters ?s)\<rparr>"
  have rel: "btbl_add 32 (h_set_wait_list ?s') ?key (-1) = Some ((h_set_wait_list s)(?key := 0))"
    using release_tag [of "(h_set_wait_list s)(?key := 1)" 32 ?key] key by simp
  have "UpdateWaitingPush object_id offset sz hash s =
      Some (?s'\<lparr>h_set_wait_list := (h_set_wait_list s)(?key := 0)\<rparr>)"
    unfolding UpdateWaitingPush_def Let_def take
    by (simp only: option.case prod.case walk rel assms(2) if_False option.map)
  moreover have "askers xs ?s = askers xs s" by (simp add: askers_def)
  moreover have "h_sent (send_to cs ?m ?s) = h_sent (send_to cs ?m s)" for cs by (simp add: send_to_sent fun_eq_iff)
  ultimately show ?thesis by simp
qed

theorem waiting_pushes_answered_witness:
  "\<exists>s'. UpdateWaitingPush 7 0 2 1 (sample_waiting\<lparr>h_set_wait_list := (\<lambda>_. 0)(set_wait_list_key 7 0 2 1 := 0x300),
       h_waiters := [0x300 \<mapsto> \<lparr>wt_next = 0, wt_params = 4, wt_callback = callbackPushAnswerLocalId\<rparr>]\<rparr>) = Some s' \<and>
     h_sent s' 11 = push_answer 7 0 2 1 \<and> h_waiters s' 0x300 = None"
proof -
  let ?v = "\<lparr>wt_next = 0, wt_params = 4, wt_callback = callbackPushAnswerLocalId\<rparr>"
  define s where "s = sample_waiting\<lparr>h_set_wait_list := (\<lambda>_. 0)(set_wait_list_key 7 0 2 1 := 0x300), h_waiters := [0x300 \<mapsto> ?v]\<rparr>"
  have conn: "GetConnectionById 4 s = Some (sample_conn 4 11)"
    by (simp add: GetConnectionById_def s_def sample_waiting_def sample_conn_def)
  have "\<exists>s'. UpdateWaitingPush 7 0 2 1 s = Some s' \<and>
      h_sent s' = h_sent (send_to (askers [(0x300, ?v)] s) (push_answer 7 0 2 1) s) \<and>
      h_waiters s' = released [(0x300, ?v)] (h_waiters s)"
    using waiting_pushes_answered [of s 7 0 2 1 "0x300" "[(0x300, ?v)]"] conn
    by (auto simp: s_def GETSET_WAIT_LIST_VALUE_PROCESSING_TAG_def)
  moreover have "askers [(0x300, ?v)] s = [sample_conn 4 11]" by (simp add: askers_def conn)
  moreover have "h_sent s 11 = []" by (simp add: s_def sample_waiting_def sample_program_def init_hive_def)
  ultimately show ?thesis by (auto simp: emitData_def sample_conn_def INVALID_SOCKET_def simp flip: s_def)
qed

text \<open>
  A waiter of a push in the list of the queries is undefined behaviour: when the answer to a query of the
  same object, offset and size arrives and the list of queries starts with a node that the redirection of
  a push has put there, the walk calls its callback through a type that it does not have.
\<close>

theorem push_waiter_among_queries:
  assumes "h_get_wait_list s (get_wait_list_key object_id offset sz) = q" "q \<noteq> 0" "q AND TAG = 0"
    "h_waiters s q = Some v" "wt_callback v = callbackPushAnswerLocalId"
  shows "UpdateWaitingQuery object_id offset sz data s = None"
proof -
  let ?key = "get_wait_list_key object_id offset sz"
  have take: "btbl_take 24 (h_get_wait_list s) ?key = Some ((h_get_wait_list s)(?key := 1), q)"
    using untagged [of q "h_get_wait_list s" 24 ?key] assms(1-3) by simp
  have "UpdateWaitingQueryList object_id offset sz data q (s\<lparr>h_get_wait_list := (h_get_wait_list s)(?key := 1)\<rparr>) = None"
    using assms(2,4,5) by (subst UpdateWaitingQueryList.simps) (simp add: run_query_callback_def)
  then show ?thesis using assms(2) by (simp add: UpdateWaitingQuery_def take)
qed

theorem push_waiter_among_queries_witness:
  "UpdateWaitingQuery 7 0 2 [5, 6] (sample_waiting\<lparr>
     h_waiters := [0x200 \<mapsto> \<lparr>wt_next = 0, wt_params = 3, wt_callback = callbackPushAnswerLocalId\<rparr>]\<rparr>) = None"
  by (rule push_waiter_among_queries [of _ 7 0 2 "0x200" "\<lparr>wt_next = 0, wt_params = 3, wt_callback = callbackPushAnswerLocalId\<rparr>"])
    (simp_all add: sample_waiting_def GETSET_WAIT_LIST_VALUE_PROCESSING_TAG_def)

text \<open>
  C33. An answer wakes the worker that waits for it, with the data: when the list of a query holds one paused
  worker, \<^verbatim>\<open>UpdateWaitingQuery\<close> puts it back into the scheduler as one new task with its program
  address and frame; a value of negative size is in its \<^verbatim>\<open>rdi\<close>, other data at its destination; the
  list is empty and the paused record freed.
\<close>

theorem waiting_worker_gets_answer:
  assumes "room_for_task n s" "h_get_wait_list s (get_wait_list_key object_id offset (myAbs sz)) = q"
    "q \<noteq> 0" "q AND TAG = 0"
    "h_waiters s q = Some \<lparr>wt_next = 0, wt_params = p, wt_callback = callbackContinueWorkerFromWaitingQuery\<rparr>"
    "h_waiting s p = Some w" "w_state w = QueryObjectWait object_id offset sz destination timeout"
    "w_queued w = 0" "w_links w = 1" "worker_provider (w_id w) s = Some PROVIDER_X64"
    "unat (myAbs sz) \<le> length data" "if sz <s 0 then unat (myAbs sz) \<le> 8 else True"
  shows "\<exists>s' t k. UpdateWaitingQuery object_id offset (myAbs sz) data s = Some s' \<and> h_queued s' t = Some k \<and>
    sched_tasks (h_sched s') = add_mset t (sched_tasks (h_sched s)) \<and>
    k_id k = w_id w \<and> k_data k = w_data w \<and> k_rbp k = w_rbp w \<and> k_context k = w_context w \<and>
    (if sz <s 0 then take (unat (myAbs sz)) (le_bytes 8 (k_rdi k)) = take (unat (myAbs sz)) data
     else mem_read destination (unat (myAbs sz)) (h_mem s') = take (unat (myAbs sz)) data) \<and>
    h_get_wait_list s' = (h_get_wait_list s)(get_wait_list_key object_id offset (myAbs sz) := 0) \<and>
    h_waiting s' p = None"
  using answer_wakes_worker [OF assms] .

theorem waiting_worker_gets_answer_witness:
  "\<exists>s' t k. UpdateWaitingQuery 7 0 2 [5, 6, 99] (sample_program\<lparr>
       h_waiters := [0x200 \<mapsto> \<lparr>wt_next = 0, wt_params = 0x100, wt_callback = callbackContinueWorkerFromWaitingQuery\<rparr>],
       h_get_wait_list := (\<lambda>_. 0)(get_wait_list_key 7 0 2 := 0x200),
       h_waiting := [0x100 \<mapsto> sample_paused\<lparr>w_state := QueryObjectWait 7 0 (-2) 0 0\<rparr>]\<rparr>) = Some s' \<and>
     h_queued s' t = Some k \<and> k_data k = 0x420 \<and> take 2 (le_bytes 8 (k_rdi k)) = [5, 6]"
proof -
  define w where "w = sample_paused\<lparr>w_state := QueryObjectWait 7 0 (-2) 0 0\<rparr>"
  define s where "s = sample_program\<lparr>
       h_waiters := [0x200 \<mapsto> \<lparr>wt_next = 0, wt_params = 0x100, wt_callback = callbackContinueWorkerFromWaitingQuery\<rparr>],
       h_get_wait_list := (\<lambda>_. 0)(get_wait_list_key 7 0 2 := 0x200), h_waiting := [0x100 \<mapsto> w]\<rparr>"
  have "room_for_task 1 sample_program" using room_for_task_init [of 1] by (simp add: sample_program_def)
  then have room: "room_for_task 1 s"
    by (auto simp: room_for_task_def queued_pool_ok_def heap_ok_def s_def sample_program_def init_hive_def)
  have abs2: "myAbs (-2) = 2" by (simp add: myAbs_def word_sless_alt)
  have "\<exists>s' t k. UpdateWaitingQuery 7 0 (myAbs (-2)) [5, 6, 99] s = Some s' \<and> h_queued s' t = Some k \<and>
      k_data k = w_data w \<and> take (unat (myAbs (-2))) (le_bytes 8 (k_rdi k)) = take (unat (myAbs (-2))) [5, 6, 99]"
    using waiting_worker_gets_answer [OF room, of 7 0 "-2" "0x200" "0x100" w 0 0 "[5, 6, 99]"]
    by (auto simp: s_def abs2 w_def GETSET_WAIT_LIST_VALUE_PROCESSING_TAG_def sample_paused_def zero_waiting_def
        worker_provider_def sample_program_def init_hive_def word_sless_alt simp del: le_bytes_numeral)
  moreover have "w_data w = 0x420" by (simp add: w_def sample_paused_def zero_waiting_def)
  ultimately show ?thesis unfolding w_def [symmetric] unfolding s_def [symmetric] by (simp add: abs2 del: le_bytes_numeral)
qed

end
