(* ===== verification/Requests.thy ===== *)
theory Requests
  imports Callbacks
begin

text \<open>
  Requests on objects: \<^verbatim>\<open>RequestObjectGet\<close> and \<^verbatim>\<open>RequestObjectSet\<close> of
  \<^verbatim>\<open>common/remote.c\<close>, and the operations that worker programs call (\<^verbatim>\<open>x64/new_object.c\<close>,
  \<^verbatim>\<open>x64/push_object.c\<close>, \<^verbatim>\<open>x64/query_object.c\<close>, \<^verbatim>\<open>x64/sleep.c\<close>,
  \<^verbatim>\<open>x64/call_object.c\<close>). An operation either returns to the program or leaves it by a long jump to
  the scheduler, with the program paused.
\<close>

definition QUERY_REPEAT_TIMEOUT :: i64 where "QUERY_REPEAT_TIMEOUT = 1000"
definition PUSH_REPEAT_TIMEOUT :: i64 where "PUSH_REPEAT_TIMEOUT = 1000"

text \<open>\<open>None\<close> as a worker is the null pointer. A linked node is allocated and forgotten.\<close>

definition add_query_waiter :: "i64 \<Rightarrow> i64 \<Rightarrow> i64 \<Rightarrow> i64 option \<Rightarrow> hive \<Rightarrow> hive option" where
  "add_query_waiter object_id offset sz worker s =
     (case worker of
        None \<Rightarrow> Some s
      | Some w \<Rightarrow>
          do { (s, _) \<leftarrow> myMalloc 16 s;
               insert_get_waiter 24 (get_wait_list_key object_id offset sz) w
                 callbackContinueWorkerFromWaitingQuery s })"

definition add_push_waiter :: "i64 \<Rightarrow> i64 \<Rightarrow> i64 \<Rightarrow> i64 \<Rightarrow> i64 option \<Rightarrow> hive \<Rightarrow> hive option" where
  "add_push_waiter object_id offset sz hash worker s =
     (case worker of
        None \<Rightarrow> Some s
      | Some w \<Rightarrow>
          do { (s, _) \<leftarrow> myMalloc 16 s;
               insert_set_waiter 24 (set_wait_list_key object_id offset sz hash) w
                 callbackContinueWorkerFromWaitingPush s })"

text \<open>
  The connection that leads to an object: none when there is no entry or an unknown one; then a broadcast
  asks for the path, and the request itself is dropped. A path to a connection that no longer exists is a
  null pointer.
\<close>

definition known_path :: "i64 \<Rightarrow> hive \<Rightarrow> path option option" where
  "known_path object_id s =
     (let ptr = tbl_get (h_object_paths s) object_id in
      if ptr = 0 then Some None
      else case h_paths s ptr of
          None \<Rightarrow> None
        | Some p \<Rightarrow> Some (if pa_local_id p = -1 then None else Some p))"

definition find_path :: "i64 \<Rightarrow> hive \<Rightarrow> hive option" where
  "find_path object_id s =
     RequestObjectPathBroadcast object_id (-1) (s\<lparr>h_stat_misses := h_stat_misses s + 1\<rparr>)"

definition RequestObjectGet :: "i64 \<Rightarrow> i64 \<Rightarrow> i64 \<Rightarrow> i64 option \<Rightarrow> hive \<Rightarrow> hive option" where
  "RequestObjectGet object_id offset sz worker s =
     do { s \<leftarrow> add_query_waiter object_id offset sz worker s;
          known \<leftarrow> known_path object_id s;
          (case known of
             None \<Rightarrow> find_path object_id s
           | Some p \<Rightarrow>
               let s = s\<lparr>h_stat_output := h_stat_output s + 1\<rparr> in
               do { con \<leftarrow> GetConnectionById (pa_local_id p) s;
                    let sock = c_outgoing con;
                    let s = emitData sock (header API_QUERY_OBJECT 24) s;
                    let s = emitData sock (le_bytes 8 object_id) s;
                    let s = emitData sock (le_bytes 8 offset) s;
                    Some (emitData sock (le_bytes 8 sz) s) }) }"

text \<open>\<^verbatim>\<open>universalUpdateLocalPush\<close> ignores objects of other providers.\<close>

definition universalUpdateLocalPush :: "i64 \<Rightarrow> i64 \<Rightarrow> i64 \<Rightarrow> push_source \<Rightarrow> hive \<Rightarrow> hive option" where
  "universalUpdateLocalPush pointer offset sz source s =
     do { ob \<leftarrow> h_objects s pointer;
          provider \<leftarrow> obj_provider ob;
          if ucast provider = PROVIDER_X64
          then do { ob \<leftarrow> UpdateLocalPush ob offset sz source;
                    Some (s\<lparr>h_objects := (h_objects s)(pointer \<mapsto> ob)\<rparr>) }
          else Some s }"

text \<open>The hash of a push; a negative size, which only a broken message can have, is outside the model.\<close>

definition hash_of :: "byte list \<Rightarrow> i64 \<Rightarrow> i64 option" where
  "hash_of data sz =
     (if 0 \<le>s sz \<and> unat sz \<le> length data then Some (GetByteStringHash (take (unat sz) data)) else None)"

definition RequestObjectSet :: "i64 \<Rightarrow> i64 \<Rightarrow> i64 \<Rightarrow> byte list \<Rightarrow> i64 option \<Rightarrow> hive \<Rightarrow> hive option" where
  "RequestObjectSet object_id offset sz data worker s =
     do { hash \<leftarrow> hash_of data sz;
          let loc = tbl_get (h_local_objects s) object_id;
          if loc \<noteq> 0 then
            do { s \<leftarrow> universalUpdateLocalPush loc offset sz (Memory data) s;
                 UpdateWaitingPush object_id offset sz hash s }
          else
            do { s \<leftarrow> add_push_waiter object_id offset sz hash worker s;
                 let s = s\<lparr>h_stat_output := h_stat_output s + 1\<rparr>;
                 known \<leftarrow> known_path object_id s;
                 (case known of
                    None \<Rightarrow> find_path object_id s
                  | Some p \<Rightarrow>
                      do { con \<leftarrow> GetConnectionById (pa_local_id p) s;
                           let sock = c_outgoing con;
                           let s = emitData sock (header API_PUSH_OBJECT (24 + sz)) s;
                           let s = emitData sock (le_bytes 8 object_id) s;
                           let s = emitData sock (le_bytes 8 offset) s;
                           let s = emitData sock (le_bytes 8 sz) s;
                           Some (emitData sock (take (unat sz) data) s) }) } }"

section \<open>The operations of worker programs\<close>

datatype 'a outcome = Returned 'a | Paused

text \<open>\<open>rdi\<close> is what the caller passes for a value of negative size; the flag says whether it is ready.\<close>

definition x64QueryLocalObject ::
  "i64 \<Rightarrow> obj \<Rightarrow> i64 \<Rightarrow> i64 \<Rightarrow> i64 \<Rightarrow> hive \<Rightarrow> (hive \<times> bool \<times> i64) option" where
  "x64QueryLocalObject destination ob offset sz rdi s =
     (case QueryLocalObject ob offset sz of
        None \<Rightarrow> None
      | Some None \<Rightarrow> Some (s, False, rdi)
      | Some (Some d) \<Rightarrow>
          map_option (\<lambda>(s, rdi). (s, True, rdi)) (UpdateFromQueryResult destination sz d rdi s))"

definition x64QueryObject ::
  "i64 \<Rightarrow> i64 \<Rightarrow> i64 \<Rightarrow> i64 \<Rightarrow> i64 \<Rightarrow> i64 \<Rightarrow> hive \<Rightarrow> (hive \<times> i64 outcome) option" where
  "x64QueryObject destination object_id offset sz returnAddress rbpValue s =
     (let pointer = tbl_get (h_local_objects s) object_id;
          pause = (\<lambda>s. do {
            s \<leftarrow> set_stallable s;
            let (s, timeout) = SheduleTimeoutFromNow QUERY_REPEAT_TIMEOUT s;
            let (s, _) = SECURE_RANDOM BROADCAST_ID_LENGTH s;
            (s, worker) \<leftarrow> universalPauseWorker returnAddress rbpValue
              (QueryObjectWait object_id offset sz destination timeout) s;
            s \<leftarrow> (if pointer = 0 then RequestObjectGet object_id offset (myAbs sz) (Some worker) s
                 else WaitListWorker worker s);
            Some (s, Paused) })
      in if pointer = 0 then pause s
         else do { ob \<leftarrow> h_objects s pointer;
                   let (s, rdi) = uninitialised s;
                   (s, ready, rdi) \<leftarrow> x64QueryLocalObject destination ob offset sz rdi s;
                   if ready then Some (s, Returned rdi) else pause s })"

text \<open>
  The bytes at a source: of a negative size the pointer argument itself. \<open>source_bytes\<close> are the bytes
  that a copy of the absolute size reads.
\<close>

definition push_source_of :: "i64 \<Rightarrow> i64 \<Rightarrow> hive \<Rightarrow> push_source" where
  "push_source_of source sz s =
     (if sz <s 0 then Immediate source else Memory (mem_read source (unat sz) (h_mem s)))"

definition source_bytes :: "i64 \<Rightarrow> i64 \<Rightarrow> hive \<Rightarrow> byte list option" where
  "source_bytes source sz s =
     (if sz <s 0 then (if unat (- sz) \<le> 8 then Some (take (unat (- sz)) (le_bytes 8 source)) else None)
      else Some (mem_read source (unat sz) (h_mem s)))"

text \<open>After a push to a promise the waiting queries of exactly this part are served.\<close>

definition notify_promise :: "i64 \<Rightarrow> i64 \<Rightarrow> i64 \<Rightarrow> i64 \<Rightarrow> byte list option \<Rightarrow> hive \<Rightarrow> hive option" where
  "notify_promise pointer object_id offset sz data s =
     do { ob \<leftarrow> h_objects s pointer;
          t \<leftarrow> obj_type ob;
          if ucast t = OBJECT_PROMISE
          then do { d \<leftarrow> data; UpdateWaitingQuery object_id offset (myAbs sz) d s }
          else Some s }"

definition x64PushObject ::
  "i64 \<Rightarrow> i64 \<Rightarrow> i64 \<Rightarrow> i64 \<Rightarrow> i64 \<Rightarrow> i64 \<Rightarrow> hive \<Rightarrow> (hive \<times> unit outcome) option" where
  "x64PushObject object_id source offset sz returnAddress rbpValue s =
     (let pointer = tbl_get (h_local_objects s) object_id in
      if pointer = 0 then
        do { s \<leftarrow> set_stallable s;
             d \<leftarrow> source_bytes source sz s;
             (s, ptr) \<leftarrow> myMalloc (unat (myAbs sz)) s;
             let (s, timeout) = SheduleTimeoutFromNow PUSH_REPEAT_TIMEOUT s;
             let (s, _) = SECURE_RANDOM BROADCAST_ID_LENGTH s;
             (s, wait) \<leftarrow> universalPauseWorker returnAddress rbpValue
               (PushObjectWait object_id offset sz (GetByteStringHash d) ptr d timeout) s;
             s \<leftarrow> RequestObjectSet object_id offset (myAbs sz) d (Some wait) s;
             Some (s, Paused) }
      else
        do { ob \<leftarrow> h_objects s pointer;
             ob \<leftarrow> UpdateLocalPush ob offset sz (push_source_of source sz s);
             let s = s\<lparr>h_objects := (h_objects s)(pointer \<mapsto> ob)\<rparr>;
             s \<leftarrow> notify_promise pointer object_id offset sz (source_bytes source sz s) s;
             Some (s, Returned ()) })"

text \<open>A null return address asks not to wait. A worker that waits for a page is put in no list.\<close>

definition x64NewObject :: "i64 \<Rightarrow> i64 \<Rightarrow> i64 \<Rightarrow> i64 \<Rightarrow> i64 \<Rightarrow> hive \<Rightarrow> (hive \<times> i64 outcome) option" where
  "x64NewObject type sz param returnAddress rbpValue s =
     (case GetNewObjectId s of
        (s, Some remote_id) \<Rightarrow>
          do { s \<leftarrow> x64NewObjectUsingPage type sz param remote_id s; Some (s, Returned remote_id) }
      | (s, None) \<Rightarrow>
          if returnAddress = 0 then Some (s, Returned 0)
          else do { (s, _) \<leftarrow> universalPauseWorker returnAddress rbpValue (NewObjectWaitPages type sz param) s;
                    Some (s, Paused) })"

definition x64Sleep :: "i64 \<Rightarrow> i64 \<Rightarrow> i64 \<Rightarrow> hive \<Rightarrow> (hive \<times> i64 outcome) option" where
  "x64Sleep time returnAddress rbpValue s =
     (let (s, endTime) = SheduleTimeoutFromNow (time * 1000) s in
      do { (s, w) \<leftarrow> universalPauseWorker returnAddress rbpValue (TimerWait endTime) s;
           s \<leftarrow> WaitListWorker w s;
           Some (s, Paused) })"

definition x64CallObject :: "i64 \<Rightarrow> i64 \<Rightarrow> i64 \<Rightarrow> hive \<Rightarrow> hive option" where
  "x64CallObject moditifer args workerId s =
     (if unat workerId < length (h_workers s) \<and> 0 \<le>s wi_input_size (h_workers s ! unat workerId)
      then StartNewWorker workerId moditifer
             (mem_read args (unat (wi_input_size (h_workers s ! unat workerId))) (h_mem s)) s
      else None)"

section \<open>Waiting workers\<close>

text \<open>
  One look at a paused worker: the state, whether it can go on, and its \<^verbatim>\<open>rdi\<close>. A push that has
  become local writes the address of its data, cut to the size, when its size is negative.
\<close>

definition x64NewObjectStates :: "i64 \<Rightarrow> i64 \<Rightarrow> i64 \<Rightarrow> i64 \<Rightarrow> hive \<Rightarrow> (hive \<times> bool \<times> i64) option" where
  "x64NewObjectStates w type sz param s =
     (case GetNewObjectId s of
        (s, Some new_id) \<Rightarrow>
          do { s \<leftarrow> x64NewObjectUsingPage type sz param new_id s; Some (s, True, new_id) }
      | (s, None) \<Rightarrow> do { s \<leftarrow> WaitListWorker w s; Some (s, False, 0) })"

definition set_state :: "i64 \<Rightarrow> wait_state \<Rightarrow> hive \<Rightarrow> hive option" where
  "set_state p st s =
     map_option (\<lambda>w. s\<lparr>h_waiting := (h_waiting s)(p \<mapsto> w\<lparr>w_state := st\<rparr>)\<rparr>) (h_waiting s p)"

definition x64PushObjectStates ::
  "i64 \<Rightarrow> i64 \<Rightarrow> i64 \<Rightarrow> i64 \<Rightarrow> i64 \<Rightarrow> i64 \<Rightarrow> i64 \<Rightarrow> byte list \<Rightarrow> i64 \<Rightarrow> hive \<Rightarrow> (hive \<times> bool) option" where
  "x64PushObjectStates w ticks object_id offset sz hash ptr data timeout s =
     (let pointer = tbl_get (h_local_objects s) object_id in
      if pointer = 0 then
        if timeout <s ticks then
          do { s \<leftarrow> RequestObjectSet object_id offset (myAbs sz) data (Some w) s;
               let (s, timeout) = SheduleTimeoutFromNow PUSH_REPEAT_TIMEOUT s;
               s \<leftarrow> set_state w (PushObjectWait object_id offset sz hash ptr data timeout) s;
               Some (s, False) }
        else do { s \<leftarrow> wait_for_push object_id offset sz hash w s; Some (s, False) }
      else
        do { ob \<leftarrow> h_objects s pointer;
             ob \<leftarrow> UpdateLocalPush ob offset sz (if sz <s 0 then Immediate ptr else Memory data);
             let s = s\<lparr>h_objects := (h_objects s)(pointer \<mapsto> ob)\<rparr>;
             s \<leftarrow> notify_promise pointer object_id offset sz (Some data) s;
             Some (s, True) })"

definition x64QueryObjectStates ::
  "i64 \<Rightarrow> i64 \<Rightarrow> i64 \<Rightarrow> i64 \<Rightarrow> i64 \<Rightarrow> i64 \<Rightarrow> i64 \<Rightarrow> hive \<Rightarrow> (hive \<times> bool \<times> i64) option" where
  "x64QueryObjectStates w ticks object_id offset sz destination timeout s =
     (let pointer = tbl_get (h_local_objects s) object_id in
      if pointer = 0 then
        if timeout <s ticks then
          do { s \<leftarrow> RequestObjectGet object_id offset (myAbs sz) (Some w) s;
               let (s, timeout) = SheduleTimeoutFromNow QUERY_REPEAT_TIMEOUT s;
               s \<leftarrow> set_state w (QueryObjectWait object_id offset sz destination timeout) s;
               Some (s, False, 0) }
        else do { s \<leftarrow> wait_for_query object_id offset sz w s; Some (s, False, 0) }
      else
        do { ob \<leftarrow> h_objects s pointer;
             (s, ready, rdi) \<leftarrow> x64QueryLocalObject destination ob offset sz 0 s;
             if ready then Some (s, True, rdi)
             else do { s \<leftarrow> wait_for_query object_id offset sz w s; Some (s, False, 0) } })"

definition x64SleepStates :: "i64 \<Rightarrow> i64 \<Rightarrow> i64 \<Rightarrow> hive \<Rightarrow> (hive \<times> bool) option" where
  "x64SleepStates w ticks endTime s =
     (if endTime \<le>s ticks then Some (s, True)
      else do { s \<leftarrow> WaitListWorker w s; Some (s, False) })"

definition UpdateSingleWorker :: "i64 \<Rightarrow> i64 \<Rightarrow> hive \<Rightarrow> (hive \<times> bool) option" where
  "UpdateSingleWorker ticks p s =
     do { w \<leftarrow> h_waiting s p;
          (s, res, rdiValue) \<leftarrow>
            (case w_state w of
               NewObjectWaitPages type sz param \<Rightarrow> x64NewObjectStates p type sz param s
             | PushObjectWait oid off sz hash ptr data timeout \<Rightarrow>
                 map_option (\<lambda>(s, res). (s, res, 0)) (x64PushObjectStates p ticks oid off sz hash ptr data timeout s)
             | QueryObjectWait oid off sz dest timeout \<Rightarrow> x64QueryObjectStates p ticks oid off sz dest timeout s
             | TimerWait endTime \<Rightarrow> map_option (\<lambda>(s, res). (s, res, 0)) (x64SleepStates p ticks endTime s)
             | CastWait _ \<Rightarrow> None);
          s \<leftarrow> (if res then continue_worker p rdiValue s else Some s);
          Some (s, res) }"

text \<open>
  The sweeps over the tables of waiting requests. \<open>keys\<close> are the keys in the order of the slots of all
  layers; only the head of each list is looked at, and the rest of the list is dropped.
\<close>

fun UpdateWaitingQueryWorkers :: "i64 \<Rightarrow> byte list list \<Rightarrow> hive \<Rightarrow> hive option" where
  "UpdateWaitingQueryWorkers ticks [] s = Some s"
| "UpdateWaitingQueryWorkers ticks (key # keys) s =
     (case btbl_take 24 (h_get_wait_list s) key of
        None \<Rightarrow> None
      | Some (t, q) \<Rightarrow>
          let s = s\<lparr>h_get_wait_list := t\<rparr> in
          if q = 0 then UpdateWaitingQueryWorkers ticks keys s
          else do { v \<leftarrow> h_waiters s q;
                    s \<leftarrow> (if wt_callback v = callbackContinueWorkerFromWaitingQuery
                         then map_option fst (UpdateSingleWorker ticks (wt_params v) s) else Some s);
                    t \<leftarrow> btbl_add 24 (h_get_wait_list s) key (-1);
                    UpdateWaitingQueryWorkers ticks keys (s\<lparr>h_get_wait_list := t\<rparr>) })"

fun UpdateWaitingPushWorkers :: "i64 \<Rightarrow> byte list list \<Rightarrow> hive \<Rightarrow> hive option" where
  "UpdateWaitingPushWorkers ticks [] s = Some s"
| "UpdateWaitingPushWorkers ticks (key # keys) s =
     (case btbl_take 32 (h_set_wait_list s) key of
        None \<Rightarrow> None
      | Some (t, q) \<Rightarrow>
          let s = s\<lparr>h_set_wait_list := t\<rparr> in
          if q = 0 then UpdateWaitingPushWorkers ticks keys s
          else do { v \<leftarrow> h_waiters s q;
                    s \<leftarrow> (if wt_callback v = callbackContinueWorkerFromWaitingPush
                         then map_option fst (UpdateSingleWorker ticks (wt_params v) s) else Some s);
                    t \<leftarrow> btbl_add 32 (h_set_wait_list s) key (-1);
                    UpdateWaitingPushWorkers ticks keys (s\<lparr>h_set_wait_list := t\<rparr>) })"

text \<open>
  The loop over the wait list that was taken; after 16384 workers have gone on, the rest goes back, and the
  node of the last worker is neither freed nor put back.
\<close>

fun wait_list_loop :: "i64 \<Rightarrow> nat \<Rightarrow> (i64 \<times> i64) list \<Rightarrow> hive \<Rightarrow> hive option" where
  "wait_list_loop ticks cnt [] s = Some s"
| "wait_list_loop ticks cnt ((node, w) # rest) s =
     (case UpdateSingleWorker ticks w s of
        None \<Rightarrow> None
      | Some (s, res) \<Rightarrow>
          let cnt = cnt + (if res then 1 else 0) in
          if 16 * 1024 \<le> cnt \<and> rest \<noteq> [] then
            Some (s\<lparr>h_wait_list := rest @ h_wait_list s,
                    h_wait_list_len := h_wait_list_len s + word_of_nat (length rest)\<rparr>)
          else wait_list_loop ticks cnt rest (FreeWaitingNode node s))"

definition UpdateWaitingWorkers :: "bool \<Rightarrow> byte list list \<Rightarrow> byte list list \<Rightarrow> hive \<Rightarrow> hive option" where
  "UpdateWaitingWorkers full_scan query_keys push_keys s =
     (let (s, ticks) = GetTicks s in
      do { s \<leftarrow> (if full_scan \<and> ticks AND 0xFF < 30 then UpdateWaitingQueryWorkers ticks query_keys s else Some s);
           s \<leftarrow> (if full_scan \<and> (ticks + 179) AND 0xFF < 30 then UpdateWaitingPushWorkers ticks push_keys s else Some s);
           wait_list_loop ticks 0 (h_wait_list s) (s\<lparr>h_wait_list := [], h_wait_list_len := 0\<rparr>) })"

section \<open>Sleeping workers\<close>

definition room_for_tasks :: "nat \<Rightarrow> nat \<Rightarrow> hive \<Rightarrow> bool" where
  "room_for_tasks n k s \<longleftrightarrow> queued_pool_ok s \<and> sched_ok n (h_sched s) \<and>
     size (sched_tasks (h_sched s)) + k \<le> RING_SIZE \<and> unat (h_brk s) + 4096 * (k + 1) < 2 ^ 63"

text \<open>\<open>asleep e p s\<close>: the record at \<open>p\<close> is an x64 worker that sleeps until \<open>e\<close>.\<close>

definition asleep :: "i64 \<Rightarrow> i64 \<Rightarrow> hive \<Rightarrow> bool" where
  "asleep e p s \<longleftrightarrow> (\<exists>w. h_waiting s p = Some w \<and> w_state w = TimerWait e \<and> w_queued w = 0 \<and> w_links w = 1 \<and>
     worker_provider (w_id w) s = Some PROVIDER_X64)"

text \<open>The tasks in the queues, with what each of them is to do; \<open>task_of\<close> is the task of a paused worker.\<close>

definition queued_tasks :: "hive \<Rightarrow> queued_worker option multiset" where
  "queued_tasks s = image_mset (h_queued s) (sched_tasks (h_sched s))"

definition task_of :: "waiting_worker \<Rightarrow> i64 \<Rightarrow> queued_worker" where
  "task_of w rdi = \<lparr>k_id = w_id w, k_depth = w_depth w, k_data = w_data w, k_rdi = rdi, k_rbp = w_rbp w,
     k_context = w_context w\<rparr>"

lemma queued_tasks_add:
  assumes "None \<notin># queued_tasks s" "h_queued s t = None" "h_queued s' = (h_queued s)(t \<mapsto> q)"
    "sched_tasks (h_sched s') = add_mset t (sched_tasks (h_sched s))"
  shows "queued_tasks s' = add_mset (Some q) (queued_tasks s)"
proof -
  have "\<forall>u \<in># sched_tasks (h_sched s). h_queued s u \<noteq> None"
    using assms(1) unfolding queued_tasks_def by (metis image_eqI set_image_mset)
  then have "image_mset (h_queued s') (sched_tasks (h_sched s)) = image_mset (h_queued s) (sched_tasks (h_sched s))"
    using assms(2,3) by (intro image_mset_cong) auto
  then show ?thesis using assms(3,4) by (simp add: queued_tasks_def)
qed

lemma WaitListWorker_shape:
  assumes "unat (h_brk s) + 4096 < 2 ^ 63"
  obtains node brk free where
    "WaitListWorker w s = Some (s\<lparr>h_brk := brk, h_free_nodes := free, h_wait_list := (node, w) # h_wait_list s,
       h_wait_list_len := h_wait_list_len s + 1\<rparr>)"
    "h_brk s \<le> brk" "unat brk \<le> unat (h_brk s) + 32" "16 dvd unat (h_brk s) \<longrightarrow> 16 dvd unat brk"
proof (cases "h_free_nodes s")
  case (Cons x rest)
  then show ?thesis
    using that [where brk = "h_brk s" and free = rest and node = x] by (simp add: WaitListWorker_def take_node_def WaitListNode_def)
next
  case Nil
  have u: "unat (h_brk s + 32) = unat (h_brk s) + 32" using assms by (simp add: unat_word_ariths)
  have "myMalloc 16 s = Some (s\<lparr>h_brk := h_brk s + 32\<rparr>, h_brk s)" using assms by (simp add: myMalloc_def)
  then have "WaitListWorker w s = Some (s\<lparr>h_brk := h_brk s + 32, h_free_nodes := [],
      h_wait_list := (h_brk s, w) # h_wait_list s, h_wait_list_len := h_wait_list_len s + 1\<rparr>)"
    using Nil by (simp add: WaitListWorker_def take_node_def WaitListNode_def)
  then show ?thesis
    using that [where brk = "h_brk s + 32" and free = "[]" and node = "h_brk s"] u by (auto simp: word_le_nat_alt)
qed

lemma room_after_wait:
  assumes "room_for_tasks n (Suc k) s" "h_brk s \<le> brk" "unat brk \<le> unat (h_brk s) + 32"
    "16 dvd unat (h_brk s) \<longrightarrow> 16 dvd unat brk"
  shows "room_for_tasks n k (s\<lparr>h_brk := brk, h_free_nodes := free, h_wait_list := l, h_wait_list_len := m\<rparr>)"
  using assms by (auto simp: room_for_tasks_def queued_pool_ok_def heap_ok_def
      intro: order.strict_trans1 order.trans less_le_trans)

lemma worker_provider_pos [simp]:
  "worker_provider i (s\<lparr>h_clock_pos := k\<rparr>) = worker_provider i s"
  "worker_provider i (s\<lparr>h_random_pos := m\<rparr>) = worker_provider i s"
  "worker_provider i (s\<lparr>h_wait_list := l\<rparr>) = worker_provider i s"
  "worker_provider i (s\<lparr>h_wait_list_len := j\<rparr>) = worker_provider i s"
  by (simp_all add: worker_provider_def)

lemma asleep_frame:
  assumes "asleep e q s" "q \<noteq> p" "h_waiting s' = (h_waiting s)(p := x) \<or> h_waiting s' = h_waiting s"
    "h_workers s' = h_workers s"
  shows "asleep e q s'"
proof -
  have "worker_provider i s' = worker_provider i s" for i using assms(4) by (simp add: worker_provider_def)
  moreover have "h_waiting s' q = h_waiting s q" using assms(2,3) by auto
  ultimately show ?thesis using assms(1) by (simp add: asleep_def)
qed

lemma sleeper_due:
  assumes "room_for_tasks n (Suc k) s" "asleep e p s" "e \<le>s ticks" "None \<notin># queued_tasks s"
  obtains s' where "UpdateSingleWorker ticks p s = Some (s', True)" "room_for_tasks n k s'"
    "queued_tasks s' = add_mset (Some (task_of (the (h_waiting s p)) 0)) (queued_tasks s)"
    "h_waiting s' = (h_waiting s)(p := None)"
    "h_wait_list s' = h_wait_list s" "h_workers s' = h_workers s" "h_thread s' = h_thread s"
proof -
  obtain w where w: "h_waiting s p = Some w" "w_state w = TimerWait e" "w_queued w = 0" "w_links w = 1"
    "worker_provider (w_id w) s = Some PROVIDER_X64"
    using assms(2) by (auto simp: asleep_def)
  have room: "room_for_task n s" using assms(1) by (auto simp: room_for_tasks_def room_for_task_def)
  obtain s' t where c: "continue_worker p 0 s = Some s'" "sched_ok n (h_sched s')" "h_queued s t = None"
    "h_queued s' = (h_queued s)(t \<mapsto> task_of w 0)"
    "sched_tasks (h_sched s') = add_mset t (sched_tasks (h_sched s))" "h_waiting s' = (h_waiting s)(p := None)"
    "h_wait_list s' = h_wait_list s" "h_workers s' = h_workers s" "queued_pool_ok s'"
    "h_thread s' = h_thread s" "unat (h_brk s') \<le> unat (h_brk s) + 160"
    using continue_worker_ok [OF room w(1,3,4,5), of 0] unfolding task_of_def [symmetric] by blast
  have "UpdateSingleWorker ticks p s = Some (s', True)"
    using w(1,2) assms(3) c(1) by (simp add: UpdateSingleWorker_def x64SleepStates_def)
  moreover have "room_for_tasks n k s'" using assms(1) c by (simp add: room_for_tasks_def)
  ultimately show ?thesis using that queued_tasks_add [OF assms(4) c(3-5)] c(6-8,10) w(1) by simp
qed

lemma sleeper_waits:
  assumes "room_for_tasks n (Suc k) s" "asleep e p s" "\<not> e \<le>s ticks"
  obtains s' node where "UpdateSingleWorker ticks p s = Some (s', False)" "room_for_tasks n k s'"
    "queued_tasks s' = queued_tasks s" "h_waiting s' = h_waiting s" "h_wait_list s' = (node, p) # h_wait_list s"
    "h_workers s' = h_workers s" "h_thread s' = h_thread s"
proof -
  have "unat (h_brk s) + 4096 < 2 ^ 63" using assms(1) by (simp add: room_for_tasks_def)
  then obtain node brk free where l: "WaitListWorker p s = Some (s\<lparr>h_brk := brk, h_free_nodes := free,
      h_wait_list := (node, p) # h_wait_list s, h_wait_list_len := h_wait_list_len s + 1\<rparr>)"
    "h_brk s \<le> brk" "unat brk \<le> unat (h_brk s) + 32" "16 dvd unat (h_brk s) \<longrightarrow> 16 dvd unat brk"
    using WaitListWorker_shape by metis
  let ?s = "s\<lparr>h_brk := brk, h_free_nodes := free, h_wait_list := (node, p) # h_wait_list s,
    h_wait_list_len := h_wait_list_len s + 1\<rparr>"
  have "UpdateSingleWorker ticks p s = Some (?s, False)"
    using assms(2,3) l(1) by (auto simp: asleep_def UpdateSingleWorker_def x64SleepStates_def)
  moreover have "room_for_tasks n k ?s" by (rule room_after_wait [OF assms(1) l(2-4)])
  ultimately show ?thesis using that [of ?s node] by (simp add: queued_tasks_def)
qed

lemma room_free_node: "room_for_tasks n k (FreeWaitingNode node s) = room_for_tasks n k s"
  by (simp add: FreeWaitingNode_def room_for_tasks_def queued_pool_ok_def heap_ok_def)

lemma FreeWaitingNode_fields [simp]:
  "queued_tasks (FreeWaitingNode node s) = queued_tasks s" "h_waiting (FreeWaitingNode node s) = h_waiting s"
  "h_wait_list (FreeWaitingNode node s) = h_wait_list s" "h_workers (FreeWaitingNode node s) = h_workers s"
  "h_thread (FreeWaitingNode node s) = h_thread s"
  by (simp_all add: FreeWaitingNode_def queued_tasks_def)

text \<open>
  \<open>wake\<close> gives the time each worker sleeps until. The loop goes over a part \<open>swept\<close> of the list: all of it,
  unless the threshold of workers that are due is reached before.
\<close>

lemma sleepers_loop:
  assumes "room_for_tasks n (length xs) s" "\<forall>x \<in> set xs. asleep (wake (snd x)) (snd x) s" "distinct (map snd xs)"
    "cnt < 16384 \<or> xs = []" "None \<notin># queued_tasks s"
  shows "\<exists>s' swept rest. wait_list_loop ticks cnt xs s = Some s' \<and> map snd xs = swept @ rest \<and>
    (rest = [] \<or> cnt + length (filter (\<lambda>p. wake p \<le>s ticks) swept) = 16384) \<and>
    map snd (h_wait_list s') = rest @ rev (filter (\<lambda>p. \<not> wake p \<le>s ticks) swept) @ map snd (h_wait_list s) \<and>
    queued_tasks s' = queued_tasks s +
      {#Some (task_of (the (h_waiting s p)) 0). p \<in># mset (filter (\<lambda>p. wake p \<le>s ticks) swept)#} \<and>
    (\<forall>p. h_waiting s' p = (if p \<in> set swept \<and> wake p \<le>s ticks then None else h_waiting s p)) \<and>
    sched_ok n (h_sched s') \<and> h_workers s' = h_workers s \<and> h_thread s' = h_thread s"
  using assms
proof (induction xs arbitrary: s cnt)
  case Nil
  then show ?case by (simp add: room_for_tasks_def)
next
  case (Cons x xs)
  obtain node p where x: "x = (node, p)" by fastforce
  have p: "asleep (wake p) p s" "p \<notin> snd ` set xs" "distinct (map snd xs)" and room: "room_for_tasks n (Suc (length xs)) s"
    and cnt: "cnt < 16384" using Cons.prems x by auto
  show ?case
  proof (cases "wake p \<le>s ticks")
    case True
    obtain s1 where s1: "UpdateSingleWorker ticks p s = Some (s1, True)" "room_for_tasks n (length xs) s1"
      "queued_tasks s1 = add_mset (Some (task_of (the (h_waiting s p)) 0)) (queued_tasks s)"
      "h_waiting s1 = (h_waiting s)(p := None)"
      "h_wait_list s1 = h_wait_list s" "h_workers s1 = h_workers s" "h_thread s1 = h_thread s"
      using sleeper_due [OF room p(1) True Cons.prems(5)] .
    show ?thesis
    proof (cases "Suc cnt = 16384 \<and> xs \<noteq> []")
      case stop: True
      let ?s' = "s1\<lparr>h_wait_list := xs @ h_wait_list s1, h_wait_list_len := h_wait_list_len s1 + word_of_nat (length xs)\<rparr>"
      have "wait_list_loop ticks cnt (x # xs) s = Some ?s'" using s1(1) stop by (simp add: x)
      moreover have "queued_tasks ?s' = queued_tasks s1" by (simp add: queued_tasks_def)
      moreover have "sched_ok n (h_sched ?s')" using s1(2) by (simp add: room_for_tasks_def)
      ultimately show ?thesis using s1 True stop
        by (intro exI [of _ ?s'] exI [of _ "[p]"] exI [of _ "map snd xs"]) (simp add: x)
    next
      case False
      let ?s1 = "FreeWaitingNode node s1"
      have "\<forall>x \<in> set xs. asleep (wake (snd x)) (snd x) ?s1"
        using Cons.prems(2) p(2) s1(4,6) asleep_frame [of _ _ s p ?s1] by fastforce
      moreover have "room_for_tasks n (length xs) ?s1" "Suc cnt < 16384 \<or> xs = []" "None \<notin># queued_tasks ?s1"
        using s1(2,3) cnt False Cons.prems(5) by (auto simp: room_free_node)
      ultimately obtain s' swept rest where r: "wait_list_loop ticks (Suc cnt) xs ?s1 = Some s'" "map snd xs = swept @ rest"
        "rest = [] \<or> Suc cnt + length (filter (\<lambda>p. wake p \<le>s ticks) swept) = 16384"
        "map snd (h_wait_list s') = rest @ rev (filter (\<lambda>p. \<not> wake p \<le>s ticks) swept) @ map snd (h_wait_list ?s1)"
        "queued_tasks s' = queued_tasks ?s1 +
          {#Some (task_of (the (h_waiting ?s1 p)) 0). p \<in># mset (filter (\<lambda>p. wake p \<le>s ticks) swept)#}"
        "\<forall>p. h_waiting s' p = (if p \<in> set swept \<and> wake p \<le>s ticks then None else h_waiting ?s1 p)"
        "sched_ok n (h_sched s')" "h_workers s' = h_workers ?s1" "h_thread s' = h_thread ?s1"
        using Cons.IH [of ?s1 "Suc cnt"] p(3) by blast
      have "set swept \<subseteq> snd ` set xs" using arg_cong [OF r(2), of set] by auto
      then have new: "p \<notin> set swept" using p(2) by blast
      then have "{#Some (task_of (the (h_waiting s1 p)) 0). p \<in># mset (filter (\<lambda>p. wake p \<le>s ticks) swept)#} =
          {#Some (task_of (the (h_waiting s p)) 0). p \<in># mset (filter (\<lambda>p. wake p \<le>s ticks) swept)#}"
        using s1(4) by (intro image_mset_cong) auto
      moreover have "wait_list_loop ticks cnt (x # xs) s = Some s'" using s1(1) r(1) False cnt by (auto simp: x)
      moreover have "\<forall>p'. h_waiting s' p' = (if p' \<in> set (p # swept) \<and> wake p' \<le>s ticks then None else h_waiting s p')"
        using r(6) s1(4) True by auto
      ultimately show ?thesis using s1(3,5-7) True r(2-5,7-9)
        by (intro exI [of _ s'] exI [of _ "p # swept"] exI [of _ rest]) (simp add: x)
    qed
  next
    case False
    obtain s1 nd where s1: "UpdateSingleWorker ticks p s = Some (s1, False)" "room_for_tasks n (length xs) s1"
      "queued_tasks s1 = queued_tasks s" "h_waiting s1 = h_waiting s" "h_wait_list s1 = (nd, p) # h_wait_list s"
      "h_workers s1 = h_workers s" "h_thread s1 = h_thread s"
      using sleeper_waits [OF room p(1) False] .
    let ?s1 = "FreeWaitingNode node s1"
    have "\<forall>x \<in> set xs. asleep (wake (snd x)) (snd x) ?s1"
      using Cons.prems(2) p(2) s1(4,6) asleep_frame [of _ _ s p ?s1] by fastforce
    moreover have "room_for_tasks n (length xs) ?s1" "cnt < 16384 \<or> xs = []" "None \<notin># queued_tasks ?s1"
      using s1(2,3) cnt Cons.prems(5) by (auto simp: room_free_node)
    ultimately obtain s' swept rest where r: "wait_list_loop ticks cnt xs ?s1 = Some s'" "map snd xs = swept @ rest"
      "rest = [] \<or> cnt + length (filter (\<lambda>p. wake p \<le>s ticks) swept) = 16384"
      "map snd (h_wait_list s') = rest @ rev (filter (\<lambda>p. \<not> wake p \<le>s ticks) swept) @ map snd (h_wait_list ?s1)"
      "queued_tasks s' = queued_tasks ?s1 +
        {#Some (task_of (the (h_waiting ?s1 p)) 0). p \<in># mset (filter (\<lambda>p. wake p \<le>s ticks) swept)#}"
      "\<forall>p. h_waiting s' p = (if p \<in> set swept \<and> wake p \<le>s ticks then None else h_waiting ?s1 p)"
      "sched_ok n (h_sched s')" "h_workers s' = h_workers ?s1" "h_thread s' = h_thread ?s1"
      using Cons.IH [of ?s1 cnt] p(3) by blast
    have "wait_list_loop ticks cnt (x # xs) s = Some s'" using s1(1) r(1) cnt by (simp add: x)
    then show ?thesis using s1(3-7) False r(2-9)
      by (intro exI [of _ s'] exI [of _ "p # swept"] exI [of _ rest]) (auto simp: x)
  qed
qed

section \<open>A query of a remote object\<close>

definition query_message :: "i64 \<Rightarrow> i64 \<Rightarrow> i64 \<Rightarrow> byte list" where
  "query_message object_id offset sz =
     header API_QUERY_OBJECT 24 @ le_bytes 8 object_id @ le_bytes 8 offset @ le_bytes 8 sz"

lemma known_path_frame:
  "h_object_paths s' = h_object_paths s \<Longrightarrow> h_paths s' = h_paths s \<Longrightarrow> known_path oid s' = known_path oid s"
  by (simp add: known_path_def Let_def)

lemma request_on_known_path:
  assumes "heap_ok s" "unat (h_brk s) + 8192 < 2 ^ 63" "known_path object_id s = Some (Some pa)"
    "GetConnectionById (pa_local_id pa) s = Some c" "h_get_wait_list s (get_wait_list_key object_id offset sz) = 0"
  obtains q brk where
    "RequestObjectGet object_id offset sz (Some p) s = Some (emitData (c_outgoing c) (query_message object_id offset sz)
       (s\<lparr>h_brk := brk, h_waiters := (h_waiters s)(q \<mapsto> \<lparr>wt_next = 0, wt_params = p,
            wt_callback = callbackContinueWorkerFromWaitingQuery\<rparr>),
          h_get_wait_list := (h_get_wait_list s)(get_wait_list_key object_id offset sz := q),
          h_stat_output := h_stat_output s + 1\<rparr>))"
    "q AND TAG = 0" "q \<noteq> 0" "q < brk" "h_brk s \<le> brk" "unat brk \<le> unat (h_brk s) + 80" "16 dvd unat brk"
proof -
  let ?key = "get_wait_list_key object_id offset sz"
  obtain s1 where m: "myMalloc 16 s = Some (s1, h_brk s)" "s1 = s\<lparr>h_brk := h_brk s + 32\<rparr>"
    using assms(2) by (simp add: myMalloc_def)
  note mo = myMalloc_ok [OF m(1) assms(1)]
  have u: "unat (h_brk s1) = unat (h_brk s) + 32" using assms(2) m(2) by (simp add: unat_word_ariths)
  have pre: "unat (h_brk s1) + 4096 < 2 ^ 63" "(24 :: nat) \<le> 40" using assms(2) u by auto
  obtain brk where ins: "insert_get_waiter 24 ?key p callbackContinueWorkerFromWaitingQuery s1 = Some (s1\<lparr>h_brk := brk,
      h_waiters := (h_waiters s1)(h_brk s1 \<mapsto> \<lparr>wt_next = h_get_wait_list s1 (take 24 ?key) AND NOT TAG,
        wt_params = p, wt_callback = callbackContinueWorkerFromWaitingQuery\<rparr>),
      h_get_wait_list := (h_get_wait_list s1)(take 24 ?key := tagged_insert (h_get_wait_list s1 (take 24 ?key)) (h_brk s1))\<rparr>)"
    "h_brk s1 \<le> brk" "h_brk s1 < brk" "unat brk \<le> unat (h_brk s1) + 48" "16 dvd unat brk" "h_brk s1 AND TAG = 0" "h_brk s1 \<noteq> 0"
    by (rule insert_get_waiter_shape [OF mo(1) pre, of ?key p callbackContinueWorkerFromWaitingQuery])
      (rule that; assumption)
  let ?s2 = "s\<lparr>h_brk := brk, h_waiters := (h_waiters s)(h_brk s1 \<mapsto> \<lparr>wt_next = 0, wt_params = p,
            wt_callback = callbackContinueWorkerFromWaitingQuery\<rparr>),
          h_get_wait_list := (h_get_wait_list s)(?key := h_brk s1)\<rparr>"
  have wait: "add_query_waiter object_id offset sz (Some p) s = Some ?s2"
    using m ins(1) assms(5) by (simp add: add_query_waiter_def tagged_insert_def)
  have kp: "known_path object_id ?s2 = Some (Some pa)" using assms(3) known_path_frame [of ?s2 s object_id] by simp
  have con: "GetConnectionById (pa_local_id pa) (?s2\<lparr>h_stat_output := h_stat_output s + 1\<rparr>) = Some c"
    using assms(4) by (simp add: GetConnectionById_def)
  have "RequestObjectGet object_id offset sz (Some p) s =
      Some (emitData (c_outgoing c) (query_message object_id offset sz) (?s2\<lparr>h_stat_output := h_stat_output s + 1\<rparr>))"
    using con by (simp add: RequestObjectGet_def wait kp Let_def query_message_def emitData_append del: le_bytes_numeral)
  moreover have "h_brk s \<le> brk" using mo(3) ins(2) by (rule order.trans)
  ultimately show ?thesis using that [of "h_brk s1" brk] ins u by simp
qed

lemma pause_shape:
  assumes "h_thread s = Some td" "worker_provider (td_running_id td) s = Some PROVIDER_X64" "h_free_waiting s = []"
    "unat (h_brk s) + 8192 < 2 ^ 63"
  obtains w where "universalPauseWorker returnAddress rbpValue st s =
      Some (s\<lparr>h_brk := h_brk s + 192, h_waiting := (h_waiting s)(h_brk s \<mapsto> w)\<rparr>, h_brk s)"
    "w_state w = st" "w_queued w = 0" "w_links w = 1" "w_id w = td_running_id td" "w_data w = returnAddress" "w_rbp w = rbpValue"
proof -
  let ?w = "zero_waiting\<lparr>w_context := load_words (rbpValue - 1024) 14 (h_mem s), w_links := 1,
    w_id := td_running_id td, w_depth := td_running_depth td, w_data := returnAddress, w_state := st, w_rbp := rbpValue\<rparr>"
  have "AllocateWaitingWorker s =
      Some (s\<lparr>h_brk := h_brk s + 192, h_waiting := (h_waiting s)(h_brk s \<mapsto> zero_waiting)\<rparr>, h_brk s)"
    using assms(3,4) by (simp add: AllocateWaitingWorker_def myMalloc_def)
  then have "universalPauseWorker returnAddress rbpValue st s =
      Some (s\<lparr>h_brk := h_brk s + 192, h_waiting := (h_waiting s)(h_brk s \<mapsto> ?w)\<rparr>, h_brk s)"
    using assms(1,2) by (simp add: universalPauseWorker_def x64PauseWorker_def)
  then show ?thesis using that [of ?w] by (simp add: zero_waiting_def)
qed

lemma room_for_task_pos [simp]:
  "room_for_task n (s\<lparr>h_clock_pos := k\<rparr>) = room_for_task n s"
  "room_for_task n (s\<lparr>h_random_pos := m\<rparr>) = room_for_task n s"
  "room_for_task n (s\<lparr>h_stat_output := j\<rparr>) = room_for_task n s"
  "room_for_task n (emitData sock bytes s) = room_for_task n s"
  by (auto simp: room_for_task_def queued_pool_ok_def heap_ok_def emitData_def)

lemma room_after_alloc:
  assumes "room_for_task n s" "h_brk s \<le> brk" "q < brk" "16 dvd unat brk" "unat brk + 4096 < 2 ^ 63"
  shows "room_for_task n (s\<lparr>h_brk := brk, h_waiting := (h_waiting s)(q \<mapsto> w)\<rparr>)"
    "room_for_task n (s\<lparr>h_brk := brk, h_waiters := (h_waiters s)(q \<mapsto> v)\<rparr>)"
  using assms by (auto simp: room_for_task_def queued_pool_ok_def heap_ok_def dest: order.trans less_le_trans)

text \<open>\<^verbatim>\<open>x64QueryObject\<close> of an object elsewhere on a known path, and then the answer.\<close>

lemma query_known_path:
  assumes "room_for_task n s" "unat (h_brk s) + 16384 < 2 ^ 63" "tbl_get (h_local_objects s) object_id = 0"
    "h_thread s = Some td" "worker_provider (td_running_id td) s = Some PROVIDER_X64" "h_free_waiting s = []"
    "known_path object_id s = Some (Some pa)" "GetConnectionById (pa_local_id pa) s = Some c"
    "h_get_wait_list s (get_wait_list_key object_id offset (myAbs sz)) = 0"
  obtains s1 q p w timeout where
    "x64QueryObject destination object_id offset sz returnAddress rbpValue s = Some (s1, Paused)"
    "h_sent s1 = h_sent (emitData (c_outgoing c) (query_message object_id offset (myAbs sz)) s)"
    "room_for_task n s1" "h_get_wait_list s1 (get_wait_list_key object_id offset (myAbs sz)) = q" "q \<noteq> 0" "q AND TAG = 0"
    "h_waiters s1 q = Some \<lparr>wt_next = 0, wt_params = p, wt_callback = callbackContinueWorkerFromWaitingQuery\<rparr>"
    "h_waiting s1 p = Some w" "w_state w = QueryObjectWait object_id offset sz destination timeout"
    "w_queued w = 0" "w_links w = 1" "w_id w = td_running_id td" "w_data w = returnAddress" "w_rbp w = rbpValue"
    "h_workers s1 = h_workers s" "h_sched s1 = h_sched s"
proof -
  let ?key = "get_wait_list_key object_id offset (myAbs sz)" and ?p = "h_brk s"
  define timeout where "timeout = h_clock s (h_clock_pos s) + MicrosecondsToTicks QUERY_REPEAT_TIMEOUT"
  define s0 where "s0 = s\<lparr>h_clock_pos := h_clock_pos s + 1, h_random_pos := h_random_pos s + BROADCAST_ID_LENGTH\<rparr>"
  have p0: "h_thread s0 = Some td" "worker_provider (td_running_id td) s0 = Some PROVIDER_X64" "h_free_waiting s0 = []"
    "unat (h_brk s0) + 8192 < 2 ^ 63"
    using assms(2,4-6) by (simp_all add: s0_def)
  obtain w where w: "universalPauseWorker returnAddress rbpValue (QueryObjectWait object_id offset sz destination timeout) s0 =
      Some (s0\<lparr>h_brk := h_brk s0 + 192, h_waiting := (h_waiting s0)(h_brk s0 \<mapsto> w)\<rparr>, h_brk s0)"
    "w_state w = QueryObjectWait object_id offset sz destination timeout" "w_queued w = 0" "w_links w = 1"
    "w_id w = td_running_id td" "w_data w = returnAddress" "w_rbp w = rbpValue"
    by (rule pause_shape [OF p0]) (rule that; assumption)
  define s1 where "s1 = s0\<lparr>h_brk := h_brk s + 192, h_waiting := (h_waiting s0)(?p \<mapsto> w)\<rparr>"
  have brk1: "unat (h_brk s + 192) = unat (h_brk s) + 192" using assms(2) by (simp add: unat_word_ariths)
  have div: "16 dvd unat (h_brk s)" using assms(1) by (simp add: room_for_task_def queued_pool_ok_def heap_ok_def)
  have room1: "room_for_task n s1" unfolding s1_def
    by (rule room_after_alloc(1)) (use assms(1,2) brk1 div in \<open>auto simp: s0_def word_le_nat_alt word_less_nat_alt\<close>)
  then have heap1: "heap_ok s1" by (simp add: room_for_task_def queued_pool_ok_def)
  have r: "unat (h_brk s1) + 8192 < 2 ^ 63" using brk1 assms(2) by (simp add: s1_def)
  have path: "known_path object_id s1 = Some (Some pa)" "GetConnectionById (pa_local_id pa) s1 = Some c"
    "h_get_wait_list s1 ?key = 0"
    using assms(7-9) known_path_frame [of s1 s] by (simp_all add: s1_def s0_def GetConnectionById_def)
  obtain q brk where get: "RequestObjectGet object_id offset (myAbs sz) (Some ?p) s1 =
      Some (emitData (c_outgoing c) (query_message object_id offset (myAbs sz))
       (s1\<lparr>h_brk := brk, h_waiters := (h_waiters s1)(q \<mapsto> \<lparr>wt_next = 0, wt_params = ?p,
            wt_callback = callbackContinueWorkerFromWaitingQuery\<rparr>),
          h_get_wait_list := (h_get_wait_list s1)(?key := q), h_stat_output := h_stat_output s1 + 1\<rparr>))"
    and q: "q AND TAG = 0" "q \<noteq> 0" "q < brk" "h_brk s1 \<le> brk" "unat brk \<le> unat (h_brk s1) + 80" "16 dvd unat brk"
    by (rule request_on_known_path [OF heap1 r path, of ?p]) (rule that; assumption)
  let ?v = "\<lparr>wt_next = 0, wt_params = ?p, wt_callback = callbackContinueWorkerFromWaitingQuery\<rparr>"
  define s2 where "s2 = emitData (c_outgoing c) (query_message object_id offset (myAbs sz))
       (s1\<lparr>h_brk := brk, h_waiters := (h_waiters s1)(q \<mapsto> ?v),
          h_get_wait_list := (h_get_wait_list s1)(?key := q), h_stat_output := h_stat_output s1 + 1\<rparr>)"
  have "room_for_task n (s1\<lparr>h_brk := brk, h_waiters := (h_waiters s1)(q \<mapsto> ?v)\<rparr>)"
    using room_after_alloc(2) [OF room1 q(4) q(3) q(6)] q(5) r by simp
  then have "room_for_task n s2" by (simp add: s2_def)
  moreover have "x64QueryObject destination object_id offset sz returnAddress rbpValue s = Some (s2, Paused)"
    using assms(3,4) w(1) get
    by (simp add: x64QueryObject_def set_stallable_def SheduleTimeoutFromNow_def GetTicks_def SECURE_RANDOM_def Let_def
        s0_def s1_def s2_def timeout_def)
  moreover have "h_sent s2 = h_sent (emitData (c_outgoing c) (query_message object_id offset (myAbs sz)) s)"
    "h_waiters s2 q = Some ?v" "h_waiting s2 ?p = Some w" "h_get_wait_list s2 ?key = q"
    "h_workers s2 = h_workers s" "h_sched s2 = h_sched s"
    by (simp_all add: s2_def s1_def s0_def emitData_def)
  ultimately show ?thesis using that [of s2 q ?p w timeout] q w(2-7) by simp
qed

lemma sleepers_kept:
  assumes "room_for_tasks n (length (h_wait_list s)) s"
    "\<forall>x \<in> set (h_wait_list s). asleep (wake (snd x)) (snd x) s" "distinct (map snd (h_wait_list s))"
    "ticks = h_clock s (h_clock_pos s)" "None \<notin># queued_tasks s"
  shows "\<exists>s' swept rest. UpdateWaitingWorkers False [] [] s = Some s' \<and> map snd (h_wait_list s) = swept @ rest \<and>
    (rest = [] \<or> length (filter (\<lambda>p. wake p \<le>s ticks) swept) = 16384) \<and>
    map snd (h_wait_list s') = rest @ rev (filter (\<lambda>p. \<not> wake p \<le>s ticks) swept) \<and>
    queued_tasks s' = queued_tasks s +
      {#Some (task_of (the (h_waiting s p)) 0). p \<in># mset (filter (\<lambda>p. wake p \<le>s ticks) swept)#} \<and>
    (\<forall>p. h_waiting s' p = (if p \<in> set swept \<and> wake p \<le>s ticks then None else h_waiting s p)) \<and>
    sched_ok n (h_sched s') \<and> h_workers s' = h_workers s \<and> h_thread s' = h_thread s"
proof -
  define s0 where "s0 = s\<lparr>h_clock_pos := h_clock_pos s + 1, h_wait_list := [], h_wait_list_len := 0\<rparr>"
  have eq: "h_wait_list s0 = []" "queued_tasks s0 = queued_tasks s" "h_waiting s0 = h_waiting s"
    "h_workers s0 = h_workers s" "h_thread s0 = h_thread s"
    by (simp_all add: s0_def queued_tasks_def)
  have "room_for_tasks n (length (h_wait_list s)) s0"
    using assms(1) by (simp add: room_for_tasks_def queued_pool_ok_def heap_ok_def s0_def)
  moreover have "\<forall>x \<in> set (h_wait_list s). asleep (wake (snd x)) (snd x) s0"
    using assms(2) by (simp add: asleep_def s0_def)
  moreover have "UpdateWaitingWorkers False [] [] s = wait_list_loop ticks 0 (h_wait_list s) s0"
    using assms(4) by (simp add: UpdateWaitingWorkers_def GetTicks_def Let_def s0_def)
  ultimately show ?thesis
    using sleepers_loop [of n "h_wait_list s" s0 wake 0 ticks] assms(3,5) unfolding eq by simp
qed

section \<open>Properties\<close>

text \<open>
  C29. Sleeping workers are not lost: a pass of a scheduler thread over a wait list of sleeping x64 workers, each there
  once, for which the queues and the heap have room, returns, and splits the list into the workers it has swept and the rest,
  which is empty unless the pass has
  stopped at the threshold, when exactly 16384 of the swept workers are due. It queues exactly the tasks of
  the swept workers whose time has come, each with its return address and its frame, frees exactly their
  records, and all others are in the wait list again, those of the rest untouched and in their order.
\<close>

theorem sleeping_workers_kept:
  assumes "room_for_tasks n (length (h_wait_list s)) s"
    "\<forall>x \<in> set (h_wait_list s). asleep (wake (snd x)) (snd x) s" "distinct (map snd (h_wait_list s))"
    "ticks = h_clock s (h_clock_pos s)" "None \<notin># queued_tasks s"
  shows "\<exists>s' swept rest. UpdateWaitingWorkers False [] [] s = Some s' \<and> map snd (h_wait_list s) = swept @ rest \<and>
    (rest = [] \<or> length (filter (\<lambda>p. wake p \<le>s ticks) swept) = 16384) \<and>
    map snd (h_wait_list s') = rest @ rev (filter (\<lambda>p. \<not> wake p \<le>s ticks) swept) \<and>
    queued_tasks s' = queued_tasks s +
      {#Some (task_of (the (h_waiting s p)) 0). p \<in># mset (filter (\<lambda>p. wake p \<le>s ticks) swept)#} \<and>
    (\<forall>p. h_waiting s' p = (if p \<in> set swept \<and> wake p \<le>s ticks then None else h_waiting s p))"
  using sleepers_kept [OF assms] by blast

theorem sleeping_workers_kept_witness:
  "\<exists>s'. UpdateWaitingWorkers False [] [] (sample_program\<lparr>h_wait_list := [(0x300, 0x100), (0x310, 0x200)],
       h_waiting := [0x100 \<mapsto> sample_paused\<lparr>w_state := TimerWait 3\<rparr>, 0x200 \<mapsto> sample_paused\<lparr>w_state := TimerWait 9\<rparr>]\<rparr>) = Some s' \<and>
     map snd (h_wait_list s') = [0x200] \<and> queued_tasks s' = {#Some (task_of (sample_paused\<lparr>w_state := TimerWait 3\<rparr>) 0)#}"
proof -
  define s where "s = sample_program\<lparr>h_wait_list := [(0x300, 0x100), (0x310, 0x200)],
       h_waiting := [0x100 \<mapsto> sample_paused\<lparr>w_state := TimerWait 3\<rparr>, 0x200 \<mapsto> sample_paused\<lparr>w_state := TimerWait 9\<rparr>]\<rparr>"
  have "room_for_task 1 sample_program" using room_for_task_init [of 1] by (simp add: sample_program_def)
  then have room: "room_for_tasks 1 2 s"
    by (auto simp: room_for_task_def room_for_tasks_def queued_pool_ok_def heap_ok_def s_def sample_program_def
        init_hive_def sched_tasks_init RING_SIZE_def)
  let ?wake = "\<lambda>p :: i64. if p = 0x100 then 3 else (9 :: i64)"
  have clock: "7 = h_clock s (h_clock_pos s)" and list: "h_wait_list s = [(0x300, 0x100), (0x310, 0x200)]"
    and idle: "queued_tasks s = {#}"
    by (simp_all add: s_def sample_program_def init_hive_def sched_tasks_init queued_tasks_def)
  have asleep: "\<forall>x \<in> set (h_wait_list s). asleep (?wake (snd x)) (snd x) s" unfolding list
    by (simp add: asleep_def s_def sample_paused_def zero_waiting_def worker_provider_def sample_program_def init_hive_def)
  have "room_for_tasks 1 (length (h_wait_list s)) s" unfolding list using room by (simp add: numeral_2_eq_2)
  moreover have "distinct (map snd (h_wait_list s))" "None \<notin># queued_tasks s" by (simp_all add: list idle)
  ultimately have pre: "room_for_tasks 1 (length (h_wait_list s)) s" "distinct (map snd (h_wait_list s))"
    "None \<notin># queued_tasks s" .
  obtain s' swept rest where s': "UpdateWaitingWorkers False [] [] s = Some s'" "[0x100, 0x200] = swept @ rest"
    "rest = [] \<or> length (filter (\<lambda>p. ?wake p \<le>s 7) swept) = 16384"
    "map snd (h_wait_list s') = rest @ rev (filter (\<lambda>p. \<not> ?wake p \<le>s 7) swept)"
    "queued_tasks s' = {#} + {#Some (task_of (the (h_waiting s p)) 0). p \<in># mset (filter (\<lambda>p. ?wake p \<le>s 7) swept)#}"
    using sleeping_workers_kept [OF pre(1) asleep pre(2) clock pre(3)] unfolding idle
    by (elim exE conjE) (rule that; simp add: list)
  have "length swept \<le> 2" using arg_cong [OF s'(2), of length] by simp
  then have "rest = []" using s'(3) length_filter_le [of "\<lambda>p. ?wake p \<le>s 7" swept] by linarith
  then have swept: "swept = [0x100, 0x200]" "rest = []" using s'(2) by simp_all
  have "filter (\<lambda>p. \<not> ?wake p \<le>s 7) swept = [0x200]" "filter (\<lambda>p. ?wake p \<le>s 7) swept = [0x100]"
    by (simp_all add: swept word_sle_eq)
  then have "map snd (h_wait_list s') = [0x200] \<and>
      queued_tasks s' = {#Some (task_of (sample_paused\<lparr>w_state := TimerWait 3\<rparr>) 0)#}"
    unfolding s'(4,5) swept(2) by (simp add: s_def)
  with s'(1) show ?thesis unfolding s_def [symmetric] by (intro exI conjI) auto
qed

text \<open>
  C18. A query of a remote object comes back: when a path to the object is known, \<^verbatim>\<open>x64QueryObject\<close>
  pauses the worker and sends one query to the connection of the path and nothing else; and when the answer
  arrives, the worker becomes a task again, at its return address and with its frame, and has the data, in
  \<^verbatim>\<open>rdi\<close> or at its destination.
\<close>

theorem remote_query_comes_back:
  assumes "room_for_task n s" "unat (h_brk s) + 16384 < 2 ^ 63" "tbl_get (h_local_objects s) object_id = 0"
    "h_thread s = Some td" "worker_provider (td_running_id td) s = Some PROVIDER_X64" "h_free_waiting s = []"
    "known_path object_id s = Some (Some pa)" "GetConnectionById (pa_local_id pa) s = Some c"
    "h_get_wait_list s (get_wait_list_key object_id offset (myAbs sz)) = 0"
    "unat (myAbs sz) \<le> length data" "if sz <s 0 then unat (myAbs sz) \<le> 8 else True"
  shows "\<exists>s1 s2 t k. x64QueryObject destination object_id offset sz returnAddress rbpValue s = Some (s1, Paused) \<and>
    h_sent s1 = h_sent (emitData (c_outgoing c) (query_message object_id offset (myAbs sz)) s) \<and>
    UpdateWaitingQuery object_id offset (myAbs sz) data s1 = Some s2 \<and> h_queued s2 t = Some k \<and>
    sched_tasks (h_sched s2) = add_mset t (sched_tasks (h_sched s)) \<and>
    k_id k = td_running_id td \<and> k_data k = returnAddress \<and> k_rbp k = rbpValue \<and>
    (if sz <s 0 then take (unat (myAbs sz)) (le_bytes 8 (k_rdi k)) = take (unat (myAbs sz)) data
     else mem_read destination (unat (myAbs sz)) (h_mem s2) = take (unat (myAbs sz)) data)"
proof -
  obtain s1 q p w timeout where s1: "x64QueryObject destination object_id offset sz returnAddress rbpValue s = Some (s1, Paused)"
    "h_sent s1 = h_sent (emitData (c_outgoing c) (query_message object_id offset (myAbs sz)) s)"
    and pre: "room_for_task n s1" "h_get_wait_list s1 (get_wait_list_key object_id offset (myAbs sz)) = q" "q \<noteq> 0" "q AND TAG = 0"
      "h_waiters s1 q = Some \<lparr>wt_next = 0, wt_params = p, wt_callback = callbackContinueWorkerFromWaitingQuery\<rparr>"
      "h_waiting s1 p = Some w" "w_state w = QueryObjectWait object_id offset sz destination timeout"
      "w_queued w = 0" "w_links w = 1"
    and w: "w_id w = td_running_id td" "w_data w = returnAddress" "w_rbp w = rbpValue"
      "h_workers s1 = h_workers s" "h_sched s1 = h_sched s"
    by (rule query_known_path [OF assms(1-9)]) (rule that; assumption)
  have "worker_provider (w_id w) s1 = Some PROVIDER_X64"
    using assms(5) w(1,4) unfolding worker_provider_def by (simp only:)
  note answer_wakes_worker [OF pre this assms(10,11)]
  then show ?thesis using s1 w by metis
qed

definition sample_on_path :: hive where
  "sample_on_path = sample_program\<lparr>h_thread := Some \<lparr>td_number = 0, td_running_id = 0, td_running_depth = 0\<rparr>,
     h_conns := [sample_conn 3 10], h_object_paths := (\<lambda>_. 0)(7 := 0x200),
     h_paths := [0x200 \<mapsto> \<lparr>pa_local_id = 3, pa_distance = 1\<rparr>]\<rparr>"

lemma sample_on_path:
  "room_for_task 1 sample_on_path" "unat (h_brk sample_on_path) + 16384 < 2 ^ 63"
  "tbl_get (h_local_objects sample_on_path) 7 = 0"
  "h_thread sample_on_path = Some \<lparr>td_number = 0, td_running_id = 0, td_running_depth = 0\<rparr>"
  "worker_provider 0 sample_on_path = Some PROVIDER_X64" "h_free_waiting sample_on_path = []"
  "known_path 7 sample_on_path = Some (Some \<lparr>pa_local_id = 3, pa_distance = 1\<rparr>)"
  "GetConnectionById 3 sample_on_path = Some (sample_conn 3 10)"
  "h_get_wait_list sample_on_path = (\<lambda>_. 0)" "h_sent sample_on_path = (\<lambda>_. [])"
proof -
  have "room_for_task 1 sample_program" using room_for_task_init [of 1] by (simp add: sample_program_def)
  then show "room_for_task 1 sample_on_path"
    by (auto simp: room_for_task_def queued_pool_ok_def heap_ok_def sample_on_path_def sample_program_def init_hive_def)
qed (simp_all add: sample_on_path_def sample_program_def init_hive_def worker_provider_def known_path_def
    GetConnectionById_def sample_conn_def tbl_get_def)

theorem remote_query_comes_back_witness:
  "\<exists>s1 s2 t k. x64QueryObject 0 7 0 (-2) 0x420 0x800 sample_on_path = Some (s1, Paused) \<and>
     h_sent s1 10 = query_message 7 0 2 \<and>
     UpdateWaitingQuery 7 0 2 [5, 6, 99] s1 = Some s2 \<and> h_queued s2 t = Some k \<and> k_data k = 0x420 \<and>
     take 2 (le_bytes 8 (k_rdi k)) = [5, 6]"
proof -
  have neg: "myAbs (-2) = 2" "(-2 :: i64) <s 0" by (simp_all add: myAbs_def word_sless_alt)
  have out: "c_outgoing (sample_conn 3 10) = 10" "(10 :: i64) \<noteq> INVALID_SOCKET"
    by (simp_all add: sample_conn_def INVALID_SOCKET_def)
  have "\<exists>s1 s2 t k. x64QueryObject 0 7 0 (-2) 0x420 0x800 sample_on_path = Some (s1, Paused) \<and>
     h_sent s1 = h_sent (emitData (c_outgoing (sample_conn 3 10)) (query_message 7 0 (myAbs (-2))) sample_on_path) \<and>
     UpdateWaitingQuery 7 0 (myAbs (-2)) [5, 6, 99] s1 = Some s2 \<and> h_queued s2 t = Some k \<and>
     sched_tasks (h_sched s2) = add_mset t (sched_tasks (h_sched sample_on_path)) \<and>
     k_id k = 0 \<and> k_data k = 0x420 \<and> k_rbp k = 0x800 \<and>
     (if (-2 :: i64) <s 0 then take (unat (myAbs (-2))) (le_bytes 8 (k_rdi k)) = take (unat (myAbs (-2))) [5, 6, 99]
     else mem_read 0 (unat (myAbs (-2))) (h_mem s2) = take (unat (myAbs (-2))) [5, 6, 99])"
    using remote_query_comes_back [OF sample_on_path(1-4), where sz = "-2" and offset = 0 and data = "[5, 6, 99]"
        and destination = 0 and returnAddress = "0x420" and rbpValue = "0x800", OF _ sample_on_path(6,7)]
      sample_on_path(5,8,9) by (simp add: neg)
  then show ?thesis unfolding neg(1) using neg(2) sample_on_path(10) out
    by (auto simp: emitData_def simp del: le_bytes_numeral) blast
qed

end
