(* ===== verification/Handlers.thy ===== *)
theory Handlers
  imports Requests
begin

text \<open>
  The receiving side of \<^verbatim>\<open>common/remote.c\<close>: \<^verbatim>\<open>HandleApiCall\<close> with one definition per case
  (lines 551 to 1137), the confirmation of pages and ids (157 to 174), the requests that start the two
  broadcasts (1442 to 1515) and one turn of \<^verbatim>\<open>PagesAllocator\<close> (1812 to 1850). A handler gets the
  local id of its connection and the receive buffer, and returns the state and the value of the C
  function; 0 closes the connection.
\<close>

section \<open>Pages and ids\<close>

text \<open>\<^verbatim>\<open>pages\<close> has 128 elements.\<close>

definition ConfirmPage :: "i64 \<Rightarrow> hive \<Rightarrow> hive option" where
  "ConfirmPage page_id s =
     (if length (h_pages s) < 128
      then Some (s\<lparr>h_pages := h_pages s @ [\<lparr>pg_id = page_id, pg_next = 0\<rparr>]\<rparr>) else None)"

definition ConfirmID :: "i64 \<Rightarrow> hive \<Rightarrow> hive" where
  "ConfirmID confirmed_id s =
     (if h_server_id s = -1 then s\<lparr>h_server_id := confirmed_id, h_id_lock := False\<rparr> else s)"

definition new_broadcast :: "i64 \<Rightarrow> i64 \<Rightarrow> hive \<Rightarrow> (hive \<times> i64) option" where
  "new_broadcast bid redirect s =
     (case myMalloc 24 s of
        None \<Rightarrow> None
      | Some (s, a) \<Rightarrow>
          Some (s\<lparr>h_broadcasts := (h_broadcasts s)(a \<mapsto>
            \<lparr>br_id = bid, br_redirect = redirect, br_answered = 0, br_requested = 0\<rparr>)\<rparr>, a))"

text \<open>The retry loop with fresh random ids; it ends when an id is free.\<close>

partial_function (option) claim_broadcast_id ::
  "(byte list \<Rightarrow> i64) \<Rightarrow> i64 \<Rightarrow> byte list \<Rightarrow> hive \<Rightarrow> (hive \<times> byte list \<times> (byte list \<Rightarrow> i64)) option" where
  "claim_broadcast_id t ptr broadcast_id s =
     (if snd (btbl_insert BROADCAST_ID_LENGTH t broadcast_id ptr) = 0
      then Some (s, broadcast_id, fst (btbl_insert BROADCAST_ID_LENGTH t broadcast_id ptr))
      else claim_broadcast_id t ptr (snd (SECURE_RANDOM BROADCAST_ID_LENGTH s))
             (fst (SECURE_RANDOM BROADCAST_ID_LENGTH s)))"

definition requested :: "i64 \<Rightarrow> hive \<Rightarrow> i32 option" where
  "requested ptr s = map_option br_requested (h_broadcasts s ptr)"

definition RequestMemoryPage :: "i64 \<Rightarrow> hive \<Rightarrow> hive option" where
  "RequestMemoryPage page_id s =
     (let s = s\<lparr>h_stat_output := h_stat_output s + 1\<rparr>; (s, bid) = SECURE_RANDOM BROADCAST_ID_LENGTH s in
      do { (s, ptr) \<leftarrow> new_broadcast page_id (-1) s;
           (s, bid, t) \<leftarrow> claim_broadcast_id (h_get_page_broadcasts s) ptr bid s;
           s \<leftarrow> RedirectBroadcastQuery page_id bid (-1) ptr (s\<lparr>h_get_page_broadcasts := t\<rparr>);
           n \<leftarrow> requested ptr s;
           if n = 0 then ConfirmPage page_id s else Some s })"

definition RequestServerId :: "i64 \<Rightarrow> hive \<Rightarrow> hive option" where
  "RequestServerId new_id s =
     (let (s, bid) = SECURE_RANDOM BROADCAST_ID_LENGTH s in
      do { (s, ptr) \<leftarrow> new_broadcast new_id (-1) s;
           (s, bid, t) \<leftarrow> claim_broadcast_id (h_get_id_broadcasts s) ptr bid s;
           s \<leftarrow> RedirectBroadcastIDQuery new_id bid (-1) ptr (s\<lparr>h_get_id_broadcasts := t\<rparr>);
           n \<leftarrow> requested ptr s;
           Some (if n = 0 then ConfirmID new_id s else s) })"

definition PagesAllocator_turn :: "hive \<Rightarrow> hive option" where
  "PagesAllocator_turn s =
     (let free_objects = (\<Sum>p \<leftarrow> h_pages s. int OBJECTS_PER_PAGE - int (pg_next p)) in
      if free_objects < int (OBJECTS_PER_PAGE * 2) then
        let (s, r) = SECURE_RANDOM 5 s in RequestMemoryPage (le_word r OR 0x8000000000000000) s
      else Some s)"

text \<open>One turn of the loop of \<^verbatim>\<open>start_remote_subsystem\<close> that acquires the id of the hive.\<close>

definition acquire_id_turn :: "hive \<Rightarrow> hive option" where
  "acquire_id_turn s =
     (let (s, r) = SECURE_RANDOM 8 s in RequestServerId (le_word r OR 0x8000000000000000) s)"

section \<open>The cases of the handler\<close>

definition i64_at :: "byte list \<Rightarrow> nat \<Rightarrow> i64" where
  "i64_at buffer i = le_word (take 8 (drop i buffer))"

definition handle_request_connection :: "i64 \<Rightarrow> byte list \<Rightarrow> hive \<Rightarrow> (hive \<times> bool) option" where
  "handle_request_connection con buffer s =
     Some (ConfirmConnection con (i64_at buffer 0) (i64_at buffer 8) s, True)"

definition handle_answer_request_connection :: "i64 \<Rightarrow> byte list \<Rightarrow> hive \<Rightarrow> (hive \<times> bool) option" where
  "handle_answer_request_connection con buffer s =
     (let local_id = i64_at buffer 0 in
      case index_of (\<lambda>c. c_local_id c = local_id) (h_conns s) of
        None \<Rightarrow> Some (s, False)
      | Some index \<Rightarrow>
          let out = c_outgoing (h_conns s ! index);
              s = update_conn con (\<lambda>c. c\<lparr>c_outgoing := out\<rparr>) s
          in Some (s\<lparr>h_conns := remove_swap index (h_conns s)\<rparr>, True))"

text \<open>
  The part of the two broadcast handlers after the checks: a broadcast seen from another connection is
  confirmed at once; one from the connection that it first came from is confirmed when all answers are
  here. \<open>confirm\<close> sends the confirmation.
\<close>

definition known_broadcast ::
  "(conn \<Rightarrow> byte list \<Rightarrow> hive \<Rightarrow> hive) \<Rightarrow> i64 \<Rightarrow> byte list \<Rightarrow> i64 \<Rightarrow> hive \<Rightarrow> (hive \<times> bool) option" where
  "known_broadcast confirm con broadcast_id ptr s =
     do { b \<leftarrow> h_broadcasts s ptr;
          c \<leftarrow> GetConnectionById con s;
          Some (if br_redirect b \<noteq> con \<or> br_answered b = br_requested b then confirm c broadcast_id s else s, True) }"

definition handle_request_id :: "i64 \<Rightarrow> byte list \<Rightarrow> hive \<Rightarrow> (hive \<times> bool) option" where
  "handle_request_id con buffer s =
     (let want_id = i64_at buffer 0; broadcast_id = drop 8 buffer in
      if h_server_id s = want_id then Some (s, True)
      else
        let timeout = tbl_get (h_get_id_ids s) want_id;
            (s, now) = (if timeout \<noteq> 0 then GetTicks s else (s, 0))
        in if timeout \<noteq> 0 \<and> now <s timeout then Some (s, True)
           else
             let ptr = btbl_get BROADCAST_ID_LENGTH (h_get_id_broadcasts s) broadcast_id in
             if ptr \<noteq> 0 then known_broadcast SendIDConfirm con broadcast_id ptr s
             else
               do { (s, ptr) \<leftarrow> new_broadcast want_id con s;
                    let (t, _) = btbl_insert BROADCAST_ID_LENGTH (h_get_id_broadcasts s) broadcast_id ptr;
                    s \<leftarrow> RedirectBroadcastIDQuery want_id broadcast_id con ptr (s\<lparr>h_get_id_broadcasts := t\<rparr>);
                    n \<leftarrow> requested ptr s;
                    c \<leftarrow> GetConnectionById con s;
                    Some (if n = 0 then SendIDConfirm c broadcast_id s else s, True) })"

text \<open>
  The end of the two answer handlers: \<open>confirmed\<close> is what this hive does when it started the
  broadcast itself.
\<close>

definition count_answer ::
  "(conn \<Rightarrow> byte list \<Rightarrow> hive \<Rightarrow> hive) \<Rightarrow> (i64 \<Rightarrow> hive \<Rightarrow> hive option) \<Rightarrow> byte list \<Rightarrow> i64 \<Rightarrow> hive \<Rightarrow>
   (hive \<times> bool) option" where
  "count_answer confirm confirmed broadcast_id ptr s =
     (if ptr = 0 then Some (s, True)
      else do {
        b \<leftarrow> h_broadcasts s ptr;
        let s = s\<lparr>h_broadcasts := (h_broadcasts s)(ptr \<mapsto> b\<lparr>br_answered := br_answered b + 1\<rparr>)\<rparr>;
        if br_answered b + 1 = br_requested b then
          (if br_redirect b = -1 then map_option (\<lambda>s. (s, True)) (confirmed (br_id b) s)
           else Some (case GetConnectionById (br_redirect b) s of
                        None \<Rightarrow> s
                      | Some c \<Rightarrow> confirm c broadcast_id s, True))
        else Some (s, True) })"

definition handle_answer_request_id :: "byte list \<Rightarrow> hive \<Rightarrow> (hive \<times> bool) option" where
  "handle_answer_request_id buffer s =
     count_answer SendIDConfirm (\<lambda>i s. Some (ConfirmID i s)) buffer
       (btbl_get BROADCAST_ID_LENGTH (h_get_id_broadcasts s) buffer) s"

text \<open>
  The upper three bytes of the page id are not initialised. The new broadcast is stored in the table of
  the id broadcasts.
\<close>

definition handle_request_mem_page :: "i64 \<Rightarrow> byte list \<Rightarrow> hive \<Rightarrow> (hive \<times> bool) option" where
  "handle_request_mem_page con buffer s =
     (let s = s\<lparr>h_stat_input := h_stat_input s + 1\<rparr>;
          (s, junk) = uninitialised s;
          page_id = le_word (take 5 buffer @ drop 5 (le_bytes 8 junk));
          broadcast_id = drop 5 buffer
      in if \<exists>p \<in> set (h_pages s). pg_id p = page_id then Some (s, True)
         else
           let timeout = tbl_get (h_get_page_ids s) page_id;
               (s, now) = (if timeout \<noteq> 0 then GetTicks s else (s, 0))
           in if timeout \<noteq> 0 \<and> now <s timeout then Some (s, True)
              else
                let ptr = btbl_get BROADCAST_ID_LENGTH (h_get_page_broadcasts s) broadcast_id in
                if ptr \<noteq> 0 then known_broadcast SendPageAllocationConfirm con broadcast_id ptr s
                else
                  do { (s, ptr) \<leftarrow> new_broadcast page_id con s;
                       let (t, r) = btbl_insert BROADCAST_ID_LENGTH (h_get_id_broadcasts s) broadcast_id ptr;
                       if r = 0 then
                         do { s \<leftarrow> RedirectBroadcastQuery page_id broadcast_id con ptr (s\<lparr>h_get_id_broadcasts := t\<rparr>);
                              n \<leftarrow> requested ptr s;
                              c \<leftarrow> GetConnectionById con s;
                              Some (if n = 0 then SendPageAllocationConfirm c broadcast_id s else s, True) }
                       else
                         known_broadcast SendPageAllocationConfirm con broadcast_id r
                           (s\<lparr>h_broadcasts := (h_broadcasts s)(ptr := None)\<rparr>) })"

definition handle_answer_request_mem_page :: "byte list \<Rightarrow> hive \<Rightarrow> (hive \<times> bool) option" where
  "handle_answer_request_mem_page buffer s =
     count_answer SendPageAllocationConfirm ConfirmPage buffer
       (btbl_get BROADCAST_ID_LENGTH (h_get_page_broadcasts s) buffer) s"

text \<open>The bytes from an address relative to the data of an object on, as far as its block goes.\<close>

definition bytes_from :: "obj \<Rightarrow> i64 \<Rightarrow> byte list option" where
  "bytes_from ob offset =
     (let at = int (ob_base ob) + sint offset in
      if 0 \<le> at \<and> at \<le> int (length (ob_block ob)) then Some (drop (nat at) (ob_block ob)) else None)"

definition handle_query_object :: "i64 \<Rightarrow> byte list \<Rightarrow> hive \<Rightarrow> (hive \<times> bool) option" where
  "handle_query_object con buffer s =
     (let s = s\<lparr>h_stat_input := h_stat_input s + 1\<rparr>;
          object_id = i64_at buffer 0; offset = i64_at buffer 8; sz = i64_at buffer 16;
          pointer = tbl_get (h_local_objects s) object_id
      in if pointer \<noteq> 0 then
           do { ob \<leftarrow> h_objects s pointer;
                d \<leftarrow> bytes_from ob offset;
                c \<leftarrow> GetConnectionById con s;
                s \<leftarrow> AnswerQueryObject c d object_id offset sz s;
                Some (s, True) }
         else
           do { s \<leftarrow> insert_get_waiter 24 (get_wait_list_key object_id offset sz) con callbackQueryAnswerLocalId s;
                s \<leftarrow> RequestObjectGet object_id offset sz None s;
                Some (s, True) })"

definition handle_answer_query_object :: "byte list \<Rightarrow> hive \<Rightarrow> (hive \<times> bool) option" where
  "handle_answer_query_object buffer s =
     map_option (\<lambda>s. (s, True))
       (UpdateWaitingQuery (i64_at buffer 0) (i64_at buffer 8) (i64_at buffer 16) (drop 24 buffer) s)"

text \<open>A redirected push waits in the list of the queries, under the first 24 bytes of its key.\<close>

definition handle_push_object :: "i64 \<Rightarrow> byte list \<Rightarrow> hive \<Rightarrow> (hive \<times> bool) option" where
  "handle_push_object con buffer s =
     (let s = s\<lparr>h_stat_input := h_stat_input s + 1\<rparr>;
          object_id = i64_at buffer 0; offset = i64_at buffer 8; sz = i64_at buffer 16;
          data = drop 24 buffer;
          pointer = tbl_get (h_local_objects s) object_id
      in do { hash \<leftarrow> hash_of data sz;
              if pointer \<noteq> 0 then
                do { s \<leftarrow> universalUpdateLocalPush pointer offset sz (Memory data) s;
                     c \<leftarrow> GetConnectionById con s;
                     s \<leftarrow> UpdateWaitingPush object_id offset sz hash (AnswerPushObject c object_id offset sz hash s);
                     Some (s, True) }
              else
                do { s \<leftarrow> insert_get_waiter 40 (set_wait_list_key object_id offset sz hash) con
                       callbackPushAnswerLocalId s;
                     s \<leftarrow> RequestObjectGet object_id offset sz None s;
                     s \<leftarrow> RequestObjectSet object_id offset sz data None s;
                     Some (s, True) } })"

definition handle_answer_push_object :: "byte list \<Rightarrow> hive \<Rightarrow> (hive \<times> bool) option" where
  "handle_answer_push_object buffer s =
     map_option (\<lambda>s. (s, True))
       (UpdateWaitingPush (i64_at buffer 0) (i64_at buffer 8) (i64_at buffer 16) (i64_at buffer 24) s)"

definition handle_request_path :: "i64 \<Rightarrow> byte list \<Rightarrow> hive \<Rightarrow> (hive \<times> bool) option" where
  "handle_request_path con buffer s =
     (let s = s\<lparr>h_stat_input := h_stat_input s + 1\<rparr>; object_id = i64_at buffer 0; broadcast_id = drop 8 buffer in
      if tbl_get (h_local_objects s) object_id \<noteq> 0 then Some (AnswerRequestObjectPath object_id 1 s, True)
      else if btbl_get BROADCAST_ID_LENGTH (h_get_path_broadcasts s) broadcast_id = 0 then
        do { s \<leftarrow> RequestObjectPathBroadcast object_id con s;
             Some (s\<lparr>h_get_path_broadcasts :=
               fst (btbl_insert BROADCAST_ID_LENGTH (h_get_path_broadcasts s) broadcast_id 1)\<rparr>, True) }
      else Some (s, True))"

definition new_path :: "i64 \<Rightarrow> i64 \<Rightarrow> hive \<Rightarrow> (hive \<times> i64) option" where
  "new_path con distance s =
     (case myMalloc 16 s of
        None \<Rightarrow> None
      | Some (s, a) \<Rightarrow>
          Some (s\<lparr>h_paths := (h_paths s)(a \<mapsto> \<lparr>pa_local_id = con, pa_distance = distance\<rparr>)\<rparr>, a))"

definition handle_answer_request_path :: "i64 \<Rightarrow> byte list \<Rightarrow> hive \<Rightarrow> (hive \<times> bool) option" where
  "handle_answer_request_path con buffer s =
     (let object_id = i64_at buffer 0; distance = i64_at buffer 8;
          ptr = tbl_get (h_object_paths s) object_id
      in if tbl_get (h_local_objects s) object_id \<noteq> 0 then Some (s, True)
         else if ptr \<noteq> 0 then
           do { p \<leftarrow> h_paths s ptr;
                if distance <s pa_distance p then
                  Some (AnswerRequestObjectPath object_id (distance + 1)
                    (s\<lparr>h_paths := (h_paths s)(ptr \<mapsto> \<lparr>pa_local_id = con, pa_distance = distance\<rparr>)\<rparr>), True)
                else Some (s, True) }
         else
           do { (s, a) \<leftarrow> new_path con (distance + 1) s;
                (t, _) \<leftarrow> tbl_insert (h_object_paths s) object_id a;
                Some (AnswerRequestObjectPath object_id (distance + 1) (s\<lparr>h_object_paths := t\<rparr>), True) })"

definition handle_request_path_to_id :: "i64 \<Rightarrow> byte list \<Rightarrow> hive \<Rightarrow> (hive \<times> bool) option" where
  "handle_request_path_to_id con buffer s =
     (let s = s\<lparr>h_stat_input := h_stat_input s + 1\<rparr>; global_id = i64_at buffer 0; broadcast_id = drop 8 buffer in
      if global_id = h_server_id s then Some (AnswerRequestPathToID global_id 1 s, True)
      else if btbl_get BROADCAST_ID_LENGTH (h_get_path_to_id_broadcasts s) broadcast_id = 0 then
        do { s \<leftarrow> RequestObjectPathBroadcast global_id con s;
             Some (s\<lparr>h_get_path_to_id_broadcasts :=
               fst (btbl_insert BROADCAST_ID_LENGTH (h_get_path_to_id_broadcasts s) broadcast_id 1)\<rparr>, True) }
      else Some (s, True))"

text \<open>The loop goes round again after it has made a new path; the flag is false when it returns early.\<close>

partial_function (option) id_path_loop :: "i64 \<Rightarrow> i64 \<Rightarrow> i64 \<Rightarrow> hive \<Rightarrow> (hive \<times> bool) option" where
  "id_path_loop con global_id distance s =
     (let ptr = tbl_get (h_global_id_paths s) global_id in
      if ptr \<noteq> 0 then
        Option.bind (h_paths s ptr) (\<lambda>p.
          if distance <s pa_distance p then
            Some (s\<lparr>h_paths := (h_paths s)(ptr \<mapsto> \<lparr>pa_local_id = con, pa_distance = distance\<rparr>)\<rparr>, True)
          else Some (s, False))
      else
        Option.bind (new_path con (distance + 1) s) (\<lambda>x.
        Option.bind (tbl_insert (h_global_id_paths (fst x)) global_id (snd x)) (\<lambda>y.
          id_path_loop con global_id distance ((fst x)\<lparr>h_global_id_paths := fst y\<rparr>))))"

definition handle_answer_request_path_to_id :: "i64 \<Rightarrow> byte list \<Rightarrow> hive \<Rightarrow> (hive \<times> bool) option" where
  "handle_answer_request_path_to_id con buffer s =
     (let global_id = i64_at buffer 0; distance = i64_at buffer 8 in
      if global_id = h_server_id s then Some (s, True)
      else do { (s, better) \<leftarrow> id_path_loop con global_id distance s;
                Some (if better then AnswerRequestPathToID global_id (distance + 1) s else s, True) })"

definition handle_call_worker :: "byte list \<Rightarrow> hive \<Rightarrow> (hive \<times> bool) option" where
  "handle_call_worker buffer s =
     (let s = s\<lparr>h_stat_input := h_stat_input s + 1\<rparr> in
      map_option (\<lambda>s. (s, True)) (StartNewWorker (i64_at buffer 0) (i64_at buffer 8) (drop 16 buffer) s))"

definition handle_get_hive_state :: "i64 \<Rightarrow> byte list \<Rightarrow> hive \<Rightarrow> (hive \<times> bool) option" where
  "handle_get_hive_state con buffer s =
     Some (update_conn con (\<lambda>c. c\<lparr>c_wait_list_len := i64_at buffer 0, c_queue_len := i64_at buffer 8,
       c_idle_time := i64_at buffer 16\<rparr>) s, True)"

definition HandleApiCall :: "i64 \<Rightarrow> hive \<Rightarrow> conn_ctx \<Rightarrow> (hive \<times> bool) option" where
  "HandleApiCall con s ctx =
     (let call = x_api_call ctx; buffer = x_buffer ctx in
      if call = API_REQUEST_CONNECTION then handle_request_connection con buffer s
      else if call = answer_to API_REQUEST_CONNECTION then handle_answer_request_connection con buffer s
      else if call = API_REQUEST_ID then handle_request_id con buffer s
      else if call = answer_to API_REQUEST_ID then handle_answer_request_id buffer s
      else if call = API_REQUEST_MEM_PAGE then handle_request_mem_page con buffer s
      else if call = answer_to API_REQUEST_MEM_PAGE then handle_answer_request_mem_page buffer s
      else if call = API_QUERY_OBJECT then handle_query_object con buffer s
      else if call = answer_to API_QUERY_OBJECT then handle_answer_query_object buffer s
      else if call = API_PUSH_OBJECT then handle_push_object con buffer s
      else if call = answer_to API_PUSH_OBJECT then handle_answer_push_object buffer s
      else if call = API_REQUEST_PATH then handle_request_path con buffer s
      else if call = answer_to API_REQUEST_PATH then handle_answer_request_path con buffer s
      else if call = API_REQUEST_PATH_TO_ID then handle_request_path_to_id con buffer s
      else if call = answer_to API_REQUEST_PATH_TO_ID then handle_answer_request_path_to_id con buffer s
      else if call = API_CALL_WORKER then handle_call_worker buffer s
      else if call = API_GET_HIVE_STATE then handle_get_hive_state con buffer s
      else Some (s, False))"

text \<open>What one connection receives, in chunks, is framed by Framing and handled here.\<close>

definition serve_connection :: "i64 \<Rightarrow> byte list list \<Rightarrow> hive \<Rightarrow> (hive \<times> bool) option" where
  "serve_connection con chunks s = map_option snd (receive_chunks (HandleApiCall con) new_context chunks s)"

end
