(* ===== verification/Network.thy ===== *)
theory Network
  imports Handlers
begin

text \<open>
  Two hives: what one sends, the other receives in chunks of any size, frames and handles. The theory puts the
  senders, the framing, the handlers and the wait lists together.
\<close>

section \<open>One message on an idle connection\<close>

lemma small_le_bytes: "n < 256 \<Longrightarrow> le_bytes 7 (of_nat n) = [of_nat n, 0, 0, 0, 0, 0, 0]"
proof -
  assume n: "n < 256"
  then have u: "unat (of_nat n :: i64) = n" by (simp add: unsigned_of_nat take_bit_nat_eq_self)
  then have "unat (drop_bit 8 (of_nat n :: i64)) = 0"
    using n by (simp add: drop_bit_eq_div unat_div)
  then have "drop_bit 8 (of_nat n :: i64) = 0" by (simp add: unat_eq_zero)
  then show ?thesis using n by (simp add: unsigned_of_nat take_bit_nat_eq_self)
qed

lemma encode_header:
  "length body < 256 \<Longrightarrow> encode_message (call, body) = header call (of_nat (length body)) @ body"
  by (simp add: encode_message_def header_def small_le_bytes unsigned_of_nat take_bit_nat_eq_self
      del: le_bytes_numeral)

lemma serve_message:
  assumes "\<And>s ctx. x_api_call ctx = call \<Longrightarrow> take (length body) (x_buffer ctx) = body \<Longrightarrow>
      length (x_buffer ctx) = 4096 \<Longrightarrow> HandleApiCall con s ctx = h s"
    "call < 256" "body \<noteq> []" "length body < 256" "concat chunks = header call (of_nat (length body)) @ body"
  shows "serve_connection con chunks s = h s"
proof -
  have "map_option snd (receive_chunks (HandleApiCall con) new_context chunks s) = deliver (\<lambda>s _ _. h s) s [(call, body)]"
    by (rule stream_delivered) (use assms encode_header [OF assms(4), of call] in auto)
  also have "\<dots> = h s" by (auto split: option.split bool.split)
  finally show ?thesis by (simp add: serve_connection_def)
qed

section \<open>An answer and the bytes behind it\<close>

text \<open>The handler of an answer passes a pointer into the receive buffer; only the bytes of the answer count.\<close>

lemma query_callback_data:
  assumes "unat sz \<le> length data" "unat sz \<le> length data'" "take (unat sz) data = take (unat sz) data'"
  shows "run_query_callback object_id offset sz data = run_query_callback object_id offset sz data'"
proof (intro ext)
  fix v s
  have up: "UpdateFromQueryResult d m data r u = UpdateFromQueryResult d m data' r u" if "myAbs m = sz" for d m r u
    using assms that by (simp add: UpdateFromQueryResult_def Let_def)
  have on: "x64OnQueryObject w st object_id offset sz data r u = x64OnQueryObject w st object_id offset sz data' r u" for w st r u
    using up by (auto simp: x64OnQueryObject_def split: wait_state.splits)
  have "callback_continue_query object_id offset sz data = callback_continue_query object_id offset sz data'"
    unfolding callback_continue_query_def on ..
  moreover have "AnswerQueryObject con data object_id offset sz u = AnswerQueryObject con data' object_id offset sz u" for con u
    using assms by (simp add: AnswerQueryObject_def)
  then have "callback_query_local_id object_id offset sz data = callback_query_local_id object_id offset sz data'"
    unfolding callback_query_local_id_def by presburger
  ultimately show "run_query_callback object_id offset sz data v s = run_query_callback object_id offset sz data' v s"
    by (cases "wt_callback v") (simp_all add: run_query_callback_def)
qed

lemma query_list_data_le:
  assumes "run_query_callback object_id offset sz data = run_query_callback object_id offset sz data'"
    "UpdateWaitingQueryList object_id offset sz data q s = Some r"
  shows "UpdateWaitingQueryList object_id offset sz data' q s = Some r"
proof -
  let ?P = "\<lambda>oid off n d q s r. run_query_callback oid off n d = run_query_callback oid off n data' \<longrightarrow>
    UpdateWaitingQueryList oid off n data' q s = Some r"
  have "?P object_id offset sz data q s r"
  proof (rule UpdateWaitingQueryList.raw_induct [where P = ?P, OF _ assms(2)], intro impI)
    fix walk :: "i64 \<Rightarrow> i64 \<Rightarrow> i64 \<Rightarrow> byte list \<Rightarrow> i64 \<Rightarrow> hive \<Rightarrow> hive option"
    fix oid off n :: i64 and d and q :: i64 and s r :: hive
    assume IH: "\<And>oid off n d q s r. walk oid off n d q s = Some r \<Longrightarrow> ?P oid off n d q s r"
      and same: "run_query_callback oid off n d = run_query_callback oid off n data'"
      and step: "(if q = 0 then Some s
        else Option.bind (h_waiters s q) (\<lambda>v. Option.bind (run_query_callback oid off n d v s) (\<lambda>s.
          Option.bind (h_waiters s q) (\<lambda>v. walk oid off n d (wt_next v) (s\<lparr>h_waiters := (h_waiters s)(q := None)\<rparr>))))) =
        Some r"
    show "UpdateWaitingQueryList oid off n data' q s = Some r"
      using step IH same
      by (subst UpdateWaitingQueryList.simps) (auto simp: Option.bind_eq_Some_conv split: if_splits)
  qed
  then show ?thesis using assms(1) by simp
qed

lemma UpdateWaitingQuery_data:
  assumes "unat sz \<le> length data" "unat sz \<le> length data'" "take (unat sz) data = take (unat sz) data'"
  shows "UpdateWaitingQuery object_id offset sz data = UpdateWaitingQuery object_id offset sz data'"
proof -
  have walk: "UpdateWaitingQueryList object_id offset sz data q s = UpdateWaitingQueryList object_id offset sz data' q s" for q s
    using query_list_data_le [OF query_callback_data [OF assms]]
      query_list_data_le [OF query_callback_data [OF assms(2,1) assms(3) [symmetric]]]
    by (metis not_Some_eq)
  show ?thesis unfolding UpdateWaitingQuery_def walk ..
qed

lemmas api_calls = answer_to_def API_REQUEST_CONNECTION_def API_REQUEST_MEM_PAGE_def API_QUERY_OBJECT_def
  API_PUSH_OBJECT_def API_REQUEST_PATH_def API_CALL_WORKER_def API_GET_HIVE_STATE_def API_REQUEST_ID_def
  API_REQUEST_PATH_TO_ID_def

section \<open>A query and its answer, between two hives\<close>

lemma i64_at_body:
  assumes "take (length body) buffer = body" "k + 8 \<le> length body"
  shows "i64_at buffer k = i64_at body k"
proof -
  have "take 8 (drop k body) = take 8 (drop k buffer)"
    using assms(2) by (subst assms(1) [symmetric]) (simp add: take_drop min_def)
  then show ?thesis by (simp add: i64_at_def)
qed

definition query_body :: "i64 \<Rightarrow> i64 \<Rightarrow> i64 \<Rightarrow> byte list" where
  "query_body object_id offset sz = le_bytes 8 object_id @ le_bytes 8 offset @ le_bytes 8 sz"

lemma query_body_fields:
  "i64_at (query_body object_id offset sz @ xs) 0 = object_id"
  "i64_at (query_body object_id offset sz @ xs) 8 = offset"
  "i64_at (query_body object_id offset sz @ xs) 16 = sz"
  "length (query_body object_id offset sz) = 24"
  by (simp_all add: i64_at_def query_body_def le_word_le_bytes del: le_bytes_numeral)

lemma query_body_not_Nil [simp]: "query_body object_id offset sz \<noteq> []"
  using query_body_fields(4) [of object_id offset sz] by auto

text \<open>The hive that has the object answers at once.\<close>

lemma serve_query:
  assumes "tbl_get (h_local_objects s) object_id = pointer" "pointer \<noteq> 0" "h_objects s pointer = Some ob"
    "bytes_from ob offset = Some d" "0 \<le>s sz" "unat sz \<le> length d" "GetConnectionById con s = Some c"
    "concat chunks = query_message object_id offset sz"
  shows "serve_connection con chunks s =
    Some (emitData (c_outgoing c) (query_answer object_id offset sz d) (s\<lparr>h_stat_input := h_stat_input s + 1\<rparr>), True)"
proof -
  let ?body = "query_body object_id offset sz"
  have con: "GetConnectionById con (s\<lparr>h_stat_input := h_stat_input s + 1\<rparr>) = Some c"
    using assms(7) by (simp add: GetConnectionById_def)
  have "serve_connection con chunks s = handle_query_object con ?body s"
  proof (rule serve_message [where call = API_QUERY_OBJECT])
    fix s :: hive and ctx :: conn_ctx
    assume call: "x_api_call ctx = API_QUERY_OBJECT" and body: "take (length ?body) (x_buffer ctx) = ?body"
    have "i64_at (x_buffer ctx) k = i64_at ?body k" if "k \<le> 16" for k
      using i64_at_body [OF body] that by (simp add: query_body_fields)
    then have "handle_query_object con (x_buffer ctx) s = handle_query_object con ?body s"
      by (simp add: handle_query_object_def)
    then show "HandleApiCall con s ctx = handle_query_object con ?body s"
      using call by (simp add: HandleApiCall_def api_calls)
  qed (use assms(8) in \<open>simp_all add: query_body_fields query_message_def api_calls flip: query_body_def del: le_bytes_numeral\<close>)
  also have "\<dots> = Some (emitData (c_outgoing c) (query_answer object_id offset sz d) (s\<lparr>h_stat_input := h_stat_input s + 1\<rparr>), True)"
    using assms(1-6) con query_body_fields(1-3) [of object_id offset sz "[]"]
    by (simp add: handle_query_object_def AnswerQueryObject_eq)
  finally show ?thesis .
qed

text \<open>The hive that asked gives the answer to its waiters.\<close>

lemma serve_answer:
  assumes "unat sz + 24 < 256" "unat sz \<le> length d" "concat chunks = query_answer object_id offset sz d"
  shows "serve_connection con chunks s = map_option (\<lambda>s. (s, True)) (UpdateWaitingQuery object_id offset sz d s)"
proof -
  let ?d = "take (unat sz) d" and ?n = "unat sz"
  let ?body = "query_body object_id offset sz @ ?d"
  have len: "length ?body = 24 + ?n" using assms(2) by (simp add: query_body_fields)
  have "(of_nat (24 + ?n) :: i64) = 24 + sz" by simp
  then have stream: "concat chunks = header (answer_to API_QUERY_OBJECT) (of_nat (length ?body)) @ ?body"
    using assms(3) unfolding len by (simp add: query_answer_def query_body_def)
  have "serve_connection con chunks s = map_option (\<lambda>s. (s, True)) (UpdateWaitingQuery object_id offset sz ?d s)"
  proof (rule serve_message [OF _ _ _ _ stream])
    fix s :: hive and ctx :: conn_ctx
    assume call: "x_api_call ctx = answer_to API_QUERY_OBJECT" and body: "take (length ?body) (x_buffer ctx) = ?body"
      and buf: "length (x_buffer ctx) = 4096"
    have at: "i64_at (x_buffer ctx) k = i64_at ?body k" if "k \<le> 16" for k
      using i64_at_body [OF body] that len by simp
    have "take ?n (drop 24 (x_buffer ctx)) = drop 24 (take (24 + ?n) (x_buffer ctx))" by (simp add: drop_take)
    also have "\<dots> = ?d" using body unfolding len by (simp add: query_body_fields)
    finally have "UpdateWaitingQuery object_id offset sz (drop 24 (x_buffer ctx)) = UpdateWaitingQuery object_id offset sz ?d"
      using assms(1,2) buf by (intro UpdateWaitingQuery_data) simp_all
    then have "handle_answer_query_object (x_buffer ctx) s =
        map_option (\<lambda>s. (s, True)) (UpdateWaitingQuery object_id offset sz ?d s)"
      using at [of 0] at [of 8] at [of 16] by (simp add: handle_answer_query_object_def query_body_fields)
    then show "HandleApiCall con s ctx = map_option (\<lambda>s. (s, True)) (UpdateWaitingQuery object_id offset sz ?d s)"
      using call by (simp add: HandleApiCall_def api_calls)
  qed (use assms(1) len in \<open>simp_all add: api_calls\<close>)
  moreover have "UpdateWaitingQuery object_id offset sz ?d = UpdateWaitingQuery object_id offset sz d"
    using assms(2) by (intro UpdateWaitingQuery_data) simp_all
  ultimately show ?thesis by simp
qed

section \<open>Properties\<close>

text \<open>
  C1. A worker reads an object of another hive. It asks over a connection on a known path and is paused; the
  hive that has the object, which receives the request in chunks of any size, answers over its own
  connection; and when the answer has arrived, in chunks of any size, the worker is a task of the scheduler
  again, at its return address and with its frame, and has the bytes of the object, in \<^verbatim>\<open>rdi\<close> or at
  its destination. The answer must be shorter than 256 bytes, because its length is sent as one byte.
\<close>

theorem remote_object_read:
  assumes "room_for_task n s" "unat (h_brk s) + 16384 < 2 ^ 63" "tbl_get (h_local_objects s) object_id = 0"
    "h_thread s = Some td" "worker_provider (td_running_id td) s = Some PROVIDER_X64" "h_free_waiting s = []"
    "known_path object_id s = Some (Some pa)" "GetConnectionById (pa_local_id pa) s = Some c"
    "h_get_wait_list s (get_wait_list_key object_id offset (myAbs sz)) = 0" "c_outgoing c \<noteq> INVALID_SOCKET"
    "tbl_get (h_local_objects s') object_id = pointer" "pointer \<noteq> 0" "h_objects s' pointer = Some ob"
    "bytes_from ob offset = Some d" "unat (myAbs sz) \<le> length d" "GetConnectionById con s' = Some c'"
    "c_outgoing c' \<noteq> INVALID_SOCKET" "unat (myAbs sz) + 24 < 256" "if sz <s 0 then unat (myAbs sz) \<le> 8 else True"
  shows "\<exists>s1 request s1' answer.
    x64QueryObject destination object_id offset sz returnAddress rbpValue s = Some (s1, Paused) \<and>
    h_sent s1 (c_outgoing c) = h_sent s (c_outgoing c) @ request \<and>
    (\<forall>chunks. concat chunks = request \<longrightarrow> serve_connection con chunks s' = Some (s1', True)) \<and>
    h_sent s1' (c_outgoing c') = h_sent s' (c_outgoing c') @ answer \<and>
    (\<forall>chunks. concat chunks = answer \<longrightarrow> (\<exists>s2 t k. serve_connection (pa_local_id pa) chunks s1 = Some (s2, True) \<and>
       h_queued s2 t = Some k \<and> sched_tasks (h_sched s2) = add_mset t (sched_tasks (h_sched s)) \<and>
       k_id k = td_running_id td \<and> k_data k = returnAddress \<and> k_rbp k = rbpValue \<and>
       (if sz <s 0 then take (unat (myAbs sz)) (le_bytes 8 (k_rdi k)) = take (unat (myAbs sz)) d
        else mem_read destination (unat (myAbs sz)) (h_mem s2) = take (unat (myAbs sz)) d)))"
proof -
  let ?n = "myAbs sz"
  obtain s1 q p w timeout where s1: "x64QueryObject destination object_id offset sz returnAddress rbpValue s = Some (s1, Paused)"
    "h_sent s1 = h_sent (emitData (c_outgoing c) (query_message object_id offset ?n) s)"
    and pre: "room_for_task n s1" "h_get_wait_list s1 (get_wait_list_key object_id offset ?n) = q" "q \<noteq> 0" "q AND TAG = 0"
      "h_waiters s1 q = Some \<lparr>wt_next = 0, wt_params = p, wt_callback = callbackContinueWorkerFromWaitingQuery\<rparr>"
      "h_waiting s1 p = Some w" "w_state w = QueryObjectWait object_id offset sz destination timeout"
      "w_queued w = 0" "w_links w = 1"
    and w: "w_id w = td_running_id td" "w_data w = returnAddress" "w_rbp w = rbpValue"
      "h_workers s1 = h_workers s" "h_sched s1 = h_sched s"
    by (rule query_known_path [OF assms(1-9)]) (rule that; assumption)
  have prov: "worker_provider (w_id w) s1 = Some PROVIDER_X64"
    using assms(5) w(1,4) unfolding worker_provider_def by (simp only:)
  note woken = answer_wakes_worker [OF pre prov assms(15,19), unfolded w]
  let ?answer = "query_answer object_id offset ?n d"
  let ?s1' = "emitData (c_outgoing c') ?answer (s'\<lparr>h_stat_input := h_stat_input s' + 1\<rparr>)"
  have "0 \<le>s ?n" using assms(18) small_nonneg [of ?n] by simp
  then have "serve_connection con chunks s' = Some (?s1', True)"
    if "concat chunks = query_message object_id offset ?n" for chunks
    using serve_query [OF assms(11-14) _ assms(15,16) that] by simp
  moreover have "h_sent s1 (c_outgoing c) = h_sent s (c_outgoing c) @ query_message object_id offset ?n"
    "h_sent ?s1' (c_outgoing c') = h_sent s' (c_outgoing c') @ ?answer"
    using s1(2) assms(10,17) by (simp_all add: emitData_def)
  moreover have "\<exists>s2 t k. serve_connection (pa_local_id pa) chunks s1 = Some (s2, True) \<and>
       h_queued s2 t = Some k \<and> sched_tasks (h_sched s2) = add_mset t (sched_tasks (h_sched s)) \<and>
       k_id k = td_running_id td \<and> k_data k = returnAddress \<and> k_rbp k = rbpValue \<and>
       (if sz <s 0 then take (unat ?n) (le_bytes 8 (k_rdi k)) = take (unat ?n) d
        else mem_read destination (unat ?n) (h_mem s2) = take (unat ?n) d)"
    if "concat chunks = ?answer" for chunks
  proof -
    obtain s2 t k where k: "UpdateWaitingQuery object_id offset ?n d s1 = Some s2" "h_queued s2 t = Some k"
      "sched_tasks (h_sched s2) = add_mset t (sched_tasks (h_sched s))" "k_id k = td_running_id td"
      "k_data k = returnAddress" "k_rbp k = rbpValue"
      "if sz <s 0 then take (unat ?n) (le_bytes 8 (k_rdi k)) = take (unat ?n) d
       else mem_read destination (unat ?n) (h_mem s2) = take (unat ?n) d"
      using woken by blast
    moreover have "serve_connection (pa_local_id pa) chunks s1 = Some (s2, True)"
      using serve_answer [OF assms(18,15) that, of "pa_local_id pa" s1] k(1) by simp
    ultimately show ?thesis by blast
  qed
  ultimately show ?thesis using s1(1) by blast
qed

definition sample_owner :: hive where
  "sample_owner = sample_program\<lparr>h_conns := [sample_conn 5 20], h_local_objects := (\<lambda>_. 0)(7 := 0x300),
     h_objects := [0x300 \<mapsto> \<lparr>ob_block = [2, 0, 0, 0, 0, 0, 0, 4, 5, 6], ob_base = 8\<rparr>]\<rparr>"

lemma sample_owner:
  "tbl_get (h_local_objects sample_owner) 7 = 0x300"
  "h_objects sample_owner 0x300 = Some \<lparr>ob_block = [2, 0, 0, 0, 0, 0, 0, 4, 5, 6], ob_base = 8\<rparr>"
  "bytes_from \<lparr>ob_block = [2, 0, 0, 0, 0, 0, 0, 4, 5, 6], ob_base = 8\<rparr> 0 = Some [5, 6]"
  "GetConnectionById 5 sample_owner = Some (sample_conn 5 20)"
  by (simp_all add: sample_owner_def sample_program_def init_hive_def tbl_get_def bytes_from_def
      GetConnectionById_def sample_conn_def)

theorem remote_object_read_witness:
  "\<exists>s1 request s1' answer. x64QueryObject 0 7 0 (-2) 0x420 0x800 sample_on_path = Some (s1, Paused) \<and>
     h_sent s1 10 = request \<and>
     (\<forall>chunks. concat chunks = request \<longrightarrow> serve_connection 5 chunks sample_owner = Some (s1', True)) \<and>
     h_sent s1' 20 = h_sent sample_owner 20 @ answer \<and>
     (\<forall>chunks. concat chunks = answer \<longrightarrow> (\<exists>s2 t k. serve_connection 3 chunks s1 = Some (s2, True) \<and>
        h_queued s2 t = Some k \<and> k_data k = 0x420 \<and> take 2 (le_bytes 8 (k_rdi k)) = [5, 6]))"
proof -
  have neg: "myAbs (-2) = 2" "(-2 :: i64) <s 0" by (simp_all add: myAbs_def word_sless_alt)
  have out: "c_outgoing (sample_conn 3 10) = 10" "c_outgoing (sample_conn 5 20) = 20" "pa_local_id \<lparr>pa_local_id = 3, pa_distance = 1\<rparr> = 3"
    "(10 :: i64) \<noteq> INVALID_SOCKET" "(20 :: i64) \<noteq> INVALID_SOCKET"
    by (simp_all add: sample_conn_def INVALID_SOCKET_def)
  have "\<exists>s1 request s1' answer. x64QueryObject 0 7 0 (-2) 0x420 0x800 sample_on_path = Some (s1, Paused) \<and>
     h_sent s1 10 = h_sent sample_on_path 10 @ request \<and>
     (\<forall>chunks. concat chunks = request \<longrightarrow> serve_connection 5 chunks sample_owner = Some (s1', True)) \<and>
     h_sent s1' 20 = h_sent sample_owner 20 @ answer \<and>
     (\<forall>chunks. concat chunks = answer \<longrightarrow> (\<exists>s2 t k. serve_connection 3 chunks s1 = Some (s2, True) \<and>
        h_queued s2 t = Some k \<and> sched_tasks (h_sched s2) = add_mset t (sched_tasks (h_sched sample_on_path)) \<and>
        k_id k = 0 \<and> k_data k = 0x420 \<and> k_rbp k = 0x800 \<and>
        (if (-2 :: i64) <s 0 then take (unat (myAbs (-2))) (le_bytes 8 (k_rdi k)) = take (unat (myAbs (-2))) [5, 6]
         else mem_read 0 (unat (myAbs (-2))) (h_mem s2) = take (unat (myAbs (-2))) [5, 6])))"
    using remote_object_read [OF sample_on_path(1-4) _ sample_on_path(6,7), unfolded out(3),
        OF _ sample_on_path(8), where sz = "-2" and offset = 0 and d = "[5, 6]" and destination = 0 and
        returnAddress = "0x420" and rbpValue = "0x800" and s' = sample_owner and con = 5, unfolded out(1),
        OF _ _ out(4) sample_owner(1) _ sample_owner(2,3) _ sample_owner(4), unfolded out(2)]
      sample_on_path(5,9) out(5) by (simp add: neg del: le_bytes_numeral)
  then show ?thesis unfolding neg(1) sample_on_path(10) using neg(2)
    by (simp del: le_bytes_numeral) blast
qed

end
