(* ===== verification/Threads.thy ===== *)
theory Threads
  imports Requests
begin

text \<open>
  The threads of the runtime: what a scheduler thread does in one round (\<^verbatim>\<open>SheduleWorker\<close> of
  \<^verbatim>\<open>common/sheduler.c\<close>), what the master thread checks, the thread that was meant to sweep the wait
  lists, and how a program is started (\<^verbatim>\<open>common/hive_entry.c\<close>).
\<close>

section \<open>One round of a scheduler thread\<close>

text \<open>
  \<open>program\<close> is the machine code of the workers, with the operations that it calls: from a task and a
  state it makes a new state, and says whether it has returned or has left by a long jump, paused. After
  that the worker returns to \<^verbatim>\<open>x64ExecuteWorker\<close>, or the thread is at the start of
  \<^verbatim>\<open>SheduleWorker\<close>. Tasks of the other providers are outside the model.
\<close>

type_synonym machine = "queued_worker \<Rightarrow> hive \<Rightarrow> (hive \<times> bool) option"

definition x64ExecuteWorker :: "machine \<Rightarrow> i64 \<Rightarrow> hive \<Rightarrow> hive option" where
  "x64ExecuteWorker program t s =
     do { q \<leftarrow> h_queued s t;
          (s, returned) \<leftarrow> program q s;
          if returned then x64FinishWorker t s else Some s }"

text \<open>
  \<open>wait_for_exit\<close> is the flag \<^verbatim>\<open>info->waitForExit\<close> when the round reads it: the round then does nothing.
  Not modelled are \<^verbatim>\<open>stallable\<close>, \<^verbatim>\<open>lastWorkerStart\<close> and the two counters of tasks of the thread data:
  they are written here, and only the table of statistics and the master thread, for \<open>stall_candidates\<close>,
  read them.
\<close>

definition SheduleWorker :: "bool \<Rightarrow> machine \<Rightarrow> hive \<Rightarrow> hive option" where
  "SheduleWorker wait_for_exit program s =
     (if wait_for_exit then Some s else do { td \<leftarrow> h_thread s;
          (sched, curr) \<leftarrow> scheduler_dequeue (h_sched s) (td_number td);
          let s = s\<lparr>h_sched := sched\<rparr>;
          if curr \<noteq> 0 then
            do { q \<leftarrow> h_queued s curr;
                 let s = s\<lparr>h_thread := Some (td\<lparr>td_running_id := k_id q, td_running_depth := k_depth q\<rparr>)\<rparr>;
                 provider \<leftarrow> worker_provider (k_id q) s;
                 let (s, _) = GetTicks s;
                 if provider = PROVIDER_X64 then x64ExecuteWorker program curr s else None }
          else UpdateWaitingWorkers False [] [] s })"

text \<open>
  \<^verbatim>\<open>ShedulerInstance\<close>: rounds until its own test of the flag ends the loop; the list has what the
  rounds before that read.
\<close>

primrec ShedulerInstance :: "machine \<Rightarrow> bool list \<Rightarrow> hive \<Rightarrow> hive option" where
  "ShedulerInstance program [] s = Some s"
| "ShedulerInstance program (e # es) s = Option.bind (SheduleWorker e program s) (ShedulerInstance program es)"

text \<open>
  The loop of \<^verbatim>\<open>WaitListUpdateWorker\<close> tests the pointer to its flag instead of the flag. \<open>flag\<close>
  is that pointer; \<open>sweeps\<close> are what the table holds at each round that would be made.
\<close>

fun WaitListUpdateWorker :: "i64 \<Rightarrow> (byte list list \<times> byte list list) list \<Rightarrow> hive \<Rightarrow> hive option" where
  "WaitListUpdateWorker flag [] s = Some s"
| "WaitListUpdateWorker flag ((query_keys, push_keys) # sweeps) s =
     (if flag = 0
      then Option.bind (UpdateWaitingWorkers True query_keys push_keys s) (WaitListUpdateWorker flag sweeps)
      else Some s)"

section \<open>The master thread\<close>

text \<open>The program has ended when the promise of its result is here and ready.\<close>

definition program_ended :: "i64 \<Rightarrow> hive \<Rightarrow> bool option" where
  "program_ended resCodeId s =
     (let p = tbl_get (h_local_objects s) resCodeId in
      if p = 0 then Some False
      else do { ob \<leftarrow> h_objects s p;
                ready \<leftarrow> obj_ready ob;
                Some (ready \<noteq> 0) })"

text \<open>
  Which threads the master tries to stall: those whose worker can be stalled and has run for longer than a
  chunk. On Linux the attempt does nothing.
\<close>

definition stall_candidates :: "i64 \<Rightarrow> i64 \<Rightarrow> (bool \<times> i64) list \<Rightarrow> nat list" where
  "stall_candidates now chunk_time threads =
     filter (\<lambda>i. fst (threads ! i) \<and> chunk_time <s now - snd (threads ! i)) [0..<length threads]"

section \<open>Starting a program\<close>

text \<open>
  An object of the provider \<^verbatim>\<open>loc\<close> is not registered; its address is its name. For an unknown type
  the name is left as it was.
\<close>

definition locNewObjectUsingPage :: "i64 \<Rightarrow> i64 \<Rightarrow> i64 \<Rightarrow> i64 \<Rightarrow> hive \<Rightarrow> (hive \<times> i64) option" where
  "locNewObjectUsingPage type sz param remote_id s =
     do { r \<leftarrow> new_object_block (h_defined_arrays s) PROVIDER_LOC type sz param;
          (case r of
             None \<Rightarrow> Some (s, remote_id)
           | Some ob \<Rightarrow>
               do { (s, res) \<leftarrow> myMalloc (length (ob_block ob)) s;
                    let pointer = res + word_of_nat (ob_base ob);
                    Some (s\<lparr>h_objects := (h_objects s)(pointer \<mapsto> ob)\<rparr>, pointer) }) }"

text \<open>
  \<^verbatim>\<open>StartInitialProcess\<close> asks for its objects until it gets them, and sleeps after each attempt.
  \<open>others\<close> is what the other threads do in these sleeps, one after the other; when it is used up the
  process is still waiting, and there is no result.
\<close>

fun wait_new_object ::
  "i64 \<Rightarrow> i64 \<Rightarrow> i64 \<Rightarrow> (hive \<Rightarrow> hive) list \<Rightarrow> hive \<Rightarrow> (hive \<times> i64 \<times> (hive \<Rightarrow> hive) list) option" where
  "wait_new_object type sz param [] s = None"
| "wait_new_object type sz param (other # others) s =
     (case x64NewObject type sz param 0 0 s of
        Some (s, Returned i) \<Rightarrow>
          if i \<noteq> 0 then Some (other s, i, others) else wait_new_object type sz param others (other s)
      | _ \<Rightarrow> None)"

definition write_object :: "i64 \<Rightarrow> byte list \<Rightarrow> hive \<Rightarrow> hive option" where
  "write_object pointer d s =
     do { ob \<leftarrow> h_objects s pointer;
          ob \<leftarrow> obj_write ob 0 d;
          Some (s\<lparr>h_objects := (h_objects s)(pointer \<mapsto> ob)\<rparr>) }"

text \<open>The object that holds the arguments, of the provider \<^verbatim>\<open>loc\<close> or of x64.\<close>

definition input_object ::
  "i64 list \<Rightarrow> bool \<Rightarrow> (hive \<Rightarrow> hive) list \<Rightarrow> hive \<Rightarrow> (hive \<times> i64 \<times> (hive \<Rightarrow> hive) list) option" where
  "input_object cmdArgs localInput others s =
     (let args = concat (map (le_bytes 8) cmdArgs); sz = 8 * of_nat (length cmdArgs) in
      if localInput then
        (case others of
           [] \<Rightarrow> None
         | other # others \<Rightarrow>
             do { (s, inputId) \<leftarrow> locNewObjectUsingPage OBJECT_ARRAY sz 8 0 s;
                  s \<leftarrow> write_object inputId args (other s);
                  Some (s, inputId, others) })
      else
        do { (s, inputId, others) \<leftarrow> wait_new_object OBJECT_ARRAY sz 8 others s;
             s \<leftarrow> write_object (tbl_get (h_local_objects s) inputId) args s;
             Some (s, inputId, others) })"

definition StartInitialProcess ::
  "i64 \<Rightarrow> i64 list \<Rightarrow> bool \<Rightarrow> (hive \<Rightarrow> hive) list \<Rightarrow> hive \<Rightarrow> (hive \<times> i64) option" where
  "StartInitialProcess entryWorker cmdArgs localInput others s =
     do { (s, inputId, others) \<leftarrow> input_object cmdArgs localInput others s;
          (s, resCodeId, others) \<leftarrow> wait_new_object OBJECT_PROMISE 4 4 others s;
          s \<leftarrow> StartNewWorker entryWorker 1 (le_bytes 8 inputId @ le_bytes 8 resCodeId) s;
          Some (s, resCodeId) }"

section \<open>Rounds\<close>

text \<open>The scheduler of a state after a round has taken its task.\<close>

lemma dequeue_frame:
  "worker_provider i (s\<lparr>h_sched := sd\<rparr>) = worker_provider i s"
  "worker_provider i (s\<lparr>h_thread := td\<rparr>) = worker_provider i s"
  by (simp_all add: worker_provider_def)

lemma round_runs_task:
  assumes "sched_ok n (h_sched s)" "h_thread s = Some td" "td_number td < n" "sched_tasks (h_sched s) \<noteq> {#}"
    "\<forall>t \<in># sched_tasks (h_sched s). \<exists>q. h_queued s t = Some q \<and> worker_provider (k_id q) s = Some PROVIDER_X64"
  obtains t q sd s' where "SheduleWorker False program s = x64ExecuteWorker program t s'"
    "sched_tasks (h_sched s) = add_mset t (sched_tasks sd)" "sched_ok n sd" "h_queued s t = Some q"
    "s' = s\<lparr>h_sched := sd, h_thread := Some (td\<lparr>td_running_id := k_id q, td_running_depth := k_depth q\<rparr>),
       h_clock_pos := h_clock_pos s + 1\<rparr>"
proof -
  obtain sd t where d: "scheduler_dequeue (h_sched s) (td_number td) = Some (sd, t)" "sched_ok n sd" "t \<noteq> 0"
    "sched_tasks (h_sched s) = add_mset t (sched_tasks sd)"
    using scheduler_dequeue_ok [OF assms(1,3)] assms(4) by auto
  then obtain q where q: "h_queued s t = Some q" "worker_provider (k_id q) s = Some PROVIDER_X64" using assms(5) by auto
  have "SheduleWorker False program s = x64ExecuteWorker program t (s\<lparr>h_sched := sd,
       h_thread := Some (td\<lparr>td_running_id := k_id q, td_running_depth := k_depth q\<rparr>), h_clock_pos := h_clock_pos s + 1\<rparr>)"
    using assms(2) d(1,3) q by (simp add: SheduleWorker_def GetTicks_def Let_def dequeue_frame)
  then show ?thesis using that d(2,4) q(1) by blast
qed

lemma idle_round:
  assumes "sched_ok n (h_sched s)" "h_thread s = Some td" "td_number td < n" "sched_tasks (h_sched s) = {#}"
  obtains sd where "SheduleWorker False program s = UpdateWaitingWorkers False [] [] (s\<lparr>h_sched := sd\<rparr>)"
    "sched_tasks sd = {#}" "sched_ok n sd"
  using scheduler_dequeue_ok [OF assms(1,3)] assms(2,4) that by (auto simp: SheduleWorker_def)

lemma sweeper_never_sweeps: "flag \<noteq> 0 \<Longrightarrow> WaitListUpdateWorker flag sweeps s = Some s"
  by (cases sweeps) auto

lemma sleepers_then_run:
  assumes "room_for_tasks n (length (h_wait_list s)) s" "h_thread s = Some td" "td_number td < n"
    "sched_tasks (h_sched s) = {#}"
    "\<forall>x \<in> set (h_wait_list s). asleep (wake (snd x)) (snd x) s" "distinct (map snd (h_wait_list s))"
    "ticks = h_clock s (h_clock_pos s)" "\<exists>x \<in> set (h_wait_list s). wake (snd x) \<le>s ticks"
  shows "\<exists>s1 s2 swept rest due p t. SheduleWorker False program s = Some s1 \<and>
    map snd (h_wait_list s) = swept @ rest \<and> due = filter (\<lambda>p. wake p \<le>s ticks) swept \<and>
    (rest = [] \<or> length due = 16384) \<and>
    map snd (h_wait_list s1) = rest @ rev (filter (\<lambda>p. \<not> wake p \<le>s ticks) swept) \<and>
    SheduleWorker False program s1 = x64ExecuteWorker program t s2 \<and>
    p \<in> set due \<and> h_queued s2 t = Some (task_of (the (h_waiting s p)) 0) \<and>
    queued_tasks s2 = {#Some (task_of (the (h_waiting s p)) 0). p \<in># mset due - {#p#}#}"
proof -
  let ?task = "\<lambda>p. Some (task_of (the (h_waiting s p)) 0)"
  have "sched_ok n (h_sched s)" using assms(1) by (simp add: room_for_tasks_def)
  then obtain sd where sd: "SheduleWorker False program s = UpdateWaitingWorkers False [] [] (s\<lparr>h_sched := sd\<rparr>)"
    "sched_tasks sd = {#}" "sched_ok n sd"
    using idle_round [OF _ assms(2-4)] by blast
  let ?s = "s\<lparr>h_sched := sd\<rparr>"
  have room: "room_for_tasks n (length (h_wait_list ?s)) ?s"
    using assms(1,4) sd(2,3) by (auto simp: room_for_tasks_def queued_pool_ok_def heap_ok_def)
  have asleep: "\<forall>x \<in> set (h_wait_list ?s). asleep (wake (snd x)) (snd x) ?s"
    using assms(5) by (simp add: asleep_def dequeue_frame)
  have none: "None \<notin># queued_tasks ?s" "queued_tasks ?s = {#}" using sd(2) by (simp_all add: queued_tasks_def)
  obtain s1 swept rest where s1: "SheduleWorker False program s = Some s1" "map snd (h_wait_list s) = swept @ rest"
    "rest = [] \<or> length (filter (\<lambda>p. wake p \<le>s ticks) swept) = 16384"
    "map snd (h_wait_list s1) = rest @ rev (filter (\<lambda>p. \<not> wake p \<le>s ticks) swept)"
    "queued_tasks s1 = image_mset ?task (mset (filter (\<lambda>p. wake p \<le>s ticks) swept))"
    "sched_ok n (h_sched s1)" "h_workers s1 = h_workers s" "h_thread s1 = Some td"
    using sleepers_kept [OF room asleep _ _ none(1), of ticks] assms(2,6,7) sd(1) none(2) by auto
  define due where "due = filter (\<lambda>p. wake p \<le>s ticks) swept"
  have tasks: "queued_tasks s1 = image_mset ?task (mset due)" unfolding due_def by (rule s1(5))
  have sub: "set due \<subseteq> snd ` set (h_wait_list s)" using arg_cong [OF s1(2), of set] by (auto simp: due_def)
  have some: "due \<noteq> []"
  proof (cases "rest = []")
    case True
    obtain x where x: "x \<in> set (h_wait_list s)" "wake (snd x) \<le>s ticks" using assms(8) by blast
    have "snd x \<in> set (map snd (h_wait_list s))" using x(1) by simp
    then have "snd x \<in> set swept" unfolding s1(2) True by simp
    then show ?thesis using x(2) by (auto simp: due_def filter_empty_conv)
  next
    case False
    then show ?thesis using s1(3) by (auto simp: due_def)
  qed
  have ready: "\<forall>t \<in># sched_tasks (h_sched s1). \<exists>q. h_queued s1 t = Some q \<and> worker_provider (k_id q) s1 = Some PROVIDER_X64"
  proof
    fix t assume "t \<in># sched_tasks (h_sched s1)"
    then have "h_queued s1 t \<in># queued_tasks s1" by (simp add: queued_tasks_def)
    then obtain p where p: "p \<in> set due" "h_queued s1 t = ?task p" unfolding tasks by auto
    then obtain x where "x \<in> set (h_wait_list s)" "snd x = p" using sub by auto
    then obtain w where "h_waiting s p = Some w" "worker_provider (w_id w) s = Some PROVIDER_X64"
      using assms(5) by (auto simp: asleep_def)
    then show "\<exists>q. h_queued s1 t = Some q \<and> worker_provider (k_id q) s1 = Some PROVIDER_X64"
      using p(2) s1(7) by (simp add: task_of_def worker_provider_def split: if_splits)
  qed
  have "queued_tasks s1 \<noteq> {#}" using tasks some by simp
  then have busy: "sched_tasks (h_sched s1) \<noteq> {#}" by (auto simp: queued_tasks_def)
  obtain t q sd' s2 where t: "SheduleWorker False program s1 = x64ExecuteWorker program t s2"
    "sched_tasks (h_sched s1) = add_mset t (sched_tasks sd')" "h_queued s1 t = Some q"
    "s2 = s1\<lparr>h_sched := sd', h_thread := Some (td\<lparr>td_running_id := k_id q, td_running_depth := k_depth q\<rparr>),
       h_clock_pos := h_clock_pos s1 + 1\<rparr>"
    by (rule round_runs_task [OF s1(6,8) assms(3) busy ready]) (rule that; assumption)
  have "h_queued s1 t \<in># queued_tasks s1" using t(2) by (simp add: queued_tasks_def)
  then obtain p where p: "p \<in> set due" "h_queued s1 t = ?task p" unfolding tasks by auto
  have "queued_tasks s1 = add_mset (h_queued s1 t) (queued_tasks s2)" using t(2,4) by (simp add: queued_tasks_def)
  then have "add_mset (?task p) (queued_tasks s2) = image_mset ?task (mset due)" unfolding tasks p(2) by (rule sym)
  also have "\<dots> = add_mset (?task p) (image_mset ?task (mset due - {#p#}))"
    using arg_cong [OF insert_DiffM [of p "mset due"], of "image_mset ?task"] p(1)
    by (simp only: image_mset_add_mset set_mset_mset simp_thms)
  finally have "queued_tasks s2 = image_mset ?task (mset due - {#p#})" by (simp only: add_mset_add_mset_same_iff)
  moreover have "h_queued s2 t = ?task p" using p(2) t(4) by simp
  moreover have "rest = [] \<or> length due = 16384" using s1(3) unfolding due_def .
  ultimately show ?thesis using s1(1,2,4) t(1) p(1) due_def by blast
qed

section \<open>Properties\<close>

text \<open>
  C27. A round of a scheduler thread: when it is told to exit it does nothing; otherwise, when there are tasks,
  all of x64 workers, it takes exactly one task out of the queues, notes in its own data which worker runs, at
  which depth, and runs that task, whatever the program does; when there is none, it looks through the wait
  list instead.
\<close>

theorem thread_round:
  assumes "sched_ok n (h_sched s)" "h_thread s = Some td" "td_number td < n"
    "\<forall>t \<in># sched_tasks (h_sched s). \<exists>q. h_queued s t = Some q \<and> worker_provider (k_id q) s = Some PROVIDER_X64"
  shows "SheduleWorker True program s = Some s \<and> (\<exists>sd. sched_ok n sd \<and>
    (if sched_tasks (h_sched s) = {#}
     then sched_tasks sd = {#} \<and> SheduleWorker False program s = UpdateWaitingWorkers False [] [] (s\<lparr>h_sched := sd\<rparr>)
     else \<exists>t q. sched_tasks (h_sched s) = add_mset t (sched_tasks sd) \<and> h_queued s t = Some q \<and>
       SheduleWorker False program s = x64ExecuteWorker program t (s\<lparr>h_sched := sd,
         h_thread := Some (td\<lparr>td_running_id := k_id q, td_running_depth := k_depth q\<rparr>),
         h_clock_pos := h_clock_pos s + 1\<rparr>)))"
proof (cases "sched_tasks (h_sched s) = {#}")
  case True
  show ?thesis using idle_round [OF assms(1-3) True, of program] True by (simp add: SheduleWorker_def [of True]) metis
next
  case False
  show ?thesis using round_runs_task [OF assms(1-3) False assms(4), of program] False by (simp add: SheduleWorker_def [of True]) metis
qed

definition sample_idle :: hive where
  "sample_idle = sample_program\<lparr>h_thread := Some \<lparr>td_number = 0, td_running_id = 9, td_running_depth = 9\<rparr>\<rparr>"

theorem thread_round_witness:
  "\<exists>sd. sched_tasks sd = {#} \<and>
     SheduleWorker False (\<lambda>q s. None) sample_idle = UpdateWaitingWorkers False [] [] (sample_idle\<lparr>h_sched := sd\<rparr>)"
proof -
  have "sched_ok 1 (h_sched sample_idle)" "sched_tasks (h_sched sample_idle) = {#}"
    "h_thread sample_idle = Some \<lparr>td_number = 0, td_running_id = 9, td_running_depth = 9\<rparr>"
    using sched_ok_init [of 1] by (simp_all add: sample_idle_def sample_program_def init_hive_def sched_tasks_init)
  then show ?thesis using thread_round [of 1 sample_idle _ "\<lambda>q s. None"] by auto
qed

text \<open>
  C11. Sleepers run again: when the queues are empty, have room for the workers of the wait list, as the heap has, and
  x64 workers sleep in the wait list, each once, the time of at least one of which has come, the first round of a scheduler thread
  sweeps the wait list, all of it unless
  16384 workers of the swept part are due; it wakes the swept workers whose time has come and keeps all others
  in the list. The second round runs one that was woken, at its return address and with its frame, whatever
  the program does; the tasks of the other woken workers stay in the queues. No round is told to exit.
\<close>

theorem sleeper_runs_again:
  assumes "room_for_tasks n (length (h_wait_list s)) s" "h_thread s = Some td" "td_number td < n"
    "sched_tasks (h_sched s) = {#}"
    "\<forall>x \<in> set (h_wait_list s). asleep (wake (snd x)) (snd x) s" "distinct (map snd (h_wait_list s))"
    "ticks = h_clock s (h_clock_pos s)" "\<exists>x \<in> set (h_wait_list s). wake (snd x) \<le>s ticks"
  shows "\<exists>s1 s2 swept rest due p t. SheduleWorker False program s = Some s1 \<and>
    map snd (h_wait_list s) = swept @ rest \<and> due = filter (\<lambda>p. wake p \<le>s ticks) swept \<and>
    (rest = [] \<or> length due = 16384) \<and>
    map snd (h_wait_list s1) = rest @ rev (filter (\<lambda>p. \<not> wake p \<le>s ticks) swept) \<and>
    SheduleWorker False program s1 = x64ExecuteWorker program t s2 \<and>
    p \<in> set due \<and> h_queued s2 t = Some (task_of (the (h_waiting s p)) 0) \<and>
    queued_tasks s2 = {#Some (task_of (the (h_waiting s p)) 0). p \<in># mset due - {#p#}#}"
  using sleepers_then_run [OF assms] .

theorem sleeper_runs_again_witness:
  "\<exists>s1 s2 t. SheduleWorker False (\<lambda>q s. Some (s, False)) (sample_idle\<lparr>h_wait_list := [(0x300, 0x100), (0x310, 0x200)],
       h_waiting := [0x100 \<mapsto> sample_paused\<lparr>w_state := TimerWait 3\<rparr>, 0x200 \<mapsto> sample_paused\<lparr>w_state := TimerWait 9\<rparr>]\<rparr>) =
         Some s1 \<and>
     SheduleWorker False (\<lambda>q s. Some (s, False)) s1 = x64ExecuteWorker (\<lambda>q s. Some (s, False)) t s2 \<and>
     h_queued s2 t = Some (task_of (sample_paused\<lparr>w_state := TimerWait 3\<rparr>) 0) \<and> queued_tasks s2 = {#}"
proof -
  define s where "s = sample_idle\<lparr>h_wait_list := [(0x300, 0x100), (0x310, 0x200)],
       h_waiting := [0x100 \<mapsto> sample_paused\<lparr>w_state := TimerWait 3\<rparr>, 0x200 \<mapsto> sample_paused\<lparr>w_state := TimerWait 9\<rparr>]\<rparr>"
  have "room_for_task 1 sample_program" using room_for_task_init [of 1] by (simp add: sample_program_def)
  then have room: "room_for_tasks 1 2 s"
    by (auto simp: room_for_task_def room_for_tasks_def queued_pool_ok_def heap_ok_def s_def sample_idle_def
        sample_program_def init_hive_def sched_tasks_init RING_SIZE_def)
  let ?wake = "\<lambda>p :: i64. if p = 0x100 then 3 else (9 :: i64)"
  have list: "h_wait_list s = [(0x300, 0x100), (0x310, 0x200)]" by (simp add: s_def)
  have clock: "7 = h_clock s (h_clock_pos s)" and idle: "sched_tasks (h_sched s) = {#}"
    and td: "h_thread s = Some \<lparr>td_number = 0, td_running_id = 9, td_running_depth = 9\<rparr>"
    by (simp_all add: s_def sample_idle_def sample_program_def init_hive_def sched_tasks_init)
  have asleep: "\<forall>x \<in> set (h_wait_list s). asleep (?wake (snd x)) (snd x) s" unfolding list
    by (simp add: asleep_def s_def sample_idle_def sample_paused_def zero_waiting_def worker_provider_def sample_program_def
        init_hive_def)
  have room': "room_for_tasks 1 (length (h_wait_list s)) s" unfolding list using room by (simp add: numeral_2_eq_2)
  have zero: "td_number \<lparr>td_number = 0, td_running_id = 9, td_running_depth = 9\<rparr> < 1"
    and dist: "distinct (map snd (h_wait_list s))" and some: "\<exists>x \<in> set (h_wait_list s). ?wake (snd x) \<le>s 7"
    by (simp_all add: list word_sle_eq)
  have at: "the (h_waiting s 0x100) = sample_paused\<lparr>w_state := TimerWait 3\<rparr>" by (simp add: s_def)
  obtain s1 s2 swept rest due p t where r: "SheduleWorker False (\<lambda>q s. Some (s, False)) s = Some s1"
     "map snd (h_wait_list s) = swept @ rest" "due = filter (\<lambda>p. ?wake p \<le>s 7) swept" "rest = [] \<or> length due = 16384"
     "SheduleWorker False (\<lambda>q s. Some (s, False)) s1 = x64ExecuteWorker (\<lambda>q s. Some (s, False)) t s2"
     "p \<in> set due" "h_queued s2 t = Some (task_of (the (h_waiting s p)) 0)"
     "queued_tasks s2 = {#Some (task_of (the (h_waiting s p)) 0). p \<in># mset due - {#p#}#}"
    using sleeper_runs_again [OF room' td zero idle asleep dist clock some] by blast
  have "length due \<le> length swept" unfolding r(3) by (rule length_filter_le)
  also have "\<dots> \<le> 2" using arg_cong [OF r(2), of length] by (simp add: list)
  finally have "swept = [0x100, 0x200]" using r(2,4) by (auto simp: list)
  then have due: "due = [0x100]" unfolding r(3) by (simp add: word_sle_eq)
  then have "p = 0x100" using r(6) by simp
  then show ?thesis using r(1,5,7,8) at due unfolding s_def [symmetric] by auto
qed

end
