(* ===== verification/Loader.thy ===== *)
theory Loader
  imports Hive
begin

text \<open>
  The executable file of a program: how the compiler writes it (\<^verbatim>\<open>src/main/export.cpp\<close> and the
  \<^verbatim>\<open>ExportToFile\<close> of the three code generators under \<^verbatim>\<open>src/codegen\<close>) and how the runtime
  reads it (\<^verbatim>\<open>LoadWorker\<close> of \<^verbatim>\<open>common/runtime.c\<close>).
\<close>

section \<open>What is loaded\<close>

text \<open>
  \<open>l_mem\<close> is the executable memory, mapped at \<open>l_base\<close>. The table of workers has 100 entries;
  the provider data of DLL and GPU workers are kept apart. The string table is a block of bytes with the
  offset and size of each string.
\<close>

record dll_input =
  di_provider :: i64
  di_size :: i64
  di_param :: i64
  di_type :: byte

record dll_worker =
  dw_entry :: i64
  dw_entry_name :: "byte list"
  dw_call_stack_usage :: i64
  dw_output_size :: i64
  dw_inputs :: "dll_input list"

record gpu_worker =
  gw_start :: i64
  gw_end :: i64
  gw_kernel :: i64
  gw_inputs :: "(i64 \<times> byte) list"

record program =
  l_base :: i64
  l_mem :: "byte list"
  l_workers :: "worker_info list"
  l_dll :: "nat \<Rightarrow> dll_worker option"
  l_gpu :: "nat \<Rightarrow> gpu_worker option"
  l_strings :: "byte list"
  l_arrays :: "(i64 \<times> i64) list"
  l_entry :: i64

datatype load_error = NotHive | WrongVersion | WrongEncoding | NoEndpoint | NoSymbol | NoKernel

text \<open>
  What is not under \<^verbatim>\<open>src\<close>: the addresses of the entry points in assembly, \<^verbatim>\<open>dlopen\<close> with
  \<^verbatim>\<open>dlsym\<close>, and the OpenCL compiler, which returns a kernel or an error.
\<close>

record environment =
  e_endpoint :: "byte \<Rightarrow> i64"
  e_symbol :: "byte list \<Rightarrow> byte list \<Rightarrow> i64"
  e_kernel :: "byte list \<Rightarrow> i64 option"

section \<open>Reading\<close>

text \<open>A read past the end of the file has no result.\<close>

definition get_i64 :: "byte list \<Rightarrow> (i64 \<times> byte list) option" where
  "get_i64 bs = (if 8 \<le> length bs then Some (le_word (take 8 bs), drop 8 bs) else None)"

definition get_byte :: "byte list \<Rightarrow> (byte \<times> byte list) option" where
  "get_byte bs = (case bs of [] \<Rightarrow> None | b # bs \<Rightarrow> Some (b, bs))"

definition get_bytes :: "nat \<Rightarrow> byte list \<Rightarrow> (byte list \<times> byte list) option" where
  "get_bytes n bs = (if n \<le> length bs then Some (take n bs, drop n bs) else None)"

text \<open>How often a loop \<^verbatim>\<open>for (int64_t i = 0; i < n; ++i)\<close> runs.\<close>

definition loop_count :: "i64 \<Rightarrow> nat" where
  "loop_count n = (if 0 \<le>s n then unat n else 0)"

type_synonym loading = "(load_error + program \<times> byte list) option"

text \<open>\<^verbatim>\<open>Workers[id] = ...\<close> in the array of 100 entries.\<close>

definition set_worker :: "i64 \<Rightarrow> worker_info \<Rightarrow> program \<Rightarrow> program option" where
  "set_worker wid w p =
     (if unat wid < length (l_workers p) then Some (p\<lparr>l_workers := (l_workers p)[unat wid := w]\<rparr>) else None)"

section \<open>The sections of the header\<close>

definition api_types :: "byte set" where "api_types = {0, 20, 1, 21, 2, 22, 42, 3, 23, 33, 8, 28, 9, 29, 10, 50}"
definition missing_types :: "byte set" where "missing_types = {20, 21, 28, 29}"

primrec load_calls :: "environment \<Rightarrow> byte \<Rightarrow> nat \<Rightarrow> program \<Rightarrow> byte list \<Rightarrow> loading" where
  "load_calls env t 0 p rest = Some (Inr (p, rest))"
| "load_calls env t (Suc n) p rest =
     do { (at, rest) \<leftarrow> get_i64 rest;
          if t \<in> missing_types then Some (Inl NoEndpoint)
          else do { mem \<leftarrow> wr_bytes (l_mem p) (unat at) (le_bytes 8 (e_endpoint env t));
                    load_calls env t n (p\<lparr>l_mem := mem\<rparr>) rest } }"

definition load_relocations :: "environment \<Rightarrow> byte \<Rightarrow> program \<Rightarrow> byte list \<Rightarrow> loading" where
  "load_relocations env t p rest =
     do { (n, rest) \<leftarrow> get_i64 rest;
          load_calls env t (loop_count n) p rest }"

text \<open>A name is copied to a buffer of 256 bytes, its end marked by a 0.\<close>

definition get_name :: "byte list \<Rightarrow> (byte list \<times> byte list) option" where
  "get_name rest =
     do { (sz, rest) \<leftarrow> get_i64 rest;
          if 255 < unat sz then None else get_bytes (unat sz) rest }"

primrec get_inputs :: "nat \<Rightarrow> byte list \<Rightarrow> (dll_input list \<times> byte list) option" where
  "get_inputs 0 rest = Some ([], rest)"
| "get_inputs (Suc n) rest =
     do { (t, rest) \<leftarrow> get_byte rest;
          (provider, rest) \<leftarrow> get_i64 rest;
          (sz, rest) \<leftarrow> get_i64 rest;
          (param, rest) \<leftarrow> get_i64 rest;
          (inputs, rest) \<leftarrow> get_inputs n rest;
          Some (\<lparr>di_provider = provider, di_size = sz, di_param = param, di_type = t\<rparr> # inputs, rest) }"

text \<open>The stack that a call needs: arguments go to six registers while they fit.\<close>

definition up8 :: "i64 \<Rightarrow> i64" where "up8 sz = word_of_int (sint (sz + 7) sdiv 8)"

primrec stack_usage :: "dll_input list \<Rightarrow> i64 \<Rightarrow> i64 \<Rightarrow> i64" where
  "stack_usage [] regs usage = word_of_int (sint (usage + 15) sdiv 16) * 16"
| "stack_usage (i # is) regs usage =
     (if 16 <s di_size i then stack_usage is 0 (usage + up8 (di_size i) * 8)
      else if di_size i \<le>s 8 * regs then stack_usage is (regs - up8 (di_size i)) usage
      else stack_usage is regs (usage + up8 (di_size i) * 8))"

definition c_string :: "byte list \<Rightarrow> byte list" where "c_string = takeWhile (\<lambda>b. b \<noteq> 0)"

definition load_dll :: "environment \<Rightarrow> program \<Rightarrow> byte list \<Rightarrow> loading" where
  "load_dll env p rest =
     do { (wid, rest) \<leftarrow> get_i64 rest;
          (lib_name, rest) \<leftarrow> get_name rest;
          (ent, rest) \<leftarrow> get_name rest;
          (affinity, rest) \<leftarrow> get_i64 rest;
          (output_size, rest) \<leftarrow> get_i64 rest;
          (inputs_len, rest) \<leftarrow> get_i64 rest;
          (inputs, rest) \<leftarrow> get_inputs (loop_count inputs_len) rest;
          let totalSize = 8 + sum_list (map di_size inputs);
          let symbol = e_symbol env (c_string lib_name) (c_string ent);
          let data = \<lparr>dw_entry = symbol, dw_entry_name = ent, dw_call_stack_usage = stack_usage inputs 6 0,
                dw_output_size = output_size, dw_inputs = inputs\<rparr>;
          p \<leftarrow> set_worker wid \<lparr>wi_provider = PROVIDER_DLL, wi_input_size = totalSize, wi_affinity = affinity,
                 wi_start = 0, wi_end = 0, wi_next_buffer = 0\<rparr> p;
          if symbol = 0 then Some (Inl NoSymbol)
          else Some (Inr (p\<lparr>l_dll := (l_dll p)(unat wid \<mapsto> data)\<rparr>, rest)) }"

primrec load_positions :: "nat \<Rightarrow> program \<Rightarrow> byte list \<Rightarrow> loading" where
  "load_positions 0 p rest = Some (Inr (p, rest))"
| "load_positions (Suc n) p rest =
     do { (wid, rest) \<leftarrow> get_i64 rest;
          (offset, rest) \<leftarrow> get_i64 rest;
          (sz, rest) \<leftarrow> get_i64 rest;
          (tableSize, rest) \<leftarrow> get_i64 rest;
          (affinity, rest) \<leftarrow> get_i64 rest;
          let ptr = l_base p + offset;
          p \<leftarrow> set_worker wid \<lparr>wi_provider = PROVIDER_X64, wi_input_size = tableSize, wi_affinity = affinity,
                 wi_start = ptr, wi_end = ptr + sz, wi_next_buffer = 0\<rparr> p;
          load_positions n p rest }"

definition load_x64_workers :: "program \<Rightarrow> byte list \<Rightarrow> loading" where
  "load_x64_workers p rest =
     do { (n, rest) \<leftarrow> get_i64 rest;
          load_positions (loop_count n) p rest }"

primrec get_table :: "nat \<Rightarrow> byte list \<Rightarrow> ((i64 \<times> i64) list \<times> byte list) option" where
  "get_table 0 rest = Some ([], rest)"
| "get_table (Suc n) rest =
     do { (offset, rest) \<leftarrow> get_i64 rest;
          (sz, rest) \<leftarrow> get_i64 rest;
          (tbl, rest) \<leftarrow> get_table n rest;
          Some ((offset, sz) # tbl, rest) }"

definition load_strings :: "program \<Rightarrow> byte list \<Rightarrow> loading" where
  "load_strings p rest =
     do { (sz, rest) \<leftarrow> get_i64 rest;
          (encoding, rest) \<leftarrow> get_byte rest;
          if encoding \<noteq> 0 then Some (Inl WrongEncoding)
          else if sz <s 0 then None
          else do { (rawsize, rest) \<leftarrow> get_i64 rest;
                    (tbl, rest) \<leftarrow> get_table (loop_count sz) rest;
                    (data, rest) \<leftarrow> get_bytes (unat rawsize) rest;
                    Some (Inr (p\<lparr>l_strings := data, l_arrays := tbl\<rparr>, rest)) } }"

primrec get_map :: "nat \<Rightarrow> byte list \<Rightarrow> ((i64 \<times> byte) list \<times> byte list) option" where
  "get_map 0 rest = Some ([], rest)"
| "get_map (Suc n) rest =
     do { (sz, rest) \<leftarrow> get_i64 rest;
          (t, rest) \<leftarrow> get_byte rest;
          (m, rest) \<leftarrow> get_map n rest;
          Some ((sz, t) # m, rest) }"

text \<open>The byte after the source of a kernel is overwritten for a moment; memory is mapped in pages.\<close>

definition kernel_source :: "i64 \<Rightarrow> i64 \<Rightarrow> byte list \<Rightarrow> byte list option" where
  "kernel_source start e mem =
     (if start \<le> e \<and> unat e \<le> length mem \<and> unat e < 4096 * ((length mem + 4095) div 4096)
      then Some (take (unat (e - start)) (drop (unat start) mem)) else None)"

primrec load_kernels :: "environment \<Rightarrow> nat \<Rightarrow> program \<Rightarrow> byte list \<Rightarrow> loading" where
  "load_kernels env 0 p rest = Some (Inr (p, rest))"
| "load_kernels env (Suc n) p rest =
     do { (wid, rest) \<leftarrow> get_i64 rest;
          (start, rest) \<leftarrow> get_i64 rest;
          (e, rest) \<leftarrow> get_i64 rest;
          (tableSize, rest) \<leftarrow> get_i64 rest;
          (inputMapLength, rest) \<leftarrow> get_i64 rest;
          (inputs, rest) \<leftarrow> get_map (loop_count inputMapLength) rest;
          src \<leftarrow> kernel_source start e (l_mem p);
          (case e_kernel env src of
             None \<Rightarrow> Some (Inl NoKernel)
           | Some krnl \<Rightarrow>
               do { p \<leftarrow> set_worker wid \<lparr>wi_provider = PROVIDER_GPU, wi_input_size = tableSize, wi_affinity = -1,
                      wi_start = 0, wi_end = 0, wi_next_buffer = 0\<rparr> p;
                    let data = \<lparr>gw_start = l_base p + start, gw_end = l_base p + e, gw_kernel = krnl,
                      gw_inputs = inputs\<rparr>;
                    load_kernels env n (p\<lparr>l_gpu := (l_gpu p)(unat wid \<mapsto> data)\<rparr>) rest }) }"

definition load_gpu_workers :: "environment \<Rightarrow> program \<Rightarrow> byte list \<Rightarrow> loading" where
  "load_gpu_workers env p rest =
     do { (n, rest) \<leftarrow> get_i64 rest;
          load_kernels env (loop_count n) p rest }"

definition load_entry :: "program \<Rightarrow> byte list \<Rightarrow> loading" where
  "load_entry p rest =
     do { (entryId, rest) \<leftarrow> get_i64 rest;
          Some (Inr (p\<lparr>l_entry := entryId\<rparr>, rest)) }"

text \<open>A section of unknown type is skipped, its first byte only.\<close>

definition load_section :: "environment \<Rightarrow> byte \<Rightarrow> program \<Rightarrow> byte list \<Rightarrow> loading" where
  "load_section env t p rest =
     (if t \<in> api_types then load_relocations env t p rest
      else if t = 4 then load_dll env p rest
      else if t = 16 then load_x64_workers p rest
      else if t = 17 then load_strings p rest
      else if t = 18 then load_gpu_workers env p rest
      else if t = 80 then load_entry p rest
      else Some (Inr (p, rest)))"

lemma get_i64_shorter: "get_i64 bs = Some (v, rest) \<Longrightarrow> length rest \<le> length bs"
  by (auto simp: get_i64_def split: if_splits)

lemma get_byte_shorter: "get_byte bs = Some (v, rest) \<Longrightarrow> length rest < length bs"
  by (auto simp: get_byte_def split: list.splits)

lemma get_bytes_shorter: "get_bytes n bs = Some (v, rest) \<Longrightarrow> length rest \<le> length bs"
  by (auto simp: get_bytes_def split: if_splits)

lemma get_name_shorter: "get_name bs = Some (v, rest) \<Longrightarrow> length rest \<le> length bs"
  by (auto simp: get_name_def Option.bind_eq_Some_conv split: if_splits
      dest!: get_i64_shorter get_bytes_shorter)

lemma get_inputs_shorter: "get_inputs n bs = Some (v, rest) \<Longrightarrow> length rest \<le> length bs"
  by (induction n arbitrary: bs v)
    (fastforce simp: Option.bind_eq_Some_conv dest!: get_i64_shorter get_byte_shorter)+

lemma get_table_shorter: "get_table n bs = Some (v, rest) \<Longrightarrow> length rest \<le> length bs"
  by (induction n arbitrary: bs v) (fastforce simp: Option.bind_eq_Some_conv dest!: get_i64_shorter)+

lemma get_map_shorter: "get_map n bs = Some (v, rest) \<Longrightarrow> length rest \<le> length bs"
  by (induction n arbitrary: bs v)
    (fastforce simp: Option.bind_eq_Some_conv dest!: get_i64_shorter get_byte_shorter)+

lemmas shorter = get_i64_shorter get_byte_shorter get_bytes_shorter get_name_shorter get_inputs_shorter
  get_table_shorter get_map_shorter

lemma load_calls_shorter: "load_calls env t n p bs = Some (Inr (p', rest)) \<Longrightarrow> length rest \<le> length bs"
  by (induction n arbitrary: p bs)
    (fastforce simp: Option.bind_eq_Some_conv split: if_splits dest!: get_i64_shorter)+

lemma load_positions_shorter: "load_positions n p bs = Some (Inr (p', rest)) \<Longrightarrow> length rest \<le> length bs"
proof (induction n arbitrary: p bs)
  case (Suc n)
  then show ?case
    by (auto simp: Option.bind_eq_Some_conv Let_def dest!: get_i64_shorter Suc.IH)
qed simp

lemma load_kernels_shorter: "load_kernels env n p bs = Some (Inr (p', rest)) \<Longrightarrow> length rest \<le> length bs"
proof (induction n arbitrary: p bs)
  case (Suc n)
  then show ?case
    by (auto simp: Option.bind_eq_Some_conv Let_def split: option.splits dest!: get_i64_shorter get_map_shorter Suc.IH)
qed simp

lemma load_section_shorter: "load_section env t p bs = Some (Inr (p', rest)) \<Longrightarrow> length rest \<le> length bs"
  unfolding load_section_def load_relocations_def load_dll_def load_x64_workers_def load_strings_def
    load_gpu_workers_def load_entry_def Let_def
  by (auto simp: Option.bind_eq_Some_conv split: if_splits
      dest!: shorter load_calls_shorter load_positions_shorter load_kernels_shorter)

section \<open>The loader\<close>

text \<open>\<open>rest\<close> is the file from the position of the loop; the last \<open>code\<close> bytes are the code.\<close>

function load_header :: "environment \<Rightarrow> nat \<Rightarrow> program \<Rightarrow> byte list \<Rightarrow> (load_error + program) option" where
  "load_header env code p rest =
     (if length rest \<le> code then Some (Inr p)
      else case rest of
        [] \<Rightarrow> Some (Inr p)
      | t # rest \<Rightarrow>
          (case load_section env t p rest of
             None \<Rightarrow> None
           | Some (Inl e) \<Rightarrow> Some (Inl e)
           | Some (Inr (p, rest)) \<Rightarrow> load_header env code p rest))"
  by pat_completeness auto
termination
  by (relation "measure (\<lambda>(_, _, _, rest). length rest)") (auto dest: load_section_shorter)

declare load_header.simps [simp del]

definition no_worker :: worker_info where
  "no_worker = \<lparr>wi_provider = 0, wi_input_size = 0, wi_affinity = 0, wi_start = 0, wi_end = 0, wi_next_buffer = 0\<rparr>"

definition LoadWorker :: "environment \<Rightarrow> i64 \<Rightarrow> byte list \<Rightarrow> (load_error + program) option" where
  "LoadWorker env base file =
     do { prefix \<leftarrow> rd_bytes file 0 4;
          if prefix \<noteq> [72, 73, 86, 69] then Some (Inl NotHive)
          else do {
            version \<leftarrow> rd_i64 file 4;
            if version div 1000 \<noteq> 0 then Some (Inl WrongVersion)
            else do {
              codePosition \<leftarrow> rd_i64 file 12;
              if length file < unat codePosition then None
              else
                let mem = drop (unat codePosition) file;
                    p = \<lparr>l_base = base, l_mem = mem, l_workers = replicate 100 no_worker, l_dll = Map.empty,
                      l_gpu = Map.empty, l_strings = [], l_arrays = [], l_entry = 0\<rparr>
                in load_header env (length mem) p (drop 20 file) } } }"

definition defined_array :: "program \<Rightarrow> nat \<Rightarrow> byte list option" where
  "defined_array p i =
     (if i < length (l_arrays p)
      then rd_bytes (l_strings p) (unat (fst (l_arrays p ! i))) (unat (snd (l_arrays p ! i))) else None)"

end
