(* ===== verification/Exporter.thy ===== *)
theory Exporter
  imports Loader
begin

text \<open>
  How the compiler writes the executable file (\<^verbatim>\<open>src/main/export.cpp\<close>, and \<^verbatim>\<open>ExportToFile\<close>
  of the code generators for x64, GPU and DLL workers), and that the loader of the runtime reads back what
  the compiler meant.
\<close>

section \<open>The exporter\<close>

text \<open>
  The result of a code generator: the calls into the runtime, by type of the header and position in the
  code; the workers, under the ids they are exported with; the strings; and the code.
\<close>

record x64_worker =
  xw_id :: i64
  xw_pos :: i64
  xw_size :: i64
  xw_table :: i64
  xw_affinity :: i64

record x64_code =
  xc_calls :: "(byte \<times> i64 list) list"
  xc_workers :: "x64_worker list"
  xc_strings :: "byte list list"
  xc_code :: "byte list"

record dll_import =
  im_id :: i64
  im_library :: "byte list"
  im_entry :: "byte list"
  im_affinity :: i64
  im_output :: i64
  im_inputs :: "dll_input list"

record gpu_kernel =
  gk_id :: i64
  gk_start :: i64
  gk_end :: i64
  gk_table :: i64
  gk_vars :: "(i64 \<times> byte) list"

datatype provider_code =
    X64 x64_code
  | GPU "gpu_kernel list" "byte list"
  | DLL "dll_import list"

definition put_count :: "'a list \<Rightarrow> byte list" where "put_count xs = le_bytes 8 (of_nat (length xs))"

definition export_calls :: "i64 \<Rightarrow> (byte \<times> i64 list) list \<Rightarrow> byte list" where
  "export_calls bodyOffset calls =
     concat (map (\<lambda>(t, ps). t # put_count ps @ concat (map (\<lambda>at. le_bytes 8 (at + bodyOffset)) ps)) calls)"

definition export_worker :: "i64 \<Rightarrow> x64_worker \<Rightarrow> byte list" where
  "export_worker bodyOffset w =
     le_bytes 8 (xw_id w) @ le_bytes 8 (xw_pos w + bodyOffset) @ le_bytes 8 (xw_size w) @
     le_bytes 8 (xw_table w) @ le_bytes 8 (xw_affinity w)"

text \<open>
  Strings are padded to a multiple of eight bytes; the padding is whatever \<^verbatim>\<open>malloc\<close> left in the buffer.
\<close>

definition padding :: "nat \<Rightarrow> nat" where "padding n = (8 - n mod 8) mod 8"

primrec total_size :: "nat \<Rightarrow> byte list list \<Rightarrow> nat" where
  "total_size k [] = k"
| "total_size k (s # ss) = total_size (k + length s + padding (k + length s)) ss"

primrec export_table :: "nat \<Rightarrow> byte list list \<Rightarrow> byte list" where
  "export_table k [] = []"
| "export_table k (s # ss) =
     le_bytes 8 (of_nat k) @ put_count s @ export_table (k + length s + padding (k + length s)) ss"

primrec raw_strings :: "(nat \<Rightarrow> byte) \<Rightarrow> nat \<Rightarrow> byte list list \<Rightarrow> byte list" where
  "raw_strings junk k [] = []"
| "raw_strings junk k (s # ss) =
     s @ map junk [k + length s ..< k + length s + padding (k + length s)] @
     raw_strings junk (k + length s + padding (k + length s)) ss"

definition export_strings :: "(nat \<Rightarrow> byte) \<Rightarrow> byte list list \<Rightarrow> byte list" where
  "export_strings junk ss =
     17 # put_count ss @ 0 # le_bytes 8 (of_nat (total_size 0 ss)) @ export_table 0 ss @ raw_strings junk 0 ss"

definition export_x64 :: "(nat \<Rightarrow> byte) \<Rightarrow> i64 \<Rightarrow> x64_code \<Rightarrow> byte list \<times> byte list" where
  "export_x64 junk bodyOffset c =
     (export_calls bodyOffset (xc_calls c) @
      16 # put_count (xc_workers c) @ concat (map (export_worker bodyOffset) (xc_workers c)) @
      export_strings junk (xc_strings c),
      xc_code c)"

definition export_gpu :: "i64 \<Rightarrow> gpu_kernel list \<Rightarrow> byte list \<Rightarrow> byte list \<times> byte list" where
  "export_gpu bodyOffset ks code =
     (18 # put_count ks @
      concat (map (\<lambda>k. le_bytes 8 (gk_id k) @ le_bytes 8 (gk_start k + bodyOffset) @
        le_bytes 8 (gk_end k + bodyOffset) @ le_bytes 8 (gk_table k) @ put_count (gk_vars k) @
        concat (map (\<lambda>(elsize, access). le_bytes 8 elsize @ [access]) (gk_vars k))) ks),
      code)"

definition export_input :: "dll_input \<Rightarrow> byte list" where
  "export_input i = di_type i # le_bytes 8 (di_provider i) @ le_bytes 8 (di_size i) @ le_bytes 8 (di_param i)"

definition export_import :: "dll_import \<Rightarrow> byte list" where
  "export_import d =
     4 # le_bytes 8 (im_id d) @ put_count (im_library d) @ im_library d @ put_count (im_entry d) @ im_entry d @
     le_bytes 8 (im_affinity d) @ le_bytes 8 (im_output d) @ put_count (im_inputs d) @
     concat (map export_input (im_inputs d))"

definition export_provider :: "(nat \<Rightarrow> byte) \<Rightarrow> i64 \<Rightarrow> provider_code \<Rightarrow> byte list \<times> byte list" where
  "export_provider junk bodyOffset c =
     (case c of
        X64 x \<Rightarrow> export_x64 junk bodyOffset x
      | GPU ks code \<Rightarrow> export_gpu bodyOffset ks code
      | DLL ds \<Rightarrow> (concat (map export_import ds), []))"

primrec export_providers :: "(nat \<Rightarrow> byte) \<Rightarrow> nat \<Rightarrow> provider_code list \<Rightarrow> byte list \<times> byte list" where
  "export_providers junk off [] = ([], [])"
| "export_providers junk off (c # cs) =
     (let (h, b) = export_provider junk (of_nat off) c;
          (hs, bs) = export_providers junk (off + length b) cs
      in (h @ hs, b @ bs))"

text \<open>Without an entry worker only the type of the entry section is written.\<close>

definition WriteEntryHeader :: "i64 option \<Rightarrow> byte list" where
  "WriteEntryHeader ent = 80 # (case ent of None \<Rightarrow> [] | Some i \<Rightarrow> le_bytes 8 i)"

text \<open>Header and body have buffers of 1 MiB; what does not fit is written past their end.\<close>

definition BUFFER_SIZE :: nat where "BUFFER_SIZE = 1024 * 1024"

definition ExportCode :: "(nat \<Rightarrow> byte) \<Rightarrow> i64 option \<Rightarrow> provider_code list \<Rightarrow> byte list option" where
  "ExportCode junk ent providers =
     (let (h, body) = export_providers junk 0 providers;
          sections = WriteEntryHeader ent @ h;
          hlen = 4 + 8 + 8 + length sections
      in if hlen \<le> BUFFER_SIZE \<and> length body \<le> BUFFER_SIZE
         then Some ([72, 73, 86, 69] @ le_bytes 8 3 @ le_bytes 8 (of_nat hlen) @ sections @ body)
         else None)"

section \<open>One section after the other\<close>

lemma get_i64_put [simp]: "get_i64 (le_bytes 8 w @ rest) = Some (w, rest)"
  by (simp add: get_i64_def le_word_le_bytes del: le_bytes_numeral)

lemma loop_count_of_nat: "n < 2 ^ 63 \<Longrightarrow> loop_count (of_nat n) = n"
  by (simp add: loop_count_def small_of_nat)

lemma load_header_section:
  assumes "load_section env t p (body @ rest) = Some (Inr (p', rest))" "code \<le> length rest"
  shows "load_header env code p (t # body @ rest) = load_header env code p' rest"
  using assms by (subst load_header.simps) simp

definition overwrite :: "byte list \<Rightarrow> nat \<Rightarrow> byte list \<Rightarrow> byte list" where
  "overwrite m k bs = take k m @ bs @ drop (k + length bs) m"

definition patch :: "environment \<Rightarrow> (byte \<times> i64) list \<Rightarrow> byte list \<Rightarrow> byte list" where
  "patch env = fold (\<lambda>(t, at) m. overwrite m (unat at) (le_bytes 8 (e_endpoint env t)))"

lemma length_overwrite: "k + length bs \<le> length m \<Longrightarrow> length (overwrite m k bs) = length m"
  by (simp add: overwrite_def)

lemma load_calls_patch:
  assumes "t \<notin> missing_types" "\<forall>at \<in> set ps. unat (at + off) + 8 \<le> length (l_mem p)"
  shows "load_calls env t (length ps) p (concat (map (\<lambda>at. le_bytes 8 (at + off)) ps) @ rest) =
    Some (Inr (p\<lparr>l_mem := patch env (map (\<lambda>at. (t, at + off)) ps) (l_mem p)\<rparr>, rest))"
  using assms(2)
proof (induction ps arbitrary: p)
  case Nil
  then show ?case by (simp add: patch_def)
next
  case (Cons a ps)
  let ?m = "overwrite (l_mem p) (unat (a + off)) (le_bytes 8 (e_endpoint env t))"
  have "wr_bytes (l_mem p) (unat (a + off)) (le_bytes 8 (e_endpoint env t)) = Some ?m" "length ?m = length (l_mem p)"
    using Cons.prems by (simp_all add: wr_bytes_def overwrite_def del: le_bytes_numeral)
  then show ?case using Cons.IH [of "p\<lparr>l_mem := ?m\<rparr>"] Cons.prems assms(1)
    by (simp add: patch_def del: le_bytes_numeral)
qed

lemma length_patch:
  "\<forall>(t, a) \<in> set sites. unat a + 8 \<le> length m \<Longrightarrow> length (patch env sites m) = length m"
proof (induction sites arbitrary: m)
  case (Cons x sites)
  obtain t a where "x = (t, a)" by fastforce
  then show ?case using Cons by (simp add: patch_def length_overwrite del: le_bytes_numeral)
qed (simp add: patch_def)

definition call_sites :: "i64 \<Rightarrow> (byte \<times> i64 list) list \<Rightarrow> (byte \<times> i64) list" where
  "call_sites off calls = concat (map (\<lambda>(t, ps). map (\<lambda>at. (t, at + off)) ps) calls)"

lemma load_export_calls:
  assumes "\<forall>(t, ps) \<in> set calls. t \<in> api_types - missing_types \<and> length ps < 2 ^ 63"
    "\<forall>(t, a) \<in> set (call_sites off calls). unat a + 8 \<le> length (l_mem p)" "code \<le> length rest"
  shows "load_header env code p (export_calls off calls @ rest) =
    load_header env code (p\<lparr>l_mem := patch env (call_sites off calls) (l_mem p)\<rparr>) rest"
  using assms(1,2)
proof (induction calls arbitrary: p)
  case Nil
  then show ?case by (simp add: export_calls_def call_sites_def patch_def)
next
  case (Cons c calls)
  obtain t ps where c: "c = (t, ps)" by fastforce
  let ?tail = "export_calls off calls @ rest" and ?sites = "map (\<lambda>at. (t, at + off)) ps"
  let ?p = "p\<lparr>l_mem := patch env ?sites (l_mem p)\<rparr>"
  have sites: "call_sites off (c # calls) = ?sites @ call_sites off calls" by (simp add: call_sites_def c)
  have t: "t \<in> api_types" "t \<notin> missing_types" "length ps < 2 ^ 63" using Cons.prems(1) c by auto
  have b: "\<forall>at \<in> set ps. unat (at + off) + 8 \<le> length (l_mem p)" using Cons.prems(2) sites by auto
  have "load_section env t p (put_count ps @ concat (map (\<lambda>at. le_bytes 8 (at + off)) ps) @ ?tail) =
      Some (Inr (?p, ?tail))"
    using t load_calls_patch [OF t(2) b, of env ?tail] unfolding load_section_def load_relocations_def put_count_def
    by (simp add: loop_count_of_nat del: le_bytes_numeral)
  then have "load_header env code p (export_calls off (c # calls) @ rest) = load_header env code ?p ?tail"
    using load_header_section [of env t p "put_count ps @ concat (map (\<lambda>at. le_bytes 8 (at + off)) ps)" ?tail ?p code] assms(3)
    by (simp add: export_calls_def c)
  moreover have "length (l_mem ?p) = length (l_mem p)" using b by (simp add: length_patch)
  ultimately show ?case using Cons.IH [of ?p] Cons.prems sites by (simp add: patch_def)
qed

text \<open>Workers.\<close>

definition loaded_worker :: "i64 \<Rightarrow> x64_worker \<Rightarrow> worker_info" where
  "loaded_worker at w = \<lparr>wi_provider = PROVIDER_X64, wi_input_size = xw_table w, wi_affinity = xw_affinity w,
     wi_start = at + xw_pos w, wi_end = at + xw_pos w + xw_size w, wi_next_buffer = 0\<rparr>"

definition install_workers :: "i64 \<Rightarrow> x64_worker list \<Rightarrow> worker_info list \<Rightarrow> worker_info list" where
  "install_workers at = fold (\<lambda>w ws. ws[unat (xw_id w) := loaded_worker at w])"

lemma load_positions_install:
  assumes "\<forall>w \<in> set ws. unat (xw_id w) < length (l_workers p)"
  shows "load_positions (length ws) p (concat (map (export_worker off) ws) @ rest) =
    Some (Inr (p\<lparr>l_workers := install_workers (l_base p + off) ws (l_workers p)\<rparr>, rest))"
  using assms
proof (induction ws arbitrary: p)
  case Nil
  then show ?case by (simp add: install_workers_def)
next
  case (Cons w ws)
  let ?p = "p\<lparr>l_workers := (l_workers p)[unat (xw_id w) := loaded_worker (l_base p + off) w]\<rparr>"
  have "l_base p + (xw_pos w + off) = l_base p + off + xw_pos w" by simp
  then show ?case using Cons.IH [of ?p] Cons.prems
    by (simp add: export_worker_def set_worker_def loaded_worker_def install_workers_def Let_def ac_simps
        del: le_bytes_numeral)
qed

lemma install_workers_nth:
  assumes "distinct (map xw_id ws)" "w \<in> set ws" "unat (xw_id w) < length xs"
  shows "install_workers at ws xs ! unat (xw_id w) = loaded_worker at w"
  using assms
proof (induction ws arbitrary: xs rule: rev_induct)
  case (snoc v ws)
  have len: "length (install_workers at ws xs) = length xs"
    unfolding install_workers_def by (induction ws arbitrary: xs) auto
  show ?case
  proof (cases "w = v")
    case True
    then show ?thesis using snoc.prems len by (simp add: install_workers_def)
  next
    case False
    then have "w \<in> set ws" "xw_id v \<noteq> xw_id w" using snoc.prems by (auto simp: image_iff)
    then have "unat (xw_id v) \<noteq> unat (xw_id w)" by (simp add: word_unat_eq_iff)
    then show ?thesis using \<open>w \<in> set ws\<close> snoc by (simp add: install_workers_def)
  qed
qed simp

text \<open>Strings.\<close>

primrec string_table :: "nat \<Rightarrow> byte list list \<Rightarrow> (i64 \<times> i64) list" where
  "string_table k [] = []"
| "string_table k (s # ss) =
     (of_nat k, of_nat (length s)) # string_table (k + length s + padding (k + length s)) ss"

lemma length_string_table [simp]: "length (string_table k ss) = length ss"
  by (induction ss arbitrary: k) auto

lemma get_table_export: "get_table (length ss) (export_table k ss @ rest) = Some (string_table k ss, rest)"
  by (induction ss arbitrary: k) (simp_all add: put_count_def del: le_bytes_numeral)

lemma total_size_mono: "k \<le> total_size k ss"
proof (induction ss arbitrary: k)
  case (Cons s ss)
  have "k \<le> k + length s + padding (k + length s)" by simp
  then show ?case unfolding total_size.simps using Cons.IH by (rule order.trans)
qed simp

lemma length_raw_strings: "length (raw_strings junk k ss) = total_size k ss - k"
proof (induction ss arbitrary: k)
  case (Cons s ss)
  then show ?case using total_size_mono [of "k + length s + padding (k + length s)" ss] by simp
qed simp

lemma raw_string_at:
  assumes "i < length ss" "total_size k ss < 2 ^ 63"
  shows "k \<le> unat (fst (string_table k ss ! i)) \<and>
    rd_bytes (raw_strings junk k ss) (unat (fst (string_table k ss ! i)) - k) (unat (snd (string_table k ss ! i))) =
      Some (ss ! i)"
  using assms
proof (induction ss arbitrary: k i)
  case (Cons s ss)
  let ?k = "k + length s + padding (k + length s)"
  let ?pad = "map junk [k + length s ..< ?k]"
  have b: "k < 2 ^ 63" "length s < 2 ^ 63"
    using Cons.prems(2) total_size_mono [of ?k ss] by auto
  show ?case
  proof (cases i)
    case 0
    have "unat (of_nat k :: i64) = k" "unat (of_nat (length s) :: i64) = length s"
      using b by (simp_all add: unsigned_of_nat take_bit_nat_eq_self)
    then show ?thesis using 0 by (simp add: rd_bytes_def)
  next
    case (Suc j)
    then have j: "j < length ss" "total_size ?k ss < 2 ^ 63" using Cons.prems by auto
    let ?o = "unat (fst (string_table ?k ss ! j))" and ?n = "unat (snd (string_table ?k ss ! j))"
    have IH: "?k \<le> ?o" "rd_bytes (raw_strings junk ?k ss) (?o - ?k) ?n = Some (ss ! j)"
      using Cons.IH [OF j] by auto
    have "?o - k = length (s @ ?pad) + (?o - ?k)" using IH(1) by simp
    then have "rd_bytes ((s @ ?pad) @ raw_strings junk ?k ss) (?o - k) ?n = Some (ss ! j)"
      using IH(2) by (simp only: rd_bytes_append_right)
    then show ?thesis using Suc IH(1) by simp
  qed
qed simp

lemma load_export_strings:
  assumes "length ss < 2 ^ 63" "total_size 0 ss < 2 ^ 63" "code \<le> length rest"
  shows "load_header env code p (export_strings junk ss @ rest) =
    load_header env code (p\<lparr>l_strings := raw_strings junk 0 ss, l_arrays := string_table 0 ss\<rparr>) rest"
proof -
  let ?body = "put_count ss @ 0 # le_bytes 8 (of_nat (total_size 0 ss)) @ export_table 0 ss @ raw_strings junk 0 ss"
  have u: "unat (of_nat (total_size 0 ss) :: i64) = total_size 0 ss"
    using assms(2) by (simp add: unsigned_of_nat take_bit_nat_eq_self)
  have pos: "\<not> of_nat (length ss) <s (0 :: i64)" using assms(1) by (simp add: word_sless_alt small_of_nat)
  have "get_bytes (total_size 0 ss) (raw_strings junk 0 ss @ rest) = Some (raw_strings junk 0 ss, rest)"
    by (simp add: get_bytes_def length_raw_strings)
  then have "load_section env 17 p (?body @ rest) =
      Some (Inr (p\<lparr>l_strings := raw_strings junk 0 ss, l_arrays := string_table 0 ss\<rparr>, rest))"
    using assms(1) u pos
    by (simp add: load_section_def load_strings_def put_count_def get_byte_def loop_count_of_nat get_table_export
        api_types_def del: le_bytes_numeral)
  then show ?thesis using load_header_section [OF _ assms(3), of env 17 p ?body] by (simp add: export_strings_def)
qed

lemma load_export_workers:
  assumes "\<forall>w \<in> set ws. unat (xw_id w) < length (l_workers p)" "length ws < 2 ^ 63" "code \<le> length rest"
  shows "load_header env code p (16 # put_count ws @ concat (map (export_worker off) ws) @ rest) =
    load_header env code (p\<lparr>l_workers := install_workers (l_base p + off) ws (l_workers p)\<rparr>) rest"
proof -
  let ?body = "put_count ws @ concat (map (export_worker off) ws)"
  have "load_section env 16 p (?body @ rest) =
      Some (Inr (p\<lparr>l_workers := install_workers (l_base p + off) ws (l_workers p)\<rparr>, rest))"
    using load_positions_install [OF assms(1), of off rest] assms(2)
    by (simp add: load_section_def load_x64_workers_def put_count_def loop_count_of_nat api_types_def
        del: le_bytes_numeral)
  then show ?thesis using load_header_section [OF _ assms(3), of env 16 p ?body] by simp
qed

text \<open>The calls are patched where the compiler left them, and nothing else is.\<close>

definition apart :: "i64 list \<Rightarrow> bool" where
  "apart as \<longleftrightarrow> distinct as \<and>
     (\<forall>a \<in> set as. \<forall>b \<in> set as. a = b \<or> unat a + 8 \<le> unat b \<or> unat b + 8 \<le> unat a)"

lemma patch_nth:
  assumes "\<forall>(t, a) \<in> set sites. unat a + 8 \<le> length m" "i < length m"
    "\<forall>(t, a) \<in> set sites. i < unat a \<or> unat a + 8 \<le> i"
  shows "patch env sites m ! i = m ! i"
  using assms
proof (induction sites arbitrary: m)
  case (Cons x sites)
  obtain t a where x: "x = (t, a)" by fastforce
  let ?m = "overwrite m (unat a) (le_bytes 8 (e_endpoint env t))"
  have b: "unat a + 8 \<le> length m" "i < unat a \<or> unat a + 8 \<le> i" using Cons.prems x by auto
  then have "length ?m = length m" by (simp add: length_overwrite del: le_bytes_numeral)
  then have "patch env sites ?m ! i = ?m ! i" using Cons.IH [of ?m] Cons.prems by simp
  moreover have "?m ! i = m ! i"
    using b Cons.prems(2) by (auto simp: overwrite_def nth_append min_def simp del: le_bytes_numeral)
  ultimately show ?case by (simp add: patch_def x)
qed (simp add: patch_def)

lemma patch_site:
  assumes "\<forall>(t, a) \<in> set sites. unat a + 8 \<le> length m" "apart (map snd sites)" "(t, a) \<in> set sites"
  shows "rd_i64 (patch env sites m) (unat a) = Some (e_endpoint env t)"
  using assms
proof (induction sites arbitrary: m)
  case (Cons x sites)
  obtain t' a' where x: "x = (t', a')" by fastforce
  let ?m = "overwrite m (unat a') (le_bytes 8 (e_endpoint env t'))"
  have len: "length ?m = length m" using Cons.prems(1) x by (simp add: length_overwrite del: le_bytes_numeral)
  have p: "patch env (x # sites) m = patch env sites ?m" by (simp add: patch_def x)
  have b: "\<forall>(t, a) \<in> set sites. unat a + 8 \<le> length ?m" using Cons.prems(1) len by auto
  show ?case
  proof (cases "(t, a) \<in> set sites")
    case True
    then show ?thesis unfolding p using Cons.IH [OF b _ True] Cons.prems(2) by (auto simp: apart_def)
  next
    case False
    then have ta: "t = t'" "a = a'" using Cons.prems(3) x by auto
    have d: "\<forall>(t, b) \<in> set sites. unat a + 8 \<le> unat b \<or> unat b + 8 \<le> unat a"
      using Cons.prems(2) x ta by (fastforce simp: apart_def)
    have a8: "unat a + 8 \<le> length ?m" using Cons.prems(1) x ta len by auto
    have "rd_bytes (patch env sites ?m) (unat a) 8 = rd_bytes ?m (unat a) 8"
    proof (rule rd_bytes_eqI)
      show "length (patch env sites ?m) = length ?m" using b by (rule length_patch)
      show "patch env sites ?m ! i = ?m ! i" if "unat a \<le> i" "i < unat a + 8" "i < length ?m" for i
        using patch_nth [OF b that(3)] d that(1,2) by fastforce
    qed
    also have "\<dots> = Some (le_bytes 8 (e_endpoint env t))"
      using a8 len ta by (simp add: rd_bytes_def overwrite_def del: le_bytes_numeral)
    finally show ?thesis unfolding p rd_i64_def by (simp add: le_word_le_bytes del: le_bytes_numeral)
  qed
qed simp

section \<open>Sizes\<close>

lemma length_put_count [simp]: "length (put_count xs) = 8"
  by (simp add: put_count_def)

lemma length_export_table: "length (export_table k ss) = 16 * length ss"
  by (induction ss arbitrary: k) (simp_all del: le_bytes_numeral)

lemma length_export_strings: "length (export_strings junk ss) = 18 + 16 * length ss + total_size 0 ss"
  by (simp add: export_strings_def length_export_table length_raw_strings del: le_bytes_numeral)

lemma length_export_workers: "length (concat (map (export_worker off) ws)) = 40 * length ws"
  by (induction ws) (simp_all add: export_worker_def del: le_bytes_numeral)

lemma length_export_calls: "(t, ps) \<in> set calls \<Longrightarrow> length ps \<le> length (export_calls off calls)"
proof (induction calls)
  case (Cons c calls)
  have "length (concat (map (\<lambda>at. le_bytes 8 (at + off)) xs)) = 8 * length xs" for xs
    by (induction xs) (simp_all del: le_bytes_numeral)
  then show ?case using Cons by (auto simp: export_calls_def split: prod.splits simp del: le_bytes_numeral)
qed simp

section \<open>Properties\<close>

lemma drop_front: "drop (length xs) (xs @ ys @ zs) = ys @ zs" "drop (length xs + length ys) (xs @ ys @ zs) = zs"
  by simp_all

lemma load_x64_program:
  assumes "ExportCode junk (Some ent) [X64 c] = Some file"
    "\<forall>(t, ps) \<in> set (xc_calls c). t \<in> api_types - missing_types"
    "\<forall>(t, a) \<in> set (call_sites 0 (xc_calls c)). unat a + 8 \<le> length (xc_code c)"
    "\<forall>w \<in> set (xc_workers c). unat (xw_id w) < 100"
  shows "LoadWorker env base file = Some (Inr \<lparr>l_base = base, l_mem = patch env (call_sites 0 (xc_calls c)) (xc_code c),
    l_workers = install_workers base (xc_workers c) (replicate 100 no_worker), l_dll = Map.empty, l_gpu = Map.empty,
    l_strings = raw_strings junk 0 (xc_strings c), l_arrays = string_table 0 (xc_strings c), l_entry = ent\<rparr>)"
proof -
  let ?calls = "export_calls 0 (xc_calls c)" and ?ws = "concat (map (export_worker 0) (xc_workers c))"
    and ?ss = "export_strings junk (xc_strings c)"
  let ?wsec = "16 # put_count (xc_workers c) @ ?ws"
  let ?sections = "80 # le_bytes 8 ent @ ?calls @ ?wsec @ ?ss"
  have feq: "file = [72, 73, 86, 69] @ le_bytes 8 3 @ le_bytes 8 (of_nat (20 + length ?sections)) @ ?sections @ xc_code c"
    and fit: "20 + length ?sections \<le> 1024 * 1024"
    using assms(1)
    by (auto simp: ExportCode_def export_provider_def export_x64_def WriteEntryHeader_def Let_def BUFFER_SIZE_def
        split: if_splits simp del: le_bytes_numeral)
  have u: "unat (of_nat (20 + length ?sections) :: i64) = 20 + length ?sections"
    using fit by (simp add: unsigned_of_nat take_bit_nat_eq_self del: of_nat_add le_bytes_numeral)
  have small: "length (xc_workers c) < 2 ^ 63" "length (xc_strings c) < 2 ^ 63" "total_size 0 (xc_strings c) < 2 ^ 63"
    "length ?calls < 2 ^ 63"
    using fit by (simp_all add: length_export_strings length_export_workers del: le_bytes_numeral)
  define hdr where "hdr = [72, 73, 86, 69] @ le_bytes 8 3 @ le_bytes 8 (of_nat (20 + length ?sections))"
  have hl: "length hdr = 20" by (simp add: hdr_def del: le_bytes_numeral)
  have feq2: "file = hdr @ ?sections @ xc_code c" by (simp add: feq hdr_def)
  have start: "rd_bytes file 0 4 = Some [72, 73, 86, 69]" "rd_i64 file 4 = Some 3"
    "rd_i64 file 12 = Some (of_nat (20 + length ?sections))"
    unfolding feq rd_i64_def rd_bytes_def by (simp_all add: le_word_le_bytes del: of_nat_add le_bytes_numeral)
  have drops: "drop 20 file = ?sections @ xc_code c" "drop (20 + length ?sections) file = xc_code c"
    "length file = 20 + length ?sections + length (xc_code c)"
    using drop_front [of hdr ?sections "xc_code c"] hl unfolding feq2 by (simp_all only: length_append)
  let ?p0 = "\<lparr>l_base = base, l_mem = xc_code c, l_workers = replicate 100 no_worker, l_dll = Map.empty,
      l_gpu = Map.empty, l_strings = [], l_arrays = [], l_entry = 0\<rparr>"
  let ?code = "length (xc_code c)" and ?mem = "patch env (call_sites 0 (xc_calls c)) (xc_code c)"
    and ?workers = "install_workers base (xc_workers c) (replicate 100 no_worker)"
  have "LoadWorker env base file = load_header env ?code ?p0 (?sections @ xc_code c)"
    unfolding LoadWorker_def start drops Option.bind.bind_lunit u Let_def by simp
  also have "\<dots> = load_header env ?code (?p0\<lparr>l_entry := ent\<rparr>) (?calls @ ?wsec @ ?ss @ xc_code c)"
    using load_header_section [of env 80 ?p0 "le_bytes 8 ent" "?calls @ ?wsec @ ?ss @ xc_code c" "?p0\<lparr>l_entry := ent\<rparr>" ?code]
    by (simp add: load_section_def load_entry_def api_types_def del: le_bytes_numeral)
  also have "\<dots> = load_header env ?code (?p0\<lparr>l_entry := ent, l_mem := ?mem\<rparr>) (?wsec @ ?ss @ xc_code c)"
    using load_export_calls [of "xc_calls c" 0 "?p0\<lparr>l_entry := ent\<rparr>" ?code "?wsec @ ?ss @ xc_code c" env] assms(2,3) small(4)
      length_export_calls by (fastforce intro: le_less_trans)
  also have "\<dots> = load_header env ?code (?p0\<lparr>l_entry := ent, l_mem := ?mem, l_workers := ?workers\<rparr>) (?ss @ xc_code c)"
    using load_export_workers [of "xc_workers c" "?p0\<lparr>l_entry := ent, l_mem := ?mem\<rparr>" ?code "?ss @ xc_code c" env 0]
      assms(4) small(1) by simp
  also have "\<dots> = load_header env ?code (?p0\<lparr>l_entry := ent, l_mem := ?mem, l_workers := ?workers,
      l_strings := raw_strings junk 0 (xc_strings c), l_arrays := string_table 0 (xc_strings c)\<rparr>) (xc_code c)"
    using load_export_strings [OF small(2,3), of ?code "xc_code c" env] by simp
  finally show ?thesis by (simp add: load_header.simps [of env ?code _ "xc_code c"])
qed

text \<open>
  C12. The runtime loads what the compiler exported, for a program of x64 workers: the entry worker and every
  worker, at its place in the mapped memory and with its input size and affinity; every string, whatever the
  padding is; and the code, in which exactly the calls into the runtime have been replaced by the addresses of
  the entry points.
\<close>

theorem exported_program_loads:
  assumes "ExportCode junk (Some ent) [X64 c] = Some file"
    "\<forall>(t, ps) \<in> set (xc_calls c). t \<in> api_types - missing_types"
    "\<forall>(t, a) \<in> set (call_sites 0 (xc_calls c)). unat a + 8 \<le> length (xc_code c)"
    "apart (map snd (call_sites 0 (xc_calls c)))"
    "\<forall>w \<in> set (xc_workers c). unat (xw_id w) < 100" "distinct (map xw_id (xc_workers c))"
  shows "\<exists>p. LoadWorker env base file = Some (Inr p) \<and> l_entry p = ent \<and>
    (\<forall>w \<in> set (xc_workers c). l_workers p ! unat (xw_id w) = loaded_worker base w) \<and>
    (\<forall>i < length (xc_strings c). defined_array p i = Some (xc_strings c ! i)) \<and>
    length (l_mem p) = length (xc_code c) \<and>
    (\<forall>(t, a) \<in> set (call_sites 0 (xc_calls c)). rd_i64 (l_mem p) (unat a) = Some (e_endpoint env t)) \<and>
    (\<forall>i < length (xc_code c). (\<forall>(t, a) \<in> set (call_sites 0 (xc_calls c)). i < unat a \<or> unat a + 8 \<le> i) \<longrightarrow>
       l_mem p ! i = xc_code c ! i)"
proof (rule exI, intro conjI)
  show "LoadWorker env base file = Some (Inr \<lparr>l_base = base, l_mem = patch env (call_sites 0 (xc_calls c)) (xc_code c),
    l_workers = install_workers base (xc_workers c) (replicate 100 no_worker), l_dll = Map.empty, l_gpu = Map.empty,
    l_strings = raw_strings junk 0 (xc_strings c), l_arrays = string_table 0 (xc_strings c), l_entry = ent\<rparr>)"
    using assms(1-3,5) by (rule load_x64_program)
  have "total_size 0 (xc_strings c) < 2 ^ 63"
    using assms(1) by (auto simp: ExportCode_def export_provider_def export_x64_def BUFFER_SIZE_def Let_def
        length_export_strings split: if_splits simp del: le_bytes_numeral)
  then show "\<forall>i < length (xc_strings c). defined_array \<lparr>l_base = base, l_mem = patch env (call_sites 0 (xc_calls c)) (xc_code c),
    l_workers = install_workers base (xc_workers c) (replicate 100 no_worker), l_dll = Map.empty, l_gpu = Map.empty,
    l_strings = raw_strings junk 0 (xc_strings c), l_arrays = string_table 0 (xc_strings c), l_entry = ent\<rparr> i =
      Some (xc_strings c ! i)"
    using raw_string_at [of _ "xc_strings c" 0 junk] by (simp add: defined_array_def)
qed (use assms(3-6) install_workers_nth patch_site patch_nth [OF assms(3)] length_patch [OF assms(3)] in auto)

definition sample_code :: x64_code where
  "sample_code = \<lparr>xc_calls = [(1, [4]), (50, [13])],
     xc_workers = [\<lparr>xw_id = 3, xw_pos = 2, xw_size = 19, xw_table = 16, xw_affinity = -1\<rparr>],
     xc_strings = [[104, 105], []], xc_code = replicate 21 0x90\<rparr>"

lemma sample_exported:
  obtains bin where "ExportCode (\<lambda>_. 7) (Some 3) [X64 sample_code] = Some bin"
proof -
  have "export_x64 (\<lambda>_. 7) 0 sample_code = (fst (export_x64 (\<lambda>_. 7) 0 sample_code), xc_code sample_code)"
    by (simp add: export_x64_def)
  moreover have "length (fst (export_x64 (\<lambda>_. 7) 0 sample_code)) < 1000"
    by (simp add: export_x64_def sample_code_def export_calls_def length_export_strings padding_def export_worker_def
        del: le_bytes_numeral)
  ultimately show ?thesis using that
    by (cases "export_x64 (\<lambda>_. 7) 0 sample_code")
      (simp add: ExportCode_def export_provider_def WriteEntryHeader_def BUFFER_SIZE_def sample_code_def del: le_bytes_numeral)
qed

lemma sample_code_ok:
  "\<forall>(t, ps) \<in> set (xc_calls sample_code). t \<in> api_types - missing_types"
  "\<forall>(t, a) \<in> set (call_sites 0 (xc_calls sample_code)). unat a + 8 \<le> length (xc_code sample_code)"
  "apart (map snd (call_sites 0 (xc_calls sample_code)))"
  "\<forall>w \<in> set (xc_workers sample_code). unat (xw_id w) < 100" "distinct (map xw_id (xc_workers sample_code))"
  by (simp_all add: sample_code_def call_sites_def apart_def api_types_def missing_types_def)

theorem exported_program_loads_witness:
  "\<exists>bin p. ExportCode (\<lambda>_. 7) (Some 3) [X64 sample_code] = Some bin \<and>
     LoadWorker \<lparr>e_endpoint = (\<lambda>t. 0x1000 + ucast t), e_symbol = (\<lambda>_ _. 0), e_kernel = (\<lambda>_. None)\<rparr> 0x7000 bin =
       Some (Inr p) \<and>
     l_entry p = 3 \<and> wi_start (l_workers p ! 3) = 0x7002 \<and> defined_array p 0 = Some [104, 105] \<and>
     rd_i64 (l_mem p) 4 = Some 0x1001 \<and> l_mem p ! 3 = 0x90"
proof -
  let ?env = "\<lparr>e_endpoint = (\<lambda>t. 0x1000 + ucast t), e_symbol = (\<lambda>_ _. 0), e_kernel = (\<lambda>_. None)\<rparr>"
  have fields: "xc_calls sample_code = [(1, [4]), (50, [13])]" "xc_strings sample_code = [[104, 105], []]"
    "xc_code sample_code = replicate 21 0x90"
    "xc_workers sample_code = [\<lparr>xw_id = 3, xw_pos = 2, xw_size = 19, xw_table = 16, xw_affinity = -1\<rparr>]"
    by (simp_all add: sample_code_def)
  have sites: "call_sites 0 (xc_calls sample_code) = [(1, 4), (50, 13)]" by (simp add: call_sites_def fields)
  obtain bin where f: "ExportCode (\<lambda>_. 7) (Some 3) [X64 sample_code] = Some bin" by (rule sample_exported)
  obtain p where p: "LoadWorker ?env 0x7000 bin = Some (Inr p)" "l_entry p = 3"
    "\<forall>w \<in> set (xc_workers sample_code). l_workers p ! unat (xw_id w) = loaded_worker 0x7000 w"
    "\<forall>i < length (xc_strings sample_code). defined_array p i = Some (xc_strings sample_code ! i)"
    "\<forall>(t, a) \<in> set (call_sites 0 (xc_calls sample_code)). rd_i64 (l_mem p) (unat a) = Some (e_endpoint ?env t)"
    "\<forall>i < length (xc_code sample_code).
       (\<forall>(t, a) \<in> set (call_sites 0 (xc_calls sample_code)). i < unat a \<or> unat a + 8 \<le> i) \<longrightarrow>
       l_mem p ! i = xc_code sample_code ! i"
    using exported_program_loads [OF f sample_code_ok, of ?env "0x7000"] by blast
  have "wi_start (l_workers p ! 3) = 0x7002" using p(3) unfolding fields by (simp add: loaded_worker_def)
  moreover have "defined_array p 0 = Some [104, 105]" using p(4) unfolding fields by auto
  moreover have "rd_i64 (l_mem p) 4 = Some 0x1001" using p(5) unfolding sites by simp
  moreover have "l_mem p ! 3 = 0x90" using p(6) [unfolded sites] by (simp add: fields)
  ultimately show ?thesis using f p(1,2) by blast
qed

end
