(* ===== verification/Program.thy ===== *)
theory Program
  imports Threads Exporter
begin

text \<open>
  From the file to the first task: the options of the command line and the order in which \<^verbatim>\<open>main\<close>
  (\<^verbatim>\<open>common/runtime.c\<close>) loads the executable, sets up the hive and starts the entry worker.
\<close>

section \<open>Options\<close>

record options =
  o_threads :: i64
  o_chunk_time :: i64
  o_protectorate :: bool
  o_local_input :: bool
  o_hang :: bool
  o_no_stdin :: bool
  o_stats :: bool

definition default_options :: options where
  "default_options = \<lparr>o_threads = 1, o_chunk_time = 50000, o_protectorate = False, o_local_input = False,
     o_hang = False, o_no_stdin = False, o_stats = True\<rparr>"

text \<open>A number is read without a look at its characters; they are signed.\<close>

definition option_number :: "byte list \<Rightarrow> i64" where
  "option_number = foldl (\<lambda>x c. x * 10 + (scast c - 48)) 0"

text \<open>
  \<open>None\<close>: the runtime stops with an error. The arguments from \<^verbatim>\<open>--\<close> on are left to the program.
\<close>

fun parse_options :: "byte list list \<Rightarrow> options \<Rightarrow> (options \<times> byte list list) option" where
  "parse_options [] opts = Some (opts, [])"
| "parse_options (a # args) opts =
     (case a of
        [] \<Rightarrow> None
      | c # cs \<Rightarrow>
          if c = 110 then parse_options args (opts\<lparr>o_no_stdin := True\<rparr>)
          else if c = 104 then parse_options args (opts\<lparr>o_hang := True\<rparr>)
          else if c = 108 then parse_options args (opts\<lparr>o_local_input := True\<rparr>)
          else if c = 113 then parse_options args (opts\<lparr>o_stats := False\<rparr>)
          else if c = 106 then
            (if 64 <s option_number cs then None
             else parse_options args (opts\<lparr>o_threads := option_number cs\<rparr>))
          else if c = 99 then parse_options args (opts\<lparr>o_protectorate := True\<rparr>)
          else if c = 112 then parse_options args (opts\<lparr>o_chunk_time := option_number cs\<rparr>)
          else if c = 45 \<and> take 1 cs = [45] then Some (opts, a # args)
          else None)"

section \<open>Setting up\<close>

text \<open>
  The strings of the program are the defined arrays of the hive; a string that leaves the table has none.
\<close>

definition program_arrays :: "program \<Rightarrow> byte list list option" where
  "program_arrays p = those (map (defined_array p) [0..<length (l_arrays p)])"

definition boot ::
  "environment \<Rightarrow> i64 \<Rightarrow> byte list \<Rightarrow> byte list list \<Rightarrow> (nat \<Rightarrow> byte) \<Rightarrow> (nat \<Rightarrow> i64) \<Rightarrow> (nat \<Rightarrow> i64) \<Rightarrow>
   (nat \<Rightarrow> i64) \<Rightarrow> (hive \<times> program \<times> options) option" where
  "boot env base file args random clock dials junk =
     (case LoadWorker env base file of
        Some (Inr p) \<Rightarrow>
          do { (opts, _) \<leftarrow> parse_options args default_options;
               arrays \<leftarrow> program_arrays p;
               if 0 <s o_threads opts
               then Some (init_hive (unat (o_threads opts)) (l_workers p) arrays random clock dials junk, p, opts)
               else None }
      | _ \<Rightarrow> None)"

text \<open>
  \<^verbatim>\<open>main\<close> starts the entry worker unless the hive is a protectorate, which has no result to wait for. \<open>input\<close>
  are the numbers of the standard input, which the option \<^verbatim>\<open>n\<close> replaces by a single 0.
\<close>

definition start_program ::
  "options \<Rightarrow> i64 \<Rightarrow> i64 list \<Rightarrow> (hive \<Rightarrow> hive) list \<Rightarrow> hive \<Rightarrow> (hive \<times> i64) option" where
  "start_program opts entryWorker input others s =
     (if o_protectorate opts then Some (s, 0)
      else StartInitialProcess entryWorker (if o_no_stdin opts then [0] else input) (o_local_input opts) others s)"

section \<open>New objects for the entry worker\<close>

lemma new_block_ok:
  assumes "room_for_task n s" "unat (h_brk s) + L + 8192 < 2 ^ 63" "b \<le> L"
  obtains brk where "myMalloc L s = Some (s\<lparr>h_brk := brk\<rparr>, h_brk s)"
    "room_for_task n (s\<lparr>h_brk := brk, h_objects := (h_objects s)(h_brk s + of_nat b \<mapsto> ob)\<rparr>)"
    "h_brk s \<le> brk" "unat brk \<le> unat (h_brk s) + L + 16"
    "h_brk s + of_nat b < brk" "h_brk s \<le> h_brk s + of_nat b"
proof -
  define room where "room = 16 * (L div 16 + 1)"
  have r: "L < room" "room \<le> L + 16" "16 dvd room" by (simp_all add: room_def)
  define brk where "brk = h_brk s + of_nat room"
  have u: "unat brk = unat (h_brk s) + room"
    using assms(2) r(2) by (simp add: brk_def unat_word_ariths unsigned_of_nat take_bit_nat_eq_self)
  have pt: "unat (h_brk s + of_nat b) = unat (h_brk s) + b"
    using assms(2,3) by (simp add: unat_word_ariths unsigned_of_nat take_bit_nat_eq_self)
  have m: "myMalloc L s = Some (s\<lparr>h_brk := brk\<rparr>, h_brk s)"
    using assms(2) r(2) by (simp add: myMalloc_def Let_def room_def brk_def)
  have lt: "h_brk s + of_nat b < brk" "h_brk s \<le> brk" "h_brk s \<le> h_brk s + of_nat b"
    using pt u r(1) assms(3) by (simp_all add: word_less_nat_alt word_le_nat_alt)
  have "16 dvd unat (h_brk s)" using assms(1) by (simp add: room_for_task_def queued_pool_ok_def heap_ok_def)
  then have "16 dvd unat brk" using u r(3) by simp
  then have "room_for_task n (s\<lparr>h_brk := brk, h_objects := (h_objects s)(h_brk s + of_nat b \<mapsto> ob)\<rparr>)"
    using lt assms(1,2) u r(2) by (auto simp: room_for_task_def queued_pool_ok_def heap_ok_def dest: order.trans less_le_trans)
  then show ?thesis using that [OF m] lt u r(2) by simp
qed

lemma x64NewObject_ok:
  assumes "GetNewObjectId s = (s1, Some i)" "i \<noteq> 0" "h_local_objects s i = 0"
    "new_object_block (h_defined_arrays s) PROVIDER_X64 type sz param = Some (Some ob)"
    "ob_base ob \<le> length (ob_block ob)" "room_for_task n s" "unat (h_brk s) + length (ob_block ob) + 8192 < 2 ^ 63"
  obtains s2 where "x64NewObject type sz param 0 0 s = Some (s2, Returned i)"
    "room_for_task n s2" "h_local_objects s2 = (h_local_objects s)(i := h_brk s + of_nat (ob_base ob))"
    "h_objects s2 = (h_objects s)(h_brk s + of_nat (ob_base ob) \<mapsto> ob)" "h_pages s2 = h_pages s1"
    "h_brk s \<le> h_brk s2" "unat (h_brk s2) \<le> unat (h_brk s) + length (ob_block ob) + 16"
    "h_brk s + of_nat (ob_base ob) < h_brk s2" "h_brk s + of_nat (ob_base ob) \<ge> h_brk s"
    "h_sched s2 = h_sched s" "h_workers s2 = h_workers s"
proof -
  have s1: "s1 = s\<lparr>h_pages := h_pages s1\<rparr>" using assms(1) by (auto simp: GetNewObjectId_def split: prod.splits)
  have eq: "h_brk s1 = h_brk s" "h_defined_arrays s1 = h_defined_arrays s" "h_local_objects s1 = h_local_objects s"
    "h_objects s1 = h_objects s" "h_sched s1 = h_sched s" "h_workers s1 = h_workers s"
    by (subst s1, simp)+
  have "room_for_task n s1" using assms(6)
    by (subst s1) (simp add: room_for_task_def queued_pool_ok_def heap_ok_def)
  from new_block_ok [OF this _ assms(5), of ob] obtain brk where
    b: "myMalloc (length (ob_block ob)) s1 = Some (s1\<lparr>h_brk := brk\<rparr>, h_brk s1)"
    "room_for_task n (s1\<lparr>h_brk := brk, h_objects := (h_objects s1)(h_brk s1 + of_nat (ob_base ob) \<mapsto> ob)\<rparr>)"
    "h_brk s1 \<le> brk" "unat brk \<le> unat (h_brk s1) + length (ob_block ob) + 16"
    "h_brk s1 + of_nat (ob_base ob) < brk" "h_brk s1 \<le> h_brk s1 + of_nat (ob_base ob)"
    using assms(7) eq(1) by auto
  let ?pt = "h_brk s + of_nat (ob_base ob)"
  define s2 where "s2 = s1\<lparr>h_brk := brk, h_objects := (h_objects s)(?pt \<mapsto> ob),
      h_local_objects := (h_local_objects s)(i := ?pt)\<rparr>"
  have "x64NewObject type sz param 0 0 s = Some (s2, Returned i)"
    using assms(1-4) b(1) eq
    by (simp add: x64NewObject_def x64NewObjectUsingPage_def RegisterObjectWithId_def tbl_insert_def s2_def Let_def)
  moreover have "room_for_task n s2"
    using b(2) eq by (simp add: s2_def room_for_task_def queued_pool_ok_def heap_ok_def)
  ultimately show ?thesis using that [of s2] b(3-6) eq by (simp add: s2_def)
qed

lemma locNewObjectUsingPage_ok:
  assumes "new_object_block (h_defined_arrays s) PROVIDER_LOC type sz param = Some (Some ob)"
    "ob_base ob \<le> length (ob_block ob)" "room_for_task n s" "unat (h_brk s) + length (ob_block ob) + 8192 < 2 ^ 63"
  obtains s2 where "locNewObjectUsingPage type sz param remote_id s = Some (s2, h_brk s + of_nat (ob_base ob))"
    "room_for_task n s2" "h_local_objects s2 = h_local_objects s"
    "h_objects s2 = (h_objects s)(h_brk s + of_nat (ob_base ob) \<mapsto> ob)" "h_pages s2 = h_pages s"
    "h_brk s \<le> h_brk s2" "unat (h_brk s2) \<le> unat (h_brk s) + length (ob_block ob) + 16"
    "h_brk s + of_nat (ob_base ob) < h_brk s2" "h_sched s2 = h_sched s" "h_workers s2 = h_workers s"
proof -
  obtain brk where b: "myMalloc (length (ob_block ob)) s = Some (s\<lparr>h_brk := brk\<rparr>, h_brk s)"
    "room_for_task n (s\<lparr>h_brk := brk, h_objects := (h_objects s)(h_brk s + of_nat (ob_base ob) \<mapsto> ob)\<rparr>)"
    "h_brk s \<le> brk" "unat brk \<le> unat (h_brk s) + length (ob_block ob) + 16" "h_brk s + of_nat (ob_base ob) < brk"
    using new_block_ok [OF assms(3,4,2), of ob] by metis
  show ?thesis
    by (rule that [of "s\<lparr>h_brk := brk, h_objects := (h_objects s)(h_brk s + of_nat (ob_base ob) \<mapsto> ob)\<rparr>"])
      (use assms(1) b in \<open>simp_all add: locNewObjectUsingPage_def Let_def\<close>)
qed

definition pages_named :: "memory_page list \<Rightarrow> bool" where
  "pages_named ps \<longleftrightarrow> (\<forall>p \<in> set ps. take_bit 40 (pg_id p) \<noteq> 0)"

text \<open>A page that is not page 0 gives ids that are not 0.\<close>

lemma fresh_id:
  assumes "pages_ok (h_pages s)" "0 < ids_left (h_pages s)" "pages_named (h_pages s)"
  obtains s1 i where "GetNewObjectId s = (s1, Some i)" "i \<noteq> 0" "pages_ok (h_pages s1)"
    "ids_left (h_pages s) = Suc (ids_left (h_pages s1))" "pages_named (h_pages s1)"
    "i \<notin> issued (h_pages s)" "issued (h_pages s1) = insert i (issued (h_pages s))"
proof -
  obtain ps r where t: "take_id (h_pages s) = (ps, r)" by fastforce
  note ok = take_id_ok [OF assms(1) t]
  obtain i where r: "r = Some i" using ok assms(2) by (cases r) auto
  obtain q u where q: "q \<in> set (h_pages s)" "u < OBJECTS_PER_PAGE" "i = push_bit 24 (pg_id q) OR word_of_nat u"
    using ok r by auto
  have "drop_bit 24 i = take_bit 40 (pg_id q)" using id_parts(2) q(2,3) by (simp add: OBJECTS_PER_PAGE_def)
  then have "i \<noteq> 0" using assms(3) q(1) by (auto simp: pages_named_def)
  moreover have "pages_named ps" unfolding pages_named_def
  proof
    fix p assume "p \<in> set ps"
    then have "pg_id p \<in> set (map pg_id ps)" by simp
    then have "pg_id p \<in> set (map pg_id (h_pages s))" using ok by simp
    then obtain p' where "p' \<in> set (h_pages s)" "pg_id p' = pg_id p" by auto
    then show "take_bit 40 (pg_id p) \<noteq> 0" using assms(3) by (auto simp: pages_named_def)
  qed
  ultimately show ?thesis using that [of "s\<lparr>h_pages := ps\<rparr>" i] ok t r by (simp add: GetNewObjectId_def)
qed

lemma length_args: "length (concat (map (le_bytes 8) xs)) = 8 * length xs"
  by (induction xs) (simp_all del: le_bytes_numeral)

lemma room_object_update:
  "room_for_task n s \<Longrightarrow> h_objects s a \<noteq> None \<Longrightarrow> room_for_task n (s\<lparr>h_objects := (h_objects s)(a \<mapsto> ob)\<rparr>)"
  by (auto simp: room_for_task_def queued_pool_ok_def heap_ok_def)

text \<open>Where the input object is: a local one is named by its address.\<close>

definition input_at :: "bool \<Rightarrow> i64 \<Rightarrow> hive \<Rightarrow> i64" where
  "input_at localInput inputId s = (if localInput then inputId else tbl_get (h_local_objects s) inputId)"

lemma input_object_ok:
  assumes "room_for_task n s" "pages_ok (h_pages s)" "2 \<le> ids_left (h_pages s)" "pages_named (h_pages s)"
    "h_local_objects s = (\<lambda>_. 0)" "unat (h_brk s) + 8 * length cmdArgs + 32768 < 2 ^ 63"
  obtains s' inputId ob where "input_object cmdArgs localInput [\<lambda>s. s, \<lambda>s. s] s = Some (s', inputId, [\<lambda>s. s])"
    "room_for_task n s'" "pages_ok (h_pages s')" "0 < ids_left (h_pages s')" "pages_named (h_pages s')"
    "\<forall>j. j \<notin> issued (h_pages s') \<longrightarrow> h_local_objects s' j = 0" "localInput \<or> inputId \<in> issued (h_pages s')"
    "h_objects s' (input_at localInput inputId s') = Some ob" "input_at localInput inputId s' < h_brk s'"
    "QueryLocalObject ob 0 (8 * of_nat (length cmdArgs)) = Some (Some (concat (map (le_bytes 8) cmdArgs)))"
    "unat (h_brk s') \<le> unat (h_brk s) + 8 * length cmdArgs + 32" "h_sched s' = h_sched s" "h_workers s' = h_workers s"
proof -
  let ?sz = "8 * of_nat (length cmdArgs) :: i64" and ?args = "concat (map (le_bytes 8) cmdArgs)"
  have small: "8 * length cmdArgs < 2 ^ 63" using assms(6) by simp
  have eq: "?sz = of_nat (8 * length cmdArgs)" by simp
  have usz: "unat ?sz = 8 * length cmdArgs" and ssz: "sint ?sz = int (8 * length cmdArgs)" and nonneg: "0 \<le>s ?sz"
    unfolding eq using small_of_nat [OF small] by (simp_all only:)
  define prov where "prov = (if localInput then PROVIDER_LOC else PROVIDER_X64)"
  obtain ob where ob: "new_object_block (h_defined_arrays s) prov OBJECT_ARRAY ?sz 8 = Some (Some ob)"
    "ob_base ob = 16" "length (ob_block ob) = 16 + 8 * length cmdArgs" "obj_type ob = Some 3"
    using new_array_ok [OF nonneg, of 8 "h_defined_arrays s" prov] usz by auto
  obtain ob1 where w: "obj_write ob 0 ?args = Some ob1"
    using obj_write_Some [of ob 0 ?args] ob(2,3) by (auto simp: length_args)
  have "obj_type ob1 = Some 3" using obj_read_write_other [OF w, of "-1" 1] ob(4) by (simp add: obj_type_def)
  then have q: "QueryLocalObject ob1 0 ?sz = Some (Some ?args)"
    using obj_read_write_same [OF w] ssz by (simp add: QueryLocalObject_def object_types length_args)
  let ?pt = "h_brk s + of_nat (ob_base ob)"
  have base: "ob_base ob \<le> length (ob_block ob)" and brk: "unat (h_brk s) + length (ob_block ob) + 8192 < 2 ^ 63"
    using ob(2,3) assms(6) by simp_all
  show ?thesis
  proof (cases localInput)
    case True
    obtain s1 where s1: "locNewObjectUsingPage OBJECT_ARRAY ?sz 8 0 s = Some (s1, ?pt)" "room_for_task n s1"
      "h_local_objects s1 = h_local_objects s" "h_objects s1 = (h_objects s)(?pt \<mapsto> ob)" "h_pages s1 = h_pages s"
      "unat (h_brk s1) \<le> unat (h_brk s) + length (ob_block ob) + 16" "?pt < h_brk s1"
      "h_sched s1 = h_sched s" "h_workers s1 = h_workers s"
      by (rule locNewObjectUsingPage_ok [OF _ base assms(1) brk]) (use ob(1) True in \<open>auto simp: prov_def\<close>)
    let ?s2 = "s1\<lparr>h_objects := (h_objects s1)(?pt \<mapsto> ob1)\<rparr>"
    have "input_object cmdArgs True [\<lambda>s. s, \<lambda>s. s] s = Some (?s2, ?pt, [\<lambda>s. s])"
      using s1(1,4) w by (simp add: input_object_def write_object_def Let_def)
    moreover have "room_for_task n ?s2" using s1(2,4) by (intro room_object_update) simp_all
    ultimately show ?thesis
      using that [of ?s2 ?pt ob1] True assms(2-5) s1(3,5-9) q ob(3) by (simp add: input_at_def)
  next
    case False
    have left: "0 < ids_left (h_pages s)" using assms(3) by simp
    obtain sa i where i: "GetNewObjectId s = (sa, Some i)" "i \<noteq> 0" "pages_ok (h_pages sa)"
      "ids_left (h_pages s) = Suc (ids_left (h_pages sa))" "pages_named (h_pages sa)"
      "issued (h_pages sa) = insert i (issued (h_pages s))"
      using fresh_id [OF assms(2) left assms(4)] by metis
    obtain s1 where s1: "x64NewObject OBJECT_ARRAY ?sz 8 0 0 s = Some (s1, Returned i)" "room_for_task n s1"
      "h_local_objects s1 = (h_local_objects s)(i := ?pt)" "h_objects s1 = (h_objects s)(?pt \<mapsto> ob)" "h_pages s1 = h_pages sa"
      "unat (h_brk s1) \<le> unat (h_brk s) + length (ob_block ob) + 16" "?pt < h_brk s1" "h_brk s \<le> ?pt"
      "h_sched s1 = h_sched s" "h_workers s1 = h_workers s"
      by (rule x64NewObject_ok [OF i(1,2) _ _ base assms(1) brk]) (use assms(5) ob(1) False in \<open>auto simp: prov_def\<close>)
    have "0 < h_brk s" using assms(1) by (simp add: room_for_task_def queued_pool_ok_def heap_ok_def)
    then have pt: "?pt \<noteq> 0" using s1(8) by auto
    let ?s2 = "s1\<lparr>h_objects := (h_objects s1)(?pt \<mapsto> ob1)\<rparr>"
    have "input_object cmdArgs False [\<lambda>s. s, \<lambda>s. s] s = Some (?s2, i, [\<lambda>s. s])"
      using s1(1,3,4) i(2) w by (simp add: input_object_def write_object_def tbl_get_def Let_def)
    moreover have "room_for_task n ?s2" using s1(2,4) by (intro room_object_update) simp_all
    moreover have "input_at False i ?s2 = ?pt" using s1(3) i(2) by (simp add: input_at_def tbl_get_def)
    ultimately show ?thesis
      using that [of ?s2 i ob1] False assms(3,5) i(3-6) s1(3,5-7,9,10) q ob(3) by auto
  qed
qed

lemma initial_process_ok:
  assumes "room_for_task n s" "pages_ok (h_pages s)" "2 \<le> ids_left (h_pages s)" "pages_named (h_pages s)"
    "h_local_objects s = (\<lambda>_. 0)" "unat (h_brk s) + 8 * length cmdArgs + 32768 < 2 ^ 63"
    "unat ent < length (h_workers s)" "h_workers s ! unat ent = wk" "wi_provider wk = PROVIDER_X64"
    "wi_next_buffer wk = 0" "wi_input_size wk = 16"
  obtains s' inputId resCodeId t q ob ob' where
    "StartInitialProcess ent cmdArgs localInput [\<lambda>s. s, \<lambda>s. s] s = Some (s', resCodeId)"
    "sched_tasks (h_sched s') = add_mset t (sched_tasks (h_sched s))" "h_queued s' t = Some q"
    "k_id q = ent" "k_data q = wi_start wk" "sched_ok n (h_sched s')" "h_workers s' = h_workers s"
    "mem_read (k_rdi q) 16 (h_mem s') = le_bytes 8 inputId @ le_bytes 8 resCodeId"
    "h_objects s' (input_at localInput inputId s') = Some ob"
    "QueryLocalObject ob 0 (8 * of_nat (length cmdArgs)) = Some (Some (concat (map (le_bytes 8) cmdArgs)))"
    "h_objects s' (tbl_get (h_local_objects s') resCodeId) = Some ob'" "obj_ready ob' = Some 0"
proof -
  obtain s2 i ob where s2: "input_object cmdArgs localInput [\<lambda>s. s, \<lambda>s. s] s = Some (s2, i, [\<lambda>s. s])"
    "room_for_task n s2" "pages_ok (h_pages s2)" "0 < ids_left (h_pages s2)" "pages_named (h_pages s2)"
    "\<forall>j. j \<notin> issued (h_pages s2) \<longrightarrow> h_local_objects s2 j = 0" "localInput \<or> i \<in> issued (h_pages s2)"
    "h_objects s2 (input_at localInput i s2) = Some ob" "input_at localInput i s2 < h_brk s2"
    "QueryLocalObject ob 0 (8 * of_nat (length cmdArgs)) = Some (Some (concat (map (le_bytes 8) cmdArgs)))"
    "unat (h_brk s2) \<le> unat (h_brk s) + 8 * length cmdArgs + 32" "h_sched s2 = h_sched s" "h_workers s2 = h_workers s"
    by (rule input_object_ok [OF assms(1-6)]) (rule that; assumption)
  obtain sb j where j: "GetNewObjectId s2 = (sb, Some j)" "j \<noteq> 0" "j \<notin> issued (h_pages s2)"
    using fresh_id [OF s2(3-5)] by metis
  obtain ob' where ob': "new_object_block (h_defined_arrays s2) PROVIDER_X64 OBJECT_PROMISE 4 4 = Some (Some ob')"
    "ob_base ob' = 9" "length (ob_block ob') = 13" "obj_ready ob' = Some 0"
    using new_promise_ok [of 4 "h_defined_arrays s2" PROVIDER_X64 4] by (auto simp: word_sle_eq)
  obtain s3 where s3: "x64NewObject OBJECT_PROMISE 4 4 0 0 s2 = Some (s3, Returned j)" "room_for_task n s3"
    "h_local_objects s3 = (h_local_objects s2)(j := h_brk s2 + of_nat (ob_base ob'))"
    "h_objects s3 = (h_objects s2)(h_brk s2 + of_nat (ob_base ob') \<mapsto> ob')"
    "h_brk s2 \<le> h_brk s2 + of_nat (ob_base ob')"
    "h_sched s3 = h_sched s2" "h_workers s3 = h_workers s2"
    by (rule x64NewObject_ok [OF j(1,2) _ ob'(1) _ s2(2)]) (use s2(6,11) assms(6) j(3) ob'(2,3) in auto)
  let ?tbl = "le_bytes 8 i @ le_bytes 8 j"
  have len: "length ?tbl = 16" by (simp del: le_bytes_numeral)
  have wk: "unat ent < length (h_workers s3)" "h_workers s3 ! unat ent = wk" "0 \<le>s wi_input_size wk"
    "length ?tbl = unat (wi_input_size wk)" "length ?tbl \<le> 1024"
    using assms(7,8,11) s3(7) s2(13) len by (simp_all add: word_sle_eq del: le_bytes_numeral)
  obtain s4 t q where s4: "StartNewWorker ent 1 ?tbl s3 = Some s4" "h_queued s4 t = Some q"
    "sched_tasks (h_sched s4) = add_mset t (sched_tasks (h_sched s3))" "k_id q = ent" "k_data q = wi_start wk"
    "mem_read (k_rdi q) (length ?tbl) (h_mem s4) = ?tbl" "sched_ok n (h_sched s4)"
    "h_local_objects s4 = h_local_objects s3" "h_objects s4 = h_objects s3" "h_workers s4 = h_workers s3"
    using start_worker_ok [OF s3(2) wk(1,2) assms(9) wk(3-5) refl] assms(10) by auto
  have start: "StartInitialProcess ent cmdArgs localInput [\<lambda>s. s, \<lambda>s. s] s = Some (s4, j)"
    using s2(1) s3(1) j(2) s4(1) by (simp add: StartInitialProcess_def del: le_bytes_numeral)
  have "input_at localInput i s4 = input_at localInput i s2"
    using s2(7) s4(8) s3(3) j(3) by (auto simp: input_at_def tbl_get_def)
  moreover have "input_at localInput i s2 \<noteq> h_brk s2 + of_nat (ob_base ob')" using s2(9) s3(5) by auto
  ultimately have "h_objects s4 (input_at localInput i s4) = Some ob"
    "h_objects s4 (tbl_get (h_local_objects s4) j) = Some ob'"
    using s4(8,9) s3(3,4) s2(8) j(2) by (simp_all add: tbl_get_def)
  then show ?thesis
    using that [OF start _ s4(2,4,5,7)] s4(3,6,10) s3(6,7) s2(10,12,13) ob'(4) len by (simp del: le_bytes_numeral)
qed

section \<open>Properties\<close>

lemma length_fold_set: "length (fold (\<lambda>w ws. ws[f w := g w]) xs (replicate n y)) = n"
  by (induction xs rule: rev_induct) auto

lemma those_map_Some: "those (map Some xs) = Some xs"
  by (induction xs) auto

lemma program_arrays_strings:
  assumes "total_size 0 ss < 2 ^ 63" "l_strings p = raw_strings junk 0 ss" "l_arrays p = string_table 0 ss"
  shows "program_arrays p = Some ss"
proof -
  have len: "length (string_table k ss) = length ss" for k by (induction ss arbitrary: k) (auto simp: Let_def)
  have "map (defined_array p) [0..<length ss] = map Some (map ((!) ss) [0..<length ss])"
    using raw_string_at [of _ ss 0 junk] assms by (auto simp: defined_array_def len)
  then show ?thesis by (simp add: program_arrays_def assms(3) len map_nth those_map_Some del: map_map)
qed

text \<open>
  C2. An exported program starts: a program of x64 workers, exported by the compiler with an entry worker that
  takes its input and a promise, is loaded by the runtime with valid options, and, unless the hive is a
  protectorate and once it has a page of object ids, \<^verbatim>\<open>StartInitialProcess\<close> makes the input object, local or
  not as the options say, which holds the input (a single 0 when nothing is to be read), and the promise of
  the result, which is not ready, and queues one task; the next round of any scheduler thread runs exactly
  that task, at the address of the entry worker in the mapped code and with the names of both objects in its
  table.
\<close>

theorem exported_program_starts:
  assumes "ExportCode junk (Some ent) [X64 c] = Some bin"
    "\<forall>(t, ps) \<in> set (xc_calls c). t \<in> api_types - missing_types"
    "\<forall>(t, a) \<in> set (call_sites 0 (xc_calls c)). unat a + 8 \<le> length (xc_code c)"
    "\<forall>w \<in> set (xc_workers c). unat (xw_id w) < 100" "distinct (map xw_id (xc_workers c))"
    "w \<in> set (xc_workers c)" "xw_id w = ent" "xw_table w = 16"
    "parse_options args default_options = Some (opts, rest)" "0 <s o_threads opts" "\<not> o_protectorate opts"
    "pages_ok ps" "2 \<le> ids_left ps" "pages_named ps" "length input < 2 ^ 32"
    "cmdArgs = (if o_no_stdin opts then [0] else input)"
  shows "\<exists>s p s1 resCodeId t q inputId ob ob'. boot env base bin args random clock dials junk_vars = Some (s, p, opts) \<and>
    start_program opts (l_entry p) input [\<lambda>s. s, \<lambda>s. s] (s\<lparr>h_pages := ps\<rparr>) = Some (s1, resCodeId) \<and>
    h_objects s1 (input_at (o_local_input opts) inputId s1) = Some ob \<and>
    QueryLocalObject ob 0 (8 * of_nat (length cmdArgs)) = Some (Some (concat (map (le_bytes 8) cmdArgs))) \<and>
    h_objects s1 (tbl_get (h_local_objects s1) resCodeId) = Some ob' \<and> obj_ready ob' = Some 0 \<and>
    k_id q = ent \<and> k_data q = base + xw_pos w \<and>
    mem_read (k_rdi q) 16 (h_mem s1) = le_bytes 8 inputId @ le_bytes 8 resCodeId \<and>
    (\<forall>program td. td_number td < unat (o_threads opts) \<longrightarrow>
       (\<exists>s2. SheduleWorker False program (s1\<lparr>h_thread := Some td\<rparr>) = x64ExecuteWorker program t s2 \<and>
          h_queued s2 t = Some q \<and> sched_tasks (h_sched s2) = {#} \<and> h_mem s2 = h_mem s1 \<and>
          h_objects s2 = h_objects s1 \<and> h_local_objects s2 = h_local_objects s1))"
proof -
  let ?ws = "install_workers base (xc_workers c) (replicate 100 no_worker)"
  define p where "p = \<lparr>l_base = base, l_mem = patch env (call_sites 0 (xc_calls c)) (xc_code c), l_workers = ?ws,
    l_dll = Map.empty, l_gpu = Map.empty, l_strings = raw_strings junk 0 (xc_strings c),
    l_arrays = string_table 0 (xc_strings c), l_entry = ent\<rparr>"
  have load: "LoadWorker env base bin = Some (Inr p)" unfolding p_def using assms(1-4) by (rule load_x64_program)
  have "total_size 0 (xc_strings c) < 2 ^ 63"
    using assms(1) by (auto simp: ExportCode_def export_provider_def export_x64_def BUFFER_SIZE_def Let_def
        length_export_strings split: if_splits simp del: le_bytes_numeral)
  then have arrays: "program_arrays p = Some (xc_strings c)" by (rule program_arrays_strings) (simp_all add: p_def)
  define n where "n = unat (o_threads opts)"
  have n: "0 < n" using assms(10) by (cases "o_threads opts = 0") (auto simp: n_def unat_gt_0)
  define s where "s = init_hive n ?ws (xc_strings c) random clock dials junk_vars"
  have boot: "boot env base bin args random clock dials junk_vars = Some (s, p, opts)"
    using load assms(9,10) arrays by (simp add: boot_def s_def n_def) (simp add: p_def)
  have len: "length ?ws = 100"
    unfolding install_workers_def by (rule length_fold_set)
  have wk: "?ws ! unat ent = loaded_worker base w" "unat ent < 100"
    using install_workers_nth [OF assms(5,6), of "replicate 100 no_worker" base] assms(4,6,7) by auto
  let ?s = "s\<lparr>h_pages := ps\<rparr>"
  have room: "room_for_task n ?s" using room_for_task_init [OF n]
    by (simp add: room_for_task_def queued_pool_ok_def heap_ok_def s_def)
  obtain s1 inputId resCodeId t q ob ob' where
    r: "StartInitialProcess ent cmdArgs (o_local_input opts) [\<lambda>s. s, \<lambda>s. s] ?s = Some (s1, resCodeId)"
    "sched_tasks (h_sched s1) = add_mset t (sched_tasks (h_sched ?s))" "h_queued s1 t = Some q"
    "k_id q = ent" "k_data q = wi_start (loaded_worker base w)" "sched_ok n (h_sched s1)" "h_workers s1 = h_workers ?s"
    "mem_read (k_rdi q) 16 (h_mem s1) = le_bytes 8 inputId @ le_bytes 8 resCodeId"
    "h_objects s1 (input_at (o_local_input opts) inputId s1) = Some ob"
    "QueryLocalObject ob 0 (8 * of_nat (length cmdArgs)) = Some (Some (concat (map (le_bytes 8) cmdArgs)))"
    "h_objects s1 (tbl_get (h_local_objects s1) resCodeId) = Some ob'" "obj_ready ob' = Some 0"
    by (rule initial_process_ok [OF room, of cmdArgs ent "loaded_worker base w" "o_local_input opts"])
      (use assms(8,12-16) wk len in \<open>simp_all add: s_def init_hive_def loaded_worker_def\<close>)
  have tasks: "sched_tasks (h_sched s1) = {#t#}" using r(2) by (simp add: s_def init_hive_def sched_tasks_init)
  have prov: "worker_provider (k_id q) s1 = Some PROVIDER_X64"
    using r(4,7) wk len by (simp add: worker_provider_def s_def init_hive_def loaded_worker_def)
  have run: "\<exists>s2. SheduleWorker False program (s1\<lparr>h_thread := Some td\<rparr>) = x64ExecuteWorker program t s2 \<and>
      h_queued s2 t = Some q \<and> sched_tasks (h_sched s2) = {#} \<and> h_mem s2 = h_mem s1 \<and>
      h_objects s2 = h_objects s1 \<and> h_local_objects s2 = h_local_objects s1" if small: "td_number td < n" for program td
  proof -
    let ?s1 = "s1\<lparr>h_thread := Some td\<rparr>"
    have pre: "sched_ok n (h_sched ?s1)" "h_thread ?s1 = Some td" "sched_tasks (h_sched ?s1) \<noteq> {#}"
      "\<forall>t \<in># sched_tasks (h_sched ?s1). \<exists>q. h_queued ?s1 t = Some q \<and> worker_provider (k_id q) ?s1 = Some PROVIDER_X64"
      using r(3,6) tasks prov by (simp_all add: dequeue_frame)
    show ?thesis
    proof (rule round_runs_task [where program = program, OF pre(1,2) small pre(3,4)])
      fix t' q' sd s2
      assume d: "SheduleWorker False program ?s1 = x64ExecuteWorker program t' s2"
        "sched_tasks (h_sched ?s1) = add_mset t' (sched_tasks sd)"
        "s2 = ?s1\<lparr>h_sched := sd, h_thread := Some (td\<lparr>td_running_id := k_id q', td_running_depth := k_depth q'\<rparr>),
           h_clock_pos := h_clock_pos ?s1 + 1\<rparr>"
      have "t' = t" "sched_tasks sd = {#}" using d(2) tasks by simp_all
      then show ?thesis using d(1,3) r(3) by (intro exI [of _ s2]) simp
    qed
  qed
  have "l_entry p = ent" by (simp add: p_def)
  then have "start_program opts (l_entry p) input [\<lambda>s. s, \<lambda>s. s] ?s = Some (s1, resCodeId)"
    using r(1) assms(11,16) by (simp add: start_program_def)
  moreover have "k_data q = base + xw_pos w" using r(5) by (simp add: loaded_worker_def)
  ultimately show ?thesis using boot r run unfolding n_def by blast
qed

text \<open>Entry worker 3 of the sample is started with the arguments 5 and 6, by one scheduler thread.\<close>

theorem exported_program_starts_witness:
  "\<exists>bin s p s1 resCodeId t q. ExportCode (\<lambda>_. 7) (Some 3) [X64 sample_code] = Some bin \<and>
     boot \<lparr>e_endpoint = (\<lambda>t. 0x1000 + ucast t), e_symbol = (\<lambda>_ _. 0), e_kernel = (\<lambda>_. None)\<rparr> 0x7000 bin [[113]]
       (\<lambda>_. 0) (\<lambda>_. 0) (\<lambda>_. 0) (\<lambda>_. 0) = Some (s, p, default_options\<lparr>o_stats := False\<rparr>) \<and>
     start_program (default_options\<lparr>o_stats := False\<rparr>) (l_entry p) [5, 6] [\<lambda>s. s, \<lambda>s. s] (s\<lparr>h_pages := [\<lparr>pg_id = 1, pg_next = 0\<rparr>]\<rparr>) =
       Some (s1, resCodeId) \<and>
     k_data q = 0x7002 \<and>
     (\<exists>s2. SheduleWorker False (\<lambda>q s. Some (s, True)) (s1\<lparr>h_thread := Some \<lparr>td_number = 0, td_running_id = 0, td_running_depth = 0\<rparr>\<rparr>) =
        x64ExecuteWorker (\<lambda>q s. Some (s, True)) t s2 \<and> h_queued s2 t = Some q)"
proof -
  let ?env = "\<lparr>e_endpoint = (\<lambda>t. 0x1000 + ucast t), e_symbol = (\<lambda>_ _. 0), e_kernel = (\<lambda>_. None)\<rparr>"
    and ?opts = "default_options\<lparr>o_stats := False\<rparr>"
    and ?w = "\<lparr>xw_id = 3, xw_pos = 2, xw_size = 19, xw_table = 16, xw_affinity = -1\<rparr>"
    and ?ps = "[\<lparr>pg_id = 1, pg_next = 0\<rparr>]"
    and ?td = "\<lparr>td_number = 0, td_running_id = 0, td_running_depth = 0\<rparr>"
  obtain bin where f: "ExportCode (\<lambda>_. 7) (Some 3) [X64 sample_code] = Some bin" by (rule sample_exported)
  have w: "?w \<in> set (xc_workers sample_code)" "xw_id ?w = 3" "xw_table ?w = 16" by (simp_all add: sample_code_def)
  have opts: "parse_options [[113]] default_options = Some (?opts, [])" "0 <s o_threads ?opts" "\<not> o_protectorate ?opts"
    "unat (o_threads ?opts) = 1"
    by (simp_all add: default_options_def word_sless_alt)
  have ps: "pages_ok ?ps" "2 \<le> ids_left ?ps" "pages_named ?ps" "length [5, 6 :: i64] < 2 ^ 32"
    by (simp_all add: pages_ok_def ids_left_def pages_named_def OBJECTS_PER_PAGE_def take_bit_eq_mod)
  obtain s p s1 resCodeId t q where r: "boot ?env 0x7000 bin [[113]] (\<lambda>_. 0) (\<lambda>_. 0) (\<lambda>_. 0) (\<lambda>_. 0) = Some (s, p, ?opts)"
    "start_program ?opts (l_entry p) [5, 6] [\<lambda>s. s, \<lambda>s. s] (s\<lparr>h_pages := ?ps\<rparr>) = Some (s1, resCodeId)"
    "k_data q = 0x7000 + xw_pos ?w"
    "\<forall>program td. td_number td < unat (o_threads ?opts) \<longrightarrow>
       (\<exists>s2. SheduleWorker False program (s1\<lparr>h_thread := Some td\<rparr>) = x64ExecuteWorker program t s2 \<and> h_queued s2 t = Some q)"
    using exported_program_starts [where env = ?env and base = "0x7000" and random = "\<lambda>_. 0" and clock = "\<lambda>_. 0"
        and dials = "\<lambda>_. 0" and junk_vars = "\<lambda>_. 0", OF f sample_code_ok(1,2,4,5) w opts(1-3) ps refl]
    by (elim exE conjE) (rule that; (assumption | blast))
  have "\<exists>s2. SheduleWorker False (\<lambda>q s. Some (s, True)) (s1\<lparr>h_thread := Some ?td\<rparr>) = x64ExecuteWorker (\<lambda>q s. Some (s, True)) t s2 \<and>
      h_queued s2 t = Some q"
    using r(4) opts(4) by simp
  then show ?thesis using f r(1,2,3) by auto
qed

end
