(* ===== verification/Assembler.thy ===== *)
theory Assembler
  imports Prelude
begin

text \<open>
  The assembler of the compiler, \<^verbatim>\<open>src/codegen/x64_win/asm.cpp\<close>: each function appends the bytes of one
  x64 instruction. The theory X64 says independently what the processor makes of such bytes.

  A failed \<^verbatim>\<open>assertExpr\<close> only writes a message, and the bytes are emitted all the same; where the code
  returns after an error no byte is.
\<close>

section \<open>Operations and registers\<close>

datatype asm_operationZ = ASM_CQO

datatype asm_operation1 =
    ASM_NEG | ASM_NOT | ASM_IDIV | ASM_DIV
  | ASM_SETE | ASM_SETNE | ASM_SETL | ASM_SETLE | ASM_SETG | ASM_SETGE | ASM_SETA | ASM_SETAE | ASM_SETB | ASM_SETBE

datatype asm_operation2 =
    ASM_MOV | ASM_MOVSX | ASM_MOVZX | ASM_XOR | ASM_AND | ASM_OR | ASM_ADD | ASM_SUB | ASM_IMUL | ASM_TEST | ASM_CMP

datatype asm_operation2rc = ASM_MOV_RC | ASM_ADD_RC

datatype asm_operation3 = ASM_SHLX | ASM_SHRX | ASM_SARX

datatype asm_operation_jmp =
    ASM_JMP | ASM_JZ | ASM_JNZ | ASM_JS | ASM_JNS | ASM_JNAE | ASM_JB | ASM_JC | ASM_NC | ASM_NB | ASM_JAE | ASM_JO | ASM_JNO

text \<open>A register is its number and its size in bytes.\<close>

type_synonym reg = "nat \<times> nat"

definition high :: "reg \<Rightarrow> bool" where "high r \<longleftrightarrow> fst r AND 8 \<noteq> 0"
definition low3 :: "reg \<Rightarrow> byte" where "low3 r = of_nat (fst r AND 7)"

text \<open>The bits of the REX prefix as the code collects them.\<close>

definition rex_byte :: "bool \<Rightarrow> bool \<Rightarrow> bool \<Rightarrow> bool \<Rightarrow> byte" where
  "rex_byte w r x b = 0x40 OR (if w then 0x08 else 0) OR (if r then 0x04 else 0) OR (if x then 0x02 else 0) OR
     (if b then 0x01 else 0)"

definition optional :: "bool \<Rightarrow> byte list \<Rightarrow> byte list" where "optional b bs = (if b then bs else [])"

definition modrm :: "byte \<Rightarrow> byte \<Rightarrow> byte \<Rightarrow> byte" where
  "modrm mode reg rm = mode OR push_bit 3 reg OR rm"

definition is_int8 :: "i64 \<Rightarrow> bool" where "is_int8 v \<longleftrightarrow> - 128 \<le>s v \<and> v \<le>s 127"
definition is_int32 :: "i64 \<Rightarrow> bool" where "is_int32 v \<longleftrightarrow> - 0x80000000 \<le>s v \<and> v \<le>s 0x7FFFFFFF"

section \<open>Instructions on registers\<close>

definition printZ :: "asm_operationZ \<Rightarrow> byte list" where
  "printZ op = (case op of ASM_CQO \<Rightarrow> [0x48, 0x99])"

definition printR :: "asm_operation1 \<Rightarrow> reg \<Rightarrow> byte list" where
  "printR op r1 =
     (let rex = rex_byte (snd r1 = 8) False False (high r1);
          needrex = (high r1 \<or> snd r1 = 1 \<and> 4 \<le> fst r1 AND 7 \<or> snd r1 = 8);
          group = (\<lambda>d. optional (snd r1 = 2) [0x66] @ optional needrex [rex] @ [if snd r1 = 1 then 0xF6 else 0xF7, modrm 0xC0 d (low3 r1)]);
          set = (\<lambda>c. optional needrex [rex] @ [0x0F, c, modrm 0xC0 0 (low3 r1)])
      in case op of
           ASM_NEG \<Rightarrow> group 3
         | ASM_NOT \<Rightarrow> group 2
         | ASM_DIV \<Rightarrow> group 6
         | ASM_IDIV \<Rightarrow> group 7
         | ASM_SETE \<Rightarrow> set 0x94
         | ASM_SETNE \<Rightarrow> set 0x95
         | ASM_SETL \<Rightarrow> set 0x9C
         | ASM_SETLE \<Rightarrow> set 0x9E
         | ASM_SETG \<Rightarrow> set 0x9F
         | ASM_SETGE \<Rightarrow> set 0x9D
         | ASM_SETA \<Rightarrow> set 0x97
         | ASM_SETAE \<Rightarrow> set 0x93
         | ASM_SETB \<Rightarrow> set 0x92
         | ASM_SETBE \<Rightarrow> set 0x96)"

text \<open>
  The operations with a \<^verbatim>\<open>reg\<close> and an \<^verbatim>\<open>rm\<close> operand; \<^verbatim>\<open>opcode\<close> is the one for bytes.
\<close>

definition print_binary :: "reg \<Rightarrow> reg \<Rightarrow> byte \<Rightarrow> byte list" where
  "print_binary r1 r2 opcode =
     (let rex = rex_byte (snd r1 = 8 \<or> snd r2 = 8) (high r2) False (high r1);
          needrex = (high r1 \<or> high r2 \<or> snd r1 = 1 \<and> 4 \<le> fst r1 AND 7 \<or> snd r2 = 1 \<and> 4 \<le> fst r2 AND 7 \<or>
            snd r1 = 8 \<or> snd r2 = 8)
      in optional (snd r1 = 2) [0x66] @ optional needrex [rex] @
         [if snd r1 = 1 then opcode else opcode + 1, modrm 0xC0 (low3 r2) (low3 r1)])"

definition print_extend :: "bool \<Rightarrow> reg \<Rightarrow> reg \<Rightarrow> byte list" where
  "print_extend zero r1 r2 =
     (let rex = rex_byte (snd r1 = 8 \<or> snd r2 = 8) (high r1) False (high r2);
          needrex = (high r1 \<or> high r2 \<or> snd r1 = 1 \<and> 4 \<le> fst r1 AND 7 \<or> snd r2 = 1 \<and> 4 \<le> fst r2 AND 7 \<or>
            snd r1 = 8 \<or> snd r2 = 8);
          param = modrm 0xC0 (low3 r1) (low3 r2)
      in if snd r2 = 1 then
           optional (snd r1 = 2) [0x66] @ optional needrex [rex] @ [0x0F, if zero then 0xB6 else 0xBE, param]
         else if snd r2 = 2 then
           [0x66] @ optional needrex [rex] @ [0x0F, if zero then 0xB7 else 0xBF, param]
         else if snd r2 = 4 then
           (if zero then print_binary (fst r1, 4) r2 0x88 else [rex, 0x63, param])
         else [])"

definition print_imul :: "reg \<Rightarrow> reg \<Rightarrow> byte list" where
  "print_imul r1 r2 =
     (let rex = rex_byte (snd r1 = 8 \<or> snd r2 = 8) (high r2) False (high r1);
          needrex = (high r1 \<or> high r2 \<or> snd r1 = 1 \<and> 4 \<le> fst r1 AND 7 \<or> snd r2 = 1 \<and> 4 \<le> fst r2 AND 7 \<or>
            snd r1 = 8 \<or> snd r2 = 8)
      in optional (snd r1 \<le> 2) [0x66] @ optional needrex [rex] @ [0x0F, 0xAF, modrm 0xC0 (low3 r2) (low3 r1)])"

text \<open>The operands of \<^verbatim>\<open>ASM_IMUL\<close> and \<^verbatim>\<open>ASM_TEST\<close> are swapped first.\<close>

definition printRR :: "asm_operation2 \<Rightarrow> reg \<Rightarrow> reg \<Rightarrow> byte list" where
  "printRR op r1 r2 =
     (case op of
        ASM_MOV \<Rightarrow> print_binary r1 r2 0x88
      | ASM_MOVZX \<Rightarrow> print_extend True r1 r2
      | ASM_MOVSX \<Rightarrow> print_extend False r1 r2
      | ASM_XOR \<Rightarrow> print_binary r1 r2 0x30
      | ASM_AND \<Rightarrow> print_binary r1 r2 0x20
      | ASM_OR \<Rightarrow> print_binary r1 r2 0x08
      | ASM_ADD \<Rightarrow> print_binary r1 r2 0x00
      | ASM_SUB \<Rightarrow> print_binary r1 r2 0x28
      | ASM_IMUL \<Rightarrow> print_imul r2 r1
      | ASM_TEST \<Rightarrow> print_binary r2 r1 0x84
      | ASM_CMP \<Rightarrow> print_binary r1 r2 0x38)"

section \<open>Instructions on memory\<close>

text \<open>
  An address is a register and an offset. The base registers \<^verbatim>\<open>rbp\<close> and \<^verbatim>\<open>r13\<close> always have an offset,
  \<^verbatim>\<open>rsp\<close> and \<^verbatim>\<open>r12\<close> need a further byte.
\<close>

definition print_address :: "reg \<Rightarrow> reg \<Rightarrow> i64 \<Rightarrow> byte list" where
  "print_address r base offset =
     (if offset = 0 \<and> fst base AND 7 \<noteq> 5 then [modrm 0x00 (low3 r) (low3 base)]
      else if is_int8 offset then [modrm 0x40 (low3 r) (low3 base)]
      else [modrm 0x80 (low3 r) (low3 base)]) @
     optional (fst base AND 7 = 4) [modrm 0 4 (low3 base)] @
     optional (offset \<noteq> 0 \<or> fst base AND 7 = 5) (if is_int8 offset then [ucast offset] else le_bytes 4 offset)"

definition printRM :: "reg \<Rightarrow> reg \<Rightarrow> i64 \<Rightarrow> byte list" where
  "printRM r1 r2 offset =
     (let rex = rex_byte (snd r1 = 8) (high r1) False (high r2);
          needrex = (high r1 \<or> high r2 \<or> snd r1 = 8)
      in optional (snd r1 = 2) [0x66] @ optional needrex [rex] @ [if snd r1 = 1 then 0x8A else 0x8B] @ print_address r1 r2 offset)"

definition printMR :: "reg \<Rightarrow> reg \<Rightarrow> i64 \<Rightarrow> byte list" where
  "printMR r1 r2 offset =
     (let rex = rex_byte (snd r2 = 8) (high r2) False (high r1);
          needrex = (high r1 \<or> high r2 \<or> snd r2 = 8 \<or> snd r1 = 1 \<and> 4 \<le> fst r1 \<or> snd r2 = 1 \<and> 4 \<le> fst r2)
      in optional (snd r2 = 2) [0x66] @ optional needrex [rex] @ [if snd r2 = 1 then 0x88 else 0x89] @ print_address r2 r1 offset)"

text \<open>\<^verbatim>\<open>31 - __builtin_clz(elementSize)\<close> for the four sizes that are not refused.\<close>

definition scale_of :: "nat \<Rightarrow> byte" where
  "scale_of n = (if n = 8 then 3 else if n = 4 then 2 else if n = 2 then 1 else 0)"

definition element_mode :: "reg \<Rightarrow> i64 \<Rightarrow> byte \<times> byte list" where
  "element_mode base elementOffset =
     (if elementOffset = 0 \<and> fst base AND 7 \<noteq> 5 then (0, [])
      else if is_int8 elementOffset then (1, [ucast elementOffset])
      else (2, le_bytes 4 elementOffset))"

definition print_element :: "byte \<Rightarrow> reg \<Rightarrow> reg \<Rightarrow> nat \<Rightarrow> reg \<Rightarrow> i64 \<Rightarrow> byte list" where
  "print_element opcode r base elementSize index elementOffset =
     (if elementSize \<notin> {1, 2, 4, 8} then []
      else if snd base \<noteq> 8 \<or> snd index \<noteq> 8 then []
      else
        let rex = rex_byte (snd r = 8) (high r) (high index) (high base);
            needrex = (snd r = 8 \<or> high r \<or> high index \<or> high base \<or> snd r = 1 \<and> 4 \<le> fst r);
            (mode, disp) = element_mode base elementOffset
        in optional (snd r = 2) [0x66] @ optional needrex [rex] @
           [if snd r = 1 then opcode else opcode + 1,
            push_bit 6 mode OR push_bit 3 (low3 r) OR 0x04,
            push_bit 6 (scale_of elementSize) OR push_bit 3 (low3 index) OR low3 base] @ disp)"

definition printRRCRC :: "reg \<Rightarrow> reg \<Rightarrow> nat \<Rightarrow> reg \<Rightarrow> i64 \<Rightarrow> byte list" where
  "printRRCRC dest base elementSize index elementOffset = print_element 0x8A dest base elementSize index elementOffset"

definition printRCRCR :: "reg \<Rightarrow> nat \<Rightarrow> reg \<Rightarrow> i64 \<Rightarrow> reg \<Rightarrow> byte list" where
  "printRCRCR base elementSize index elementOffset source = print_element 0x88 source base elementSize index elementOffset"

section \<open>Constants\<close>

text \<open>
  A constant that is its own low half, taken as unsigned, is moved to the 32-bit register. The conditions on the
  range of a constant that is added are disjunctions, so that the first one always holds.
\<close>

definition printRC :: "asm_operation2rc \<Rightarrow> reg \<Rightarrow> i64 \<Rightarrow> byte list" where
  "printRC op r1 v =
     (let r1 = (if op = ASM_MOV_RC \<and> snd r1 = 8 \<and> v = ucast (ucast v :: i32) then (fst r1, 4) else r1);
          use32signex = (op = ASM_MOV_RC \<and> snd r1 = 8 \<and> v = scast (ucast v :: i32));
          rex = rex_byte (snd r1 = 8) False False (high r1);
          needrex = (high r1 \<or> snd r1 = 1 \<and> 4 \<le> fst r1 \<or> snd r1 = 8);
          prefix = optional (snd r1 = 2) [0x66] @ optional needrex [rex]
      in case op of
           ASM_MOV_RC \<Rightarrow>
             prefix @
             (if use32signex then [0xC7, 0xC0 OR low3 r1] @ le_bytes 4 v
              else [(if snd r1 = 1 then 0xB0 else 0xB8) OR low3 r1] @ le_bytes (snd r1) v)
         | ASM_ADD_RC \<Rightarrow>
             if - 128 \<le>s v \<or> v \<le>s 127 then
               prefix @ [if snd r1 = 1 then 0x80 else 0x83, 0xC0 OR low3 r1, ucast v]
             else if - 0x80000000 \<le>s v \<or> v \<le>s 0x7FFFFFFF then
               prefix @ [if snd r1 = 1 then 0x80 else 0x81, 0xC0 OR low3 r1] @ le_bytes (min 4 (snd r1)) v
             else prefix)"

definition printRRC :: "reg \<Rightarrow> reg \<Rightarrow> i64 \<Rightarrow> byte list" where
  "printRRC r1 r2 constant =
     (let rex = rex_byte (snd r2 = 8) (high r1) False (high r2);
          needrex = (high r1 \<or> high r2 \<or> snd r2 = 8 \<or> snd r1 = 1 \<and> 4 \<le> fst r1 \<or> snd r2 = 1 \<and> 4 \<le> fst r2);
          prefix = optional (snd r2 = 2) [0x66] @ optional needrex [rex]
      in if snd r1 = 1 then []
         else if is_int8 constant then prefix @ [0x6B, modrm 0xC0 (low3 r1) (low3 r2), ucast constant]
         else if is_int32 constant then prefix @ [0x69, modrm 0xC0 (low3 r1) (low3 r2)] @ le_bytes 8 constant
         else prefix)"

section \<open>Shifts, jumps and calls\<close>

text \<open>
  \<^verbatim>\<open>~r3.first\<close> is the complement of a 64-bit number; its shifted low byte carries a further bit into the
  place of \<^verbatim>\<open>W\<close>.
\<close>

definition printRRR :: "asm_operation3 \<Rightarrow> reg \<Rightarrow> reg \<Rightarrow> reg \<Rightarrow> byte list" where
  "printRRR op r1 r2 r3 =
     (let pp = (case op of ASM_SHLX \<Rightarrow> 0x01 | ASM_SHRX \<Rightarrow> 0x03 | ASM_SARX \<Rightarrow> 0x02);
          r_bit = (if high r1 then 0 else 1);
          x_bit = 1;
          b_bit = (if high r2 then 0 else 1);
          map_select = 0x02;
          w = (if snd r1 = 8 then 1 else 0);
          vvvv = ucast (push_bit 3 (NOT (of_nat (fst r3) :: i64))) :: byte;
          l = 0
      in [0xC4, push_bit 7 r_bit OR push_bit 6 x_bit OR push_bit 5 b_bit OR map_select,
          push_bit 7 w OR vvvv OR push_bit 2 l OR pp, 0xF7, modrm 0xC0 (low3 r1) (low3 r2)])"

text \<open>The size of a jump and the variant of its encoding; on an unknown variant both are 0.\<close>

definition JMPsize :: "asm_operation_jmp \<Rightarrow> i64 \<Rightarrow> int \<Rightarrow> nat \<times> int" where
  "JMPsize op offset encoding_variant =
     (if - 128 + 6 \<le>s offset \<and> offset \<le>s 127 \<and> encoding_variant \<le> 0 then (1 + 1, 0)
      else if encoding_variant \<le> 1 then (case op of ASM_JMP \<Rightarrow> (1 + 4, 1) | _ \<Rightarrow> (2 + 4, 1))
      else (0, 0))"

text \<open>The condition in the opcode of a conditional jump, the same in both forms.\<close>

definition jump_condition :: "asm_operation_jmp \<Rightarrow> byte" where
  "jump_condition op =
     (case op of
        ASM_JZ \<Rightarrow> 4 | ASM_JNZ \<Rightarrow> 5 | ASM_JS \<Rightarrow> 8 | ASM_JNS \<Rightarrow> 9
      | ASM_JNAE \<Rightarrow> 2 | ASM_JB \<Rightarrow> 2 | ASM_JC \<Rightarrow> 2
      | ASM_NC \<Rightarrow> 3 | ASM_NB \<Rightarrow> 3 | ASM_JAE \<Rightarrow> 3
      | ASM_JO \<Rightarrow> 0 | ASM_JNO \<Rightarrow> 1 | ASM_JMP \<Rightarrow> 0)"

text \<open>The bytes, and the variant that is returned.\<close>

definition printJMP :: "asm_operation_jmp \<Rightarrow> i64 \<Rightarrow> int \<Rightarrow> byte list \<times> int" where
  "printJMP op offset encoding_variant =
     (let (sz, var) = JMPsize op offset encoding_variant;
          offset = offset - of_nat sz
      in if var = 0 then ([if op = ASM_JMP then 0xEB else 0x70 OR jump_condition op, ucast offset], 0)
         else if var = 1 then
           ((if op = ASM_JMP then [0xE9] else [0x0F, 0x80 OR jump_condition op]) @ le_bytes 4 offset, 1)
         else ([], -1))"

text \<open>The bytes of a call; the address to be replaced by the loader is at byte 2.\<close>

definition printCALL :: "i64 \<Rightarrow> byte list" where
  "printCALL address = [0x48, 0xB8] @ le_bytes 8 address @ [0xFF, 0xD0]"

definition CALL_ADDRESS :: nat where "CALL_ADDRESS = 2"

end
