(* ===== verification/X64.thy ===== *)
theory X64
  imports Prelude
begin

text \<open>
  What the processor makes of the bytes, for the instructions that the compiler uses: a decoder for the 64-bit
  mode, written from the documented encoding (prefixes, opcode, \<^verbatim>\<open>ModRM\<close>, \<^verbatim>\<open>SIB\<close>, displacement,
  immediate, and the three-byte VEX prefix for shifts by a register), independently of the assembler.
\<close>

section \<open>Instructions\<close>

text \<open>
  A register operand has a size and a number; \<open>High n\<close> are the second bytes of the first four registers. A
  memory operand has a size, a base, perhaps an index with its scale, and a displacement.
\<close>

datatype operand = Reg nat nat | High nat | Mem nat nat "(nat \<times> nat) option" i64

datatype binary = Mov | Add | Or | And | Sub | Xor | Cmp | Test | Imul
datatype unary = Not | Neg | Div | Idiv
datatype shift = Shl | Shr | Sar

text \<open>
  The destination is the first operand. \<open>Extend\<close> says whether the sign is extended; \<open>Branch\<close> has the
  code of its condition; jumps are relative to the end of the instruction.
\<close>

datatype insn =
    Binary binary operand operand
  | Extend bool operand operand
  | Unary unary operand
  | Set byte operand
  | Immediate binary operand i64
  | Multiply operand operand i64
  | Shift shift operand operand operand
  | Jump i64
  | Branch byte i64
  | Call operand
  | SignRax
  | Ret

section \<open>Operands\<close>

definition rex_bit :: "byte option \<Rightarrow> nat \<Rightarrow> bool" where
  "rex_bit rex i = (case rex of None \<Rightarrow> False | Some b \<Rightarrow> bit b i)"

definition extend_number :: "bool \<Rightarrow> byte \<Rightarrow> nat" where
  "extend_number e n = unat (n AND 7) + (if e then 8 else 0)"

definition size_of :: "bool \<Rightarrow> bool \<Rightarrow> byte option \<Rightarrow> nat" where
  "size_of byte p66 rex = (if byte then 1 else if rex_bit rex 3 then 8 else if p66 then 2 else 4)"

definition gpr :: "nat \<Rightarrow> byte option \<Rightarrow> nat \<Rightarrow> operand" where
  "gpr sz rex n = (if sz = 1 \<and> rex = None \<and> 4 \<le> n then High (n - 4) else Reg sz n)"

definition sign_extend :: "nat \<Rightarrow> i64 \<Rightarrow> i64" where
  "sign_extend n w = signed_take_bit (n - 1) w"

text \<open>An immediate of \<open>n\<close> bytes.\<close>

definition immediate :: "nat \<Rightarrow> byte list \<Rightarrow> (i64 \<times> byte list) option" where
  "immediate n bs = (if n \<le> length bs then Some (sign_extend (8 * n) (le_word (take n bs)), drop n bs) else None)"

text \<open>
  The number in the \<^verbatim>\<open>reg\<close> field, the operand \<^verbatim>\<open>rm\<close> and the rest. The forms without a base register
  are not decoded.
\<close>

definition decode_rm :: "byte option \<Rightarrow> nat \<Rightarrow> byte list \<Rightarrow> (nat \<times> operand \<times> byte list) option" where
  "decode_rm rex sz bs =
     (case bs of
        [] \<Rightarrow> None
      | m # bs \<Rightarrow>
          let mode = drop_bit 6 m; reg = extend_number (rex_bit rex 2) (drop_bit 3 m); rm = m AND 7 in
          if mode = 3 then Some (reg, gpr sz rex (extend_number (rex_bit rex 0) rm), bs)
          else
            do { (base, index, bs) \<leftarrow>
                   (if rm = 4 then
                      (case bs of
                         [] \<Rightarrow> None
                       | s # bs \<Rightarrow>
                           let i = extend_number (rex_bit rex 1) (drop_bit 3 s) in
                           if s AND 7 = 5 \<and> mode = 0 then None
                           else Some (extend_number (rex_bit rex 0) s,
                                  if i = 4 then None else Some (i, 2 ^ unat (drop_bit 6 s)), bs))
                    else if rm = 5 \<and> mode = 0 then None
                    else Some (extend_number (rex_bit rex 0) rm, None, bs));
                 (disp, bs) \<leftarrow>
                   (if mode = 0 then Some (0, bs) else if mode = 1 then immediate 1 bs else immediate 4 bs);
                 Some (reg, Mem sz base index disp, bs) })"

section \<open>Instructions from bytes\<close>

definition binary_of :: "byte \<Rightarrow> binary option" where
  "binary_of opcode =
     (if opcode = 0x00 then Some Add else if opcode = 0x08 then Some Or else if opcode = 0x20 then Some And
      else if opcode = 0x28 then Some Sub else if opcode = 0x30 then Some Xor else if opcode = 0x38 then Some Cmp
      else if opcode = 0x84 then Some Test else if opcode = 0x88 then Some Mov else None)"

definition unary_of :: "nat \<Rightarrow> unary option" where
  "unary_of digit = (if digit = 2 then Some Not else if digit = 3 then Some Neg else if digit = 6 then Some Div
     else if digit = 7 then Some Idiv else None)"

definition decode_two_byte :: "bool \<Rightarrow> byte option \<Rightarrow> byte \<Rightarrow> byte list \<Rightarrow> (insn \<times> byte list) option" where
  "decode_two_byte p66 rex opcode bs =
     (if opcode AND 0xF0 = 0x80 then
        do { (d, bs) \<leftarrow> immediate 4 bs; Some (Branch (opcode AND 0x0F) d, bs) }
      else if opcode AND 0xF0 = 0x90 then
        do { (_, rm, bs) \<leftarrow> decode_rm rex 1 bs; Some (Set (opcode AND 0x0F) rm, bs) }
      else
        let sz = size_of False p66 rex in
        if opcode = 0xAF then
          do { (r, rm, bs) \<leftarrow> decode_rm rex sz bs; Some (Binary Imul (gpr sz rex r) rm, bs) }
        else if opcode \<in> {0xB6, 0xB7, 0xBE, 0xBF} then
          do { (r, rm, bs) \<leftarrow> decode_rm rex (if bit opcode 0 then 2 else 1) bs;
               Some (Extend (bit opcode 3) (gpr sz rex r) rm, bs) }
        else None)"

definition decode_vex :: "byte list \<Rightarrow> (insn \<times> byte list) option" where
  "decode_vex bs =
     (case bs of
        v1 # v2 # opcode # bs \<Rightarrow>
          if v1 AND 0x1F = 2 \<and> \<not> bit v2 2 \<and> opcode = 0xF7 then
            let sz = (if bit v2 7 then 8 else 4);
                rex = Some (0x40 OR (if bit v1 7 then 0 else 4) OR (if bit v1 6 then 0 else 2) OR (if bit v1 5 then 0 else 1))
            in do { (r, rm, bs) \<leftarrow> decode_rm rex sz bs;
                    k \<leftarrow> (if v2 AND 3 = 1 then Some Shl else if v2 AND 3 = 3 then Some Shr
                         else if v2 AND 3 = 2 then Some Sar else None);
                    Some (Shift k (gpr sz rex r) rm (gpr sz rex (15 - unat (drop_bit 3 v2 AND 15))), bs) }
          else None
      | _ \<Rightarrow> None)"

definition decode_one_byte :: "bool \<Rightarrow> byte option \<Rightarrow> byte \<Rightarrow> byte list \<Rightarrow> (insn \<times> byte list) option" where
  "decode_one_byte p66 rex opcode bs =
     (let byte = \<not> bit opcode 0; sz = size_of byte p66 rex in
      if binary_of (opcode AND 0xFE) \<noteq> None then
        do { (r, rm, bs) \<leftarrow> decode_rm rex sz bs;
             f \<leftarrow> binary_of (opcode AND 0xFE);
             Some (Binary f rm (gpr sz rex r), bs) }
      else if opcode AND 0xFE = 0x8A then
        do { (r, rm, bs) \<leftarrow> decode_rm rex sz bs; Some (Binary Mov (gpr sz rex r) rm, bs) }
      else if opcode = 0x63 \<and> rex_bit rex 3 then
        do { (r, rm, bs) \<leftarrow> decode_rm rex 4 bs; Some (Extend True (gpr 8 rex r) rm, bs) }
      else if opcode AND 0xF0 = 0xB0 then
        (let sz = size_of (\<not> bit opcode 3) p66 rex in
         do { (v, bs) \<leftarrow> immediate sz bs;
              Some (Immediate Mov (gpr sz rex (extend_number (rex_bit rex 0) opcode)) v, bs) })
      else if opcode = 0xC7 then
        do { (r, rm, bs) \<leftarrow> decode_rm rex sz bs;
             (v, bs) \<leftarrow> immediate (min 4 sz) bs;
             if r = 0 then Some (Immediate Mov rm v, bs) else None }
      else if opcode \<in> {0x80, 0x81, 0x83} then
        do { (r, rm, bs) \<leftarrow> decode_rm rex sz bs;
             (v, bs) \<leftarrow> immediate (if opcode = 0x81 then min 4 sz else 1) bs;
             if r = 0 then Some (Immediate Add rm v, bs) else None }
      else if opcode \<in> {0x69, 0x6B} then
        (let sz = size_of False p66 rex in
         do { (r, rm, bs) \<leftarrow> decode_rm rex sz bs;
              (v, bs) \<leftarrow> immediate (if opcode = 0x69 then min 4 sz else 1) bs;
              Some (Multiply (gpr sz rex r) rm v, bs) })
      else if opcode AND 0xFE = 0xF6 then
        do { (r, rm, bs) \<leftarrow> decode_rm rex sz bs;
             f \<leftarrow> unary_of r;
             Some (Unary f rm, bs) }
      else if opcode = 0xEB then do { (d, bs) \<leftarrow> immediate 1 bs; Some (Jump d, bs) }
      else if opcode = 0xE9 then do { (d, bs) \<leftarrow> immediate 4 bs; Some (Jump d, bs) }
      else if opcode AND 0xF0 = 0x70 then do { (d, bs) \<leftarrow> immediate 1 bs; Some (Branch (opcode AND 0x0F) d, bs) }
      else if opcode = 0xFF then
        do { (r, rm, bs) \<leftarrow> decode_rm rex 8 bs; if r = 2 then Some (Call rm, bs) else None }
      else if opcode = 0x99 \<and> rex_bit rex 3 then Some (SignRax, bs)
      else if opcode = 0xC3 then Some (Ret, bs)
      else None)"

definition decode_opcode :: "bool \<Rightarrow> byte option \<Rightarrow> byte \<Rightarrow> byte list \<Rightarrow> (insn \<times> byte list) option" where
  "decode_opcode p66 rex opcode bs =
     (if opcode = 0x0F then (case bs of [] \<Rightarrow> None | opcode # bs \<Rightarrow> decode_two_byte p66 rex opcode bs)
      else if opcode = 0xC4 then (if rex = None \<and> \<not> p66 then decode_vex bs else None)
      else decode_one_byte p66 rex opcode bs)"

definition decode :: "byte list \<Rightarrow> (insn \<times> byte list) option" where
  "decode bs =
     (let (p66, bs) = (case bs of b # r \<Rightarrow> if b = 0x66 then (True, r) else (False, bs) | [] \<Rightarrow> (False, bs));
          (rex, bs) = (case bs of b # r \<Rightarrow> if b AND 0xF0 = 0x40 then (Some b, r) else (None, bs) | [] \<Rightarrow> (None, bs))
      in case bs of [] \<Rightarrow> None | opcode # bs \<Rightarrow> decode_opcode p66 rex opcode bs)"

end
