(* ===== verification/AssemblerCorrect.thy ===== *)
theory AssemblerCorrect
  imports Assembler X64
begin

text \<open>
  The bytes of the assembler (theory Assembler) are the instructions that were meant (theory X64).
\<close>

section \<open>Fields\<close>

definition reg_ok :: "reg \<Rightarrow> bool" where
  "reg_ok r \<longleftrightarrow> fst r < 16 \<and> snd r \<in> {1, 2, 4, 8}"

lemma below_16: "n < 16 \<longleftrightarrow> (n :: nat) \<in> {0, 1, 2, 3, 4, 5, 6, 7, 8, 9, 10, 11, 12, 13, 14, 15}"
  by (auto simp: eval_nat_numeral less_Suc_eq)

lemma low3_cases: "fst r < 16 \<Longrightarrow> low3 r \<in> {0, 1, 2, 3, 4, 5, 6, 7}"
  by (auto simp: below_16 low3_def)

lemma number_of_fields: "fst r < 16 \<Longrightarrow> extend_number (high r) (low3 r) = fst r"
  by (auto simp: below_16 extend_number_def high_def low3_def)

lemma low3_fields:
  assumes "fst r < 16"
  shows "low3 r = 4 \<longleftrightarrow> fst r AND 7 = 4" "low3 r = 5 \<longleftrightarrow> fst r AND 7 = 5" "\<not> high r \<Longrightarrow> fst r AND 7 = fst r" "\<not> high r \<longleftrightarrow> fst r < 8"
  using assms by (auto simp: below_16 low3_def high_def)

lemma field_bit: "(a :: byte) AND 7 = a \<Longrightarrow> bit a k \<Longrightarrow> k < 3"
proof -
  assume a: "a AND 7 = a" "bit a k"
  have "a AND mask 3 = a" using a(1) by (simp add: mask_eq_exp_minus_1)
  then have "bit (a AND mask 3) k" using a(2) by simp
  then show ?thesis by (simp add: bit_simps)
qed

lemma modrm_fields:
  assumes "a AND 7 = a" "b AND 7 = b" "m AND 0x3F = 0"
  shows "drop_bit 6 (modrm m a b) = drop_bit 6 m" "drop_bit 3 (modrm m a b) AND 7 = a" "modrm m a b AND 7 = b"
proof -
  have m: "\<not> bit m k" if "k < 6" for k
  proof -
    have "\<not> bit (m AND mask 6) k" using assms(3) by (simp add: mask_eq_exp_minus_1)
    then show ?thesis using that by (simp add: bit_simps)
  qed
  note ab = field_bit [OF assms(1)] field_bit [OF assms(2)]
  have seven: "(7 :: byte) = mask 3" by (simp add: mask_eq_exp_minus_1)
  show "drop_bit 6 (modrm m a b) = drop_bit 6 m"
    by (rule bit_word_eqI) (auto simp: modrm_def bit_simps dest: ab)
  show "drop_bit 3 (modrm m a b) AND 7 = a" unfolding seven
    by (rule bit_word_eqI) (auto simp: modrm_def bit_simps m dest: ab)
  show "modrm m a b AND 7 = b" unfolding seven
    by (rule bit_word_eqI) (auto simp: modrm_def bit_simps m dest: ab)
qed

lemma rex_fields [simp]:
  "rex_byte w r x b AND 0xF0 = 0x40" "bit (rex_byte w r x b) 3 = w" "bit (rex_byte w r x b) 2 = r"
  "bit (rex_byte w r x b) (Suc 0) = x" "bit (rex_byte w r x b) 0 = b" "rex_byte w r x b \<noteq> 0x66"
  by (cases w; cases r; cases x; cases b; simp add: rex_byte_def bit_simps)+

lemma and7_low3 [simp]: "low3 r AND 7 = low3 r"
proof -
  have "(7 :: byte) = mask 3" "(7 :: nat) = mask 3" by (simp_all add: mask_eq_exp_minus_1)
  show ?thesis unfolding low3_def \<open>(7 :: byte) = mask 3\<close> \<open>(7 :: nat) = mask 3\<close>
    by (rule bit_word_eqI) (auto simp: bit_simps)
qed

section \<open>Prefixes\<close>

lemma decode_prefixes:
  assumes "opcode \<noteq> 0x66" "opcode AND 0xF0 \<noteq> 0x40"
  shows "decode (optional p [0x66] @ optional q [rex_byte w r x b] @ opcode # bs) =
    decode_opcode p (if q then Some (rex_byte w r x b) else None) opcode bs"
  using assms by (cases p; cases q) (simp_all add: decode_def optional_def)

lemma rex_bits:
  assumes "rex = (if q then Some (rex_byte w r x b) else None)" "w \<or> r \<or> x \<or> b \<Longrightarrow> q"
  shows "rex_bit rex 3 = w" "rex_bit rex 2 = r" "rex_bit rex (Suc 0) = x" "rex_bit rex 0 = b" "rex = None \<longleftrightarrow> \<not> q"
  using assms by (auto simp: rex_bit_def)

lemma gpr_reg: "(sz = 1 \<Longrightarrow> 4 \<le> n \<Longrightarrow> rex \<noteq> None) \<Longrightarrow> gpr sz rex n = Reg sz n"
  by (auto simp: gpr_def)

lemma decode_rm_register:
  assumes "a AND 7 = a" "b AND 7 = b"
  shows "decode_rm rex sz (modrm 0xC0 a b # rest) =
    Some (extend_number (rex_bit rex 2) a, gpr sz rex (extend_number (rex_bit rex 0) b), rest)"
proof -
  have "(0xC0 :: byte) AND 0x3F = 0" by simp
  note f = modrm_fields [OF assms this]
  have "extend_number e (drop_bit 3 (modrm 0xC0 a b)) = extend_number e a" for e
    using f(2) assms(1) by (simp add: extend_number_def)
  then show ?thesis using f(1,3) by (simp add: decode_rm_def)
qed

section \<open>Registers\<close>

definition operand_of :: "reg \<Rightarrow> operand" where "operand_of r = Reg (snd r) (fst r)"

lemma number_and7: "n AND 7 = n mod (8 :: nat)"
proof -
  have "n AND mask 3 = n mod 2 ^ 3" by (simp add: take_bit_eq_mod flip: take_bit_eq_mask)
  then show ?thesis by (simp add: mask_eq_exp_minus_1)
qed

lemma needs_rex: "fst r < 16 \<Longrightarrow> 4 \<le> fst r \<Longrightarrow> high r \<or> 4 \<le> fst r AND 7"
  using low3_fields(4) [of r] by (simp add: number_and7) (metis mod_less)

lemma decode_print_binary:
  assumes "reg_ok r1" "reg_ok r2" "snd r1 = snd r2" "binary_of opcode = Some f"
  shows "decode (print_binary r1 r2 opcode @ rest) = Some (Binary f (operand_of r1) (operand_of r2), rest)"
proof -
  let ?w = "snd r1 = 8 \<or> snd r2 = 8"
  let ?q = "high r1 \<or> high r2 \<or> snd r1 = 1 \<and> 4 \<le> fst r1 AND 7 \<or> snd r2 = 1 \<and> 4 \<le> fst r2 AND 7 \<or> ?w"
  define rex where "rex = (if ?q then Some (rex_byte ?w (high r2) False (high r1)) else None)"
  let ?op = "if snd r1 = 1 then opcode else opcode + 1"
  have op: "?op \<noteq> 0x66" "?op AND 0xF0 \<noteq> 0x40" "?op \<noteq> 0x0F" "?op \<noteq> 0xC4" "?op AND 0xFE = opcode" "bit ?op 0 \<longleftrightarrow> snd r1 \<noteq> 1"
    using assms(4) by (auto simp: binary_of_def split: if_splits)
  have n: "fst r1 < 16" "fst r2 < 16" and s: "snd r1 \<in> {1, 2, 4, 8}" using assms(1,2) by (auto simp: reg_ok_def)
  have "?w \<or> high r2 \<or> False \<or> high r1 \<Longrightarrow> ?q" by blast
  note bits = rex_bits [OF rex_def this]
  have g: "gpr (snd r1) rex (fst r1) = operand_of r1" "gpr (snd r1) rex (fst r2) = operand_of r2"
    using needs_rex [OF n(1)] needs_rex [OF n(2)] assms(3) bits(5) by (auto simp: operand_of_def intro!: gpr_reg)
  have sz: "size_of (snd r1 = 1) (snd r1 = 2) rex = snd r1" using bits(1) assms(3) s by (auto simp: size_of_def)
  have "decode (print_binary r1 r2 opcode @ rest) =
      decode_opcode (snd r1 = 2) rex ?op (modrm 0xC0 (low3 r2) (low3 r1) # rest)"
    unfolding rex_def using decode_prefixes [OF op(1,2)] by (simp add: print_binary_def Let_def)
  also have "\<dots> = Some (Binary f (operand_of r1) (operand_of r2), rest)"
    using op(3-6) assms(4) sz g bits number_of_fields [OF n(1)] number_of_fields [OF n(2)]
    by (simp add: decode_opcode_def decode_one_byte_def decode_rm_register Let_def)
  finally show ?thesis .
qed

text \<open>A product of bytes is taken on 16 bits.\<close>

lemma decode_print_imul:
  assumes "reg_ok r1" "reg_ok r2" "snd r1 = snd r2"
  shows "decode (print_imul r1 r2 @ rest) =
    Some (Binary Imul (Reg (max 2 (snd r2)) (fst r2)) (Reg (max 2 (snd r1)) (fst r1)), rest)"
proof -
  let ?w = "snd r1 = 8 \<or> snd r2 = 8"
  let ?q = "high r1 \<or> high r2 \<or> snd r1 = 1 \<and> 4 \<le> fst r1 AND 7 \<or> snd r2 = 1 \<and> 4 \<le> fst r2 AND 7 \<or> ?w"
  define rex where "rex = (if ?q then Some (rex_byte ?w (high r2) False (high r1)) else None)"
  have n: "fst r1 < 16" "fst r2 < 16" and s: "snd r1 \<in> {1, 2, 4, 8}" using assms(1,2) by (auto simp: reg_ok_def)
  have "?w \<or> high r2 \<or> False \<or> high r1 \<Longrightarrow> ?q" by blast
  note bits = rex_bits [OF rex_def this]
  have sz: "size_of False (snd r1 \<le> 2) rex = max 2 (snd r1)" using bits(1) assms(3) s by (auto simp: size_of_def)
  have g: "gpr (max 2 (snd r1)) rex k = Reg (max 2 (snd r1)) k" for k by (rule gpr_reg) auto
  have "(0x0F :: byte) \<noteq> 0x66" "(0x0F :: byte) AND 0xF0 \<noteq> 0x40" by simp_all
  note decode_prefixes [OF this]
  then have "decode (print_imul r1 r2 @ rest) =
      decode_opcode (snd r1 \<le> 2) rex 0x0F (0xAF # modrm 0xC0 (low3 r2) (low3 r1) # rest)"
    by (simp add: print_imul_def Let_def rex_def)
  also have "\<dots> = Some (Binary Imul (Reg (max 2 (snd r2)) (fst r2)) (Reg (max 2 (snd r1)) (fst r1)), rest)"
    using bits sz g assms(3) number_of_fields [OF n(1)] number_of_fields [OF n(2)]
    by (simp add: decode_opcode_def decode_two_byte_def decode_rm_register Let_def)
  finally show ?thesis .
qed

text \<open>
  Extensions. From 32 to 64 bits without sign, a move to the lower half, which clears the upper one. From 16 to 32
  bits the code has a prefix too much, which makes the destination one of 16 bits.
\<close>

definition extension_of :: "bool \<Rightarrow> reg \<Rightarrow> reg \<Rightarrow> insn" where
  "extension_of zero r1 r2 =
     (if zero \<and> snd r2 = 4 then Binary Mov (Reg 4 (fst r1)) (operand_of r2)
      else Extend (\<not> zero) (operand_of r1) (operand_of r2))"

definition emitted_extension :: "bool \<Rightarrow> reg \<Rightarrow> reg \<Rightarrow> insn" where
  "emitted_extension zero r1 r2 =
     extension_of zero (if snd r2 = 2 \<and> snd r1 = 4 then (fst r1, 2) else r1) r2"

lemma emitted_extension_simp:
  "(snd r2, snd r1) \<noteq> (2, 4) \<Longrightarrow> emitted_extension zero r1 r2 = extension_of zero r1 r2"
  by (auto simp: emitted_extension_def)

lemma decode_print_extend:
  assumes "reg_ok r1" "reg_ok r2" "snd r2 < snd r1"
  shows "decode (print_extend zero r1 r2 @ rest) = Some (emitted_extension zero r1 r2, rest)"
proof -
  let ?w = "snd r1 = 8 \<or> snd r2 = 8"
  let ?q = "high r1 \<or> high r2 \<or> snd r1 = 1 \<and> 4 \<le> fst r1 AND 7 \<or> snd r2 = 1 \<and> 4 \<le> fst r2 AND 7 \<or> ?w"
  define rex where "rex = (if ?q then Some (rex_byte ?w (high r1) False (high r2)) else None)"
  have n: "fst r1 < 16" "fst r2 < 16" and s: "snd r1 \<in> {2, 4, 8}" "snd r2 \<in> {1, 2, 4}"
    using assms by (auto simp: reg_ok_def)
  have "?w \<or> high r1 \<or> False \<or> high r2 \<Longrightarrow> ?q" by blast
  note bits = rex_bits [OF rex_def this]
  note num = number_of_fields [OF n(1)] number_of_fields [OF n(2)]
  have g: "gpr (snd r2) rex (fst r2) = operand_of r2"
    using needs_rex [OF n(2)] bits(5) by (auto simp: operand_of_def intro!: gpr_reg)
  have g1: "sz \<noteq> 1 \<Longrightarrow> gpr sz rex k = Reg sz k" for sz k by (rule gpr_reg) auto
  have w: "rex_bit rex 3 \<longleftrightarrow> snd r1 = 8" using bits(1) s(2) by auto
  have pre: "decode (optional p [0x66] @ optional ?q [rex_byte ?w (high r1) False (high r2)] @ 0x0F # bs) =
      decode_opcode p rex 0x0F bs" for p bs
    unfolding rex_def by (rule decode_prefixes) simp_all
  consider "snd r2 = 1" | "snd r2 = 2" | "snd r2 = 4" "snd r1 = 8" using s assms(3) by auto
  then show ?thesis
  proof cases
    case 1
    have "decode (print_extend zero r1 r2 @ rest) =
        decode_opcode (snd r1 = 2) rex 0x0F ((if zero then 0xB6 else 0xBE) # modrm 0xC0 (low3 r1) (low3 r2) # rest)"
      using pre [of "snd r1 = 2"] 1 by (simp add: print_extend_def Let_def)
    moreover have "gpr 1 rex (fst r2) = Reg 1 (fst r2)" using g 1 by (simp add: operand_of_def)
    ultimately show ?thesis using bits num w g1 s(1) 1
      by (auto simp: decode_opcode_def decode_two_byte_def decode_rm_register size_of_def emitted_extension_def extension_of_def operand_of_def
          Let_def)
  next
    case 2
    have "decode (print_extend zero r1 r2 @ rest) =
        decode_opcode True rex 0x0F ((if zero then 0xB7 else 0xBF) # modrm 0xC0 (low3 r1) (low3 r2) # rest)"
      using pre [of True] 2 by (simp add: print_extend_def Let_def optional_def)
    then show ?thesis using bits num w g1 s(1) 2 assms(3)
      by (auto simp: decode_opcode_def decode_two_byte_def decode_rm_register size_of_def emitted_extension_def extension_of_def operand_of_def
          Let_def)
  next
    case 3
    show ?thesis
    proof (cases zero)
      case True
      have "reg_ok (fst r1, 4)" "binary_of 0x88 = Some Mov" using n(1) by (simp_all add: reg_ok_def binary_of_def)
      then show ?thesis
        using decode_print_binary [of "(fst r1, 4)" r2 "0x88" Mov rest] assms(2) 3 True
        by (simp add: print_extend_def Let_def emitted_extension_def extension_of_def operand_of_def)
    next
      case False
      let ?rex = "rex_byte True (high r1) False (high r2)"
      have rex: "rex = Some ?rex" using 3 by (simp add: rex_def)
      have "decode (print_extend zero r1 r2 @ rest) =
          decode_opcode False rex 0x63 (modrm 0xC0 (low3 r1) (low3 r2) # rest)"
        using decode_prefixes [of "0x63" False True] 3 False rex by (simp add: print_extend_def Let_def optional_def)
      then show ?thesis using bits num w g1 3 False
        by (simp add: decode_opcode_def decode_one_byte_def binary_of_def decode_rm_register emitted_extension_def extension_of_def operand_of_def
            Let_def)
    qed
  qed
qed

definition meaning2 :: "asm_operation2 \<Rightarrow> reg \<Rightarrow> reg \<Rightarrow> insn" where
  "meaning2 op r1 r2 =
     (case op of
        ASM_MOV \<Rightarrow> Binary Mov (operand_of r1) (operand_of r2)
      | ASM_MOVZX \<Rightarrow> extension_of True r1 r2
      | ASM_MOVSX \<Rightarrow> extension_of False r1 r2
      | ASM_XOR \<Rightarrow> Binary Xor (operand_of r1) (operand_of r2)
      | ASM_AND \<Rightarrow> Binary And (operand_of r1) (operand_of r2)
      | ASM_OR \<Rightarrow> Binary Or (operand_of r1) (operand_of r2)
      | ASM_ADD \<Rightarrow> Binary Add (operand_of r1) (operand_of r2)
      | ASM_SUB \<Rightarrow> Binary Sub (operand_of r1) (operand_of r2)
      | ASM_IMUL \<Rightarrow> Binary Imul (Reg (max 2 (snd r1)) (fst r1)) (Reg (max 2 (snd r2)) (fst r2))
      | ASM_TEST \<Rightarrow> Binary Test (operand_of r2) (operand_of r1)
      | ASM_CMP \<Rightarrow> Binary Cmp (operand_of r1) (operand_of r2))"

lemma decode_printRR:
  assumes "reg_ok r1" "reg_ok r2"
    "if op = ASM_MOVZX \<or> op = ASM_MOVSX then snd r2 < snd r1 \<and> (snd r2, snd r1) \<noteq> (2, 4) else snd r1 = snd r2"
  shows "decode (printRR op r1 r2 @ rest) = Some (meaning2 op r1 r2, rest)"
  using assms decode_print_extend [OF assms(1,2), of _ rest]
    decode_print_binary [OF assms(1,2), of _ _ rest] decode_print_binary [OF assms(2,1), of _ _ rest]
    decode_print_imul [OF assms(2,1), of rest]
  by (cases op) (simp_all add: printRR_def meaning2_def binary_of_def emitted_extension_simp)

text \<open>The extension that goes wrong.\<close>

lemma decode_wrong_extension:
  assumes "reg_ok r1" "reg_ok r2" "op = ASM_MOVZX \<or> op = ASM_MOVSX" "snd r2 = 2" "snd r1 = 4"
  shows "decode (printRR op r1 r2 @ rest) = Some (Extend (op = ASM_MOVSX) (Reg 2 (fst r1)) (operand_of r2), rest)"
  using assms(3-5) decode_print_extend [OF assms(1,2), of _ rest]
  by (auto simp: printRR_def emitted_extension_def extension_of_def operand_of_def)

section \<open>One operand\<close>

definition meaning1 :: "asm_operation1 \<Rightarrow> reg \<Rightarrow> insn" where
  "meaning1 op r =
     (case op of
        ASM_NEG \<Rightarrow> Unary Neg (operand_of r) | ASM_NOT \<Rightarrow> Unary Not (operand_of r)
      | ASM_DIV \<Rightarrow> Unary Div (operand_of r) | ASM_IDIV \<Rightarrow> Unary Idiv (operand_of r)
      | ASM_SETE \<Rightarrow> Set 4 (operand_of r) | ASM_SETNE \<Rightarrow> Set 5 (operand_of r)
      | ASM_SETL \<Rightarrow> Set 12 (operand_of r) | ASM_SETLE \<Rightarrow> Set 14 (operand_of r)
      | ASM_SETG \<Rightarrow> Set 15 (operand_of r) | ASM_SETGE \<Rightarrow> Set 13 (operand_of r)
      | ASM_SETA \<Rightarrow> Set 7 (operand_of r) | ASM_SETAE \<Rightarrow> Set 3 (operand_of r)
      | ASM_SETB \<Rightarrow> Set 2 (operand_of r) | ASM_SETBE \<Rightarrow> Set 6 (operand_of r))"

lemma decode_printR:
  assumes "reg_ok r" "op \<notin> {ASM_NEG, ASM_NOT, ASM_DIV, ASM_IDIV} \<Longrightarrow> snd r = 1"
  shows "decode (printR op r @ rest) = Some (meaning1 op r, rest)"
proof -
  let ?w = "snd r = 8"
  let ?q = "high r \<or> snd r = 1 \<and> 4 \<le> fst r AND 7 \<or> ?w"
  define rex where "rex = (if ?q then Some (rex_byte ?w False False (high r)) else None)"
  have n: "fst r < 16" and s: "snd r \<in> {1, 2, 4, 8}" using assms by (auto simp: reg_ok_def)
  have "?w \<or> False \<or> False \<or> high r \<Longrightarrow> ?q" by blast
  note bits = rex_bits [OF rex_def this]
  have g: "gpr (snd r) rex (fst r) = operand_of r"
    using needs_rex [OF n] bits(5) by (auto simp: operand_of_def intro!: gpr_reg)
  have sz: "size_of (snd r = 1) (snd r = 2) rex = snd r" using bits(1) s by (auto simp: size_of_def)
  note rm = decode_rm_register [of _ "low3 r" rex _ rest]
  have group: "decode (optional (snd r = 2) [0x66] @ optional ?q [rex_byte ?w False False (high r)] @
      (if snd r = 1 then 0xF6 else 0xF7) # modrm 0xC0 d (low3 r) # rest) = Some (Unary f (operand_of r), rest)"
    if d: "d \<in> {2, 3, 6, 7}" and f: "unary_of (unat d) = Some f" for d f
  proof -
    let ?op = "if snd r = 1 then 0xF6 else 0xF7 :: byte"
    have op: "?op \<noteq> 0x66" "?op AND 0xF0 \<noteq> 0x40" by auto
    have e: "d AND 7 = d" "extend_number False d = unat d" using d by (auto simp: extend_number_def)
    have "bit ?op 0 \<longleftrightarrow> snd r \<noteq> 1" by simp
    then have "decode_opcode (snd r = 2) rex ?op (modrm 0xC0 d (low3 r) # rest) = Some (Unary f (operand_of r), rest)"
      using rm [OF e(1)] e(2) f bits(2,4) g sz number_of_fields [OF n]
      by (auto simp: decode_opcode_def decode_one_byte_def binary_of_def Let_def)
    then show ?thesis unfolding decode_prefixes [OF op] rex_def .
  qed
  have set: "decode (optional ?q [rex_byte ?w False False (high r)] @ 0x0F # c # modrm 0xC0 0 (low3 r) # rest) =
      Some (Set (c AND 0x0F) (operand_of r), rest)" if c: "c AND 0xF0 = 0x90" and one: "snd r = 1" for c
  proof -
    have "decode_opcode False rex 0x0F (c # modrm 0xC0 0 (low3 r) # rest) = Some (Set (c AND 0x0F) (operand_of r), rest)"
      using rm [of 0] c bits(2,4) g one number_of_fields [OF n]
      by (simp add: decode_opcode_def decode_two_byte_def operand_of_def)
    moreover have "(0x0F :: byte) \<noteq> 0x66" "(0x0F :: byte) AND 0xF0 \<noteq> 0x40" by simp_all
    ultimately show ?thesis using decode_prefixes [of "0x0F" False ?q] unfolding rex_def by (simp add: optional_def)
  qed
  show ?thesis
    using group [of 3] group [of 2] group [of 6] group [of 7] set assms(2)
    by (cases op) (simp_all add: printR_def meaning1_def unary_of_def Let_def)
qed

section \<open>Immediates\<close>

lemma signed_word_of_int:
  assumes "signed_take_bit n k = k" "n < 64"
  shows "signed_take_bit n (word_of_int k :: i64) = word_of_int k"
proof -
  have "bit (signed_take_bit n k) i = bit k (min n i)" for i by (simp add: bit_signed_take_bit_iff)
  then have "bit k (min n i) = bit k i" for i using assms(1) by simp
  then show ?thesis using assms(2) by (intro bit_word_eqI) (auto simp: bit_signed_take_bit_iff bit_word_of_int_iff)
qed

lemma signed_small:
  assumes "- (2 ^ n) \<le> sint v" "sint v < 2 ^ n" "n < 64"
  shows "signed_take_bit n (v :: i64) = v"
  using signed_word_of_int [OF signed_take_bit_int_eq_self [OF assms(1,2)] assms(3)] by simp

lemma fits_int8: "is_int8 v \<Longrightarrow> sign_extend 8 v = v"
  by (auto simp: is_int8_def sign_extend_def word_sle_eq intro!: signed_small)

lemma within_int8:
  assumes "sign_extend 8 v = v"
  shows "is_int8 v"
proof -
  define k where "k = signed_take_bit 7 (uint v)"
  have k: "- 128 \<le> k" "k < 128"
    using signed_take_bit_int_greater_eq_minus_exp [of 7 "uint v"] signed_take_bit_int_less_exp [of 7 "uint v"]
    by (simp_all add: k_def)
  have "word_of_int k = signed_take_bit 7 v"
    unfolding k_def by (rule bit_word_eqI) (auto simp: bit_simps min_def)
  then have "v = word_of_int k" using assms by (simp add: sign_extend_def)
  moreover have "sint (word_of_int k :: i64) = k"
    using k by (subst signed_of_int) (simp add: signed_take_bit_int_eq_self)
  ultimately show ?thesis using k by (simp add: is_int8_def word_sle_eq)
qed

lemma fits_int32: "is_int32 v \<Longrightarrow> sign_extend 32 v = v"
  by (auto simp: is_int32_def sign_extend_def word_sle_eq intro!: signed_small)

lemma fits_int64: "sign_extend 64 v = v"
  unfolding sign_extend_def by (rule signed_small) (use sint_ge [of v] sint_lt [of v] in simp_all)

lemma immediate_le_bytes: "0 < n \<Longrightarrow> immediate n (le_bytes n v @ bs) = Some (sign_extend (8 * n) v, bs)"
proof -
  assume n: "0 < n"
  have "sign_extend (8 * n) (take_bit (8 * n) v) = sign_extend (8 * n) v"
    using n unfolding sign_extend_def by (intro bit_word_eqI) (auto simp: bit_simps min_def)
  then show ?thesis by (simp add: immediate_def le_word_le_bytes_take)
qed

lemma immediate_byte: "immediate (Suc 0) (ucast v # bs) = Some (sign_extend 8 v, bs)"
  using immediate_le_bytes [of 1 v bs] by simp

section \<open>Addresses\<close>

lemma modrm_mode: "drop_bit 6 (modrm (push_bit 6 m) a b) = take_bit 2 m" if "a AND 7 = a" "b AND 7 = b"
proof -
  have "push_bit 6 m AND (0x3F :: byte) = 0"
  proof -
    have "push_bit 6 m AND (mask 6 :: byte) = 0" by (rule bit_word_eqI) (auto simp: bit_simps)
    then show ?thesis by (simp add: mask_eq_exp_minus_1)
  qed
  then have "drop_bit 6 (modrm (push_bit 6 m) a b) = drop_bit 6 (push_bit 6 m)" by (rule modrm_fields(1) [OF that])
  also have "\<dots> = take_bit 2 m" by (rule bit_word_eqI) (auto simp: bit_simps)
  finally show ?thesis .
qed

lemma low3_number: "fst r < 16 \<Longrightarrow> extend_number e (drop_bit 3 (modrm m (low3 r) b)) =
    unat (low3 r) + (if e then 8 else 0)" if "b AND 7 = b" "m AND 0x3F = 0"
  using modrm_fields(2) [OF and7_low3 [of r] that] by (simp add: extend_number_def)

lemma decode_rm_address:
  assumes n: "fst r < 16" "fst base < 16" and rex: "rex_bit rex 2 = high r" "rex_bit rex 0 = high base" "\<not> rex_bit rex (Suc 0)"
    and off: "is_int32 offset"
  shows "decode_rm rex sz (print_address r base offset @ rest) = Some (fst r, Mem sz (fst base) None offset, rest)"
proof -
  have zeros: "(0x00 :: byte) AND 0x3F = 0" "(0x40 :: byte) AND 0x3F = 0" "(0x80 :: byte) AND 0x3F = 0" by simp_all
  note m = modrm_fields [OF and7_low3 [of r] and7_low3 [of base]]
  have num: "unat (low3 r) + (if high r then 8 else 0) = fst r" "extend_number (high base) (low3 base) = fst base"
    using number_of_fields [OF n(1)] number_of_fields [OF n(2)] by (simp_all add: extend_number_def)
  have reg: "extend_number (high r) (drop_bit 3 (modrm k (low3 r) (low3 base))) = fst r" if "k AND 0x3F = 0" for k
    using low3_number [OF and7_low3 [of base] that n(1), of "high r"] num(1) by simp
  have four: "(4 :: byte) AND 7 = 4" by simp
  have sib: "modrm 0 4 (low3 base) AND 7 = low3 base" "extend_number False (drop_bit 3 (modrm 0 4 (low3 base))) = 4"
    using modrm_fields(2,3) [OF four and7_low3 [of base] zeros(1)] by (simp_all add: extend_number_def)
  have base: "extend_number (high base) (modrm 0 4 (low3 base)) = fst base"
    using num(2) sib(1) by (simp add: extend_number_def)
  note l3 = low3_fields(1,2) [OF n(2)]
  have fit8: "is_int8 offset \<Longrightarrow> sign_extend 8 offset = offset" and fit32: "sign_extend 32 offset = offset"
    using fits_int8 fits_int32 [OF off] by auto
  have imm: "immediate 4 (le_bytes 4 offset @ bs) = Some (offset, bs)" for bs
    using immediate_le_bytes [of 4 offset bs] fit32 by (simp del: le_bytes_numeral)
  have zero: "is_int8 0" by (simp add: is_int8_def word_sle_eq)
  consider "offset = 0" "fst base AND 7 \<noteq> 5" | "\<not> (offset = 0 \<and> fst base AND 7 \<noteq> 5)" "is_int8 offset"
    | "offset \<noteq> 0" "\<not> is_int8 offset"
    using zero by blast
  then show ?thesis
  proof cases
    case 1
    then show ?thesis using rex m zeros reg [OF zeros(1)] sib base num l3
      by (auto simp: print_address_def decode_rm_def optional_def Let_def)
  next
    case 2
    then have p: "print_address r base offset @ rest = modrm 0x40 (low3 r) (low3 base) #
        optional (fst base AND 7 = 4) [modrm 0 4 (low3 base)] @ ucast offset # rest"
      by (auto simp: print_address_def optional_def)
    have "drop_bit 6 (modrm 0x40 (low3 r) (low3 base)) = 1" using m(1) [OF zeros(2)] by simp
    then show ?thesis unfolding p using 2 rex m(3) [OF zeros(2)] reg [OF zeros(2)] sib base num l3 fit8
      by (auto simp: decode_rm_def optional_def Let_def immediate_byte)
  next
    case 3
    then have p: "print_address r base offset @ rest = modrm 0x80 (low3 r) (low3 base) #
        optional (fst base AND 7 = 4) [modrm 0 4 (low3 base)] @ le_bytes 4 offset @ rest"
      by (auto simp: print_address_def optional_def simp del: le_bytes_numeral)
    have "drop_bit 6 (modrm 0x80 (low3 r) (low3 base)) = 2" using m(1) [OF zeros(3)] by simp
    then show ?thesis unfolding p using 3 rex m(3) [OF zeros(3)] reg [OF zeros(3)] sib base num l3 imm
      by (auto simp: decode_rm_def optional_def Let_def simp del: le_bytes_numeral)
  qed
qed

text \<open>
  Of a byte that is loaded to one of the registers 4 to 7 the code forgets the prefix, unless the base needs one:
  it goes to the second byte of one of the registers 0 to 3.
\<close>

definition loaded_register :: "reg \<Rightarrow> reg \<Rightarrow> operand" where
  "loaded_register r base =
     (if snd r = 1 \<and> 4 \<le> fst r \<and> fst r < 8 \<and> fst base < 8 then High (fst r - 4) else operand_of r)"

lemma decode_printRM:
  assumes "reg_ok r" "fst base < 16" "is_int32 offset"
  shows "decode (printRM r base offset @ rest) = Some (Binary Mov (loaded_register r base) (Mem (snd r) (fst base) None offset), rest)"
proof -
  let ?w = "snd r = 8"
  let ?q = "high r \<or> high base \<or> ?w"
  define rex where "rex = (if ?q then Some (rex_byte ?w (high r) False (high base)) else None)"
  let ?op = "if snd r = 1 then 0x8A else 0x8B :: byte"
  have op: "?op \<noteq> 0x66" "?op AND 0xF0 \<noteq> 0x40" and b: "bit ?op 0 \<longleftrightarrow> snd r \<noteq> 1" by auto
  have n: "fst r < 16" and s: "snd r \<in> {1, 2, 4, 8}" using assms(1) by (auto simp: reg_ok_def)
  have "?w \<or> high r \<or> False \<or> high base \<Longrightarrow> ?q" by blast
  note bits = rex_bits [OF rex_def this]
  have sz: "size_of (snd r = 1) (snd r = 2) rex = snd r" using bits(1) s by (auto simp: size_of_def)
  have g: "gpr (snd r) rex (fst r) = loaded_register r base"
    using low3_fields(4) [OF n] low3_fields(4) [OF assms(2)] bits(5)
    by (auto simp: loaded_register_def operand_of_def gpr_def)
  note rm = decode_rm_address [OF n assms(2) bits(2,4) _ assms(3)]
  have "decode (printRM r base offset @ rest) = decode_opcode (snd r = 2) rex ?op (print_address r base offset @ rest)"
    unfolding rex_def using decode_prefixes [OF op] by (simp add: printRM_def Let_def)
  also have "\<dots> = Some (Binary Mov (loaded_register r base) (Mem (snd r) (fst base) None offset), rest)"
    using rm bits(3) b sz g by (auto simp: decode_opcode_def decode_one_byte_def binary_of_def Let_def)
  finally show ?thesis .
qed

lemma decode_printMR:
  assumes "reg_ok r" "fst base < 16" "snd base = 8" "is_int32 offset"
  shows "decode (printMR base r offset @ rest) = Some (Binary Mov (Mem (snd r) (fst base) None offset) (operand_of r), rest)"
proof -
  let ?w = "snd r = 8"
  let ?q = "high base \<or> high r \<or> ?w \<or> snd base = 1 \<and> 4 \<le> fst base \<or> snd r = 1 \<and> 4 \<le> fst r"
  define rex where "rex = (if ?q then Some (rex_byte ?w (high r) False (high base)) else None)"
  let ?op = "if snd r = 1 then 0x88 else 0x89 :: byte"
  have op: "?op \<noteq> 0x66" "?op AND 0xF0 \<noteq> 0x40" and b: "bit ?op 0 \<longleftrightarrow> snd r \<noteq> 1" by auto
  have n: "fst r < 16" and s: "snd r \<in> {1, 2, 4, 8}" using assms(1) by (auto simp: reg_ok_def)
  have "?w \<or> high r \<or> False \<or> high base \<Longrightarrow> ?q" by blast
  note bits = rex_bits [OF rex_def this]
  have sz: "size_of (snd r = 1) (snd r = 2) rex = snd r" using bits(1) s by (auto simp: size_of_def)
  have g: "gpr (snd r) rex (fst r) = operand_of r" using bits(5) by (auto simp: operand_of_def intro!: gpr_reg)
  note rm = decode_rm_address [OF n assms(2) bits(2,4) _ assms(4)]
  have "decode (printMR base r offset @ rest) = decode_opcode (snd r = 2) rex ?op (print_address r base offset @ rest)"
    unfolding rex_def using decode_prefixes [OF op] by (simp add: printMR_def Let_def)
  also have "\<dots> = Some (Binary Mov (Mem (snd r) (fst base) None offset) (operand_of r), rest)"
    using rm bits(3) b sz g by (auto simp: decode_opcode_def decode_one_byte_def binary_of_def Let_def)
  finally show ?thesis .
qed

section \<open>Elements of arrays\<close>

definition element_bytes :: "byte \<Rightarrow> reg \<Rightarrow> nat \<Rightarrow> reg \<Rightarrow> reg \<Rightarrow> byte list \<Rightarrow> byte list" where
  "element_bytes mode r k index base disp =
     modrm (push_bit 6 mode) (low3 r) 4 # modrm (push_bit 6 (scale_of k)) (low3 index) (low3 base) # disp"

lemma decode_rm_element:
  assumes n: "fst r < 16" "fst base < 16" "fst index < 16" "fst index \<noteq> 4" and k: "k \<in> {1, 2, 4, 8}"
    and rex: "rex_bit rex 2 = high r" "rex_bit rex 0 = high base" "rex_bit rex (Suc 0) = high index"
    and mode: "mode = 0 \<and> fst base AND 7 \<noteq> 5 \<and> offset = 0 \<and> disp = [] \<or> mode = 1 \<and> is_int8 offset \<and> disp = [ucast offset] \<or>
      mode = 2 \<and> is_int32 offset \<and> disp = le_bytes 4 offset"
  shows "decode_rm rex sz (element_bytes mode r k index base disp @ rest) =
    Some (fst r, Mem sz (fst base) (Some (fst index, k)) offset, rest)"
proof -
  have four: "(4 :: byte) AND 7 = 4" by simp
  have z: "push_bit 6 x AND (0x3F :: byte) = 0" for x
  proof -
    have "push_bit 6 x AND (mask 6 :: byte) = 0" by (rule bit_word_eqI) (auto simp: bit_simps)
    then show ?thesis by (simp add: mask_eq_exp_minus_1)
  qed
  note m = modrm_fields [OF and7_low3 [of r] four z] modrm_mode [OF and7_low3 [of r] four]
  note i = modrm_fields [OF and7_low3 [of index] and7_low3 [of base] z] modrm_mode [OF and7_low3 [of index] and7_low3 [of base]]
  have two: "take_bit 2 (scale_of k) = scale_of k" using k by (auto simp: scale_of_def)
  have scale: "(2 :: nat) ^ unat (scale_of k) = k" using k by (auto simp: scale_of_def)
  have num: "extend_number (high r) (drop_bit 3 (modrm (push_bit 6 mode) (low3 r) 4)) = fst r"
    "extend_number (high index) (drop_bit 3 (modrm (push_bit 6 (scale_of k)) (low3 index) (low3 base))) = fst index"
    "extend_number (high base) (modrm (push_bit 6 (scale_of k)) (low3 index) (low3 base)) = fst base"
    using number_of_fields [OF n(1)] number_of_fields [OF n(2)] number_of_fields [OF n(3)] m(2) i(2,3)
    by (simp_all add: extend_number_def)
  have imm: "is_int32 offset \<Longrightarrow> immediate 4 (le_bytes 4 offset @ bs) = Some (offset, bs)" for bs
    using immediate_le_bytes [of 4 offset bs] fits_int32 by (simp del: le_bytes_numeral)
  have bytes: "decode_rm rex sz (element_bytes mode r k index base disp @ rest) =
      do { (disp, bs) \<leftarrow> (if take_bit 2 mode = 0 then Some (0, disp @ rest)
             else if take_bit 2 mode = 1 then immediate 1 (disp @ rest) else immediate 4 (disp @ rest));
           Some (fst r, Mem sz (fst base) (Some (fst index, k)) disp, bs) }"
    if "take_bit 2 mode \<noteq> 3" "\<not> (fst base AND 7 = 5 \<and> take_bit 2 mode = 0)"
    using that m(3,4) i(3,4) two scale num rex n(4) low3_fields(2) [OF n(2)]
    by (simp add: element_bytes_def decode_rm_def Let_def)
  have take: "take_bit 2 (0 :: byte) = 0" "take_bit 2 (1 :: byte) = 1" "take_bit 2 (2 :: byte) = 2"
    by (simp_all add: take_bit_eq_mod)
  consider "mode = 0" "fst base AND 7 \<noteq> 5" "offset = 0" "disp = []" | "mode = 1" "is_int8 offset" "disp = [ucast offset]"
    | "mode = 2" "is_int32 offset" "disp = le_bytes 4 offset"
    using mode by blast
  then show ?thesis
  proof cases
    case 1
    then show ?thesis using bytes take by simp
  next
    case 2
    then show ?thesis using bytes take fits_int8 by (simp add: immediate_byte)
  next
    case 3
    then show ?thesis using bytes take imm by (simp del: le_bytes_numeral)
  qed
qed

lemma decode_print_element:
  assumes "reg_ok r" "fst base < 16" "snd base = 8" "fst index < 16" "fst index \<noteq> 4" "snd index = 8" "k \<in> {1, 2, 4, 8}"
    "is_int32 offset" "opcode \<in> {0x88, 0x8A}"
  shows "decode (print_element opcode r base k index offset @ rest) =
    (let m = Mem (snd r) (fst base) (Some (fst index, k)) offset
     in Some (if opcode = 0x88 then Binary Mov m (operand_of r) else Binary Mov (operand_of r) m, rest))"
proof -
  let ?w = "snd r = 8"
  let ?q = "?w \<or> high r \<or> high index \<or> high base \<or> snd r = 1 \<and> 4 \<le> fst r"
  define rex where "rex = (if ?q then Some (rex_byte ?w (high r) (high index) (high base)) else None)"
  let ?op = "if snd r = 1 then opcode else opcode + 1"
  have op: "?op \<noteq> 0x66" "?op AND 0xF0 \<noteq> 0x40" and b: "bit ?op 0 \<longleftrightarrow> snd r \<noteq> 1" using assms(9) by auto
  have n: "fst r < 16" and s: "snd r \<in> {1, 2, 4, 8}" using assms(1) by (auto simp: reg_ok_def)
  have "?w \<or> high r \<or> high index \<or> high base \<Longrightarrow> ?q" by blast
  note bits = rex_bits [OF rex_def this]
  have sz: "size_of (snd r = 1) (snd r = 2) rex = snd r" using bits(1) s by (auto simp: size_of_def)
  have g: "gpr (snd r) rex (fst r) = operand_of r" using bits(5) by (auto simp: operand_of_def intro!: gpr_reg)
  obtain mode disp where md: "element_mode base offset = (mode, disp)" by fastforce
  then have cases: "mode = 0 \<and> fst base AND 7 \<noteq> 5 \<and> offset = 0 \<and> disp = [] \<or>
      mode = 1 \<and> is_int8 offset \<and> disp = [ucast offset] \<or> mode = 2 \<and> is_int32 offset \<and> disp = le_bytes 4 offset"
    using assms(8) by (auto simp: element_mode_def split: if_splits simp del: le_bytes_numeral)
  have "print_element opcode r base k index offset @ rest = optional (snd r = 2) [0x66] @
      optional ?q [rex_byte ?w (high r) (high index) (high base)] @ ?op # element_bytes mode r k index base disp @ rest"
    using assms(3,6,7) md
    by (simp add: print_element_def Let_def element_bytes_def modrm_def split del: if_split)
  then have "decode (print_element opcode r base k index offset @ rest) =
      decode_opcode (snd r = 2) rex ?op (element_bytes mode r k index base disp @ rest)"
    unfolding rex_def by (simp only: decode_prefixes [OF op])
  also have "\<dots> = (let m = Mem (snd r) (fst base) (Some (fst index, k)) offset
     in Some (if opcode = 0x88 then Binary Mov m (operand_of r) else Binary Mov (operand_of r) m, rest))"
  proof -
    have rm: "decode_rm rex (snd r) (element_bytes mode r k index base disp @ rest) =
        Some (fst r, Mem (snd r) (fst base) (Some (fst index, k)) offset, rest)"
      by (intro decode_rm_element n assms(2,4,5,7) bits cases)
    have "?op AND 0xFE = opcode" "?op \<noteq> 0x0F" "?op \<noteq> 0xC4" using assms(9) by auto
    moreover have "binary_of opcode = (if opcode = 0x88 then Some Mov else None)" using assms(9) by (auto simp: binary_of_def)
    ultimately have "decode_opcode (snd r = 2) rex ?op bs = do { (i, rm, bs) \<leftarrow> decode_rm rex (snd r) bs;
        Some (if opcode = 0x88 then Binary Mov rm (gpr (snd r) rex i) else Binary Mov (gpr (snd r) rex i) rm, bs) }" for bs
      using b sz assms(9) unfolding decode_opcode_def decode_one_byte_def Let_def
      by (auto split del: if_split simp: case_prod_beta)
    then show ?thesis using rm g by (simp add: Let_def)
  qed
  finally show ?thesis .
qed

section \<open>Constants\<close>

text \<open>The instruction that moves a constant to a register.\<close>

definition move_constant :: "reg \<Rightarrow> i64 \<Rightarrow> insn" where
  "move_constant r v =
     (if snd r = 8 \<and> v = ucast (ucast v :: i32) then Immediate Mov (Reg 4 (fst r)) (sign_extend 32 v)
      else Immediate Mov (operand_of r) (sign_extend (8 * snd r) v))"

lemma or_low3:
  "a AND 7 = 0 \<Longrightarrow> (a OR low3 r) AND 7 = low3 r"
  "a AND 7 = 0 \<Longrightarrow> bit (a OR low3 r) 3 = bit a 3"
proof -
  have seven: "(7 :: byte) = mask 3" by (simp add: mask_eq_exp_minus_1)
  note low = field_bit [OF and7_low3 [of r]]
  assume a: "a AND 7 = 0"
  have hi: "\<not> bit a k" if "k < 3" for k
  proof -
    have "\<not> bit (a AND mask 3) k" using a unfolding seven by simp
    then show ?thesis using that by (simp add: bit_simps)
  qed
  show "(a OR low3 r) AND 7 = low3 r" unfolding seven by (rule bit_word_eqI) (auto simp: bit_simps hi dest: low)
  show "bit (a OR low3 r) 3 = bit a 3" using low [of 3] by (auto simp: bit_simps)
qed

lemma low3_range: "low3 r \<in> {0, 1, 2, 3, 4, 5, 6, 7}"
proof -
  have "fst r AND 7 < 8" by (simp add: number_and7)
  then have "fst r AND 7 \<in> {0, 1, 2, 3, 4, 5, 6, 7}" by (auto simp: eval_nat_numeral less_Suc_eq)
  then show ?thesis by (auto simp: low3_def)
qed

lemma move_opcode:
  assumes "a \<in> {0xB0, 0xB8}" "x \<in> {0, 1, 2, 3, 4, 5, 6, 7 :: byte}"
  shows "a OR x \<noteq> 0x66" "(a OR x) AND 0xF0 \<noteq> 0x40" "a OR x \<noteq> 0x0F" "a OR x \<noteq> 0xC4"
    "(a OR x) AND 0xF0 = 0xB0" "binary_of ((a OR x) AND 0xFE) = None" "(a OR x) AND 0xFE \<noteq> 0x8A" "a OR x \<noteq> 0x63"
proof -
  have op: "(a OR x) AND 0xF0 = 0xB0" "(a OR x) AND 0xFE \<in> {0xB0, 0xB2, 0xB4, 0xB6, 0xB8, 0xBA, 0xBC, 0xBE}"
    using assms by auto
  then show "(a OR x) AND 0xF0 = 0xB0" by simp
  show "a OR x \<noteq> 0x66" "(a OR x) AND 0xF0 \<noteq> 0x40" "a OR x \<noteq> 0x0F" "a OR x \<noteq> 0xC4" "a OR x \<noteq> 0x63"
    using op(1) by auto
  show "(a OR x) AND 0xFE \<noteq> 0x8A" "binary_of ((a OR x) AND 0xFE) = None"
    using op(2) by (auto simp: binary_of_def)
qed

lemma decode_move_constant:
  assumes "reg_ok r"
  shows "decode (printRC ASM_MOV_RC r v @ rest) = Some (move_constant r v, rest)"
proof -
  define r' where "r' = (if snd r = 8 \<and> v = ucast (ucast v :: i32) then (fst r, 4) else r)"
  have r': "fst r' = fst r" "high r' = high r" "low3 r' = low3 r" "snd r' \<in> {1, 2, 4, 8}" "reg_ok r'"
    using assms by (auto simp: r'_def high_def low3_def reg_ok_def)
  have n: "fst r' < 16" using assms r'(1) by (simp add: reg_ok_def)
  let ?w = "snd r' = 8"
  let ?q = "high r' \<or> snd r' = 1 \<and> 4 \<le> fst r' \<or> ?w"
  define rex where "rex = (if ?q then Some (rex_byte ?w False False (high r')) else None)"
  have "?w \<or> False \<or> False \<or> high r' \<Longrightarrow> ?q" by blast
  note bits = rex_bits [OF rex_def this]
  have sz: "size_of (snd r' = 1) (snd r' = 2) rex = snd r'" using bits(1) r'(4) by (auto simp: size_of_def)
  have g: "gpr (snd r') rex (fst r') = operand_of r'" using bits(5) by (auto simp: operand_of_def intro!: gpr_reg)
  have num: "extend_number (high r') (low3 r') = fst r'" by (rule number_of_fields [OF n])
  show ?thesis
  proof (cases "snd r' = 8 \<and> v = scast (ucast v :: i32)")
    case True
    have "sign_extend 32 (scast (ucast v :: i32)) = (scast (ucast v :: i32) :: i64)"
      unfolding sign_extend_def by (rule bit_word_eqI) (auto simp: bit_simps min_def)
    then have fit: "sign_extend 32 v = v" using True by simp
    have q: "?q" and rq: "r' = r" "\<not> (snd r = 8 \<and> v = ucast (ucast v :: i32))"
      using True by (auto simp: r'_def split: if_splits)
    have b: "printRC ASM_MOV_RC r v @ rest = optional False [0x66] @ optional True [rex_byte ?w False False (high r')] @
        0xC7 # modrm 0xC0 0 (low3 r') # le_bytes 4 v @ rest"
      using True rq by (auto simp: printRC_def Let_def modrm_def optional_def simp del: le_bytes_numeral)
    have zero: "(0 :: byte) AND 7 = 0" by simp
    have imm: "immediate 4 (le_bytes 4 v @ rest) = Some (v, rest)"
      using immediate_le_bytes [of 4 v rest] fit by (simp del: le_bytes_numeral)
    have "decode (printRC ASM_MOV_RC r v @ rest) = decode_opcode False rex 0xC7 (modrm 0xC0 0 (low3 r') # le_bytes 4 v @ rest)"
      unfolding b using q by (subst decode_prefixes) (simp_all add: rex_def)
    also have "\<dots> = Some (move_constant r v, rest)"
      using True bits(2,4) num g sz imm rq fits_int64
      by (auto simp: decode_opcode_def decode_one_byte_def binary_of_def decode_rm_register [OF zero and7_low3] Let_def
          extend_number_def move_constant_def operand_of_def simp del: le_bytes_numeral)
    finally show ?thesis .
  next
    case False
    let ?base = "if snd r' = 1 then 0xB0 else 0xB8 :: byte"
    have base: "?base AND 7 = 0" by simp
    have b: "printRC ASM_MOV_RC r v @ rest = optional (snd r' = 2) [0x66] @ optional ?q [rex_byte ?w False False (high r')] @
        (?base OR low3 r') # le_bytes (snd r') v @ rest"
      using False unfolding printRC_def Let_def by (auto simp: r'_def)
    have "?base \<in> {0xB0, 0xB8}" by simp
    note op = move_opcode [OF this low3_range [of r']]
    have e: "extend_number (high r') (?base OR low3 r') = fst r'"
      using num or_low3(1) [OF base, of r'] by (simp add: extend_number_def)
    have b3: "bit (?base OR low3 r') 3 \<longleftrightarrow> snd r' \<noteq> 1" using or_low3(2) [OF base, of r'] by simp
    have imm: "immediate (snd r') (le_bytes (snd r') v @ rest) = Some (sign_extend (8 * snd r') v, rest)"
      by (rule immediate_le_bytes) (use r'(4) in auto)
    have "decode (printRC ASM_MOV_RC r v @ rest) = decode_opcode (snd r' = 2) rex (?base OR low3 r') (le_bytes (snd r') v @ rest)"
      unfolding b rex_def by (rule decode_prefixes [OF op(1,2)])
    also have "\<dots> = Some (Immediate Mov (operand_of r') (sign_extend (8 * snd r') v), rest)"
      unfolding decode_opcode_def decode_one_byte_def Let_def using op(3-8) e b3 sz imm g bits(4) by (simp del: le_bytes_numeral)
    also have "Immediate Mov (operand_of r') (sign_extend (8 * snd r') v) = move_constant r v"
      by (auto simp: move_constant_def r'_def operand_of_def)
    finally show ?thesis .
  qed
qed

text \<open>
  An addition keeps one byte of the constant, of whatever size it is; a constant within one byte is added as it is.
\<close>

lemma decode_add_constant:
  assumes "reg_ok r"
  shows "decode (printRC ASM_ADD_RC r v @ rest) = Some (Immediate Add (operand_of r) (sign_extend 8 v), rest)"
proof -
  let ?w = "snd r = 8"
  let ?q = "high r \<or> snd r = 1 \<and> 4 \<le> fst r \<or> ?w"
  define rex where "rex = (if ?q then Some (rex_byte ?w False False (high r)) else None)"
  have "?w \<or> False \<or> False \<or> high r \<Longrightarrow> ?q" by blast
  note bits = rex_bits [OF rex_def this]
  have n: "fst r < 16" "snd r \<in> {1, 2, 4, 8}" using assms by (auto simp: reg_ok_def)
  have sz: "size_of (snd r = 1) (snd r = 2) rex = snd r" using bits(1) n(2) by (auto simp: size_of_def)
  have g: "gpr (snd r) rex (fst r) = operand_of r" using bits(5) by (auto simp: operand_of_def intro!: gpr_reg)
  have all: "- 128 \<le>s v \<or> v \<le>s 127" by (auto simp: word_sle_eq)
  let ?op = "if snd r = 1 then 0x80 else 0x83 :: byte"
  have op: "?op \<noteq> 0x66" "?op AND 0xF0 \<noteq> 0x40" and b: "bit ?op 0 \<longleftrightarrow> snd r \<noteq> 1" by auto
  have zero: "(0 :: byte) AND 7 = 0" by simp
  have bytes: "printRC ASM_ADD_RC r v @ rest = optional (snd r = 2) [0x66] @ optional ?q [rex_byte ?w False False (high r)] @
      ?op # modrm 0xC0 0 (low3 r) # ucast v # rest"
    using all unfolding printRC_def Let_def by (simp add: modrm_def)
  have "decode (printRC ASM_ADD_RC r v @ rest) = decode_opcode (snd r = 2) rex ?op (modrm 0xC0 0 (low3 r) # ucast v # rest)"
    unfolding bytes rex_def by (rule decode_prefixes [OF op])
  also have "\<dots> = Some (Immediate Add (operand_of r) (sign_extend 8 v), rest)"
  proof -
    have "?op \<noteq> 0x0F" "?op \<noteq> 0xC4" "binary_of (?op AND 0xFE) = None" "?op AND 0xFE \<noteq> 0x8A" "?op \<noteq> 0x63"
      "?op AND 0xF0 \<noteq> 0xB0" "?op \<noteq> 0xC7" "?op \<in> {0x80, 0x81, 0x83}" "?op \<noteq> 0x81"
      by (auto simp: binary_of_def)
    moreover have "extend_number False 0 = 0" by (simp add: extend_number_def)
    ultimately show ?thesis
      unfolding decode_opcode_def decode_one_byte_def Let_def
      using b sz g bits(2,4) number_of_fields [OF n(1)] by (simp add: decode_rm_register [OF zero and7_low3] immediate_byte)
  qed
  finally show ?thesis .
qed

text \<open>
  A product with a constant of one byte is what was meant; a larger constant is written with 8 bytes, of which four
  or six are behind the instruction.
\<close>

lemma decode_multiply:
  assumes "reg_ok r1" "reg_ok r2" "snd r1 = snd r2" "2 \<le> snd r1" "is_int32 v" "sign_extend (8 * min 4 (snd r1)) v = v"
  shows "decode (printRRC r1 r2 v @ rest) = Some (Multiply (operand_of r1) (operand_of r2) v,
    (if is_int8 v then [] else le_bytes (8 - min 4 (snd r1)) (drop_bit (8 * min 4 (snd r1)) v)) @ rest)"
proof -
  let ?w = "snd r2 = 8" and ?n = "min 4 (snd r1)"
  let ?q = "high r1 \<or> high r2 \<or> ?w \<or> snd r1 = 1 \<and> 4 \<le> fst r1 \<or> snd r2 = 1 \<and> 4 \<le> fst r2"
  define rex where "rex = (if ?q then Some (rex_byte ?w (high r1) False (high r2)) else None)"
  have "?w \<or> high r1 \<or> False \<or> high r2 \<Longrightarrow> ?q" by blast
  note bits = rex_bits [OF rex_def this]
  have n: "fst r1 < 16" "fst r2 < 16" "snd r2 \<in> {2, 4, 8}" using assms by (auto simp: reg_ok_def)
  have sz: "size_of False (snd r2 = 2) rex = snd r2" using bits(1) n(3) by (auto simp: size_of_def)
  have g: "gpr (snd r2) rex k = Reg (snd r2) k" for k by (rule gpr_reg) (use n(3) in auto)
  let ?op = "if is_int8 v then 0x6B else 0x69 :: byte"
  have op: "?op \<noteq> 0x66" "?op AND 0xF0 \<noteq> 0x40" by auto
  have split: "le_bytes 8 v = le_bytes ?n v @ le_bytes (8 - ?n) (drop_bit (8 * ?n) v)" using n(3) assms(3) by auto
  have bytes: "printRRC r1 r2 v @ rest = optional (snd r2 = 2) [0x66] @ optional ?q [rex_byte ?w (high r1) False (high r2)] @
      ?op # modrm 0xC0 (low3 r1) (low3 r2) # (if is_int8 v then [ucast v] else le_bytes 8 v) @ rest"
    using assms(3-5) n(3) unfolding printRRC_def Let_def by (auto simp: optional_def simp del: le_bytes_numeral)
  have imm: "immediate ?n (le_bytes 8 v @ rest) = Some (v, le_bytes (8 - ?n) (drop_bit (8 * ?n) v) @ rest)"
    unfolding split append_assoc
    using immediate_le_bytes [of ?n v "le_bytes (8 - ?n) (drop_bit (8 * ?n) v) @ rest"] assms(4,6)
    by (simp del: le_bytes_numeral)
  have "decode (printRRC r1 r2 v @ rest) = decode_opcode (snd r2 = 2) rex ?op
      (modrm 0xC0 (low3 r1) (low3 r2) # (if is_int8 v then [ucast v] else le_bytes 8 v) @ rest)"
    unfolding bytes rex_def by (rule decode_prefixes [OF op])
  also have "\<dots> = Some (Multiply (operand_of r1) (operand_of r2) v,
      (if is_int8 v then [] else le_bytes (8 - ?n) (drop_bit (8 * ?n) v)) @ rest)"
  proof (cases "is_int8 v")
    case True
    then show ?thesis using sz g bits(2,4) number_of_fields [OF n(1)] number_of_fields [OF n(2)] fits_int8 [OF True] assms(3)
      by (simp add: decode_opcode_def decode_one_byte_def binary_of_def decode_rm_register Let_def immediate_byte operand_of_def)
  next
    case False
    then show ?thesis using sz g bits(2,4) number_of_fields [OF n(1)] number_of_fields [OF n(2)] imm assms(3)
      by (simp add: decode_opcode_def decode_one_byte_def binary_of_def decode_rm_register Let_def operand_of_def
          del: le_bytes_numeral)
  qed
  finally show ?thesis .
qed

section \<open>Shifts\<close>

text \<open>A shift is always one of 64 bits.\<close>

lemma vex_vvvv: "n < 16 \<Longrightarrow> (ucast (push_bit 3 (NOT (of_nat n :: i64))) :: byte) = 0xF8 - 8 * of_nat n"
  unfolding below_16
  by (elim insertE emptyE) (simp_all add: push_bit_eq_mult not_eq_complement)

lemma vex_fields:
  assumes "n < 16" "v = push_bit 7 (if w then 1 else 0) OR ucast (push_bit 3 (NOT (of_nat n :: i64))) OR push_bit 2 0 OR
    (case op of ASM_SHLX \<Rightarrow> 0x01 | ASM_SHRX \<Rightarrow> 0x03 | ASM_SARX \<Rightarrow> 0x02)"
  shows "\<not> bit (v :: byte) 2" "bit v 7" "15 - unat (drop_bit 3 v AND 15) = n"
    "v AND 3 = (case op of ASM_SHLX \<Rightarrow> 0x01 | ASM_SHRX \<Rightarrow> 0x03 | ASM_SARX \<Rightarrow> 0x02)"
proof -
  have v: "v \<in> {0xF8 - 8 * of_nat n + (case op of ASM_SHLX \<Rightarrow> 0x01 | ASM_SHRX \<Rightarrow> 0x03 | ASM_SARX \<Rightarrow> 0x02)}"
    unfolding assms(2) vex_vvvv [OF assms(1)] using assms(1) unfolding below_16
    by (elim insertE emptyE; cases w; cases op; simp)
  show "\<not> bit v 2" "bit v 7" "15 - unat (drop_bit 3 v AND 15) = n"
    "v AND 3 = (case op of ASM_SHLX \<Rightarrow> 0x01 | ASM_SHRX \<Rightarrow> 0x03 | ASM_SARX \<Rightarrow> 0x02)"
    using v assms(1) unfolding below_16 by - (elim insertE emptyE; cases op; simp)+
qed

lemma decode_shift:
  assumes "fst r1 < 16" "fst r2 < 16" "fst r3 < 16"
  shows "decode (printRRR op r1 r2 r3 @ rest) =
    Some (Shift (case op of ASM_SHLX \<Rightarrow> Shl | ASM_SHRX \<Rightarrow> Shr | ASM_SARX \<Rightarrow> Sar)
      (Reg 8 (fst r1)) (Reg 8 (fst r2)) (Reg 8 (fst r3)), rest)"
proof -
  define v1 :: byte where "v1 = push_bit 7 (if high r1 then 0 else 1) OR push_bit 6 1 OR push_bit 5 (if high r2 then 0 else 1) OR 0x02"
  define v2 :: byte where "v2 = push_bit 7 (if snd r1 = 8 then 1 else 0) OR ucast (push_bit 3 (NOT (of_nat (fst r3) :: i64))) OR
    push_bit 2 0 OR (case op of ASM_SHLX \<Rightarrow> 0x01 | ASM_SHRX \<Rightarrow> 0x03 | ASM_SARX \<Rightarrow> 0x02)"
  have p: "printRRR op r1 r2 r3 @ rest = 0xC4 # v1 # v2 # 0xF7 # modrm 0xC0 (low3 r1) (low3 r2) # rest"
    by (cases op) (simp_all add: printRRR_def v1_def v2_def Let_def)
  have f1: "v1 AND 0x1F = 2" "bit v1 7 = (\<not> high r1)" "bit v1 6" "bit v1 5 = (\<not> high r2)"
    by (auto simp: v1_def bit_simps)
  note f2 = vex_fields [OF assms(3) v2_def]
  define rex where "rex = Some (0x40 OR (if bit v1 7 then 0 else 4) OR (if bit v1 6 then 0 else 2) OR (if bit v1 5 then 0 else 1) :: byte)"
  have rex: "rex_bit rex 2 = high r1" "rex_bit rex 0 = high r2" "rex \<noteq> None"
    using f1 by (auto simp: rex_def rex_bit_def)
  have g: "gpr 8 rex k = Reg 8 k" for k by (rule gpr_reg) auto
  show ?thesis
    unfolding p using f1(1) f2 rex g number_of_fields [OF assms(1)] number_of_fields [OF assms(2)]
    by (cases op) (simp_all add: decode_def decode_opcode_def decode_vex_def decode_rm_register Let_def rex_def [symmetric])
qed

section \<open>Jumps and calls\<close>

text \<open>
  Where a jump leads: the displacement counts from the end of the instruction, the offset of the assembler from
  its beginning.
\<close>

definition jump_insn :: "asm_operation_jmp \<Rightarrow> i64 \<Rightarrow> insn" where
  "jump_insn op d = (if op = ASM_JMP then Jump d else Branch (jump_condition op) d)"

lemma sint_minus_small:
  assumes "sint (v :: i64) < 2 ^ 62" "- (2 ^ 62) \<le> sint v" "n \<le> 6"
  shows "sint (v - of_nat n) = sint v - int n"
proof -
  have "v - of_nat n = word_of_int (sint v - int n)" by simp
  also have "sint \<dots> = sint v - int n"
    unfolding sint_sbintrunc' using assms by (intro signed_take_bit_int_eq_self) auto
  finally show ?thesis .
qed

lemma jump_opcode:
  "(0x70 OR jump_condition op) AND 0xF0 = 0x70" "(0x80 OR jump_condition op) AND 0xF0 = 0x80"
  "(0x70 OR jump_condition op) AND 0x0F = jump_condition op" "(0x80 OR jump_condition op) AND 0x0F = jump_condition op"
  by (cases op; simp add: jump_condition_def)+

lemma decode_short_jump:
  "decode ((if op = ASM_JMP then 0xEB else 0x70 OR jump_condition op) # ucast d # rest) =
    Some (jump_insn op (sign_extend 8 d), rest)"
  by (cases op) (simp_all add: jump_condition_def jump_insn_def decode_def decode_opcode_def decode_one_byte_def binary_of_def
      rex_bit_def size_of_def Let_def immediate_byte)

lemma decode_near_jump:
  "decode ((if op = ASM_JMP then [0xE9] else [0x0F, 0x80 OR jump_condition op]) @ le_bytes 4 d @ rest) =
    Some (jump_insn op (sign_extend 32 d), rest)"
  using immediate_le_bytes [of 4 d rest]
  by (cases op) (simp_all add: jump_condition_def jump_insn_def decode_def decode_opcode_def decode_one_byte_def binary_of_def
      decode_two_byte_def rex_bit_def size_of_def Let_def del: le_bytes_numeral)

lemma printJMP_size:
  assumes "variant \<le> 1"
  shows "length (fst (printJMP op offset variant)) = fst (JMPsize op offset variant)"
    "snd (printJMP op offset variant) = snd (JMPsize op offset variant)"
    "fst (JMPsize op offset variant) \<le> 6"
  using assms by (cases op; auto simp: printJMP_def JMPsize_def Let_def simp del: le_bytes_numeral)+

lemma decode_printJMP:
  assumes "variant \<le> 1" "- (2 ^ 31) + 6 \<le> sint offset" "sint offset < 2 ^ 31"
  obtains d where "decode (fst (printJMP op offset variant) @ rest) = Some (jump_insn op d, rest)"
    "sint d + int (fst (JMPsize op offset variant)) = sint offset"
proof -
  define sz where "sz = fst (JMPsize op offset variant)"
  have sz: "sz \<le> 6" unfolding sz_def by (rule printJMP_size(3) [OF assms(1)])
  have small: "sint offset < 2 ^ 62" "- (2 ^ 62) \<le> sint offset" using assms by simp_all
  define d where "d = offset - of_nat sz"
  have d: "sint d + int sz = sint offset" unfolding d_def using sint_minus_small [OF small sz] by simp
  show thesis
  proof (cases "snd (JMPsize op offset variant) = 0")
    case True
    then have range: "- 122 \<le> sint offset" "sint offset \<le> 127" and two: "sz = 2"
      using assms(1) by (auto simp: JMPsize_def sz_def word_sle_eq split: if_splits asm_operation_jmp.splits)
    have j: "JMPsize op offset variant = (sz, 0)" using True by (simp add: sz_def prod_eq_iff)
    have "is_int8 d" using d range two by (simp add: is_int8_def word_sle_eq)
    then have "sign_extend 8 d = d" by (rule fits_int8)
    with decode_short_jump [of op d rest] have "decode (fst (printJMP op offset variant) @ rest) = Some (jump_insn op d, rest)"
      by (simp add: printJMP_def j d_def)
    then show thesis using that d by (simp add: sz_def)
  next
    case False
    then have j: "JMPsize op offset variant = (sz, 1)"
      using assms(1) by (auto simp: JMPsize_def sz_def split: if_splits asm_operation_jmp.splits)
    have "is_int32 d" using d assms sz by (simp add: is_int32_def word_sle_eq)
    then have "sign_extend 32 d = d" by (rule fits_int32)
    with decode_near_jump [of op d rest] have "decode (fst (printJMP op offset variant) @ rest) = Some (jump_insn op d, rest)"
      by (simp add: printJMP_def j d_def del: le_bytes_numeral)
    then show thesis using that d by (simp add: sz_def)
  qed
qed

lemma decode_call:
  "decode (printCALL a @ rest) = Some (Immediate Mov (Reg 8 0) a, [0xFF, 0xD0] @ rest)"
  "decode ([0xFF, 0xD0] @ rest) = Some (Call (Reg 8 0), rest)"
proof -
  have "immediate 8 (le_bytes 8 a @ bs) = Some (a, bs)" for bs
    using immediate_le_bytes [of 8 a bs] fits_int64 by (simp del: le_bytes_numeral)
  then show "decode (printCALL a @ rest) = Some (Immediate Mov (Reg 8 0) a, [0xFF, 0xD0] @ rest)"
    by (simp add: printCALL_def decode_def decode_opcode_def decode_one_byte_def binary_of_def rex_bit_def size_of_def
        gpr_def extend_number_def Let_def del: le_bytes_numeral)
  show "decode ([0xFF, 0xD0] @ rest) = Some (Call (Reg 8 0), rest)"
    by (simp add: decode_def decode_opcode_def decode_one_byte_def binary_of_def rex_bit_def size_of_def gpr_def
        extend_number_def decode_rm_def Let_def)
qed

section \<open>Sequences of instructions\<close>

text \<open>
  One call of the assembler, the bytes it appends and the instructions that are meant by it.
\<close>

datatype asm_call =
    Call_Z asm_operationZ
  | Call_R asm_operation1 reg
  | Call_RR asm_operation2 reg reg
  | Call_RM reg reg i64
  | Call_MR reg reg i64
  | Call_RRCRC reg reg nat reg i64
  | Call_RCRCR reg nat reg i64 reg
  | Call_RC asm_operation2rc reg i64
  | Call_RRC reg reg i64
  | Call_RRR asm_operation3 reg reg reg
  | Call_CALL i64

primrec emit :: "asm_call \<Rightarrow> byte list" where
  "emit (Call_Z op) = printZ op"
| "emit (Call_R op r) = printR op r"
| "emit (Call_RR op r1 r2) = printRR op r1 r2"
| "emit (Call_RM r base offset) = printRM r base offset"
| "emit (Call_MR base r offset) = printMR base r offset"
| "emit (Call_RRCRC r base k index offset) = printRRCRC r base k index offset"
| "emit (Call_RCRCR base k index offset r) = printRCRCR base k index offset r"
| "emit (Call_RC op r v) = printRC op r v"
| "emit (Call_RRC r1 r2 v) = printRRC r1 r2 v"
| "emit (Call_RRR op r1 r2 r3) = printRRR op r1 r2 r3"
| "emit (Call_CALL a) = printCALL a"

primrec meant :: "asm_call \<Rightarrow> insn list" where
  "meant (Call_Z op) = [SignRax]"
| "meant (Call_R op r) = [meaning1 op r]"
| "meant (Call_RR op r1 r2) = [meaning2 op r1 r2]"
| "meant (Call_RM r base offset) = [Binary Mov (operand_of r) (Mem (snd r) (fst base) None offset)]"
| "meant (Call_MR base r offset) = [Binary Mov (Mem (snd r) (fst base) None offset) (operand_of r)]"
| "meant (Call_RRCRC r base k index offset) = [Binary Mov (operand_of r) (Mem (snd r) (fst base) (Some (fst index, k)) offset)]"
| "meant (Call_RCRCR base k index offset r) = [Binary Mov (Mem (snd r) (fst base) (Some (fst index, k)) offset) (operand_of r)]"
| "meant (Call_RC op r v) = [case op of ASM_MOV_RC \<Rightarrow> move_constant r v | ASM_ADD_RC \<Rightarrow> Immediate Add (operand_of r) v]"
| "meant (Call_RRC r1 r2 v) = [Multiply (operand_of r1) (operand_of r2) v]"
| "meant (Call_RRR op r1 r2 r3) = [Shift (case op of ASM_SHLX \<Rightarrow> Shl | ASM_SHRX \<Rightarrow> Shr | ASM_SARX \<Rightarrow> Sar)
    (operand_of r1) (operand_of r2) (operand_of r3)]"
| "meant (Call_CALL a) = [Immediate Mov (Reg 8 0) a, Call (Reg 8 0)]"

text \<open>
  The calls that one instruction of the processor can do: left out are the sizes that the code asserts against, offsets
  beyond 32 bits, \<^verbatim>\<open>rsp\<close> as an index, and constants that do not fit the operation.
\<close>

primrec expressible :: "asm_call \<Rightarrow> bool" where
  "expressible (Call_Z op) \<longleftrightarrow> True"
| "expressible (Call_R op r) \<longleftrightarrow> reg_ok r \<and> (op \<in> {ASM_NEG, ASM_NOT, ASM_DIV, ASM_IDIV} \<or> snd r = 1)"
| "expressible (Call_RR op r1 r2) \<longleftrightarrow> reg_ok r1 \<and> reg_ok r2 \<and>
     (if op = ASM_MOVZX \<or> op = ASM_MOVSX then snd r2 < snd r1 else snd r1 = snd r2)"
| "expressible (Call_RM r base offset) \<longleftrightarrow> reg_ok r \<and> fst base < 16 \<and> is_int32 offset"
| "expressible (Call_MR base r offset) \<longleftrightarrow> reg_ok r \<and> reg_ok base \<and> snd base = 8 \<and> is_int32 offset"
| "expressible (Call_RRCRC r base k index offset) \<longleftrightarrow> reg_ok r \<and> fst base < 16 \<and> snd base = 8 \<and> fst index < 16 \<and>
     fst index \<noteq> 4 \<and> snd index = 8 \<and> k \<in> {1, 2, 4, 8} \<and> is_int32 offset"
| "expressible (Call_RCRCR base k index offset r) \<longleftrightarrow> reg_ok r \<and> fst base < 16 \<and> snd base = 8 \<and> fst index < 16 \<and>
     fst index \<noteq> 4 \<and> snd index = 8 \<and> k \<in> {1, 2, 4, 8} \<and> is_int32 offset"
| "expressible (Call_RC op r v) \<longleftrightarrow> reg_ok r \<and> (op = ASM_ADD_RC \<longrightarrow> sign_extend (8 * min 4 (snd r)) v = v)"
| "expressible (Call_RRC r1 r2 v) \<longleftrightarrow> reg_ok r1 \<and> reg_ok r2 \<and> snd r1 = snd r2 \<and> 2 \<le> snd r1 \<and> is_int32 v \<and>
     sign_extend (8 * min 4 (snd r1)) v = v"
| "expressible (Call_RRR op r1 r2 r3) \<longleftrightarrow> reg_ok r1 \<and> reg_ok r2 \<and> reg_ok r3 \<and> snd r1 = snd r2 \<and> snd r2 = snd r3 \<and> 4 \<le> snd r1"
| "expressible (Call_CALL a) \<longleftrightarrow> True"

text \<open>
  The calls that are encoded as they are meant: all of these but five mistakes, an extension from 16 to 32 bits, a
  byte loaded to one of the registers 4 to 7, an addend of more than one byte, a factor of more than one byte, and a
  shift of 32 bits.
\<close>

primrec encodable :: "asm_call \<Rightarrow> bool" where
  "encodable (Call_Z op) \<longleftrightarrow> True"
| "encodable (Call_R op r) \<longleftrightarrow> reg_ok r \<and> (op \<in> {ASM_NEG, ASM_NOT, ASM_DIV, ASM_IDIV} \<or> snd r = 1)"
| "encodable (Call_RR op r1 r2) \<longleftrightarrow> reg_ok r1 \<and> reg_ok r2 \<and>
     (if op = ASM_MOVZX \<or> op = ASM_MOVSX then snd r2 < snd r1 \<and> (snd r2, snd r1) \<noteq> (2, 4) else snd r1 = snd r2)"
| "encodable (Call_RM r base offset) \<longleftrightarrow> reg_ok r \<and> fst base < 16 \<and> is_int32 offset \<and>
     (snd r = 1 \<and> fst base < 8 \<longrightarrow> fst r < 4 \<or> 8 \<le> fst r)"
| "encodable (Call_MR base r offset) \<longleftrightarrow> reg_ok r \<and> reg_ok base \<and> snd base = 8 \<and> is_int32 offset"
| "encodable (Call_RRCRC r base k index offset) \<longleftrightarrow> reg_ok r \<and> fst base < 16 \<and> snd base = 8 \<and> fst index < 16 \<and>
     fst index \<noteq> 4 \<and> snd index = 8 \<and> k \<in> {1, 2, 4, 8} \<and> is_int32 offset"
| "encodable (Call_RCRCR base k index offset r) \<longleftrightarrow> reg_ok r \<and> fst base < 16 \<and> snd base = 8 \<and> fst index < 16 \<and>
     fst index \<noteq> 4 \<and> snd index = 8 \<and> k \<in> {1, 2, 4, 8} \<and> is_int32 offset"
| "encodable (Call_RC op r v) \<longleftrightarrow> reg_ok r \<and> (op = ASM_ADD_RC \<longrightarrow> is_int8 v)"
| "encodable (Call_RRC r1 r2 v) \<longleftrightarrow> reg_ok r1 \<and> reg_ok r2 \<and> snd r1 = snd r2 \<and> 2 \<le> snd r1 \<and> is_int8 v"
| "encodable (Call_RRR op r1 r2 r3) \<longleftrightarrow> reg_ok r1 \<and> reg_ok r2 \<and> reg_ok r3 \<and> snd r1 = 8 \<and> snd r2 = 8 \<and> snd r3 = 8"
| "encodable (Call_CALL a) \<longleftrightarrow> True"

text \<open>As many instructions from the front of the bytes.\<close>

fun decode_many :: "nat \<Rightarrow> byte list \<Rightarrow> (insn list \<times> byte list) option" where
  "decode_many 0 bs = Some ([], bs)"
| "decode_many (Suc n) bs =
     (case decode bs of
        None \<Rightarrow> None
      | Some (i, bs) \<Rightarrow> map_option (apfst (Cons i)) (decode_many n bs))"

lemma decode_many_append:
  "decode_many m bs = Some (is, rest) \<Longrightarrow> decode_many n rest = Some (js, rest') \<Longrightarrow>
    decode_many (m + n) bs = Some (is @ js, rest')"
  by (induction m arbitrary: bs "is") (auto split: option.splits)

lemma decode_emit:
  assumes "encodable c"
  shows "decode_many (length (meant c)) (emit c @ rest) = Some (meant c, rest)"
proof (cases c)
  case (Call_Z op)
  then show ?thesis
    by (cases op) (simp add: printZ_def decode_def decode_opcode_def decode_one_byte_def binary_of_def rex_bit_def
        size_of_def Let_def)
next
  case (Call_RR op r1 r2)
  then show ?thesis using assms decode_printRR [of r1 r2 op rest] by (auto split: if_splits)
next
  case (Call_RC op r v)
  then show ?thesis using assms decode_move_constant [of r v rest] decode_add_constant [of r v rest] fits_int8 [of v]
    by (cases op) simp_all
next
  case (Call_RRC r1 r2 v)
  have "is_int8 v \<Longrightarrow> is_int32 v" by (auto simp: is_int8_def is_int32_def word_sle_eq)
  moreover have "is_int8 v \<Longrightarrow> reg_ok r1 \<Longrightarrow> 2 \<le> snd r1 \<Longrightarrow> sign_extend (8 * min 4 (snd r1)) v = v"
    using fits_int32 [of v] calculation
    by (auto simp: reg_ok_def is_int8_def sign_extend_def word_sle_eq intro!: signed_small)
  ultimately show ?thesis using Call_RRC assms decode_multiply [of r1 r2 v rest] by simp
next
  case (Call_RRR op r1 r2 r3)
  then show ?thesis using assms decode_shift [of r1 r2 r3 op rest] by (simp add: reg_ok_def operand_of_def)
next
  case (Call_CALL a)
  then show ?thesis using decode_call(1) [of a rest] decode_call(2) [of rest] by simp
next
  case (Call_R op r)
  then show ?thesis using assms decode_printR [of r op rest] by auto
next
  case (Call_MR base r offset)
  then show ?thesis using assms decode_printMR [of r base offset rest] by (simp add: reg_ok_def)
qed (use assms in \<open>auto simp: decode_printRM loaded_register_def printRRCRC_def printRCRCR_def
  decode_print_element Let_def\<close>)

lemma decode_emits:
  "\<forall>c \<in> set cs. encodable c \<Longrightarrow>
    decode_many (length (concat (map meant cs))) (concat (map emit cs) @ rest) = Some (concat (map meant cs), rest)"
proof (induction cs)
  case (Cons c cs)
  from Cons.prems have c: "encodable c" and cs: "\<forall>c \<in> set cs. encodable c" by auto
  show ?case
    using decode_many_append [OF decode_emit [OF c] Cons.IH [OF cs]] by simp
qed simp

text \<open>The mistakes: what the processor reads is not what is meant, or there are bytes behind it.\<close>

lemma decode_mistake:
  assumes "expressible c" "\<not> encodable c"
  shows "decode_many (length (meant c)) (emit c) \<noteq> Some (meant c, [])"
proof (cases c)
  case (Call_RR op r1 r2)
  then have op: "op = ASM_MOVZX \<or> op = ASM_MOVSX" "snd r2 = 2" "snd r1 = 4" "reg_ok r1" "reg_ok r2"
    using assms by (auto split: if_splits)
  show ?thesis using decode_wrong_extension [OF op(4,5,1-3), of "[]"] op(1-3)
    by (auto simp: Call_RR meaning2_def extension_of_def operand_of_def)
next
  case (Call_RM r base offset)
  then have "snd r = 1" "4 \<le> fst r" "fst r < 8" "fst base < 8" "reg_ok r" "fst base < 16" "is_int32 offset"
    using assms by auto
  then show ?thesis using decode_printRM [of r base offset "[]"]
    by (simp add: Call_RM loaded_register_def operand_of_def)
next
  case (Call_RC op r v)
  then have op: "op = ASM_ADD_RC" "reg_ok r" "\<not> is_int8 v" using assms by auto
  then have "sign_extend 8 v \<noteq> v" using within_int8 by blast
  then show ?thesis using decode_add_constant [OF op(2), of v "[]"] op(1) by (simp add: Call_RC)
next
  case (Call_RRC r1 r2 v)
  then have v: "\<not> is_int8 v" and ok: "reg_ok r1" "reg_ok r2" "snd r1 = snd r2" "2 \<le> snd r1" "is_int32 v"
    "sign_extend (8 * min 4 (snd r1)) v = v" using assms by auto
  have "le_bytes (8 - min 4 (snd r1)) (drop_bit (8 * min 4 (snd r1)) v) \<noteq> []" by (simp flip: length_0_conv)
  then show ?thesis using decode_multiply [OF ok, of "[]"] v by (simp add: Call_RRC)
next
  case (Call_RRR op r1 r2 r3)
  then have r: "reg_ok r1" "reg_ok r2" "reg_ok r3" "snd r1 = 4" using assms by (auto simp: reg_ok_def)
  show ?thesis using decode_shift [of r1 r2 r3 op "[]"] r by (simp add: Call_RRR reg_ok_def operand_of_def)
qed (use assms in auto)

text \<open>
  C10. What the assembler emits for a sequence of encodable calls, the processor reads back as the sequence of
  instructions that the calls mean: operation, registers, sizes, addresses, displacements and constants. And these
  are all: of the calls that an instruction can do, it emits exactly the five kinds that are not encodable wrongly (an
  extension from 16 to 32 bits, a byte loaded to one of the registers 4 to 7 over a base below 8, an addend and a
  factor of more than one byte, a shift of 32 bits).
\<close>

theorem assembler_roundtrip:
  assumes "\<forall>c \<in> set cs. encodable c"
  shows "decode_many (length (concat (map meant cs))) (concat (map emit cs)) = Some (concat (map meant cs), []) \<and>
    (\<forall>c. expressible c \<longrightarrow>
       (encodable c \<longleftrightarrow> decode_many (length (meant c)) (emit c) = Some (meant c, [])))"
  using decode_emits [OF assms, of "[]"] decode_emit [of _ "[]"] decode_mistake by auto

lemma assembler_roundtrip_witness:
  "decode_many 5 (concat (map emit [Call_RM (9, 4) (5, 8) (-24), Call_RR ASM_ADD (9, 4) (0, 4), Call_R ASM_SETE (6, 1),
      Call_RCRCR (12, 8) 8 (13, 8) 4096 (9, 8), Call_RC ASM_MOV_RC (10, 8) (-1)])) =
    Some ([Binary Mov (Reg 4 9) (Mem 4 5 None (-24)), Binary Add (Reg 4 9) (Reg 4 0), Set 4 (Reg 1 6),
      Binary Mov (Mem 8 12 (Some (13, 8)) 4096) (Reg 8 9), Immediate Mov (Reg 8 10) (-1)], []) \<and>
   decode_many 1 (emit (Call_RM (6, 1) (5, 8) 0)) \<noteq> Some ([Binary Mov (Reg 1 6) (Mem 1 5 None 0)], [])"
  (is "decode_many 5 (concat (map emit ?cs)) = Some (?is, []) \<and> _")
proof -
  have ok: "\<forall>c \<in> set ?cs. encodable c" by code_simp
  have meant: "concat (map meant ?cs) = ?is" by code_simp
  have length: "length ?is = 5" by simp
  let ?c = "Call_RM (6, 1) (5, 8) 0"
  have c: "expressible ?c" "\<not> encodable ?c" "meant ?c = [Binary Mov (Reg 1 6) (Mem 1 5 None 0)]"
    by (simp_all add: reg_ok_def is_int32_def word_sle_eq operand_of_def)
  note r = assembler_roundtrip [OF ok]
  have "decode_many 5 (concat (map emit ?cs)) = Some (?is, [])"
    using conjunct1 [OF r] unfolding meant length .
  moreover have "decode_many 1 (emit ?c) \<noteq> Some ([Binary Mov (Reg 1 6) (Mem 1 5 None 0)], [])"
    using conjunct2 [OF r] c by fastforce
  ultimately show ?thesis by blast
qed

text \<open>
  C39. An addend is always taken from its low byte: the two conditions on its range are disjunctions, of which one part is
  true of every number.
\<close>

theorem addend_is_one_byte:
  assumes "reg_ok r"
  shows "decode (printRC ASM_ADD_RC r v @ rest) = Some (Immediate Add (operand_of r) (sign_extend 8 v), rest)"
  by (rule decode_add_constant [OF assms])

lemma addend_is_one_byte_witness:
  "decode (printRC ASM_ADD_RC (2, 8) 300) = Some (Immediate Add (Reg 8 2) 44, [])"
  using addend_is_one_byte [of "(2, 8)" 300 "[]"] by (simp add: reg_ok_def operand_of_def sign_extend_def)

end
