(* ===== verification/Jumps.thy ===== *)
theory Jumps
  imports AssemblerCorrect "HOL-Library.Product_Lexorder"
begin

text \<open>
  Jumps are left out when the code of a worker is generated and inserted afterwards, when their sizes are known:
  \<^verbatim>\<open>WinX64Assembler::InsertJumpInstructions\<close> in \<^verbatim>\<open>src/codegen/x64_win/call_expansion.cpp\<close>.

  Addresses are counted from \<^verbatim>\<open>assemblyCode\<close>, the start of the buffer; an operation is a number. Where the
  code reads an entry of \<^verbatim>\<open>opPosition\<close> that does not exist, it gets the null pointer; \<open>null\<close> is
  that address counted from the start of the buffer.
\<close>

section \<open>The state of the assembler\<close>

record jmpInstruction =
  jmpType :: asm_operation_jmp
  codePos :: nat
  codeOrder :: nat
  destOp :: "nat option"
  jmp_node :: "nat option"

type_synonym key = "nat \<times> nat"

definition key :: "jmpInstruction \<Rightarrow> key" where "key j = (codePos j, codeOrder j)"

record emitter =
  code_buffer :: "byte list"
  assemblyEnd :: nat
  JumpInstructions :: "jmpInstruction list"
  addressTable :: "nat \<rightharpoonup> nat"
  orderTable :: "nat \<Rightarrow> nat"
  runtimeApiHeader :: "(byte \<times> key list) list"
  addrToLine :: "((nat \<times> nat) \<times> (nat \<times> nat)) list"

section \<open>Sizes and positions\<close>

text \<open>
  The current positions of the jumps, the map of offsets after each jump (its keys are increasing, and of two entries
  for one key the later one counts) and the size of all jumps.
\<close>

definition jump_size :: "jmpInstruction \<Rightarrow> int \<Rightarrow> nat" where
  "jump_size j v = fst (JMPsize (jmpType j) 0 v)"

fun fill_offsets :: "jmpInstruction list \<Rightarrow> int list \<Rightarrow> nat \<Rightarrow> nat list \<times> (key \<times> nat) list \<times> nat" where
  "fill_offsets (j # js) (v # vs) lastOffset =
     (let lastOffset' = lastOffset + jump_size j v; (ps, os, added) = fill_offsets js vs lastOffset'
      in ((codePos j + lastOffset) # ps, (key j, lastOffset') # os, added))"
| "fill_offsets _ _ lastOffset = ([], [], lastOffset)"

text \<open>\<^verbatim>\<open>prev(offsets.upper_bound(k))->second\<close>; the map also has the entry 0 for the null pointer.\<close>

definition offset_at :: "(key \<times> nat) list \<Rightarrow> key \<Rightarrow> nat" where
  "offset_at os k = snd (last (((0, 0), 0) # filter (\<lambda>(k', _). k' \<le> k) os))"

definition op_position :: "int \<Rightarrow> (nat \<rightharpoonup> nat) \<Rightarrow> (nat \<Rightarrow> nat) \<Rightarrow> (key \<times> nat) list \<Rightarrow> nat option \<Rightarrow> int" where
  "op_position null addrs order os dest =
     (case dest of
        None \<Rightarrow> null
      | Some n \<Rightarrow> (case addrs n of None \<Rightarrow> null | Some a \<Rightarrow> int (a + offset_at os (a, order n))))"

definition jump_distance :: "int \<Rightarrow> (nat \<rightharpoonup> nat) \<Rightarrow> (nat \<Rightarrow> nat) \<Rightarrow> (key \<times> nat) list \<Rightarrow> jmpInstruction \<Rightarrow> nat \<Rightarrow> i64" where
  "jump_distance null addrs order os j cur = word_of_int (op_position null addrs order os (destOp j) - int cur)"

text \<open>One round of the loop: the variants that the distances of this round ask for.\<close>

definition need_variants :: "int \<Rightarrow> (nat \<rightharpoonup> nat) \<Rightarrow> (nat \<Rightarrow> nat) \<Rightarrow> jmpInstruction list \<Rightarrow> int list \<Rightarrow> int list" where
  "need_variants null addrs order js shortJmp =
     (let (ps, os, _) = fill_offsets js shortJmp 0
      in map (\<lambda>(j, cur, v). snd (JMPsize (jmpType j) (jump_distance null addrs order os j cur) v)) (zip js (zip ps shortJmp)))"

text \<open>A variant can change at most twice, and 1 is kept.\<close>

definition variant_rank :: "int \<Rightarrow> nat" where
  "variant_rank v = (if v = 1 then 1 else if v = 0 then 2 else 3)"

lemma variant_rank_JMPsize:
  "variant_rank (snd (JMPsize op d v)) \<le> variant_rank v"
  "variant_rank (snd (JMPsize op d v)) = variant_rank v \<Longrightarrow> snd (JMPsize op d v) = v"
  by (auto simp: variant_rank_def JMPsize_def split: asm_operation_jmp.splits if_splits)

lemma length_fill_offsets: "length (fst (fill_offsets js vs l)) = min (length js) (length vs)"
  by (induction js vs l rule: fill_offsets.induct) (auto simp: Let_def split: prod.splits)

lemma rank_decreases:
  fixes f :: "'a \<Rightarrow> int \<Rightarrow> int"
  assumes "\<And>x v. variant_rank (f x v) \<le> variant_rank v" "\<And>x v. variant_rank (f x v) = variant_rank v \<Longrightarrow> f x v = v"
  shows "sum_list (map variant_rank (map2 f xs vs)) \<le> sum_list (map variant_rank vs)"
    and "sum_list (map variant_rank (map2 f xs vs)) = sum_list (map variant_rank vs) \<Longrightarrow> map2 f xs vs = vs"
proof -
  have "sum_list (map variant_rank (map2 f xs vs)) \<le> sum_list (map variant_rank vs) \<and>
    (sum_list (map variant_rank (map2 f xs vs)) = sum_list (map variant_rank vs) \<longrightarrow> map2 f xs vs = vs)"
  proof (induction vs arbitrary: xs)
    case (Cons v vs)
    show ?case
    proof (cases xs)
      case Nil
      then show ?thesis by (auto simp: variant_rank_def)
    next
      case (Cons x xs')
      then show ?thesis using assms(1) [of x v] assms(2) [of x v] Cons.IH [of xs'] by auto
    qed
  qed simp
  then show "sum_list (map variant_rank (map2 f xs vs)) \<le> sum_list (map variant_rank vs)"
    "sum_list (map variant_rank (map2 f xs vs)) = sum_list (map variant_rank vs) \<Longrightarrow> map2 f xs vs = vs" by blast+
qed

lemma need_variants_map2:
  "\<exists>xs :: (jmpInstruction \<times> i64) list. need_variants null addrs order js vs =
    map2 (\<lambda>(j, d) v. snd (JMPsize (jmpType j) d v)) xs vs \<and> length xs = min (length js) (length vs)"
proof -
  obtain ps os t where f: "fill_offsets js vs 0 = (ps, os, t)" by (metis prod_cases3)
  have l: "length ps = min (length js) (length vs)" using length_fill_offsets [of js vs 0] f by simp
  let ?xs = "map2 (\<lambda>j p. (j, jump_distance null addrs order os j p)) js ps"
  have "map (\<lambda>(j, cur, v). snd (JMPsize (jmpType j) (jump_distance null addrs order os j cur) v)) (zip js (zip ps vs)) =
    map2 (\<lambda>(j, d) v. snd (JMPsize (jmpType j) d v)) ?xs vs"
    by (rule nth_equalityI) auto
  then show ?thesis using f l by - (rule exI [of _ ?xs], simp add: need_variants_def)
qed

function choose_sizes :: "int \<Rightarrow> (nat \<rightharpoonup> nat) \<Rightarrow> (nat \<Rightarrow> nat) \<Rightarrow> jmpInstruction list \<Rightarrow> int list \<Rightarrow> int list" where
  "choose_sizes null addrs order js shortJmp =
     (let need = need_variants null addrs order js shortJmp
      in if need = shortJmp then shortJmp else choose_sizes null addrs order js need)"
  by pat_completeness auto

termination
proof (relation "measure (\<lambda>(_, _, _, _, vs). sum_list (map variant_rank vs))")
  fix null addrs order js vs need
  assume need: "need = need_variants null addrs order js vs" "need \<noteq> vs"
  obtain xs :: "(jmpInstruction \<times> i64) list" where n: "need_variants null addrs order js vs = map2 (\<lambda>(j, d) v. snd (JMPsize (jmpType j) d v)) xs vs"
    using need_variants_map2 by blast
  let ?f = "\<lambda>(j :: jmpInstruction, d) v. snd (JMPsize (jmpType j) d v)"
  have "sum_list (map variant_rank (map2 ?f xs vs)) \<le> sum_list (map variant_rank vs)"
    "sum_list (map variant_rank (map2 ?f xs vs)) = sum_list (map variant_rank vs) \<Longrightarrow> map2 ?f xs vs = vs"
    by (rule rank_decreases; use variant_rank_JMPsize in force)+
  then show "((null, addrs, order, js, need), (null, addrs, order, js, vs)) \<in> measure (\<lambda>(_, _, _, _, vs). sum_list (map variant_rank vs))"
    using need n by (auto simp: le_less)
qed auto

declare choose_sizes.simps [simp del]

section \<open>Insertion\<close>

text \<open>
  The blocks between the jumps are moved towards the end, from the last one on, and each jump is written in front of
  the block that was moved. An assertion that fails, and a write beyond the buffer, give \<open>None\<close>.
\<close>

definition write_bytes :: "byte list \<Rightarrow> nat \<Rightarrow> byte list \<Rightarrow> byte list" where
  "write_bytes mem a bs = take a mem @ bs @ drop (a + length bs) mem"

definition memmove :: "byte list \<Rightarrow> nat \<Rightarrow> nat \<Rightarrow> nat \<Rightarrow> byte list option" where
  "memmove mem dest src n =
     (if dest + n \<le> length mem \<and> src + n \<le> length mem then Some (write_bytes mem dest (take n (drop src mem))) else None)"

text \<open>A jump with its variant, its position and its distance, the last one first.\<close>

type_synonym placed = "jmpInstruction \<times> int \<times> nat \<times> i64"

fun insert_back :: "placed list \<Rightarrow> byte list \<Rightarrow> nat \<Rightarrow> nat \<Rightarrow> byte list option" where
  "insert_back [] mem codeDest codeSrc = Some mem"
| "insert_back ((j, v, cur, d) # ps) mem codeDest codeSrc =
     (let blockSize = codeSrc - codePos j in
      do { mem \<leftarrow> (if blockSize \<noteq> 0 then memmove mem (codeDest - blockSize) (codeSrc - blockSize) blockSize else Some mem);
           let codeDest = codeDest - blockSize - fst (JMPsize (jmpType j) d v);
           let codeSrc = codeSrc - blockSize;
           if codeDest \<noteq> cur then None
           else
             (let (bs, variant) = printJMP (jmpType j) d v in
              if variant \<noteq> v then None
              else insert_back ps (write_bytes mem codeDest bs) codeDest codeSrc) })"

text \<open>The lines of the debug information; a mark for a range of addresses that is already marked is ignored.\<close>

definition markAddress :: "nat \<Rightarrow> nat \<Rightarrow> nat \<times> nat \<Rightarrow> ((nat \<times> nat) \<times> (nat \<times> nat)) list \<Rightarrow> ((nat \<times> nat) \<times> (nat \<times> nat)) list" where
  "markAddress from n span marks = (if (from, from + n) \<in> fst ` set marks then marks else marks @ [((from, from + n), span)])"

text \<open>
  What is moved along here are the numbers of the lines, not the addresses.
\<close>

definition move_lines :: "(key \<times> nat) list \<Rightarrow> ((nat \<times> nat) \<times> (nat \<times> nat)) list \<Rightarrow> ((nat \<times> nat) \<times> (nat \<times> nat)) list" where
  "move_lines os marks = map (\<lambda>(k, (s, e)). (k, (s + offset_at os (s, 0), e + offset_at os (e, 0)))) marks"

definition mark_jump :: "(nat \<Rightarrow> nat \<times> nat) \<Rightarrow> placed \<Rightarrow> ((nat \<times> nat) \<times> (nat \<times> nat)) list \<Rightarrow>
    ((nat \<times> nat) \<times> (nat \<times> nat)) list option" where
  "mark_jump span p marks =
     (case p of (j, v, cur, d) \<Rightarrow>
        let n = fst (JMPsize (jmpType j) d v) in
        if jmpType j = ASM_JMP then
          (case destOp j of None \<Rightarrow> None | Some op \<Rightarrow> Some (markAddress cur n (span op) marks))
        else (case jmp_node j of None \<Rightarrow> None | Some op \<Rightarrow> Some (markAddress cur n (span op) marks)))"

definition mark_jumps :: "(nat \<Rightarrow> nat \<times> nat) \<Rightarrow> placed list \<Rightarrow> ((nat \<times> nat) \<times> (nat \<times> nat)) list \<Rightarrow>
    ((nat \<times> nat) \<times> (nat \<times> nat)) list option" where
  "mark_jumps span ps marks = fold (\<lambda>p ms. Option.bind ms (mark_jump span p)) (rev ps) (Some marks)"

definition place :: "int \<Rightarrow> (nat \<rightharpoonup> nat) \<Rightarrow> (nat \<Rightarrow> nat) \<Rightarrow> jmpInstruction list \<Rightarrow> int list \<Rightarrow> placed list" where
  "place null addrs order js vs =
     (let (ps, os, _) = fill_offsets js vs 0
      in map (\<lambda>(j, v, cur). (j, v, cur, jump_distance null addrs order os j cur)) (zip js (zip vs ps)))"

text \<open>
  The jumps as they are inserted: sorted, with the sizes that were chosen.
\<close>

definition final_jumps :: "emitter \<Rightarrow> jmpInstruction list" where
  "final_jumps e = sort_key key (JumpInstructions e)"

definition final_sizes :: "int \<Rightarrow> emitter \<Rightarrow> int list" where
  "final_sizes null e = choose_sizes null (addressTable e) (orderTable e) (final_jumps e) (replicate (length (final_jumps e)) 0)"

definition final_places :: "int \<Rightarrow> emitter \<Rightarrow> placed list" where
  "final_places null e = place null (addressTable e) (orderTable e) (final_jumps e) (final_sizes null e)"

definition InsertJumpInstructions :: "int \<Rightarrow> (nat \<Rightarrow> nat \<times> nat) \<Rightarrow> emitter \<Rightarrow> emitter option" where
  "InsertJumpInstructions null span e =
     (case fill_offsets (final_jumps e) (final_sizes null e) 0 of (_, os, added) \<Rightarrow>
        do { mem \<leftarrow> insert_back (rev (final_places null e)) (code_buffer e) (assemblyEnd e + added) (assemblyEnd e);
             marks \<leftarrow> mark_jumps span (final_places null e) (move_lines os (addrToLine e));
             Some (e\<lparr>code_buffer := mem, assemblyEnd := assemblyEnd e + added, JumpInstructions := final_jumps e,
               addrToLine := marks,
               runtimeApiHeader := map (\<lambda>(k, ps). (k, map (\<lambda>p. (fst p + offset_at os p, snd p)) ps)) (runtimeApiHeader e),
               addressTable := (\<lambda>n. map_option (\<lambda>a. a + offset_at os (a, orderTable e n)) (addressTable e n))\<rparr>) })"

section \<open>Offsets\<close>

definition size_before :: "jmpInstruction list \<Rightarrow> int list \<Rightarrow> key \<Rightarrow> nat" where
  "size_before js vs k = sum_list (map (\<lambda>(j, v). if key j \<le> k then jump_size j v else 0) (zip js vs))"

lemma size_before_none: "\<forall>j \<in> set js. \<not> key j \<le> k \<Longrightarrow> size_before js vs k = 0"
  unfolding size_before_def by (induction js vs rule: list_induct2') auto

lemma filter_offsets_none: "\<forall>j \<in> set js. \<not> key j \<le> k \<Longrightarrow> fill_offsets js vs l = (ps, os, t) \<Longrightarrow> filter (\<lambda>(k', _). k' \<le> k) os = []"
  by (induction js vs l arbitrary: ps os t rule: fill_offsets.induct) (auto simp: Let_def split: prod.splits)

text \<open>The entry that is looked up is the size of all jumps up to the key.\<close>

lemma last_offset:
  "sorted (map key js) \<Longrightarrow> fill_offsets js vs l = (ps, os, t) \<Longrightarrow> length js = length vs \<Longrightarrow>
    snd (last ((k0, l) # filter (\<lambda>(k', _). k' \<le> k) os)) = l + size_before js vs k"
proof (induction js vs l arbitrary: k0 ps os t rule: fill_offsets.induct)
  case (1 j js v vs l)
  let ?l = "l + jump_size j v"
  obtain ps' os' where f: "fill_offsets js vs ?l = (ps', os', t)" and os: "os = (key j, ?l) # os'"
    using "1.prems"(2) by (auto simp: Let_def split: prod.splits)
  show ?case
  proof (cases "key j \<le> k")
    case True
    have "snd (last ((key j, ?l) # filter (\<lambda>(k', _). k' \<le> k) os')) = ?l + size_before js vs k"
      by (rule "1.IH" [OF refl _ f]) (use "1.prems" in auto)
    then show ?thesis using True os by (simp add: size_before_def)
  next
    case False
    then have none: "\<forall>i \<in> set js. \<not> key i \<le> k" using "1.prems"(1) by force
    then show ?thesis using False os filter_offsets_none [OF none f] size_before_none [OF none, of vs]
      by (simp add: size_before_def)
  qed
qed (auto simp: size_before_def)

lemma offset_at_size:
  assumes "sorted (map key js)" "fill_offsets js vs 0 = (ps, os, t)" "length js = length vs"
  shows "offset_at os k = size_before js vs k"
  using last_offset [OF assms, of "(0, 0)" k] by (simp add: offset_at_def)

definition jumps_size :: "jmpInstruction list \<Rightarrow> int list \<Rightarrow> nat" where
  "jumps_size js vs = sum_list (map2 jump_size js vs)"

lemma fill_total: "fill_offsets js vs l = (ps, os, t) \<Longrightarrow> t = l + jumps_size js vs"
  unfolding jumps_size_def
  by (induction js vs l arbitrary: ps os t rule: fill_offsets.induct) (auto simp: Let_def split: prod.splits)

lemma fill_positions:
  "fill_offsets js vs l = (ps, os, t) \<Longrightarrow> length js = length vs \<Longrightarrow> i < length js \<Longrightarrow>
    ps ! i = codePos (js ! i) + l + jumps_size (take i js) (take i vs)"
proof (induction js vs l arbitrary: ps os t i rule: fill_offsets.induct)
  case (1 j js v vs l)
  obtain ps' os' where "fill_offsets js vs (l + jump_size j v) = (ps', os', t)" "ps = (codePos j + l) # ps'"
    using "1.prems"(1) by (auto simp: Let_def split: prod.splits)
  then show ?case using "1.IH" [OF refl, of ps' os' t "i - 1"] "1.prems" by (cases i) (auto simp: jumps_size_def)
qed auto

lemma size_before_split:
  assumes "sorted (map key js)" "length js = length vs"
  obtains i where "i \<le> length js" "\<forall>j \<in> set (take i js). key j \<le> k" "\<forall>j \<in> set (drop i js). k < key j"
    "size_before js vs k = jumps_size (take i js) (take i vs)"
proof -
  have "\<exists>i \<le> length js. (\<forall>j \<in> set (take i js). key j \<le> k) \<and> (\<forall>j \<in> set (drop i js). k < key j) \<and>
    size_before js vs k = jumps_size (take i js) (take i vs)"
    using assms
  proof (induction js vs rule: list_induct2')
    case (4 j js v vs)
    show ?case
    proof (cases "key j \<le> k")
      case True
      obtain i where "i \<le> length js" "\<forall>j \<in> set (take i js). key j \<le> k" "\<forall>j \<in> set (drop i js). k < key j"
        "size_before js vs k = jumps_size (take i js) (take i vs)" using 4 by auto
      then show ?thesis using True by (intro exI [of _ "Suc i"]) (simp add: size_before_def jumps_size_def)
    next
      case False
      then have "\<forall>x \<in> set (j # js). \<not> key x \<le> k" using "4.prems"(1) by force
      then show ?thesis using size_before_none [of "j # js" k "v # vs"]
        by (intro exI [of _ 0]) (auto simp: jumps_size_def not_le)
    qed
  qed (auto simp: size_before_def jumps_size_def)
  then show thesis using that by blast
qed

section \<open>What the insertion makes of the code\<close>

text \<open>The code from position \<open>p\<close> on with the bytes of the jumps in their places.\<close>

fun expand :: "byte list \<Rightarrow> nat \<Rightarrow> (nat \<times> byte list) list \<Rightarrow> byte list" where
  "expand code p [] = code"
| "expand code p ((c, bs) # js) = take (c - p) code @ bs @ expand (drop (c - p) code) c js"

definition jump_bytes :: "placed \<Rightarrow> nat \<times> byte list" where
  "jump_bytes = (\<lambda>(j, v, cur, d). (codePos j, fst (printJMP (jmpType j) d v)))"

lemma length_expand:
  "length (expand code p js) = length code + sum_list (map (\<lambda>(_, bs). length bs) js)"
  by (induction code p js rule: expand.induct) auto

lemma expand_append:
  "\<forall>(x, _) \<in> set pre. p \<le> x \<and> x \<le> c \<Longrightarrow> sorted (map fst pre) \<Longrightarrow> p \<le> c \<Longrightarrow> \<forall>(x, _) \<in> set post. c \<le> x \<Longrightarrow>
    c - p \<le> length code \<Longrightarrow> expand code p (pre @ post) = expand (take (c - p) code) p pre @ expand (drop (c - p) code) c post"
proof (induction code p pre rule: expand.induct)
  case (1 code p)
  show ?case
  proof (cases post)
    case (Cons q post')
    obtain x bs where q: "q = (x, bs)" by force
    then have "c \<le> x" using Cons "1.prems" by simp
    then have "take (x - p) code = take (c - p) code @ take (x - c) (drop (c - p) code)"
      using "1.prems"(3) by (metis Nat.diff_diff_right add_diff_inverse_nat diff_add_assoc2 diff_le_mono le_add_diff_inverse2 not_less take_add)
    moreover have "drop (x - p) code = drop (x - c) (drop (c - p) code)" using \<open>c \<le> x\<close> "1.prems"(3) by simp
    ultimately show ?thesis using Cons q by simp
  qed simp
next
  case (2 code p x bs pre)
  have "expand (drop (x - p) code) x (pre @ post) =
    expand (take (c - x) (drop (x - p) code)) x pre @ expand (drop (c - x) (drop (x - p) code)) c post"
    by (rule "2.IH") (use "2.prems" in auto)
  moreover have "min (x - p) (c - p) = x - p" using "2.prems"(1) by auto
  ultimately show ?case using "2.prems" by (simp add: drop_take)
qed

text \<open>The list of jumps is what the loops before have computed: positions, sizes and variants agree.\<close>

fun placed_ok :: "nat \<Rightarrow> placed list \<Rightarrow> bool" where
  "placed_ok l [] \<longleftrightarrow> True"
| "placed_ok l ((j, v, cur, d) # ps) \<longleftrightarrow> cur = codePos j + l \<and> v \<le> 1 \<and> snd (JMPsize (jmpType j) d v) = v \<and>
     placed_ok (l + fst (JMPsize (jmpType j) d v)) ps"

definition bytes_size :: "placed list \<Rightarrow> nat" where
  "bytes_size ps = sum_list (map (\<lambda>(j, v, cur, d). fst (JMPsize (jmpType j) d v)) ps)"

lemma placed_ok_append: "placed_ok l (ps @ qs) \<longleftrightarrow> placed_ok l ps \<and> placed_ok (l + bytes_size ps) qs"
  by (induction l ps rule: placed_ok.induct) (auto simp: bytes_size_def add.assoc)

lemma bytes_size_append [simp]: "bytes_size (ps @ qs) = bytes_size ps + bytes_size qs"
  by (simp add: bytes_size_def)

lemma length_jump_bytes: "v \<le> 1 \<Longrightarrow> length (snd (jump_bytes (j, v, cur, d))) = fst (JMPsize (jmpType j) d v)"
  by (simp add: jump_bytes_def printJMP_size)

lemma length_write_bytes: "a + length bs \<le> length mem \<Longrightarrow> length (write_bytes mem a bs) = length mem"
  by (simp add: write_bytes_def)

text \<open>One jump: its block is moved, and it is written in front of it.\<close>

lemma insert_back_step:
  assumes ok: "v \<le> 1" "snd (JMPsize (jmpType j) d v) = v" and cur: "cur = codePos j + l"
    and le: "codePos j \<le> codeSrc" "codeSrc + l + z \<le> length mem" and z: "z = fst (JMPsize (jmpType j) d v)"
  shows "insert_back ((j, v, cur, d) # ps) mem (codeSrc + l + z) codeSrc =
    insert_back ps (take (codePos j + l) mem @ snd (jump_bytes (j, v, cur, d)) @
      drop (codePos j) (take codeSrc mem) @ drop (codeSrc + l + z) mem) (codePos j + l) (codePos j)"
proof -
  let ?c = "codePos j"
  let ?n = "codeSrc - ?c"
  let ?bs = "snd (jump_bytes (j, v, cur, d))"
  define mem1 where "mem1 = take (?c + l + z) mem @ drop ?c (take codeSrc mem) @ drop (codeSrc + l + z) mem"
  have move: "memmove mem (codeSrc + l + z - ?n) (codeSrc - ?n) ?n = Some mem1"
    using le by (simp add: memmove_def write_bytes_def mem1_def drop_take ac_simps)
  have none: "mem1 = mem" if "?n = 0" using that le by (simp add: mem1_def)
  have len: "length ?bs = z" using ok(1) z by (simp add: length_jump_bytes)
  have written: "write_bytes mem1 (?c + l) ?bs = take (?c + l) mem @ ?bs @ drop ?c (take codeSrc mem) @ drop (codeSrc + l + z) mem"
    using le len by (simp add: write_bytes_def mem1_def)
  have dest: "codeSrc + l + z - ?n - fst (JMPsize (jmpType j) d v) = cur" using le cur z by simp
  have var: "snd (printJMP (jmpType j) d v) = v" using ok printJMP_size(2) [OF ok(1)] by simp
  have "insert_back ((j, v, cur, d) # ps) mem (codeSrc + l + z) codeSrc =
      do { mem \<leftarrow> Some mem1; insert_back ps (write_bytes mem cur ?bs) cur (codeSrc - ?n) }"
    using move none dest var by (cases "?n = 0") (simp_all add: Let_def split_beta jump_bytes_def)
  also have "\<dots> = insert_back ps (take (?c + l) mem @ ?bs @ drop ?c (take codeSrc mem) @ drop (codeSrc + l + z) mem) (?c + l) ?c"
    using written cur le by simp
  finally show ?thesis .
qed

lemma insert_back_expand:
  "placed_ok 0 ps \<Longrightarrow> sorted (map (codePos \<circ> fst) ps) \<Longrightarrow> \<forall>p \<in> set ps. codePos (fst p) \<le> codeSrc \<Longrightarrow>
    codeSrc + bytes_size ps \<le> length mem \<Longrightarrow>
    insert_back (rev ps) mem (codeSrc + bytes_size ps) codeSrc =
      Some (expand (take codeSrc mem) 0 (map jump_bytes ps) @ drop (codeSrc + bytes_size ps) mem)"
proof (induction ps arbitrary: mem codeSrc rule: rev_induct)
  case Nil
  then show ?case by (simp add: bytes_size_def)
next
  case (snoc p ps)
  obtain j v cur d where p: "p = (j, v, cur, d)" by (metis prod_cases4)
  let ?c = "codePos j"
  let ?l = "bytes_size ps"
  let ?z = "fst (JMPsize (jmpType j) d v)"
  let ?bs = "snd (jump_bytes p)"
  have ok: "placed_ok 0 ps" "cur = ?c + ?l" "v \<le> 1" "snd (JMPsize (jmpType j) d v) = v"
    using snoc.prems(1) p by (auto simp: placed_ok_append)
  have le: "?c \<le> codeSrc" "codeSrc + ?l + ?z \<le> length mem" using snoc.prems p by (auto simp: bytes_size_def)
  have len: "length ?bs = ?z" using ok(3) p by (simp add: length_jump_bytes)
  define mem' where "mem' = take (?c + ?l) mem @ ?bs @ drop ?c (take codeSrc mem) @ drop (codeSrc + ?l + ?z) mem"
  have step: "insert_back (rev (ps @ [p])) mem (codeSrc + bytes_size (ps @ [p])) codeSrc = insert_back (rev ps) mem' (?c + ?l) ?c"
    using insert_back_step [OF ok(3,4,2) le refl, of "rev ps"] p by (simp add: mem'_def bytes_size_def add.assoc)
  have rest: "insert_back (rev ps) mem' (?c + ?l) ?c =
      Some (expand (take ?c mem') 0 (map jump_bytes ps) @ drop (?c + ?l) mem')"
    by (rule snoc.IH) (use ok snoc.prems p le in \<open>auto simp: mem'_def sorted_append\<close>)
  have mem': "take ?c mem' = take ?c mem" "drop (?c + ?l) mem' = ?bs @ drop ?c (take codeSrc mem) @ drop (codeSrc + ?l + ?z) mem"
    using le by (auto simp: mem'_def)
  have "expand (take codeSrc mem) 0 (map jump_bytes ps @ [jump_bytes p]) =
      expand (take ?c (take codeSrc mem)) 0 (map jump_bytes ps) @ expand (drop ?c (take codeSrc mem)) ?c [jump_bytes p]"
    using expand_append [of "map jump_bytes ps" 0 ?c "[jump_bytes p]" "take codeSrc mem"] snoc.prems le p
    by (auto simp: jump_bytes_def sorted_append split_beta comp_def)
  also have "\<dots> = expand (take ?c mem) 0 (map jump_bytes ps) @ ?bs @ drop ?c (take codeSrc mem)"
    using le p by (simp add: min_def jump_bytes_def)
  finally show ?case using step rest mem' p by (simp add: bytes_size_def add.assoc)
qed

section \<open>The chosen sizes\<close>

lemma choose_sizes_fixpoint:
  "need_variants null addrs order js (choose_sizes null addrs order js vs) = choose_sizes null addrs order js vs"
proof (induction null addrs order js vs rule: choose_sizes.induct)
  case (1 null addrs order js vs)
  then show ?case
    by (cases "need_variants null addrs order js vs = vs") (simp_all add: choose_sizes.simps [of null addrs order js vs] Let_def)
qed

lemma length_need_variants: "length (need_variants null addrs order js vs) = min (length js) (length vs)"
proof -
  obtain ps os t where "fill_offsets js vs 0 = (ps, os, t)" by (metis prod_cases3)
  then show ?thesis using length_fill_offsets [of js vs 0] by (simp add: need_variants_def)
qed

lemma length_choose_sizes:
  "length vs = length js \<Longrightarrow> length (choose_sizes null addrs order js vs) = length js"
proof (induction null addrs order js vs rule: choose_sizes.induct)
  case (1 null addrs order js vs)
  then show ?case
    by (cases "need_variants null addrs order js vs = vs")
      (simp_all add: choose_sizes.simps [of null addrs order js vs] Let_def length_need_variants)
qed

lemma JMPsize_variant: "snd (JMPsize op d v) \<in> {0, 1}"
  by (auto simp: JMPsize_def split: asm_operation_jmp.splits)

lemma need_variants_01: "set (need_variants null addrs order js vs) \<subseteq> {0, 1}"
  using JMPsize_variant by (fastforce simp: need_variants_def split: prod.splits)

lemma jump_size_variant:
  "snd (JMPsize (jmpType j) d v) = v \<Longrightarrow> v \<in> {0, 1} \<Longrightarrow> fst (JMPsize (jmpType j) d v) = jump_size j v"
  by (auto simp: jump_size_def JMPsize_def word_sle_eq split: if_splits asm_operation_jmp.splits)

lemma jump_size_le: "jump_size j v \<le> 6"
  by (auto simp: jump_size_def JMPsize_def split: asm_operation_jmp.splits)

lemma jumps_size_le: "jumps_size js vs \<le> 6 * length js"
  unfolding jumps_size_def
proof (induction js vs rule: list_induct2')
  case (4 j js v vs)
  then show ?case using jump_size_le [of j v] by simp
qed auto

lemma placed_ok_place:
  assumes "fill_offsets js vs l = (ps, os, t)" "set vs \<subseteq> {0, 1}" "length js = length vs"
    "map (\<lambda>(j, cur, v). snd (JMPsize (jmpType j) (D j cur) v)) (zip js (zip ps vs)) = vs"
  shows "placed_ok l (map (\<lambda>(j, v, cur). (j, v, cur, D j cur)) (zip js (zip vs ps))) \<and>
    bytes_size (map (\<lambda>(j, v, cur). (j, v, cur, D j cur)) (zip js (zip vs ps))) = jumps_size js vs"
  using assms
proof (induction js vs l arbitrary: ps os t rule: fill_offsets.induct)
  case (1 j js v vs l)
  obtain ps' os' where f: "fill_offsets js vs (l + jump_size j v) = (ps', os', t)" and ps: "ps = (codePos j + l) # ps'"
    using "1.prems"(1) by (auto simp: Let_def split: prod.splits)
  have v: "snd (JMPsize (jmpType j) (D j (codePos j + l)) v) = v" "v \<in> {0, 1}" using "1.prems" ps by auto
  note size = jump_size_variant [OF v]
  have "map (\<lambda>(j, cur, v). snd (JMPsize (jmpType j) (D j cur) v)) (zip js (zip ps' vs)) = vs" "set vs \<subseteq> {0, 1}"
    "length js = length vs" using "1.prems" ps by auto
  note IH = "1.IH" [OF refl f this(2,3,1)]
  then show ?case using ps v size by (auto simp: bytes_size_def jumps_size_def)
qed (auto simp: bytes_size_def jumps_size_def)

lemma final_sizes:
  "length (final_sizes null e) = length (final_jumps e)" "set (final_sizes null e) \<subseteq> {0, 1}"
  "need_variants null (addressTable e) (orderTable e) (final_jumps e) (final_sizes null e) = final_sizes null e"
proof -
  show "need_variants null (addressTable e) (orderTable e) (final_jumps e) (final_sizes null e) = final_sizes null e"
    unfolding final_sizes_def by (rule choose_sizes_fixpoint)
  then show "set (final_sizes null e) \<subseteq> {0, 1}" by (metis need_variants_01)
qed (simp add: final_sizes_def length_choose_sizes)

lemma final_places:
  "placed_ok 0 (final_places null e)" "bytes_size (final_places null e) = jumps_size (final_jumps e) (final_sizes null e)"
  "map fst (final_places null e) = final_jumps e"
proof -
  obtain ps os t where f: "fill_offsets (final_jumps e) (final_sizes null e) 0 = (ps, os, t)" by (metis prod_cases3)
  let ?D = "jump_distance null (addressTable e) (orderTable e) os"
  have eq: "final_places null e = map (\<lambda>(j, v, cur). (j, v, cur, ?D j cur)) (zip (final_jumps e) (zip (final_sizes null e) ps))"
    by (simp add: final_places_def place_def f)
  have fixpoint: "map (\<lambda>(j, cur, v). snd (JMPsize (jmpType j) (?D j cur) v)) (zip (final_jumps e) (zip ps (final_sizes null e))) =
      final_sizes null e"
    using final_sizes(3) [of null e] by (simp add: need_variants_def f)
  show "placed_ok 0 (final_places null e)" "bytes_size (final_places null e) = jumps_size (final_jumps e) (final_sizes null e)"
    using placed_ok_place [OF f final_sizes(2) final_sizes(1) [symmetric] fixpoint] eq by auto
  have "length ps = length (final_jumps e)" using length_fill_offsets [of "final_jumps e" "final_sizes null e" 0] f final_sizes(1) [of null e] by simp
  then show "map fst (final_places null e) = final_jumps e"
    using final_sizes(1) [of null e] by (intro nth_equalityI) (auto simp: eq)
qed

section \<open>Every jump lands\<close>

text \<open>
  The code of a worker as it is generated: jumps are inside the code, they lead to operations that have an address,
  and the buffer has room for them.
\<close>

definition emitter_ok :: "emitter \<Rightarrow> bool" where
  "emitter_ok e \<longleftrightarrow>
     (\<forall>j \<in> set (JumpInstructions e). codePos j \<le> assemblyEnd e \<and> jmp_node j \<noteq> None \<and>
       (case destOp j of None \<Rightarrow> False | Some n \<Rightarrow> (case addressTable e n of None \<Rightarrow> False | Some a \<Rightarrow> a \<le> assemblyEnd e))) \<and>
     assemblyEnd e + 6 * length (JumpInstructions e) \<le> length (code_buffer e) \<and>
     assemblyEnd e + 6 * length (JumpInstructions e) + 6 < 2 ^ 31"

lemma final_jumps [simp]:
  "set (final_jumps e) = set (JumpInstructions e)" "sorted (map key (final_jumps e))"
  "length (final_jumps e) = length (JumpInstructions e)"
  by (simp_all add: final_jumps_def)

lemma sorted_codePos: "sorted (map key js) \<Longrightarrow> sorted (map codePos js)"
  by (induction js) (auto simp: key_def)

lemma mark_jump_some: "destOp (fst p) \<noteq> None \<Longrightarrow> jmp_node (fst p) \<noteq> None \<Longrightarrow> \<exists>ms. mark_jump span p marks = Some ms"
  by (cases p) (auto simp: mark_jump_def Let_def)

lemma mark_jumps_some:
  assumes "\<forall>p \<in> set ps. destOp (fst p) \<noteq> None \<and> jmp_node (fst p) \<noteq> None"
  shows "\<exists>ms. mark_jumps span ps marks = Some ms"
proof -
  have "\<forall>p \<in> set qs. destOp (fst p) \<noteq> None \<and> jmp_node (fst p) \<noteq> None \<Longrightarrow> \<exists>ms. fold (\<lambda>p ms. Option.bind ms (mark_jump span p)) qs (Some marks) = Some ms" for qs marks
  proof (induction qs arbitrary: marks)
    case (Cons p qs)
    then show ?case using mark_jump_some [of p span marks] by auto
  qed simp
  then show ?thesis using assms by (simp add: mark_jumps_def)
qed

definition moved :: "int \<Rightarrow> emitter \<Rightarrow> key \<Rightarrow> nat" where
  "moved null e k = fst k + size_before (final_jumps e) (final_sizes null e) k"

definition jump_list :: "int \<Rightarrow> emitter \<Rightarrow> (nat \<times> byte list) list" where
  "jump_list null e = map jump_bytes (final_places null e)"

lemma insertion:
  assumes "emitter_ok e"
  obtains e' where "InsertJumpInstructions null span e = Some e'" "JumpInstructions e' = final_jumps e"
    "assemblyEnd e' = assemblyEnd e + jumps_size (final_jumps e) (final_sizes null e)"
    "code_buffer e' = expand (take (assemblyEnd e) (code_buffer e)) 0 (jump_list null e) @ drop (assemblyEnd e') (code_buffer e)"
    "addressTable e' = (\<lambda>n. map_option (\<lambda>a. moved null e (a, orderTable e n)) (addressTable e n))"
    "runtimeApiHeader e' = map (\<lambda>(k, ps). (k, map (\<lambda>p. (moved null e p, snd p)) ps)) (runtimeApiHeader e)"
proof -
  let ?js = "final_jumps e"
  let ?vs = "final_sizes null e"
  let ?ps = "final_places null e"
  obtain cs os t where f: "fill_offsets ?js ?vs 0 = (cs, os, t)" by (metis prod_cases3)
  have t: "t = jumps_size ?js ?vs" using fill_total [OF f] by simp
  note off = offset_at_size [OF final_jumps(2) f final_sizes(1) [symmetric]]
  have room: "assemblyEnd e + bytes_size ?ps \<le> length (code_buffer e)"
    using assms jumps_size_le [of ?js ?vs] final_places(2) by (simp add: emitter_ok_def)
  have fst: "set (map fst ?ps) = set (JumpInstructions e)" by (simp only: final_places(3) final_jumps(1))
  have "sorted (map codePos (map fst ?ps))" unfolding final_places(3) by (rule sorted_codePos [OF final_jumps(2)])
  then have sorted: "sorted (map (codePos \<circ> fst) ?ps)" by simp
  have dest: "\<forall>p \<in> set ?ps. codePos (fst p) \<le> assemblyEnd e \<and> destOp (fst p) \<noteq> None \<and> jmp_node (fst p) \<noteq> None"
  proof
    fix p assume "p \<in> set ?ps"
    then have "fst p \<in> set (JumpInstructions e)" unfolding fst [symmetric] by simp
    then show "codePos (fst p) \<le> assemblyEnd e \<and> destOp (fst p) \<noteq> None \<and> jmp_node (fst p) \<noteq> None"
      using assms by (auto simp: emitter_ok_def split: option.splits)
  qed
  have inside: "\<forall>p \<in> set ?ps. codePos (fst p) \<le> assemblyEnd e" using dest by blast
  have ins: "insert_back (rev ?ps) (code_buffer e) (assemblyEnd e + t) (assemblyEnd e) =
      Some (expand (take (assemblyEnd e) (code_buffer e)) 0 (jump_list null e) @ drop (assemblyEnd e + t) (code_buffer e))"
    using insert_back_expand [OF final_places(1) sorted inside room] unfolding t final_places(2) jump_list_def .
  have "\<exists>marks. mark_jumps span ?ps (move_lines os (addrToLine e)) = Some marks"
    by (rule mark_jumps_some) (use dest in blast)
  then obtain marks where marks: "mark_jumps span ?ps (move_lines os (addrToLine e)) = Some marks" by blast
  have res: "InsertJumpInstructions null span e = Some (e\<lparr>code_buffer := expand (take (assemblyEnd e) (code_buffer e)) 0
        (jump_list null e) @ drop (assemblyEnd e + t) (code_buffer e), assemblyEnd := assemblyEnd e + t,
      JumpInstructions := final_jumps e, addrToLine := marks,
      runtimeApiHeader := map (\<lambda>(k, ps). (k, map (\<lambda>p. (fst p + offset_at os p, snd p)) ps)) (runtimeApiHeader e),
      addressTable := (\<lambda>n. map_option (\<lambda>a. a + offset_at os (a, orderTable e n)) (addressTable e n))\<rparr>)"
    unfolding InsertJumpInstructions_def f prod.case ins marks bind.bind_lunit by simp
  show thesis by (rule that [OF res]) (simp_all add: t off moved_def)
qed

lemma final_place:
  fixes null :: int
  assumes "i < length (JumpInstructions e)"
  defines "j \<equiv> final_jumps e ! i" and "v \<equiv> final_sizes null e ! i"
    and "cur \<equiv> codePos (final_jumps e ! i) + jumps_size (take i (final_jumps e)) (take i (final_sizes null e))"
  obtains d where "final_places null e ! i = (j, v, cur, d)" "v \<in> {0, 1}" "snd (JMPsize (jmpType j) d v) = v"
    "fst (JMPsize (jmpType j) d v) = jump_size j v"
    "\<And>n a. destOp j = Some n \<Longrightarrow> addressTable e n = Some a \<Longrightarrow> d = word_of_int (int (moved null e (a, orderTable e n)) - int cur)"
proof -
  let ?js = "final_jumps e"
  let ?vs = "final_sizes null e"
  obtain ps os t where f: "fill_offsets ?js ?vs 0 = (ps, os, t)" by (metis prod_cases3)
  note off = offset_at_size [OF final_jumps(2) f final_sizes(1) [symmetric]]
  have len: "length ps = length (JumpInstructions e)" "length ?vs = length (JumpInstructions e)"
    using length_fill_offsets [of ?js ?vs 0] f final_sizes(1) [of null e] by simp_all
  let ?d = "jump_distance null (addressTable e) (orderTable e) os j cur"
  have cur: "ps ! i = cur" unfolding cur_def using fill_positions [OF f, of i] assms(1) len(2) by simp
  have "need_variants null (addressTable e) (orderTable e) ?js ?vs ! i = v"
    unfolding v_def by (simp only: final_sizes(3))
  moreover have "need_variants null (addressTable e) (orderTable e) ?js ?vs ! i = snd (JMPsize (jmpType j) ?d v)"
    unfolding need_variants_def f prod.case by (simp add: assms(1) len cur j_def [symmetric] v_def [symmetric])
  ultimately have v: "snd (JMPsize (jmpType j) ?d v) = v" by simp
  have v01: "v \<in> {0, 1}" 
  proof -
    have "v \<in> set ?vs" unfolding v_def by (rule nth_mem) (simp add: len assms(1))
    then show ?thesis using final_sizes(2) [of null e] by (rule rev_subsetD)
  qed
  have place: "final_places null e ! i = (j, v, cur, ?d)"
    unfolding final_places_def place_def f prod.case by (simp add: assms(1) len cur j_def [symmetric] v_def [symmetric])
  show thesis
  proof (rule that [OF place v01 v])
    show "fst (JMPsize (jmpType j) ?d v) = jump_size j v" by (rule jump_size_variant [OF v v01])
    show "?d = word_of_int (int (moved null e (a, orderTable e n)) - int cur)"
      if "destOp j = Some n" "addressTable e n = Some a" for n a
      using that by (simp add: jump_distance_def op_position_def off moved_def)
  qed
qed

lemma length_final_places [simp]: "length (final_places null e) = length (JumpInstructions e)"
  using arg_cong [OF final_places(3), of length null e] by simp

lemma jump_list_sizes:
  "map fst (jump_list null e) = map codePos (final_jumps e)"
  "map (length \<circ> snd) (jump_list null e) = map2 jump_size (final_jumps e) (final_sizes null e)"
proof -
  show "map fst (jump_list null e) = map codePos (final_jumps e)"
    unfolding final_places(3) [of null, symmetric] by (simp add: jump_list_def jump_bytes_def split_beta comp_def)
  have len: "length (final_sizes null e) = length (JumpInstructions e)" using final_sizes(1) [of null e] by simp
  show "map (length \<circ> snd) (jump_list null e) = map2 jump_size (final_jumps e) (final_sizes null e)"
  proof (rule nth_equalityI)
    fix i assume "i < length (map (length \<circ> snd) (jump_list null e))"
    then have i: "i < length (JumpInstructions e)" by (simp add: jump_list_def)
    show "map (length \<circ> snd) (jump_list null e) ! i = map2 jump_size (final_jumps e) (final_sizes null e) ! i"
      by (rule final_place [OF i, of null]) (use i len in \<open>auto simp: jump_list_def length_jump_bytes\<close>)
  qed (simp add: jump_list_def len)
qed

lemma length_expand_prefix:
  "i \<le> length (JumpInstructions e) \<Longrightarrow> length (expand code p (take i (jump_list null e))) =
    length code + jumps_size (take i (final_jumps e)) (take i (final_sizes null e))"
proof -
  have "map (length \<circ> snd) (take i (jump_list null e)) = map2 jump_size (take i (final_jumps e)) (take i (final_sizes null e))"
    unfolding take_map [symmetric] jump_list_sizes(2) by (simp add: take_map take_zip)
  then have "sum_list (map (length \<circ> snd) (take i (jump_list null e))) = jumps_size (take i (final_jumps e)) (take i (final_sizes null e))"
    by (simp only: jumps_size_def)
  then show ?thesis by (simp add: length_expand comp_def case_prod_unfold)
qed

lemma take_expand: "n \<le> length code \<Longrightarrow> \<forall>(x, _) \<in> set js. c + n \<le> x \<Longrightarrow> take n (expand code c js) = take n code"
  by (cases "(code, c, js)" rule: expand.cases) (auto simp: min_def)

text \<open>The code between two jumps, and after the last one, moves by the size of the jumps before it.\<close>

lemma code_from:
  assumes "emitter_ok e" "InsertJumpInstructions null span e = Some e'" "i \<le> length (JumpInstructions e)" "c \<le> assemblyEnd e"
    "\<forall>j \<in> set (take i (final_jumps e)). codePos j \<le> c" "\<forall>j \<in> set (drop i (final_jumps e)). c \<le> codePos j"
  shows "drop (c + jumps_size (take i (final_jumps e)) (take i (final_sizes null e))) (code_buffer e') =
    expand (drop c (take (assemblyEnd e) (code_buffer e))) c (drop i (jump_list null e)) @ drop (assemblyEnd e') (code_buffer e)"
proof -
  let ?code = "take (assemblyEnd e) (code_buffer e)"
  let ?jl = "jump_list null e"
  have fst: "map fst ?jl = map codePos (final_jumps e)" by (rule jump_list_sizes(1))
  have pre: "\<forall>(x, _) \<in> set (take i ?jl). 0 \<le> x \<and> x \<le> c"
  proof -
    have "\<forall>x \<in> set (map fst (take i ?jl)). x \<le> c" unfolding take_map [symmetric] fst using assms(5) by (simp add: take_map)
    then show ?thesis by auto
  qed
  have post: "\<forall>(x, _) \<in> set (drop i ?jl). c \<le> x"
  proof -
    have "\<forall>x \<in> set (map fst (drop i ?jl)). c \<le> x" unfolding drop_map [symmetric] fst using assms(6) by (simp add: drop_map)
    then show ?thesis by auto
  qed
  have "sorted (map fst ?jl)" unfolding fst by (rule sorted_codePos [OF final_jumps(2)])
  then have sorted: "sorted (map fst (take i ?jl))" unfolding take_map [symmetric] by (rule sorted_wrt_take)
  have len: "c \<le> length ?code" using assms(1,4) by (simp add: emitter_ok_def)
  have "expand ?code 0 ?jl = expand (take c ?code) 0 (take i ?jl) @ expand (drop c ?code) c (drop i ?jl)"
    using expand_append [OF pre sorted _ post, of ?code] len by simp
  moreover have "code_buffer e' = expand ?code 0 ?jl @ drop (assemblyEnd e') (code_buffer e)"
    by (rule insertion [OF assms(1), of null span]) (use assms(2) in simp)
  moreover have "length (expand (take c ?code) 0 (take i ?jl)) = c + jumps_size (take i (final_jumps e)) (take i (final_sizes null e))"
    using length_expand_prefix [OF assms(3)] len by simp
  ultimately show ?thesis by simp
qed

lemma moved_le:
  assumes "fst k \<le> assemblyEnd e"
  shows "moved null e k \<le> assemblyEnd e + 6 * length (JumpInstructions e)"
proof -
  obtain i where "i \<le> length (final_jumps e)"
    "size_before (final_jumps e) (final_sizes null e) k = jumps_size (take i (final_jumps e)) (take i (final_sizes null e))"
    by (rule size_before_split [OF final_jumps(2) final_sizes(1) [symmetric], where k = k])
  then show ?thesis using assms jumps_size_le [of "take i (final_jumps e)" "take i (final_sizes null e)"] by (simp add: moved_def)
qed

lemma jump_lands:
  assumes e: "emitter_ok e" and i: "i < length (JumpInstructions e)"
    and dest: "destOp (final_jumps e ! i) = Some n" "addressTable e n = Some a"
  obtains d where "decode (snd (jump_list null e ! i) @ rest) = Some (jump_insn (jmpType (final_jumps e ! i)) d, rest)"
    "int (codePos (final_jumps e ! i) + jumps_size (take (Suc i) (final_jumps e)) (take (Suc i) (final_sizes null e))) + sint d =
      int (moved null e (a, orderTable e n))"
proof -
  let ?j = "final_jumps e ! i"
  let ?v = "final_sizes null e ! i"
  define cur where "cur = codePos ?j + jumps_size (take i (final_jumps e)) (take i (final_sizes null e))"
  define m where "m = moved null e (a, orderTable e n)"
  obtain w where w: "final_places null e ! i = (?j, ?v, cur, w)" "?v \<in> {0, 1}" "snd (JMPsize (jmpType ?j) w ?v) = ?v"
    "fst (JMPsize (jmpType ?j) w ?v) = jump_size ?j ?v" "w = word_of_int (int m - int cur)"
    using final_place [OF i, of null] dest unfolding cur_def m_def by metis
  have j: "?j \<in> set (JumpInstructions e)" using i nth_mem [of i "final_jumps e"] by simp
  have "codePos ?j \<le> assemblyEnd e" "a \<le> assemblyEnd e" using e j dest by (auto simp: emitter_ok_def)
  then have "m \<le> assemblyEnd e + 6 * length (JumpInstructions e)" "cur \<le> assemblyEnd e + 6 * length (JumpInstructions e)"
    using moved_le [of "(a, orderTable e n)" e null] jumps_size_le [of "take i (final_jumps e)" "take i (final_sizes null e)"] i
    by (auto simp: m_def cur_def)
  then have range: "- (2 ^ 31) + 6 \<le> int m - int cur" "int m - int cur < 2 ^ 31" using e by (auto simp: emitter_ok_def)
  have sint: "sint w = int m - int cur" unfolding w(5) sint_sbintrunc'
    by (rule signed_take_bit_int_eq_self) (use range in auto)
  obtain d where d: "decode (fst (printJMP (jmpType ?j) w ?v) @ rest) = Some (jump_insn (jmpType ?j) d, rest)"
    "sint d + int (fst (JMPsize (jmpType ?j) w ?v)) = sint w"
    by (rule decode_printJMP [of ?v w "jmpType ?j" rest]) (use w(2) sint range in auto)
  have len: "length (final_sizes null e) = length (JumpInstructions e)" using final_sizes(1) [of null e] by simp
  have "jumps_size (take (Suc i) (final_jumps e)) (take (Suc i) (final_sizes null e)) =
      jumps_size (take i (final_jumps e)) (take i (final_sizes null e)) + jump_size ?j ?v"
    using i len by (simp add: take_Suc_conv_app_nth jumps_size_def)
  then show thesis
    using that [of d] d w(4) sint i w(1) by (simp add: jump_list_def jump_bytes_def m_def cur_def)
qed

text \<open>The bytes at a position and after it, up to the next jump, are where the position has moved to.\<close>

lemma code_moved:
  assumes e: "emitter_ok e" "InsertJumpInstructions null span e = Some e'" and k: "fst k + n \<le> assemblyEnd e"
    and following: "\<forall>j \<in> set (JumpInstructions e). k < key j \<longrightarrow> fst k + n \<le> codePos j"
  shows "take n (drop (moved null e k) (code_buffer e')) = take n (drop (fst k) (code_buffer e))"
proof -
  obtain i where i: "i \<le> length (final_jumps e)" "\<forall>j \<in> set (take i (final_jumps e)). key j \<le> k"
    "\<forall>j \<in> set (drop i (final_jumps e)). k < key j"
    "size_before (final_jumps e) (final_sizes null e) k = jumps_size (take i (final_jumps e)) (take i (final_sizes null e))"
    by (rule size_before_split [OF final_jumps(2) final_sizes(1) [symmetric], where k = k])
  let ?code = "take (assemblyEnd e) (code_buffer e)"
  have le: "codePos j \<le> fst k" if "key j \<le> k" for j using that by (cases k) (auto simp: key_def)
  have post: "\<forall>j \<in> set (drop i (final_jumps e)). fst k + n \<le> codePos j"
    using i(3) following set_drop_subset [of i "final_jumps e"] by auto
  have rest: "drop (moved null e k) (code_buffer e') =
      expand (drop (fst k) ?code) (fst k) (drop i (jump_list null e)) @ drop (assemblyEnd e') (code_buffer e)"
    unfolding moved_def i(4) using code_from [OF e, of i "fst k"] i le post k by force
  have "set (map fst (drop i (jump_list null e))) = codePos ` set (drop i (final_jumps e))"
    unfolding drop_map [symmetric] jump_list_sizes(1) by (simp add: drop_map)
  then have ge: "fst k + n \<le> x" if "x \<in> set (map fst (drop i (jump_list null e)))" for x using post that by auto
  have "\<forall>(x, _) \<in> set (drop i (jump_list null e)). fst k + n \<le> x" using ge by fastforce
  moreover have room: "n \<le> length (drop (fst k) ?code)" using k e(1) by (simp add: emitter_ok_def)
  ultimately have "take n (expand (drop (fst k) ?code) (fst k) (drop i (jump_list null e))) = take n (drop (fst k) ?code)"
    by (intro take_expand)
  moreover have "n \<le> length (expand (drop (fst k) ?code) (fst k) (drop i (jump_list null e)))"
    using room by (simp only: length_expand)
  ultimately show ?thesis unfolding rest using k by (simp add: min_def drop_take)
qed

text \<open>
  C9. The insertion of the jumps ends without a failed assertion. The code is then the generated code with the bytes of
  the jumps in their places, in the order in which they were generated, and each jump decodes to its kind with a
  displacement that leads from its end to the final address of the operation it jumps to.
\<close>

theorem jumps_inserted:
  assumes "emitter_ok e"
  shows "\<exists>e' bss. InsertJumpInstructions null span e = Some e' \<and> length bss = length (JumpInstructions e') \<and>
    take (assemblyEnd e') (code_buffer e') =
      expand (take (assemblyEnd e) (code_buffer e)) 0 (zip (map codePos (JumpInstructions e')) bss) \<and>
    (\<forall>i < length bss. \<exists>d. decode (bss ! i) = Some (jump_insn (jmpType (JumpInstructions e' ! i)) d, []) \<and>
      int (codePos (JumpInstructions e' ! i) + length (concat (take (Suc i) bss))) + sint d =
      int (the (addressTable e' (the (destOp (JumpInstructions e' ! i))))))"
proof -
  obtain e' where e': "InsertJumpInstructions null span e = Some e'" "JumpInstructions e' = final_jumps e"
    "assemblyEnd e' = assemblyEnd e + jumps_size (final_jumps e) (final_sizes null e)"
    "code_buffer e' = expand (take (assemblyEnd e) (code_buffer e)) 0 (jump_list null e) @ drop (assemblyEnd e') (code_buffer e)"
    "addressTable e' = (\<lambda>n. map_option (\<lambda>a. moved null e (a, orderTable e n)) (addressTable e n))"
    by (rule insertion [OF assms])
  define bss where "bss = map snd (jump_list null e)"
  have len: "length bss = length (JumpInstructions e)" by (simp add: bss_def jump_list_def)
  have jl: "jump_list null e = zip (map codePos (final_jumps e)) bss"
    unfolding bss_def jump_list_sizes(1) [of null, symmetric] by (simp add: zip_map_fst_snd)
  have "length (expand (take (assemblyEnd e) (code_buffer e)) 0 (jump_list null e)) = assemblyEnd e'"
    using length_expand_prefix [of "length (JumpInstructions e)" e "take (assemblyEnd e) (code_buffer e)" 0 null]
      final_sizes(1) [of null e] assms e'(3) by (simp add: jump_list_def emitter_ok_def)
  then have code: "take (assemblyEnd e') (code_buffer e') = expand (take (assemblyEnd e) (code_buffer e)) 0 (jump_list null e)"
    unfolding e'(4) by simp
  have sizes: "length (concat (take k bss)) = jumps_size (take k (final_jumps e)) (take k (final_sizes null e))" for k
    unfolding length_concat take_map [symmetric] bss_def map_map jump_list_sizes(2) by (simp add: jumps_size_def take_map take_zip)
  have lands: "\<exists>d. decode (bss ! i) = Some (jump_insn (jmpType (final_jumps e ! i)) d, []) \<and>
      int (codePos (final_jumps e ! i) + length (concat (take (Suc i) bss))) + sint d =
      int (the (addressTable e' (the (destOp (final_jumps e ! i)))))" if "i < length bss" for i
  proof -
    have i: "i < length (JumpInstructions e)" using that len by simp
    then have "final_jumps e ! i \<in> set (JumpInstructions e)" using nth_mem [of i "final_jumps e"] by simp
    then obtain n a where n: "destOp (final_jumps e ! i) = Some n" "addressTable e n = Some a"
      using assms by (fastforce simp: emitter_ok_def split: option.splits)
    obtain d where "decode (snd (jump_list null e ! i) @ []) = Some (jump_insn (jmpType (final_jumps e ! i)) d, [])"
      "int (codePos (final_jumps e ! i) + jumps_size (take (Suc i) (final_jumps e)) (take (Suc i) (final_sizes null e))) + sint d =
        int (moved null e (a, orderTable e n))"
      by (rule jump_lands [OF assms i n, where rest = "[]"])
    then show ?thesis using n e'(5) sizes [of "Suc i"] i by (intro exI [of _ d]) (simp add: bss_def jump_list_def)
  qed
  show ?thesis
    by (rule exI [of _ e'], rule exI [of _ bss]) (use e'(1,2) len code jl lands in simp)
qed

text \<open>
  A loop of two operations: a conditional jump forward over 200 bytes and a jump back.
\<close>

definition sample_emitter :: emitter where
  "sample_emitter = \<lparr>code_buffer = replicate 300 0x90, assemblyEnd = 204,
     JumpInstructions = [\<lparr>jmpType = ASM_JZ, codePos = 3, codeOrder = 0, destOp = Some 2, jmp_node = Some 0\<rparr>,
       \<lparr>jmpType = ASM_JMP, codePos = 203, codeOrder = 2, destOp = Some 0, jmp_node = Some 1\<rparr>],
     addressTable = [0 \<mapsto> 0, 1 \<mapsto> 3, 2 \<mapsto> 203], orderTable = (\<lambda>n. n), runtimeApiHeader = [], addrToLine = []\<rparr>"

lemma sample_emitter_ok: "emitter_ok sample_emitter"
  by (simp add: emitter_ok_def sample_emitter_def)

lemma jumps_inserted_witness:
  "\<exists>e' bss. InsertJumpInstructions (- 4096) (\<lambda>n. (n, n)) sample_emitter = Some e' \<and> length bss = length (JumpInstructions e') \<and>
    take (assemblyEnd e') (code_buffer e') =
      expand (take 204 (code_buffer sample_emitter)) 0 (zip (map codePos (JumpInstructions e')) bss) \<and>
    (\<forall>i < length bss. \<exists>d. decode (bss ! i) = Some (jump_insn (jmpType (JumpInstructions e' ! i)) d, []) \<and>
      int (codePos (JumpInstructions e' ! i) + length (concat (take (Suc i) bss))) + sint d =
      int (the (addressTable e' (the (destOp (JumpInstructions e' ! i))))))"
  using jumps_inserted [OF sample_emitter_ok, of "- 4096" "\<lambda>n. (n, n)"] by (simp add: sample_emitter_def)

text \<open>
  The insertion of the jumps keeps the code of every operation: at the updated address of the operation are the bytes
  that were at its address before, up to the next jump that is generated after it.
\<close>

theorem operation_code_kept:
  assumes "emitter_ok e" "InsertJumpInstructions null span e = Some e'" "addressTable e op = Some a" "a + n \<le> assemblyEnd e"
    "\<forall>j \<in> set (JumpInstructions e). (a, orderTable e op) < (codePos j, codeOrder j) \<longrightarrow> a + n \<le> codePos j"
  shows "take n (drop (the (addressTable e' op)) (code_buffer e')) = take n (drop a (code_buffer e))"
proof -
  have "addressTable e' op = Some (moved null e (a, orderTable e op))"
    by (rule insertion [OF assms(1), of null span]) (use assms(2,3) in simp)
  then show ?thesis using code_moved [OF assms(1,2), of "(a, orderTable e op)" n] assms(4,5) by (simp add: key_def)
qed

lemma operation_code_kept_witness:
  "\<exists>e'. InsertJumpInstructions (- 4096) (\<lambda>n. (n, n)) sample_emitter = Some e' \<and>
    take 200 (drop (the (addressTable e' 1)) (code_buffer e')) = take 200 (drop 3 (code_buffer sample_emitter))"
proof -
  obtain e' where e': "InsertJumpInstructions (- 4096) (\<lambda>n. (n, n)) sample_emitter = Some e'"
    by (rule insertion [OF sample_emitter_ok])
  have "take 200 (drop (the (addressTable e' 1)) (code_buffer e')) = take 200 (drop 3 (code_buffer sample_emitter))"
    by (rule operation_code_kept [OF sample_emitter_ok e']) (auto simp: sample_emitter_def)
  then show ?thesis using e' by blast
qed

text \<open>A relocation, the position of an address in the code, moves with the bytes it is in.\<close>

lemma relocation_kept:
  assumes "emitter_ok e" "InsertJumpInstructions null span e = Some e'" "(k, ps) \<in> set (runtimeApiHeader e)" "(a, ord) \<in> set ps"
    "a + 8 \<le> assemblyEnd e" "\<forall>j \<in> set (JumpInstructions e). (a, ord) < key j \<longrightarrow> a + 8 \<le> codePos j"
  shows "\<exists>ps' a'. (k, ps') \<in> set (runtimeApiHeader e') \<and> (a', ord) \<in> set ps' \<and>
    take 8 (drop a' (code_buffer e')) = take 8 (drop a (code_buffer e))"
proof -
  let ?ps = "map (\<lambda>p. (moved null e p, snd p)) ps"
  have "runtimeApiHeader e' = map (\<lambda>(k, ps). (k, map (\<lambda>p. (moved null e p, snd p)) ps)) (runtimeApiHeader e)"
    by (rule insertion [OF assms(1), of null span]) (use assms(2) in simp)
  then have "(k, ?ps) \<in> set (runtimeApiHeader e')" using assms(3) by force
  moreover have "(moved null e (a, ord), ord) \<in> set ?ps" using assms(4) by force
  moreover have "take 8 (drop (moved null e (a, ord)) (code_buffer e')) = take 8 (drop a (code_buffer e))"
    using code_moved [OF assms(1,2), of "(a, ord)" 8] assms(5,6) by simp
  ultimately show ?thesis by blast
qed

end
