(* ===== verification/MemoryAllocator.thy ===== *)
theory MemoryAllocator
  imports Prelude "HOL-Library.Multiset"
begin

text \<open>
  The memory of the variables that have no register: \<^verbatim>\<open>src/codegen/memoryAllocator.cpp\<close>. Each byte of the
  frame has the set of the variables in it; a variable gets the first free and aligned range. The variables are tried
  in the order of their numbers and in one random order, and the shorter frame is taken.
\<close>

section \<open>One variable\<close>

definition fill_cells :: "int \<Rightarrow> int \<Rightarrow> nat \<Rightarrow> int set list \<Rightarrow> int set list" where
  "fill_cells var start i used =
     map (\<lambda>j. if start \<le> int j \<and> j \<le> i then insert var (used ! j) else used ! j) [0..<length used]"

partial_function (option) allocate_loop :: "int \<Rightarrow> int \<Rightarrow> int set list \<Rightarrow> nat \<Rightarrow> int \<Rightarrow> (int \<times> int set list) option" where
  "allocate_loop var varSize used i lastBad =
     (let used = (if length used \<le> i then used @ replicate (i + 1 - length used) {} else used);
          lastBad = (if used ! i \<noteq> {} then int i else lastBad)
      in if varSize \<le> int i - lastBad then
           (if varSize = 0 then None
            else if (int i - varSize + 1) mod varSize = 0 then
              Some (int i - varSize + 1, fill_cells var (int i - varSize + 1) i used)
            else allocate_loop var varSize used (i + 1) lastBad)
         else allocate_loop var varSize used (i + 1) lastBad)"

definition Allocate :: "(int \<Rightarrow> int) \<Rightarrow> int \<Rightarrow> int set list \<Rightarrow> (int \<times> int set list) option" where
  "Allocate sz var used = allocate_loop var (sz var) used 0 (- 1)"

section \<open>All variables\<close>

fun allocate_all :: "(int \<Rightarrow> int) \<Rightarrow> int list \<Rightarrow> int set list \<Rightarrow> (int \<rightharpoonup> int) \<Rightarrow> ((int \<rightharpoonup> int) \<times> int set list) option" where
  "allocate_all sz [] used res = Some (res, used)"
| "allocate_all sz (var # vars) used res =
     do { (a, used) \<leftarrow> Allocate sz var used; allocate_all sz vars used (res(var \<mapsto> a)) }"

definition getMemory :: "(int \<Rightarrow> int) \<Rightarrow> int list \<Rightarrow> nat option" where
  "getMemory sz order = map_option (\<lambda>(_, used). length used) (allocate_all sz order [] Map.empty)"

definition getMemoryMap :: "(int \<Rightarrow> int) \<Rightarrow> int list \<Rightarrow> (int \<rightharpoonup> int) option" where
  "getMemoryMap sz order = map_option fst (allocate_all sz order [] Map.empty)"

text \<open>The random order: \<open>rnd j\<close> is what \<^verbatim>\<open>rand()\<close> returns for the element \<open>j\<close>.\<close>

definition swap_elements :: "nat \<Rightarrow> nat \<Rightarrow> 'a list \<Rightarrow> 'a list" where
  "swap_elements i j xs = xs[i := xs ! j, j := xs ! i]"

definition shuffle_order :: "(nat \<Rightarrow> nat) \<Rightarrow> 'a list \<Rightarrow> 'a list" where
  "shuffle_order rnd order = fold (\<lambda>j order. swap_elements (rnd j mod (j + 1)) j order) [1..<length order] order"

text \<open>The frame of a worker whose loads and stores are of the variables \<open>memoryVars\<close>.\<close>

definition spreadMemory :: "(nat \<Rightarrow> nat) \<Rightarrow> (int \<Rightarrow> int) \<Rightarrow> int set \<Rightarrow> ((int \<rightharpoonup> int) \<times> nat) option" where
  "spreadMemory rnd sz memoryVars =
     (let order = sorted_list_of_set memoryVars; order' = shuffle_order rnd order in
      do { usedMem \<leftarrow> getMemory sz order;
           newMem \<leftarrow> getMemory sz order';
           let (best, usedMem) = (if newMem < usedMem then (order', newMem) else (order, usedMem));
           res \<leftarrow> getMemoryMap sz best;
           Some (res, usedMem) })"

section \<open>The range of one variable\<close>

definition cell :: "int set list \<Rightarrow> nat \<Rightarrow> int set" where
  "cell used j = (if j < length used then used ! j else {})"

lemma cell_resize [simp]: "cell (used @ replicate n {}) j = cell used j"
  by (auto simp: cell_def nth_append)

lemma cell_Nil [simp]: "cell [] j = {}" by (simp add: cell_def)

lemma cell_fill: "i < length used \<Longrightarrow> cell (fill_cells var a i used) j = (if a \<le> int j \<and> j \<le> i then insert var (cell used j) else cell used j)"
  by (auto simp: cell_def fill_cells_def)

lemma length_fill [simp]: "length (fill_cells var a i used) = length used"
  by (simp add: fill_cells_def)

text \<open>
  The search ends at the latest at the first aligned range after all the ranges that are taken; \<open>stop\<close> is its last
  byte.
\<close>

lemma allocate_loop_finds:
  assumes sz: "0 < sz" and stop: "int stop + 1 = k * sz + sz" "int N \<le> k * sz"
    and free: "\<forall>j \<ge> N. cell used j = {}"
    and i: "i \<le> stop" and bad: "- 1 \<le> lastBad" "lastBad < int N" "\<forall>j < i. lastBad < int j \<longrightarrow> cell used j = {}"
  shows "\<exists>a n used'. allocate_loop var sz used i lastBad = Some (int a, used') \<and> int a mod sz = 0 \<and> n = nat sz \<and>
    (\<forall>j. a \<le> j \<and> j < a + n \<longrightarrow> cell used j = {}) \<and> a + n \<le> length used' \<and> length used \<le> length used' \<and>
    (\<forall>j. cell used' j = (if a \<le> j \<and> j < a + n then insert var (cell used j) else cell used j))"
  using i free bad
proof (induction "stop - i" arbitrary: i used lastBad rule: less_induct)
  case less
  define used1 where "used1 = (if length used \<le> i then used @ replicate (i + 1 - length used) {} else used)"
  define bad1 where "bad1 = (if used1 ! i \<noteq> {} then int i else lastBad)"
  have cell1: "cell used1 j = cell used j" for j by (simp add: used1_def)
  have len1: "i < length used1" "length used \<le> length used1" by (auto simp: used1_def)
  have at: "used1 ! i = cell used i" using cell1 [of i] len1 by (simp add: cell_def)
  have taken: "i < N" if "cell used i \<noteq> {}" using less.prems(2) that not_le by blast
  have b1: "- 1 \<le> bad1" "bad1 < int N" "\<forall>j < Suc i. bad1 < int j \<longrightarrow> cell used1 j = {}"
    using less.prems(3-5) taken by (auto simp: bad1_def at cell1 less_Suc_eq)
  note unfold = allocate_loop.simps [of var sz used i lastBad, folded used1_def, unfolded Let_def, folded used1_def bad1_def]
  show ?case
  proof (cases "sz \<le> int i - bad1 \<and> (int i - sz + 1) mod sz = 0")
    case True
    define a where "a = nat (int i - sz + 1)"
    have a: "int a = int i - sz + 1" using True b1(1) sz by (simp add: a_def)
    have range: "a \<le> j \<and> j < a + nat sz \<longleftrightarrow> a \<le> j \<and> j \<le> i" for j using a sz by auto
    have res: "allocate_loop var sz used i lastBad = Some (int a, fill_cells var (int a) i used1)"
      using True unfold sz a by simp
    have "cell used j = {}" if "a \<le> j" "j < a + nat sz" for j
      using that b1(3) cell1 range True a by (auto simp: less_Suc_eq_le)
    moreover have "cell (fill_cells var (int a) i used1) j = (if a \<le> j \<and> j < a + nat sz then insert var (cell used j) else cell used j)" for j
      unfolding range using cell_fill [OF len1(1)] cell1 by simp
    moreover have "a + nat sz \<le> length used1" using a sz len1(1) by linarith
    ultimately show ?thesis using res a True len1(2) by (intro exI [of _ a] exI [of _ "nat sz"] exI) auto
  next
    case False
    have "i \<noteq> stop"
    proof
      assume "i = stop"
      then have "int i - sz + 1 = k * sz" using stop(1) by simp
      then show False using False b1(2) stop(2) by auto
    qed
    then have less_stop: "stop - Suc i < stop - i" "Suc i \<le> stop" using less.prems(1) by auto
    have "allocate_loop var sz used i lastBad = allocate_loop var sz used1 (Suc i) bad1"
      using False unfold sz by auto
    moreover have "\<forall>j \<ge> N. cell used1 j = {}" using less.prems(2) cell1 by simp
    ultimately show ?thesis using less.hyps [OF less_stop(1) less_stop(2) _ b1] cell1 len1(2)
      by (auto intro: order_trans)
  qed
qed

section \<open>The frame\<close>

text \<open>What the cells and the addresses so far are: each variable has an aligned range of its own.\<close>

definition slots_ok :: "(int \<Rightarrow> int) \<Rightarrow> int set list \<Rightarrow> (int \<rightharpoonup> int) \<Rightarrow> bool" where
  "slots_ok sz used res \<longleftrightarrow>
     (\<forall>v a. res v = Some a \<longrightarrow> 0 \<le> a \<and> a mod sz v = 0 \<and> a + sz v \<le> int (length used)) \<and>
     (\<forall>v a j. res v = Some a \<longrightarrow> a \<le> int j \<longrightarrow> int j < a + sz v \<longrightarrow> cell used j = {v})"

lemma Allocate_ok:
  assumes "slots_ok sz used res" "0 < sz var" "res var = None"
  obtains a used' where "Allocate sz var used = Some (a, used')" "slots_ok sz used' (res(var \<mapsto> a))"
    "length used \<le> length used'"
proof -
  let ?N = "length used"
  define k where "k = int ?N div sz var + 1"
  have k: "int ?N \<le> k * sz var" "0 \<le> k * sz var"
  proof -
    define q where "q = int ?N div sz var"
    have "int ?N = q * sz var + int ?N mod sz var" unfolding q_def by (simp only: div_mult_mod_eq)
    moreover have "int ?N mod sz var < sz var" using assms(2) by (rule pos_mod_bound)
    moreover have "k * sz var = q * sz var + sz var" by (simp add: k_def q_def distrib_right)
    ultimately show "int ?N \<le> k * sz var" by linarith
    then show "0 \<le> k * sz var" by simp
  qed
  define stop where "stop = nat (k * sz var + sz var - 1)"
  have stop: "int stop + 1 = k * sz var + sz var" using k assms(2) by (simp add: stop_def)
  have free: "\<forall>j \<ge> ?N. cell used j = {}" by (simp add: cell_def)
  obtain a n used' where r: "allocate_loop var (sz var) used 0 (- 1) = Some (int a, used')" "int a mod sz var = 0" "n = nat (sz var)"
    "\<forall>j. a \<le> j \<and> j < a + n \<longrightarrow> cell used j = {}" "a + n \<le> length used'" "length used \<le> length used'"
    "\<forall>j. cell used' j = (if a \<le> j \<and> j < a + n then insert var (cell used j) else cell used j)"
  proof -
    have "\<exists>a n used'. allocate_loop var (sz var) used 0 (- 1) = Some (int a, used') \<and> int a mod sz var = 0 \<and> n = nat (sz var) \<and>
      (\<forall>j. a \<le> j \<and> j < a + n \<longrightarrow> cell used j = {}) \<and> a + n \<le> length used' \<and> length used \<le> length used' \<and>
      (\<forall>j. cell used' j = (if a \<le> j \<and> j < a + n then insert var (cell used j) else cell used j))"
      by (rule allocate_loop_finds [OF assms(2) stop k(1) free]) simp_all
    then show ?thesis by (elim exE conjE) (rule that)
  qed
  have n: "int n = sz var" using r(3) assms(2) by simp
  have old: "cell used' j = {v}" if "res v = Some b" "b \<le> int j" "int j < b + sz v" for v b j
  proof -
    have "cell used j = {v}" using assms(1) that unfolding slots_ok_def by blast
    then show ?thesis using spec [OF r(4), of j] spec [OF r(7), of j] by auto
  qed
  have new: "cell used' j = {var}" if "int a \<le> int j" "int j < int a + sz var" for j
    using spec [OF r(4), of j] spec [OF r(7), of j] that n by auto
  have "slots_ok sz used' (res(var \<mapsto> int a))"
    unfolding slots_ok_def
  proof (intro conjI allI impI)
    fix v b assume "(res(var \<mapsto> int a)) v = Some b"
    then have "v = var \<and> b = int a \<or> res v = Some b" by (auto split: if_splits)
    then show "0 \<le> b" "b mod sz v = 0" "b + sz v \<le> int (length used')"
      using assms(1) r(2,5,6) n unfolding slots_ok_def by fastforce+
  next
    fix v b j assume "(res(var \<mapsto> int a)) v = Some b" "b \<le> int j" "int j < b + sz v"
    then show "cell used' j = {v}" using old new by (auto split: if_splits)
  qed
  with that show thesis using r(1,6) by (simp add: Allocate_def)
qed

lemma allocate_all_ok:
  "slots_ok sz used res \<Longrightarrow> \<forall>v \<in> set vars. 0 < sz v \<and> res v = None \<Longrightarrow> distinct vars \<Longrightarrow>
    \<exists>res' used'. allocate_all sz vars used res = Some (res', used') \<and> slots_ok sz used' res' \<and> dom res' = set vars \<union> dom res"
proof (induction vars arbitrary: used res)
  case (Cons v vars)
  obtain a used' where a: "Allocate sz v used = Some (a, used')" "slots_ok sz used' (res(v \<mapsto> a))"
    using Allocate_ok [OF Cons.prems(1), of v] Cons.prems(2) by (metis list.set_intros(1))
  have "\<forall>w \<in> set vars. 0 < sz w \<and> (res(v \<mapsto> a)) w = None" using Cons.prems(2,3) by auto
  then obtain res' used'' where "allocate_all sz vars used' (res(v \<mapsto> a)) = Some (res', used'')" "slots_ok sz used'' res'"
    "dom res' = set vars \<union> dom (res(v \<mapsto> a))"
    using Cons.IH [OF a(2)] Cons.prems(3) by (metis distinct.simps(2))
  then show ?case using a(1) by auto
qed auto

lemma mset_swap_elements: "i < length xs \<Longrightarrow> j < length xs \<Longrightarrow> mset (swap_elements i j xs) = mset xs"
  by (simp add: swap_elements_def mset_swap)

lemma mset_shuffle: "mset (shuffle_order rnd order) = mset order"
proof -
  have "mset (fold (\<lambda>j order. swap_elements (rnd j mod (j + 1)) j order) js xs) = mset xs" if "\<forall>j \<in> set js. j < length xs" for js xs
    using that
  proof (induction js arbitrary: xs)
    case (Cons j js)
    let ?ys = "swap_elements (rnd j mod (j + 1)) j xs"
    have j: "j < length xs" using Cons.prems by simp
    moreover have "rnd j mod (j + 1) < j + 1" by simp
    ultimately have "rnd j mod (j + 1) < length xs" by linarith
    then have "mset ?ys = mset xs" using j by (intro mset_swap_elements)
    moreover have "length ?ys = length xs" by (simp add: swap_elements_def)
    ultimately show ?case using Cons by simp
  qed simp
  from this [of "[1..<length order]" order] show ?thesis unfolding shuffle_order_def by simp
qed

lemma spreadMemory_ok:
  assumes "finite memoryVars" "\<forall>v \<in> memoryVars. 0 < sz v"
  obtains res usedMem used where "spreadMemory rnd sz memoryVars = Some (res, usedMem)" "slots_ok sz used res"
    "length used = usedMem" "dom res = memoryVars"
proof -
  let ?order = "sorted_list_of_set memoryVars"
  let ?order' = "shuffle_order rnd ?order"
  have all: "\<exists>res used. allocate_all sz vars [] Map.empty = Some (res, used) \<and> slots_ok sz used res \<and> dom res = memoryVars"
    if "mset vars = mset ?order" for vars
  proof -
    have vars: "set vars = memoryVars" "distinct vars"
      using that assms(1) mset_eq_setD [OF that] mset_eq_imp_distinct_iff [OF that] by (simp_all)
    have "slots_ok sz [] Map.empty" by (simp add: slots_ok_def)
    then show ?thesis using allocate_all_ok [of sz "[]" Map.empty vars] vars assms(2) by auto
  qed
  obtain res1 used1 where 1: "allocate_all sz ?order [] Map.empty = Some (res1, used1)" "slots_ok sz used1 res1" "dom res1 = memoryVars"
    using all [of ?order] by blast
  obtain res2 used2 where 2: "allocate_all sz ?order' [] Map.empty = Some (res2, used2)" "slots_ok sz used2 res2" "dom res2 = memoryVars"
    using all [of ?order'] mset_shuffle by blast
  show thesis
  proof (cases "length used2 < length used1")
    case True
    then show thesis using that 1 2 by (simp add: spreadMemory_def getMemory_def getMemoryMap_def Let_def)
  next
    case False
    then show thesis using that 1 2 by (simp add: spreadMemory_def getMemory_def getMemoryMap_def Let_def)
  qed
qed

text \<open>
  C28. Every variable of the frame gets an aligned address, its bytes are inside the frame, and no two variables share a
  byte; the search for the addresses ends.
\<close>

theorem frame_slots:
  assumes "finite memoryVars" "\<forall>v \<in> memoryVars. 0 < sz v"
  shows "\<exists>res usedMem. spreadMemory rnd sz memoryVars = Some (res, usedMem) \<and> dom res = memoryVars \<and>
    (\<forall>v a. res v = Some a \<longrightarrow> 0 \<le> a \<and> a mod sz v = 0 \<and> a + sz v \<le> int usedMem) \<and>
    (\<forall>v w a b. res v = Some a \<longrightarrow> res w = Some b \<longrightarrow> v \<noteq> w \<longrightarrow> a + sz v \<le> b \<or> b + sz w \<le> a)"
proof -
  obtain res usedMem used where r: "spreadMemory rnd sz memoryVars = Some (res, usedMem)" "slots_ok sz used res"
    "length used = usedMem" "dom res = memoryVars"
    by (rule spreadMemory_ok [OF assms])
  have apart: "a + sz v \<le> b \<or> b + sz w \<le> a" if vw: "res v = Some a" "res w = Some b" "v \<noteq> w" for v w a b
  proof (rule ccontr)
    assume "\<not> ?thesis"
    then have m: "max a b < a + sz v" "max a b < b + sz w" using assms(2) r(4) vw by (auto simp: max_def)
    have "0 \<le> max a b" using r(2) vw(1) unfolding slots_ok_def by (meson max.coboundedI1)
    then obtain j where j: "max a b = int j" using nonneg_int_cases by blast
    have "cell used j = {v}" "cell used j = {w}" using r(2) vw m j unfolding slots_ok_def by (metis max.cobounded1 max.cobounded2)+
    then show False using vw(3) by simp
  qed
  have "\<forall>v a. res v = Some a \<longrightarrow> 0 \<le> a \<and> a mod sz v = 0 \<and> a + sz v \<le> int usedMem"
    using r(2,3) unfolding slots_ok_def by blast
  then show ?thesis using r(1,4) apart by blast
qed

lemma frame_slots_witness:
  "\<exists>res usedMem. spreadMemory (\<lambda>j. j) (\<lambda>v. if v = 7 then 8 else 4) {2, 5, 7} = Some (res, usedMem) \<and> dom res = {2, 5, 7} \<and>
    (\<forall>v a. res v = Some a \<longrightarrow> 0 \<le> a \<and> a mod (if v = 7 then 8 else 4) = 0 \<and> a + (if v = 7 then 8 else 4) \<le> int usedMem) \<and>
    (\<forall>v w a b. res v = Some a \<longrightarrow> res w = Some b \<longrightarrow> v \<noteq> w \<longrightarrow>
      a + (if v = 7 then 8 else 4) \<le> b \<or> b + (if w = 7 then 8 else 4) \<le> a)"
  by (rule frame_slots) simp_all

end
