(* ===== verification/Machine.thy ===== *)
theory Machine
  imports AssemblerCorrect "HOL-Library.Signed_Division"
begin

text \<open>
  What the processor does with the instructions of theory X64: general registers, memory and the four flags that
  conditions depend on. Jumps, calls and returns are not executed here. Flags that the processor leaves undefined
  keep their value.
\<close>

record machine =
  gprs :: "nat \<Rightarrow> i64"
  ram :: "i64 \<Rightarrow> byte"
  zf :: bool
  sf :: bool
  cf :: bool
  overflow_flag :: bool

section \<open>Operands\<close>

definition operand_size :: "operand \<Rightarrow> nat" where
  "operand_size d = (case d of Reg sz n \<Rightarrow> sz | High n \<Rightarrow> 1 | Mem sz b i d \<Rightarrow> sz)"

definition address :: "machine \<Rightarrow> nat \<Rightarrow> (nat \<times> nat) option \<Rightarrow> i64 \<Rightarrow> i64" where
  "address m base index disp = gprs m base + (case index of None \<Rightarrow> 0 | Some (i, k) \<Rightarrow> gprs m i * of_nat k) + disp"

definition load_bytes :: "machine \<Rightarrow> i64 \<Rightarrow> nat \<Rightarrow> byte list" where
  "load_bytes m a n = map (\<lambda>k. ram m (a + of_nat k)) [0..<n]"

definition store_bytes :: "i64 \<Rightarrow> byte list \<Rightarrow> (i64 \<Rightarrow> byte) \<Rightarrow> i64 \<Rightarrow> byte" where
  "store_bytes a bs mem x = (let k = unat (x - a) in if k < length bs then bs ! k else mem x)"

text \<open>The value of an operand, with zeros in front.\<close>

definition read_operand :: "machine \<Rightarrow> operand \<Rightarrow> i64" where
  "read_operand m d =
     (case d of
        Reg sz n \<Rightarrow> take_bit (8 * sz) (gprs m n)
      | High n \<Rightarrow> take_bit 8 (drop_bit 8 (gprs m n))
      | Mem sz b i disp \<Rightarrow> le_word (load_bytes m (address m b i disp) sz))"

text \<open>
  A write of 32 bits clears the upper half of the register, a shorter one leaves the rest of it.
\<close>

definition merge :: "nat \<Rightarrow> i64 \<Rightarrow> i64 \<Rightarrow> i64" where
  "merge sz old v = (if 4 \<le> sz then take_bit (8 * sz) v else (old AND NOT (mask (8 * sz))) OR take_bit (8 * sz) v)"

definition write_operand :: "operand \<Rightarrow> i64 \<Rightarrow> machine \<Rightarrow> machine" where
  "write_operand d v m =
     (case d of
        Reg sz n \<Rightarrow> m\<lparr>gprs := (gprs m)(n := merge sz (gprs m n) v)\<rparr>
      | High n \<Rightarrow> m\<lparr>gprs := (gprs m)(n := (gprs m n AND NOT 0xFF00) OR push_bit 8 (take_bit 8 v))\<rparr>
      | Mem sz b i disp \<Rightarrow> m\<lparr>ram := store_bytes (address m b i disp) (le_bytes sz v) (ram m)\<rparr>)"

section \<open>Flags\<close>

text \<open>The signed and the unsigned value of the low \<open>n\<close> bytes.\<close>

definition sval :: "nat \<Rightarrow> i64 \<Rightarrow> int" where "sval n v = signed_take_bit (8 * n - 1) (uint v)"
definition uval :: "nat \<Rightarrow> i64 \<Rightarrow> int" where "uval n v = take_bit (8 * n) (uint v)"

definition result_flags :: "nat \<Rightarrow> i64 \<Rightarrow> machine \<Rightarrow> machine" where
  "result_flags n r m = m\<lparr>zf := (uval n r = 0), sf := (sval n r < 0)\<rparr>"

definition sub_flags :: "nat \<Rightarrow> i64 \<Rightarrow> i64 \<Rightarrow> machine \<Rightarrow> machine" where
  "sub_flags n a b m = (result_flags n (a - b) m)
     \<lparr>cf := (uval n a < uval n b), overflow_flag := (sval n a - sval n b \<noteq> sval n (a - b))\<rparr>"

definition add_flags :: "nat \<Rightarrow> i64 \<Rightarrow> i64 \<Rightarrow> machine \<Rightarrow> machine" where
  "add_flags n a b m = (result_flags n (a + b) m)
     \<lparr>cf := (uval n a + uval n b \<noteq> uval n (a + b)), overflow_flag := (sval n a + sval n b \<noteq> sval n (a + b))\<rparr>"

definition logic_flags :: "nat \<Rightarrow> i64 \<Rightarrow> machine \<Rightarrow> machine" where
  "logic_flags n r m = (result_flags n r m)\<lparr>cf := False, overflow_flag := False\<rparr>"

text \<open>The condition with the code in the low four bits of the opcode; the last bit negates.\<close>

definition condition :: "machine \<Rightarrow> byte \<Rightarrow> bool" where
  "condition m c =
     (let k = c AND 0x0E;
          v = (if k = 0 then overflow_flag m else if k = 2 then cf m else if k = 4 then zf m else if k = 6 then cf m \<or> zf m
               else if k = 8 then sf m else if k = 12 then sf m \<noteq> overflow_flag m
               else if k = 14 then zf m \<or> sf m \<noteq> overflow_flag m else False)
      in if bit c 0 then \<not> v else v)"

section \<open>Instructions\<close>

definition exec_binary :: "binary \<Rightarrow> operand \<Rightarrow> i64 \<Rightarrow> machine \<Rightarrow> machine" where
  "exec_binary f d b m =
     (let n = operand_size d; a = read_operand m d in
      case f of
        Mov \<Rightarrow> write_operand d b m
      | Add \<Rightarrow> write_operand d (a + b) (add_flags n a b m)
      | Sub \<Rightarrow> write_operand d (a - b) (sub_flags n a b m)
      | Cmp \<Rightarrow> sub_flags n a b m
      | And \<Rightarrow> write_operand d (a AND b) (logic_flags n (a AND b) m)
      | Or \<Rightarrow> write_operand d (a OR b) (logic_flags n (a OR b) m)
      | Xor \<Rightarrow> write_operand d (a XOR b) (logic_flags n (a XOR b) m)
      | Test \<Rightarrow> logic_flags n (a AND b) m
      | Imul \<Rightarrow> write_operand d (a * b) m)"

text \<open>
  A division takes its dividend from \<^verbatim>\<open>rdx\<close> and \<^verbatim>\<open>rax\<close>, or for bytes from \<^verbatim>\<open>ax\<close>. It has no
  result when the divisor is zero or the quotient does not fit.
\<close>

definition dividend_pair :: "nat \<Rightarrow> operand \<times> operand" where
  "dividend_pair n = (if n = 1 then (High 0, Reg 1 0) else (Reg n 2, Reg n 0))"

definition exec_div :: "operand \<Rightarrow> machine \<Rightarrow> machine option" where
  "exec_div d m =
     (let n = operand_size d; (hi, lo) = dividend_pair n;
          x = uval n (read_operand m hi) * 2 ^ (8 * n) + uval n (read_operand m lo);
          y = uval n (read_operand m d)
      in if y = 0 \<or> 2 ^ (8 * n) \<le> x div y then None
         else Some (write_operand hi (word_of_int (x mod y)) (write_operand lo (word_of_int (x div y)) m)))"

definition exec_idiv :: "operand \<Rightarrow> machine \<Rightarrow> machine option" where
  "exec_idiv d m =
     (let n = operand_size d; (hi, lo) = dividend_pair n;
          x = sval n (read_operand m hi) * 2 ^ (8 * n) + uval n (read_operand m lo);
          y = sval n (read_operand m d)
      in if y = 0 \<or> x sdiv y < - (2 ^ (8 * n - 1)) \<or> 2 ^ (8 * n - 1) \<le> x sdiv y then None
         else Some (write_operand hi (word_of_int (x smod y)) (write_operand lo (word_of_int (x sdiv y)) m)))"

definition exec_unary :: "unary \<Rightarrow> operand \<Rightarrow> machine \<Rightarrow> machine option" where
  "exec_unary f d m =
     (let n = operand_size d; a = read_operand m d in
      case f of
        Not \<Rightarrow> Some (write_operand d (NOT a) m)
      | Neg \<Rightarrow> Some (write_operand d (- a) (sub_flags n 0 a m))
      | Div \<Rightarrow> exec_div d m
      | Idiv \<Rightarrow> exec_idiv d m)"

definition exec_shift :: "shift \<Rightarrow> nat \<Rightarrow> i64 \<Rightarrow> nat \<Rightarrow> i64" where
  "exec_shift k n a c =
     (let c = c mod (8 * n) in
      case k of
        Shl \<Rightarrow> push_bit c a
      | Shr \<Rightarrow> drop_bit c (take_bit (8 * n) a)
      | Sar \<Rightarrow> word_of_int (sval n a div 2 ^ c))"

definition exec_insn :: "insn \<Rightarrow> machine \<Rightarrow> machine option" where
  "exec_insn i m =
     (case i of
        Binary f d s \<Rightarrow> Some (exec_binary f d (read_operand m s) m)
      | Extend sign d s \<Rightarrow>
          Some (write_operand d (if sign then word_of_int (sval (operand_size s) (read_operand m s)) else read_operand m s) m)
      | Unary f d \<Rightarrow> exec_unary f d m
      | Set c d \<Rightarrow> Some (write_operand d (if condition m c then 1 else 0) m)
      | Immediate f d v \<Rightarrow> Some (exec_binary f d (take_bit (8 * operand_size d) v) m)
      | Multiply d s v \<Rightarrow> Some (write_operand d (read_operand m s * v) m)
      | Shift k d s c \<Rightarrow> Some (write_operand d (exec_shift k (operand_size d) (read_operand m s) (unat (read_operand m c))) m)
      | SignRax \<Rightarrow> Some (write_operand (Reg 8 2) (if sint (gprs m 0) < 0 then - 1 else 0) m)
      | _ \<Rightarrow> None)"

fun exec_insns :: "insn list \<Rightarrow> machine \<Rightarrow> machine option" where
  "exec_insns [] m = Some m"
| "exec_insns (i # is) m = Option.bind (exec_insn i m) (exec_insns is)"

lemma exec_insns_append: "exec_insns (xs @ ys) m = Option.bind (exec_insns xs m) (exec_insns ys)"
  by (induction xs arbitrary: m) (auto split: Option.bind_splits)

text \<open>As many instructions as are in the bytes, one after the other.\<close>

fun run_bytes :: "nat \<Rightarrow> byte list \<Rightarrow> machine \<Rightarrow> machine option" where
  "run_bytes 0 bs m = (if bs = [] then Some m else None)"
| "run_bytes (Suc n) bs m =
     (case decode bs of None \<Rightarrow> None | Some (i, rest) \<Rightarrow> Option.bind (exec_insn i m) (run_bytes n rest))"

lemma run_decoded: "decode_many n bs = Some (is, []) \<Longrightarrow> run_bytes n bs m = exec_insns is m"
  by (induction n bs arbitrary: "is" m rule: decode_many.induct) (auto split: option.splits Option.bind_splits)

section \<open>Registers\<close>

lemma read_register [simp]: "read_operand m (Reg sz n) = take_bit (8 * sz) (gprs m n)"
  by (simp add: read_operand_def)

lemma merge_low:
  assumes "sz \<in> {1, 2, 4, 8}" "k \<le> sz"
  shows "take_bit (8 * k) (merge sz old v) = take_bit (8 * k) v"
proof -
  have le: "8 * k \<le> 8 * sz" using assms(2) by simp
  have "take_bit (8 * k) ((old AND NOT (mask (8 * sz))) OR take_bit (8 * sz) v) = take_bit (8 * k) v"
    by (rule bit_word_eqI) (use le in \<open>auto simp: bit_simps\<close>)
  then show ?thesis using le by (simp add: merge_def)
qed

lemma write_register:
  "gprs (write_operand (Reg sz n) v m) = (gprs m)(n := merge sz (gprs m n) v)"
  "ram (write_operand (Reg sz n) v m) = ram m" "zf (write_operand (Reg sz n) v m) = zf m"
  "sf (write_operand (Reg sz n) v m) = sf m" "cf (write_operand (Reg sz n) v m) = cf m"
  "overflow_flag (write_operand (Reg sz n) v m) = overflow_flag m"
  by (simp_all add: write_operand_def)

lemma flags_state [simp]:
  "gprs (sub_flags n a b m) = gprs m" "ram (sub_flags n a b m) = ram m"
  "gprs (add_flags n a b m) = gprs m" "ram (add_flags n a b m) = ram m"
  "gprs (logic_flags n a m) = gprs m" "ram (logic_flags n a m) = ram m"
  by (simp_all add: sub_flags_def add_flags_def logic_flags_def result_flags_def)

text \<open>Everything but one register is as before.\<close>

definition only_changes :: "nat set \<Rightarrow> machine \<Rightarrow> machine \<Rightarrow> bool" where
  "only_changes rs m m' \<longleftrightarrow> (\<forall>r. r \<notin> rs \<longrightarrow> gprs m' r = gprs m r) \<and> ram m' = ram m"

lemma only_changes_refl [simp]: "only_changes rs m m" by (simp add: only_changes_def)

lemma only_changes_trans: "only_changes rs m m' \<Longrightarrow> only_changes rs m' m'' \<Longrightarrow> only_changes rs m m''"
  by (simp add: only_changes_def)

lemma only_changes_write: "n \<in> rs \<Longrightarrow> only_changes rs m (write_operand (Reg sz n) v m)"
  by (auto simp: only_changes_def write_register)

end
