(* ===== verification/Codegen.thy ===== *)
theory Codegen
  imports Machine
begin

text \<open>
  Code generation for one operation of a worker: \<^verbatim>\<open>src/codegen/x64_win/operation.cpp\<close> and
  \<^verbatim>\<open>helpers.cpp\<close>. The result is the list of calls of the assembler (theory AssemblerCorrect), with the
  calls of the runtime, whose addresses are relocated by the loader.

  An access beyond the operands of an operation, or to a missing base type, gives no result. A message of
  \<^verbatim>\<open>logError\<close> does not stop the code generator; it is left out, and so is the assertion on the type
  operand of \<^verbatim>\<open>OP_PUSH_VAR\<close>, which is a pointer.
\<close>

section \<open>Types, operations, tables\<close>

datatype TypeContextType =
  TYPE_UNION | TYPE_RECORD | TYPE_CLASS | TYPE_PIPE | TYPE_ARRAY | TYPE_PROMISE | TYPE_SCALAR

datatype ScalarInterpretation =
  SCALAR_F32 | SCALAR_F64 | SCALAR_I8 | SCALAR_I16 | SCALAR_I32 | SCALAR_I64 | SCALAR_U8 | SCALAR_U16 | SCALAR_U32 | SCALAR_U64

text \<open>
  The union of the structure: what the kind of type uses; \<open>scalar_kind\<close> is also what is found in its place when
  the type is no scalar.
\<close>

datatype TypeContext = TypeContext
  (type_size: nat) (type_kind: TypeContextType) (type_provider: string)
  (type_fields: "TypeContext list") (type_base: "TypeContext option") (scalar_kind: ScalarInterpretation)

datatype OperationType =
    OP_LOAD_INPUT | OP_LOAD_OUTPUT | OP_FREE_TEMP | OP_CALL | OP_CAST | OP_MOV
  | OP_NEW_INT | OP_NEW_FLOAT | OP_NEW_ARRAY | OP_NEW_PIPE | OP_NEW_PROMISE | OP_NEW_CLASS | OP_NEW_STRING
  | OP_PUSH_VAR | OP_PUSH_ARRAY | OP_PUSH_PIPE | OP_PUSH_PROMISE | OP_PUSH_CLASS
  | OP_QUERY_VAR | OP_QUERY_ARRAY | OP_QUERY_INDEX | OP_QUERY_PIPE | OP_QUERY_PROMISE | OP_QUERY_CLASS
  | OP_SLEEP | OP_JZ | OP_JNZ
  | OP_ADD | OP_SUB | OP_MUL | OP_DIV | OP_MOD | OP_BOR | OP_BAND | OP_BXOR | OP_SHL | OP_SHR | OP_BNOT
  | OP_EQ | OP_LT | OP_LE | OP_GT | OP_GE | OP_NE
  | OP_STORE | OP_LOAD | OP_STORE_INPUT | OP_JMP

record OperationBlock =
  op_type :: OperationType
  op_data :: "i64 list"
  op_attributes :: "(string \<times> (string + i64)) list"

text \<open>
  The tables of the worker that is compiled. Maps of the code have 0 where they have no entry.
\<close>

record codegen =
  variables :: "i64 \<Rightarrow> TypeContext"
  regTable :: "i64 \<Rightarrow> nat"
  memTable :: "i64 \<Rightarrow> i64"
  worker_inputs :: "TypeContext list"
  worker_outputs :: "TypeContext list"
  idToWorker :: "i64 \<Rightarrow> TypeContext list \<times> TypeContext list"
  exportWorkerId :: "((i64 \<times> string) \<times> i64) list"

datatype emission = Asm asm_call | Api byte

section \<open>Helpers\<close>

definition registers :: "nat list" where "registers = [3, 8, 9, 10, 11, 12, 13, 14, 15]"

definition varType :: "codegen \<Rightarrow> i64 \<Rightarrow> TypeContext" where "varType c name = variables c name"
definition varSize :: "codegen \<Rightarrow> i64 \<Rightarrow> nat" where "varSize c name = type_size (variables c name)"

definition isSigned :: "codegen \<Rightarrow> i64 \<Rightarrow> bool" where
  "isSigned c name \<longleftrightarrow> scalar_kind (varType c name) \<in> {SCALAR_I8, SCALAR_I16, SCALAR_I32, SCALAR_I64}"

definition isApiScalar :: "codegen \<Rightarrow> i64 \<Rightarrow> bool" where
  "isApiScalar c name \<longleftrightarrow> type_kind (varType c name) \<noteq> TYPE_RECORD \<and> type_kind (varType c name) \<noteq> TYPE_UNION"

definition varTypeID :: "TypeContext \<Rightarrow> i64" where
  "varTypeID t = (case type_kind t of TYPE_PIPE \<Rightarrow> 1 | TYPE_PROMISE \<Rightarrow> 2 | TYPE_ARRAY \<Rightarrow> 3 | TYPE_CLASS \<Rightarrow> 4 | _ \<Rightarrow> 0)"

text \<open>The offset of a parameter; a number that is not in range is that of no parameter, and all sizes are added.\<close>

fun sizes_before :: "i64 \<Rightarrow> TypeContext list \<Rightarrow> nat" where
  "sizes_before i [] = 0"
| "sizes_before i (t # ts) = (if i = 0 then 0 else type_size t + sizes_before (i - 1) ts)"

definition GetInputOffset :: "codegen \<Rightarrow> i64 \<Rightarrow> i64" where
  "GetInputOffset c i = of_nat (sizes_before i (worker_inputs c))"

definition GetOutputOffset :: "codegen \<Rightarrow> i64 \<Rightarrow> i64" where
  "GetOutputOffset c i = of_nat (sum_list (map type_size (worker_inputs c)) + sizes_before i (worker_outputs c))"

definition GetWorkerInputTableSize :: "codegen \<Rightarrow> i64 \<Rightarrow> i64" where
  "GetWorkerInputTableSize c i = of_nat (sum_list (map type_size (fst (idToWorker c i) @ snd (idToWorker c i))))"

definition GetClassSize :: "TypeContext \<Rightarrow> i64" where
  "GetClassSize t = of_nat (sum_list (map type_size (type_fields t)))"

definition Register :: "codegen \<Rightarrow> i64 \<Rightarrow> reg" where "Register c var = (registers ! regTable c var, varSize c var)"
definition Register_sized :: "codegen \<Rightarrow> i64 \<Rightarrow> nat \<Rightarrow> reg" where "Register_sized c var sz = (registers ! regTable c var, sz)"

definition InsertMove :: "reg \<Rightarrow> reg \<Rightarrow> bool \<Rightarrow> asm_call list" where
  "InsertMove dest source sign =
     (if snd dest \<le> snd source then
        (if fst dest \<noteq> fst source then [Call_RR ASM_MOV dest (fst source, snd dest)] else [])
      else [Call_RR (if sign then ASM_MOVSX else ASM_MOVZX) dest source])"

definition InsertMove_vars :: "codegen \<Rightarrow> i64 \<Rightarrow> i64 \<Rightarrow> asm_call list" where
  "InsertMove_vars c dest source = InsertMove (Register c dest) (Register c source) (isSigned c dest)"

definition InsertInteger :: "reg \<Rightarrow> i64 \<Rightarrow> asm_call list" where
  "InsertInteger dest v = (if v = 0 then [Call_RR ASM_XOR dest dest] else [Call_RC ASM_MOV_RC dest v])"

definition ExternTo64Bit :: "reg \<Rightarrow> bool \<Rightarrow> asm_call list" where
  "ExternTo64Bit r sign =
     (if snd r = 1 \<or> snd r = 2 then [Call_RR (if sign then ASM_MOVSX else ASM_MOVZX) (fst r, 8) r]
      else if snd r = 4 then (if sign then [Call_RR ASM_MOVSX (fst r, 8) r] else [])
      else [])"

text \<open>The number under which a worker is exported, given out in the order of the requests.\<close>

definition GetExportWorkerId :: "((i64 \<times> string) \<times> i64) list \<Rightarrow> i64 \<Rightarrow> string \<Rightarrow> ((i64 \<times> string) \<times> i64) list \<times> i64" where
  "GetExportWorkerId ids wk provider =
     (case map_of ids (wk, provider) of
        Some n \<Rightarrow> (ids, n)
      | None \<Rightarrow> (((wk, provider), of_nat (length ids)) # ids, of_nat (length ids)))"

datatype header_id_action =
    ACTION_SLEEP | ACTION_PUSH_OBJECT | ACTION_QUERY_OBJECT | ACTION_PUSH_PIPE | ACTION_QUERY_PIPE | ACTION_NEW_OBJECT
  | ACTION_CAST_PROVIDER | ACTION_CALL_WORKER | HEADER_DLL_IMPORT | HEADER_X64_WORKERS | HEADER_GPU_WORKERS
  | HEADER_STRINGS_TABLE | HEADER_ENTRY_ID

text \<open>An unsupported action is \<^verbatim>\<open>-1\<close>, which as a key of the table is 255.\<close>

definition GetHeaderId :: "header_id_action \<Rightarrow> string \<Rightarrow> byte" where
  "GetHeaderId action provider =
     (case action of
        ACTION_SLEEP \<Rightarrow> (if provider = ''x64'' then 50 else - 1)
      | ACTION_NEW_OBJECT \<Rightarrow> (if provider = ''x64'' then 2 else if provider = ''gpu'' then 22 else if provider = ''loc'' then 42 else - 1)
      | ACTION_PUSH_OBJECT \<Rightarrow> (if provider = ''x64'' then 0 else if provider = ''gpu'' then 20 else - 1)
      | ACTION_QUERY_OBJECT \<Rightarrow> (if provider = ''x64'' then 1 else if provider = ''gpu'' then 21 else - 1)
      | ACTION_PUSH_PIPE \<Rightarrow> (if provider = ''x64'' then 8 else 28)
      | ACTION_QUERY_PIPE \<Rightarrow> (if provider = ''x64'' then 9 else 29)
      | ACTION_CALL_WORKER \<Rightarrow> (if provider = ''x64'' then 3 else if provider = ''gpu'' then 23 else if provider = ''dll'' then 33 else - 1)
      | ACTION_CAST_PROVIDER \<Rightarrow> 10
      | HEADER_DLL_IMPORT \<Rightarrow> 4
      | HEADER_X64_WORKERS \<Rightarrow> 16
      | HEADER_GPU_WORKERS \<Rightarrow> 18
      | HEADER_STRINGS_TABLE \<Rightarrow> 17
      | HEADER_ENTRY_ID \<Rightarrow> 80)"

definition ProviderId :: "string \<Rightarrow> i64" where
  "ProviderId name = (if name = ''x64'' then 0 else if name = ''gpu'' then 1 else if name = ''dll'' then 2
     else if name = ''loc'' then 3 else - 1)"

section \<open>Arithmetic\<close>

definition dat :: "OperationBlock \<Rightarrow> nat \<Rightarrow> i64" where "dat op k = op_data op ! k"

definition ABEL_BINOP :: "codegen \<Rightarrow> OperationBlock \<Rightarrow> asm_operation2 \<Rightarrow> asm_call list" where
  "ABEL_BINOP c op t =
     (if regTable c (dat op 0) = regTable c (dat op 2) then [Call_RR t (Register c (dat op 2)) (Register c (dat op 1))]
      else InsertMove_vars c (dat op 0) (dat op 1) @ [Call_RR t (Register c (dat op 0)) (Register c (dat op 2))])"

definition CMPOP :: "codegen \<Rightarrow> OperationBlock \<Rightarrow> asm_operation1 \<Rightarrow> asm_operation1 \<Rightarrow> asm_call list" where
  "CMPOP c op a b =
     [Call_RR ASM_CMP (Register c (dat op 1)) (Register c (dat op 2)),
      Call_RC ASM_MOV_RC (Register c (dat op 0)) 0,
      Call_R (if isSigned c (dat op 0) then a else b) (fst (Register c (dat op 0)), 1),
      Call_R ASM_NEG (Register c (dat op 0))]"

definition subtract_code :: "codegen \<Rightarrow> OperationBlock \<Rightarrow> asm_call list" where
  "subtract_code c op =
     (if regTable c (dat op 0) = regTable c (dat op 2) then
        [Call_RR ASM_SUB (Register c (dat op 0)) (Register c (dat op 1)), Call_R ASM_NEG (Register c (dat op 0))]
      else InsertMove_vars c (dat op 0) (dat op 1) @ [Call_RR ASM_SUB (Register c (dat op 0)) (Register c (dat op 2))])"

text \<open>Quotient and remainder; \<open>result\<close> is the register that has it afterwards.\<close>

definition divide_code :: "codegen \<Rightarrow> OperationBlock \<Rightarrow> nat \<Rightarrow> asm_call list" where
  "divide_code c op result =
     InsertMove (0, 8) (Register c (dat op 1)) (isSigned c (dat op 0)) @
     [if isSigned c (dat op 0) then Call_Z ASM_CQO else Call_RR ASM_XOR (2, 4) (2, 4),
      Call_R (if isSigned c (dat op 0) then ASM_IDIV else ASM_DIV) (Register c (dat op 2))] @
     InsertMove (Register c (dat op 0)) (result, 8) False"

definition arith_code :: "codegen \<Rightarrow> OperationBlock \<Rightarrow> asm_call list option" where
  "arith_code c op =
     (let need = (\<lambda>n code. if n \<le> length (op_data op) then Some code else None) in
      case op_type op of
        OP_MOV \<Rightarrow> need 2 (InsertMove_vars c (dat op 0) (dat op 1))
      | OP_NEW_INT \<Rightarrow> need 2 (InsertInteger (Register_sized c (dat op 0) 8) (dat op 1))
      | OP_NEW_FLOAT \<Rightarrow> Some []
      | OP_BOR \<Rightarrow> need 3 (ABEL_BINOP c op ASM_OR)
      | OP_BAND \<Rightarrow> need 3 (ABEL_BINOP c op ASM_AND)
      | OP_BXOR \<Rightarrow> need 3 (ABEL_BINOP c op ASM_XOR)
      | OP_SHL \<Rightarrow> need 3 [Call_RRR ASM_SHLX (Register c (dat op 0)) (Register c (dat op 1)) (Register c (dat op 2))]
      | OP_SHR \<Rightarrow> need 3 [Call_RRR ASM_SHRX (Register c (dat op 0)) (Register c (dat op 1)) (Register c (dat op 2))]
      | OP_BNOT \<Rightarrow> need 3 (InsertMove_vars c (dat op 0) (dat op 2) @ [Call_R ASM_NOT (Register c (dat op 0))])
      | OP_ADD \<Rightarrow> need 3 (ABEL_BINOP c op ASM_ADD)
      | OP_MUL \<Rightarrow> need 3 (ABEL_BINOP c op ASM_IMUL)
      | OP_SUB \<Rightarrow> need 3 (subtract_code c op)
      | OP_EQ \<Rightarrow> need 3 (CMPOP c op ASM_SETE ASM_SETE)
      | OP_NE \<Rightarrow> need 3 (CMPOP c op ASM_SETNE ASM_SETNE)
      | OP_LT \<Rightarrow> need 3 (CMPOP c op ASM_SETL ASM_SETB)
      | OP_LE \<Rightarrow> need 3 (CMPOP c op ASM_SETLE ASM_SETBE)
      | OP_GT \<Rightarrow> need 3 (CMPOP c op ASM_SETG ASM_SETA)
      | OP_GE \<Rightarrow> need 3 (CMPOP c op ASM_SETGE ASM_SETAE)
      | OP_DIV \<Rightarrow> need 3 (divide_code c op 0)
      | OP_MOD \<Rightarrow> need 3 (divide_code c op 2)
      | _ \<Rightarrow> None)"

section \<open>Memory\<close>

text \<open>Loads and stores of variables in the frame (\<^verbatim>\<open>rbp\<close>) and in the table of parameters (\<^verbatim>\<open>rdi\<close>).\<close>

definition memory_code :: "codegen \<Rightarrow> OperationBlock \<Rightarrow> asm_call list option" where
  "memory_code c op =
     (let need = (\<lambda>n code. if n \<le> length (op_data op) then Some code else None) in
      case op_type op of
        OP_LOAD \<Rightarrow> need 2 [Call_RM (Register c (dat op 0)) (5, 8) (memTable c (dat op 1))]
      | OP_STORE \<Rightarrow> need 2 [Call_MR (5, 8) (Register c (dat op 0)) (memTable c (dat op 1))]
      | OP_LOAD_INPUT \<Rightarrow> need 2 [Call_RM (Register c (dat op 1)) (7, 8) (GetInputOffset c (dat op 0))]
      | OP_LOAD_OUTPUT \<Rightarrow> need 2 [Call_RM (Register c (dat op 1)) (7, 8) (GetOutputOffset c (dat op 0))]
      | OP_STORE_INPUT \<Rightarrow> need 2 [Call_MR (5, 8) (Register c (dat op 0)) (dat op 1)]
      | OP_PUSH_VAR \<Rightarrow> need 4 [Call_MR (5, 8) (Register c (dat op 3)) (memTable c (dat op 0) + dat op 1)]
      | OP_QUERY_VAR \<Rightarrow> need 3 [Call_RM (Register c (dat op 0)) (5, 8) (memTable c (dat op 1) + dat op 2)]
      | _ \<Rightarrow> None)"

section \<open>Calls of the runtime\<close>

definition asm :: "asm_call list \<Rightarrow> emission list" where "asm cs = map Asm cs"

definition base_size :: "codegen \<Rightarrow> i64 \<Rightarrow> nat option" where
  "base_size c var = map_option type_size (type_base (varType c var))"

text \<open>
  The frame of a call: the first arguments, the call, and for a value that is returned its move from \<^verbatim>\<open>rdi\<close>.
\<close>

definition new_code :: "codegen \<Rightarrow> OperationBlock \<Rightarrow> emission list option" where
  "new_code c op =
     (let need = (\<lambda>n code. if n \<le> length (op_data op) then code else None);
          api = Api (GetHeaderId ACTION_NEW_OBJECT (type_provider (varType c (dat op 0))));
          result = asm (InsertMove (Register c (dat op 0)) (7, 8) False);
          plain = (\<lambda>kind sz. asm (InsertInteger (7, 8) kind @ InsertInteger (6, 8) sz @ InsertMove (2, 8) (6, 8) False) @ [api] @ result)
      in case op_type op of
        OP_NEW_STRING \<Rightarrow> need 2 (do { sz \<leftarrow> base_size c (dat op 0);
          Some (asm (InsertInteger (7, 8) 5 @ InsertInteger (6, 8) (dat op 1) @ InsertInteger (2, 8) (of_nat sz)) @ [api] @ result) })
      | OP_NEW_ARRAY \<Rightarrow> need 2 (do { sz \<leftarrow> base_size c (dat op 0);
          Some (asm (InsertInteger (7, 8) 3 @ ExternTo64Bit (Register c (dat op 1)) (isSigned c (dat op 1)) @
            [Call_RRC (6, 8) (Register_sized c (dat op 1) 8) (of_nat sz)] @ InsertInteger (2, 8) (of_nat sz)) @ [api] @ result) })
      | OP_NEW_PROMISE \<Rightarrow> need 1 (do { sz \<leftarrow> base_size c (dat op 0); Some (plain 2 (of_nat sz)) })
      | OP_NEW_CLASS \<Rightarrow> need 1 (Some (plain 4 (GetClassSize (varType c (dat op 0)))))
      | OP_NEW_PIPE \<Rightarrow> need 1 (do { sz \<leftarrow> base_size c (dat op 0); Some (plain 1 (of_nat sz)) })
      | _ \<Rightarrow> None)"

text \<open>
  A push: \<^verbatim>\<open>rcx\<close> the size, negated for a value in a register, \<^verbatim>\<open>rdx\<close> the offset, \<^verbatim>\<open>rdi\<close>
  the object, \<^verbatim>\<open>rsi\<close> the value or its place in the frame.
\<close>

definition push_call :: "codegen \<Rightarrow> header_id_action \<Rightarrow> i64 \<Rightarrow> i64 \<Rightarrow> i64 \<Rightarrow> asm_call list \<Rightarrow> emission list" where
  "push_call c action obj val mem offset_code =
     asm (InsertInteger (1, 8) (if isApiScalar c val then - of_nat (varSize c val) else of_nat (varSize c val)) @ offset_code @
       InsertMove (7, 8) (Register c obj) False @
       (if isApiScalar c val then InsertMove (6, 8) (Register c val) False else InsertInteger (6, 8) (memTable c mem))) @
     [Api (GetHeaderId action (type_provider (varType c obj)))]"

text \<open>The offset of an element: its index times the size, and the offset of a field.\<close>

definition element_offset :: "codegen \<Rightarrow> i64 \<Rightarrow> nat \<Rightarrow> i64 \<Rightarrow> asm_call list" where
  "element_offset c index sz field =
     ExternTo64Bit (Register c index) (isSigned c index) @ [Call_RRC (2, 8) (Register_sized c index 8) (of_nat sz)] @
     (if field \<noteq> 0 then [Call_RC ASM_ADD_RC (2, 8) field] else [])"

text \<open>The element of a local array.\<close>

definition local_element :: "codegen \<Rightarrow> i64 \<Rightarrow> nat \<Rightarrow> (nat \<Rightarrow> reg \<Rightarrow> asm_call) \<Rightarrow> asm_call list" where
  "local_element c index sz access =
     ExternTo64Bit (Register c index) (isSigned c index) @
     (if sz \<in> {1, 2, 4, 8} then [access sz (Register_sized c index 8)]
      else [Call_RRC (2, 8) (Register_sized c index 8) (of_nat sz), access 1 (2, 8)])"

definition push_code :: "codegen \<Rightarrow> OperationBlock \<Rightarrow> emission list option" where
  "push_code c op =
     (let need = (\<lambda>n code. if n \<le> length (op_data op) then code else None);
          loc = (type_provider (varType c (dat op 0)) = ''loc'')
      in case op_type op of
        OP_PUSH_ARRAY \<Rightarrow> need 5 (do { sz \<leftarrow> base_size c (dat op 0);
          Some (if loc then
              (if isApiScalar c (dat op 4) then
                 asm (local_element c (dat op 1) sz (\<lambda>k i. Call_RCRCR (Register c (dat op 0)) k i (dat op 2) (Register c (dat op 4))))
               else [])
            else push_call c ACTION_PUSH_OBJECT (dat op 0) (dat op 4) (dat op 4) (element_offset c (dat op 1) sz (dat op 2))) })
      | OP_PUSH_PROMISE \<Rightarrow> need 2 (Some (push_call c ACTION_PUSH_OBJECT (dat op 0) (dat op 1) (dat op 1) (InsertInteger (2, 8) 0)))
      | OP_PUSH_PIPE \<Rightarrow> need 2 (Some (push_call c ACTION_PUSH_PIPE (dat op 0) (dat op 1) (dat op 1) (InsertInteger (2, 8) 0)))
      | OP_PUSH_CLASS \<Rightarrow> need 4 (
          if loc then
            Some (if isApiScalar c (dat op 3) then asm [Call_MR (Register c (dat op 0)) (Register c (dat op 3)) (dat op 1)] else [])
          else if isApiScalar c (dat op 3) then
            Some (push_call c ACTION_PUSH_OBJECT (dat op 0) (dat op 3) (dat op 3) (InsertInteger (2, 8) (dat op 1)))
          else need 5 (Some (push_call c ACTION_PUSH_OBJECT (dat op 0) (dat op 3) (dat op 4) (InsertInteger (2, 8) (dat op 1)))))
      | _ \<Rightarrow> None)"

text \<open>
  A query: the size as for a push, the offset, for a value in memory its place, the object in \<^verbatim>\<open>rsi\<close>; a value
  in a register comes back in \<^verbatim>\<open>rdi\<close>.
\<close>

definition query_call :: "codegen \<Rightarrow> header_id_action \<Rightarrow> i64 \<Rightarrow> i64 \<Rightarrow> i64 \<Rightarrow> asm_call list \<Rightarrow> emission list" where
  "query_call c action dest obj source offset_code =
     asm (InsertInteger (1, 8) (if isApiScalar c dest then - of_nat (varSize c dest) else of_nat (varSize c dest)) @ offset_code @
       (if isApiScalar c dest then [] else InsertInteger (7, 8) (memTable c dest)) @
       InsertMove (6, 8) (Register c source) False) @
     [Api (GetHeaderId action (type_provider (varType c obj)))] @
     (if isApiScalar c dest then asm (InsertMove (Register c dest) (7, 8) False) else [])"

definition query_code :: "codegen \<Rightarrow> OperationBlock \<Rightarrow> emission list option" where
  "query_code c op =
     (let need = (\<lambda>n code. if n \<le> length (op_data op) then code else None);
          loc = (type_provider (varType c (dat op 1)) = ''loc'');
          plain = (\<lambda>action offset. query_call c action (dat op 0) (dat op 1) (dat op 1) (InsertInteger (2, 8) offset))
      in case op_type op of
        OP_QUERY_INDEX \<Rightarrow> need 5 (do { sz \<leftarrow> base_size c (dat op 1);
          Some (if loc then
              (if isApiScalar c (dat op 0) then
                 asm (local_element c (dat op 4) sz (\<lambda>k i. Call_RRCRC (Register c (dat op 0)) (Register c (dat op 1)) k i (dat op 2)))
               else [])
            else query_call c ACTION_QUERY_OBJECT (dat op 0) (dat op 1) (if isApiScalar c (dat op 0) then dat op 1 else dat op 4)
              (element_offset c (dat op 4) sz (dat op 2))) })
      | OP_QUERY_ARRAY \<Rightarrow> need 2 (Some (
          if loc then asm [Call_RM (Register c (dat op 0)) (Register c (dat op 1)) (- 16)] else plain ACTION_QUERY_OBJECT (- 16)))
      | OP_QUERY_PROMISE \<Rightarrow> need 2 (Some (plain ACTION_QUERY_OBJECT 0))
      | OP_QUERY_CLASS \<Rightarrow> need 3 (Some (
          if loc then
            (if isApiScalar c (dat op 0) then asm [Call_RM (Register c (dat op 0)) (Register c (dat op 1)) (dat op 2)] else [])
          else plain ACTION_QUERY_OBJECT (dat op 2)))
      | OP_QUERY_PIPE \<Rightarrow> need 2 (Some (plain ACTION_QUERY_PIPE 0))
      | _ \<Rightarrow> None)"

text \<open>
  The call of a worker: \<^verbatim>\<open>rdi\<close> says where it is to run, \<^verbatim>\<open>rsi\<close> is the table of its parameters,
  which lies below the frame, \<^verbatim>\<open>rdx\<close> its number. An attribute of another type raises an exception.
\<close>

definition call_code :: "codegen \<Rightarrow> OperationBlock \<Rightarrow> emission list option" where
  "call_code c op =
     (if op_data op = [] then None
      else case (case map_of (op_attributes op) ''provider'' of None \<Rightarrow> Some [] | Some (Inl p) \<Rightarrow> Some p | Some (Inr _) \<Rightarrow> None) of
        None \<Rightarrow> None
      | Some provider \<Rightarrow>
          Some (asm (InsertInteger (2, 8) (snd (GetExportWorkerId (exportWorkerId c) (dat op 0) provider)) @
              InsertMove (6, 8) (5, 8) False @
              (case map_of (op_attributes op) ''on'' of
                 None \<Rightarrow> InsertInteger (7, 8) 0
               | Some (Inl w) \<Rightarrow>
                   if w = ''local'' then InsertInteger (7, 8) 1 else if w = ''remote'' then InsertInteger (7, 8) 2 else []
               | Some (Inr var) \<Rightarrow> InsertMove (7, 8) (Register c var) False) @
              [Call_RC ASM_ADD_RC (6, 8) (- GetWorkerInputTableSize c (dat op 0))]) @
            [Api (GetHeaderId ACTION_CALL_WORKER provider)]))"

definition object_size :: "TypeContext \<Rightarrow> i64 option" where
  "object_size t =
     (case type_kind t of
        TYPE_PROMISE \<Rightarrow> map_option (of_nat \<circ> type_size) (type_base t)
      | TYPE_ARRAY \<Rightarrow> map_option (of_nat \<circ> type_size) (type_base t)
      | TYPE_PIPE \<Rightarrow> map_option (of_nat \<circ> type_size) (type_base t)
      | TYPE_CLASS \<Rightarrow> Some (GetClassSize t)
      | _ \<Rightarrow> Some 0)"

definition cast_code :: "codegen \<Rightarrow> OperationBlock \<Rightarrow> emission list option" where
  "cast_code c op =
     (if length (op_data op) < 2 then None
      else
        let to = varType c (dat op 0); source = varType c (dat op 1);
            tag = (\<lambda>t. ProviderId (type_provider t) OR push_bit 8 (varTypeID t))
        in if (type_kind to = TYPE_SCALAR) \<noteq> (type_kind source = TYPE_SCALAR) \<or> type_provider to = type_provider source then
             Some (asm (InsertMove_vars c (dat op 0) (dat op 1)))
           else
             do { sz \<leftarrow> object_size source;
                  Some (asm (InsertMove (7, 8) (Register c (dat op 1)) False @ InsertInteger (6, 8) (tag to) @
                      InsertInteger (2, 8) (tag source) @ InsertInteger (1, 8) sz) @
                    [Api (GetHeaderId ACTION_CAST_PROVIDER [])] @
                    asm (InsertMove (Register c (dat op 0)) (7, 8) False)) })"

definition sleep_code :: "codegen \<Rightarrow> OperationBlock \<Rightarrow> emission list option" where
  "sleep_code c op =
     (if op_data op = [] then None
      else Some (asm (InsertMove (7, 8) (Register c (dat op 0)) (isSigned c (dat op 0))) @ [Api (GetHeaderId ACTION_SLEEP ''x64'')]))"

section \<open>One operation\<close>

definition test_code :: "codegen \<Rightarrow> OperationBlock \<Rightarrow> emission list option" where
  "test_code c op =
     (if op_data op = [] then None else Some (asm [Call_RR ASM_TEST (Register c (dat op 0)) (Register c (dat op 0))]))"

definition operation_code :: "codegen \<Rightarrow> OperationBlock \<Rightarrow> emission list option" where
  "operation_code c op =
     (if op_type op \<in> {OP_JMP, OP_FREE_TEMP} then Some []
      else if op_type op \<in> {OP_JZ, OP_JNZ} then test_code c op
      else if op_type op \<in> {OP_LOAD, OP_STORE, OP_LOAD_INPUT, OP_LOAD_OUTPUT, OP_STORE_INPUT, OP_PUSH_VAR, OP_QUERY_VAR} then
        map_option asm (memory_code c op)
      else if op_type op = OP_SLEEP then sleep_code c op
      else if op_type op = OP_CALL then call_code c op
      else if op_type op = OP_CAST then cast_code c op
      else if op_type op \<in> {OP_NEW_STRING, OP_NEW_ARRAY, OP_NEW_PROMISE, OP_NEW_CLASS, OP_NEW_PIPE} then new_code c op
      else if op_type op \<in> {OP_PUSH_ARRAY, OP_PUSH_PROMISE, OP_PUSH_PIPE, OP_PUSH_CLASS} then push_code c op
      else if op_type op \<in> {OP_QUERY_INDEX, OP_QUERY_ARRAY, OP_QUERY_PROMISE, OP_QUERY_CLASS, OP_QUERY_PIPE} then query_code c op
      else map_option asm (arith_code c op))"

text \<open>The table of exported workers after the operation.\<close>

definition operation_exports :: "codegen \<Rightarrow> OperationBlock \<Rightarrow> ((i64 \<times> string) \<times> i64) list" where
  "operation_exports c op =
     (if op_type op = OP_CALL then
        fst (GetExportWorkerId (exportWorkerId c) (dat op 0) (case map_of (op_attributes op) ''provider'' of Some (Inl p) \<Rightarrow> p | _ \<Rightarrow> []))
      else exportWorkerId c)"

end
