(* ===== verification/Flags.thy ===== *)
theory Flags
  imports Machine
begin

text \<open>
  The flags after a comparison and the conditions on them: each condition is the comparison, signed or unsigned, of
  the operands at their size.
\<close>

section \<open>Signed and unsigned values\<close>

lemma signed_take_bit_mod: "signed_take_bit k x = (x + 2 ^ k) mod 2 ^ Suc k - (2 ^ k :: int)"
  by (simp add: signed_take_bit_eq_take_bit_shift take_bit_eq_mod)

lemma sval_range: "n \<in> {1, 2, 4, 8} \<Longrightarrow> - (2 ^ (8 * n - 1)) \<le> sval n v \<and> sval n v < 2 ^ (8 * n - 1)"
  unfolding sval_def using signed_take_bit_int_greater_eq_minus_exp [of "8 * n - 1" "uint v"]
    signed_take_bit_int_less_exp [of "8 * n - 1" "uint v"] by simp

lemma uval_range: "0 \<le> uval n v \<and> uval n v < 2 ^ (8 * n)"
  by (simp add: uval_def)

lemma uint_minus_mod: "n \<le> 8 \<Longrightarrow> uint (a - b) mod 2 ^ (8 * n) = (uint a - uint b) mod 2 ^ (8 * n)" for a b :: i64
proof -
  assume n: "n \<le> 8"
  have "take_bit (8 * n) (take_bit 64 (uint a - uint b)) = take_bit (8 * n) (uint a - uint b)"
    using n by (simp add: min_def)
  moreover have "uint (a - b) = take_bit 64 (uint a - uint b)" by (simp add: take_bit_eq_mod uint_word_ariths)
  ultimately show ?thesis by (simp add: take_bit_eq_mod)
qed

lemma uval_mod: "uval n v = uint v mod 2 ^ (8 * n)" by (simp add: uval_def take_bit_eq_mod)

lemma sval_mod: "0 < n \<Longrightarrow> sval n v = (uint v + 2 ^ (8 * n - 1)) mod 2 ^ (8 * n) - 2 ^ (8 * n - 1)"
  unfolding sval_def signed_take_bit_mod by (cases n) simp_all

lemma power_split: "0 < n \<Longrightarrow> (2 :: int) ^ (8 * n) = 2 * 2 ^ (8 * n - 1)"
proof -
  assume "0 < n"
  then have "8 * n = Suc (8 * n - 1)" by simp
  then have "(2 :: int) ^ (8 * n) = 2 ^ Suc (8 * n - 1)" by (rule arg_cong)
  then show ?thesis by (simp only: power_Suc)
qed

text \<open>A signed value from the unsigned one.\<close>

lemma sval_uval:
  assumes "0 < n"
  shows "sval n v = (if uval n v < 2 ^ (8 * n - 1) then uval n v else uval n v - 2 ^ (8 * n))"
proof -
  define P :: int where "P = 2 ^ (8 * n - 1)"
  have P: "(2 :: int) ^ (8 * n) = 2 * P" "0 < P" using power_split [OF assms] by (simp_all only: P_def zero_less_power zero_less_numeral)
  define u where "u = uval n v"
  have u: "u = uint v mod (2 * P)" "0 \<le> u" "u < 2 * P" using P uval_range [of n v] by (simp_all add: u_def uval_mod)
  have "(uint v + P) mod (2 * P) = (u + P) mod (2 * P)" unfolding u(1) by (simp add: mod_simps)
  also have "\<dots> = (if u < P then u + P else u - P)"
  proof (cases "u < P")
    case True
    then show ?thesis using u P by simp
  next
    case False
    have "(u + P) mod (2 * P) = (u - P + 2 * P) mod (2 * P)" by (simp add: algebra_simps)
    also have "\<dots> = (u - P) mod (2 * P)" by (rule mod_add_self2)
    also have "\<dots> = u - P" using False u by (intro mod_pos_pos_trivial) simp_all
    finally show ?thesis using False by simp
  qed
  finally show ?thesis unfolding sval_mod [OF assms] P u_def [symmetric] P_def [symmetric] by simp
qed

lemma sval_eq_uval: "n \<in> {1, 2, 4, 8} \<Longrightarrow> sval n a = sval n b \<longleftrightarrow> uval n a = uval n b"
  using uval_range [of n a] uval_range [of n b] by (auto simp: sval_uval split: if_splits)

lemma uval_minus:
  assumes "n \<in> {1, 2, 4, 8}"
  shows "uval n (a - b) = (if uval n b \<le> uval n a then uval n a - uval n b else uval n a - uval n b + 2 ^ (8 * n))"
proof -
  define Q :: int where "Q = 2 ^ (8 * n)"
  have "uval n (a - b) = (uval n a - uval n b) mod Q"
    using assms uint_minus_mod [of n a b] by (auto simp: uval_mod Q_def mod_diff_eq)
  also have "\<dots> = (if uval n b \<le> uval n a then uval n a - uval n b else uval n a - uval n b + Q)"
  proof (cases "uval n b \<le> uval n a")
    case True
    then show ?thesis using uval_range [of n a] uval_range [of n b] by (simp add: Q_def)
  next
    case False
    have "(uval n a - uval n b) mod Q = (uval n a - uval n b + Q) mod Q" by simp
    also have "\<dots> = uval n a - uval n b + Q" using False uval_range [of n a] uval_range [of n b] by (intro mod_pos_pos_trivial) (auto simp: Q_def)
    finally show ?thesis using False by simp
  qed
  finally show ?thesis by (simp add: Q_def)
qed

section \<open>Conditions\<close>

lemma zero_flag: "n \<in> {1, 2, 4, 8} \<Longrightarrow> uval n (a - b) = 0 \<longleftrightarrow> uval n a = uval n b"
  using uval_range [of n a] uval_range [of n b] by (auto simp: uval_minus split: if_splits)

lemma less_flag:
  assumes "n \<in> {1, 2, 4, 8}"
  shows "(sval n (a - b) < 0) \<noteq> (sval n a - sval n b \<noteq> sval n (a - b)) \<longleftrightarrow> sval n a < sval n b"
proof -
  define P :: int where "P = 2 ^ (8 * n - 1)"
  have n: "0 < n" using assms by auto
  have P: "(2 :: int) ^ (8 * n) = 2 * P" "0 < P" using power_split [OF n] by (simp_all only: P_def zero_less_power zero_less_numeral)
  show ?thesis
    using uval_range [of n a] uval_range [of n b]
    by (simp only: sval_uval [OF n] uval_minus [OF assms] P P_def [symmetric]) (auto split: if_splits)
qed

text \<open>The comparison with the code of the condition, for signed and for unsigned operands.\<close>

lemma condition_flags:
  "condition m 4 = zf m" "condition m 5 = (\<not> zf m)" "condition m 2 = cf m" "condition m 3 = (\<not> cf m)"
  "condition m 6 = (cf m \<or> zf m)" "condition m 7 = (\<not> (cf m \<or> zf m))" "condition m 12 = (sf m \<noteq> overflow_flag m)"
  "condition m 13 = (sf m = overflow_flag m)" "condition m 14 = (zf m \<or> sf m \<noteq> overflow_flag m)"
  "condition m 15 = (\<not> (zf m \<or> sf m \<noteq> overflow_flag m))"
  by (simp_all add: condition_def Let_def bit_simps)

lemma compare_flags:
  assumes "n \<in> {1, 2, 4, 8}"
  shows "zf (sub_flags n a b m) \<longleftrightarrow> uval n a = uval n b" "cf (sub_flags n a b m) \<longleftrightarrow> uval n a < uval n b"
    "(sf (sub_flags n a b m) \<noteq> overflow_flag (sub_flags n a b m)) \<longleftrightarrow> sval n a < sval n b"
  using zero_flag [OF assms, of a b] less_flag [OF assms, of a b] by (simp_all add: sub_flags_def result_flags_def)

end
