(* ===== verification/CodegenCorrect.thy ===== *)
theory CodegenCorrect
  imports Codegen Flags
begin

text \<open>
  The code of an operation computes what the operation means: the bytes that are emitted, run on the machine, leave
  the result in the register of the variable and change no other register of a variable.
\<close>

section \<open>Running what is emitted\<close>

definition run_calls :: "asm_call list \<Rightarrow> machine \<Rightarrow> machine option" where
  "run_calls cs m = exec_insns (concat (map meant cs)) m"

definition run_emitted :: "asm_call list \<Rightarrow> machine \<Rightarrow> machine option" where
  "run_emitted cs m = run_bytes (length (concat (map meant cs))) (concat (map emit cs)) m"

lemma run_emitted_calls: "\<forall>c \<in> set cs. encodable c \<Longrightarrow> run_emitted cs m = run_calls cs m"
  unfolding run_emitted_def run_calls_def using decode_emits [of cs "[]"] by (intro run_decoded) simp

lemma run_calls_append: "run_calls (xs @ ys) m = Option.bind (run_calls xs m) (run_calls ys)"
  by (simp add: run_calls_def [abs_def] exec_insns_append)

lemma run_calls_Cons: "run_calls (x # xs) m = Option.bind (run_calls [x] m) (run_calls xs)"
  using run_calls_append [of "[x]" xs] by simp

lemma run_calls_Nil [simp]: "run_calls [] m = Some m" by (simp add: run_calls_def)

section \<open>The registers of variables\<close>

definition vreg :: "codegen \<Rightarrow> i64 \<Rightarrow> nat" where "vreg c v = registers ! regTable c v"

definition var_ok :: "codegen \<Rightarrow> i64 \<Rightarrow> bool" where
  "var_ok c v \<longleftrightarrow> regTable c v < 9 \<and> varSize c v \<in> {1, 2, 4, 8}"

definition var_value :: "codegen \<Rightarrow> machine \<Rightarrow> i64 \<Rightarrow> i64" where
  "var_value c m v = take_bit (8 * varSize c v) (gprs m (vreg c v))"

lemma Register_vreg: "Register c v = (vreg c v, varSize c v)" by (simp add: Register_def vreg_def)

lemma registers_nth: "n < 9 \<Longrightarrow> registers ! n = (if n = 0 then 3 else n + 7)"
proof -
  assume "n < 9"
  then have "n \<in> {0, 1, 2, 3, 4, 5, 6, 7, 8}" by (auto simp: eval_nat_numeral less_Suc_eq)
  then show ?thesis unfolding registers_def by (elim insertE emptyE) simp_all
qed

lemma vreg_eq: "var_ok c v \<Longrightarrow> var_ok c w \<Longrightarrow> vreg c v = vreg c w \<longleftrightarrow> regTable c v = regTable c w"
  by (auto simp: vreg_def var_ok_def registers_nth split: if_splits)

lemma vreg_range: "var_ok c v \<Longrightarrow> vreg c v < 16 \<and> vreg c v \<notin> {0, 1, 2, 4, 5, 6, 7}"
  by (auto simp: vreg_def var_ok_def registers_nth)

lemma reg_ok_vreg [simp]: "var_ok c v \<Longrightarrow> n \<in> {1, 2, 4, 8} \<Longrightarrow> reg_ok (vreg c v, n)"
  using vreg_range [of c v] by (simp add: reg_ok_def)

section \<open>Moves\<close>

lemma run_move:
  assumes "fst r1 < 16" "fst r2 < 16" "snd r1 = snd r2" "snd r1 \<in> {1, 2, 4, 8}"
  shows "run_calls [Call_RR ASM_MOV r1 r2] m =
    Some (write_operand (Reg (snd r1) (fst r1)) (take_bit (8 * snd r2) (gprs m (fst r2))) m)"
  by (simp add: run_calls_def meaning2_def operand_of_def exec_insn_def exec_binary_def Let_def)

text \<open>The value that is moved: cut off or extended.\<close>

definition moved_value :: "nat \<Rightarrow> nat \<Rightarrow> bool \<Rightarrow> i64 \<Rightarrow> i64" where
  "moved_value k n sign v = (if k \<le> n then take_bit (8 * k) v else if sign then take_bit (8 * k) (word_of_int (sval n v)) else take_bit (8 * n) v)"

lemma merge_take: "take_bit (8 * sz) (merge sz old v) = take_bit (8 * sz) v" if "sz \<in> {1, 2, 4, 8}"
  using merge_low [OF that order_refl] .

lemma sval_take: "n \<in> {1, 2, 4, 8} \<Longrightarrow> sval n (take_bit (8 * n) v) = sval n v"
  unfolding sval_def by (rule bit_eqI) (auto simp: bit_simps bit_uint_iff)

lemma run_InsertMove:
  assumes r: "fst d < 16" "fst s < 16" and n: "snd d \<in> {1, 2, 4, 8}" "snd s \<in> {1, 2, 4, 8}" and ok: "(snd s, snd d) \<noteq> (2, 4)"
  obtains m' where "run_calls (InsertMove d s sign) m = Some m'" "only_changes {fst d} m m'"
    "take_bit (8 * snd d) (gprs m' (fst d)) = moved_value (snd d) (snd s) sign (gprs m (fst s))"
    "zf m' = zf m" "sf m' = sf m" "cf m' = cf m" "overflow_flag m' = overflow_flag m"
proof -
  consider (stay) "snd d \<le> snd s" "fst d = fst s" | (move) "snd d \<le> snd s" "fst d \<noteq> fst s" | (extend) "snd s < snd d" by linarith
  then show thesis
  proof cases
    case stay
    then show ?thesis using that [of m] by (simp add: InsertMove_def moved_value_def)
  next
    case move
    let ?m = "write_operand (Reg (snd d) (fst d)) (take_bit (8 * snd d) (gprs m (fst s))) m"
    have "run_calls (InsertMove d s sign) m = Some ?m"
      using move run_move [of d "(fst s, snd d)" m] r n by (simp add: InsertMove_def)
    then show ?thesis
      by (rule that) (use move n merge_take [OF n(1)] in \<open>simp_all add: only_changes_write write_register moved_value_def\<close>)
  next
    case extend
    define v where "v = (if sign then word_of_int (sval (snd s) (gprs m (fst s))) else take_bit (8 * snd s) (gprs m (fst s)))"
    define k where "k = (if \<not> sign \<and> snd s = 4 then 4 else snd d)"
    let ?m = "write_operand (Reg k (fst d)) v m"
    have k: "k \<in> {1, 2, 4, 8}" using n by (auto simp: k_def)
    have "run_calls (InsertMove d s sign) m = Some ?m"
      using extend ok sval_take [OF n(2)]
      by (auto simp: InsertMove_def run_calls_def meaning2_def extension_of_def operand_of_def exec_insn_def exec_binary_def
          operand_size_def v_def k_def Let_def)
    moreover have "take_bit (8 * snd d) (merge k old v) = moved_value (snd d) (snd s) sign (gprs m (fst s))" for old
    proof (cases "\<not> sign \<and> snd s = 4")
      case True
      then have "snd d = 8" using extend n by auto
      then show ?thesis using True by (simp add: merge_def k_def v_def moved_value_def)
    next
      case False
      then show ?thesis using merge_take [OF n(1), of old v] extend by (auto simp: k_def v_def moved_value_def)
    qed
    ultimately show ?thesis using that [of ?m] by (simp add: only_changes_write write_register)
  qed
qed

lemma encodable_InsertMove:
  assumes "reg_ok d" "reg_ok s" "(snd s, snd d) \<noteq> (2, 4)"
  shows "\<forall>c \<in> set (InsertMove d s sign). encodable c"
  using assms by (auto simp: InsertMove_def reg_ok_def)

section \<open>Arithmetic\<close>

definition asm_function :: "asm_operation2 \<Rightarrow> i64 \<Rightarrow> i64 \<Rightarrow> i64" where
  "asm_function t a b =
     (case t of ASM_OR \<Rightarrow> a OR b | ASM_AND \<Rightarrow> a AND b | ASM_XOR \<Rightarrow> a XOR b | ASM_ADD \<Rightarrow> a + b | ASM_SUB \<Rightarrow> a - b | _ \<Rightarrow> a * b)"

lemma asm_function_low:
  "k \<le> n \<Longrightarrow> take_bit k (asm_function t (take_bit n a) (take_bit n b)) = take_bit k (asm_function t a b)"
proof -
  assume k: "k \<le> n"
  have bits: "take_bit k (f (take_bit n a) (take_bit n b)) = take_bit k (f a b)" if "f \<in> {(OR), (AND), (XOR)}" for f
    by (rule bit_word_eqI) (use k that in \<open>auto simp: bit_simps\<close>)
  have mod: "take_bit k (take_bit n x) = take_bit k x" for x :: i64 using k by (simp add: min_def)
  have low: "take_bit k (take_bit n x) = take_bit k x" for x :: int using k by (simp add: min_def)
  have int: "take_bit k (x + y) = take_bit k (take_bit n x + take_bit n y)" "take_bit k (x * y) = take_bit k (take_bit n x * take_bit n y)"
    "take_bit k (x - y) = take_bit k (take_bit n x - take_bit n y)" for x y :: int
    using take_bit_add [of k "take_bit n x" "take_bit n y"] take_bit_add [of k x y] take_bit_mult [of k "take_bit n x" "take_bit n y"]
      take_bit_mult [of k x y] take_bit_diff [of k "take_bit n x" "take_bit n y"] take_bit_diff [of k x y]
    by (simp_all only: low)
  obtain x y where w: "a = of_int x" "b = of_int y" using that [of "uint a" "uint b"] by simp
  have arith: "take_bit k (take_bit n a + take_bit n b) = take_bit k (a + b)" "take_bit k (take_bit n a * take_bit n b) = take_bit k (a * b)"
    "take_bit k (take_bit n a - take_bit n b) = take_bit k (a - b)"
    unfolding w take_bit_of_int of_int_add [symmetric] of_int_mult [symmetric] of_int_diff [symmetric] int [of x y] by (rule refl)+
  show ?thesis using arith bits [of "(OR)"] bits [of "(AND)"] bits [of "(XOR)"]
    by (cases t) (simp_all only: asm_function_def asm_operation2.case insert_iff simp_thms)
qed

lemma run_binary:
  assumes "t \<in> {ASM_OR, ASM_AND, ASM_XOR, ASM_ADD, ASM_SUB, ASM_IMUL}" "n \<in> {1, 2, 4, 8}"
  obtains m' where "run_calls [Call_RR t (d, n) (s, n)] m = Some m'" "only_changes {d} m m'"
    "take_bit (8 * n) (gprs m' d) = take_bit (8 * n) (asm_function t (gprs m d) (gprs m s))"
proof -
  define k where "k = (if t = ASM_IMUL then max 2 n else n)"
  have k: "k \<in> {1, 2, 4, 8}" "n \<le> k" using assms(2) by (auto simp: k_def)
  define v where "v = asm_function t (take_bit (8 * k) (gprs m d)) (take_bit (8 * k) (gprs m s))"
  have le: "8 * n \<le> 8 * k" using k(2) by simp
  have low: "take_bit (8 * n) (merge k old v) = take_bit (8 * n) (asm_function t (gprs m d) (gprs m s))" for old
    using merge_low [OF k, of old v] asm_function_low [OF le, of t "gprs m d" "gprs m s"] by (simp add: v_def)
  define m0 where "m0 = (case t of ASM_ADD \<Rightarrow> add_flags n (take_bit (8 * n) (gprs m d)) (take_bit (8 * n) (gprs m s)) m
    | ASM_SUB \<Rightarrow> sub_flags n (take_bit (8 * n) (gprs m d)) (take_bit (8 * n) (gprs m s)) m
    | ASM_IMUL \<Rightarrow> m | _ \<Rightarrow> logic_flags n v m)"
  have "run_calls [Call_RR t (d, n) (s, n)] m = Some (write_operand (Reg k d) v m0)" "gprs m0 = gprs m" "ram m0 = ram m"
    using assms(1) by (auto simp: run_calls_def meaning2_def operand_of_def exec_insn_def exec_binary_def operand_size_def
        Let_def v_def k_def asm_function_def m0_def)
  then show thesis
    by (intro that [of "write_operand (Reg k d) v m0"]) (auto simp: only_changes_def write_register low)
qed

lemma take_bit_cong_function:
  "take_bit k a = take_bit k a' \<Longrightarrow> take_bit k b = take_bit k b' \<Longrightarrow> take_bit k (asm_function t a b) = take_bit k (asm_function t a' b')"
  by (metis asm_function_low order_refl)

lemma asm_function_commute: "t \<noteq> ASM_SUB \<Longrightarrow> asm_function t a b = asm_function t b a"
  by (cases t) (simp_all add: asm_function_def ac_simps)

text \<open>The three variables of an operation have registers and one size.\<close>

definition same_size :: "codegen \<Rightarrow> OperationBlock \<Rightarrow> bool" where
  "same_size c op \<longleftrightarrow> length (op_data op) = 3 \<and> (\<forall>k < 3. var_ok c (dat op k)) \<and>
     varSize c (dat op 1) = varSize c (dat op 0) \<and> varSize c (dat op 2) = varSize c (dat op 0)"

lemma same_sizeD:
  assumes "same_size c op"
  shows "var_ok c (dat op 0)" "var_ok c (dat op 1)" "var_ok c (dat op 2)" "varSize c (dat op 1) = varSize c (dat op 0)"
    "varSize c (dat op 2) = varSize c (dat op 0)" "varSize c (dat op 0) \<in> {1, 2, 4, 8}"
  using assms by (auto simp: same_size_def var_ok_def)

lemma run_ABEL_BINOP:
  assumes "same_size c op" "t \<in> {ASM_OR, ASM_AND, ASM_XOR, ASM_ADD, ASM_IMUL}"
  obtains m' where "run_calls (ABEL_BINOP c op t) m = Some m'" "only_changes {vreg c (dat op 0)} m m'"
    "var_value c m' (dat op 0) = take_bit (8 * varSize c (dat op 0)) (asm_function t (var_value c m (dat op 1)) (var_value c m (dat op 2)))"
proof -
  note ok = same_sizeD [OF assms(1)]
  let ?n = "varSize c (dat op 0)"
  let ?d = "vreg c (dat op 0)" and ?a = "vreg c (dat op 1)" and ?b = "vreg c (dat op 2)"
  have t: "t \<in> {ASM_OR, ASM_AND, ASM_XOR, ASM_ADD, ASM_SUB, ASM_IMUL}" "t \<noteq> ASM_SUB" using assms(2) by auto
  have spec: "take_bit (8 * ?n) (asm_function t (var_value c m (dat op 1)) (var_value c m (dat op 2))) =
      take_bit (8 * ?n) (asm_function t (gprs m ?a) (gprs m ?b))"
    using asm_function_low [OF order_refl] ok by (simp add: var_value_def)
  show thesis
  proof (cases "?d = ?b")
    case True
    then have "regTable c (dat op 0) = regTable c (dat op 2)" using vreg_eq [OF ok(1,3)] by simp
    then have code: "ABEL_BINOP c op t = [Call_RR t (?d, ?n) (?a, ?n)]" using True ok by (simp add: ABEL_BINOP_def Register_vreg)
    obtain m' where "run_calls (ABEL_BINOP c op t) m = Some m'" "only_changes {?d} m m'"
      "take_bit (8 * ?n) (gprs m' ?d) = take_bit (8 * ?n) (asm_function t (gprs m ?d) (gprs m ?a))"
      unfolding code by (rule run_binary [OF t(1) ok(6)])
    then show thesis using that spec asm_function_commute [OF t(2)] True by (simp add: var_value_def)
  next
    case False
    then have "regTable c (dat op 0) \<noteq> regTable c (dat op 2)" using vreg_eq [OF ok(1,3)] by simp
    then have code: "ABEL_BINOP c op t = InsertMove (?d, ?n) (?a, ?n) (isSigned c (dat op 0)) @ [Call_RR t (?d, ?n) (?b, ?n)]"
      using ok by (simp add: ABEL_BINOP_def InsertMove_vars_def Register_vreg)
    obtain m1 where m1: "run_calls (InsertMove (?d, ?n) (?a, ?n) (isSigned c (dat op 0))) m = Some m1" "only_changes {?d} m m1"
      "take_bit (8 * ?n) (gprs m1 ?d) = take_bit (8 * ?n) (gprs m ?a)"
      by (rule run_InsertMove [where d = "(?d, ?n)" and s = "(?a, ?n)" and m = m and sign = "isSigned c (dat op 0)"])
        (use vreg_range [OF ok(1)] vreg_range [OF ok(2)] ok(6) in \<open>auto simp: moved_value_def\<close>)
    obtain m2 where m2: "run_calls [Call_RR t (?d, ?n) (?b, ?n)] m1 = Some m2" "only_changes {?d} m1 m2"
      "take_bit (8 * ?n) (gprs m2 ?d) = take_bit (8 * ?n) (asm_function t (gprs m1 ?d) (gprs m1 ?b))"
      by (rule run_binary [OF t(1) ok(6)])
    have "gprs m1 ?b = gprs m ?b" using m1(2) False by (simp add: only_changes_def)
    then have "take_bit (8 * ?n) (gprs m2 ?d) = take_bit (8 * ?n) (asm_function t (gprs m ?a) (gprs m ?b))"
      using m2(3) m1(3) take_bit_cong_function [OF m1(3), of "gprs m1 ?b" "gprs m ?b"] by simp
    moreover have "only_changes {?d} m m2" by (rule only_changes_trans [OF m1(2) m2(2)])
    ultimately show thesis using that [of m2] m1(1) m2(1) spec code by (simp add: run_calls_append var_value_def)
  qed
qed

lemma take_bit_uminus: "take_bit k (- take_bit k a :: i64) = take_bit k (- a)"
  using take_bit_cong_function [of k 0 0 "take_bit k a" a ASM_SUB] by (simp add: asm_function_def)

lemma run_neg:
  assumes "n \<in> {1, 2, 4, 8}"
  obtains m' where "run_calls [Call_R ASM_NEG (d, n)] m = Some m'" "only_changes {d} m m'"
    "take_bit (8 * n) (gprs m' d) = take_bit (8 * n) (- gprs m d)"
proof -
  let ?m = "write_operand (Reg n d) (- take_bit (8 * n) (gprs m d)) (sub_flags n 0 (take_bit (8 * n) (gprs m d)) m)"
  have "run_calls [Call_R ASM_NEG (d, n)] m = Some ?m"
    by (simp add: run_calls_def meaning1_def operand_of_def exec_insn_def exec_unary_def operand_size_def Let_def)
  then show thesis
    by (rule that) (simp_all add: only_changes_def write_register merge_take [OF assms] take_bit_uminus)
qed

lemma run_subtract:
  assumes "same_size c op"
  obtains m' where "run_calls (subtract_code c op) m = Some m'" "only_changes {vreg c (dat op 0)} m m'"
    "var_value c m' (dat op 0) = take_bit (8 * varSize c (dat op 0)) (var_value c m (dat op 1) - var_value c m (dat op 2))"
proof -
  note ok = same_sizeD [OF assms(1)]
  let ?n = "varSize c (dat op 0)"
  let ?d = "vreg c (dat op 0)" and ?a = "vreg c (dat op 1)" and ?b = "vreg c (dat op 2)"
  have spec: "take_bit (8 * ?n) (var_value c m (dat op 1) - var_value c m (dat op 2)) = take_bit (8 * ?n) (gprs m ?a - gprs m ?b)"
    using asm_function_low [OF order_refl, of _ ASM_SUB] ok by (simp add: var_value_def asm_function_def)
  have sub: "asm_function ASM_SUB x y = x - y" for x y by (simp add: asm_function_def)
  show thesis
  proof (cases "?d = ?b")
    case True
    then have "regTable c (dat op 0) = regTable c (dat op 2)" using vreg_eq [OF ok(1,3)] by simp
    then have code: "subtract_code c op = [Call_RR ASM_SUB (?d, ?n) (?a, ?n)] @ [Call_R ASM_NEG (?d, ?n)]"
      using ok by (simp add: subtract_code_def Register_vreg)
    obtain m1 where m1: "run_calls [Call_RR ASM_SUB (?d, ?n) (?a, ?n)] m = Some m1" "only_changes {?d} m m1"
      "take_bit (8 * ?n) (gprs m1 ?d) = take_bit (8 * ?n) (gprs m ?d - gprs m ?a)"
      by (rule run_binary [OF _ ok(6), of ASM_SUB ?d ?a m]) (auto simp: sub)
    obtain m2 where m2: "run_calls [Call_R ASM_NEG (?d, ?n)] m1 = Some m2" "only_changes {?d} m1 m2"
      "take_bit (8 * ?n) (gprs m2 ?d) = take_bit (8 * ?n) (- gprs m1 ?d)"
      by (rule run_neg [OF ok(6)])
    have "take_bit (8 * ?n) (- gprs m1 ?d) = take_bit (8 * ?n) (- (gprs m ?d - gprs m ?a))"
      using take_bit_uminus [of "8 * ?n" "gprs m1 ?d"] take_bit_uminus [of "8 * ?n" "gprs m ?d - gprs m ?a"] m1(3) by simp
    moreover have "run_calls (subtract_code c op) m = Some m2" unfolding code run_calls_append m1(1) by (simp add: m2(1))
    moreover have "only_changes {?d} m m2" by (rule only_changes_trans [OF m1(2) m2(2)])
    ultimately show thesis using that [of m2] m2(3) spec True by (simp add: var_value_def)
  next
    case False
    then have "regTable c (dat op 0) \<noteq> regTable c (dat op 2)" using vreg_eq [OF ok(1,3)] by simp
    then have code: "subtract_code c op = InsertMove (?d, ?n) (?a, ?n) (isSigned c (dat op 0)) @ [Call_RR ASM_SUB (?d, ?n) (?b, ?n)]"
      using ok by (simp add: subtract_code_def InsertMove_vars_def Register_vreg)
    obtain m1 where m1: "run_calls (InsertMove (?d, ?n) (?a, ?n) (isSigned c (dat op 0))) m = Some m1" "only_changes {?d} m m1"
      "take_bit (8 * ?n) (gprs m1 ?d) = take_bit (8 * ?n) (gprs m ?a)"
      by (rule run_InsertMove [where d = "(?d, ?n)" and s = "(?a, ?n)" and m = m and sign = "isSigned c (dat op 0)"])
        (use vreg_range [OF ok(1)] vreg_range [OF ok(2)] ok(6) in \<open>auto simp: moved_value_def\<close>)
    obtain m2 where m2: "run_calls [Call_RR ASM_SUB (?d, ?n) (?b, ?n)] m1 = Some m2" "only_changes {?d} m1 m2"
      "take_bit (8 * ?n) (gprs m2 ?d) = take_bit (8 * ?n) (gprs m1 ?d - gprs m1 ?b)"
      by (rule run_binary [OF _ ok(6), of ASM_SUB ?d ?b m1]) (auto simp: sub)
    have "gprs m1 ?b = gprs m ?b" using m1(2) False by (simp add: only_changes_def)
    then have "take_bit (8 * ?n) (gprs m2 ?d) = take_bit (8 * ?n) (gprs m ?a - gprs m ?b)"
      using m2(3) take_bit_cong_function [OF m1(3) refl, of ASM_SUB "gprs m ?b"] by (simp add: sub)
    moreover have "only_changes {?d} m m2" by (rule only_changes_trans [OF m1(2) m2(2)])
    ultimately show thesis using that [of m2] m1(1) m2(1) spec code by (simp add: run_calls_append var_value_def)
  qed
qed

text \<open>The operations of two variables and the functions they compute.\<close>

definition binop_function :: "OperationType \<Rightarrow> (i64 \<Rightarrow> i64 \<Rightarrow> i64) option" where
  "binop_function t =
     (case t of OP_ADD \<Rightarrow> Some (+) | OP_SUB \<Rightarrow> Some (-) | OP_MUL \<Rightarrow> Some (*)
      | OP_BOR \<Rightarrow> Some (OR) | OP_BAND \<Rightarrow> Some (AND) | OP_BXOR \<Rightarrow> Some (XOR) | _ \<Rightarrow> None)"

definition asm_of_op :: "OperationType \<Rightarrow> asm_operation2" where
  "asm_of_op t = (case t of OP_ADD \<Rightarrow> ASM_ADD | OP_BOR \<Rightarrow> ASM_OR | OP_BAND \<Rightarrow> ASM_AND | OP_BXOR \<Rightarrow> ASM_XOR | _ \<Rightarrow> ASM_IMUL)"

lemma run_binop:
  assumes "same_size c op" "binop_function (op_type op) = Some f"
  obtains cs m' where "arith_code c op = Some cs" "run_calls cs m = Some m'" "only_changes {vreg c (dat op 0)} m m'"
    "var_value c m' (dat op 0) = take_bit (8 * varSize c (dat op 0)) (f (var_value c m (dat op 1)) (var_value c m (dat op 2)))"
    "\<forall>x \<in> set cs. encodable x"
proof -
  let ?t = "asm_of_op (op_type op)"
  note ok = same_sizeD [OF assms(1)]
  have len: "3 \<le> length (op_data op)" using assms(1) by (simp add: same_size_def)
  have enc: "\<forall>x \<in> set (ABEL_BINOP c op t). encodable x" "\<forall>x \<in> set (subtract_code c op). encodable x"
    if "t \<in> {ASM_OR, ASM_AND, ASM_XOR, ASM_ADD, ASM_IMUL}" for t
    using that ok encodable_InsertMove [of "Register c (dat op 0)" "Register c (dat op 1)" "isSigned c (dat op 0)"]
    by (auto simp: ABEL_BINOP_def subtract_code_def InsertMove_vars_def Register_vreg)
  consider (sub) "op_type op = OP_SUB" "f = (-)" "arith_code c op = Some (subtract_code c op)"
    | (other) "?t \<in> {ASM_OR, ASM_AND, ASM_XOR, ASM_ADD, ASM_IMUL}" "f = asm_function ?t" "arith_code c op = Some (ABEL_BINOP c op ?t)"
    using assms(2) len by (cases "op_type op") (auto simp: binop_function_def arith_code_def asm_of_op_def asm_function_def fun_eq_iff)
  then show thesis
  proof cases
    case sub
    obtain m' where "run_calls (subtract_code c op) m = Some m'" "only_changes {vreg c (dat op 0)} m m'"
      "var_value c m' (dat op 0) = take_bit (8 * varSize c (dat op 0)) (var_value c m (dat op 1) - var_value c m (dat op 2))"
      by (rule run_subtract [OF assms(1)])
    then show thesis using that sub enc(2) [of ASM_ADD] by simp
  next
    case other
    obtain m' where "run_calls (ABEL_BINOP c op ?t) m = Some m'" "only_changes {vreg c (dat op 0)} m m'"
      "var_value c m' (dat op 0) = take_bit (8 * varSize c (dat op 0)) (asm_function ?t (var_value c m (dat op 1)) (var_value c m (dat op 2)))"
      by (rule run_ABEL_BINOP [OF assms(1) other(1)])
    then show thesis using that other(2,3) enc(1) [OF other(1)] by simp
  qed
qed

section \<open>Comparisons\<close>

definition compare_function :: "OperationType \<Rightarrow> (int \<Rightarrow> int \<Rightarrow> bool) option" where
  "compare_function t =
     (case t of OP_EQ \<Rightarrow> Some (=) | OP_NE \<Rightarrow> Some (\<noteq>) | OP_LT \<Rightarrow> Some (<) | OP_LE \<Rightarrow> Some (\<le>)
      | OP_GT \<Rightarrow> Some (>) | OP_GE \<Rightarrow> Some (\<ge>) | _ \<Rightarrow> None)"

definition set_operations :: "OperationType \<Rightarrow> asm_operation1 \<times> asm_operation1" where
  "set_operations t =
     (case t of OP_EQ \<Rightarrow> (ASM_SETE, ASM_SETE) | OP_NE \<Rightarrow> (ASM_SETNE, ASM_SETNE) | OP_LT \<Rightarrow> (ASM_SETL, ASM_SETB)
      | OP_LE \<Rightarrow> (ASM_SETLE, ASM_SETBE) | OP_GT \<Rightarrow> (ASM_SETG, ASM_SETA) | _ \<Rightarrow> (ASM_SETGE, ASM_SETAE))"

text \<open>The value of a variable as a number, of the kind that the operation compares.\<close>

definition number_of :: "bool \<Rightarrow> nat \<Rightarrow> i64 \<Rightarrow> int" where
  "number_of sign n v = (if sign then sval n v else uval n v)"

lemma run_set:
  assumes "compare_function t = Some f" "n \<in> {1, 2, 4, 8}"
    "zf m = (uval n a = uval n b)" "cf m = (uval n a < uval n b)" "(sf m \<noteq> overflow_flag m) = (sval n a < sval n b)"
  shows "run_calls [Call_R (if sign then fst (set_operations t) else snd (set_operations t)) (d, 1)] m =
    Some (write_operand (Reg 1 d) (if f (number_of sign n a) (number_of sign n b) then 1 else 0) m)"
proof -
  have eq: "sval n a = sval n b \<longleftrightarrow> zf m" using sval_eq_uval [OF assms(2)] assms(3) by simp
  have "exec_insn (meaning1 (if sign then fst (set_operations t) else snd (set_operations t)) (d, 1)) m =
    Some (write_operand (Reg 1 d) (if f (number_of sign n a) (number_of sign n b) then 1 else 0) m)"
    using assms(1) eq assms(3-5)
    by (cases t; cases sign; simp add: compare_function_def set_operations_def meaning1_def operand_of_def exec_insn_def
        condition_flags number_of_def; (safe; simp)?; linarith?; auto)
  then show ?thesis by (simp add: run_calls_def)
qed

lemma uval_take: "uval n (take_bit (8 * n) v) = uval n v"
  by (simp add: uval_def unsigned_take_bit_eq)

lemma number_of_take: "n \<in> {1, 2, 4, 8} \<Longrightarrow> number_of sign n (take_bit (8 * n) v) = number_of sign n v"
  by (simp add: number_of_def uval_take sval_take)

lemma run_clear:
  assumes "n \<in> {1, 2, 4, 8}"
  obtains m' where "run_calls [Call_RC ASM_MOV_RC (d, n) 0] m = Some m'" "only_changes {d} m m'" "take_bit (8 * n) (gprs m' d) = 0"
    "zf m' = zf m" "sf m' = sf m" "cf m' = cf m" "overflow_flag m' = overflow_flag m"
proof -
  define k where "k = (if n = 8 then 4 else n)"
  have "run_calls [Call_RC ASM_MOV_RC (d, n) 0] m = Some (write_operand (Reg k d) 0 m)"
    by (simp add: run_calls_def move_constant_def operand_of_def exec_insn_def exec_binary_def Let_def sign_extend_def k_def)
  moreover have "take_bit (8 * n) (merge k old 0) = 0" for old
    using assms merge_take [OF assms, of old 0] by (auto simp: k_def merge_def)
  ultimately show thesis using that [of "write_operand (Reg k d) 0 m"] by (simp add: only_changes_write write_register)
qed

lemma run_CMPOP:
  assumes ok: "var_ok c (dat op 0)" "var_ok c (dat op 1)" "var_ok c (dat op 2)" "varSize c (dat op 2) = varSize c (dat op 1)"
    and f: "compare_function t = Some f"
  defines "sign \<equiv> isSigned c (dat op 0)" and "n \<equiv> varSize c (dat op 1)" and "k \<equiv> varSize c (dat op 0)"
  obtains m' where "run_calls (CMPOP c op (fst (set_operations t)) (snd (set_operations t))) m = Some m'"
    "only_changes {vreg c (dat op 0)} m m'"
    "var_value c m' (dat op 0) =
      (if f (number_of sign n (var_value c m (dat op 1))) (number_of sign n (var_value c m (dat op 2))) then mask (8 * k) else 0)"
proof -
  let ?d = "vreg c (dat op 0)" and ?a = "var_value c m (dat op 1)" and ?b = "var_value c m (dat op 2)"
  let ?set = "if sign then fst (set_operations t) else snd (set_operations t)"
  have n: "n \<in> {1, 2, 4, 8}" and k: "k \<in> {1, 2, 4, 8}" using ok by (auto simp: var_ok_def n_def k_def)
  have code: "CMPOP c op (fst (set_operations t)) (snd (set_operations t)) =
      [Call_RR ASM_CMP (vreg c (dat op 1), n) (vreg c (dat op 2), n)] @ [Call_RC ASM_MOV_RC (?d, k) 0] @ [Call_R ?set (?d, 1)] @
      [Call_R ASM_NEG (?d, k)]"
    using ok by (simp add: CMPOP_def Register_vreg n_def k_def sign_def)
  have cmp: "run_calls [Call_RR ASM_CMP (vreg c (dat op 1), n) (vreg c (dat op 2), n)] m = Some (sub_flags n ?a ?b m)"
    using ok by (simp add: run_calls_def meaning2_def operand_of_def exec_insn_def exec_binary_def operand_size_def Let_def
        var_value_def n_def)
  obtain m2 where m2: "run_calls [Call_RC ASM_MOV_RC (?d, k) 0] (sub_flags n ?a ?b m) = Some m2"
    "only_changes {?d} (sub_flags n ?a ?b m) m2" "take_bit (8 * k) (gprs m2 ?d) = 0"
    "zf m2 = zf (sub_flags n ?a ?b m)" "sf m2 = sf (sub_flags n ?a ?b m)" "cf m2 = cf (sub_flags n ?a ?b m)"
    "overflow_flag m2 = overflow_flag (sub_flags n ?a ?b m)"
    by (rule run_clear [OF k])
  define v :: i64 where "v = (if f (number_of sign n ?a) (number_of sign n ?b) then 1 else 0)"
  define m3 where "m3 = write_operand (Reg 1 ?d) v m2"
  have set: "run_calls [Call_R ?set (?d, 1)] m2 = Some m3"
    unfolding m3_def v_def by (rule run_set [OF f n]) (use m2(4-7) compare_flags [OF n, of ?a ?b m] in simp_all)
  have low: "take_bit (8 * k) (gprs m3 ?d) = v"
  proof (rule bit_word_eqI)
    fix i
    have z: "\<not> bit (gprs m2 ?d) i" if "i < 8 * k" "i < 64"
    proof -
      have "\<not> bit (take_bit (8 * k) (gprs m2 ?d)) i" unfolding m2(3) by simp
      then show ?thesis using that by (simp add: bit_simps)
    qed
    have v: "bit v i \<longleftrightarrow> v = 1 \<and> i = 0" by (simp add: v_def bit_simps)
    assume "i < LENGTH(64)"
    then show "bit (take_bit (8 * k) (gprs m3 ?d)) i = bit v i"
      using z k by (auto simp: m3_def write_register merge_def bit_simps v)
  qed
  obtain m4 where m4: "run_calls [Call_R ASM_NEG (?d, k)] m3 = Some m4" "only_changes {?d} m3 m4"
    "take_bit (8 * k) (gprs m4 ?d) = take_bit (8 * k) (- gprs m3 ?d)"
    by (rule run_neg [OF k])
  have "take_bit (8 * k) (- gprs m3 ?d) = take_bit (8 * k) (- v)" using take_bit_uminus [of "8 * k" "gprs m3 ?d"] low by simp
  also have "\<dots> = (if f (number_of sign n ?a) (number_of sign n ?b) then mask (8 * k) else 0)"
    by (simp add: v_def take_bit_minus_one_eq_mask)
  finally have value': "take_bit (8 * k) (gprs m4 ?d) = (if f (number_of sign n ?a) (number_of sign n ?b) then mask (8 * k) else 0)"
    using m4(3) by simp
  have "only_changes {?d} m m4"
    using m2(2) m4(2) by (auto simp: only_changes_def m3_def write_register)
  moreover have "run_calls (CMPOP c op (fst (set_operations t)) (snd (set_operations t))) m = Some m4"
    by (simp only: code run_calls_append cmp m2(1) set m4(1) Option.bind.bind_lunit)
  ultimately show thesis using that [of m4] value' by (simp add: var_value_def k_def)
qed

end
