(* ===== verification/Division.thy ===== *)
theory Division
  imports CodegenCorrect
begin

text \<open>
  Quotients and remainders: the code extends the dividend into \<^verbatim>\<open>rax\<close> and \<^verbatim>\<open>rdx\<close> and
  divides.
\<close>

definition quotient :: "bool \<Rightarrow> int \<Rightarrow> int \<Rightarrow> int" where
  "quotient sign a b = (if sign then a sdiv b else a div b)"

definition remainder :: "bool \<Rightarrow> int \<Rightarrow> int \<Rightarrow> int" where
  "remainder sign a b = (if sign then a smod b else a mod b)"

text \<open>The processor raises no exception: the divisor is not zero, and it is not the least number divided by -1.\<close>

definition divisible :: "bool \<Rightarrow> nat \<Rightarrow> int \<Rightarrow> int \<Rightarrow> bool" where
  "divisible sign n a b \<longleftrightarrow> b \<noteq> 0 \<and> \<not> (sign \<and> a = - (2 ^ (8 * n - 1)) \<and> b = - 1)"

lemma sdiv_range:
  assumes "- P \<le> a" "a < P" "\<not> (a = - P \<and> b = - 1)" "0 < (P :: int)"
  shows "- P \<le> a sdiv b \<and> a sdiv b < P"
proof -
  have "- \<bar>a\<bar> \<le> a sdiv b" "a sdiv b \<le> \<bar>a\<bar>" using sdiv_int_range [of a b] by simp_all
  moreover have "a sdiv b \<noteq> P"
  proof
    assume P: "a sdiv b = P"
    then have "a = - P" using assms \<open>a sdiv b \<le> \<bar>a\<bar>\<close> by linarith
    then have "a sdiv b = - a" "a \<noteq> 0" using P assms(4) by simp_all
    then show False using assms(3) \<open>a = - P\<close> int_sdiv_negated_is_minus1 by blast
  qed
  ultimately show ?thesis using assms by linarith
qed

section \<open>The dividend\<close>

lemma sval_minus_one: "n \<in> {1, 2, 4, 8} \<Longrightarrow> sval n (- 1) = - 1" "n \<in> {1, 2, 4, 8} \<Longrightarrow> sval n (mask (8 * n)) = - 1" "sval n 0 = 0"
proof -
  show one: "sval n (- 1) = - 1" if "n \<in> {1, 2, 4, 8}"
    unfolding sval_def by (rule bit_eqI) (use that in \<open>auto simp: bit_signed_take_bit_iff bit_uint_iff min_def\<close>)
  show "sval n (mask (8 * n)) = - 1" if "n \<in> {1, 2, 4, 8}"
    using one [OF that] sval_take [OF that, of "- 1"] by (simp add: take_bit_minus_one_eq_mask)
qed (simp add: sval_def)

lemma uval_zero [simp]: "uval n 0 = 0" by (simp add: uval_def)

text \<open>The second byte of a number that was extended from one byte.\<close>

lemma second_byte:
  assumes "x = word_of_int (sval 1 y)"
  shows "take_bit 8 (drop_bit 8 x) = (if sval 1 y < 0 then 255 else 0 :: i64)"
proof -
  define A where "A = sval 1 y"
  have x: "x = word_of_int A" unfolding assms A_def by (rule refl)
  have A: "A = signed_take_bit 7 (uint y)" by (simp add: A_def sval_def)
  then have high: "bit A i = bit A 7" if "7 \<le> i" for i using that by (simp add: bit_signed_take_bit_iff min_def)
  have sign: "bit A 7 = (A < 0)"
  proof -
    have "A < 0 \<longleftrightarrow> bit (uint y) 7" unfolding A by (simp add: signed_take_bit_negative_iff)
    then show ?thesis unfolding A by (simp add: bit_signed_take_bit_iff)
  qed
  have "take_bit 8 (drop_bit 8 x) = (if A < 0 then mask 8 else 0)"
    by (rule bit_word_eqI) (use high sign in \<open>auto simp: x bit_simps bit_word_of_int_iff\<close>)
  then show ?thesis by (simp add: A_def mask_eq_exp_minus_1)
qed

definition extended :: "bool \<Rightarrow> nat \<Rightarrow> machine \<Rightarrow> bool" where
  "extended sign n m \<longleftrightarrow>
     (if sign then gprs m 0 = word_of_int (sval n (gprs m 0)) \<and> gprs m 2 = (if sval n (gprs m 0) < 0 then - 1 else 0)
      else gprs m 0 = take_bit (8 * n) (gprs m 0) \<and> gprs m 2 = 0)"

lemma dividend_high:
  assumes "n \<in> {1, 2, 4, 8}" "extended sign n m"
  shows "number_of sign n (read_operand m (fst (dividend_pair n))) = (if sign \<and> sval n (gprs m 0) < 0 then - 1 else 0)"
proof (cases "n = 1")
  case True
  show ?thesis
  proof (cases sign)
    case s: True
    then have "take_bit 8 (drop_bit 8 (gprs m 0)) = (if sval 1 (gprs m 0) < 0 then 255 else 0)"
      using assms(2) True by (intro second_byte) (simp add: extended_def)
    moreover have "sval 1 255 = - 1" by (simp add: sval_def)
    ultimately show ?thesis using True s by (simp add: dividend_pair_def read_operand_def number_of_def sval_minus_one)
  next
    case s: False
    then have "gprs m 0 = take_bit 8 (gprs m 0)" using assms(2) True by (simp add: extended_def)
    then have "take_bit 8 (drop_bit 8 (gprs m 0)) = take_bit 8 (drop_bit 8 (take_bit 8 (gprs m 0)))" by simp
    also have "\<dots> = 0" by (rule bit_word_eqI) (simp add: bit_simps)
    finally show ?thesis using True s by (simp add: dividend_pair_def read_operand_def number_of_def)
  qed
next
  case False
  then have high: "number_of sign n (read_operand m (fst (dividend_pair n))) = number_of sign n (gprs m 2)"
    using number_of_take [OF assms(1), of sign "gprs m 2"] by (simp add: dividend_pair_def)
  show ?thesis unfolding high using assms by (auto simp: number_of_def sval_minus_one(1,3) extended_def)
qed

lemma dividend_value:
  assumes "n \<in> {1, 2, 4, 8}" "extended sign n m"
  shows "number_of sign n (read_operand m (fst (dividend_pair n))) * 2 ^ (8 * n) + uval n (read_operand m (snd (dividend_pair n))) =
    number_of sign n (gprs m 0)"
proof -
  have lo: "uval n (read_operand m (snd (dividend_pair n))) = uval n (gprs m 0)"
    using assms(1) uval_take [of n "gprs m 0"] by (auto simp: dividend_pair_def)
  have n: "0 < n" using assms(1) by auto
  show ?thesis unfolding dividend_high [OF assms] lo
    using uval_range [of n "gprs m 0"] by (auto simp: number_of_def sval_uval [OF n])
qed

section \<open>The instruction\<close>

lemma word_of_int_take: "take_bit k (word_of_int x :: i64) = word_of_int (take_bit k x)"
  by (rule take_bit_of_int)

definition divide_result :: "bool \<Rightarrow> nat \<Rightarrow> int \<Rightarrow> int \<Rightarrow> machine \<Rightarrow> machine" where
  "divide_result sign n a b m = write_operand (fst (dividend_pair n)) (word_of_int (remainder sign a b))
     (write_operand (snd (dividend_pair n)) (word_of_int (quotient sign a b)) m)"

lemma exec_divide:
  assumes n: "n \<in> {1, 2, 4, 8}" and ext: "extended sign n m"
    and ok: "divisible sign n (number_of sign n (gprs m 0)) (number_of sign n (gprs m d))"
  shows "exec_insn (Unary (if sign then Idiv else Div) (Reg n d)) m =
    Some (divide_result sign n (number_of sign n (gprs m 0)) (number_of sign n (gprs m d)) m)"
proof -
  let ?a = "number_of sign n (gprs m 0)" and ?b = "number_of sign n (gprs m d)"
  note dv = dividend_value [OF n ext]
  have b: "number_of sign n (read_operand m (Reg n d)) = ?b" using number_of_take [OF n] by simp
  have pair: "dividend_pair n = (fst (dividend_pair n), snd (dividend_pair n))" by simp
  show ?thesis
  proof (cases sign)
    case True
    have "- (2 ^ (8 * n - 1)) \<le> ?a" "?a < 2 ^ (8 * n - 1)" using sval_range [OF n, of "gprs m 0"] True by (simp_all add: number_of_def)
    then have "- (2 ^ (8 * n - 1)) \<le> ?a sdiv ?b \<and> ?a sdiv ?b < 2 ^ (8 * n - 1)"
      using ok True by (intro sdiv_range) (auto simp: divisible_def)
    then have "exec_idiv (Reg n d) m = Some (divide_result sign n ?a ?b m)"
      using ok dv b True
      by (simp add: exec_idiv_def operand_size_def divide_result_def quotient_def remainder_def divisible_def number_of_def
          split_beta Let_def del: read_register)
    then show ?thesis using True by (simp add: exec_insn_def exec_unary_def Let_def)
  next
    case False
    have a: "0 \<le> ?a" "?a < 2 ^ (8 * n)" and b0: "0 < ?b" using uval_range [of n "gprs m 0"] uval_range [of n "gprs m d"] ok False
      by (auto simp: number_of_def divisible_def less_le)
    have "?a div ?b \<le> ?a" using a(1) b0 by (metis div_by_1 int_one_le_iff_zero_less zdiv_mono2 zero_less_one)
    then have "?a div ?b < 2 ^ (8 * n)" using a(2) by linarith
    then have "exec_div (Reg n d) m = Some (divide_result sign n ?a ?b m)"
      using ok dv b False
      by (simp add: exec_div_def operand_size_def divide_result_def quotient_def remainder_def divisible_def number_of_def
          split_beta Let_def del: read_register)
    then show ?thesis using False by (simp add: exec_insn_def exec_unary_def Let_def)
  qed
qed

lemma divide_result:
  assumes "n \<in> {1, 2, 4, 8}"
  shows "take_bit (8 * n) (gprs (divide_result sign n a b m) 0) = take_bit (8 * n) (word_of_int (quotient sign a b))"
    "n \<noteq> 1 \<Longrightarrow> take_bit (8 * n) (gprs (divide_result sign n a b m) 2) = take_bit (8 * n) (word_of_int (remainder sign a b))"
    "n = 1 \<Longrightarrow> gprs (divide_result sign n a b m) 2 = gprs m 2" "only_changes {0, 2} m (divide_result sign n a b m)"
proof -
  have low: "take_bit 8 ((x AND NOT 0xFF00) OR push_bit 8 y) = take_bit 8 x" for x y :: i64
  proof -
    have eq: "(0xFF00 :: i64) = push_bit 8 (mask 8)" by (simp add: mask_eq_exp_minus_1)
    show ?thesis unfolding eq by (rule bit_word_eqI) (auto simp: bit_simps)
  qed
  show "take_bit (8 * n) (gprs (divide_result sign n a b m) 0) = take_bit (8 * n) (word_of_int (quotient sign a b))"
    using assms merge_take [OF assms] merge_take [of 1] low
    by (auto simp: divide_result_def dividend_pair_def write_operand_def)
  show "n \<noteq> 1 \<Longrightarrow> take_bit (8 * n) (gprs (divide_result sign n a b m) 2) = take_bit (8 * n) (word_of_int (remainder sign a b))"
    using merge_take [OF assms] by (simp add: divide_result_def dividend_pair_def write_operand_def)
  show "n = 1 \<Longrightarrow> gprs (divide_result sign n a b m) 2 = gprs m 2"
    by (simp add: divide_result_def dividend_pair_def write_operand_def)
  show "only_changes {0, 2} m (divide_result sign n a b m)"
    by (simp add: only_changes_def divide_result_def dividend_pair_def write_operand_def)
qed

section \<open>The code\<close>

text \<open>The preparation: the dividend is extended into the two registers.\<close>

lemma run_extend:
  assumes "var_ok c v"
  defines "n \<equiv> varSize c v"
  obtains m' where
    "run_calls (InsertMove (0, 8) (Register c v) sign @ [if sign then Call_Z ASM_CQO else Call_RR ASM_XOR (2, 4) (2, 4)]) m = Some m'"
    "extended sign n m'" "number_of sign n (gprs m' 0) = number_of sign n (var_value c m v)" "only_changes {0, 2} m m'"
proof -
  have n: "n \<in> {1, 2, 4, 8}" using assms by (auto simp: var_ok_def)
  let ?x = "gprs m (vreg c v)"
  obtain m1 where m1: "run_calls (InsertMove (0, 8) (Register c v) sign) m = Some m1" "only_changes {0} m m1"
    "take_bit 64 (gprs m1 0) = moved_value 8 n sign ?x"
    by (rule run_InsertMove [where d = "(0, 8)" and s = "Register c v" and m = m and sign = sign])
      (use vreg_range [OF assms(1)] n in \<open>auto simp: Register_vreg n_def\<close>)
  define rax where "rax = (if sign then word_of_int (sval n ?x) else take_bit (8 * n) ?x)"
  have full: "word_of_int (sval 8 ?x) = ?x" "take_bit 64 (y :: i64) = y" for y
  proof -
    show "take_bit 64 (y :: i64) = y" for y by (rule bit_word_eqI) (simp add: bit_simps)
    have "sval 8 ?x = sint ?x" by (simp add: sval_def sint_uint)
    then show "word_of_int (sval 8 ?x) = ?x" by simp
  qed
  have rax: "gprs m1 0 = rax"
    using m1(3) full n by (auto simp: moved_value_def rax_def)
  have num: "number_of sign n rax = number_of sign n ?x"
  proof (cases sign)
    case True
    have "sval n (word_of_int (sval n ?x)) = sval n ?x"
      unfolding sval_def by (rule bit_eqI)
        (use n in \<open>auto simp: bit_signed_take_bit_iff bit_uint_iff bit_word_of_int_iff min_def\<close>)
    then show ?thesis using True by (simp add: number_of_def rax_def)
  next
    case False
    then show ?thesis by (simp add: number_of_def rax_def uval_take)
  qed
  have var: "number_of sign n (var_value c m v) = number_of sign n ?x"
    unfolding var_value_def n_def [symmetric] by (rule number_of_take [OF n])
  show thesis
  proof (cases sign)
    case True
    define m2 where "m2 = write_operand (Reg 8 2) (if sint rax < 0 then - 1 else 0) m1"
    have "run_calls [Call_Z ASM_CQO] m1 = Some m2" by (simp add: run_calls_def exec_insn_def m2_def rax)
    then have run: "run_calls (InsertMove (0, 8) (Register c v) sign @ [if sign then Call_Z ASM_CQO else Call_RR ASM_XOR (2, 4) (2, 4)]) m = Some m2"
      using m1(1) True by (simp add: run_calls_append)
    have "sint rax = sval n ?x"
    proof -
      have "sint rax = sval 8 rax" by (simp add: sval_def sint_uint)
      also have "\<dots> = sval n ?x" unfolding sval_def rax_def using True n
        by (intro bit_eqI) (auto simp: sval_def bit_signed_take_bit_iff bit_uint_iff bit_word_of_int_iff min_def)
      finally show ?thesis .
    qed
    then have "extended sign n m2" using True rax num full(2) by (auto simp: extended_def m2_def write_register merge_def rax_def number_of_def)
    moreover have "gprs m2 0 = rax" "only_changes {0, 2} m m2" using m1(2) rax by (auto simp: m2_def write_register only_changes_def)
    ultimately show ?thesis using that [of m2] run num var by simp
  next
    case False
    define m2 where "m2 = write_operand (Reg 4 2) 0 (logic_flags 4 0 m1)"
    have "run_calls [Call_RR ASM_XOR (2, 4) (2, 4)] m1 = Some m2"
      by (simp add: run_calls_def meaning2_def operand_of_def exec_insn_def exec_binary_def operand_size_def Let_def m2_def)
    then have run: "run_calls (InsertMove (0, 8) (Register c v) sign @ [if sign then Call_Z ASM_CQO else Call_RR ASM_XOR (2, 4) (2, 4)]) m = Some m2"
      using m1(1) False by (simp add: run_calls_append)
    have "gprs m2 0 = rax" "gprs m2 2 = 0" "only_changes {0, 2} m m2"
      using m1(2) rax by (auto simp: m2_def write_register only_changes_def merge_def)
    moreover from this have "extended sign n m2" using False by (simp add: extended_def rax_def)
    ultimately show ?thesis using that [of m2] run num var by simp
  qed
qed

lemma run_divide_code:
  fixes m :: machine
  assumes "same_size c op" "result \<in> {0, 2}"
  defines "sign \<equiv> isSigned c (dat op 0)" and "n \<equiv> varSize c (dat op 0)"
  defines "a \<equiv> number_of sign n (var_value c m (dat op 1))" and "b \<equiv> number_of sign n (var_value c m (dat op 2))"
  assumes ok: "divisible sign n a b"
  obtains m' where "run_calls (divide_code c op result) m = Some m'" "only_changes {vreg c (dat op 0), 0, 2} m m'"
    "result = 0 \<Longrightarrow> var_value c m' (dat op 0) = take_bit (8 * n) (word_of_int (quotient sign a b))"
    "result = 2 \<Longrightarrow> n \<noteq> 1 \<Longrightarrow> var_value c m' (dat op 0) = take_bit (8 * n) (word_of_int (remainder sign a b))"
    "result = 2 \<Longrightarrow> n = 1 \<Longrightarrow> var_value c m' (dat op 0) = (if sign \<and> a < 0 then 255 else 0)"
proof -
  note sz = same_sizeD [OF assms(1)]
  have n: "n \<in> {1, 2, 4, 8}" using sz by (simp add: n_def)
  define pre where "pre = InsertMove (0, 8) (Register c (dat op 1)) sign @ [if sign then Call_Z ASM_CQO else Call_RR ASM_XOR (2, 4) (2, 4)]"
  let ?d = "vreg c (dat op 0)" and ?b = "vreg c (dat op 2)"
  have code: "divide_code c op result = pre @ [Call_R (if sign then ASM_IDIV else ASM_DIV) (?b, n)] @ InsertMove (?d, n) (result, 8) False"
    using sz by (simp add: divide_code_def sign_def n_def Register_vreg pre_def)
  obtain m1 where m1: "run_calls pre m = Some m1" "extended sign n m1" "number_of sign n (gprs m1 0) = a" "only_changes {0, 2} m m1"
    by (rule run_extend [OF sz(2), of sign m]) (use sz in \<open>simp add: a_def n_def pre_def\<close>)
  have "gprs m1 ?b = gprs m ?b" using m1(4) vreg_range [OF sz(3)] by (simp add: only_changes_def)
  then have b: "number_of sign n (gprs m1 ?b) = b"
    using number_of_take [OF n, of sign "gprs m ?b"] sz by (simp add: b_def var_value_def n_def)
  define m2 where "m2 = divide_result sign n a b m1"
  have div: "run_calls [Call_R (if sign then ASM_IDIV else ASM_DIV) (?b, n)] m1 = Some m2"
    using exec_divide [OF n m1(2), of ?b] ok m1(3) b by (auto simp: run_calls_def meaning1_def operand_of_def m2_def)
  note r = divide_result [OF n, where sign = sign and a = a and b = b and m = m1, folded m2_def]
  have le: "snd (?d, n) \<le> 8" "result < 16" "?d \<noteq> result" using n assms(2) vreg_range [OF sz(1)] by auto
  obtain m3 where m3: "run_calls (InsertMove (?d, n) (result, 8) False) m2 = Some m3" "only_changes {?d} m2 m3"
    "take_bit (8 * n) (gprs m3 ?d) = take_bit (8 * n) (gprs m2 result)"
    by (rule run_InsertMove [where d = "(?d, n)" and s = "(result, 8)" and m = m2 and sign = False])
      (use vreg_range [OF sz(1)] n le in \<open>auto simp: moved_value_def\<close>)
  have run: "run_calls (divide_code c op result) m = Some m3"
    by (simp only: code run_calls_append m1(1) div m3(1) Option.bind.bind_lunit)
  have val: "var_value c m3 (dat op 0) = take_bit (8 * n) (gprs m2 result)" using m3(3) by (simp add: var_value_def n_def)
  show thesis
  proof (rule that [OF run])
    show "only_changes {?d, 0, 2} m m3" using m1(4) r(4) m3(2) by (simp add: only_changes_def)
    show "var_value c m3 (dat op 0) = take_bit (8 * n) (word_of_int (quotient sign a b))" if "result = 0" using that val r(1) by simp
    show "var_value c m3 (dat op 0) = take_bit (8 * n) (word_of_int (remainder sign a b))" if "result = 2" "n \<noteq> 1" using that val r(2) by simp
    show "var_value c m3 (dat op 0) = (if sign \<and> a < 0 then 255 else 0)" if "result = 2" "n = 1"
    proof -
      have "gprs m2 2 = (if sign \<and> a < 0 then - 1 else 0)" using r(3) that m1(2,3) by (cases sign) (auto simp: extended_def number_of_def)
      moreover have "take_bit 8 (- 1 :: i64) = 255" by (simp add: take_bit_minus_one_eq_mask mask_eq_exp_minus_1)
      ultimately show ?thesis using val that by simp
    qed
  qed
qed

section \<open>The operations\<close>

definition arithmetic_types :: "OperationType set" where
  "arithmetic_types = {OP_ADD, OP_SUB, OP_MUL, OP_BOR, OP_BAND, OP_BXOR, OP_EQ, OP_NE, OP_LT, OP_LE, OP_GT, OP_GE, OP_DIV, OP_MOD}"

lemma operation_arith: "op_type op \<in> arithmetic_types \<Longrightarrow> operation_code c op = map_option (map Asm) (arith_code c op)"
  unfolding arithmetic_types_def by (elim insertE emptyE) (simp_all add: operation_code_def asm_def [abs_def])

text \<open>
  C6. Sums, differences, products and bitwise operations on variables of one size: the emitted bytes, decoded and run,
  leave the result, cut off to the size, in the register of the destination, also when variables share a register.
  No other register changes, nor does memory.
\<close>

theorem arithmetic_code:
  assumes "same_size c op" "binop_function (op_type op) = Some f"
  shows "\<exists>cs m'. operation_code c op = Some (map Asm cs) \<and> run_emitted cs m = Some m' \<and>
    var_value c m' (dat op 0) = take_bit (8 * varSize c (dat op 0)) (f (var_value c m (dat op 1)) (var_value c m (dat op 2))) \<and>
    only_changes {vreg c (dat op 0)} m m'"
proof -
  obtain cs m' where r: "arith_code c op = Some cs" "run_calls cs m = Some m'" "only_changes {vreg c (dat op 0)} m m'"
    "var_value c m' (dat op 0) = take_bit (8 * varSize c (dat op 0)) (f (var_value c m (dat op 1)) (var_value c m (dat op 2)))"
    "\<forall>x \<in> set cs. encodable x"
    by (rule run_binop [OF assms])
  have "op_type op \<in> arithmetic_types" using assms(2) by (cases "op_type op") (simp_all add: binop_function_def arithmetic_types_def)
  then show ?thesis using r operation_arith [of op c] run_emitted_calls [OF r(5), of m] by auto
qed

text \<open>A worker with the variables 1, 2 and 3 in the registers \<^verbatim>\<open>r8\<close>, \<^verbatim>\<open>r9\<close> and \<^verbatim>\<open>r8\<close>, all of type \<open>kind\<close> with \<open>n\<close> bytes.\<close>

definition sample_codegen :: "nat \<Rightarrow> ScalarInterpretation \<Rightarrow> codegen" where
  "sample_codegen n kind = \<lparr>variables = (\<lambda>_. TypeContext n TYPE_SCALAR ''x64'' [] None kind), regTable = (\<lambda>v. if v = 2 then 2 else 1),
     memTable = (\<lambda>_. 0), worker_inputs = [], worker_outputs = [], idToWorker = (\<lambda>_. ([], [])), exportWorkerId = []\<rparr>"

definition sample_operation :: "OperationType \<Rightarrow> OperationBlock" where
  "sample_operation t = \<lparr>op_type = t, op_data = [1, 2, 3], op_attributes = []\<rparr>"

definition sample_machine :: machine where
  "sample_machine = \<lparr>gprs = (\<lambda>r. if r = 8 then 5 else if r = 9 then 12 else 0), ram = (\<lambda>_. 0), zf = False, sf = False, cf = False,
     overflow_flag = False\<rparr>"

lemma sample_facts:
  "n \<in> {1, 2, 4, 8} \<Longrightarrow> same_size (sample_codegen n k) (sample_operation t)" "varSize (sample_codegen n k) v = n"
  "dat (sample_operation t) 0 = 1" "dat (sample_operation t) 1 = 2" "dat (sample_operation t) (Suc 0) = 2" "dat (sample_operation t) 2 = 3"
  "vreg (sample_codegen n k) 1 = 8" "vreg (sample_codegen n k) 2 = 9" "vreg (sample_codegen n k) 3 = 8"
  "op_type (sample_operation t) = t" "isSigned (sample_codegen n k) v = (k \<in> {SCALAR_I8, SCALAR_I16, SCALAR_I32, SCALAR_I64})"
  by (auto simp: same_size_def sample_codegen_def sample_operation_def var_ok_def varSize_def dat_def vreg_def registers_def
      isSigned_def varType_def less_Suc_eq numeral_3_eq_3)

lemma arithmetic_code_witness:
  "\<exists>cs m'. operation_code (sample_codegen 4 SCALAR_I32) (sample_operation OP_SUB) = Some (map Asm cs) \<and>
    run_emitted cs sample_machine = Some m' \<and> var_value (sample_codegen 4 SCALAR_I32) m' 1 = 7 \<and> only_changes {8} sample_machine m'"
proof -
  have "same_size (sample_codegen 4 SCALAR_I32) (sample_operation OP_SUB)" by (rule sample_facts) simp
  moreover have "binop_function (op_type (sample_operation OP_SUB)) = Some (-)" by (simp add: sample_facts binop_function_def)
  ultimately show ?thesis
    using arithmetic_code [of "sample_codegen 4 SCALAR_I32" "sample_operation OP_SUB" "(-)" sample_machine]
    by (simp add: sample_facts var_value_def) (simp add: sample_machine_def)
qed

text \<open>
  C13. Comparisons of two variables of one size: the destination, of any size, gets all bits set when the comparison
  holds and zero otherwise. Whether the numbers are compared as signed ones depends on the type of the destination.
\<close>

theorem comparison_code:
  assumes "length (op_data op) = 3" "\<forall>k < 3. var_ok c (dat op k)" "varSize c (dat op 2) = varSize c (dat op 1)"
    "compare_function (op_type op) = Some f"
  shows "\<exists>cs m'. operation_code c op = Some (map Asm cs) \<and> run_emitted cs m = Some m' \<and>
    var_value c m' (dat op 0) =
      (if f (number_of (isSigned c (dat op 0)) (varSize c (dat op 1)) (var_value c m (dat op 1)))
            (number_of (isSigned c (dat op 0)) (varSize c (dat op 1)) (var_value c m (dat op 2)))
       then mask (8 * varSize c (dat op 0)) else 0) \<and>
    only_changes {vreg c (dat op 0)} m m'"
proof -
  let ?cs = "CMPOP c op (fst (set_operations (op_type op))) (snd (set_operations (op_type op)))"
  have ok: "var_ok c (dat op 0)" "var_ok c (dat op 1)" "var_ok c (dat op 2)" using assms(2) by auto
  have n: "varSize c (dat op k) \<in> {1, 2, 4, 8}" if "k < 3" for k using assms(2) that by (auto simp: var_ok_def)
  have "arith_code c op = Some ?cs"
    using assms(1,4) by (cases "op_type op") (simp_all add: compare_function_def arith_code_def set_operations_def Let_def)
  moreover have "op_type op \<in> arithmetic_types" using assms(4) by (cases "op_type op") (simp_all add: compare_function_def arithmetic_types_def)
  ultimately have code: "operation_code c op = Some (map Asm ?cs)" using operation_arith [of op c] by simp
  have enc: "\<forall>x \<in> set ?cs. encodable x"
    using assms(3) ok n [of 0] n [of 1] by (simp add: CMPOP_def Register_vreg)
  obtain m' where "run_calls ?cs m = Some m'" "only_changes {vreg c (dat op 0)} m m'"
    "var_value c m' (dat op 0) =
      (if f (number_of (isSigned c (dat op 0)) (varSize c (dat op 1)) (var_value c m (dat op 1)))
            (number_of (isSigned c (dat op 0)) (varSize c (dat op 1)) (var_value c m (dat op 2)))
       then mask (8 * varSize c (dat op 0)) else 0)"
    by (rule run_CMPOP [OF ok assms(3,4)])
  then show ?thesis using code run_emitted_calls [OF enc, of m] by auto
qed

lemma comparison_code_witness:
  "\<exists>cs m'. operation_code (sample_codegen 2 SCALAR_I16) (sample_operation OP_LT) = Some (map Asm cs) \<and>
    run_emitted cs sample_machine = Some m' \<and> var_value (sample_codegen 2 SCALAR_I16) m' 1 = 0 \<and> only_changes {8} sample_machine m'"
proof -
  have "same_size (sample_codegen 2 SCALAR_I16) (sample_operation OP_LT)" by (rule sample_facts) simp
  moreover have "compare_function (op_type (sample_operation OP_LT)) = Some (<)" by (simp add: sample_facts compare_function_def)
  moreover have "sval 2 12 = 12" "sval 2 5 = 5" by (simp_all add: sval_def)
  ultimately show ?thesis
    using comparison_code [of "sample_operation OP_LT" "sample_codegen 2 SCALAR_I16" "(<)" sample_machine]
    by (simp add: sample_facts var_value_def number_of_def same_size_def) (simp add: sample_machine_def)
qed

lemma encodable_divide:
  assumes "same_size c op" "result \<in> {0, 2}"
  shows "\<forall>x \<in> set (divide_code c op result). encodable x"
proof -
  note ok = same_sizeD [OF assms(1)]
  have "reg_ok (Register c (dat op k))" if "k \<in> {0, 1, 2}" for k using ok that by (auto simp: Register_vreg)
  moreover have "reg_ok (0, 8)" "reg_ok (result, 8)" using assms(2) by (auto simp: reg_ok_def)
  ultimately show ?thesis
    using encodable_InsertMove [of "(0, 8)" "Register c (dat op 1)" "isSigned c (dat op 0)"]
      encodable_InsertMove [of "Register c (dat op 0)" "(result, 8)" False]
    by (auto simp: divide_code_def reg_ok_def)
qed

text \<open>
  C14. Quotients and remainders of variables of one size, signed when the destination is: rounded towards zero, exact, and
  without an exception unless the divisor is zero or the quotient does not fit. For the remainder the size is at least
  two bytes.
\<close>

theorem division_code:
  assumes "same_size c op" "op_type op = OP_DIV \<or> op_type op = OP_MOD \<and> varSize c (dat op 0) \<noteq> 1"
  defines "sign \<equiv> isSigned c (dat op 0)" and "n \<equiv> varSize c (dat op 0)"
  assumes "divisible sign n (number_of sign n (var_value c m (dat op 1))) (number_of sign n (var_value c m (dat op 2)))"
  shows "\<exists>cs m'. operation_code c op = Some (map Asm cs) \<and> run_emitted cs m = Some m' \<and>
    var_value c m' (dat op 0) = take_bit (8 * n) (word_of_int
      ((if op_type op = OP_DIV then quotient else remainder) sign
        (number_of sign n (var_value c m (dat op 1))) (number_of sign n (var_value c m (dat op 2))))) \<and>
    only_changes {vreg c (dat op 0), 0, 2} m m'"
proof -
  define result :: nat where "result = (if op_type op = OP_DIV then 0 else 2)"
  have result: "result \<in> {0, 2}" by (simp add: result_def)
  have "arith_code c op = Some (divide_code c op result)" "op_type op \<in> arithmetic_types"
    using assms(1,2) by (auto simp: arith_code_def result_def same_size_def Let_def arithmetic_types_def)
  then have code: "operation_code c op = Some (map Asm (divide_code c op result))" using operation_arith [of op c] by simp
  obtain m' where "run_calls (divide_code c op result) m = Some m'" "only_changes {vreg c (dat op 0), 0, 2} m m'"
    "result = 0 \<Longrightarrow> var_value c m' (dat op 0) = take_bit (8 * n) (word_of_int (quotient sign
      (number_of sign n (var_value c m (dat op 1))) (number_of sign n (var_value c m (dat op 2)))))"
    "result = 2 \<Longrightarrow> n \<noteq> 1 \<Longrightarrow> var_value c m' (dat op 0) = take_bit (8 * n) (word_of_int (remainder sign
      (number_of sign n (var_value c m (dat op 1))) (number_of sign n (var_value c m (dat op 2)))))"
    using run_divide_code [OF assms(1) result, of m] assms(5) unfolding sign_def n_def by metis
  then show ?thesis
    using code run_emitted_calls [OF encodable_divide [OF assms(1) result], of m] assms(2) by (auto simp: result_def n_def)
qed

lemma division_code_witness:
  "\<exists>cs m'. operation_code (sample_codegen 4 SCALAR_I32) (sample_operation OP_MOD) = Some (map Asm cs) \<and>
    run_emitted cs sample_machine = Some m' \<and> var_value (sample_codegen 4 SCALAR_I32) m' 1 = 2 \<and>
    only_changes {8, 0, 2} sample_machine m'"
proof -
  have "same_size (sample_codegen 4 SCALAR_I32) (sample_operation OP_MOD)" by (rule sample_facts) simp
  moreover have "sval 4 12 = 12" "sval 4 5 = 5" by (simp_all add: sval_def)
  ultimately show ?thesis
    using division_code [of "sample_codegen 4 SCALAR_I32" "sample_operation OP_MOD" sample_machine]
    by (simp add: sample_facts var_value_def number_of_def divisible_def remainder_def sample_machine_def)
qed

text \<open>
  C40. The remainder of two bytes is not computed: what is read is the register for the upper half of wider dividends, which
  has the sign of the dividend.
\<close>

theorem byte_remainder:
  assumes "same_size c op" "op_type op = OP_MOD" "varSize c (dat op 0) = 1"
  defines "sign \<equiv> isSigned c (dat op 0)"
  assumes "divisible sign 1 (number_of sign 1 (var_value c m (dat op 1))) (number_of sign 1 (var_value c m (dat op 2)))"
  shows "\<exists>cs m'. operation_code c op = Some (map Asm cs) \<and> run_emitted cs m = Some m' \<and>
    var_value c m' (dat op 0) = (if sign \<and> number_of sign 1 (var_value c m (dat op 1)) < 0 then 255 else 0)"
proof -
  have "arith_code c op = Some (divide_code c op 2)" "op_type op \<in> arithmetic_types"
    using assms(1,2) by (auto simp: arith_code_def same_size_def Let_def arithmetic_types_def)
  then have code: "operation_code c op = Some (map Asm (divide_code c op 2))" using operation_arith [of op c] by simp
  obtain m' where "run_calls (divide_code c op 2) m = Some m'"
    "var_value c m' (dat op 0) = (if sign \<and> number_of sign 1 (var_value c m (dat op 1)) < 0 then 255 else 0)"
    using run_divide_code [OF assms(1), of 2 m] assms(3,5) unfolding sign_def by (metis insertCI)
  then show ?thesis using code run_emitted_calls [OF encodable_divide [OF assms(1)], of 2 m] by auto
qed

lemma byte_remainder_witness:
  "\<exists>cs m'. operation_code (sample_codegen 1 SCALAR_U8) (sample_operation OP_MOD) = Some (map Asm cs) \<and>
    run_emitted cs sample_machine = Some m' \<and> var_value (sample_codegen 1 SCALAR_U8) m' 1 = 0"
proof -
  have "same_size (sample_codegen 1 SCALAR_U8) (sample_operation OP_MOD)" by (rule sample_facts) simp
  moreover have "uval 1 5 = 5" by (simp add: uval_def)
  ultimately show ?thesis
    using byte_remainder [of "sample_codegen 1 SCALAR_U8" "sample_operation OP_MOD" sample_machine]
    by (simp add: sample_facts var_value_def number_of_def divisible_def sample_machine_def)
qed

end
