(* ===== verification/BuildFn.thy ===== *)
theory BuildFn
  imports Codegen Jumps
begin

text \<open>
  The code of one worker: \<^verbatim>\<open>BuildOperation\<close> of \<^verbatim>\<open>src/codegen/x64_win/operation.cpp\<close>, repeated
  by \<^verbatim>\<open>BuildFn\<close> (\<^verbatim>\<open>build_fn.cpp\<close>) until nothing is left to build. An operation is a number; a
  successor that is missing is the end of the worker.
\<close>

section \<open>The state\<close>

record graph =
  ops :: "nat \<Rightarrow> OperationBlock"
  succs :: "nat \<Rightarrow> nat option list"
  spans :: "nat \<Rightarrow> nat \<times> nat"
  worker_end :: nat

text \<open>
  The work list is a stack of operations with the operation before them; \<open>ordered\<close> are the operations in the
  order table, whose entries are their positions.
\<close>

record builder =
  out :: emitter
  toBuild :: "(nat option \<times> nat option) list"
  ordered :: "nat list"
  tables :: codegen

section \<open>Emission\<close>

definition emit_bytes :: "byte list \<Rightarrow> emitter \<Rightarrow> emitter option" where
  "emit_bytes bs e =
     (if assemblyEnd e + length bs \<le> length (code_buffer e) then
        Some (e\<lparr>code_buffer := write_bytes (code_buffer e) (assemblyEnd e) bs, assemblyEnd := assemblyEnd e + length bs\<rparr>)
      else None)"

fun add_call :: "byte \<Rightarrow> key \<Rightarrow> (byte \<times> key list) list \<Rightarrow> (byte \<times> key list) list" where
  "add_call i k [] = [(i, [k])]"
| "add_call i k ((j, ks) # hs) = (if i = j then (j, ks @ [k]) # hs else (j, ks) # add_call i k hs)"

primrec emission_bytes :: "emission \<Rightarrow> byte list" where
  "emission_bytes (Asm c) = emit c"
| "emission_bytes (Api i) = emit (Call_CALL 0)"

text \<open>A call of the runtime is noted with the position of its address and the number of the operation.\<close>

definition emit_one :: "nat \<Rightarrow> emission \<Rightarrow> emitter \<Rightarrow> emitter option" where
  "emit_one order x e =
     (case x of
        Asm c \<Rightarrow> emit_bytes (emission_bytes x) e
      | Api i \<Rightarrow> map_option (\<lambda>e'. e'\<lparr>runtimeApiHeader := add_call i (assemblyEnd e + CALL_ADDRESS, order) (runtimeApiHeader e')\<rparr>)
          (emit_bytes (emission_bytes x) e))"

fun emit_all :: "nat \<Rightarrow> emission list \<Rightarrow> emitter \<Rightarrow> emitter option" where
  "emit_all order [] e = Some e"
| "emit_all order (x # xs) e = Option.bind (emit_one order x e) (emit_all order xs)"

definition mark :: "nat \<Rightarrow> nat \<Rightarrow> nat \<times> nat \<Rightarrow> emitter \<Rightarrow> emitter" where
  "mark start n span e = e\<lparr>addrToLine := markAddress start n span (addrToLine e)\<rparr>"

definition add_jump :: "jmpInstruction \<Rightarrow> emitter \<Rightarrow> emitter" where
  "add_jump j e = e\<lparr>JumpInstructions := JumpInstructions e @ [j]\<rparr>"

section \<open>One operation\<close>

text \<open>The jump of a condition; its second successor is read even if it is missing.\<close>

definition condition_jump :: "graph \<Rightarrow> nat \<Rightarrow> nat \<Rightarrow> emitter \<Rightarrow> emitter option" where
  "condition_jump g n order e =
     (if op_type (ops g n) \<in> {OP_JZ, OP_JNZ} then
        (if length (succs g n) < 2 then None
         else Some (add_jump \<lparr>jmpType = (if op_type (ops g n) = OP_JZ then ASM_JZ else ASM_JNZ), codePos = assemblyEnd e,
           codeOrder = order, destOp = succs g n ! 1, jmp_node = Some n\<rparr> e))
      else Some e)"

definition compile_new :: "graph \<Rightarrow> nat \<Rightarrow> builder \<Rightarrow> builder option" where
  "compile_new g n b =
     (let e = out b; start = assemblyEnd e; order = length (ordered b);
          e = e\<lparr>addressTable := (addressTable e)(n \<mapsto> start), orderTable := (orderTable e)(n := order)\<rparr>
      in do { es \<leftarrow> operation_code (tables b) (ops g n);
              e \<leftarrow> emit_all order es e;
              e \<leftarrow> condition_jump g n order e;
              let e = (if op_type (ops g n) \<noteq> OP_FREE_TEMP then mark start (assemblyEnd e - start) (spans g n) e else e);
              Some (b\<lparr>out := e, toBuild := map (\<lambda>s. (s, Some n)) (succs g n) @ toBuild b, ordered := ordered b @ [n],
                tables := (tables b)\<lparr>exportWorkerId := operation_exports (tables b) (ops g n)\<rparr>\<rparr>) })"

definition BuildOperation :: "graph \<Rightarrow> builder \<Rightarrow> builder option" where
  "BuildOperation g b =
     (case toBuild b of
        [] \<Rightarrow> None
      | (None, _) # rest \<Rightarrow>
          do { e \<leftarrow> emit_bytes [0xC3] (mark (assemblyEnd (out b)) 1 (worker_end g, worker_end g + 1) (out b));
               Some (b\<lparr>out := e, toBuild := rest\<rparr>) }
      | (Some n, prevOp) # rest \<Rightarrow>
          if addressTable (out b) n \<noteq> None then
            Some (b\<lparr>out := add_jump \<lparr>jmpType = ASM_JMP, codePos = assemblyEnd (out b), codeOrder = length (ordered b),
              destOp = Some n, jmp_node = prevOp\<rparr> (out b), toBuild := rest\<rparr>)
          else compile_new g n (b\<lparr>toBuild := rest\<rparr>))"

text \<open>The loop, with a bound on its rounds.\<close>

fun build_all :: "nat \<Rightarrow> graph \<Rightarrow> builder \<Rightarrow> builder option" where
  "build_all k g b = (if toBuild b = [] then Some b else case k of 0 \<Rightarrow> None | Suc k \<Rightarrow> Option.bind (BuildOperation g b) (build_all k g))"

declare build_all.simps [simp del]

text \<open>
  One worker: its start in the code, its size, which does not count the jumps, and the code with the jumps.
\<close>

definition BuildFn :: "nat \<Rightarrow> int \<Rightarrow> graph \<Rightarrow> nat option \<Rightarrow> codegen \<Rightarrow> emitter \<Rightarrow> (emitter \<times> codegen \<times> nat \<times> nat) option" where
  "BuildFn fuel null g entry c e =
     (let e = e\<lparr>JumpInstructions := [], addressTable := Map.empty, orderTable := (\<lambda>_. 0)\<rparr>;
          start = assemblyEnd e
      in do { b \<leftarrow> build_all fuel g \<lparr>out = e, toBuild = [(entry, None)], ordered = [], tables = c\<rparr>;
              let size = assemblyEnd (out b) - start;
              e \<leftarrow> InsertJumpInstructions null (spans g) (out b);
              Some (e, tables b, start, size) })"

end
