(* ===== verification/BuildFnCorrect.thy ===== *)
theory BuildFnCorrect
  imports BuildFn
begin

text \<open>
  The code of a worker follows its graph: every operation is compiled once, after its code stands its jump if it has
  one, and then its first successor, a jump to it, or the return instruction.
\<close>

section \<open>Graphs\<close>

definition is_condition :: "graph \<Rightarrow> nat \<Rightarrow> bool" where
  "is_condition g n \<longleftrightarrow> op_type (ops g n) \<in> {OP_JZ, OP_JNZ}"

definition condition_type :: "graph \<Rightarrow> nat \<Rightarrow> asm_operation_jmp" where
  "condition_type g n = (if op_type (ops g n) = OP_JZ then ASM_JZ else ASM_JNZ)"

text \<open>The code of an operation, whatever workers have been exported before.\<close>

definition code_of :: "graph \<Rightarrow> codegen \<Rightarrow> nat \<Rightarrow> byte list \<Rightarrow> bool" where
  "code_of g c n bs \<longleftrightarrow>
     (\<exists>ids es. operation_code (c\<lparr>exportWorkerId := ids\<rparr>) (ops g n) = Some es \<and> bs = concat (map emission_bytes es))"

text \<open>
  The operations of a worker: successors are among them, a condition has two of which the second is not the end, any
  other operation has one; each has code, of at most \<open>L\<close> bytes.
\<close>

definition graph_ok :: "graph \<Rightarrow> codegen \<Rightarrow> nat set \<Rightarrow> nat \<Rightarrow> bool" where
  "graph_ok g c N L \<longleftrightarrow> finite N \<and>
     (\<forall>n \<in> N. length (succs g n) = (if is_condition g n then 2 else 1) \<and> (is_condition g n \<longrightarrow> succs g n ! 1 \<noteq> None) \<and>
        (\<forall>k. Some k \<in> set (succs g n) \<longrightarrow> k \<in> N) \<and>
        (\<forall>ids. \<exists>es. operation_code (c\<lparr>exportWorkerId := ids\<rparr>) (ops g n) = Some es \<and> length (concat (map emission_bytes es)) \<le> L))"

section \<open>What has been built\<close>

text \<open>
  The operation \<open>n\<close>, the \<open>i\<close>-th one, is at \<open>a\<close> with the code \<open>bs\<close>, after the first \<open>m\<close> jumps; a condition has the
  next jump.
\<close>

definition built_at :: "graph \<Rightarrow> codegen \<Rightarrow> emitter \<Rightarrow> nat \<Rightarrow> nat \<Rightarrow> nat \<Rightarrow> nat \<Rightarrow> byte list \<Rightarrow> bool" where
  "built_at g c e i n a m bs \<longleftrightarrow> addressTable e n = Some a \<and> orderTable e n = i \<and> code_of g c n bs \<and>
     a + length bs \<le> assemblyEnd e \<and> take (length bs) (drop a (code_buffer e)) = bs \<and>
     m + (if is_condition g n then 1 else 0) \<le> length (JumpInstructions e) \<and>
     (\<forall>j \<in> set (take m (JumpInstructions e)). key j \<le> (a, i)) \<and>
     (\<forall>j \<in> set (drop m (JumpInstructions e)). (a, i) < key j \<and> a + length bs \<le> codePos j) \<and>
     (is_condition g n \<longrightarrow> JumpInstructions e ! m = \<lparr>jmpType = condition_type g n, codePos = a + length bs, codeOrder = i,
        destOp = succs g n ! 1, jmp_node = Some n\<rparr>)"

text \<open>What comes at \<open>x\<close>, after the first \<open>m\<close> jumps and the \<open>i\<close>-th operation.\<close>

definition continues :: "emitter \<Rightarrow> nat \<Rightarrow> nat \<Rightarrow> nat \<Rightarrow> nat \<Rightarrow> nat option \<Rightarrow> bool" where
  "continues e cnt i x m s \<longleftrightarrow>
     (case s of
        None \<Rightarrow> x < assemblyEnd e \<and> code_buffer e ! x = 0xC3 \<and> (\<forall>j \<in> set (drop m (JumpInstructions e)). x < codePos j)
      | Some k \<Rightarrow>
          addressTable e k = Some x \<and> orderTable e k = i + 1 \<and> i + 1 < cnt \<and>
            (\<forall>j \<in> set (drop m (JumpInstructions e)). (x, i + 1) < key j) \<or>
          m < length (JumpInstructions e) \<and> jmpType (JumpInstructions e ! m) = ASM_JMP \<and>
            codePos (JumpInstructions e ! m) = x \<and> destOp (JumpInstructions e ! m) = Some k)"

text \<open>Growth of the code: what is there stays.\<close>

definition extends :: "nat \<Rightarrow> emitter \<Rightarrow> emitter \<Rightarrow> bool" where
  "extends cnt e e' \<longleftrightarrow> assemblyEnd e \<le> assemblyEnd e' \<and> length (code_buffer e') = length (code_buffer e) \<and>
     take (assemblyEnd e) (code_buffer e') = take (assemblyEnd e) (code_buffer e) \<and>
     (\<exists>js. JumpInstructions e' = JumpInstructions e @ js \<and> (\<forall>j \<in> set js. assemblyEnd e \<le> codePos j \<and> cnt \<le> codeOrder j)) \<and>
     (\<forall>n a. addressTable e n = Some a \<longrightarrow> addressTable e' n = Some a \<and> orderTable e' n = orderTable e n)"

lemma extends_code:
  assumes "extends cnt e e'" "x + n \<le> assemblyEnd e"
  shows "take n (drop x (code_buffer e')) = take n (drop x (code_buffer e))"
proof -
  have "take n (drop x (take (assemblyEnd e) (code_buffer e'))) = take n (drop x (take (assemblyEnd e) (code_buffer e)))"
    using assms(1) by (simp add: extends_def)
  moreover have "min n (assemblyEnd e - x) = n" using assms(2) by simp
  ultimately show ?thesis by (simp add: drop_take)
qed

lemma built_at_extends:
  assumes "built_at g c e i n a m bs" "extends cnt e e'" "i < cnt"
  shows "built_at g c e' i n a m bs"
proof -
  obtain js where js: "JumpInstructions e' = JumpInstructions e @ js" "\<forall>j \<in> set js. assemblyEnd e \<le> codePos j \<and> cnt \<le> codeOrder j"
    using assms(2) by (auto simp: extends_def)
  have m: "m + (if is_condition g n then 1 else 0) \<le> length (JumpInstructions e)" and x: "a + length bs \<le> assemblyEnd e"
    and a: "addressTable e n = Some a" "orderTable e n = i" using assms(1) by (auto simp: built_at_def)
  have "(a, i) < key j \<and> a + length bs \<le> codePos j" if "j \<in> set js" for j
    using js(2) that x assms(3) by (fastforce simp: key_def)
  moreover have "take (length bs) (drop a (code_buffer e')) = bs"
    using extends_code [OF assms(2) x] assms(1) by (simp add: built_at_def)
  moreover have "addressTable e' n = Some a" "orderTable e' n = i" using a assms(2) by (auto simp: extends_def)
  moreover have "assemblyEnd e \<le> assemblyEnd e'" using assms(2) by (simp add: extends_def)
  ultimately show ?thesis using assms(1) m js(1) by (auto simp: built_at_def nth_append)
qed

lemma continues_extends:
  assumes "continues e cnt i x m s" "extends cnt e e'" "cnt \<le> cnt'" "m \<le> length (JumpInstructions e)" "x \<le> assemblyEnd e" "i < cnt"
  shows "continues e' cnt' i x m s"
proof -
  obtain js where js: "JumpInstructions e' = JumpInstructions e @ js" "\<forall>j \<in> set js. assemblyEnd e \<le> codePos j \<and> cnt \<le> codeOrder j"
    using assms(2) by (auto simp: extends_def)
  have ge: "assemblyEnd e \<le> assemblyEnd e'" using assms(2) by (simp add: extends_def)
  show ?thesis
  proof (cases s)
    case None
    then have n: "x < assemblyEnd e" "code_buffer e ! x = 0xC3" "\<forall>j \<in> set (drop m (JumpInstructions e)). x < codePos j"
      using assms(1) by (auto simp: continues_def)
    have "code_buffer e' ! x = code_buffer e ! x"
    proof -
      have "take (assemblyEnd e) (code_buffer e') ! x = take (assemblyEnd e) (code_buffer e) ! x" using assms(2) by (simp add: extends_def)
      then show ?thesis using n(1) by simp
    qed
    then show ?thesis using None n js assms(4) ge by (auto simp: continues_def)
  next
    case (Some k)
    then consider (fall) "addressTable e k = Some x" "orderTable e k = i + 1" "i + 1 < cnt"
        "\<forall>j \<in> set (drop m (JumpInstructions e)). (x, i + 1) < key j"
      | (jump) "m < length (JumpInstructions e)" "jmpType (JumpInstructions e ! m) = ASM_JMP"
        "codePos (JumpInstructions e ! m) = x" "destOp (JumpInstructions e ! m) = Some k"
      using assms(1) by (auto simp: continues_def)
    then show ?thesis
    proof cases
      case fall
      have "(x, i + 1) < key j" if "j \<in> set js" for j using js(2) that fall(3) assms(5) by (fastforce simp: key_def)
      then show ?thesis using Some fall js(1) assms(2-4) by (auto simp: continues_def extends_def)
    next
      case jump
      then show ?thesis using Some js(1) by (auto simp: continues_def nth_append)
    qed
  qed
qed

section \<open>The invariant\<close>

text \<open>
  The bytes that are still to come: an upper bound for what is in the work list and for the operations that are not
  compiled yet, with six bytes for each jump.
\<close>

definition still_to_come :: "graph \<Rightarrow> nat set \<Rightarrow> nat \<Rightarrow> builder \<Rightarrow> nat" where
  "still_to_come g N L b = (\<Sum>n \<in> N - set (ordered b). L + 6 + 7 * length (succs g n)) + 7 * length (toBuild b)"

definition same_tables :: "codegen \<Rightarrow> codegen \<Rightarrow> bool" where
  "same_tables c c' \<longleftrightarrow> (\<exists>ids. c' = c\<lparr>exportWorkerId := ids\<rparr>)"

text \<open>The operation that was compiled last may still wait for its first successor, which is then next.\<close>

definition pending :: "graph \<Rightarrow> builder \<Rightarrow> nat \<Rightarrow> nat \<Rightarrow> nat \<Rightarrow> bool" where
  "pending g b n x m \<longleftrightarrow> x = assemblyEnd (out b) \<and> m = length (JumpInstructions (out b)) \<and> n = last (ordered b) \<and>
     (\<exists>rest. toBuild b = (succs g n ! 0, Some n) # rest)"

definition op_ok :: "graph \<Rightarrow> codegen \<Rightarrow> builder \<Rightarrow> nat \<Rightarrow> bool" where
  "op_ok g c b i \<longleftrightarrow> (\<exists>a m bs. built_at g c (out b) i (ordered b ! i) a m bs \<and>
     (let n = ordered b ! i; m' = m + (if is_condition g n then 1 else 0); x = a + length bs in
      continues (out b) (length (ordered b)) i x m' (succs g n ! 0) \<or> i + 1 = length (ordered b) \<and> pending g b n x m'))"

definition jumps_ok :: "builder \<Rightarrow> bool" where
  "jumps_ok b \<longleftrightarrow> sorted (map key (JumpInstructions (out b))) \<and>
     (\<forall>j \<in> set (JumpInstructions (out b)). codePos j \<le> assemblyEnd (out b) \<and> codeOrder j \<le> length (ordered b) \<and>
        jmp_node j \<noteq> None \<and> (\<exists>k. destOp j = Some k \<and> (k \<in> set (ordered b) \<or> Some k \<in> fst ` set (toBuild b))))"

text \<open>The entry is the first operation, at the start of the worker.\<close>

definition entry_ok :: "nat \<Rightarrow> nat \<Rightarrow> builder \<Rightarrow> bool" where
  "entry_ok entry start b \<longleftrightarrow>
     (if ordered b = [] then toBuild b = [(Some entry, None)] \<and> assemblyEnd (out b) = start \<and> JumpInstructions (out b) = []
      else hd (ordered b) = entry \<and> addressTable (out b) entry = Some start \<and> orderTable (out b) entry = 0 \<and>
        (\<forall>j \<in> set (JumpInstructions (out b)). (start, 0) < key j) \<and> None \<notin> snd ` set (toBuild b))"

definition work_ok :: "nat set \<Rightarrow> builder \<Rightarrow> bool" where
  "work_ok N b \<longleftrightarrow> (\<forall>k. Some k \<in> fst ` set (toBuild b) \<longrightarrow> k \<in> N)"

definition table_ok :: "nat set \<Rightarrow> builder \<Rightarrow> bool" where
  "table_ok N b \<longleftrightarrow> distinct (ordered b) \<and> set (ordered b) \<subseteq> N \<and> dom (addressTable (out b)) = set (ordered b) \<and>
     (\<forall>n a. addressTable (out b) n = Some a \<longrightarrow> a \<le> assemblyEnd (out b))"

definition room_ok :: "graph \<Rightarrow> nat set \<Rightarrow> nat \<Rightarrow> nat \<Rightarrow> builder \<Rightarrow> bool" where
  "room_ok g N L B b \<longleftrightarrow>
     assemblyEnd (out b) + 6 * length (JumpInstructions (out b)) + still_to_come g N L b \<le> B \<and> B \<le> length (code_buffer (out b))"

definition build_inv :: "graph \<Rightarrow> codegen \<Rightarrow> nat set \<Rightarrow> nat \<Rightarrow> nat \<Rightarrow> nat \<Rightarrow> nat \<Rightarrow> builder \<Rightarrow> bool" where
  "build_inv g c N L entry start B b \<longleftrightarrow>
     table_ok N b \<and> same_tables c (tables b) \<and> jumps_ok b \<and> (\<forall>i < length (ordered b). op_ok g c b i) \<and>
     work_ok N b \<and> entry_ok entry start b \<and> room_ok g N L B b"

lemma op_ok_extends:
  assumes "op_ok g c b i" "extends (length (ordered b)) (out b) (out b')" "i < length (ordered b)"
    and "ordered b' ! i = ordered b ! i" "length (ordered b) \<le> length (ordered b')"
    and "\<And>n x m. i + 1 = length (ordered b) \<Longrightarrow> n = ordered b ! i \<Longrightarrow> pending g b n x m \<Longrightarrow>
      continues (out b') (length (ordered b')) i x m (succs g n ! 0)"
  shows "op_ok g c b' i"
proof -
  let ?n = "ordered b ! i"
  let ?k = "if is_condition g ?n then 1 else 0 :: nat"
  obtain a m bs where b: "built_at g c (out b) i ?n a m bs"
    and after: "continues (out b) (length (ordered b)) i (a + length bs) (m + ?k) (succs g ?n ! 0) \<or>
      i + 1 = length (ordered b) \<and> pending g b ?n (a + length bs) (m + ?k)"
    using assms(1) by (auto simp: op_ok_def Let_def)
  have le: "m + ?k \<le> length (JumpInstructions (out b))" "a + length bs \<le> assemblyEnd (out b)" using b by (auto simp: built_at_def)
  have "continues (out b') (length (ordered b')) i (a + length bs) (m + ?k) (succs g ?n ! 0)"
    using after continues_extends [OF _ assms(2,5) le assms(3)] assms(6) by blast
  then show ?thesis
    using built_at_extends [OF b assms(2,3)] assms(4) unfolding op_ok_def Let_def by metis
qed

section \<open>Growth of the code\<close>

lemma emit_bytes_some:
  "assemblyEnd e + length bs \<le> length (code_buffer e) \<Longrightarrow> emit_bytes bs e =
    Some (e\<lparr>code_buffer := write_bytes (code_buffer e) (assemblyEnd e) bs, assemblyEnd := assemblyEnd e + length bs\<rparr>)"
  by (simp add: emit_bytes_def)

lemma write_bytes_append:
  "a + length bs + length cs \<le> length mem \<Longrightarrow> write_bytes (write_bytes mem a bs) (a + length bs) cs = write_bytes mem a (bs @ cs)"
  by (simp add: write_bytes_def ac_simps)

lemma write_bytes_nothing: "write_bytes mem a [] = mem"
  by (simp add: write_bytes_def)

lemma emit_one_some:
  assumes "assemblyEnd e + length (emission_bytes x) \<le> length (code_buffer e)"
  obtains h where "emit_one order x e = Some (e\<lparr>code_buffer := write_bytes (code_buffer e) (assemblyEnd e) (emission_bytes x),
    assemblyEnd := assemblyEnd e + length (emission_bytes x), runtimeApiHeader := h\<rparr>)"
proof (cases x)
  case (Asm call)
  then show thesis using that [of "runtimeApiHeader e"] assms by (simp add: emit_one_def emit_bytes_some)
next
  case (Api i)
  then show thesis using that assms by (simp add: emit_one_def emit_bytes_some)
qed

lemma emit_all_some:
  "assemblyEnd e + length (concat (map emission_bytes es)) \<le> length (code_buffer e) \<Longrightarrow>
    \<exists>h. emit_all order es e = Some (e\<lparr>code_buffer := write_bytes (code_buffer e) (assemblyEnd e) (concat (map emission_bytes es)),
      assemblyEnd := assemblyEnd e + length (concat (map emission_bytes es)), runtimeApiHeader := h\<rparr>)"
proof (induction es arbitrary: e)
  case Nil
  show ?case by (intro exI [of _ "runtimeApiHeader e"]) (simp add: write_bytes_nothing)
next
  case (Cons x es)
  let ?cs = "concat (map emission_bytes es)"
  have le: "assemblyEnd e + length (emission_bytes x) \<le> length (code_buffer e)" using Cons.prems by simp
  obtain h where x: "emit_one order x e = Some (e\<lparr>code_buffer := write_bytes (code_buffer e) (assemblyEnd e) (emission_bytes x),
      assemblyEnd := assemblyEnd e + length (emission_bytes x), runtimeApiHeader := h\<rparr>)"
    by (rule emit_one_some [OF le])
  define e1 where "e1 = e\<lparr>code_buffer := write_bytes (code_buffer e) (assemblyEnd e) (emission_bytes x),
      assemblyEnd := assemblyEnd e + length (emission_bytes x), runtimeApiHeader := h\<rparr>"
  have "assemblyEnd e1 + length ?cs \<le> length (code_buffer e1)" using Cons.prems le by (simp add: e1_def length_write_bytes)
  from Cons.IH [OF this] obtain h' where "emit_all order es e1 = Some (e1\<lparr>code_buffer := write_bytes (code_buffer e1) (assemblyEnd e1) ?cs,
      assemblyEnd := assemblyEnd e1 + length ?cs, runtimeApiHeader := h'\<rparr>)" by blast
  moreover have "write_bytes (code_buffer e1) (assemblyEnd e1) ?cs = write_bytes (code_buffer e) (assemblyEnd e) (emission_bytes x @ ?cs)"
    using Cons.prems write_bytes_append [of "assemblyEnd e" "emission_bytes x" ?cs "code_buffer e"] by (simp add: e1_def)
  ultimately show ?case using x e1_def by (intro exI [of _ h']) (simp add: add.assoc)
qed

lemma code_written:
  assumes "a + length bs \<le> length mem"
  shows "take a (write_bytes mem a bs) = take a mem" "take (length bs) (drop a (write_bytes mem a bs)) = bs"
    "length (write_bytes mem a bs) = length mem"
  using assms by (simp_all add: write_bytes_def)

lemma op_ok_grows:
  assumes "\<forall>i < length (ordered b). op_ok g c b i" "extends (length (ordered b)) (out b) (out b')" "ordered b' = ordered b @ ns"
    and "\<And>i n x m. i + 1 = length (ordered b) \<Longrightarrow> pending g b n x m \<Longrightarrow>
      continues (out b') (length (ordered b')) i x m (succs g n ! 0)"
    and "i < length (ordered b)"
  shows "op_ok g c b' i"
  by (rule op_ok_extends [of g c b i b']) (use assms in \<open>auto simp: nth_append\<close>)

lemma still_to_come_pop:
  "toBuild b = t # rest \<Longrightarrow> still_to_come g N L b = still_to_come g N L (b\<lparr>out := e, toBuild := rest\<rparr>) + 7"
  by (simp add: still_to_come_def)

section \<open>The end of a path\<close>

lemma build_return:
  assumes inv: "build_inv g c N L entry start B b" and top: "toBuild b = (None, p) # rest"
  obtains b' where "BuildOperation g b = Some b'" "build_inv g c N L entry start B b'"
    "still_to_come g N L b' < still_to_come g N L b"
proof -
  let ?e = "out b"
  define e' where "e' = (mark (assemblyEnd ?e) 1 (worker_end g, worker_end g + 1) ?e)\<lparr>code_buffer :=
    write_bytes (code_buffer ?e) (assemblyEnd ?e) [0xC3], assemblyEnd := assemblyEnd ?e + 1\<rparr>"
  define b' where "b' = b\<lparr>out := e', toBuild := rest\<rparr>"
  have fields: "out b' = e'" "ordered b' = ordered b" "toBuild b' = rest" "tables b' = tables b" by (simp_all add: b'_def)
  have less: "still_to_come g N L b = still_to_come g N L b' + 7" unfolding b'_def by (rule still_to_come_pop [OF top])
  have room: "assemblyEnd ?e + length [0xC3 :: byte] \<le> length (code_buffer ?e)"
    using inv less by (simp add: build_inv_def room_ok_def)
  note written = code_written [OF room]
  have e': "assemblyEnd e' = assemblyEnd ?e + 1" "JumpInstructions e' = JumpInstructions ?e" "addressTable e' = addressTable ?e"
    "orderTable e' = orderTable ?e" "length (code_buffer e') = length (code_buffer ?e)"
    "take (assemblyEnd ?e) (code_buffer e') = take (assemblyEnd ?e) (code_buffer ?e)"
    using written by (simp_all add: e'_def mark_def)
  have ret: "code_buffer e' ! assemblyEnd ?e = 0xC3"
    using room by (simp add: e'_def write_bytes_def nth_append)
  have step: "BuildOperation g b = Some b'"
    using room by (simp add: BuildOperation_def top emit_bytes_def mark_def b'_def e'_def)
  have ext: "extends (length (ordered b)) ?e e'" using e' by (simp add: extends_def)
  have nonempty: "ordered b \<noteq> []" using inv top by (auto simp: build_inv_def entry_ok_def split: if_splits)
  have "op_ok g c b' i" if "i < length (ordered b')" for i
  proof (rule op_ok_grows [of b g c b' "[]"])
    show "\<forall>i < length (ordered b). op_ok g c b i" using inv by (simp add: build_inv_def)
    show "continues (out b') (length (ordered b')) i x m (succs g n ! 0)"
      if "i + 1 = length (ordered b)" "pending g b n x m" for i n x m
    proof -
      have "succs g n ! 0 = None" "x = assemblyEnd ?e" "m = length (JumpInstructions ?e)"
        using that(2) top by (auto simp: pending_def)
      then show ?thesis using ret e' by (simp add: continues_def fields)
    qed
  qed (use ext that in \<open>simp_all add: fields\<close>)
  moreover have "table_ok N b'" using inv e' by (fastforce simp: build_inv_def table_ok_def fields)
  moreover have "jumps_ok b'"
  proof -
    have j: "jumps_ok b" using inv by (simp add: build_inv_def)
    then show ?thesis using top e' by (fastforce simp: jumps_ok_def fields)
  qed
  moreover have "work_ok N b'" using inv top by (auto simp: build_inv_def work_ok_def fields)
  moreover have "entry_ok entry start b'" using inv top nonempty e' by (simp add: build_inv_def entry_ok_def fields)
  moreover have "room_ok g N L B b'" using inv e' less by (simp add: build_inv_def room_ok_def fields)
  moreover have "same_tables c (tables b')" using inv by (simp add: build_inv_def fields)
  ultimately have "build_inv g c N L entry start B b'" by (simp add: build_inv_def)
  then show thesis using that step less by simp
qed

section \<open>A path that meets code\<close>

lemma sorted_snoc: "sorted (map f xs) \<Longrightarrow> \<forall>x \<in> set xs. f x \<le> f y \<Longrightarrow> sorted (map f (xs @ [y]))"
  by (auto simp: sorted_append)

lemma build_jump:
  assumes inv: "build_inv g c N L entry start B b" and top: "toBuild b = (Some n, p) # rest" and known: "addressTable (out b) n \<noteq> None"
  obtains b' where "BuildOperation g b = Some b'" "build_inv g c N L entry start B b'"
    "still_to_come g N L b' < still_to_come g N L b"
proof -
  let ?e = "out b"
  define j where "j = \<lparr>jmpType = ASM_JMP, codePos = assemblyEnd ?e, codeOrder = length (ordered b), destOp = Some n, jmp_node = p\<rparr>"
  define b' where "b' = b\<lparr>out := add_jump j ?e, toBuild := rest\<rparr>"
  have fields: "out b' = add_jump j ?e" "ordered b' = ordered b" "toBuild b' = rest" "tables b' = tables b" by (simp_all add: b'_def)
  have less: "still_to_come g N L b = still_to_come g N L b' + 7" unfolding b'_def by (rule still_to_come_pop [OF top])
  have step: "BuildOperation g b = Some b'" using known by (simp add: BuildOperation_def top b'_def j_def)
  have table: "table_ok N b" and jumps: "jumps_ok b" using inv by (simp_all add: build_inv_def)
  have n: "n \<in> set (ordered b)" using table known by (auto simp: table_ok_def)
  then have nonempty: "ordered b \<noteq> []" by auto
  have ext: "extends (length (ordered b)) ?e (add_jump j ?e)" by (simp add: extends_def add_jump_def j_def)
  have "op_ok g c b' i" if "i < length (ordered b')" for i
  proof (rule op_ok_grows [of b g c b' "[]"])
    show "\<forall>i < length (ordered b). op_ok g c b i" using inv by (simp add: build_inv_def)
    show "continues (out b') (length (ordered b')) i x m (succs g k ! 0)"
      if "i + 1 = length (ordered b)" "pending g b k x m" for i k x m
    proof -
      have "succs g k ! 0 = Some n" "x = assemblyEnd ?e" "m = length (JumpInstructions ?e)"
        using that(2) top by (auto simp: pending_def)
      then show ?thesis by (simp add: continues_def fields add_jump_def j_def)
    qed
  qed (use ext that in \<open>simp_all add: fields\<close>)
  moreover have "table_ok N b'" using table by (simp add: table_ok_def fields add_jump_def)
  moreover have "jumps_ok b'"
  proof -
    have old: "\<forall>i \<in> set (JumpInstructions ?e). codePos i \<le> assemblyEnd ?e \<and> codeOrder i \<le> length (ordered b)"
      using jumps by (simp add: jumps_ok_def)
    have "sorted (map key (JumpInstructions ?e @ [j]))"
      by (rule sorted_snoc) (use jumps old in \<open>auto simp: jumps_ok_def key_def j_def\<close>)
    moreover have "p \<noteq> None" using inv top nonempty by (auto simp: build_inv_def entry_ok_def)
    moreover have "\<exists>k. destOp i = Some k \<and> (k \<in> set (ordered b) \<or> Some k \<in> fst ` set rest)" if i: "i \<in> set (JumpInstructions ?e)" for i
    proof -
      obtain k where "destOp i = Some k" "k \<in> set (ordered b) \<or> Some k \<in> fst ` set (toBuild b)"
        using jumps i unfolding jumps_ok_def by blast
      then show ?thesis using top n by auto
    qed
    ultimately show ?thesis using jumps n by (auto simp: jumps_ok_def fields add_jump_def j_def)
  qed
  moreover have "work_ok N b'" using inv top by (auto simp: build_inv_def work_ok_def fields)
  moreover have "entry_ok entry start b'"
  proof -
    have e: "entry_ok entry start b" using inv by (simp add: build_inv_def)
    then have "start \<le> assemblyEnd ?e" using table nonempty by (auto simp: entry_ok_def table_ok_def)
    then show ?thesis using e top nonempty by (auto simp: entry_ok_def fields add_jump_def j_def key_def)
  qed
  moreover have "room_ok g N L B b'" using inv less by (simp add: build_inv_def room_ok_def fields add_jump_def)
  moreover have "same_tables c (tables b')" using inv by (simp add: build_inv_def fields)
  ultimately have "build_inv g c N L entry start B b'" by (simp add: build_inv_def)
  then show thesis using that step less by simp
qed

section \<open>An operation that is new\<close>

lemma test_code_nonempty:
  assumes "op_type op \<in> {OP_JZ, OP_JNZ}" "operation_code c op = Some es"
  shows "concat (map emission_bytes es) \<noteq> []"
proof -
  have "test_code c op = Some es" using assms by (auto simp: operation_code_def)
  then show ?thesis by (auto simp: test_code_def asm_def printRR_def print_binary_def Let_def split: if_splits)
qed

definition compiled_emitter :: "graph \<Rightarrow> nat \<Rightarrow> nat \<Rightarrow> byte list \<Rightarrow> (byte \<times> key list) list \<Rightarrow> emitter \<Rightarrow> emitter" where
  "compiled_emitter g n order bs h e =
     e\<lparr>code_buffer := write_bytes (code_buffer e) (assemblyEnd e) bs, assemblyEnd := assemblyEnd e + length bs,
       JumpInstructions := JumpInstructions e @ (if is_condition g n then
         [\<lparr>jmpType = condition_type g n, codePos = assemblyEnd e + length bs, codeOrder = order, destOp = succs g n ! 1, jmp_node = Some n\<rparr>]
         else []),
       addressTable := (addressTable e)(n \<mapsto> assemblyEnd e), orderTable := (orderTable e)(n := order), runtimeApiHeader := h,
       addrToLine := (if op_type (ops g n) \<noteq> OP_FREE_TEMP then markAddress (assemblyEnd e) (length bs) (spans g n) (addrToLine e)
         else addrToLine e)\<rparr>"

lemma compile_new_some:
  assumes code: "operation_code (tables b) (ops g n) = Some es" "bs = concat (map emission_bytes es)"
    and room: "assemblyEnd (out b) + length bs \<le> length (code_buffer (out b))" and succs: "is_condition g n \<Longrightarrow> 2 \<le> length (succs g n)"
  obtains h where "compile_new g n b = Some (b\<lparr>out := compiled_emitter g n (length (ordered b)) bs h (out b),
    toBuild := map (\<lambda>s. (s, Some n)) (succs g n) @ toBuild b, ordered := ordered b @ [n],
    tables := (tables b)\<lparr>exportWorkerId := operation_exports (tables b) (ops g n)\<rparr>\<rparr>)"
proof -
  let ?e = "(out b)\<lparr>addressTable := (addressTable (out b))(n \<mapsto> assemblyEnd (out b)),
    orderTable := (orderTable (out b))(n := length (ordered b))\<rparr>"
  obtain h where "emit_all (length (ordered b)) es ?e = Some (?e\<lparr>code_buffer := write_bytes (code_buffer ?e) (assemblyEnd ?e) bs,
      assemblyEnd := assemblyEnd ?e + length bs, runtimeApiHeader := h\<rparr>)"
    using emit_all_some [of ?e es "length (ordered b)"] room code(2) by auto
  note emitted = this
  show thesis
  proof (rule that [of h])
    show "compile_new g n b = Some (b\<lparr>out := compiled_emitter g n (length (ordered b)) bs h (out b),
      toBuild := map (\<lambda>s. (s, Some n)) (succs g n) @ toBuild b, ordered := ordered b @ [n],
      tables := (tables b)\<lparr>exportWorkerId := operation_exports (tables b) (ops g n)\<rparr>\<rparr>)"
      using emitted succs unfolding compile_new_def Let_def code(1)
      by (cases "op_type (ops g n) \<in> {OP_JZ, OP_JNZ}")
        (auto simp: condition_jump_def compiled_emitter_def is_condition_def condition_type_def mark_def add_jump_def)
  qed
qed

lemma still_to_come_compile:
  assumes "finite N" "n \<in> N" "n \<notin> set (ordered b)" "toBuild b = t # rest" "ordered b' = ordered b @ [n]"
    "toBuild b' = map (\<lambda>s. (s, Some n)) (succs g n) @ rest"
  shows "still_to_come g N L b = still_to_come g N L b' + L + 13"
proof -
  have set: "N - set (ordered b) = insert n (N - set (ordered b'))" using assms by auto
  have "n \<notin> N - set (ordered b')" using assms(5) by simp
  then have "(\<Sum>k \<in> N - set (ordered b). L + 6 + 7 * length (succs g k)) =
      (L + 6 + 7 * length (succs g n)) + (\<Sum>k \<in> N - set (ordered b'). L + 6 + 7 * length (succs g k))"
    unfolding set using assms(1) by (subst sum.insert) auto
  then show ?thesis using assms(4,6) unfolding still_to_come_def by simp
qed

lemma compiled_emitter_extends:
  assumes "assemblyEnd e + length bs \<le> length (code_buffer e)" "addressTable e n = None" "order = cnt"
  shows "extends cnt e (compiled_emitter g n order bs h e)"
  using code_written [OF assms(1)] assms(2,3) by (auto simp: extends_def compiled_emitter_def)

lemma compiled_jumps:
  "JumpInstructions (compiled_emitter g n order bs h e) = JumpInstructions e @ (if is_condition g n then
     [\<lparr>jmpType = condition_type g n, codePos = assemblyEnd e + length bs, codeOrder = order, destOp = succs g n ! 1, jmp_node = Some n\<rparr>]
     else [])"
  by (simp add: compiled_emitter_def)

text \<open>What the step does to the state, with the code of the operation.\<close>

definition compiled :: "graph \<Rightarrow> nat \<Rightarrow> byte list \<Rightarrow> (nat option \<times> nat option) list \<Rightarrow> builder \<Rightarrow> builder \<Rightarrow> bool" where
  "compiled g n bs rest b b' \<longleftrightarrow> (\<exists>h ids. b' = b\<lparr>out := compiled_emitter g n (length (ordered b)) bs h (out b),
     toBuild := map (\<lambda>s. (s, Some n)) (succs g n) @ rest, ordered := ordered b @ [n], tables := (tables b)\<lparr>exportWorkerId := ids\<rparr>\<rparr>)"

lemma compiled_fields:
  assumes "compiled g n bs rest b b'"
  obtains h where "out b' = compiled_emitter g n (length (ordered b)) bs h (out b)" "ordered b' = ordered b @ [n]"
    "toBuild b' = map (\<lambda>s. (s, Some n)) (succs g n) @ rest" "\<exists>ids. tables b' = (tables b)\<lparr>exportWorkerId := ids\<rparr>"
  using assms unfolding compiled_def by (elim exE) (rule that, auto)

lemma compiled_new_op_ok:
  assumes comp: "compiled g n bs rest b b'" and room: "assemblyEnd (out b) + length bs \<le> length (code_buffer (out b))"
    and code: "code_of g c n bs" "is_condition g n \<Longrightarrow> bs \<noteq> []" and succs: "succs g n \<noteq> []" and jumps: "jumps_ok b"
  shows "op_ok g c b' (length (ordered b))"
proof -
  let ?e = "out b"
  obtain h where f: "out b' = compiled_emitter g n (length (ordered b)) bs h ?e" "ordered b' = ordered b @ [n]"
    "toBuild b' = map (\<lambda>s. (s, Some n)) (succs g n) @ rest" by (rule compiled_fields [OF comp])
  have old: "\<forall>j \<in> set (JumpInstructions ?e). codePos j \<le> assemblyEnd ?e \<and> codeOrder j \<le> length (ordered b)"
    using jumps by (simp add: jumps_ok_def)
  have "\<forall>j \<in> set (JumpInstructions ?e). key j \<le> (assemblyEnd ?e, length (ordered b))" using old by (auto simp: key_def)
  then have "built_at g c (out b') (length (ordered b)) n (assemblyEnd ?e) (length (JumpInstructions ?e)) bs"
    using code_written(2) [OF room] code
    by (auto simp: built_at_def f(1) compiled_emitter_def key_def)
  moreover have "pending g b' n (assemblyEnd ?e + length bs) (length (JumpInstructions ?e) + (if is_condition g n then 1 else 0))"
    using succs by (cases "succs g n") (auto simp: pending_def f compiled_emitter_def)
  moreover have "ordered b' ! length (ordered b) = n" using f(2) by simp
  ultimately show ?thesis using f(2) unfolding op_ok_def Let_def by (metis Suc_eq_plus1 length_append_singleton)
qed

lemma compiled_jumps_ok:
  assumes comp: "compiled g n bs rest b b'" and jumps: "jumps_ok b" and top: "toBuild b = (Some n, p) # rest"
    and succs: "is_condition g n \<Longrightarrow> length (succs g n) = 2 \<and> succs g n ! 1 \<noteq> None"
  shows "jumps_ok b'"
proof -
  let ?e = "out b"
  obtain h where f: "out b' = compiled_emitter g n (length (ordered b)) bs h ?e" "ordered b' = ordered b @ [n]"
    "toBuild b' = map (\<lambda>s. (s, Some n)) (succs g n) @ rest" by (rule compiled_fields [OF comp])
  have old: "\<forall>j \<in> set (JumpInstructions ?e). codePos j \<le> assemblyEnd ?e \<and> codeOrder j \<le> length (ordered b) \<and> jmp_node j \<noteq> None"
    using jumps by (simp add: jumps_ok_def)
  have dest: "\<exists>k. destOp j = Some k \<and> (k \<in> set (ordered b') \<or> Some k \<in> fst ` set (toBuild b'))" if j: "j \<in> set (JumpInstructions ?e)" for j
  proof -
    obtain k where "destOp j = Some k" "k \<in> set (ordered b) \<or> Some k \<in> fst ` set (toBuild b)"
      using jumps j unfolding jumps_ok_def by blast
    then show ?thesis using top by (auto simp: f)
  qed
  show ?thesis
  proof (cases "is_condition g n")
    case True
    then obtain k where k: "succs g n ! 1 = Some k" "Some k \<in> set (succs g n)"
      using succs by (metis lessI not_None_eq nth_mem numeral_2_eq_2 One_nat_def)
    let ?j = "\<lparr>jmpType = condition_type g n, codePos = assemblyEnd ?e + length bs, codeOrder = length (ordered b),
      destOp = Some k, jmp_node = Some n\<rparr>"
    have js: "JumpInstructions (out b') = JumpInstructions ?e @ [?j]" using True k by (simp add: f(1) compiled_jumps)
    have "sorted (map key (JumpInstructions ?e @ [?j]))"
      by (rule sorted_snoc) (use jumps old in \<open>auto simp: jumps_ok_def key_def\<close>)
    moreover have "Some k \<in> fst ` set (toBuild b')" using k(2) by (force simp: f(3))
    ultimately show ?thesis using old dest unfolding jumps_ok_def js
      by (auto simp: f(1,2) compiled_emitter_def)
  next
    case False
    then have js: "JumpInstructions (out b') = JumpInstructions ?e" by (simp add: f(1) compiled_jumps)
    show ?thesis using old dest jumps unfolding jumps_ok_def js by (auto simp: f(1,2) compiled_emitter_def)
  qed
qed

lemma compiled_entry_ok:
  assumes comp: "compiled g n bs rest b b'" and entry: "entry_ok entry start b" and table: "table_ok N b"
    and top: "toBuild b = (Some n, p) # rest" and fresh: "addressTable (out b) n = None" and code: "is_condition g n \<Longrightarrow> bs \<noteq> []"
  shows "entry_ok entry start b'"
proof -
  obtain h where f: "out b' = compiled_emitter g n (length (ordered b)) bs h (out b)" "ordered b' = ordered b @ [n]"
    "toBuild b' = map (\<lambda>s. (s, Some n)) (succs g n) @ rest" by (rule compiled_fields [OF comp])
  show ?thesis
  proof (cases "ordered b = []")
    case True
    then show ?thesis using entry top code by (auto simp: entry_ok_def f compiled_emitter_def key_def)
  next
    case False
    then have e: "hd (ordered b) = entry" "addressTable (out b) entry = Some start" "orderTable (out b) entry = 0"
      "\<forall>j \<in> set (JumpInstructions (out b)). (start, 0) < key j" "None \<notin> snd ` set (toBuild b)"
      using entry by (simp_all add: entry_ok_def)
    have "entry \<noteq> n" using e(2) fresh by auto
    moreover have "start \<le> assemblyEnd (out b)" using e(2) table by (auto simp: table_ok_def)
    ultimately show ?thesis using e False top by (auto simp: entry_ok_def f compiled_emitter_def key_def)
  qed
qed

lemma build_compile:
  assumes inv: "build_inv g c N L entry start B b" and graph: "graph_ok g c N L"
    and top: "toBuild b = (Some n, p) # rest" and fresh: "addressTable (out b) n = None"
  obtains b' where "BuildOperation g b = Some b'" "build_inv g c N L entry start B b'"
    "still_to_come g N L b' < still_to_come g N L b"
proof -
  let ?e = "out b"
  have table: "table_ok N b" and jumps: "jumps_ok b" and entry: "entry_ok entry start b" and work: "work_ok N b"
    using inv by (simp_all add: build_inv_def)
  have n: "n \<in> N" "n \<notin> set (ordered b)" using work table fresh top by (force simp: work_ok_def table_ok_def)+
  have node: "length (succs g n) = (if is_condition g n then 2 else 1)" "is_condition g n \<Longrightarrow> succs g n ! 1 \<noteq> None"
    "\<And>k. Some k \<in> set (succs g n) \<Longrightarrow> k \<in> N" "finite N" using graph n(1) by (auto simp: graph_ok_def)
  obtain ids where ids: "tables b = c\<lparr>exportWorkerId := ids\<rparr>" using inv by (auto simp: build_inv_def same_tables_def)
  obtain es where es: "operation_code (tables b) (ops g n) = Some es" "length (concat (map emission_bytes es)) \<le> L"
    using graph n(1) ids unfolding graph_ok_def by metis
  define bs where "bs = concat (map emission_bytes es)"
  have code: "code_of g c n bs" using es(1) ids bs_def unfolding code_of_def by metis
  have nonempty: "is_condition g n \<Longrightarrow> bs \<noteq> []" using test_code_nonempty [OF _ es(1)] by (simp add: is_condition_def bs_def)
  define b0 where "b0 = b\<lparr>toBuild := rest\<rparr>"
  have "still_to_come g N L b \<ge> L + 13"
    using still_to_come_compile [OF node(4) n top, of "b\<lparr>ordered := ordered b @ [n], toBuild := map (\<lambda>s. (s, Some n)) (succs g n) @ rest\<rparr>" g L] by simp
  then have room: "assemblyEnd ?e + length bs \<le> length (code_buffer ?e)" "length bs \<le> L"
    using inv es(2) by (simp_all add: build_inv_def room_ok_def bs_def)
  obtain h where h: "compile_new g n b0 = Some (b0\<lparr>out := compiled_emitter g n (length (ordered b0)) bs h (out b0),
      toBuild := map (\<lambda>s. (s, Some n)) (succs g n) @ toBuild b0, ordered := ordered b0 @ [n],
      tables := (tables b0)\<lparr>exportWorkerId := operation_exports (tables b0) (ops g n)\<rparr>\<rparr>)"
    by (rule compile_new_some [of b0 g n es bs]) (use es(1) room(1) node(1) in \<open>auto simp: b0_def bs_def split: if_splits\<close>)
  define b' where "b' = b0\<lparr>out := compiled_emitter g n (length (ordered b0)) bs h (out b0),
      toBuild := map (\<lambda>s. (s, Some n)) (succs g n) @ toBuild b0, ordered := ordered b0 @ [n],
      tables := (tables b0)\<lparr>exportWorkerId := operation_exports (tables b0) (ops g n)\<rparr>\<rparr>"
  have f: "out b' = compiled_emitter g n (length (ordered b)) bs h ?e" "ordered b' = ordered b @ [n]"
    "toBuild b' = map (\<lambda>s. (s, Some n)) (succs g n) @ rest" "\<exists>ids. tables b' = c\<lparr>exportWorkerId := ids\<rparr>"
    using ids by (auto simp: b'_def b0_def)
  have comp: "compiled g n bs rest b b'"
    unfolding compiled_def b'_def b0_def by (rule exI [of _ h], rule exI, simp)
  have step: "BuildOperation g b = Some b'" using h fresh by (simp add: BuildOperation_def top b'_def b0_def)
  have less: "still_to_come g N L b = still_to_come g N L b' + L + 13"
    by (rule still_to_come_compile [OF node(4) n top f(2,3)])
  have ext: "extends (length (ordered b)) ?e (out b')" unfolding f(1) by (rule compiled_emitter_extends [OF room(1) fresh refl])
  have "op_ok g c b' i" if "i < length (ordered b')" for i
  proof (cases "i = length (ordered b)")
    case True
    have "succs g n \<noteq> []" using node(1) by (auto split: if_splits)
    then show ?thesis unfolding True using compiled_new_op_ok [OF comp room(1) code nonempty _ jumps] by blast
  next
    case False
    show ?thesis
    proof (rule op_ok_grows [of b g c b' "[n]"])
      show "\<forall>i < length (ordered b). op_ok g c b i" using inv by (simp add: build_inv_def)
      show "continues (out b') (length (ordered b')) i x m (succs g k ! 0)"
        if "i + 1 = length (ordered b)" "pending g b k x m" for i k x m
      proof -
        have "succs g k ! 0 = Some n" "x = assemblyEnd ?e" "m = length (JumpInstructions ?e)"
          using that(2) top by (auto simp: pending_def)
        then show ?thesis using that(1) f(2) nonempty by (simp add: continues_def f(1) compiled_emitter_def key_def)
      qed
    qed (use ext that f False in auto)
  qed
  moreover have "table_ok N b'"
  proof -
    have old: "a \<le> assemblyEnd ?e" if "addressTable ?e k = Some a" for k a using table that by (simp add: table_ok_def)
    have bound: "a \<le> assemblyEnd (out b')" if "addressTable (out b') k = Some a" for k a
      using that old [of k a] by (auto simp: f(1) compiled_emitter_def split: if_splits)
    have doms: "dom (addressTable (out b')) = set (ordered b')" using table by (simp add: table_ok_def f(1,2) compiled_emitter_def)
    have sets: "distinct (ordered b')" "set (ordered b') \<subseteq> N" using table n unfolding f(2) table_ok_def by simp_all
    show ?thesis unfolding table_ok_def by (intro conjI allI impI) (rule sets doms | erule bound)+
  qed
  moreover have "jumps_ok b'"
  proof (rule compiled_jumps_ok [OF comp jumps top])
    assume cond: "is_condition g n"
    show "length (succs g n) = 2 \<and> succs g n ! 1 \<noteq> None" using node(1) node(2) [OF cond] cond by simp
  qed
  moreover have "work_ok N b'"
  proof -
    have "fst ` set (toBuild b') = set (succs g n) \<union> fst ` set rest" by (simp add: f(3) image_Un image_image)
    moreover have "k \<in> N" if "Some k \<in> fst ` set rest" for k using work top that by (simp add: work_ok_def)
    ultimately show ?thesis using node(3) unfolding work_ok_def by blast
  qed
  moreover have "entry_ok entry start b'" by (rule compiled_entry_ok [OF comp entry table top fresh nonempty])
  moreover have "room_ok g N L B b'"
    using inv less room code_written(3) [OF room(1)] by (auto simp: build_inv_def room_ok_def f(1) compiled_emitter_def)
  moreover have "same_tables c (tables b')" using f(4) by (simp add: same_tables_def)
  ultimately have "build_inv g c N L entry start B b'" by (simp add: build_inv_def)
  then show thesis using that step less by simp
qed

section \<open>All of a worker\<close>

lemma build_step:
  assumes "build_inv g c N L entry start B b" "graph_ok g c N L" "toBuild b \<noteq> []"
  obtains b' where "BuildOperation g b = Some b'" "build_inv g c N L entry start B b'"
    "still_to_come g N L b' < still_to_come g N L b"
proof -
  obtain s p rest where top: "toBuild b = (s, p) # rest" using assms(3) by (metis neq_Nil_conv surj_pair)
  show thesis
  proof (cases s)
    case None
    then show thesis using build_return [OF assms(1), of p rest] that top by blast
  next
    case (Some n)
    then show thesis using build_jump [OF assms(1), of n p rest] build_compile [OF assms(1,2), of n p rest] that top by blast
  qed
qed

lemma build_all_done:
  "build_inv g c N L entry start B b \<Longrightarrow> graph_ok g c N L \<Longrightarrow> still_to_come g N L b \<le> k \<Longrightarrow>
    \<exists>b'. build_all k g b = Some b' \<and> build_inv g c N L entry start B b' \<and> toBuild b' = []"
proof (induction k arbitrary: b)
  case 0
  then have "toBuild b = []" by (simp add: still_to_come_def)
  then show ?case using 0 by (simp add: build_all.simps)
next
  case (Suc k)
  show ?case
  proof (cases "toBuild b = []")
    case True
    then show ?thesis using Suc.prems by (simp add: build_all.simps)
  next
    case False
    obtain b1 where b1: "BuildOperation g b = Some b1" "build_inv g c N L entry start B b1"
      "still_to_come g N L b1 < still_to_come g N L b" by (rule build_step [OF Suc.prems(1,2) False])
    have "\<exists>b'. build_all k g b1 = Some b' \<and> build_inv g c N L entry start B b' \<and> toBuild b' = []"
      by (rule Suc.IH [OF b1(2) Suc.prems(2)]) (use b1(3) Suc.prems(3) in simp)
    then show ?thesis using False b1(1) by (simp add: build_all.simps)
  qed
qed

definition first_state :: "nat \<Rightarrow> codegen \<Rightarrow> emitter \<Rightarrow> builder" where
  "first_state entry c e = \<lparr>out = e\<lparr>JumpInstructions := [], addressTable := Map.empty, orderTable := (\<lambda>_. 0)\<rparr>,
     toBuild = [(Some entry, None)], ordered = [], tables = c\<rparr>"

lemma first_state_inv:
  assumes "entry \<in> N" "assemblyEnd e + still_to_come g N L (first_state entry c e) \<le> B" "B \<le> length (code_buffer e)"
  shows "build_inv g c N L entry (assemblyEnd e) B (first_state entry c e)"
proof -
  have "same_tables c c" unfolding same_tables_def by (rule exI [of _ "exportWorkerId c"]) simp
  then show ?thesis using assms
    by (simp add: build_inv_def first_state_def table_ok_def jumps_ok_def work_ok_def entry_ok_def room_ok_def)
qed

lemma built_emitter_ok:
  assumes "build_inv g c N L entry start B b" "toBuild b = []" "B + 6 < 2 ^ 31"
  shows "emitter_ok (out b)"
proof -
  have table: "dom (addressTable (out b)) = set (ordered b)" "\<And>n a. addressTable (out b) n = Some a \<Longrightarrow> a \<le> assemblyEnd (out b)"
    using assms(1) by (auto simp: build_inv_def table_ok_def)
  have "codePos j \<le> assemblyEnd (out b) \<and> jmp_node j \<noteq> None \<and>
      (case destOp j of None \<Rightarrow> False | Some n \<Rightarrow> (case addressTable (out b) n of None \<Rightarrow> False | Some a \<Rightarrow> a \<le> assemblyEnd (out b)))"
    if j: "j \<in> set (JumpInstructions (out b))" for j
  proof -
    have "codePos j \<le> assemblyEnd (out b) \<and> jmp_node j \<noteq> None \<and> (\<exists>k. destOp j = Some k \<and> k \<in> set (ordered b))"
      using assms(1,2) j by (auto simp: build_inv_def jumps_ok_def)
    then obtain k where k: "codePos j \<le> assemblyEnd (out b)" "jmp_node j \<noteq> None" "destOp j = Some k" "k \<in> dom (addressTable (out b))"
      using table(1) by blast
    then obtain a where "addressTable (out b) k = Some a" by blast
    then show ?thesis using k table(2) by simp
  qed
  moreover have "assemblyEnd (out b) + 6 * length (JumpInstructions (out b)) \<le> B" "B \<le> length (code_buffer (out b))"
    using assms(1) by (auto simp: build_inv_def room_ok_def)
  ultimately show ?thesis using assms(3) unfolding emitter_ok_def by (intro conjI ballI) auto
qed

section \<open>The code with its jumps\<close>

definition shift :: "int \<Rightarrow> emitter \<Rightarrow> nat \<Rightarrow> nat" where
  "shift null e m = jumps_size (take m (final_jumps e)) (take m (final_sizes null e))"

lemma jumps_size_append:
  "length xs = length us \<Longrightarrow> jumps_size (xs @ ys) (us @ vs) = jumps_size xs us + jumps_size ys vs"
  by (simp add: jumps_size_def)

lemma size_before_append:
  "length xs = length us \<Longrightarrow> size_before (xs @ ys) (us @ vs) k = size_before xs us k + size_before ys vs k"
  by (simp add: size_before_def)

lemma size_before_all: "\<forall>j \<in> set js. key j \<le> k \<Longrightarrow> size_before js vs k = jumps_size js vs"
  unfolding size_before_def jumps_size_def by (induction js vs rule: list_induct2') auto

lemma size_before_at:
  assumes "length js = length vs" "\<forall>j \<in> set (take m js). key j \<le> k" "\<forall>j \<in> set (drop m js). k < key j"
  shows "size_before js vs k = jumps_size (take m js) (take m vs)"
proof -
  have "size_before (take m js @ drop m js) (take m vs @ drop m vs) k =
      size_before (take m js) (take m vs) k + size_before (drop m js) (drop m vs) k"
    by (rule size_before_append) (use assms(1) in simp)
  moreover have "\<forall>j \<in> set (drop m js). \<not> key j \<le> k" using assms(3) by auto
  ultimately show ?thesis using size_before_all [OF assms(2)] by (simp add: size_before_none)
qed

lemma shift_le: "m \<le> length (JumpInstructions e) \<Longrightarrow> shift null e m \<le> jumps_size (final_jumps e) (final_sizes null e)"
  using jumps_size_append [of "take m (final_jumps e)" "take m (final_sizes null e)" "drop m (final_jumps e)" "drop m (final_sizes null e)"]
    final_sizes(1) [of null e] by (simp add: shift_def)

text \<open>The jumps of a worker are in order when they are generated.\<close>

lemma in_order: "sorted (map key (JumpInstructions e)) \<Longrightarrow> final_jumps e = JumpInstructions e"
  by (simp add: final_jumps_def sort_key_id_if_sorted)

lemma length_inserted:
  assumes "emitter_ok e" "InsertJumpInstructions null span e = Some e'"
  shows "length (code_buffer e') = length (code_buffer e)" "assemblyEnd e' \<le> length (code_buffer e)"
    "assemblyEnd e' = assemblyEnd e + jumps_size (final_jumps e) (final_sizes null e)"
proof -
  have e': "assemblyEnd e' = assemblyEnd e + jumps_size (final_jumps e) (final_sizes null e)"
    "code_buffer e' = expand (take (assemblyEnd e) (code_buffer e)) 0 (jump_list null e) @ drop (assemblyEnd e') (code_buffer e)"
    by (rule insertion [OF assms(1), of null span]; use assms(2) in simp)+
  show "assemblyEnd e' = assemblyEnd e + jumps_size (final_jumps e) (final_sizes null e)" by (rule e'(1))
  show le: "assemblyEnd e' \<le> length (code_buffer e)"
    using e'(1) jumps_size_le [of "final_jumps e" "final_sizes null e"] assms(1) by (simp add: emitter_ok_def)
  have "length (expand (take (assemblyEnd e) (code_buffer e)) 0 (jump_list null e)) = assemblyEnd e'"
    using length_expand_prefix [of "length (JumpInstructions e)" e "take (assemblyEnd e) (code_buffer e)" 0 null]
      final_sizes(1) [of null e] assms(1) e'(1) by (simp add: jump_list_def emitter_ok_def)
  then show "length (code_buffer e') = length (code_buffer e)" unfolding e'(2) using le by simp
qed

definition jump_at :: "byte list \<Rightarrow> nat \<Rightarrow> asm_operation_jmp \<Rightarrow> nat \<Rightarrow> nat \<Rightarrow> bool" where
  "jump_at mem x op target y \<longleftrightarrow> y \<le> length mem \<and>
     (\<exists>d. decode (drop x mem) = Some (jump_insn op d, drop y mem) \<and> int y + sint d = int target)"

text \<open>Three facts about a position \<open>x\<close> that comes after the first \<open>m\<close> jumps.\<close>

lemma position_moved:
  assumes "sorted (map key (JumpInstructions e))" "\<forall>j \<in> set (take m (JumpInstructions e)). key j \<le> k"
    "\<forall>j \<in> set (drop m (JumpInstructions e)). k < key j"
  shows "moved null e k = fst k + shift null e m"
  using size_before_at [of "final_jumps e" "final_sizes null e" m k] assms final_sizes(1) [of null e]
  by (simp add: moved_def shift_def in_order)

lemma byte_moved:
  assumes e: "emitter_ok e" "InsertJumpInstructions null span e = Some e'" "sorted (map key (JumpInstructions e))"
    and m: "m \<le> length (JumpInstructions e)" and x: "x < assemblyEnd e" "\<forall>j \<in> set (take m (JumpInstructions e)). codePos j \<le> x"
    "\<forall>j \<in> set (drop m (JumpInstructions e)). x < codePos j"
  shows "code_buffer e' ! (x + shift null e m) = code_buffer e ! x"
proof -
  let ?code = "take (assemblyEnd e) (code_buffer e)"
  have rest: "drop (x + shift null e m) (code_buffer e') =
      expand (drop x ?code) x (drop m (jump_list null e)) @ drop (assemblyEnd e') (code_buffer e)"
    unfolding shift_def by (rule code_from [OF e(1,2) m]) (use x in \<open>auto simp: in_order [OF e(3)] less_imp_le\<close>)
  have "set (map fst (drop m (jump_list null e))) = codePos ` set (drop m (JumpInstructions e))"
    unfolding drop_map [symmetric] jump_list_sizes(1) in_order [OF e(3)] by (simp add: drop_map)
  then have after: "x + 1 \<le> y" if "y \<in> set (map fst (drop m (jump_list null e)))" for y
    using that x(3) by auto
  have "\<forall>(y, _) \<in> set (drop m (jump_list null e)). x + 1 \<le> y" using after by fastforce
  moreover have room: "1 \<le> length (drop x ?code)" using x(1) e(1) by (simp add: emitter_ok_def)
  ultimately have "take 1 (expand (drop x ?code) x (drop m (jump_list null e))) = take 1 (drop x ?code)"
    by (intro take_expand)
  then have "take 1 (drop (x + shift null e m) (code_buffer e')) = take 1 (drop x (code_buffer e))"
    unfolding rest using room x(1) by (simp add: length_expand min_def drop_take)
  moreover have "x < length (code_buffer e)" using x(1) e(1) by (simp add: emitter_ok_def)
  moreover have "x + shift null e m < length (code_buffer e')"
    using length_inserted [OF e(1,2)] shift_le [OF m, of null] x(1) by simp
  ultimately show ?thesis by (simp flip: Cons_nth_drop_Suc)
qed

lemma jump_moved:
  assumes e: "emitter_ok e" "InsertJumpInstructions null span e = Some e'" "sorted (map key (JumpInstructions e))"
    and m: "m < length (JumpInstructions e)" and j: "JumpInstructions e ! m = j" "destOp j = Some k" "addressTable e k = Some a"
  shows "jump_at (code_buffer e') (codePos j + shift null e m) (jmpType j) (moved null e (a, orderTable e k))
    (codePos j + shift null e (Suc m))"
proof -
  let ?x = "codePos j"
  let ?code = "take (assemblyEnd e) (code_buffer e)"
  let ?js = "JumpInstructions e"
  have sorted: "sorted (map codePos ?js)" by (rule sorted_codePos [OF e(3)])
  have before: "codePos (?js ! i) \<le> ?x" if "i \<le> m" for i using sorted_nth_mono [OF sorted that] m j(1) that by simp
  have later: "?x \<le> codePos (?js ! i)" if "m \<le> i" "i < length ?js" for i using sorted_nth_mono [OF sorted that(1)] that(2) m j(1) by simp
  have take: "\<forall>i \<in> set (take n ?js). codePos i \<le> ?x" if "n \<le> Suc m" for n using before that m by (auto simp: in_set_conv_nth)
  have drop: "\<forall>i \<in> set (drop n ?js). ?x \<le> codePos i" if "m \<le> n" for n using later that by (auto simp: in_set_conv_nth)
  have inside: "?x \<le> assemblyEnd e" using e(1) m j(1) nth_mem [OF m] by (auto simp: emitter_ok_def)
  have rest: "drop (?x + shift null e n) (code_buffer e') =
      expand (drop ?x ?code) ?x (drop n (jump_list null e)) @ drop (assemblyEnd e') (code_buffer e)" if "m \<le> n" "n \<le> Suc m" for n
    unfolding shift_def
    by (rule code_from [OF e(1,2)]) (use that m take drop inside in \<open>auto simp: in_order [OF e(3)]\<close>)
  let ?bs = "snd (jump_list null e ! m)"
  have len: "length (jump_list null e) = length ?js" by (simp add: jump_list_def)
  have "map fst (jump_list null e) ! m = map codePos (final_jumps e) ! m" by (simp only: jump_list_sizes(1))
  then have "jump_list null e ! m = (?x, ?bs)" using m len j(1) in_order [OF e(3)] by (simp add: prod_eq_iff)
  then have "drop m (jump_list null e) = (?x, ?bs) # drop (Suc m) (jump_list null e)" using m len by (metis Cons_nth_drop_Suc)
  then have here: "drop (?x + shift null e m) (code_buffer e') = ?bs @ drop (?x + shift null e (Suc m)) (code_buffer e')"
    using rest [of m] rest [of "Suc m"] by simp
  have fj: "final_jumps e ! m = j" using j(1) by (simp add: in_order [OF e(3)])
  obtain d where d: "decode (?bs @ drop (?x + shift null e (Suc m)) (code_buffer e')) =
      Some (jump_insn (jmpType (final_jumps e ! m)) d, drop (?x + shift null e (Suc m)) (code_buffer e'))"
    "int (codePos (final_jumps e ! m) + jumps_size (take (Suc m) (final_jumps e)) (take (Suc m) (final_sizes null e))) + sint d =
      int (moved null e (a, orderTable e k))"
    by (rule jump_lands [OF e(1) m, where n = k and a = a and null = null and rest = "drop (?x + shift null e (Suc m)) (code_buffer e')"])
      (use j fj in simp_all)
  have "?x + shift null e (Suc m) \<le> length (code_buffer e')"
    using length_inserted [OF e(1,2)] shift_le [of "Suc m" e null] m inside by simp
  then show ?thesis using d unfolding jump_at_def here fj by (auto simp: shift_def)
qed

section \<open>The control flow of the code\<close>

text \<open>At \<open>x\<close> the worker goes on to \<open>s\<close>: its code is there, or a jump to it, or a return when there is none.\<close>

definition goes_to :: "emitter \<Rightarrow> nat \<Rightarrow> nat option \<Rightarrow> bool" where
  "goes_to e x s \<longleftrightarrow>
     (case s of
        None \<Rightarrow> x < assemblyEnd e \<and> code_buffer e ! x = 0xC3
      | Some k \<Rightarrow> addressTable e k = Some x \<or> (\<exists>t y. addressTable e k = Some t \<and> jump_at (code_buffer e) x ASM_JMP t y))"

text \<open>The code of an operation, after it the jump of a condition, and then the first successor.\<close>

definition op_placed :: "graph \<Rightarrow> codegen \<Rightarrow> emitter \<Rightarrow> nat \<Rightarrow> bool" where
  "op_placed g c e n \<longleftrightarrow> (\<exists>a bs. addressTable e n = Some a \<and> code_of g c n bs \<and> take (length bs) (drop a (code_buffer e)) = bs \<and>
     (if is_condition g n then
        (\<exists>t y. addressTable e (the (succs g n ! 1)) = Some t \<and> jump_at (code_buffer e) (a + length bs) (condition_type g n) t y \<and>
           goes_to e y (succs g n ! 0))
      else goes_to e (a + length bs) (succs g n ! 0)))"

lemma jump_destination:
  assumes "emitter_ok e" "m < length (JumpInstructions e)"
  obtains k t where "destOp (JumpInstructions e ! m) = Some k" "addressTable e k = Some t"
proof -
  have "JumpInstructions e ! m \<in> set (JumpInstructions e)" by (rule nth_mem [OF assms(2)])
  then have "case destOp (JumpInstructions e ! m) of None \<Rightarrow> False
      | Some n \<Rightarrow> (case addressTable e n of None \<Rightarrow> False | Some a \<Rightarrow> a \<le> assemblyEnd e)"
    using assms(1) unfolding emitter_ok_def by blast
  then show thesis using that by (simp split: option.splits)
qed

lemma goes_on:
  assumes e: "emitter_ok e" "InsertJumpInstructions null span e = Some e'" "sorted (map key (JumpInstructions e))"
    and c: "continues e cnt i x m s" "m \<le> length (JumpInstructions e)" "x \<le> assemblyEnd e"
    and before: "\<forall>j \<in> set (take m (JumpInstructions e)). codePos j \<le> x \<and> key j \<le> (x, i + 1)"
  shows "goes_to e' (x + shift null e m) s"
proof -
  have addr: "addressTable e' k = map_option (\<lambda>a. moved null e (a, orderTable e k)) (addressTable e k)" for k
    by (rule insertion [OF e(1), of null span]) (use e(2) in simp)
  show ?thesis
  proof (cases s)
    case None
    then have n: "x < assemblyEnd e" "code_buffer e ! x = 0xC3" "\<forall>j \<in> set (drop m (JumpInstructions e)). x < codePos j"
      using c(1) by (auto simp: continues_def)
    have "code_buffer e' ! (x + shift null e m) = 0xC3"
      using byte_moved [OF e c(2) n(1) _ n(3)] before n(2) by simp
    then show ?thesis using None n(1) length_inserted(3) [OF e(1,2)] shift_le [OF c(2), of null] by (simp add: goes_to_def)
  next
    case (Some k)
    then consider (fall) "addressTable e k = Some x" "orderTable e k = i + 1" "\<forall>j \<in> set (drop m (JumpInstructions e)). (x, i + 1) < key j"
      | (jump) "m < length (JumpInstructions e)" "jmpType (JumpInstructions e ! m) = ASM_JMP"
        "codePos (JumpInstructions e ! m) = x" "destOp (JumpInstructions e ! m) = Some k"
      using c(1) by (auto simp: continues_def)
    then show ?thesis
    proof cases
      case fall
      have "moved null e (x, i + 1) = x + shift null e m" using position_moved [OF e(3) _ fall(3)] before by simp
      then show ?thesis using Some fall(1,2) addr by (simp add: goes_to_def)
    next
      case jump
      obtain a where a: "addressTable e k = Some a" using jump_destination [OF e(1) jump(1)] jump(4) by auto
      have "jump_at (code_buffer e') (x + shift null e m) ASM_JMP (moved null e (a, orderTable e k)) (x + shift null e (Suc m))"
        using jump_moved [OF e jump(1) refl jump(4) a] jump(2,3) by simp
      then show ?thesis using Some a addr by (auto simp: goes_to_def)
    qed
  qed
qed

lemma op_placed_after_insertion:
  assumes e: "emitter_ok (out b)" "InsertJumpInstructions null span (out b) = Some e'" "sorted (map key (JumpInstructions (out b)))"
    and ok: "op_ok g c b i" "toBuild b = []" and n: "n = ordered b ! i"
  shows "op_placed g c e' n"
proof -
  let ?e = "out b"
  let ?js = "JumpInstructions ?e"
  let ?k = "if is_condition g n then 1 else 0 :: nat"
  obtain a m bs where b: "built_at g c ?e i n a m bs" and after: "continues ?e (length (ordered b)) i (a + length bs) (m + ?k) (succs g n ! 0)"
    using ok by (auto simp: op_ok_def Let_def pending_def n)
  have at: "addressTable ?e n = Some a" "orderTable ?e n = i" "code_of g c n bs" "a + length bs \<le> assemblyEnd ?e"
    "take (length bs) (drop a (code_buffer ?e)) = bs" "m + ?k \<le> length ?js" "\<forall>j \<in> set (take m ?js). key j \<le> (a, i)"
    "\<forall>j \<in> set (drop m ?js). (a, i) < key j \<and> a + length bs \<le> codePos j" using b by (simp_all add: built_at_def)
  have addr: "addressTable e' k = map_option (\<lambda>a. moved null ?e (a, orderTable ?e k)) (addressTable ?e k)" for k
    by (rule insertion [OF e(1), of null span]) (use e(2) in simp)
  have moved: "moved null ?e (a, i) = a + shift null ?e m" using position_moved [OF e(3) at(7)] at(8) by simp
  have split: "set ?js = set (take m ?js) \<union> set (drop m ?js)" by (metis append_take_drop_id set_append)
  have "a + length bs \<le> codePos j" if "j \<in> set ?js" "(a, i) < key j" for j
    using that at(7,8) unfolding split by force
  then have code: "take (length bs) (drop (a + shift null ?e m) (code_buffer e')) = bs"
    using code_moved [OF e(1,2), of "(a, i)" "length bs"] at(4,5) by (simp add: moved)
  let ?x = "a + length bs"
  have early: "codePos j \<le> ?x \<and> key j \<le> (?x, i + 1)" if "j \<in> set (take m ?js)" for j
    using at(7) that by (force simp: key_def)
  show ?thesis
  proof (cases "is_condition g n")
    case False
    have "goes_to e' (?x + shift null ?e m) (succs g n ! 0)"
      by (rule goes_on [OF e _ _ at(4)]) (use after at(6) early False in auto)
    then show ?thesis using False at(1-3) addr moved code unfolding op_placed_def
      by (intro exI [of _ "a + shift null ?e m"] exI [of _ bs]) (simp add: ac_simps)
  next
    case True
    have j: "m < length ?js" "?js ! m = \<lparr>jmpType = condition_type g n, codePos = ?x, codeOrder = i, destOp = succs g n ! 1, jmp_node = Some n\<rparr>"
      using b True by (auto simp: built_at_def)
    obtain k t where k: "succs g n ! 1 = Some k" "addressTable ?e k = Some t"
      using jump_destination [OF e(1) j(1)] j(2) by auto
    have jump: "jump_at (code_buffer e') (?x + shift null ?e m) (condition_type g n) (moved null ?e (t, orderTable ?e k))
        (?x + shift null ?e (Suc m))"
      using jump_moved [OF e j(1) j(2) _ k(2)] k(1) by simp
    have "set (take (m + 1) ?js) = insert (?js ! m) (set (take m ?js))" using j(1) by (simp add: take_Suc_conv_app_nth)
    then have "goes_to e' (?x + shift null ?e (m + 1)) (succs g n ! 0)"
      by (intro goes_on [OF e _ _ at(4)]) (use after at(6) early j True in \<open>auto simp: key_def\<close>)
    then show ?thesis using True at(1-3) addr moved code jump k unfolding op_placed_def
      by (intro exI [of _ "a + shift null ?e m"] exI [of _ bs]) (auto simp: ac_simps)
  qed
qed

definition worker_bound :: "graph \<Rightarrow> nat set \<Rightarrow> nat \<Rightarrow> nat" where
  "worker_bound g N L = (\<Sum>n \<in> N. L + 6 + 7 * length (succs g n)) + 7"

text \<open>
  C5. The code of a worker follows its graph. When the buffer has room and the fuel is enough for it, the worker is built
  and its jumps are inserted; the entry is at the start of the worker, and at the address of every operation is its
  code, after which comes, for a condition, its jump to its second successor, and then the first successor: its code,
  a jump to it, or a return when the worker ends there. Both successors have addresses.
\<close>

theorem worker_control_flow:
  assumes graph: "graph_ok g c N L" and entry: "entry \<in> N" and room: "assemblyEnd e + worker_bound g N L \<le> length (code_buffer e)"
    and small: "assemblyEnd e + worker_bound g N L + 6 < 2 ^ 31" and fuel: "worker_bound g N L \<le> fuel"
  shows "\<exists>e' c' size. BuildFn fuel null g (Some entry) c e = Some (e', c', assemblyEnd e, size) \<and>
    addressTable e' entry = Some (assemblyEnd e) \<and> (\<forall>n \<in> dom (addressTable e'). n \<in> N \<and> op_placed g c e' n)"
proof -
  let ?B = "assemblyEnd e + worker_bound g N L"
  let ?b = "first_state entry c e"
  have come: "still_to_come g N L ?b = worker_bound g N L" by (simp add: still_to_come_def first_state_def worker_bound_def)
  have "build_inv g c N L entry (assemblyEnd e) ?B ?b" by (rule first_state_inv) (use entry room come in auto)
  from build_all_done [OF this graph, of fuel] fuel come obtain b where b: "build_all fuel g ?b = Some b"
    "build_inv g c N L entry (assemblyEnd e) ?B b" "toBuild b = []" by auto
  have ok: "emitter_ok (out b)" by (rule built_emitter_ok [OF b(2,3) small])
  have sorted: "sorted (map key (JumpInstructions (out b)))" using b(2) by (simp add: build_inv_def jumps_ok_def)
  obtain e' where e': "InsertJumpInstructions null (spans g) (out b) = Some e'"
    "addressTable e' = (\<lambda>n. map_option (\<lambda>a. moved null (out b) (a, orderTable (out b) n)) (addressTable (out b) n))"
    by (rule insertion [OF ok])
  have table: "dom (addressTable (out b)) = set (ordered b)" "set (ordered b) \<subseteq> N" using b(2) by (simp_all add: build_inv_def table_ok_def)
  have at: "addressTable (out b) entry = Some (assemblyEnd e)" "orderTable (out b) entry = 0"
    "\<forall>j \<in> set (JumpInstructions (out b)). (assemblyEnd e, 0) < key j"
    using b(2,3) by (auto simp: build_inv_def entry_ok_def split: if_splits)
  have "moved null (out b) (assemblyEnd e, 0) = assemblyEnd e"
    using position_moved [OF sorted, of 0 "(assemblyEnd e, 0)" null] at(3) by (simp add: shift_def jumps_size_def)
  then have "addressTable e' entry = Some (assemblyEnd e)" using e'(2) at(1,2) by simp
  moreover have "n \<in> N \<and> op_placed g c e' n" if n: "n \<in> dom (addressTable e')" for n
  proof -
    have "dom (addressTable e') = set (ordered b)" unfolding table(1) [symmetric] e'(2) by (auto simp: dom_def)
    then obtain i where i: "i < length (ordered b)" "n = ordered b ! i" using n by (auto simp: in_set_conv_nth)
    have "op_ok g c b i" using b(2) i(1) by (simp add: build_inv_def)
    then have "op_placed g c e' n" by (rule op_placed_after_insertion [OF ok e'(1) sorted _ b(3) i(2)])
    then show ?thesis using i table(2) nth_mem by blast
  qed
  moreover have "BuildFn fuel null g (Some entry) c e = Some (e', tables b, assemblyEnd e, assemblyEnd (out b) - assemblyEnd e)"
    using b(1) e'(1) by (simp add: BuildFn_def first_state_def Let_def)
  ultimately show ?thesis by blast
qed

text \<open>A loop: the condition leaves it or goes on to a move, which goes back to the condition.\<close>

definition loop_graph :: graph where
  "loop_graph = \<lparr>ops = (\<lambda>n. \<lparr>op_type = (if n = 0 then OP_JZ else if n = 1 then OP_MOV else OP_FREE_TEMP), op_data = [0, 1], op_attributes = []\<rparr>),
     succs = (\<lambda>n. if n = 0 then [Some 1, Some 2] else if n = 1 then [Some 0] else [None]), spans = (\<lambda>n. (n, n + 1)), worker_end = 9\<rparr>"

definition loop_codegen :: codegen where
  "loop_codegen = \<lparr>variables = (\<lambda>_. TypeContext 8 TYPE_SCALAR ''x64'' [] None SCALAR_I64), regTable = (\<lambda>v. if v = 0 then 0 else 1),
     memTable = (\<lambda>_. 0), worker_inputs = [], worker_outputs = [], idToWorker = (\<lambda>_. ([], [])), exportWorkerId = []\<rparr>"

definition loop_emitter :: emitter where
  "loop_emitter = \<lparr>code_buffer = replicate 200 0, assemblyEnd = 16, JumpInstructions = [], addressTable = Map.empty, orderTable = (\<lambda>_. 0),
     runtimeApiHeader = [], addrToLine = []\<rparr>"

lemma loop_graph_ok: "graph_ok loop_graph loop_codegen {0, 1, 2} 9"
  by (auto simp: graph_ok_def loop_graph_def loop_codegen_def is_condition_def operation_code_def test_code_def arith_code_def
    InsertMove_vars_def InsertMove_def Register_def varSize_def isSigned_def varType_def asm_def dat_def registers_def
    printRR_def print_binary_def optional_def Let_def)

lemma worker_control_flow_witness:
  "\<exists>e' c' size. BuildFn 101 (- 4096) loop_graph (Some 0) loop_codegen loop_emitter = Some (e', c', 16, size) \<and>
    addressTable e' 0 = Some 16 \<and> (\<forall>n \<in> dom (addressTable e'). n \<in> {0, 1, 2} \<and> op_placed loop_graph loop_codegen e' n)"
proof -
  have bound: "worker_bound loop_graph {0, 1, 2} 9 = 80" by (simp add: worker_bound_def loop_graph_def)
  show ?thesis
    using worker_control_flow [OF loop_graph_ok, of 0 loop_emitter 101 "- 4096"] unfolding bound by (simp add: loop_emitter_def)
qed

end
