(* ===== verification/Lookups.thy ===== *)
theory Lookups
  imports Codegen
begin

text \<open>
  Which variables an operation reads, writes and mentions, and the renaming of variables: \<^verbatim>\<open>src/ir/lookups.cpp\<close>.
  These tables must agree with each other and with the code generator.
\<close>

section \<open>Renaming\<close>

text \<open>The macro \<^verbatim>\<open>T\<close> for one value and for the operand with a number.\<close>

definition rename :: "(i64 \<rightharpoonup> i64) \<Rightarrow> i64 \<Rightarrow> i64" where
  "rename m x = (case m x of None \<Rightarrow> x | Some y \<Rightarrow> y)"

definition rename_at :: "(i64 \<rightharpoonup> i64) \<Rightarrow> nat \<Rightarrow> i64 list \<Rightarrow> i64 list option" where
  "rename_at m k d = (if k < length d then Some (d[k := rename m (d ! k)]) else None)"

definition rename_attribute :: "(i64 \<rightharpoonup> i64) \<Rightarrow> string \<times> (string + i64) \<Rightarrow> string \<times> (string + i64)" where
  "rename_attribute m a = (fst a, case snd a of Inl s \<Rightarrow> Inl s | Inr x \<Rightarrow> Inr (rename m x))"

text \<open>The operands that are no variables: places, numbers, types, offsets.\<close>

definition applyNamesTranslition :: "(i64 \<rightharpoonup> i64) \<Rightarrow> OperationBlock \<Rightarrow> OperationBlock option" where
  "applyNamesTranslition m op =
     (let d = op_data op; lst = length d - 1 in
      map_option (\<lambda>d. op\<lparr>op_data := d, op_attributes := map (rename_attribute m) (op_attributes op)\<rparr>)
       (if op_type op \<in> {OP_LOAD_INPUT, OP_LOAD_OUTPUT} then rename_at m 1 d
        else if op_type op \<in> {OP_PUSH_VAR, OP_PUSH_CLASS} then do { d \<leftarrow> rename_at m 0 d; rename_at m lst d }
        else if op_type op \<in> {OP_QUERY_VAR, OP_QUERY_CLASS} then do { d \<leftarrow> rename_at m 0 d; rename_at m 1 d }
        else if op_type op \<in> {OP_PUSH_ARRAY, OP_QUERY_INDEX} then
          do { d \<leftarrow> rename_at m 0 d; d \<leftarrow> rename_at m 1 d; rename_at m lst d }
        else if op_type op = OP_CALL then Some (take 1 d @ map (rename m) (drop 1 d))
        else if op_type op \<in> {OP_STORE, OP_STORE_INPUT, OP_LOAD, OP_NEW_INT, OP_NEW_STRING, OP_NEW_FLOAT} then rename_at m 0 d
        else Some (map (rename m) d)))"

section \<open>The tables\<close>

text \<open>The operand with a number, if there is one.\<close>

definition operands :: "i64 list \<Rightarrow> nat list \<Rightarrow> i64 list option" where
  "operands d ks = (if \<forall>k \<in> set ks. k < length d then Some (map ((!) d) ks) else None)"

definition getWritedVariables :: "OperationBlock \<Rightarrow> i64 list option" where
  "getWritedVariables op =
     (if op_type op \<in> {OP_LOAD_INPUT, OP_LOAD_OUTPUT} then operands (op_data op) [1]
      else if op_type op \<in> {OP_CALL, OP_FREE_TEMP, OP_SLEEP, OP_PUSH_PIPE, OP_PUSH_PROMISE, OP_PUSH_CLASS, OP_PUSH_ARRAY,
          OP_JMP, OP_JZ, OP_JNZ, OP_STORE, OP_STORE_INPUT} then Some []
      else operands (op_data op) [0])"

definition attribute_variables :: "OperationBlock \<Rightarrow> i64 list" where
  "attribute_variables op = concat (map (\<lambda>(_, v). case v of Inl _ \<Rightarrow> [] | Inr x \<Rightarrow> [x]) (op_attributes op))"

definition getUsedVariables :: "OperationBlock \<Rightarrow> i64 list option" where
  "getUsedVariables op =
     (let d = op_data op; lst = length d - 1 in
      map_option (\<lambda>vs. vs @ attribute_variables op)
       (if op_type op \<in> {OP_LOAD_INPUT, OP_LOAD_OUTPUT} then operands d [1]
        else if op_type op \<in> {OP_PUSH_VAR, OP_PUSH_CLASS} then operands d [0, lst]
        else if op_type op \<in> {OP_QUERY_VAR, OP_QUERY_CLASS} then operands d [0, 1]
        else if op_type op \<in> {OP_PUSH_ARRAY, OP_QUERY_INDEX} then operands d [0, 1, lst]
        else if op_type op = OP_CALL then Some (drop 1 d)
        else if op_type op \<in> {OP_STORE, OP_STORE_INPUT, OP_LOAD, OP_NEW_CLASS, OP_NEW_STRING, OP_NEW_INT, OP_NEW_FLOAT} then operands d [0]
        else Some d))"

definition getReadVariables :: "OperationBlock \<Rightarrow> i64 list option" where
  "getReadVariables op =
     (let d = op_data op; lst = length d - 1 in
      map_option (\<lambda>vs. vs @ attribute_variables op)
       (if op_type op \<in> {OP_JMP, OP_LOAD_INPUT, OP_LOAD_OUTPUT, OP_LOAD, OP_NEW_CLASS, OP_NEW_INT, OP_NEW_FLOAT, OP_NEW_STRING,
            OP_NEW_PIPE, OP_NEW_PROMISE} then Some []
        else if op_type op \<in> {OP_PUSH_PIPE, OP_PUSH_PROMISE, OP_PUSH_CLASS} then operands d [0, lst]
        else if op_type op = OP_PUSH_VAR then operands d [lst]
        else if op_type op \<in> {OP_QUERY_VAR, OP_QUERY_CLASS} then operands d [1]
        else if op_type op = OP_PUSH_ARRAY then operands d [0, 1, lst]
        else if op_type op = OP_QUERY_INDEX then operands d [1, lst]
        else if op_type op \<in> {OP_JZ, OP_JNZ, OP_SLEEP, OP_STORE, OP_STORE_INPUT} then operands d [0]
        else Some (drop 1 d)))"

section \<open>Operations with the operands of their formats\<close>

text \<open>The number of operands as \<^verbatim>\<open>src/headers/ir.hpp\<close> and the front end have them; a call has any number.\<close>

definition operand_number :: "OperationType \<Rightarrow> nat" where
  "operand_number t =
     (if t = OP_JMP then 0
      else if t \<in> {OP_FREE_TEMP, OP_NEW_PIPE, OP_NEW_PROMISE, OP_NEW_CLASS, OP_SLEEP, OP_JZ, OP_JNZ} then 1
      else if t \<in> {OP_LOAD_INPUT, OP_LOAD_OUTPUT, OP_CAST, OP_MOV, OP_NEW_INT, OP_NEW_FLOAT, OP_NEW_ARRAY, OP_NEW_STRING, OP_PUSH_PIPE,
          OP_PUSH_PROMISE, OP_QUERY_ARRAY, OP_QUERY_PIPE, OP_QUERY_PROMISE, OP_BNOT, OP_STORE, OP_LOAD, OP_STORE_INPUT} then 2
      else if t \<in> {OP_PUSH_VAR, OP_PUSH_CLASS, OP_QUERY_VAR, OP_QUERY_CLASS} then 4
      else if t \<in> {OP_PUSH_ARRAY, OP_QUERY_INDEX} then 5
      else 3)"

definition op_formed :: "OperationBlock \<Rightarrow> bool" where
  "op_formed op \<longleftrightarrow> (if op_type op = OP_CALL then op_data op \<noteq> [] else length (op_data op) = operand_number (op_type op))"

text \<open>The operands of an operation that has as many as its format.\<close>

lemma op_formed_cases:
  assumes "op_formed op"
  obtains (call) a ds where "op_type op = OP_CALL" "op_data op = a # ds"
  | (none) "op_data op = []" "operand_number (op_type op) = 0"
  | (one) a where "op_data op = [a]" "operand_number (op_type op) = 1"
  | (two) a b where "op_data op = [a, b]" "operand_number (op_type op) = 2"
  | (three) a b c where "op_data op = [a, b, c]" "operand_number (op_type op) = 3" "op_type op \<noteq> OP_CALL"
  | (four) a b c d where "op_data op = [a, b, c, d]" "operand_number (op_type op) = 4"
  | (five) a b c d e where "op_data op = [a, b, c, d, e]" "operand_number (op_type op) = 5"
proof (cases "op_type op = OP_CALL")
  case True
  then show thesis using assms call by (cases "op_data op") (auto simp: op_formed_def)
next
  case False
  then have len: "length (op_data op) = operand_number (op_type op)" using assms by (simp add: op_formed_def)
  have "operand_number (op_type op) \<in> {0, 1, 2, 3, 4, 5}" by (simp add: operand_number_def)
  then show thesis
    using len False none one two three four five by (auto simp: length_Suc_conv numeral_eq_Suc)
qed

lemmas lookup_defs = getUsedVariables_def getReadVariables_def getWritedVariables_def operands_def Let_def

lemma used_variables_formed:
  assumes "op_formed op"
  obtains us rs ws where "getUsedVariables op = Some us" "getReadVariables op = Some rs" "getWritedVariables op = Some ws"
    "set rs \<union> set ws \<subseteq> set us" "op_type op = OP_FREE_TEMP \<or> set us = set rs \<union> set ws"
proof -
  have "\<exists>us rs ws. getUsedVariables op = Some us \<and> getReadVariables op = Some rs \<and> getWritedVariables op = Some ws \<and>
    set rs \<union> set ws \<subseteq> set us \<and> (op_type op \<noteq> OP_FREE_TEMP \<longrightarrow> set us = set rs \<union> set ws)"
    using assms
  proof (cases rule: op_formed_cases)
    case (call a ds)
    then show ?thesis by (simp add: lookup_defs)
  next
    case none
    then show ?thesis by (cases "op_type op"; simp add: operand_number_def lookup_defs; blast?)
  next
    case (one a)
    then show ?thesis by (cases "op_type op"; simp add: operand_number_def lookup_defs; blast?)
  next
    case (two a b)
    then show ?thesis by (cases "op_type op"; simp add: operand_number_def lookup_defs; blast?)
  next
    case (three a b c)
    then show ?thesis by (cases "op_type op"; simp add: operand_number_def lookup_defs; blast?)
  next
    case (four a b c d)
    then show ?thesis by (cases "op_type op"; simp add: operand_number_def lookup_defs; blast?)
  next
    case (five a b c d e)
    then show ?thesis by (cases "op_type op"; simp add: operand_number_def lookup_defs; blast?)
  qed
  then show thesis using that by blast
qed


section \<open>Renaming and the tables\<close>

lemma attribute_variables_rename:
  "attribute_variables (op\<lparr>op_data := d, op_attributes := map (rename_attribute m) (op_attributes op)\<rparr>) = map (rename m) (attribute_variables op)"
proof -
  have "concat (map (\<lambda>(_, v). case v of Inl _ \<Rightarrow> [] | Inr x \<Rightarrow> [x]) (map (rename_attribute m) as)) =
      map (rename m) (concat (map (\<lambda>(_, v). case v of Inl _ \<Rightarrow> [] | Inr x \<Rightarrow> [x]) as))" for as :: "(string \<times> (string + i64)) list"
    by (induction as) (auto simp: rename_attribute_def split: sum.splits)
  then show ?thesis by (simp add: attribute_variables_def)
qed

definition renamed :: "(i64 \<rightharpoonup> i64) \<Rightarrow> OperationBlock \<Rightarrow> OperationBlock \<Rightarrow> bool" where
  "renamed m op op' \<longleftrightarrow> op_formed op' \<and> op_type op' = op_type op \<and>
     getUsedVariables op' = map_option (map (rename m)) (getUsedVariables op) \<and>
     getReadVariables op' = map_option (map (rename m)) (getReadVariables op) \<and>
     getWritedVariables op' = map_option (map (rename m)) (getWritedVariables op)"

lemmas rename_simps = renamed_def applyNamesTranslition_def rename_at_def lookup_defs op_formed_def operand_number_def
  attribute_variables_rename

lemma applyNamesTranslition_formed:
  assumes "op_formed op"
  obtains op' where "applyNamesTranslition m op = Some op'" "renamed m op op'"
proof -
  have "\<exists>op'. applyNamesTranslition m op = Some op' \<and> renamed m op op'"
    using assms
  proof (cases rule: op_formed_cases)
    case (call a ds)
    then show ?thesis by (simp add: rename_simps)
  next
    case none
    then show ?thesis by (cases "op_type op"; simp add: rename_simps)
  next
    case (one a)
    then show ?thesis by (cases "op_type op"; simp add: rename_simps)
  next
    case (two a b)
    then show ?thesis by (cases "op_type op"; simp add: rename_simps)
  next
    case (three a b c)
    then show ?thesis by (cases "op_type op"; simp add: rename_simps)
  next
    case (four a b c d)
    then show ?thesis by (cases "op_type op"; simp add: rename_simps)
  next
    case (five a b c d e)
    then show ?thesis by (cases "op_type op"; simp add: rename_simps)
  qed
  then show thesis using that by blast
qed

text \<open>A variable that is renamed to another one is no longer mentioned.\<close>

lemma renamed_away:
  assumes "renamed [v \<mapsto> t] op op'" "getUsedVariables op' = Some us" "t \<noteq> v"
  shows "v \<notin> set us"
proof -
  obtain us0 where "us = map (rename [v \<mapsto> t]) us0" using assms(1,2) unfolding renamed_def
    by (cases "getUsedVariables op") auto
  then show ?thesis using assms(3) by (auto simp: rename_def split: if_splits)
qed

section \<open>Renaming and the code generator\<close>

text \<open>
  The tables of two workers agree on variables that correspond; places in the frame that an operation names by number
  are the same.
\<close>

definition tables_agree :: "(i64 \<Rightarrow> i64) \<Rightarrow> i64 set \<Rightarrow> codegen \<Rightarrow> codegen \<Rightarrow> bool" where
  "tables_agree f V c c' \<longleftrightarrow>
     (\<forall>v \<in> V. variables c' (f v) = variables c v \<and> regTable c' (f v) = regTable c v \<and> memTable c' (f v) = memTable c v) \<and>
     worker_inputs c' = worker_inputs c \<and> worker_outputs c' = worker_outputs c \<and> idToWorker c' = idToWorker c \<and>
     exportWorkerId c' = exportWorkerId c"

lemma helpers_agree:
  assumes "tables_agree f V c c'" "v \<in> V"
  shows "varType c' (f v) = varType c v" "varSize c' (f v) = varSize c v" "Register c' (f v) = Register c v"
    "Register_sized c' (f v) n = Register_sized c v n" "isSigned c' (f v) = isSigned c v" "isApiScalar c' (f v) = isApiScalar c v"
    "memTable c' (f v) = memTable c v" "regTable c' (f v) = regTable c v" "base_size c' (f v) = base_size c v"
  using assms by (simp_all add: tables_agree_def varType_def varSize_def Register_def Register_sized_def isSigned_def isApiScalar_def base_size_def)

lemma tables_agree_same:
  assumes "tables_agree f V c c'"
  shows "worker_inputs c' = worker_inputs c" "worker_outputs c' = worker_outputs c" "idToWorker c' = idToWorker c"
    "exportWorkerId c' = exportWorkerId c"
  using assms by (simp_all add: tables_agree_def)

lemma composed_agree:
  assumes "tables_agree f V c c'" "a \<in> V"
  shows "b \<in> V \<Longrightarrow> InsertMove_vars c' (f a) (f b) = InsertMove_vars c a b"
    "ExternTo64Bit (Register c' (f a)) (isSigned c' (f a)) = ExternTo64Bit (Register c a) (isSigned c a)"
    "element_offset c' (f a) n o2 = element_offset c a n o2" "local_element c' (f a) n g = local_element c a n g"
  using helpers_agree [OF assms(1)] assms(2) by (simp_all add: InsertMove_vars_def element_offset_def local_element_def)

lemmas code_defs = operation_code_def arith_code_def memory_code_def new_code_def push_code_def query_code_def
  cast_code_def sleep_code_def test_code_def push_call_def query_call_def dat_def ABEL_BINOP_def CMPOP_def subtract_code_def
  divide_code_def GetInputOffset_def GetOutputOffset_def Let_def

lemma code_renamed_one:
  assumes "op_data op = [a]" "operand_number (op_type op) = 1"
    and ren: "applyNamesTranslition m op = Some op'" and used: "getUsedVariables op = Some us"
    and agree: "tables_agree (rename m) (set us) c c'"
  shows "operation_code c' op' = operation_code c op"
  using assms(1,2) ren used
  by (cases "op_type op"; clarsimp simp: operand_number_def applyNamesTranslition_def rename_at_def lookup_defs;
    simp add: code_defs helpers_agree [OF agree] composed_agree [OF agree] tables_agree_same [OF agree])

lemma code_renamed_two:
  assumes "op_data op = [a, b]" "operand_number (op_type op) = 2"
    and ren: "applyNamesTranslition m op = Some op'" and used: "getUsedVariables op = Some us"
    and agree: "tables_agree (rename m) (set us) c c'"
    and frame: "op_type op \<in> {OP_LOAD, OP_STORE} \<Longrightarrow> memTable c' b = memTable c b"
  shows "operation_code c' op' = operation_code c op"
  using assms(1,2) ren used frame
  by (cases "op_type op"; clarsimp simp: operand_number_def applyNamesTranslition_def rename_at_def lookup_defs;
    simp add: code_defs helpers_agree [OF agree] composed_agree [OF agree] tables_agree_same [OF agree])

lemma code_renamed_three:
  assumes "op_data op = [a, b, d]" "operand_number (op_type op) = 3" "op_type op \<noteq> OP_CALL"
    and ren: "applyNamesTranslition m op = Some op'" and used: "getUsedVariables op = Some us"
    and agree: "tables_agree (rename m) (set us) c c'"
  shows "operation_code c' op' = operation_code c op"
  using assms(1-3) ren used
  by (cases "op_type op"; clarsimp simp: operand_number_def applyNamesTranslition_def rename_at_def lookup_defs;
    simp add: code_defs helpers_agree [OF agree] composed_agree [OF agree] tables_agree_same [OF agree])

lemma code_renamed_four:
  assumes "op_data op = [a, b, d, e]" "operand_number (op_type op) = 4" 
    and ren: "applyNamesTranslition m op = Some op'" and used: "getUsedVariables op = Some us"
    and agree: "tables_agree (rename m) (set us) c c'"
  shows "operation_code c' op' = operation_code c op"
  using assms(1-2) ren used
  by (cases "op_type op"; clarsimp simp: operand_number_def applyNamesTranslition_def rename_at_def lookup_defs;
    simp add: code_defs helpers_agree [OF agree] composed_agree [OF agree] tables_agree_same [OF agree])

lemma code_renamed_five:
  assumes "op_data op = [a, b, d, e, f]" "operand_number (op_type op) = 5" 
    and ren: "applyNamesTranslition m op = Some op'" and used: "getUsedVariables op = Some us"
    and agree: "tables_agree (rename m) (set us) c c'"
  shows "operation_code c' op' = operation_code c op"
  using assms(1-2) ren used
  by (cases "op_type op"; clarsimp simp: operand_number_def applyNamesTranslition_def rename_at_def lookup_defs;
    simp add: code_defs helpers_agree [OF agree] composed_agree [OF agree] tables_agree_same [OF agree]
      cong: if_cong)

lemma attribute_renamed:
  "map_of (map (rename_attribute m) as) k = map_option (map_sum (\<lambda>s. s) (rename m)) (map_of as k)"
  by (induction as) (auto simp: rename_attribute_def split: sum.splits)

lemma code_renamed_call:
  assumes "op_type op = OP_CALL" "op_data op = a # ds"
    and ren: "applyNamesTranslition m op = Some op'" and used: "getUsedVariables op = Some us"
    and agree: "tables_agree (rename m) (set us) c c'"
  shows "operation_code c' op' = operation_code c op"
proof -
  have op': "op_type op' = OP_CALL" "op_data op' = a # map (rename m) ds" "op_attributes op' = map (rename_attribute m) (op_attributes op)"
    using ren assms(1,2) by (auto simp: applyNamesTranslition_def)
  have on: "Register c' (rename m x) = Register c x" if "map_of (op_attributes op) ''on'' = Some (Inr x)" for x
  proof -
    have "x \<in> set (attribute_variables op)" using map_of_SomeD [OF that] by (force simp: attribute_variables_def)
    then have "x \<in> set us" using used assms(1) by (auto simp: lookup_defs)
    then show ?thesis by (rule helpers_agree(3) [OF agree])
  qed
  have size: "GetWorkerInputTableSize c' a = GetWorkerInputTableSize c a"
    using tables_agree_same(3) [OF agree] by (simp add: GetWorkerInputTableSize_def)
  have "(case map_of (op_attributes op') ''provider'' of None \<Rightarrow> Some [] | Some (Inl p) \<Rightarrow> Some p | Some (Inr _) \<Rightarrow> None) =
      (case map_of (op_attributes op) ''provider'' of None \<Rightarrow> Some [] | Some (Inl p) \<Rightarrow> Some p | Some (Inr _) \<Rightarrow> None)"
    unfolding op'(3) attribute_renamed by (auto split: option.splits sum.splits)
  moreover have "(case map_of (op_attributes op') ''on'' of None \<Rightarrow> InsertInteger (7, 8) 0
        | Some (Inl w) \<Rightarrow> if w = ''local'' then InsertInteger (7, 8) 1 else if w = ''remote'' then InsertInteger (7, 8) 2 else []
        | Some (Inr var) \<Rightarrow> InsertMove (7, 8) (Register c' var) False) =
      (case map_of (op_attributes op) ''on'' of None \<Rightarrow> InsertInteger (7, 8) 0
        | Some (Inl w) \<Rightarrow> if w = ''local'' then InsertInteger (7, 8) 1 else if w = ''remote'' then InsertInteger (7, 8) 2 else []
        | Some (Inr var) \<Rightarrow> InsertMove (7, 8) (Register c var) False)"
    unfolding op'(3) attribute_renamed using on by (auto split: option.splits sum.splits)
  ultimately have "call_code c' op' = call_code c op"
    using assms(2) op'(2) tables_agree_same(4) [OF agree] size by (simp add: call_code_def dat_def cong: option.case_cong)
  then show ?thesis using assms(1) op'(1) by (simp add: operation_code_def)
qed

section \<open>Properties\<close>

text \<open>
  C17. For an operation with the operands of its format the three tables of variables agree: the variables it uses are those
  it reads and those it writes, except for the end of the life of a temporary, which is neither.
\<close>

theorem lookups_agree:
  assumes "op_formed op"
  shows "\<exists>us rs ws. getUsedVariables op = Some us \<and> getReadVariables op = Some rs \<and> getWritedVariables op = Some ws \<and>
    set rs \<union> set ws \<subseteq> set us \<and> (op_type op = OP_FREE_TEMP \<or> set us = set rs \<union> set ws)"
proof -
  obtain us rs ws where "getUsedVariables op = Some us" "getReadVariables op = Some rs" "getWritedVariables op = Some ws"
    "set rs \<union> set ws \<subseteq> set us" "op_type op = OP_FREE_TEMP \<or> set us = set rs \<union> set ws"
    by (rule used_variables_formed [OF assms])
  then show ?thesis by blast
qed

definition sample_push :: OperationBlock where
  "sample_push = \<lparr>op_type = OP_PUSH_ARRAY, op_data = [4, 5, 16, 77, 6], op_attributes = [(''at'', Inr 9)]\<rparr>"

lemma lookups_agree_witness:
  "\<exists>us rs ws. getUsedVariables sample_push = Some us \<and> getReadVariables sample_push = Some rs \<and> getWritedVariables sample_push = Some ws \<and>
    set rs \<union> set ws \<subseteq> set us \<and> (op_type sample_push = OP_FREE_TEMP \<or> set us = set rs \<union> set ws)"
  by (rule lookups_agree) (simp add: op_formed_def sample_push_def operand_number_def)

text \<open>
  C8. The renaming of variables and the code generator fit together: an operation whose variables are renamed has the same
  code as before, when the tables give each new name what they gave the old one. In particular the code depends on no
  variable but those in the table of used variables, and on the place in the frame for a load or a store.
\<close>

theorem renamed_code:
  assumes "op_formed op" "getUsedVariables op = Some us" "tables_agree (rename m) (set us) c c'"
    and frame: "op_type op \<in> {OP_LOAD, OP_STORE} \<longrightarrow> memTable c' (op_data op ! 1) = memTable c (op_data op ! 1)"
  shows "\<exists>op'. applyNamesTranslition m op = Some op' \<and> operation_code c' op' = operation_code c op"
proof -
  obtain op' where op': "applyNamesTranslition m op = Some op'" by (rule applyNamesTranslition_formed [OF assms(1), of m])
  have "operation_code c' op' = operation_code c op"
    using assms(1)
  proof (cases rule: op_formed_cases)
    case (call a ds)
    show ?thesis by (rule code_renamed_call [OF call op' assms(2,3)])
  next
    case none
    then show ?thesis using op' by (cases "op_type op"; auto simp: operand_number_def applyNamesTranslition_def operation_code_def)
  next
    case (one a)
    show ?thesis by (rule code_renamed_one [OF one op' assms(2,3)])
  next
    case (two a b)
    show ?thesis by (rule code_renamed_two [OF two op' assms(2,3)]) (use frame two in simp)
  next
    case (three a b d)
    show ?thesis by (rule code_renamed_three [OF three op' assms(2,3)])
  next
    case (four a b d e)
    show ?thesis by (rule code_renamed_four [OF four op' assms(2,3)])
  next
    case (five a b d e f)
    show ?thesis by (rule code_renamed_five [OF five op' assms(2,3)])
  qed
  then show ?thesis using op' by blast
qed

definition sample_tables :: "(i64 \<Rightarrow> nat) \<Rightarrow> codegen" where
  "sample_tables regs = \<lparr>variables = (\<lambda>v. TypeContext 8 (if v = 4 then TYPE_ARRAY else TYPE_SCALAR) ''x64'' []
      (Some (TypeContext 8 TYPE_SCALAR ''x64'' [] None SCALAR_I64)) SCALAR_I64), regTable = regs,
     memTable = (\<lambda>_. 0), worker_inputs = [], worker_outputs = [], idToWorker = (\<lambda>_. ([], [])), exportWorkerId = []\<rparr>"

lemma renamed_code_witness:
  "\<exists>op'. applyNamesTranslition [6 \<mapsto> 1000000] sample_push = Some op' \<and>
    operation_code (sample_tables (\<lambda>v. if v = 1000000 then 2 else 1)) op' =
    operation_code (sample_tables (\<lambda>v. if v = 6 then 2 else 1)) sample_push"
  by (rule renamed_code [where us = "[4, 5, 6, 9]"])
    (simp_all add: op_formed_def sample_push_def operand_number_def lookup_defs attribute_variables_def tables_agree_def sample_tables_def
      rename_def)

end
