(* ===== verification/Search.thy ===== *)
theory Search
  imports Prelude
begin

text \<open>
  The depth-first searches of the compiler, with a set of what has been visited: \<^verbatim>\<open>GetUsed\<close> in
  \<^verbatim>\<open>src/optimization/strip_unused_instructions.cpp\<close>, \<^verbatim>\<open>updateCanFrom\<close> and
  \<^verbatim>\<open>updateCanTo\<close> in \<^verbatim>\<open>src/analysis/analizators.hpp\<close>. The recursion is written with its stack, which
  has the calls that are still to be made; a missing operation is left at once.
\<close>

section \<open>The search\<close>

fun dfs :: "nat \<Rightarrow> (nat \<Rightarrow> nat option list) \<Rightarrow> nat option list \<Rightarrow> nat set \<Rightarrow> nat set option" where
  "dfs k nx [] used = Some used"
| "dfs 0 nx (x # xs) used = None"
| "dfs (Suc k) nx (None # xs) used = dfs k nx xs used"
| "dfs (Suc k) nx (Some n # xs) used = (if n \<in> used then dfs k nx xs used else dfs k nx (nx n @ xs) (insert n used))"

section \<open>What it finds\<close>

definition edges :: "(nat \<Rightarrow> nat option list) \<Rightarrow> (nat \<times> nat) set" where
  "edges nx = {(a, b). Some b \<in> set (nx a)}"

definition reach :: "(nat \<Rightarrow> nat option list) \<Rightarrow> nat set \<Rightarrow> nat set" where
  "reach nx A = (edges nx)\<^sup>* `` A"

definition these :: "nat option list \<Rightarrow> nat set" where "these xs = {n. Some n \<in> set xs}"

lemma these_simps [simp]:
  "these [] = {}" "these (None # xs) = these xs" "these (Some n # xs) = insert n (these xs)" "these (xs @ ys) = these xs \<union> these ys"
  by (auto simp: these_def)

lemma reach_refl: "A \<subseteq> reach nx A"
  by (auto simp: reach_def)

lemma reach_step: "a \<in> reach nx A \<Longrightarrow> Some b \<in> set (nx a) \<Longrightarrow> b \<in> reach nx A"
  by (auto simp: reach_def edges_def intro: rtrancl_into_rtrancl)

lemma reach_least:
  assumes "A \<subseteq> B" "\<And>a b. a \<in> B \<Longrightarrow> Some b \<in> set (nx a) \<Longrightarrow> b \<in> B"
  shows "reach nx A \<subseteq> B"
proof
  fix x assume "x \<in> reach nx A"
  then obtain a where "a \<in> A" "(a, x) \<in> (edges nx)\<^sup>*" by (auto simp: reach_def)
  from this(2,1) show "x \<in> B" by induction (use assms in \<open>auto simp: edges_def\<close>)
qed

lemma reach_Un: "reach nx (A \<union> B) = reach nx A \<union> reach nx B"
  by (auto simp: reach_def)

lemma reach_mono: "A \<subseteq> B \<Longrightarrow> reach nx A \<subseteq> reach nx B"
  by (auto simp: reach_def)

text \<open>What is not yet visited bounds the calls that are still to be made.\<close>

definition dfs_bound :: "(nat \<Rightarrow> nat option list) \<Rightarrow> nat set \<Rightarrow> nat option list \<Rightarrow> nat set \<Rightarrow> nat" where
  "dfs_bound nx N xs used = length xs + (\<Sum>n \<in> N - used. length (nx n))"

lemma dfs_bound_step:
  assumes "finite N" "n \<in> N" "n \<notin> used"
  shows "dfs_bound nx N (nx n @ xs) (insert n used) + 1 = dfs_bound nx N (Some n # xs) used"
proof -
  have "(\<Sum>k \<in> N - used. length (nx k)) = length (nx n) + (\<Sum>k \<in> N - used - {n}. length (nx k))"
    by (rule sum.remove) (use assms in auto)
  moreover have "N - used - {n} = N - insert n used" by blast
  ultimately show ?thesis by (simp add: dfs_bound_def)
qed

lemma dfs_total:
  "finite N \<Longrightarrow> (\<And>n. n \<in> N \<Longrightarrow> these (nx n) \<subseteq> N) \<Longrightarrow> these xs \<subseteq> N \<Longrightarrow> dfs_bound nx N xs used \<le> k \<Longrightarrow>
    \<exists>r. dfs k nx xs used = Some r"
proof (induction k nx xs used rule: dfs.induct)
  case (2 nx x xs used)
  then show ?case by (simp add: dfs_bound_def)
next
  case (3 k nx xs used)
  then show ?case by (simp add: dfs_bound_def)
next
  case (4 k nx n xs used)
  show ?case
  proof (cases "n \<in> used")
    case True
    then show ?thesis using 4 by (simp add: dfs_bound_def)
  next
    case False
    have "n \<in> N" using "4.prems"(3) by simp
    then show ?thesis
      using False "4.IH"(2) [OF False] "4.prems" dfs_bound_step [OF "4.prems"(1) _ False, of nx xs] by simp
  qed
qed auto

lemma dfs_bounds:
  "dfs k nx xs used = Some r \<Longrightarrow> used \<subseteq> r \<and> these xs \<subseteq> r \<and> r \<subseteq> used \<union> reach nx (these xs)"
proof (induction k nx xs used rule: dfs.induct)
  case (4 k nx n xs used)
  show ?case
  proof (cases "n \<in> used")
    case True
    then show ?thesis using "4.IH"(1) "4.prems" reach_mono [of "these xs" "insert n (these xs)" nx] by auto
  next
    case False
    have IH: "insert n used \<subseteq> r" "these (nx n) \<union> these xs \<subseteq> r" "r \<subseteq> insert n used \<union> reach nx (these (nx n) \<union> these xs)"
      using "4.IH"(2) [OF False] "4.prems" False by auto
    have "these (nx n) \<subseteq> reach nx (insert n (these xs))"
      using reach_step [of n nx "insert n (these xs)"] reach_refl [of "insert n (these xs)" nx] by (auto simp: these_def)
    moreover have "these xs \<subseteq> reach nx (insert n (these xs))" using reach_refl [of "insert n (these xs)" nx] by auto
    ultimately have "reach nx (these (nx n) \<union> these xs) \<subseteq> reach nx (insert n (these xs))"
      by (intro reach_least) (auto intro: reach_step)
    moreover have "n \<in> reach nx (insert n (these xs))" using reach_refl [of "insert n (these xs)" nx] by auto
    ultimately show ?thesis using IH by auto
  qed
qed auto

lemma dfs_closed:
  "dfs k nx xs used = Some r \<Longrightarrow> (\<And>n. n \<in> used \<Longrightarrow> these (nx n) \<subseteq> used \<union> these xs) \<Longrightarrow> n \<in> r \<Longrightarrow> these (nx n) \<subseteq> r"
proof (induction k nx xs used rule: dfs.induct)
  case (4 k nx m xs used)
  show ?case
  proof (cases "m \<in> used")
    case True
    then show ?thesis using "4.IH"(1) [OF True] "4.prems" by fastforce
  next
    case False
    show ?thesis
      by (rule "4.IH"(2) [OF False]) (use "4.prems" False in fastforce)+
  qed
qed auto

text \<open>
  The search returns with enough fuel and adds what can be reached, when what is visited before is closed under the
  edges.
\<close>

lemma dfs_reach:
  assumes "finite N" "\<And>n. n \<in> N \<Longrightarrow> these (nx n) \<subseteq> N" "these xs \<subseteq> N" "dfs_bound nx N xs used \<le> k"
    and closed: "\<And>n. n \<in> used \<Longrightarrow> these (nx n) \<subseteq> used"
  shows "dfs k nx xs used = Some (used \<union> reach nx (these xs))"
proof -
  obtain r where r: "dfs k nx xs used = Some r" using dfs_total [OF assms(1-4)] by blast
  have "these (nx n) \<subseteq> r" if "n \<in> r" for n by (rule dfs_closed [OF r _ that]) (use closed in blast)
  then have "reach nx (these xs) \<subseteq> r" using dfs_bounds [OF r] by (intro reach_least) (auto simp: these_def)
  then show ?thesis using dfs_bounds [OF r] r by auto
qed

lemma dfs_more: "dfs k nx xs used = Some r \<Longrightarrow> k \<le> k' \<Longrightarrow> dfs k' nx xs used = Some r"
proof (induction k nx xs used arbitrary: k' rule: dfs.induct)
  case (3 k nx xs used)
  then show ?case by (cases k') auto
next
  case (4 k nx n xs used)
  then show ?case by (cases k') (auto split: if_splits)
qed auto

lemma reach_closed: "n \<in> reach nx A \<Longrightarrow> these (nx n) \<subseteq> reach nx A"
  by (auto simp: these_def intro: reach_step)

end
