(* ===== verification/IRGraph.thy ===== *)
theory IRGraph
  imports Lookups Search
begin

text \<open>
  The graph of operations of a worker and its editing: \<^verbatim>\<open>OpsToBlocks\<close> of \<^verbatim>\<open>src/ir/ir.cpp\<close>,
  \<^verbatim>\<open>src/optimization/common.cpp\<close>. An operation is the number of its object in the heap; \<^verbatim>\<open>NULL\<close>
  is \<open>None\<close>. Reading the first successor of an operation that has none gives no result.
\<close>

section \<open>The data\<close>

record block =
  op_of :: OperationBlock
  nexts :: "nat option list"
  prevs :: "nat set"
  code_span :: "int \<times> int"

record worker =
  wk_entry :: "nat option"
  wk_code :: "nat list"
  heap :: "nat \<Rightarrow> block"
  fresh :: nat
  wk_variables :: "i64 \<rightharpoonup> TypeContext"
  nextTempId :: i64

definition op_block :: "OperationType \<Rightarrow> i64 list \<Rightarrow> int \<times> int \<Rightarrow> block" where
  "op_block t d s = \<lparr>op_of = \<lparr>op_type = t, op_data = d, op_attributes = []\<rparr>, nexts = [], prevs = {}, code_span = s\<rparr>"

definition IS_JUMP :: "OperationType \<Rightarrow> bool" where "IS_JUMP t \<longleftrightarrow> t \<in> {OP_JMP, OP_JZ, OP_JNZ}"

definition set_block :: "nat \<Rightarrow> (block \<Rightarrow> block) \<Rightarrow> (nat \<Rightarrow> block) \<Rightarrow> nat \<Rightarrow> block" where
  "set_block n f h = h(n := f (h n))"

definition add_prev :: "nat \<Rightarrow> block \<Rightarrow> block" where "add_prev p b = b\<lparr>prevs := insert p (prevs b)\<rparr>"
definition del_prev :: "nat \<Rightarrow> block \<Rightarrow> block" where "del_prev p b = b\<lparr>prevs := prevs b - {p}\<rparr>"

section \<open>Operations of a list\<close>

text \<open>
  A jump has its distance as its first operand. A distance that leads in front of the first operation is an access out
  of bounds.
\<close>

definition jump_target :: "nat \<Rightarrow> nat \<Rightarrow> i64 \<Rightarrow> nat option option" where
  "jump_target len i pos =
     (let t = int i + sint pos in if int len \<le> t then Some None else if t < 0 then None else Some (Some (nat t)))"

definition fall_through :: "nat \<Rightarrow> nat \<Rightarrow> nat option" where
  "fall_through len i = (if i + 1 = len then None else Some (i + 1))"

definition list_block :: "nat \<Rightarrow> nat \<Rightarrow> OperationBlock \<times> int \<times> int \<Rightarrow> block option" where
  "list_block len i x =
     (let op = fst x in
      if IS_JUMP (op_type op) then
        (case op_data op of
           [] \<Rightarrow> None
         | pos # ds \<Rightarrow>
             map_option (\<lambda>t. \<lparr>op_of = op\<lparr>op_data := ds\<rparr>,
               nexts = (if op_type op = OP_JMP then [t] else [fall_through len i, t]), prevs = {}, code_span = snd x\<rparr>)
               (jump_target len i pos))
      else Some \<lparr>op_of = op, nexts = [fall_through len i], prevs = {}, code_span = snd x\<rparr>)"

fun list_blocks :: "nat \<Rightarrow> nat \<Rightarrow> (OperationBlock \<times> int \<times> int) list \<Rightarrow> block list option" where
  "list_blocks len i [] = Some []"
| "list_blocks len i (x # xs) = do { b \<leftarrow> list_block len i x; bs \<leftarrow> list_blocks len (i + 1) xs; Some (b # bs) }"

definition OpsToBlocks :: "(OperationBlock \<times> int \<times> int) list \<Rightarrow> block list option" where
  "OpsToBlocks xs =
     map_option (\<lambda>bs. map (\<lambda>(j, b). b\<lparr>prevs := set (filter (\<lambda>i. Some j \<in> set (nexts (bs ! i))) [0..<length bs])\<rparr>) (enumerate 0 bs))
       (list_blocks (length xs) 0 xs)"

section \<open>Editing\<close>

definition newTemp :: "worker \<Rightarrow> TypeContext option \<Rightarrow> worker \<times> i64" where
  "newTemp w t = (w\<lparr>wk_variables := (wk_variables w)(nextTempId w := t), nextTempId := nextTempId w + 1\<rparr>, nextTempId w)"

text \<open>The new operation comes between \<open>c\<close> and its \<open>k\<close>-th successor.\<close>

definition connect_at :: "nat \<Rightarrow> nat \<Rightarrow> block \<Rightarrow> worker \<Rightarrow> worker option" where
  "connect_at k c b w =
     (if length (nexts (heap w c)) \<le> k then None
      else
        let n = fresh w; s = nexts (heap w c) ! k;
            h = (heap w)(n := b\<lparr>nexts := s # nexts b, prevs := insert c (prevs b)\<rparr>);
            h = (case s of None \<Rightarrow> h | Some t \<Rightarrow> set_block t (add_prev n \<circ> del_prev c) h);
            h = set_block c (\<lambda>x. x\<lparr>nexts := (nexts x)[k := Some n]\<rparr>) h
        in Some (w\<lparr>wk_code := wk_code w @ [n], heap := h, fresh := n + 1\<rparr>))"

definition new_entry :: "block \<Rightarrow> worker \<Rightarrow> worker" where
  "new_entry b w = w\<lparr>wk_code := wk_code w @ [fresh w], wk_entry := Some (fresh w), heap := (heap w)(fresh w := b\<lparr>nexts := None # nexts b\<rparr>),
     fresh := fresh w + 1\<rparr>"

definition connectOp :: "nat option \<Rightarrow> block \<Rightarrow> worker \<Rightarrow> worker option" where
  "connectOp c b w = (case c of None \<Rightarrow> Some (new_entry b w) | Some c \<Rightarrow> connect_at 0 c b w)"

definition connectOpSecond :: "nat option \<Rightarrow> block \<Rightarrow> worker \<Rightarrow> worker option" where
  "connectOpSecond c b w = (case c of None \<Rightarrow> Some (new_entry b w) | Some c \<Rightarrow> connect_at 1 c b w)"

text \<open>All edges to \<open>c\<close> that start at one of its predecessors go to \<open>s\<close> instead.\<close>

definition redirect :: "nat \<Rightarrow> nat option \<Rightarrow> (nat \<Rightarrow> block) \<Rightarrow> nat \<Rightarrow> block" where
  "redirect c s h = (\<lambda>p. if p \<in> prevs (h c) then (h p)\<lparr>nexts := map (\<lambda>x. if x = Some c then s else x) (nexts (h p))\<rparr> else h p)"

definition connectBeforeOp :: "nat option \<Rightarrow> block \<Rightarrow> worker \<Rightarrow> worker" where
  "connectBeforeOp c b w =
     (case c of
        None \<Rightarrow> new_entry b w
      | Some c \<Rightarrow>
          let n = fresh w; h = heap w;
              ps = {p \<in> prevs (h c). Some c \<in> set (nexts (h p))};
              h = redirect c (Some n) h;
              h = h(n := b\<lparr>nexts := Some c # nexts b, prevs := prevs b \<union> ps\<rparr>);
              h = set_block c (\<lambda>x. x\<lparr>prevs := {n}\<rparr>) h
          in w\<lparr>wk_code := wk_code w @ [n], wk_entry := (if wk_entry w = Some c then Some n else wk_entry w), heap := h, fresh := n + 1\<rparr>)"

text \<open>The predecessors of \<open>c\<close> go on to its first successor.\<close>

definition removeOp :: "nat option \<Rightarrow> worker \<Rightarrow> worker option" where
  "removeOp code w =
     (case code of
        None \<Rightarrow> Some w
      | Some c \<Rightarrow>
          if nexts (heap w c) = [] \<and> (prevs (heap w c) \<noteq> {} \<or> wk_entry w = Some c) then None
          else
            let h = heap w; s = hd (nexts (h c)); ps = prevs (h c);
                h = redirect c s h;
                h = (case s of None \<Rightarrow> h | Some t \<Rightarrow> set_block t (\<lambda>x. x\<lparr>prevs := prevs x \<union> ps\<rparr>) h);
                h = (\<lambda>t. if Some t \<in> set (nexts (h c)) then del_prev c (h t) else h t)
            in Some (w\<lparr>wk_code := filter (\<lambda>n. n \<noteq> c) (wk_code w),
                 wk_entry := (if wk_entry w = Some c then hd (nexts (h c)) else wk_entry w), heap := h\<rparr>))"

definition freeTemp :: "nat \<Rightarrow> i64 \<Rightarrow> worker \<Rightarrow> worker option" where
  "freeTemp c v w = connectOp (Some c) (op_block OP_FREE_TEMP [v] (code_span (heap w c))) w"

end
