(* ===== verification/Strip.thy ===== *)
theory Strip
  imports IRGraph
begin

text \<open>
  Removal of operations: of those that cannot be reached
  (\<^verbatim>\<open>src/optimization/strip_unused_instructions.cpp\<close>), and what \<^verbatim>\<open>removeOp\<close> keeps.
\<close>

section \<open>Links\<close>

text \<open>Every operation of the worker has a successor, and knows which operations lead to it.\<close>

definition links_ok :: "worker \<Rightarrow> bool" where
  "links_ok w \<longleftrightarrow> (\<forall>n \<in> set (wk_code w). nexts (heap w n) \<noteq> [] \<and> prevs (heap w n) \<subseteq> set (wk_code w) \<and>
     (\<forall>p \<in> set (wk_code w). p \<in> prevs (heap w n) \<longleftrightarrow> Some n \<in> set (nexts (heap w p))))"

lemma removeOp_some: "nexts (heap w c) \<noteq> [] \<Longrightarrow> \<exists>w'. removeOp (Some c) w = Some w'"
  by (simp add: removeOp_def Let_def)

lemma removeOp_facts:
  assumes "removeOp (Some c) w = Some w'" "nexts (heap w c) \<noteq> []"
  shows "wk_code w' = filter (\<lambda>n. n \<noteq> c) (wk_code w)"
    "op_of (heap w' n) = op_of (heap w n)" "code_span (heap w' n) = code_span (heap w n)"
    "nexts (heap w' n) = (if n \<in> prevs (heap w c)
       then map (\<lambda>x. if x = Some c then hd (nexts (heap w c)) else x) (nexts (heap w n)) else nexts (heap w n))"
    "n \<noteq> c \<Longrightarrow> prevs (heap w' n) - {c} =
       (prevs (heap w n) \<union> (if hd (nexts (heap w c)) = Some n then prevs (heap w c) else {})) - {c}"
    "n \<noteq> c \<Longrightarrow> Some n \<in> set (nexts (heap w c)) \<Longrightarrow> c \<notin> prevs (heap w' n)"
    "n \<noteq> c \<Longrightarrow> Some n \<notin> set (nexts (heap w c)) \<Longrightarrow> prevs (heap w' n) = prevs (heap w n)"
    "wk_entry w \<noteq> Some c \<Longrightarrow> wk_entry w' = wk_entry w"
    "wk_entry w = Some c \<Longrightarrow> hd (nexts (heap w c)) \<noteq> Some c \<Longrightarrow> wk_entry w' = hd (nexts (heap w c))"
    "wk_variables w' = wk_variables w" "nextTempId w' = nextTempId w" "fresh w' = fresh w"
proof -
  let ?h = "heap w"
  let ?s = "hd (nexts (?h c))"
  define h1 where "h1 = redirect c ?s ?h"
  define h2 where "h2 = (case ?s of None \<Rightarrow> h1 | Some t \<Rightarrow> set_block t (\<lambda>x. x\<lparr>prevs := prevs x \<union> prevs (?h c)\<rparr>) h1)"
  define h3 where "h3 = (\<lambda>t. if Some t \<in> set (nexts (h2 c)) then del_prev c (h2 t) else h2 t)"
  have w': "w' = w\<lparr>wk_code := filter (\<lambda>n. n \<noteq> c) (wk_code w),
     wk_entry := (if wk_entry w = Some c then hd (nexts (h3 c)) else wk_entry w), heap := h3\<rparr>"
    using assms unfolding removeOp_def Let_def option.case(2) h3_def h2_def h1_def by simp
  have h1: "op_of (h1 n) = op_of (?h n)" "code_span (h1 n) = code_span (?h n)" "prevs (h1 n) = prevs (?h n)"
    "nexts (h1 n) = (if n \<in> prevs (?h c) then map (\<lambda>x. if x = Some c then ?s else x) (nexts (?h n)) else nexts (?h n))" for n
    by (auto simp: h1_def redirect_def)
  have h2: "op_of (h2 n) = op_of (?h n)" "code_span (h2 n) = code_span (?h n)" "nexts (h2 n) = nexts (h1 n)"
    "prevs (h2 n) = prevs (?h n) \<union> (if ?s = Some n then prevs (?h c) else {})" for n
    by (auto simp: h2_def set_block_def h1 split: option.splits)
  have h3: "op_of (h3 n) = op_of (?h n)" "code_span (h3 n) = code_span (?h n)" "nexts (h3 n) = nexts (h1 n)"
    "prevs (h3 n) = (if Some n \<in> set (nexts (h1 c)) then prevs (h2 n) - {c} else prevs (h2 n))" for n
    by (auto simp: h3_def del_prev_def h2)
  have first: "?s \<in> set (nexts (?h c))" using assms by simp
  have out: "Some n \<in> set (nexts (h1 c)) \<longleftrightarrow> Some n \<in> set (nexts (?h c))" if "n \<noteq> c"
    using that first by (auto simp: h1(4))
  show "wk_code w' = filter (\<lambda>n. n \<noteq> c) (wk_code w)" "op_of (heap w' n) = op_of (heap w n)" "code_span (heap w' n) = code_span (heap w n)"
    "nexts (heap w' n) = (if n \<in> prevs (heap w c)
       then map (\<lambda>x. if x = Some c then hd (nexts (heap w c)) else x) (nexts (heap w n)) else nexts (heap w n))"
    "wk_entry w \<noteq> Some c \<Longrightarrow> wk_entry w' = wk_entry w" "wk_variables w' = wk_variables w" "nextTempId w' = nextTempId w" "fresh w' = fresh w"
    by (simp_all add: w' h3 h1(4))
  show "prevs (heap w' n) - {c} = (prevs (heap w n) \<union> (if hd (nexts (heap w c)) = Some n then prevs (heap w c) else {})) - {c}"
    if "n \<noteq> c" by (auto simp: w' h3 h2)
  show "c \<notin> prevs (heap w' n)" if "n \<noteq> c" "Some n \<in> set (nexts (heap w c))" using that out by (simp add: w' h3)
  show "prevs (heap w' n) = prevs (heap w n)" if "n \<noteq> c" "Some n \<notin> set (nexts (heap w c))"
    using that out first by (auto simp: w' h3 h2)
  show "wk_entry w' = hd (nexts (heap w c))" if "wk_entry w = Some c" "hd (nexts (heap w c)) \<noteq> Some c"
    using that assms(2) by (cases "nexts (?h c)") (auto simp: w' h3 h1(4))
qed

lemma removeOp_links_ok:
  assumes "links_ok w" "c \<in> set (wk_code w)" "removeOp (Some c) w = Some w'"
  shows "links_ok w'"
proof -
  let ?h = "heap w"
  have ne: "nexts (?h c) \<noteq> []" using assms(1,2) by (simp add: links_ok_def)
  note facts = removeOp_facts [OF assms(3) ne]
  note code = facts(1) and nx = facts(4) and pv = facts(5) and gone = facts(6) and kept = facts(7)
  have L: "nexts (?h n) \<noteq> []" "prevs (?h n) \<subseteq> set (wk_code w)"
    "\<And>p. p \<in> set (wk_code w) \<Longrightarrow> p \<in> prevs (?h n) \<longleftrightarrow> Some n \<in> set (nexts (?h p))" if "n \<in> set (wk_code w)" for n
    using assms(1) that by (auto simp: links_ok_def)
  have "nexts (heap w' n) \<noteq> [] \<and> prevs (heap w' n) \<subseteq> set (wk_code w') \<and>
      (\<forall>p \<in> set (wk_code w'). p \<in> prevs (heap w' n) \<longleftrightarrow> Some n \<in> set (nexts (heap w' p)))"
    if n: "n \<in> set (wk_code w)" "n \<noteq> c" for n
  proof (intro conjI ballI)
    show "nexts (heap w' n) \<noteq> []" using L(1) [OF n(1)] by (simp add: nx)
    have c: "c \<notin> prevs (heap w' n)"
      using gone [OF n(2)] kept [OF n(2)] L(3) [OF n(1) assms(2)] by blast
    then show "prevs (heap w' n) \<subseteq> set (wk_code w')"
      using pv [OF n(2)] L(2) [OF n(1)] L(2) [OF assms(2)] by (fastforce simp: code split: if_splits)
    fix p assume "p \<in> set (wk_code w')"
    then have p: "p \<in> set (wk_code w)" "p \<noteq> c" by (auto simp: code)
    have "p \<in> prevs (heap w' n) \<longleftrightarrow> p \<in> prevs (?h n) \<or> hd (nexts (?h c)) = Some n \<and> p \<in> prevs (?h c)"
      using pv [OF n(2)] p(2) by (auto split: if_splits)
    also have "\<dots> \<longleftrightarrow> Some n \<in> set (nexts (heap w' p))"
      using L(3) [OF n(1) p(1)] L(3) [OF assms(2) p(1)] n(2) by (auto simp: nx)
    finally show "p \<in> prevs (heap w' n) \<longleftrightarrow> Some n \<in> set (nexts (heap w' p))" .
  qed
  then show ?thesis by (simp add: links_ok_def code)
qed

section \<open>Operations that cannot be reached\<close>

lemma removeOp_code: "removeOp (Some c) w = Some w' \<Longrightarrow> wk_code w' = filter (\<lambda>n. n \<noteq> c) (wk_code w)"
  by (auto simp: removeOp_def Let_def split: if_splits)

text \<open>The loop over the operations; the index stays when an operation is removed.\<close>

function strip_from :: "nat set \<Rightarrow> nat \<Rightarrow> worker \<Rightarrow> worker option" where
  "strip_from used i w =
     (if i < length (wk_code w) then
        (if wk_code w ! i \<notin> used then Option.bind (removeOp (Some (wk_code w ! i)) w) (strip_from used i)
         else strip_from used (i + 1) w)
      else Some w)"
  by pat_completeness auto

termination
proof (relation "measure (\<lambda>(_, i, w). length (wk_code w) - i)")
  fix used i w w1
  assume "i < length (wk_code w)" "removeOp (Some (wk_code w ! i)) w = Some w1"
  then have "wk_code w1 = filter (\<lambda>n. n \<noteq> wk_code w ! i) (wk_code w)" "wk_code w ! i \<in> set (wk_code w)" by (simp_all add: removeOp_code)
  then have "length (wk_code w1) < length (wk_code w)" by (metis (mono_tags, lifting) length_filter_less)
  then show "((used, i, w1), (used, i, w)) \<in> measure (\<lambda>(_, i, w). length (wk_code w) - i)"
    using \<open>i < length (wk_code w)\<close> by simp
qed auto

declare strip_from.simps [simp del]

definition successors :: "worker \<Rightarrow> nat \<Rightarrow> nat option list" where "successors w n = nexts (heap w n)"

definition GetUsed :: "nat \<Rightarrow> worker \<Rightarrow> nat set option" where "GetUsed fuel w = dfs fuel (successors w) [wk_entry w] {}"

definition StripUnusedInstructions :: "nat \<Rightarrow> worker \<Rightarrow> worker option" where
  "StripUnusedInstructions fuel w = do { used \<leftarrow> GetUsed fuel w; strip_from used 0 w }"

text \<open>What is reached from the entry.\<close>

definition reached :: "worker \<Rightarrow> nat set" where "reached w = reach (successors w) (these [wk_entry w])"

text \<open>The operations of \<open>R\<close> are the same in both workers, but for the operations that lead to them.\<close>

definition same_on :: "nat set \<Rightarrow> worker \<Rightarrow> worker \<Rightarrow> bool" where
  "same_on R w w' \<longleftrightarrow> wk_entry w' = wk_entry w \<and> wk_variables w' = wk_variables w \<and> nextTempId w' = nextTempId w \<and> fresh w' = fresh w \<and>
     (\<forall>n. op_of (heap w' n) = op_of (heap w n) \<and> code_span (heap w' n) = code_span (heap w n)) \<and>
     (\<forall>n \<in> R. nexts (heap w' n) = nexts (heap w n))"

lemma same_on_trans: "same_on R w w' \<Longrightarrow> same_on R w' w'' \<Longrightarrow> same_on R w w''"
  by (simp add: same_on_def)

lemma removeOp_unreached:
  assumes ok: "links_ok w" and c: "c \<in> set (wk_code w)" "c \<notin> R" and R: "R \<subseteq> set (wk_code w)" "\<And>n k. n \<in> R \<Longrightarrow> Some k \<in> set (nexts (heap w n)) \<Longrightarrow> k \<in> R"
    and entry: "wk_entry w \<noteq> Some c"
  obtains w' where "removeOp (Some c) w = Some w'" "links_ok w'" "same_on R w w'" "wk_code w' = filter (\<lambda>n. n \<noteq> c) (wk_code w)"
proof -
  have ne: "nexts (heap w c) \<noteq> []" using ok c(1) by (simp add: links_ok_def)
  then obtain w' where w': "removeOp (Some c) w = Some w'" using removeOp_some by blast
  note facts = removeOp_facts [OF w' ne]
  have "n \<notin> prevs (heap w c)" if "n \<in> R" for n
    using ok c R that unfolding links_ok_def by blast
  then have "same_on R w w'" using facts entry by (simp add: same_on_def)
  then show thesis using that w' removeOp_links_ok [OF ok c(1) w'] facts(1) by blast
qed

lemma strip_from_correct:
  "links_ok w \<Longrightarrow> R \<subseteq> set (wk_code w) \<Longrightarrow> (\<And>n k. n \<in> R \<Longrightarrow> Some k \<in> set (nexts (heap w n)) \<Longrightarrow> k \<in> R) \<Longrightarrow>
    these [wk_entry w] \<subseteq> R \<Longrightarrow> set (take i (wk_code w)) \<subseteq> R \<Longrightarrow>
    \<exists>w'. strip_from R i w = Some w' \<and> links_ok w' \<and> same_on R w w' \<and> wk_code w' = filter (\<lambda>n. n \<in> R) (wk_code w)"
proof (induction R i w rule: strip_from.induct)
  case (1 R i w)
  show ?case
  proof (cases "i < length (wk_code w)")
    case False
    then have "set (wk_code w) \<subseteq> R" using "1.prems"(5) by simp
    then have "filter (\<lambda>n. n \<in> R) (wk_code w) = wk_code w" by (auto simp: filter_id_conv)
    moreover have "same_on R w w" by (simp add: same_on_def)
    ultimately show ?thesis using False "1.prems"(1) by (simp add: strip_from.simps)
  next
    case i: True
    let ?c = "wk_code w ! i"
    show ?thesis
    proof (cases "?c \<in> R")
      case True
      have "set (take (i + 1) (wk_code w)) \<subseteq> R" using "1.prems"(5) i True by (simp add: take_Suc_conv_app_nth)
      then show ?thesis using "1.IH"(2) i True "1.prems"(1-4) by (simp add: strip_from.simps [of R i w])
    next
      case False
      obtain w1 where w1: "removeOp (Some ?c) w = Some w1" "links_ok w1" "same_on R w w1" "wk_code w1 = filter (\<lambda>n. n \<noteq> ?c) (wk_code w)"
        by (rule removeOp_unreached [OF "1.prems"(1) _ False "1.prems"(2,3)]) (use i "1.prems"(4) False in auto)
      have R: "R \<subseteq> set (wk_code w1)" using "1.prems"(2) False by (auto simp: w1(4))
      have closed: "k \<in> R" if "n \<in> R" "Some k \<in> set (nexts (heap w1 n))" for n k
        using that "1.prems"(3) w1(3) by (simp add: same_on_def)
      have "?c \<notin> set (take i (wk_code w))" using "1.prems"(5) False by blast
      then have "take i (wk_code w1) = take i (wk_code w)"
      proof -
        have "filter (\<lambda>n. n \<noteq> ?c) (take i (wk_code w)) = take i (wk_code w)"
          using \<open>?c \<notin> set (take i (wk_code w))\<close> by (auto simp: filter_id_conv)
        moreover have "wk_code w = take i (wk_code w) @ drop i (wk_code w)" by simp
        ultimately have "wk_code w1 = take i (wk_code w) @ filter (\<lambda>n. n \<noteq> ?c) (drop i (wk_code w))"
          unfolding w1(4) by (metis filter_append)
        then show ?thesis using i by simp
      qed
      then have taken: "set (take i (wk_code w1)) \<subseteq> R" using "1.prems"(5) by simp
      have start: "these [wk_entry w1] \<subseteq> R" using "1.prems"(4) w1(3) by (simp add: same_on_def)
      have "\<exists>w'. strip_from R i w1 = Some w' \<and> links_ok w' \<and> same_on R w1 w' \<and> wk_code w' = filter (\<lambda>n. n \<in> R) (wk_code w1)"
        by (rule "1.IH"(1) [OF i False w1(1,2) R _ start taken]) (rule closed)
      then obtain w' where w': "strip_from R i w1 = Some w'" "links_ok w'"
        "same_on R w1 w'" "wk_code w' = filter (\<lambda>n. n \<in> R) (wk_code w1)" by blast
      have "filter (\<lambda>n. n \<in> R) (wk_code w1) = filter (\<lambda>n. n \<in> R) (wk_code w)"
        unfolding w1(4) filter_filter using False by (metis (mono_tags, lifting))
      then show ?thesis using w' w1 i False same_on_trans [OF w1(3) w'(3)] by (auto simp: strip_from.simps [of R i w])
    qed
  qed
qed

text \<open>The successors of the operations of a worker are operations of the worker, and so is its entry.\<close>

definition worker_ok :: "worker \<Rightarrow> bool" where
  "worker_ok w \<longleftrightarrow> links_ok w \<and> these [wk_entry w] \<subseteq> set (wk_code w) \<and>
     (\<forall>n \<in> set (wk_code w). these (nexts (heap w n)) \<subseteq> set (wk_code w))"

lemma reached_facts:
  assumes "worker_ok w"
  shows "reached w \<subseteq> set (wk_code w)" "these [wk_entry w] \<subseteq> reached w"
    "n \<in> reached w \<Longrightarrow> Some k \<in> set (nexts (heap w n)) \<Longrightarrow> k \<in> reached w"
proof -
  show "reached w \<subseteq> set (wk_code w)"
    unfolding reached_def by (rule reach_least) (use assms in \<open>auto simp: worker_ok_def successors_def these_def\<close>)
  show "these [wk_entry w] \<subseteq> reached w" unfolding reached_def by (rule reach_refl)
  show "k \<in> reached w" if "n \<in> reached w" "Some k \<in> set (nexts (heap w n))"
    using that reach_step [of n "successors w"] by (simp add: reached_def successors_def)
qed

definition search_bound :: "worker \<Rightarrow> nat" where
  "search_bound w = 1 + (\<Sum>n \<in> set (wk_code w). length (nexts (heap w n)))"

lemma GetUsed_reached:
  assumes "worker_ok w" "search_bound w \<le> fuel"
  shows "GetUsed fuel w = Some (reached w)"
proof -
  have "dfs fuel (successors w) [wk_entry w] {} = Some ({} \<union> reach (successors w) (these [wk_entry w]))"
    by (rule dfs_reach [where N = "set (wk_code w)"])
      (use assms in \<open>auto simp: worker_ok_def successors_def dfs_bound_def search_bound_def these_def\<close>)
  then show ?thesis by (simp add: GetUsed_def reached_def)
qed

text \<open>
  C16. The removal of unused instructions ends, with fuel for every edge, and keeps exactly the operations that can be
  reached from the entry, in their order, with their operands and successors; the links of what is left are right.
\<close>

theorem strip_keeps_reached:
  assumes "worker_ok w" "search_bound w \<le> fuel"
  shows "\<exists>w'. StripUnusedInstructions fuel w = Some w' \<and> wk_code w' = filter (\<lambda>n. n \<in> reached w) (wk_code w) \<and>
    links_ok w' \<and> same_on (reached w) w w'"
proof -
  have "\<exists>w'. strip_from (reached w) 0 w = Some w' \<and> links_ok w' \<and> same_on (reached w) w w' \<and>
      wk_code w' = filter (\<lambda>n. n \<in> reached w) (wk_code w)"
    by (rule strip_from_correct) (use assms reached_facts [OF assms(1)] in \<open>auto simp: worker_ok_def\<close>)
  then show ?thesis using GetUsed_reached [OF assms] by (auto simp: StripUnusedInstructions_def)
qed

text \<open>Three operations; the second is in front of the third, but nothing leads to it.\<close>

definition sample_worker :: worker where
  "sample_worker = \<lparr>wk_entry = Some 0, wk_code = [0, 1, 2],
     heap = (\<lambda>n. (op_block OP_NEW_INT [0, 5] (0, 0))\<lparr>nexts := [if n = 2 then None else Some 2], prevs := if n = 2 then {0, 1} else {}\<rparr>),
     fresh = 3, wk_variables = Map.empty, nextTempId = 1000000\<rparr>"

lemma strip_keeps_reached_witness:
  "\<exists>w'. StripUnusedInstructions 4 sample_worker = Some w' \<and> wk_code w' = filter (\<lambda>n. n \<in> reached sample_worker) [0, 1, 2] \<and>
    links_ok w' \<and> same_on (reached sample_worker) sample_worker w'"
  using strip_keeps_reached [of sample_worker 4]
  by (simp add: worker_ok_def links_ok_def sample_worker_def search_bound_def op_block_def these_def)

section \<open>Jumps of the front end\<close>

text \<open>\<^verbatim>\<open>buildWorkerContent\<close> removes the jumps in the order of their addresses.\<close>

fun remove_all :: "nat list \<Rightarrow> worker \<Rightarrow> worker option" where
  "remove_all [] w = Some w"
| "remove_all (c # cs) w = Option.bind (removeOp (Some c) w) (remove_all cs)"

definition is_jmp :: "worker \<Rightarrow> nat \<Rightarrow> bool" where "is_jmp w n \<longleftrightarrow> op_type (op_of (heap w n)) = OP_JMP"

text \<open>Where one arrives from \<open>s\<close> when the jumps are followed.\<close>

inductive leads :: "worker \<Rightarrow> nat option \<Rightarrow> nat option \<Rightarrow> bool" for w where
  leads_end: "leads w None None"
| leads_op: "\<not> is_jmp w n \<Longrightarrow> leads w (Some n) (Some n)"
| leads_jmp: "is_jmp w n \<Longrightarrow> leads w (hd (nexts (heap w n))) t \<Longrightarrow> leads w (Some n) t"

inductive_simps leads_none [simp]: "leads w None t"
inductive_simps leads_some: "leads w (Some n) t"

lemma leads_unique: "leads w s t \<Longrightarrow> leads w s u \<Longrightarrow> u = t"
  by (induction arbitrary: u rule: leads.induct) (auto simp: leads_some)

lemma not_itself:
  assumes "leads w (Some n) t" "is_jmp w n"
  shows "hd (nexts (heap w n)) \<noteq> Some n"
proof
  assume loop: "hd (nexts (heap w n)) = Some n"
  have "s \<noteq> Some n" if "leads w s u" for s u
    using that by induction (use assms(2) loop in auto)
  then show False using assms(1) by blast
qed

lemma these_member: "s \<in> set xs \<Longrightarrow> these xs \<subseteq> A \<Longrightarrow> these [s] \<subseteq> A"
  by (cases s) (auto simp: these_def)

definition skip :: "worker \<Rightarrow> nat \<Rightarrow> nat option \<Rightarrow> nat option" where
  "skip w c s = (if s = Some c then hd (nexts (heap w c)) else s)"

lemma removeOp_leads:
  assumes ok: "worker_ok w" and c: "c \<in> set (wk_code w)" "is_jmp w c" "leads w (Some c) u" "removeOp (Some c) w = Some w'"
  shows "worker_ok w'" "is_jmp w' n = is_jmp w n"
    "n \<in> set (wk_code w) \<Longrightarrow> nexts (heap w' n) = map (skip w c) (nexts (heap w n))"
    "leads w s t \<Longrightarrow> these [s] \<subseteq> set (wk_code w) \<Longrightarrow> leads w' (skip w c s) t"
    "wk_code w' = filter (\<lambda>n. n \<noteq> c) (wk_code w)" "wk_entry w' = skip w c (wk_entry w)"
proof -
  have links: "links_ok w" using ok by (simp add: worker_ok_def)
  have ne: "nexts (heap w c) \<noteq> []" using links c(1) by (simp add: links_ok_def)
  note facts = removeOp_facts [OF c(4) ne]
  have self: "hd (nexts (heap w c)) \<noteq> Some c" by (rule not_itself [OF c(3,2)])
  show jmp: "is_jmp w' n = is_jmp w n" for n by (simp add: is_jmp_def facts(2))
  show nx: "nexts (heap w' n) = map (skip w c) (nexts (heap w n))" if n: "n \<in> set (wk_code w)" for n
  proof (cases "n \<in> prevs (heap w c)")
    case True
    then show ?thesis by (simp add: facts(4) skip_def [abs_def])
  next
    case False
    then have "Some c \<notin> set (nexts (heap w n))" using links c(1) n by (simp add: links_ok_def)
    then show ?thesis using False by (auto simp: facts(4) skip_def intro!: nth_equalityI) (metis nth_mem)
  qed
  show code: "wk_code w' = filter (\<lambda>n. n \<noteq> c) (wk_code w)" by (rule facts(1))
  show entry: "wk_entry w' = skip w c (wk_entry w)" using facts(8,9) self by (auto simp: skip_def)
  have target: "these [hd (nexts (heap w c))] \<subseteq> set (wk_code w)"
    using ok c(1) by (intro these_member [OF hd_in_set [OF ne]]) (simp add: worker_ok_def)
  have inside: "these [skip w c s] \<subseteq> set (wk_code w')" if "these [s] \<subseteq> set (wk_code w)" for s
    using that target self by (auto simp: code skip_def these_def)
  have "these (map (skip w c) xs) \<subseteq> set (wk_code w')" if "these xs \<subseteq> set (wk_code w)" for xs
    using that
  proof (induction xs)
    case (Cons x xs)
    then have "these [x] \<subseteq> set (wk_code w)" "these xs \<subseteq> set (wk_code w)" by (auto simp: these_def)
    then show ?case using Cons.IH inside [of x] by (auto simp: these_def)
  qed simp
  then have closed: "these (nexts (heap w' n)) \<subseteq> set (wk_code w')" if "n \<in> set (wk_code w')" for n
    using that nx ok by (simp add: code worker_ok_def)
  have "these [wk_entry w'] \<subseteq> set (wk_code w')"
    unfolding entry by (rule inside) (use ok in \<open>simp add: worker_ok_def\<close>)
  then show "worker_ok w'" using closed removeOp_links_ok [OF links c(1,4)] by (simp add: worker_ok_def)
  show "leads w' (skip w c s) t" if "leads w s t" "these [s] \<subseteq> set (wk_code w)" for s t
    using that
  proof (induction rule: leads.induct)
    case (leads_op n)
    then have "n \<noteq> c" using c(2) by auto
    then show ?case using leads_op by (simp add: skip_def leads_some jmp)
  next
    case (leads_jmp n t)
    have n: "n \<in> set (wk_code w)" using leads_jmp.prems by simp
    then have ne: "nexts (heap w n) \<noteq> []" using links by (simp add: links_ok_def)
    then have "these [hd (nexts (heap w n))] \<subseteq> set (wk_code w)"
      using ok n by (intro these_member [OF hd_in_set [OF ne]]) (simp add: worker_ok_def)
    then have IH: "leads w' (skip w c (hd (nexts (heap w n)))) t" by (rule leads_jmp.IH)
    show ?case
    proof (cases "n = c")
      case True
      then show ?thesis using IH self by (simp add: skip_def)
    next
      case False
      then show ?thesis using IH leads_jmp.hyps(1) nx [OF n] ne by (simp add: skip_def [of w c "Some n"] leads_some jmp hd_map)
    qed
  qed (simp add: skip_def)
qed

lemma remove_all_leads:
  "worker_ok w \<Longrightarrow> distinct cs \<Longrightarrow> \<forall>c \<in> set cs. c \<in> set (wk_code w) \<and> is_jmp w c \<and> (\<exists>t. leads w (Some c) t) \<Longrightarrow>
    \<exists>w'. remove_all cs w = Some w' \<and> worker_ok w' \<and> wk_code w' = filter (\<lambda>n. n \<notin> set cs) (wk_code w) \<and>
      (\<forall>n. is_jmp w' n = is_jmp w n) \<and> (\<forall>t. leads w (wk_entry w) t \<longrightarrow> leads w' (wk_entry w') t) \<and>
      (\<forall>n \<in> set (wk_code w'). list_all2 (\<lambda>s s'. \<forall>t. leads w s t \<longrightarrow> leads w' s' t) (nexts (heap w n)) (nexts (heap w' n)))"
proof (induction cs arbitrary: w)
  case Nil
  then show ?case by (simp add: list_all2_same)
next
  case (Cons c cs)
  have c: "c \<in> set (wk_code w)" "is_jmp w c" using Cons.prems(3) by auto
  obtain u where u: "leads w (Some c) u" using Cons.prems(3) by auto
  have "nexts (heap w c) \<noteq> []" using Cons.prems(1) c(1) by (simp add: worker_ok_def links_ok_def)
  then obtain w1 where w1: "removeOp (Some c) w = Some w1" using removeOp_some by blast
  note r = removeOp_leads [OF Cons.prems(1) c u w1]
  have inside: "these [x] \<subseteq> set (wk_code w)" if "x \<in> set (nexts (heap w n))" "n \<in> set (wk_code w)" for x n
    using Cons.prems(1) that by (intro these_member [OF that(1)]) (simp add: worker_ok_def)
  have "d \<in> set (wk_code w1) \<and> is_jmp w1 d \<and> (\<exists>t. leads w1 (Some d) t)" if d: "d \<in> set cs" for d
  proof -
    have dw: "d \<in> set (wk_code w)" "is_jmp w d" "d \<noteq> c" using Cons.prems(2,3) d by auto
    obtain t where t: "leads w (Some d) t" using Cons.prems(3) d by auto
    have "leads w1 (skip w c (Some d)) t" by (rule r(4) [OF t]) (use dw(1) in simp)
    then show ?thesis using dw r(2,5) by (auto simp: skip_def)
  qed
  then have "\<forall>d \<in> set cs. d \<in> set (wk_code w1) \<and> is_jmp w1 d \<and> (\<exists>t. leads w1 (Some d) t)" by blast
  from Cons.IH [OF r(1) _ this] Cons.prems(2) obtain w' where w': "remove_all cs w1 = Some w'" "worker_ok w'"
    "wk_code w' = filter (\<lambda>n. n \<notin> set cs) (wk_code w1)" "\<forall>n. is_jmp w' n = is_jmp w1 n"
    "\<forall>t. leads w1 (wk_entry w1) t \<longrightarrow> leads w' (wk_entry w') t"
    "\<forall>n \<in> set (wk_code w'). list_all2 (\<lambda>s s'. \<forall>t. leads w1 s t \<longrightarrow> leads w' s' t) (nexts (heap w1 n)) (nexts (heap w' n))" by auto
  have "list_all2 (\<lambda>s s'. \<forall>t. leads w s t \<longrightarrow> leads w' s' t) (nexts (heap w n)) (nexts (heap w' n))" if n: "n \<in> set (wk_code w')" for n
  proof -
    have nw: "n \<in> set (wk_code w)" using n by (simp add: w'(3) r(5))
    have "list_all2 (\<lambda>s s'. \<forall>t. leads w1 s t \<longrightarrow> leads w' s' t) (map (skip w c) (nexts (heap w n))) (nexts (heap w' n))"
      using bspec [OF w'(6) n] unfolding r(3) [OF nw] .
    then show ?thesis
      unfolding list_all2_map1 by (rule list.rel_mono_strong) (use r(4) inside [OF _ nw] in blast)
  qed
  moreover have "leads w' (wk_entry w') t" if "leads w (wk_entry w) t" for t
  proof -
    have "these [wk_entry w] \<subseteq> set (wk_code w)" using Cons.prems(1) by (simp add: worker_ok_def)
    then show ?thesis using r(4) [OF that] r(6) w'(5) by simp
  qed
  moreover have "filter (\<lambda>n. n \<notin> set cs) (wk_code w1) = filter (\<lambda>n. n \<notin> set (c # cs)) (wk_code w)"
    unfolding r(5) filter_filter by (rule filter_cong) auto
  ultimately show ?case using w1 w' r(2) by auto
qed

text \<open>
  C7. The removal of the jumps, in any order, keeps the control flow: it ends, the other operations stay, and each of their
  successors is where one arrived before by following the jumps.
\<close>

theorem jumps_removed:
  assumes "worker_ok w" "distinct cs" "set cs = {c \<in> set (wk_code w). is_jmp w c}"
    "\<forall>c \<in> set cs. \<exists>t. leads w (Some c) t"
  shows "\<exists>w'. remove_all cs w = Some w' \<and> worker_ok w' \<and> wk_code w' = filter (\<lambda>n. \<not> is_jmp w n) (wk_code w) \<and>
    leads w (wk_entry w) (wk_entry w') \<and> (\<forall>n \<in> set (wk_code w'). list_all2 (leads w) (nexts (heap w n)) (nexts (heap w' n)))"
proof -
  have "\<forall>c \<in> set cs. c \<in> set (wk_code w) \<and> is_jmp w c \<and> (\<exists>t. leads w (Some c) t)" using assms(3,4) by blast
  from remove_all_leads [OF assms(1,2) this] obtain w' where w': "remove_all cs w = Some w'" "worker_ok w'"
    "wk_code w' = filter (\<lambda>n. n \<notin> set cs) (wk_code w)" "\<forall>n. is_jmp w' n = is_jmp w n"
    "\<forall>t. leads w (wk_entry w) t \<longrightarrow> leads w' (wk_entry w') t"
    "\<forall>n \<in> set (wk_code w'). list_all2 (\<lambda>s s'. \<forall>t. leads w s t \<longrightarrow> leads w' s' t) (nexts (heap w n)) (nexts (heap w' n))" by blast
  have arrives: "leads w s s'" if here: "these [s] \<subseteq> set (wk_code w)" "these [s'] \<subseteq> set (wk_code w')" "\<forall>t. leads w s t \<longrightarrow> leads w' s' t" for s s'
  proof -
    have "\<exists>t. leads w s t"
    proof (cases s)
      case (Some n)
      then show ?thesis using here(1) assms(3,4) by (cases "is_jmp w n") (auto intro: leads_op)
    qed auto
    then obtain t where t: "leads w s t" "leads w' s' t" using here(3) by blast
    have "t = s'"
    proof (cases s')
      case (Some k)
      then have "\<not> is_jmp w' k" using here(2) w'(3,4) assms(3) by auto
      then show ?thesis using t(2) Some by (simp add: leads_some)
    qed (use t(2) in simp)
    then show ?thesis using t(1) by simp
  qed
  have inside: "these [x] \<subseteq> set (wk_code v)" if "worker_ok v" "x \<in> set (nexts (heap v n))" "n \<in> set (wk_code v)" for v x n
    using that by (intro these_member [OF that(2)]) (simp add: worker_ok_def)
  have "list_all2 (leads w) (nexts (heap w n)) (nexts (heap w' n))" if n: "n \<in> set (wk_code w')" for n
  proof -
    have nw: "n \<in> set (wk_code w)" using n by (simp add: w'(3))
    show ?thesis
      by (rule list.rel_mono_strong [OF bspec [OF w'(6) n]]) (use arrives inside [OF assms(1) _ nw] inside [OF w'(2) _ n] in blast)
  qed
  moreover have "leads w (wk_entry w) (wk_entry w')"
    by (rule arrives) (use assms(1) w'(2,5) in \<open>auto simp: worker_ok_def\<close>)
  moreover have "filter (\<lambda>n. n \<notin> set cs) (wk_code w) = filter (\<lambda>n. \<not> is_jmp w n) (wk_code w)"
    by (rule filter_cong) (use assms(3) in auto)
  ultimately show ?thesis using w' by auto
qed

text \<open>A loop of the front end: a jump to the condition at its end, which goes back to the body.\<close>

definition loop_operations :: "(OperationBlock \<times> int \<times> int) list" where
  "loop_operations = [(\<lparr>op_type = OP_JMP, op_data = [2], op_attributes = []\<rparr>, 0, 9),
     (\<lparr>op_type = OP_MOV, op_data = [0, 1], op_attributes = []\<rparr>, 0, 9),
     (\<lparr>op_type = OP_JNZ, op_data = [- 1, 0], op_attributes = []\<rparr>, 0, 9)]"

definition worker_of :: "block list \<Rightarrow> worker" where
  "worker_of bs = \<lparr>wk_entry = Some 0, wk_code = [0..<length bs], heap = (\<lambda>n. bs ! n), fresh = length bs,
     wk_variables = Map.empty, nextTempId = 1000000\<rparr>"

definition loop_worker :: worker where
  "loop_worker = worker_of (the (OpsToBlocks loop_operations))"

lemma loop_blocks: "OpsToBlocks loop_operations =
  Some [\<lparr>op_of = \<lparr>op_type = OP_JMP, op_data = [], op_attributes = []\<rparr>, nexts = [Some 2], prevs = {}, code_span = (0, 9)\<rparr>,
    \<lparr>op_of = \<lparr>op_type = OP_MOV, op_data = [0, 1], op_attributes = []\<rparr>, nexts = [Some 2], prevs = {2}, code_span = (0, 9)\<rparr>,
    \<lparr>op_of = \<lparr>op_type = OP_JNZ, op_data = [0], op_attributes = []\<rparr>, nexts = [None, Some 1], prevs = {0, 1}, code_span = (0, 9)\<rparr>]"
  by code_simp

lemma loop_worker_code: "wk_code loop_worker = [0, 1, 2]" "wk_entry loop_worker = Some 0"
  by (simp_all add: loop_worker_def loop_blocks worker_of_def)

lemma loop_worker_heap: "n < 3 \<Longrightarrow> is_jmp loop_worker n = (n = 0)"
  "nexts (heap loop_worker 0) = [Some 2]" "nexts (heap loop_worker (Suc 0)) = [Some 2]" "nexts (heap loop_worker 2) = [None, Some 1]"
  "prevs (heap loop_worker 0) = {}" "prevs (heap loop_worker (Suc 0)) = {2}" "prevs (heap loop_worker 2) = {0, 1}"
  by (auto simp: loop_worker_def loop_blocks worker_of_def is_jmp_def less_Suc_eq numeral_eq_Suc)

lemma jumps_removed_witness:
  "\<exists>w'. remove_all [0] loop_worker = Some w' \<and> worker_ok w' \<and> wk_code w' = filter (\<lambda>n. \<not> is_jmp loop_worker n) [0, 1, 2] \<and>
    leads loop_worker (Some 0) (wk_entry w') \<and>
    (\<forall>n \<in> set (wk_code w'). list_all2 (leads loop_worker) (nexts (heap loop_worker n)) (nexts (heap w' n)))"
proof -
  have w: "worker_ok loop_worker"
    by (simp add: worker_ok_def links_ok_def these_def loop_worker_code loop_worker_heap)
  have jmps: "set [0] = {c \<in> set (wk_code loop_worker). is_jmp loop_worker c}"
    by (auto simp: loop_worker_code loop_worker_heap)
  have "leads loop_worker (Some 0) (Some 2)"
    by (rule leads_jmp) (simp_all add: loop_worker_heap leads_some)
  then have leads: "\<forall>c \<in> set [0]. \<exists>t. leads loop_worker (Some c) t" by auto
  show ?thesis
    using jumps_removed [OF w _ jmps leads] unfolding loop_worker_code by (simp only: distinct_singleton)
qed


end
