(* ===== verification/Editing.thy ===== *)
theory Editing
  imports Strip
begin

text \<open>
  Insertion of operations into the graph of a worker (\<^verbatim>\<open>src/optimization/common.cpp\<close>): what changes, and that
  the links stay right.
\<close>

section \<open>Workers\<close>

text \<open>
  The numbers of the operations are below the next free one, and no two successors of an operation are the same one.
\<close>

definition linked :: "worker \<Rightarrow> bool" where
  "linked w \<longleftrightarrow> worker_ok w \<and> distinct (wk_code w) \<and> (\<forall>n \<in> set (wk_code w). n < fresh w \<and> distinct (filter (\<lambda>s. s \<noteq> None) (nexts (heap w n))))"

lemma linkedD:
  assumes "linked w" "n \<in> set (wk_code w)"
  shows "n < fresh w" "nexts (heap w n) \<noteq> []" "prevs (heap w n) \<subseteq> set (wk_code w)"
    "\<And>k. Some k \<in> set (nexts (heap w n)) \<Longrightarrow> k \<in> set (wk_code w)"
    "\<And>p. p \<in> set (wk_code w) \<Longrightarrow> p \<in> prevs (heap w n) \<longleftrightarrow> Some n \<in> set (nexts (heap w p))"
    "distinct (filter (\<lambda>s. s \<noteq> None) (nexts (heap w n)))"
  using assms unfolding linked_def worker_ok_def links_ok_def these_def by blast+

lemma linkedI:
  assumes "distinct (wk_code w)" "these [wk_entry w] \<subseteq> set (wk_code w)"
    and "\<And>n. n \<in> set (wk_code w) \<Longrightarrow> n < fresh w \<and> nexts (heap w n) \<noteq> [] \<and> prevs (heap w n) \<subseteq> set (wk_code w) \<and>
      distinct (filter (\<lambda>s. s \<noteq> None) (nexts (heap w n)))"
    and "\<And>n k. n \<in> set (wk_code w) \<Longrightarrow> Some k \<in> set (nexts (heap w n)) \<Longrightarrow> k \<in> set (wk_code w)"
    and "\<And>n p. n \<in> set (wk_code w) \<Longrightarrow> p \<in> set (wk_code w) \<Longrightarrow> p \<in> prevs (heap w n) \<longleftrightarrow> Some n \<in> set (nexts (heap w p))"
  shows "linked w"
  using assms unfolding linked_def worker_ok_def links_ok_def these_def by blast

lemma update_edge:
  assumes "distinct (filter (\<lambda>s. s \<noteq> None) xs)" "k < length xs"
  shows "Some m \<noteq> y \<Longrightarrow> Some m \<in> set (xs[k := y]) \<longleftrightarrow> Some m \<in> set xs \<and> xs ! k \<noteq> Some m"
    "y \<notin> set xs \<Longrightarrow> distinct (filter (\<lambda>s. s \<noteq> None) (xs[k := y]))"
proof -
  obtain us vs where xs: "xs = us @ xs ! k # vs" "length us = k"
    using id_take_nth_drop [OF assms(2)] assms(2) by (metis length_take min.absorb2 less_imp_le_nat)
  then have upd: "xs[k := y] = us @ y # vs" by (metis list_update_length)
  show "Some m \<in> set (xs[k := y]) \<longleftrightarrow> Some m \<in> set xs \<and> xs ! k \<noteq> Some m" if "Some m \<noteq> y"
  proof -
    have "distinct (filter (\<lambda>s. s \<noteq> None) (us @ xs ! k # vs))" using assms(1) xs(1) by metis
    moreover have "Some m \<in> set xs \<longleftrightarrow> Some m \<in> set (us @ xs ! k # vs)" using xs(1) by metis
    ultimately show ?thesis using that unfolding upd by (auto split: if_splits)
  qed
  show "distinct (filter (\<lambda>s. s \<noteq> None) (xs[k := y]))" if "y \<notin> set xs"
  proof -
    have "distinct (filter (\<lambda>s. s \<noteq> None) (us @ xs ! k # vs))" using assms(1) xs(1) by metis
    moreover have "y \<notin> set (us @ xs ! k # vs)" using that xs(1) by metis
    ultimately show ?thesis unfolding upd by (auto split: if_splits)
  qed
qed

section \<open>After an operation\<close>

text \<open>An operation on the edge to the \<open>k\<close>-th successor.\<close>

lemma connect_at_facts:
  assumes w: "linked w" "c \<in> set (wk_code w)" "k < length (nexts (heap w c))"
  obtains w' where "connect_at k c (op_block t d sp) w = Some w'" "wk_code w' = wk_code w @ [fresh w]" "fresh w' = fresh w + 1"
    "wk_entry w' = wk_entry w" "wk_variables w' = wk_variables w" "nextTempId w' = nextTempId w"
    "op_of (heap w' (fresh w)) = \<lparr>op_type = t, op_data = d, op_attributes = []\<rparr>" "nexts (heap w' (fresh w)) = [nexts (heap w c) ! k]"
    "prevs (heap w' (fresh w)) = {c}" "\<And>m. m \<noteq> fresh w \<Longrightarrow> op_of (heap w' m) = op_of (heap w m)"
    "\<And>m. m \<noteq> fresh w \<Longrightarrow> nexts (heap w' m) = (if m = c then (nexts (heap w c))[k := Some (fresh w)] else nexts (heap w m))"
    "\<And>m. m \<noteq> fresh w \<Longrightarrow> prevs (heap w' m) = (if nexts (heap w c) ! k = Some m then insert (fresh w) (prevs (heap w m) - {c}) else prevs (heap w m))"
proof -
  let ?n = "fresh w"
  let ?s = "nexts (heap w c) ! k"
  have c: "c < ?n" by (rule linkedD(1) [OF w(1,2)])
  have s: "t < ?n" if "?s = Some t" for t
  proof -
    have "Some t \<in> set (nexts (heap w c))" using that w(3) nth_mem by metis
    then show ?thesis using linkedD(4) [OF w(1,2)] linkedD(1) [OF w(1)] by blast
  qed
  define h1 where "h1 = (heap w)(?n := (op_block t d sp)\<lparr>nexts := [?s], prevs := {c}\<rparr>)"
  define h2 where "h2 = (case ?s of None \<Rightarrow> h1 | Some t \<Rightarrow> set_block t (add_prev ?n \<circ> del_prev c) h1)"
  define h3 where "h3 = set_block c (\<lambda>x. x\<lparr>nexts := (nexts x)[k := Some ?n]\<rparr>) h2"
  have h2: "op_of (h2 m) = op_of (h1 m)" "nexts (h2 m) = nexts (h1 m)"
    "prevs (h2 m) = (if ?s = Some m then insert ?n (prevs (h1 m) - {c}) else prevs (h1 m))" for m
    by (auto simp: h2_def set_block_def add_prev_def del_prev_def split: option.splits)
  have h3: "op_of (h3 m) = op_of (h1 m)" "nexts (h3 m) = (if m = c then (nexts (h1 c))[k := Some ?n] else nexts (h1 m))"
    "prevs (h3 m) = prevs (h2 m)" for m by (auto simp: h3_def set_block_def h2)
  have "connect_at k c (op_block t d sp) w = Some (w\<lparr>wk_code := wk_code w @ [?n], heap := h3, fresh := ?n + 1\<rparr>)"
    using w(3) by (cases ?s) (simp_all add: connect_at_def Let_def h3_def h2_def h1_def op_block_def)
  then show thesis
    by (rule that) (use c s in \<open>auto simp: h3 h2 h1_def op_block_def\<close>)
qed

lemma connect_at_linked:
  assumes w: "linked w" "c \<in> set (wk_code w)" "k < length (nexts (heap w c))" and r: "connect_at k c (op_block t d sp) w = Some w'"
  shows "linked w'"
proof -
  let ?n = "fresh w"
  let ?s = "nexts (heap w c) ! k"
  obtain w1 where w1: "connect_at k c (op_block t d sp) w = Some w1" and f: "wk_code w1 = wk_code w @ [?n]" "fresh w1 = ?n + 1"
    "wk_entry w1 = wk_entry w" "nexts (heap w1 ?n) = [?s]" "prevs (heap w1 ?n) = {c}"
    and nx: "\<And>m. m \<noteq> ?n \<Longrightarrow> nexts (heap w1 m) = (if m = c then (nexts (heap w c))[k := Some ?n] else nexts (heap w m))"
    and pv: "\<And>m. m \<noteq> ?n \<Longrightarrow> prevs (heap w1 m) = (if ?s = Some m then insert ?n (prevs (heap w m) - {c}) else prevs (heap w m))"
    using connect_at_facts [OF w, of t d sp] by metis
  have "w' = w1" using r w1 by simp
  have c: "c < ?n" "c \<noteq> ?n" using linkedD(1) [OF w(1,2)] by auto
  have old: "m \<noteq> ?n" "m < ?n" if "m \<in> set (wk_code w)" for m using linkedD(1) [OF w(1) that] by auto
  have sin: "?s \<in> set (nexts (heap w c))" using w(3) by simp
  have fresh: "Some ?n \<notin> set (nexts (heap w m))" if "m \<in> set (wk_code w)" for m
    using linkedD(4) [OF w(1) that] linkedD(1) [OF w(1)] by blast
  note edge = update_edge [OF linkedD(6) [OF w(1,2)] w(3)]
  have entry: "these [wk_entry w] \<subseteq> set (wk_code w)" using w(1) by (simp add: linked_def worker_ok_def)
  have target: "m \<in> set (wk_code w)" if "?s = Some m" for m using linkedD(4) [OF w(1,2)] sin that by metis
  show "linked w'" unfolding \<open>w' = w1\<close>
  proof (rule linkedI)
    show "distinct (wk_code w1)" using w(1) old by (auto simp: f linked_def)
    show "these [wk_entry w1] \<subseteq> set (wk_code w1)" using entry by (auto simp: f)
  next
    fix m assume m: "m \<in> set (wk_code w1)"
    show "m < fresh w1 \<and> nexts (heap w1 m) \<noteq> [] \<and> prevs (heap w1 m) \<subseteq> set (wk_code w1) \<and>
      distinct (filter (\<lambda>s. s \<noteq> None) (nexts (heap w1 m)))"
    proof (cases "m = ?n")
      case True
      then show ?thesis using w(2) by (simp add: f)
    next
      case False
      then have mw: "m \<in> set (wk_code w)" using m by (simp add: f)
      have "nexts (heap w c) \<noteq> []" using w(3) by auto
      then show ?thesis
        using False linkedD(1,2,3,6) [OF w(1) mw] edge(2) [OF fresh [OF w(2)]] by (auto simp: f nx pv)
    qed
  next
    fix m k' assume m: "m \<in> set (wk_code w1)" "Some k' \<in> set (nexts (heap w1 m))"
    show "k' \<in> set (wk_code w1)"
    proof (cases "m = ?n")
      case True
      then show ?thesis using m target by (auto simp: f)
    next
      case False
      then have mw: "m \<in> set (wk_code w)" using m(1) by (simp add: f)
      show ?thesis
      proof (cases "m = c \<and> k' \<noteq> ?n")
        case True
        then have "Some k' \<in> set (nexts (heap w c))" using m(2) False edge(1) [of k' "Some ?n"] by (simp add: nx)
        then show ?thesis using linkedD(4) [OF w(1,2)] by (simp add: f)
      next
        case other: False
        then show ?thesis using m(2) False linkedD(4) [OF w(1) mw] by (auto simp: f nx)
      qed
    qed
  next
    fix m p assume m: "m \<in> set (wk_code w1)" and p: "p \<in> set (wk_code w1)"
    show "p \<in> prevs (heap w1 m) \<longleftrightarrow> Some m \<in> set (nexts (heap w1 p))"
    proof (cases "m = ?n")
      case True
      have "Some ?n \<in> set ((nexts (heap w c))[k := Some ?n])" using w(3) by (rule set_update_memI)
      moreover have "?s \<noteq> Some ?n" using target old by blast
      moreover have "Some ?n \<notin> set (nexts (heap w p))" if "p \<noteq> ?n" using fresh p that by (simp add: f)
      ultimately show ?thesis unfolding True f(5) using c by (cases "p = ?n"; cases "p = c") (auto simp: f(4) nx)
    next
      case False
      then have mw: "m \<in> set (wk_code w)" using m by (simp add: f)
      show ?thesis
      proof (cases "p = ?n")
        case True
        have no: "?n \<notin> prevs (heap w m)" using linkedD(3) [OF w(1) mw] old by blast
        show ?thesis unfolding True pv [OF False] f(4) using no c by (cases "?s = Some m") auto
      next
        case pn: False
        then have here: "p \<in> prevs (heap w m) \<longleftrightarrow> Some m \<in> set (nexts (heap w p))" using linkedD(5) [OF w(1) mw] p by (simp add: f)
        show ?thesis
        proof (cases "p = c")
          case True
          have "Some m \<in> set ((nexts (heap w c))[k := Some ?n]) \<longleftrightarrow> Some m \<in> set (nexts (heap w c)) \<and> ?s \<noteq> Some m"
            by (rule edge(1)) (use False in simp)
          then show ?thesis using here unfolding True nx [OF c(2)] pv [OF False] by (cases "?s = Some m") (use c in auto)
        next
          case other: False
          then show ?thesis using here pn unfolding nx [OF pn] pv [OF False] by simp
        qed
      qed
    qed
  qed
qed

section \<open>Before an operation\<close>

lemma connectBeforeOp_facts:
  assumes w: "linked w" "c \<in> set (wk_code w)" and r: "w' = connectBeforeOp (Some c) (op_block t d sp) w"
  shows "wk_code w' = wk_code w @ [fresh w]" "fresh w' = fresh w + 1"
    "wk_entry w' = (if wk_entry w = Some c then Some (fresh w) else wk_entry w)" "wk_variables w' = wk_variables w" "nextTempId w' = nextTempId w"
    "op_of (heap w' (fresh w)) = \<lparr>op_type = t, op_data = d, op_attributes = []\<rparr>" "nexts (heap w' (fresh w)) = [Some c]"
    "prevs (heap w' (fresh w)) = prevs (heap w c)" "m \<noteq> fresh w \<Longrightarrow> op_of (heap w' m) = op_of (heap w m)"
    "m \<in> set (wk_code w) \<Longrightarrow> nexts (heap w' m) = map (\<lambda>x. if x = Some c then Some (fresh w) else x) (nexts (heap w m))"
    "m \<noteq> fresh w \<Longrightarrow> prevs (heap w' m) = (if m = c then {fresh w} else prevs (heap w m))"
proof -
  have c: "c < fresh w" by (rule linkedD(1) [OF w])
  have ps: "{p \<in> prevs (heap w c). Some c \<in> set (nexts (heap w p))} = prevs (heap w c)"
    using linkedD(3,5) [OF w] by blast
  have no: "map (\<lambda>x. if x = Some c then Some (fresh w) else x) (nexts (heap w m)) = nexts (heap w m)"
    if "m \<in> set (wk_code w)" "m \<notin> prevs (heap w c)"
    using linkedD(5) [OF w that(1)] that(2) by (intro map_idI) auto
  show "m \<in> set (wk_code w) \<Longrightarrow> nexts (heap w' m) = map (\<lambda>x. if x = Some c then Some (fresh w) else x) (nexts (heap w m))"
    using no linkedD(1) [OF w(1), of m] by (auto simp: r connectBeforeOp_def Let_def set_block_def redirect_def)
qed (use linkedD(1) [OF w] linkedD(3,5) [OF w] in \<open>auto simp: r connectBeforeOp_def Let_def set_block_def redirect_def op_block_def\<close>)

lemma connectBeforeOp_linked:
  assumes w: "linked w" "c \<in> set (wk_code w)"
  shows "linked (connectBeforeOp (Some c) (op_block t d sp) w)"
proof -
  let ?n = "fresh w"
  define w1 where "w1 = connectBeforeOp (Some c) (op_block t d sp) w"
  note f = connectBeforeOp_facts [OF w w1_def]
  have c: "c \<noteq> ?n" using linkedD(1) [OF w] by auto
  have old: "m \<noteq> ?n" "m < ?n" if "m \<in> set (wk_code w)" for m using linkedD(1) [OF w(1) that] by auto
  have fresh: "Some ?n \<notin> set (nexts (heap w m))" if "m \<in> set (wk_code w)" for m
    using linkedD(4) [OF w(1) that] linkedD(1) [OF w(1)] by blast
  have entry: "these [wk_entry w] \<subseteq> set (wk_code w)" using w(1) by (simp add: linked_def worker_ok_def)
  have "linked w1"
  proof (rule linkedI)
    show "distinct (wk_code w1)" using w(1) old by (auto simp: f linked_def)
    show "these [wk_entry w1] \<subseteq> set (wk_code w1)" using entry by (auto simp: f)
  next
    fix m assume m: "m \<in> set (wk_code w1)"
    show "m < fresh w1 \<and> nexts (heap w1 m) \<noteq> [] \<and> prevs (heap w1 m) \<subseteq> set (wk_code w1) \<and>
      distinct (filter (\<lambda>s. s \<noteq> None) (nexts (heap w1 m)))"
    proof (cases "m = ?n")
      case True
      then show ?thesis using linkedD(3) [OF w] by (auto simp: f)
    next
      case False
      then have mw: "m \<in> set (wk_code w)" using m by (simp add: f)
      have "distinct (filter (\<lambda>s. s \<noteq> None) (map (\<lambda>x. if x = Some c then Some ?n else x) (nexts (heap w m))))"
      proof -
        have "filter (\<lambda>s. s \<noteq> None) (map (\<lambda>x. if x = Some c then Some ?n else x) xs) =
            map (\<lambda>x. if x = Some c then Some ?n else x) (filter (\<lambda>s. s \<noteq> None) xs)" for xs
          by (induction xs) auto
        moreover have "inj_on (\<lambda>x. if x = Some c then Some ?n else x) (set (filter (\<lambda>s. s \<noteq> None) (nexts (heap w m))))"
          using fresh [OF mw] by (auto simp: inj_on_def)
        ultimately show ?thesis using linkedD(6) [OF w(1) mw] by (simp add: distinct_map)
      qed
      then show ?thesis using False mw linkedD(1,2,3) [OF w(1) mw] by (auto simp: f)
    qed
  next
    fix m k assume m: "m \<in> set (wk_code w1)" "Some k \<in> set (nexts (heap w1 m))"
    show "k \<in> set (wk_code w1)"
    proof (cases "m = ?n")
      case False
      then have mw: "m \<in> set (wk_code w)" using m(1) by (simp add: f)
      then show ?thesis using m(2) linkedD(4) [OF w(1) mw] by (auto simp: f split: if_splits)
    qed (use m w(2) in \<open>simp add: f\<close>)
  next
    fix m p assume m: "m \<in> set (wk_code w1)" and p: "p \<in> set (wk_code w1)"
    have pw: "p \<in> set (wk_code w)" if "p \<noteq> ?n" using p that by (simp add: f)
    show "p \<in> prevs (heap w1 m) \<longleftrightarrow> Some m \<in> set (nexts (heap w1 p))"
    proof (cases "p = ?n")
      case True
      have no: "?n \<notin> prevs (heap w k)" if "k \<in> set (wk_code w)" for k using linkedD(3) [OF w(1) that] old by blast
      have "?n \<notin> prevs (heap w m)" if "m \<noteq> ?n" "?n \<notin> prevs (heap w c)" using no m that by (simp add: f)
      moreover have "?n \<notin> prevs (heap w c)" using no w(2) .
      ultimately show ?thesis unfolding True using c by (cases "m = c"; cases "m = ?n") (auto simp: f)
    next
      case False
      note here = linkedD(5) [OF w pw [OF False]]
      show ?thesis
      proof (cases "m = ?n")
        case True
        then show ?thesis using here fresh [OF pw [OF False]] pw [OF False] by (auto simp: f image_iff)
      next
        case mn: False
        then have "p \<in> prevs (heap w m) \<longleftrightarrow> Some m \<in> set (nexts (heap w p))" using linkedD(5) [OF w(1) _ pw [OF False]] m by (simp add: f)
        then show ?thesis using mn False pw [OF False] by (auto simp: f image_iff)
      qed
    qed
  qed
  then show ?thesis by (simp add: w1_def)
qed

end
