(* ===== verification/Liveness.thy ===== *)
theory Liveness
  imports Strip
begin

text \<open>
  Where the variables of a worker are alive and which of them are in each other's way:
  \<^verbatim>\<open>RegisterAnalizator\<close> in \<^verbatim>\<open>src/analysis/analizators.hpp\<close>.

  The estimates of execution counts and lifetimes are floating-point numbers that choose which variables are moved to
  memory first. They are not modelled, nor is the walk that computes them (\<^verbatim>\<open>updateExecutions\<close>,
  \<^verbatim>\<open>calculateExecutionWay\<close>): its check of what has been visited is commented out, so that on a cycle of first
  successors it does not end, and what follows is about the workers for which it does. Not modelled either are the
  tables for a heuristic that is commented out. The unordered tables of the code are gone through in one fixed order.
\<close>

section \<open>Live ranges\<close>

text \<open>
  The visited operations are kept for each variable and search; the keys of the backward searches are the complements
  of the variables.
\<close>

record live =
  visited :: "i64 \<Rightarrow> nat set"
  can_to :: "i64 \<Rightarrow> nat set"
  can_from :: "i64 \<Rightarrow> nat set"

definition ends_life :: "worker \<Rightarrow> i64 \<Rightarrow> nat \<Rightarrow> bool" where
  "ends_life w v n \<longleftrightarrow> op_type (op_of (heap w n)) = OP_FREE_TEMP \<and> (case op_data (op_of (heap w n)) of [] \<Rightarrow> False | x # _ \<Rightarrow> x = v)"

definition forward :: "worker \<Rightarrow> i64 \<Rightarrow> nat \<Rightarrow> nat option list" where
  "forward w v n = (if ends_life w v n then [] else nexts (heap w n))"

definition backward :: "worker \<Rightarrow> i64 \<Rightarrow> nat \<Rightarrow> nat option list" where
  "backward w v n = (if ends_life w v n then [] else map Some (sorted_list_of_set (prevs (heap w n))))"

definition updateCanFrom :: "nat \<Rightarrow> worker \<Rightarrow> nat \<Rightarrow> i64 \<Rightarrow> live \<Rightarrow> live option" where
  "updateCanFrom fuel w n v s =
     do { r \<leftarrow> dfs fuel (forward w v) [Some n] (visited s v);
          Some (s\<lparr>visited := (visited s)(v := r), can_from := (can_from s)(v := can_from s v \<union> {m \<in> r - visited s v. \<not> ends_life w v m})\<rparr>) }"

definition updateCanTo :: "nat \<Rightarrow> worker \<Rightarrow> nat \<Rightarrow> i64 \<Rightarrow> live \<Rightarrow> live option" where
  "updateCanTo fuel w n v s =
     do { r \<leftarrow> dfs fuel (backward w v) [Some n] (visited s (NOT v));
          Some (s\<lparr>visited := (visited s)(NOT v := r),
            can_to := (can_to s)(v := can_to s v \<union> {m \<in> r - visited s (NOT v). \<not> ends_life w v m})\<rparr>) }"

fun update_uses :: "nat \<Rightarrow> worker \<Rightarrow> (nat \<times> i64) list \<Rightarrow> live \<Rightarrow> live option" where
  "update_uses fuel w [] s = Some s"
| "update_uses fuel w ((n, v) # us) s = do { s \<leftarrow> updateCanTo fuel w n v s; s \<leftarrow> updateCanFrom fuel w n v s; update_uses fuel w us s }"

text \<open>The uses of variables in the order of the operations; an operation without its operands is read out of bounds.\<close>

fun all_uses :: "worker \<Rightarrow> nat list \<Rightarrow> (nat \<times> i64) list option" where
  "all_uses w [] = Some []"
| "all_uses w (n # ns) = do { vs \<leftarrow> getUsedVariables (op_of (heap w n)); us \<leftarrow> all_uses w ns; Some (map (Pair n) vs @ us) }"

definition updateOpVars :: "nat \<Rightarrow> worker \<Rightarrow> (live \<times> i64 list) option" where
  "updateOpVars fuel w =
     do { us \<leftarrow> all_uses w (wk_code w);
          s \<leftarrow> update_uses fuel w us \<lparr>visited = (\<lambda>_. {}), can_to = (\<lambda>_. {}), can_from = (\<lambda>_. {})\<rparr>;
          Some (s, remdups (map snd us)) }"

definition op_vars :: "live \<Rightarrow> i64 list \<Rightarrow> nat \<Rightarrow> i64 list" where
  "op_vars s vs n = filter (\<lambda>v. n \<in> can_to s v \<and> n \<in> can_from s v) vs"

section \<open>Conflicts\<close>

text \<open>The temporaries whose life ends right after an operation.\<close>

fun freed_after :: "nat \<Rightarrow> worker \<Rightarrow> nat option \<Rightarrow> i64 list option" where
  "freed_after k w None = Some []"
| "freed_after k w (Some n) =
     (if op_type (op_of (heap w n)) \<noteq> OP_FREE_TEMP then Some []
      else if op_data (op_of (heap w n)) = [] \<or> nexts (heap w n) = [] then None
      else case k of 0 \<Rightarrow> None
        | Suc k \<Rightarrow> map_option ((#) (hd (op_data (op_of (heap w n))))) (freed_after k w (hd (nexts (heap w n)))))"

declare freed_after.simps(2) [simp del]

text \<open>The result may take the register of an operand whose life ends.\<close>

definition shares :: "i64 list \<Rightarrow> i64 list \<Rightarrow> i64 list \<Rightarrow> i64 \<Rightarrow> i64 \<Rightarrow> bool" where
  "shares writed reads freed i j \<longleftrightarrow>
     (i \<in> set writed \<and> j \<in> set reads \<and> j \<in> set freed \<or> j \<in> set writed \<and> i \<in> set reads \<and> i \<in> set freed) \<and>
     length (remdups writed) = 1"

definition op_conflicts :: "nat \<Rightarrow> worker \<Rightarrow> i64 list \<Rightarrow> nat \<Rightarrow> (i64 \<times> i64) list option" where
  "op_conflicts fuel w vars n =
     do { writed \<leftarrow> getWritedVariables (op_of (heap w n));
          reads \<leftarrow> getReadVariables (op_of (heap w n));
          freed \<leftarrow> (case nexts (heap w n) of [x] \<Rightarrow> freed_after fuel w x | _ \<Rightarrow> Some []);
          Some (filter (\<lambda>(i, j). i \<noteq> j \<and> \<not> shares writed reads freed i j) (List.product vars vars)) }"

text \<open>The variables that need a register and the pairs that need different ones.\<close>

record conflicts =
  nodes :: "i64 list"
  overlap_pairs :: "(i64 \<times> i64) list"

fun conflicts_of :: "nat \<Rightarrow> worker \<Rightarrow> (nat \<Rightarrow> i64 list) \<Rightarrow> nat list \<Rightarrow> (i64 \<times> i64) list option" where
  "conflicts_of fuel w vars [] = Some []"
| "conflicts_of fuel w vars (n # ns) =
     (if vars n = [] then conflicts_of fuel w vars ns
      else do { ps \<leftarrow> op_conflicts fuel w (vars n) n; qs \<leftarrow> conflicts_of fuel w vars ns; Some (ps @ qs) })"

definition buildMainConflictGraph :: "nat \<Rightarrow> worker \<Rightarrow> conflicts option" where
  "buildMainConflictGraph fuel w =
     do { (s, vs) \<leftarrow> updateOpVars fuel w;
          ps \<leftarrow> conflicts_of fuel w (op_vars s vs) (wk_code w);
          Some \<lparr>nodes = remdups (concat (map (op_vars s vs) (wk_code w))), overlap_pairs = remdups ps\<rparr> }"

definition overlaps :: "conflicts \<Rightarrow> i64 \<Rightarrow> i64 list" where
  "overlaps g v = remdups (map snd (filter (\<lambda>p. fst p = v) (overlap_pairs g)))"

section \<open>What the searches find\<close>

definition uses_of :: "(nat \<times> i64) list \<Rightarrow> i64 \<Rightarrow> nat set" where "uses_of us v = {n. (n, v) \<in> set us}"

definition live_bound :: "worker \<Rightarrow> nat" where
  "live_bound w = 1 + (\<Sum>n \<in> set (wk_code w). length (nexts (heap w n))) + (\<Sum>n \<in> set (wk_code w). card (prevs (heap w n)))"

lemma these_map_Some [simp]: "these (map Some xs) = set xs"
  by (auto simp: these_def)

lemma finite_prevs: "worker_ok w \<Longrightarrow> n \<in> set (wk_code w) \<Longrightarrow> finite (prevs (heap w n))"
  by (auto simp: worker_ok_def links_ok_def intro: finite_subset)

lemma search_forward:
  assumes "worker_ok w" "n \<in> set (wk_code w)" "live_bound w \<le> fuel"
  shows "dfs fuel (forward w v) [Some n] (reach (forward w v) A) = Some (reach (forward w v) (insert n A))"
proof -
  have "(\<Sum>k \<in> set (wk_code w) - reach (forward w v) A. length (forward w v k)) \<le> (\<Sum>k \<in> set (wk_code w). length (nexts (heap w k)))"
    by (rule order_trans [OF sum_mono2 [of "set (wk_code w)"] sum_mono]) (auto simp: forward_def)
  then have "dfs fuel (forward w v) [Some n] (reach (forward w v) A) = Some (reach (forward w v) A \<union> reach (forward w v) (these [Some n]))"
    by (intro dfs_reach [where N = "set (wk_code w)"])
      (use assms in \<open>auto simp: worker_ok_def forward_def dfs_bound_def live_bound_def these_def dest: reach_closed [THEN subsetD]\<close>)
  then show ?thesis using reach_Un [of "forward w v" A "{n}"] by simp
qed

lemma search_backward:
  assumes "worker_ok w" "n \<in> set (wk_code w)" "live_bound w \<le> fuel"
  shows "dfs fuel (backward w v) [Some n] (reach (backward w v) A) = Some (reach (backward w v) (insert n A))"
proof -
  have "(\<Sum>k \<in> set (wk_code w) - reach (backward w v) A. length (backward w v k)) \<le> (\<Sum>k \<in> set (wk_code w). card (prevs (heap w k)))"
    by (rule order_trans [OF sum_mono2 [of "set (wk_code w)"] sum_mono]) (auto simp: backward_def)
  moreover have "these (backward w v k) \<subseteq> set (wk_code w)" if "k \<in> set (wk_code w)" for k
    using assms(1) that finite_prevs [OF assms(1) that] by (auto simp: backward_def worker_ok_def links_ok_def)
  ultimately have "dfs fuel (backward w v) [Some n] (reach (backward w v) A) = Some (reach (backward w v) A \<union> reach (backward w v) (these [Some n]))"
    by (intro dfs_reach [where N = "set (wk_code w)"])
      (use assms in \<open>auto simp: dfs_bound_def live_bound_def dest: reach_closed [THEN subsetD]\<close>)
  then show ?thesis using reach_Un [of "backward w v" A "{n}"] by simp
qed

text \<open>The numbers of variables are not negative, so that no variable is the complement of another one.\<close>

definition live_inv :: "worker \<Rightarrow> (nat \<times> i64) list \<Rightarrow> live \<Rightarrow> bool" where
  "live_inv w us s \<longleftrightarrow> (\<forall>v. 0 \<le> sint v \<longrightarrow>
     visited s v = reach (forward w v) (uses_of us v) \<and> can_from s v = {m \<in> visited s v. \<not> ends_life w v m} \<and>
     visited s (NOT v) = reach (backward w v) (uses_of us v) \<and> can_to s v = {m \<in> visited s (NOT v). \<not> ends_life w v m})"

lemma not_variable: "0 \<le> sint (u :: i64) \<Longrightarrow> 0 \<le> sint v \<Longrightarrow> u \<noteq> NOT v"
proof -
  assume "0 \<le> sint u" "0 \<le> sint v"
  then have "\<not> bit u 63" "\<not> bit v 63" using bit_last_iff [of u] bit_last_iff [of v] by simp_all
  moreover have "bit (NOT v) 63" using calculation by (simp add: bit_not_iff)
  ultimately show ?thesis by auto
qed

lemma update_uses_live:
  assumes "worker_ok w" "live_bound w \<le> fuel"
  shows "set (map fst us) \<subseteq> set (wk_code w) \<Longrightarrow> \<forall>v \<in> set (map snd us). 0 \<le> sint v \<Longrightarrow> live_inv w dn s \<Longrightarrow>
    \<exists>s'. update_uses fuel w us s = Some s' \<and> live_inv w (dn @ us) s'"
proof (induction us arbitrary: dn s)
  case (Cons x us)
  obtain n v where x: "x = (n, v)" by force
  have n: "n \<in> set (wk_code w)" "0 \<le> sint v" using Cons.prems(1,2) x by auto
  have vis: "visited s v = reach (forward w v) (uses_of dn v)" "visited s (NOT v) = reach (backward w v) (uses_of dn v)"
    using Cons.prems(3) n(2) by (auto simp: live_inv_def)
  define s1 where "s1 = s\<lparr>visited := (visited s)(NOT v := reach (backward w v) (insert n (uses_of dn v))),
    can_to := (can_to s)(v := can_to s v \<union> {m \<in> reach (backward w v) (insert n (uses_of dn v)) - visited s (NOT v). \<not> ends_life w v m})\<rparr>"
  have to: "updateCanTo fuel w n v s = Some s1"
    using search_backward [OF assms(1) n(1) assms(2)] vis(2) by (simp add: updateCanTo_def s1_def)
  have v: "v \<noteq> NOT v" by (rule not_variable [OF n(2) n(2)])
  define s2 where "s2 = s1\<lparr>visited := (visited s1)(v := reach (forward w v) (insert n (uses_of dn v))),
    can_from := (can_from s1)(v := can_from s1 v \<union> {m \<in> reach (forward w v) (insert n (uses_of dn v)) - visited s1 v. \<not> ends_life w v m})\<rparr>"
  have "visited s1 v = visited s v" using v by (simp add: s1_def)
  then have "updateCanFrom fuel w n v s1 = Some s2"
    using search_forward [OF assms(1) n(1) assms(2)] vis(1) by (simp add: updateCanFrom_def s2_def)
  then have step: "update_uses fuel w (x # us) s = update_uses fuel w us s2" using to by (simp add: x)
  have uses: "uses_of (dn @ [x]) u = (if u = v then insert n (uses_of dn v) else uses_of dn u)" for u
    by (auto simp: uses_of_def x)
  have "live_inv w (dn @ [x]) s2"
    unfolding live_inv_def
  proof (intro allI impI)
    fix u :: i64 assume u: "0 \<le> sint u"
    have inv: "visited s u = reach (forward w u) (uses_of dn u)" "can_from s u = {m \<in> visited s u. \<not> ends_life w u m}"
      "visited s (NOT u) = reach (backward w u) (uses_of dn u)" "can_to s u = {m \<in> visited s (NOT u). \<not> ends_life w u m}"
      using Cons.prems(3) u by (auto simp: live_inv_def)
    have ne: "u \<noteq> NOT v" "NOT u \<noteq> v" using not_variable [OF u n(2)] not_variable [OF n(2) u] by auto
    have mono: "reach nx A \<subseteq> reach nx (insert n A)" for nx A by (rule reach_mono) blast
    show "visited s2 u = reach (forward w u) (uses_of (dn @ [x]) u) \<and> can_from s2 u = {m \<in> visited s2 u. \<not> ends_life w u m} \<and>
      visited s2 (NOT u) = reach (backward w u) (uses_of (dn @ [x]) u) \<and> can_to s2 u = {m \<in> visited s2 (NOT u). \<not> ends_life w u m}"
    proof (cases "u = v")
      case True
      then show ?thesis using inv ne v by (auto simp: s2_def s1_def uses dest: subsetD [OF mono])
    next
      case False
      then show ?thesis using inv ne by (simp add: s2_def s1_def uses)
    qed
  qed
  then show ?case using Cons.IH [of "dn @ [x]" s2] Cons.prems(1,2) step by simp
qed simp

section \<open>The conflict graph\<close>

text \<open>The operations have their operands, and variables are not negative.\<close>

definition worker_formed :: "worker \<Rightarrow> bool" where
  "worker_formed w \<longleftrightarrow> (\<forall>n \<in> set (wk_code w). op_formed (op_of (heap w n)) \<and>
     (\<forall>us. getUsedVariables (op_of (heap w n)) = Some us \<longrightarrow> (\<forall>v \<in> set us. 0 \<le> sint v)))"

definition used_by :: "worker \<Rightarrow> nat \<Rightarrow> i64 set" where
  "used_by w n = (case getUsedVariables (op_of (heap w n)) of None \<Rightarrow> {} | Some us \<Rightarrow> set us)"

definition users :: "worker \<Rightarrow> i64 \<Rightarrow> nat set" where "users w v = {n \<in> set (wk_code w). v \<in> used_by w n}"

text \<open>
  A variable is alive at an operation between two uses: one leads to the operation, the operation leads to the other,
  and its life does not end between them.
\<close>

definition alive :: "worker \<Rightarrow> i64 \<Rightarrow> nat \<Rightarrow> bool" where
  "alive w v n \<longleftrightarrow> n \<in> reach (forward w v) (users w v) \<and> n \<in> reach (backward w v) (users w v) \<and> \<not> ends_life w v n"

lemma alive_user:
  assumes "n \<in> set (wk_code w)" "v \<in> used_by w n" "\<not> ends_life w v n"
  shows "alive w v n"
  using assms reach_refl [of "users w v"] by (auto simp: alive_def users_def)

lemma all_uses_formed:
  assumes "\<forall>n \<in> set ns. op_formed (op_of (heap w n))"
  shows "\<exists>us. all_uses w ns = Some us \<and> set us = {(n, v). n \<in> set ns \<and> v \<in> used_by w n}"
  using assms
proof (induction ns)
  case (Cons n ns)
  then obtain us where us: "all_uses w ns = Some us" "set us = {(n, v). n \<in> set ns \<and> v \<in> used_by w n}" by auto
  have "op_formed (op_of (heap w n))" using Cons.prems by simp
  then obtain vs where "getUsedVariables (op_of (heap w n)) = Some vs" by (rule used_variables_formed)
  then show ?case using us by (auto simp: used_by_def)
qed simp

lemma updateOpVars_alive:
  assumes "worker_ok w" "worker_formed w" "live_bound w \<le> fuel"
  obtains s vs where "updateOpVars fuel w = Some (s, vs)" "set vs = (\<Union>n \<in> set (wk_code w). used_by w n)"
    "\<And>n. set (op_vars s vs n) = {v. alive w v n}"
proof -
  obtain us where us: "all_uses w (wk_code w) = Some us" "set us = {(n, v). n \<in> set (wk_code w) \<and> v \<in> used_by w n}"
    using all_uses_formed assms(2) unfolding worker_formed_def by blast
  let ?s0 = "\<lparr>visited = (\<lambda>_. {}), can_to = (\<lambda>_. {}), can_from = (\<lambda>_. {})\<rparr>"
  have nn: "0 \<le> sint v" if "n \<in> set (wk_code w)" "v \<in> used_by w n" for n v
    using that assms(2) by (auto simp: worker_formed_def used_by_def split: option.splits)
  have "live_inv w [] ?s0" by (simp add: live_inv_def uses_of_def reach_def)
  moreover have "\<forall>v \<in> set (map snd us). 0 \<le> sint v" "set (map fst us) \<subseteq> set (wk_code w)" using us(2) nn by auto
  ultimately obtain s where s: "update_uses fuel w us ?s0 = Some s" "live_inv w us s"
    using update_uses_live [OF assms(1,3), of us "[]" ?s0] by auto
  have vars: "set (map snd us) = (\<Union>n \<in> set (wk_code w). used_by w n)" unfolding set_map us(2) by force
  have "set (op_vars s (remdups (map snd us)) n) = {v. alive w v n}" for n
  proof -
    have "n \<in> can_to s v \<and> n \<in> can_from s v \<longleftrightarrow> alive w v n" if "v \<in> set (map snd us)" for v
    proof -
      have "0 \<le> sint v" using that nn unfolding vars by blast
      moreover have "uses_of us v = users w v" using us(2) by (auto simp: uses_of_def users_def)
      ultimately show ?thesis using s(2) by (auto simp: live_inv_def alive_def)
    qed
    moreover have "v \<in> set (map snd us)" if "alive w v n" for v
    proof -
      have "users w v \<noteq> {}" using that by (auto simp: alive_def reach_def)
      then show ?thesis unfolding vars users_def by blast
    qed
    ultimately show ?thesis unfolding op_vars_def set_filter set_remdups by blast
  qed
  then show thesis using that [of s "remdups (map snd us)"] us(1) s(1) vars by (simp add: updateOpVars_def)
qed

text \<open>The walk over the temporaries that are freed ends, with \<open>k\<close> steps, after every operation.\<close>

definition frees_end :: "nat \<Rightarrow> worker \<Rightarrow> bool" where
  "frees_end k w \<longleftrightarrow> (\<forall>n \<in> set (wk_code w). \<forall>x \<in> set (nexts (heap w n)). freed_after k w x \<noteq> None)"

text \<open>Two variables may share a register at an operation.\<close>

definition may_share :: "nat \<Rightarrow> worker \<Rightarrow> nat \<Rightarrow> i64 \<Rightarrow> i64 \<Rightarrow> bool" where
  "may_share fuel w n i j \<longleftrightarrow>
     (\<exists>writed reads freed x. getWritedVariables (op_of (heap w n)) = Some writed \<and> getReadVariables (op_of (heap w n)) = Some reads \<and>
        nexts (heap w n) = [x] \<and> freed_after fuel w x = Some freed \<and> shares writed reads freed i j)"

lemma op_conflicts_formed:
  assumes "worker_formed w" "frees_end fuel w" "n \<in> set (wk_code w)"
  obtains ps where "op_conflicts fuel w vars n = Some ps"
    "set ps = {(i, j). i \<in> set vars \<and> j \<in> set vars \<and> i \<noteq> j \<and> \<not> may_share fuel w n i j}"
proof -
  have "op_formed (op_of (heap w n))" using assms(1,3) by (simp add: worker_formed_def)
  then obtain ws rs where ws: "getWritedVariables (op_of (heap w n)) = Some ws" "getReadVariables (op_of (heap w n)) = Some rs"
    by (rule used_variables_formed)
  have none: "\<not> shares ws rs [] i j" for i j by (simp add: shares_def)
  show thesis
  proof (cases "\<exists>x. nexts (heap w n) = [x]")
    case True
    then obtain x where x: "nexts (heap w n) = [x]" by blast
    then obtain fs where "freed_after fuel w x = Some fs" using assms(2,3) by (fastforce simp: frees_end_def)
    then show thesis using that ws x by (auto simp: op_conflicts_def may_share_def)
  next
    case False
    then have "(case nexts (heap w n) of [x] \<Rightarrow> freed_after fuel w x | _ \<Rightarrow> Some []) = Some []"
      by (auto split: list.splits)
    then show thesis using that ws none False by (auto simp: op_conflicts_def may_share_def)
  qed
qed

lemma conflicts_of_formed:
  assumes "worker_formed w" "frees_end fuel w"
  shows "set ns \<subseteq> set (wk_code w) \<Longrightarrow> \<exists>ps. conflicts_of fuel w vars ns = Some ps \<and>
    set ps = {(i, j). \<exists>n \<in> set ns. i \<in> set (vars n) \<and> j \<in> set (vars n) \<and> i \<noteq> j \<and> \<not> may_share fuel w n i j}"
proof (induction ns)
  case (Cons n ns)
  obtain qs where qs: "conflicts_of fuel w vars ns = Some qs"
    "set qs = {(i, j). \<exists>n \<in> set ns. i \<in> set (vars n) \<and> j \<in> set (vars n) \<and> i \<noteq> j \<and> \<not> may_share fuel w n i j}" using Cons by auto
  obtain ps where ps: "op_conflicts fuel w (vars n) n = Some ps"
    "set ps = {(i, j). i \<in> set (vars n) \<and> j \<in> set (vars n) \<and> i \<noteq> j \<and> \<not> may_share fuel w n i j}"
    by (rule op_conflicts_formed [OF assms]) (use Cons.prems in auto)
  show ?case using ps qs by (cases "vars n = []") auto
qed simp

lemma conflict_graph:
  assumes "worker_ok w" "worker_formed w" "live_bound w \<le> fuel" "frees_end fuel w"
  obtains g where "buildMainConflictGraph fuel w = Some g" "set (nodes g) = {v. \<exists>n \<in> set (wk_code w). alive w v n}" "distinct (nodes g)"
    "\<And>i j. j \<in> set (overlaps g i) \<longleftrightarrow> (\<exists>n \<in> set (wk_code w). alive w i n \<and> alive w j n \<and> i \<noteq> j \<and> \<not> may_share fuel w n i j)"
proof -
  obtain s vs where s: "updateOpVars fuel w = Some (s, vs)" "\<And>n. set (op_vars s vs n) = {v. alive w v n}"
    by (rule updateOpVars_alive [OF assms(1-3)]) blast
  obtain ps where ps: "conflicts_of fuel w (op_vars s vs) (wk_code w) = Some ps"
    "set ps = {(i, j). \<exists>n \<in> set (wk_code w). i \<in> set (op_vars s vs n) \<and> j \<in> set (op_vars s vs n) \<and> i \<noteq> j \<and> \<not> may_share fuel w n i j}"
    using conflicts_of_formed [OF assms(2,4), of "wk_code w"] by blast
  let ?g = "\<lparr>nodes = remdups (concat (map (op_vars s vs) (wk_code w))), overlap_pairs = remdups ps\<rparr>"
  show thesis
  proof (rule that [of ?g])
    show "buildMainConflictGraph fuel w = Some ?g" using s(1) ps(1) by (simp add: buildMainConflictGraph_def)
    show "set (nodes ?g) = {v. \<exists>n \<in> set (wk_code w). alive w v n}" using s(2) by auto
    show "j \<in> set (overlaps ?g i) \<longleftrightarrow> (\<exists>n \<in> set (wk_code w). alive w i n \<and> alive w j n \<and> i \<noteq> j \<and> \<not> may_share fuel w n i j)" for i j
    proof -
      have "j \<in> set (overlaps ?g i) \<longleftrightarrow> (i, j) \<in> set ps" by (force simp: overlaps_def)
      then show ?thesis unfolding ps(2) s(2) by auto
    qed
  qed simp
qed

end
