(* ===== verification/RegisterAllocator.thy ===== *)
theory RegisterAllocator
  imports Liveness "HOL-Library.Product_Lexorder"
begin

text \<open>
  Registers for the variables of a worker: \<^verbatim>\<open>SpreadRegisters\<close> in
  \<^verbatim>\<open>src/codegen/registerAllocator.hpp\<close>. The conflict graph is coloured in the order of the degrees with
  random free colours; when there is none, variables are moved to memory, each use through a new temporary, and all
  starts again.

  Parameters: \<open>rnd\<close>, the number that \<^verbatim>\<open>rand\<close> gives for a node in a round, and \<open>cost\<close>, the value
  by which the floating-point heuristic orders the variables that may be moved. Where the code goes through an
  unordered table, the order here is that of the list \<open>nodes\<close>.
\<close>

section \<open>Colouring\<close>

definition registersCount :: nat where "registersCount = 9"

fun find_from :: "nat \<Rightarrow> nat \<Rightarrow> bool list \<Rightarrow> nat option" where
  "find_from i cnt [] = None"
| "find_from i cnt (b # bs) = (let cnt = cnt - (if b then 0 else 1) in if cnt = 0 then Some i else find_from (i + 1) cnt bs)"

definition FindRandom :: "nat \<Rightarrow> bool list \<Rightarrow> nat option" where
  "FindRandom r arr =
     (let cnt = length (filter (\<lambda>b. \<not> b) arr) in if cnt = 0 then None else find_from 0 (1 + r mod cnt) arr)"

definition colours_around :: "conflicts \<Rightarrow> (i64 \<rightharpoonup> nat) \<Rightarrow> i64 \<Rightarrow> bool list" where
  "colours_around g res v = map (\<lambda>c. \<exists>i \<in> set (overlaps g v). res i = Some c) [0..<registersCount]"

fun colour_all :: "(i64 \<Rightarrow> nat) \<Rightarrow> conflicts \<Rightarrow> i64 list \<Rightarrow> (i64 \<rightharpoonup> nat) \<Rightarrow> (i64 \<rightharpoonup> nat) option" where
  "colour_all rnd g [] res = Some res"
| "colour_all rnd g (v # vs) res =
     (if res v \<noteq> None then colour_all rnd g vs res
      else case FindRandom (rnd v) (colours_around g res v) of None \<Rightarrow> None | Some c \<Rightarrow> colour_all rnd g vs (res(v \<mapsto> c)))"

text \<open>The nodes with the most neighbours first.\<close>

definition colour_order :: "conflicts \<Rightarrow> i64 list" where
  "colour_order g = sort_key (\<lambda>v. (- int (length (overlaps g v)), sint v)) (nodes g)"

definition colour :: "(i64 \<Rightarrow> nat) \<Rightarrow> conflicts \<Rightarrow> (i64 \<rightharpoonup> nat) option" where
  "colour rnd g = colour_all rnd g (colour_order g) Map.empty"

section \<open>Moving a variable to memory\<close>

text \<open>One operation that uses the variable: a temporary is loaded before it and stored after it.\<close>

definition split_op :: "i64 \<Rightarrow> nat \<Rightarrow> worker \<Rightarrow> (worker \<times> i64) option" where
  "split_op v n w =
     do { reads \<leftarrow> getReadVariables (op_of (heap w n));
          writed \<leftarrow> getWritedVariables (op_of (heap w n));
          let sp = code_span (heap w n);
          let (w, t) = newTemp w (wk_variables w v);
          let w = (if v \<in> set reads then connectBeforeOp (Some n) (op_block OP_LOAD [t, v] sp) w else w);
          w \<leftarrow> connectOp (Some n) (op_block OP_FREE_TEMP [t] sp) w;
          w \<leftarrow> (if IS_JUMP (op_type (op_of (heap w n))) then connectOpSecond (Some n) (op_block OP_FREE_TEMP [t] sp) w else Some w);
          w \<leftarrow> (if v \<in> set writed then connectOp (Some n) (op_block OP_STORE [t, v] sp) w else Some w);
          op \<leftarrow> applyNamesTranslition [v \<mapsto> t] (op_of (heap w n));
          Some (w\<lparr>heap := set_block n (\<lambda>b. b\<lparr>op_of := op\<rparr>) (heap w)\<rparr>, t) }"

text \<open>The loop runs over the operations, also over those that it adds at the end.\<close>

fun SplitVariable_from :: "nat \<Rightarrow> i64 \<Rightarrow> nat \<Rightarrow> worker \<Rightarrow> i64 list \<Rightarrow> (worker \<times> i64 list) option" where
  "SplitVariable_from k v i w gen =
     (if length (wk_code w) \<le> i then Some (w, gen)
      else case k of 0 \<Rightarrow> None
        | Suc k \<Rightarrow>
            do { us \<leftarrow> getUsedVariables (op_of (heap w (wk_code w ! i)));
                 if v \<in> set us then
                   do { (w, t) \<leftarrow> split_op v (wk_code w ! i) w; SplitVariable_from k v (i + 1) w (t # gen) }
                 else SplitVariable_from k v (i + 1) w gen })"

declare SplitVariable_from.simps [simp del]

definition SplitVariable :: "nat \<Rightarrow> i64 \<Rightarrow> worker \<times> i64 list \<Rightarrow> (worker \<times> i64 list) option" where
  "SplitVariable fuel v s = SplitVariable_from fuel v 0 (fst s) (snd s)"

fun split_all :: "nat \<Rightarrow> i64 list \<Rightarrow> worker \<times> i64 list \<Rightarrow> (worker \<times> i64 list) option" where
  "split_all fuel [] s = Some s"
| "split_all fuel (v # vs) s = Option.bind (SplitVariable fuel v s) (split_all fuel vs)"

section \<open>Rounds\<close>

datatype round_result = Coloured "i64 \<rightharpoonup> nat" | Again worker "i64 list" | NoVariables

definition candidates :: "(i64 \<Rightarrow> int) \<Rightarrow> conflicts \<Rightarrow> i64 list \<Rightarrow> i64 list" where
  "candidates cost g gen = sort_key (\<lambda>v. (cost v, sint v)) (filter (\<lambda>v. v \<notin> set gen) (nodes g))"

definition trySpreadRegisters :: "nat \<Rightarrow> (i64 \<Rightarrow> nat) \<Rightarrow> (i64 \<Rightarrow> int) \<Rightarrow> conflicts \<Rightarrow> worker \<Rightarrow> i64 list \<Rightarrow> round_result option" where
  "trySpreadRegisters fuel rnd cost g w gen =
     (case colour rnd g of
        Some res \<Rightarrow> Some (Coloured res)
      | None \<Rightarrow>
          let vs = candidates cost g gen; split_cnt = max 1 (length vs div 4 - registersCount) in
          if vs = [] then Some NoVariables
          else map_option (\<lambda>(w, gen). Again w gen) (split_all fuel (take split_cnt vs) (w, gen)))"

text \<open>
  After fifty rounds everything is moved to memory that is not a temporary of the allocator. \<open>Inr\<close> is the table of
  the registers with the worker they are for, \<open>Inl\<close> that the compiler gives up.
\<close>

fun spread_rounds :: "nat \<Rightarrow> (nat \<Rightarrow> i64 \<Rightarrow> nat) \<Rightarrow> (nat \<Rightarrow> i64 \<Rightarrow> int) \<Rightarrow> nat \<Rightarrow> worker \<Rightarrow> i64 list \<Rightarrow>
    (unit + (i64 \<rightharpoonup> nat) \<times> worker) option" where
  "spread_rounds 0 rnd cost iter w gen = None"
| "spread_rounds (Suc k) rnd cost iter w gen =
     do { g \<leftarrow> buildMainConflictGraph k w;
          r \<leftarrow> trySpreadRegisters k (rnd iter) (cost iter) g w gen;
          case r of
            Coloured res \<Rightarrow> Some (Inr (res, w))
          | NoVariables \<Rightarrow> Some (Inl ())
          | Again w gen \<Rightarrow>
              (if 50 < iter then
                 do { (w, gen) \<leftarrow> split_all k (filter (\<lambda>v. v \<notin> set gen) (nodes g)) (w, gen); spread_rounds k rnd cost (iter + 1) w gen }
               else spread_rounds k rnd cost (iter + 1) w gen) }"

definition spreadRegisters :: "nat \<Rightarrow> (nat \<Rightarrow> i64 \<Rightarrow> nat) \<Rightarrow> (nat \<Rightarrow> i64 \<Rightarrow> int) \<Rightarrow> worker \<Rightarrow> (unit + (i64 \<rightharpoonup> nat) \<times> worker) option" where
  "spreadRegisters fuel rnd cost w = spread_rounds fuel rnd cost 1 w []"

end
