(* ===== verification/RegisterAllocatorCorrect.thy ===== *)
theory RegisterAllocatorCorrect
  imports RegisterAllocator
begin

text \<open>
  The allocation of registers ends, and variables that are alive at the same operation get different registers unless
  one is the result and the other an operand whose life ends.
\<close>

section \<open>Colouring\<close>

lemma find_from_free: "find_from i cnt bs = Some c \<Longrightarrow> 0 < cnt \<Longrightarrow> i \<le> c \<and> c < i + length bs \<and> \<not> bs ! (c - i)"
proof (induction i cnt bs rule: find_from.induct)
  case (2 i cnt b bs)
  let ?cnt = "cnt - (if b then 0 else 1)"
  show ?case
  proof (cases "?cnt = 0")
    case True
    then show ?thesis using "2.prems" by (auto split: if_splits)
  next
    case False
    then have "i + 1 \<le> c \<and> c < i + 1 + length bs \<and> \<not> bs ! (c - (i + 1))" using "2.IH" [of ?cnt] "2.prems"(1) by (simp add: Let_def split: if_splits)
    moreover from this have "c - i = Suc (c - (i + 1))" by arith
    ultimately show ?thesis by simp
  qed
qed simp

lemma find_from_some: "0 < cnt \<Longrightarrow> cnt \<le> length (filter (\<lambda>b. \<not> b) bs) \<Longrightarrow> \<exists>c. find_from i cnt bs = Some c"
proof (induction i cnt bs rule: find_from.induct)
  case (2 i cnt b bs)
  then show ?case by (cases b; cases "cnt = 1") (auto simp: Let_def)
qed simp

lemma FindRandom_free:
  assumes "FindRandom r bs = Some c"
  shows "c < length bs" "\<not> bs ! c"
  using assms find_from_free [of 0 _ bs c] by (auto simp: FindRandom_def Let_def split: if_splits)

lemma FindRandom_none: "FindRandom r bs = None \<Longrightarrow> b \<in> set bs \<Longrightarrow> b"
proof (rule ccontr)
  assume none: "FindRandom r bs = None" and b: "b \<in> set bs" "\<not> b"
  then have "0 < length (filter (\<lambda>b. \<not> b) bs)" by (auto simp: filter_empty_conv)
  then have "\<exists>c. find_from 0 (1 + r mod length (filter (\<lambda>b. \<not> b) bs)) bs = Some c"
    by (intro find_from_some) (auto simp: Suc_le_eq)
  then show False using none \<open>0 < length _\<close> by (auto simp: FindRandom_def Let_def)
qed

definition proper :: "conflicts \<Rightarrow> (i64 \<rightharpoonup> nat) \<Rightarrow> bool" where
  "proper g res \<longleftrightarrow> (\<forall>v c. res v = Some c \<longrightarrow> c < registersCount \<and> (\<forall>u \<in> set (overlaps g v). res u \<noteq> Some c))"

definition symmetric :: "conflicts \<Rightarrow> bool" where
  "symmetric g \<longleftrightarrow> (\<forall>u v. u \<in> set (overlaps g v) \<longrightarrow> v \<in> set (overlaps g u) \<and> u \<noteq> v)"

lemma colour_step:
  assumes "symmetric g" "proper g res" "res v = None" "FindRandom r (colours_around g res v) = Some c"
  shows "proper g (res(v \<mapsto> c))"
proof -
  have c: "c < registersCount" "\<forall>u \<in> set (overlaps g v). res u \<noteq> Some c"
    using FindRandom_free [OF assms(4)] by (auto simp: colours_around_def)
  then show ?thesis using assms(1,2) by (fastforce simp: proper_def symmetric_def)
qed

lemma colour_all_proper:
  "symmetric g \<Longrightarrow> proper g res \<Longrightarrow> colour_all rnd g vs res = Some res' \<Longrightarrow> proper g res' \<and> dom res' = dom res \<union> set vs"
proof (induction rnd g vs res rule: colour_all.induct)
  case (2 rnd g v vs res)
  show ?case
  proof (cases "res v = None")
    case True
    then obtain c where c: "FindRandom (rnd v) (colours_around g res v) = Some c" "colour_all rnd g vs (res(v \<mapsto> c)) = Some res'"
      using "2.prems"(3) by (auto split: option.splits)
    show ?thesis using "2.IH"(2) [OF _ c(1) "2.prems"(1) colour_step [OF "2.prems"(1,2) True c(1)] c(2)] True by auto
  next
    case False
    then show ?thesis using "2.IH"(1) "2.prems" by (auto simp: insert_absorb)
  qed
qed simp

lemma colour_proper:
  assumes "symmetric g" "colour rnd g = Some res"
  shows "proper g res" "dom res = set (nodes g)"
  using colour_all_proper [OF assms(1), of Map.empty rnd "colour_order g" res] assms(2)
  by (auto simp: colour_def proper_def colour_order_def)

text \<open>A colour is found when every node has fewer neighbours than there are registers.\<close>

lemma colour_all_some:
  "\<forall>v \<in> set vs. length (overlaps g v) < registersCount \<Longrightarrow> \<exists>res'. colour_all rnd g vs res = Some res'"
proof (induction vs arbitrary: res)
  case (Cons v vs)
  have "FindRandom r (colours_around g res v) \<noteq> None" for r
  proof
    assume "FindRandom r (colours_around g res v) = None"
    then have taken: "\<forall>b \<in> set (colours_around g res v). b" using FindRandom_none by blast
    have "\<exists>i \<in> set (overlaps g v). res i = Some c" if "c < registersCount" for c
    proof -
      have "(\<exists>i \<in> set (overlaps g v). res i = Some c) \<in> set (colours_around g res v)"
        using that by (auto simp: colours_around_def)
      then show ?thesis using taken by blast
    qed
    then have "Some ` {..<registersCount} \<subseteq> res ` set (overlaps g v)" by (metis (no_types, lifting) image_eqI image_subsetI lessThan_iff)
    then have "card (Some ` {..<registersCount}) \<le> card (set (overlaps g v))" by (rule surj_card_le [OF finite_set])
    then have "registersCount \<le> length (overlaps g v)"
      using card_length [of "overlaps g v"] by (simp add: card_image)
    then show False using Cons.prems by auto
  qed
  then obtain c where "FindRandom (rnd v) (colours_around g res v) = Some c" by blast
  then show ?case using Cons by simp
qed simp

section \<open>Variables alive at the same operation\<close>

lemma may_share_commute: "may_share fuel w n i j \<longleftrightarrow> may_share fuel w n j i"
  by (auto simp: may_share_def shares_def)

text \<open>The register of every variable, and which variables may have the same one.\<close>

definition registers_apart :: "nat \<Rightarrow> worker \<Rightarrow> (i64 \<rightharpoonup> nat) \<Rightarrow> bool" where
  "registers_apart fuel w res \<longleftrightarrow>
     dom res = {v. \<exists>n \<in> set (wk_code w). alive w v n} \<and> (\<forall>v r. res v = Some r \<longrightarrow> r < registersCount) \<and>
     (\<forall>n \<in> set (wk_code w). \<forall>i j. alive w i n \<longrightarrow> alive w j n \<longrightarrow> i \<noteq> j \<longrightarrow> res i = res j \<longrightarrow> may_share fuel w n i j)"

lemma graph_registers:
  assumes "worker_ok w" "worker_formed w" "live_bound w \<le> fuel" "frees_end fuel w"
  obtains g where "buildMainConflictGraph fuel w = Some g" "set (nodes g) = {v. \<exists>n \<in> set (wk_code w). alive w v n}"
    "\<And>rnd res. colour rnd g = Some res \<Longrightarrow> registers_apart fuel w res"
    "\<And>rnd. \<forall>v \<in> set (nodes g). length (overlaps g v) < registersCount \<Longrightarrow> \<exists>res. colour rnd g = Some res"
proof -
  obtain g where g: "buildMainConflictGraph fuel w = Some g" "set (nodes g) = {v. \<exists>n \<in> set (wk_code w). alive w v n}"
    and ov: "\<And>i j. j \<in> set (overlaps g i) \<longleftrightarrow> (\<exists>n \<in> set (wk_code w). alive w i n \<and> alive w j n \<and> i \<noteq> j \<and> \<not> may_share fuel w n i j)"
    by (rule conflict_graph [OF assms]) blast
  have sym: "symmetric g" unfolding symmetric_def ov using may_share_commute by blast
  have apart: "registers_apart fuel w res" if c: "colour rnd g = Some res" for rnd res
  proof -
    note p = colour_proper [OF sym c]
    have "may_share fuel w n i j" if h: "n \<in> set (wk_code w)" "alive w i n" "alive w j n" "i \<noteq> j" "res i = res j" for n i j
    proof (rule ccontr)
      assume "\<not> may_share fuel w n i j"
      then have "j \<in> set (overlaps g i)" unfolding ov using h by blast
      moreover obtain c where "res i = Some c" using p(2) g(2) h(1,2) by blast
      ultimately show False using p(1) h(5) unfolding proper_def by metis
    qed
    then show ?thesis using p g(2) unfolding registers_apart_def proper_def by blast
  qed
  have "\<exists>res. colour rnd g = Some res" if "\<forall>v \<in> set (nodes g). length (overlaps g v) < registersCount" for rnd
    unfolding colour_def by (rule colour_all_some) (use that in \<open>simp add: colour_order_def\<close>)
  then show thesis using that g apart by blast
qed

end
