(* ===== verification/Splitting.thy ===== *)
theory Splitting
  imports Editing RegisterAllocatorCorrect
begin

text \<open>
  What becomes of the graph of a worker when an operation gets a temporary in place of a variable that moves to memory
  (\<^verbatim>\<open>SplitVariable\<close> in \<^verbatim>\<open>src/codegen/registerAllocator.hpp\<close>).
\<close>

section \<open>Straight pieces of code\<close>

text \<open>The operations \<open>ops\<close>, at places in \<open>A\<close>, lead from \<open>s\<close> to \<open>s'\<close>.\<close>

inductive flows :: "worker \<Rightarrow> nat set \<Rightarrow> nat option \<Rightarrow> OperationBlock list \<Rightarrow> nat option \<Rightarrow> bool" for w A where
  flows_none: "flows w A s [] s"
| flows_op: "m \<in> A \<Longrightarrow> nexts (heap w m) = [s1] \<Longrightarrow> op_of (heap w m) = op \<Longrightarrow> flows w A s1 ops s' \<Longrightarrow> flows w A (Some m) (op # ops) s'"

inductive_simps flows_Nil [simp]: "flows w A s [] s'"

lemma flows_cong:
  assumes "flows w A s ops s'" "A \<subseteq> B" "\<And>m. m \<in> A \<Longrightarrow> nexts (heap w' m) = nexts (heap w m) \<and> op_of (heap w' m) = op_of (heap w m)"
  shows "flows w' B s ops s'"
  using assms(1)
proof induction
  case (flows_op m s1 op ops s')
  then show ?case using assms(2,3) by (intro flows.flows_op) auto
qed (rule flows_none)

text \<open>A chain of operations that end lives has an end: the numbers go down along it.\<close>

definition is_free :: "worker \<Rightarrow> nat \<Rightarrow> bool" where "is_free w n \<longleftrightarrow> op_type (op_of (heap w n)) = OP_FREE_TEMP"

definition ranked :: "(nat \<Rightarrow> nat) \<Rightarrow> worker \<Rightarrow> bool" where
  "ranked r w \<longleftrightarrow> (\<forall>n \<in> set (wk_code w). is_free w n \<longrightarrow> (\<forall>b. hd (nexts (heap w n)) = Some b \<longrightarrow> is_free w b \<longrightarrow> r b < r n))"

definition frees_finite :: "worker \<Rightarrow> bool" where "frees_finite w \<longleftrightarrow> (\<exists>r. ranked r w)"

lemma frees_before:
  assumes w: "linked w" "n \<in> set (wk_code w)" "t \<noteq> OP_FREE_TEMP" and f: "frees_finite w"
  shows "frees_finite (connectBeforeOp (Some n) (op_block t d sp) w)"
proof -
  define w' where "w' = connectBeforeOp (Some n) (op_block t d sp) w"
  let ?n = "fresh w"
  note c = connectBeforeOp_facts [OF w(1,2) w'_def]
  obtain r where r: "ranked r w" using f by (auto simp: frees_finite_def)
  have new: "\<not> is_free w' ?n" using w(3) by (simp add: is_free_def c)
  have "r b < r a" if h: "a \<in> set (wk_code w')" "is_free w' a" "hd (nexts (heap w' a)) = Some b" "is_free w' b" for a b
  proof -
    have a: "a \<in> set (wk_code w)" "a \<noteq> ?n" "b \<noteq> ?n" using h new by (auto simp: c(1))
    have "nexts (heap w a) \<noteq> []" by (rule linkedD(2) [OF w(1) a(1)])
    then have "hd (nexts (heap w a)) = Some b" using h(3) a(3) by (simp add: c(10) [OF a(1)] hd_map split: if_splits)
    moreover have "is_free w a" "is_free w b" using h(2,4) a(2,3) c(9) by (simp_all add: is_free_def)
    ultimately show ?thesis using r a(1) unfolding ranked_def by blast
  qed
  then show ?thesis unfolding frees_finite_def ranked_def w'_def by blast
qed

lemma frees_behind:
  assumes w: "linked w" "n \<in> set (wk_code w)" "k < length (nexts (heap w n))" and f: "frees_finite w"
    and c: "connect_at k n (op_block t d sp) w = Some w'"
  shows "frees_finite w'"
proof -
  let ?n = "fresh w"
  let ?s = "nexts (heap w n) ! k"
  obtain w2 where w2: "connect_at k n (op_block t d sp) w = Some w2" "wk_code w2 = wk_code w @ [?n]" "nexts (heap w2 ?n) = [?s]"
    "\<And>m. m \<noteq> ?n \<Longrightarrow> op_of (heap w2 m) = op_of (heap w m)"
    "\<And>m. m \<noteq> ?n \<Longrightarrow> nexts (heap w2 m) = (if m = n then (nexts (heap w n))[k := Some ?n] else nexts (heap w m))"
    by (rule connect_at_facts [OF w, of t d sp]) blast
  have w': "w' = w2" using c w2(1) by simp
  obtain r where r: "ranked r w" using f by (auto simp: frees_finite_def)
  have old: "m \<noteq> ?n" if "m \<in> set (wk_code w)" for m using linkedD(1) [OF w(1) that] by auto
  have succ: "b \<in> set (wk_code w)" if "hd (nexts (heap w a)) = Some b" "a \<in> set (wk_code w)" for a b
    using linkedD(2,4) [OF w(1) that(2)] that(1) by (metis list.set_sel(1))
  have target: "b \<in> set (wk_code w)" if "?s = Some b" for b using linkedD(4) [OF w(1,2)] w(3) that by (metis nth_mem)
  have free: "is_free w2 m \<longleftrightarrow> is_free w m" if "m \<noteq> ?n" for m using w2(4) [OF that] by (simp add: is_free_def)
  define r' where "r' m = (if m = ?n then (case ?s of None \<Rightarrow> 0 | Some b \<Rightarrow> if is_free w b then 2 * r b + 2 else 0) else 2 * r m + 1)" for m
  have "r' b < r' a" if h: "a \<in> set (wk_code w2)" "is_free w2 a" "hd (nexts (heap w2 a)) = Some b" "is_free w2 b" for a b
  proof (cases "a = ?n")
    case True
    then have "?s = Some b" using h(3) by (simp add: w2(3))
    then show ?thesis using True h(4) old [OF target] free by (simp add: r'_def)
  next
    case a: False
    then have aw: "a \<in> set (wk_code w)" "is_free w a" using h(1,2) free by (auto simp: w2(2))
    have edge: "r b' < r a" if "hd (nexts (heap w a)) = Some b'" "is_free w b'" for b' using r aw that unfolding ranked_def by blast
    show ?thesis
    proof (cases "a = n \<and> k = 0")
      case True
      then have "nexts (heap w2 a) = (nexts (heap w n))[0 := Some ?n]" using w2(5) [OF a] by simp
      then have "b = ?n" using h(3) w(3) True by (cases "nexts (heap w n)") auto
      moreover have "?s = hd (nexts (heap w a))" using True w(3) by (simp add: hd_conv_nth)
      ultimately show ?thesis using edge a by (auto simp: r'_def split: option.splits)
    next
      case False
      have "nexts (heap w a) \<noteq> []" by (rule linkedD(2) [OF w(1) aw(1)])
      then have hd: "hd (nexts (heap w a)) = Some b" using h(3) False by (auto simp: w2(5) [OF a] hd_conv_nth split: if_splits)
      then show ?thesis using edge [OF hd] old [OF succ [OF hd aw(1)]] free h(4) a by (simp add: r'_def)
    qed
  qed
  then show ?thesis unfolding frees_finite_def ranked_def w' by blast
qed

text \<open>Code that has been put before the operation \<open>n\<close>, and behind it on the way to its \<open>k\<close>-th successor.\<close>

definition added :: "worker \<Rightarrow> worker \<Rightarrow> nat set" where "added w w' = set (wk_code w') - set (wk_code w)"

definition arrives :: "worker \<Rightarrow> nat \<Rightarrow> OperationBlock list \<Rightarrow> worker \<Rightarrow> nat option \<Rightarrow> nat option \<Rightarrow> bool" where
  "arrives w n before w' x y \<longleftrightarrow> (if x = Some n then flows w' (added w w') y before (Some n) else y = x)"

definition spliced :: "worker \<Rightarrow> nat \<Rightarrow> OperationBlock list \<Rightarrow> (nat \<Rightarrow> OperationBlock list) \<Rightarrow> worker \<Rightarrow> bool" where
  "spliced w n before behind w' \<longleftrightarrow>
     linked w' \<and> (frees_finite w \<longrightarrow> frees_finite w') \<and> (\<exists>new. wk_code w' = wk_code w @ new) \<and> wk_variables w' = wk_variables w \<and> nextTempId w' = nextTempId w \<and>
     (\<forall>m \<in> set (wk_code w). op_of (heap w' m) = op_of (heap w m)) \<and>
     arrives w n before w' (wk_entry w) (wk_entry w') \<and>
     (\<forall>m \<in> set (wk_code w). m \<noteq> n \<longrightarrow> list_all2 (arrives w n before w') (nexts (heap w m)) (nexts (heap w' m))) \<and>
     length (nexts (heap w' n)) = length (nexts (heap w n)) \<and>
     (\<forall>k < length (nexts (heap w n)). \<exists>y. flows w' (added w w') (nexts (heap w' n) ! k) (behind k) y \<and>
        arrives w n before w' (nexts (heap w n) ! k) y) \<and>
     (\<forall>m \<in> added w w'. length (nexts (heap w' m)) = 1 \<and> op_of (heap w' m) \<in> set before \<union> (\<Union>k. set (behind k)))"

lemma splicedD:
  assumes "spliced w n before behind w'"
  shows "linked w'" "set (wk_code w) \<subseteq> set (wk_code w')" "wk_variables w' = wk_variables w" "nextTempId w' = nextTempId w"
    "\<And>m. m \<in> set (wk_code w) \<Longrightarrow> op_of (heap w' m) = op_of (heap w m)" "arrives w n before w' (wk_entry w) (wk_entry w')"
    "\<And>m. m \<in> set (wk_code w) \<Longrightarrow> m \<noteq> n \<Longrightarrow> list_all2 (arrives w n before w') (nexts (heap w m)) (nexts (heap w' m))"
    "length (nexts (heap w' n)) = length (nexts (heap w n))"
    "\<And>k. k < length (nexts (heap w n)) \<Longrightarrow> \<exists>y. flows w' (added w w') (nexts (heap w' n) ! k) (behind k) y \<and>
        arrives w n before w' (nexts (heap w n) ! k) y"
    "\<And>m. m \<in> added w w' \<Longrightarrow> length (nexts (heap w' m)) = 1 \<and> op_of (heap w' m) \<in> set before \<union> (\<Union>k. set (behind k))"
    "\<exists>new. wk_code w' = wk_code w @ new" "frees_finite w \<Longrightarrow> frees_finite w'"
  using assms unfolding spliced_def by auto

lemma arrives_same: "arrives w n [] w' = (=)"
  by (auto simp: arrives_def fun_eq_iff)

lemma spliced_none: "linked w \<Longrightarrow> spliced w n [] (\<lambda>_. []) w"
  by (simp add: spliced_def arrives_same added_def list.rel_eq)

definition plain_op :: "OperationType \<Rightarrow> i64 list \<Rightarrow> OperationBlock" where
  "plain_op t d = \<lparr>op_type = t, op_data = d, op_attributes = []\<rparr>"

lemma spliced_before:
  assumes w: "linked w" "n \<in> set (wk_code w)" and t: "t \<noteq> OP_FREE_TEMP"
  shows "spliced w n [plain_op t d] (\<lambda>_. []) (connectBeforeOp (Some n) (op_block t d sp) w)"
proof -
  define w' where "w' = connectBeforeOp (Some n) (op_block t d sp) w"
  let ?n = "fresh w"
  note f = connectBeforeOp_facts [OF w w'_def]
  have old: "m \<noteq> ?n" if "m \<in> set (wk_code w)" for m using linkedD(1) [OF w(1) that] by auto
  have A: "added w w' = {?n}" using old by (auto simp: added_def f)
  have "flows w' (added w w') (Some ?n) [plain_op t d] (Some n)"
    by (rule flows_op [OF _ f(7) _ flows_none]) (simp_all add: A f plain_op_def)
  then have arr: "arrives w n [plain_op t d] w' x (if x = Some n then Some ?n else x)" for x by (simp add: arrives_def)
  have "spliced w n [plain_op t d] (\<lambda>_. []) w'"
    unfolding spliced_def
  proof (intro conjI ballI impI allI)
    show "linked w'" unfolding w'_def by (rule connectBeforeOp_linked [OF w])
    show "frees_finite w'" if "frees_finite w" unfolding w'_def by (rule frees_before [OF w t that])
    show "\<exists>new. wk_code w' = wk_code w @ new" by (simp add: f)
    show "op_of (heap w' m) = op_of (heap w m)" if "m \<in> set (wk_code w)" for m using f(9) old [OF that] .
    show "arrives w n [plain_op t d] w' (wk_entry w) (wk_entry w')" using arr [of "wk_entry w"] by (simp add: f)
    show "list_all2 (arrives w n [plain_op t d] w') (nexts (heap w m)) (nexts (heap w' m))" if "m \<in> set (wk_code w)" for m
      unfolding f(10) [OF that] list_all2_map2 by (rule list.rel_refl) (rule arr)
    show "length (nexts (heap w' n)) = length (nexts (heap w n))" by (simp add: f(10) [OF w(2)])
    show "\<exists>y. flows w' (added w w') (nexts (heap w' n) ! k) [] y \<and> arrives w n [plain_op t d] w' (nexts (heap w n) ! k) y"
      if "k < length (nexts (heap w n))" for k
      using arr [of "nexts (heap w n) ! k"] that by (simp add: f(10) [OF w(2)])
    show "length (nexts (heap w' m)) = 1" "op_of (heap w' m) \<in> set [plain_op t d] \<union> (\<Union>k. set [])" if "m \<in> added w w'" for m
      using that by (simp_all add: A f plain_op_def)
  qed (simp_all add: f)
  then show ?thesis by (simp add: w'_def)
qed

lemma spliced_behind:
  assumes s: "spliced w n before behind w1" and n: "n \<in> set (wk_code w)" and k: "k < length (nexts (heap w n))"
  obtains w2 where "connect_at k n (op_block t d sp) w1 = Some w2" "spliced w n before (behind(k := plain_op t d # behind k)) w2"
proof -
  let ?n = "fresh w1"
  note d = splicedD [OF s]
  have n1: "n \<in> set (wk_code w1)" "k < length (nexts (heap w1 n))" using n k d(2,8) by auto
  obtain w2 where w2: "connect_at k n (op_block t d sp) w1 = Some w2" "wk_code w2 = wk_code w1 @ [?n]"
    "wk_entry w2 = wk_entry w1" "wk_variables w2 = wk_variables w1" "nextTempId w2 = nextTempId w1"
    "op_of (heap w2 ?n) = plain_op t d" "nexts (heap w2 ?n) = [nexts (heap w1 n) ! k]"
    "\<And>m. m \<noteq> ?n \<Longrightarrow> op_of (heap w2 m) = op_of (heap w1 m)"
    "\<And>m. m \<noteq> ?n \<Longrightarrow> nexts (heap w2 m) = (if m = n then (nexts (heap w1 n))[k := Some ?n] else nexts (heap w1 m))"
    unfolding plain_op_def by (rule connect_at_facts [OF d(1) n1, of t d sp]) blast
  have old: "m \<noteq> ?n" if "m \<in> set (wk_code w1)" for m using linkedD(1) [OF d(1) that] by auto
  have A: "added w w2 = insert ?n (added w w1)" using old d(2) by (auto simp: added_def w2(2))
  have inside: "m \<noteq> ?n" "m \<noteq> n" "m \<in> set (wk_code w1)" if "m \<in> added w w1" for m using that old n by (auto simp: added_def)
  have flow: "flows w2 (added w w2) x ops y" if "flows w1 (added w w1) x ops y" for x ops y
    by (rule flows_cong [OF that]) (use inside in \<open>auto simp: A w2(8,9)\<close>)
  then have arr: "arrives w n before w2 x y" if "arrives w n before w1 x y" for x y
    using that by (auto simp: arrives_def split: if_splits)
  have "spliced w n before (behind(k := plain_op t d # behind k)) w2"
    unfolding spliced_def
  proof (intro conjI ballI impI allI)
    show "linked w2" by (rule connect_at_linked [OF d(1) n1 w2(1)])
    show "frees_finite w2" if "frees_finite w" by (rule frees_behind [OF d(1) n1 d(12) [OF that] w2(1)])
    show "\<exists>new. wk_code w2 = wk_code w @ new" using d(11) by (auto simp: w2(2))
    show "op_of (heap w2 m) = op_of (heap w m)" if "m \<in> set (wk_code w)" for m using w2(8) old d(2,5) that by auto
    show "arrives w n before w2 (wk_entry w) (wk_entry w2)" using arr d(6) by (simp add: w2(3))
    show "list_all2 (arrives w n before w2) (nexts (heap w m)) (nexts (heap w2 m))" if "m \<in> set (wk_code w)" "m \<noteq> n" for m
    proof -
      have "nexts (heap w2 m) = nexts (heap w1 m)" using w2(9) [of m] old d(2) that by auto
      then show ?thesis using list_all2_mono [OF d(7) [OF that]] arr by auto
    qed
    have nx: "nexts (heap w2 n) = (nexts (heap w1 n))[k := Some ?n]" using w2(9) [of n] old n1(1) by auto
    show "length (nexts (heap w2 n)) = length (nexts (heap w n))" using d(8) by (simp add: nx)
    show "\<exists>y. flows w2 (added w w2) (nexts (heap w2 n) ! j) ((behind(k := plain_op t d # behind k)) j) y \<and> arrives w n before w2 (nexts (heap w n) ! j) y"
      if j: "j < length (nexts (heap w n))" for j
    proof -
      obtain y where y: "flows w1 (added w w1) (nexts (heap w1 n) ! j) (behind j) y" "arrives w n before w1 (nexts (heap w n) ! j) y"
        using d(9) [OF j] by blast
      show ?thesis
      proof (cases "j = k")
        case True
        have "flows w2 (added w w2) (Some ?n) (plain_op t d # behind k) y"
          by (rule flows_op [OF _ w2(7,6)]) (use y(1) True flow in \<open>auto simp: A\<close>)
        then show ?thesis using True y(2) arr n1(2) by (auto simp: nx)
      next
        case False
        then show ?thesis using flow [OF y(1)] arr [OF y(2)] by (auto simp: nx)
      qed
    qed
    show "length (nexts (heap w2 m)) = 1" "op_of (heap w2 m) \<in> set before \<union> (\<Union>j. set ((behind(k := plain_op t d # behind k)) j))"
      if m: "m \<in> added w w2" for m
    proof -
      have "length (nexts (heap w2 m)) = 1 \<and> (op_of (heap w2 m) = plain_op t d \<or> op_of (heap w2 m) \<in> set before \<union> (\<Union>j. set (behind j)))"
      proof (cases "m = ?n")
        case False
        then have "m \<in> added w w1" using m by (simp add: A)
        then show ?thesis using d(10) inside w2(8,9) by auto
      qed (simp add: w2(6,7))
      then show "length (nexts (heap w2 m)) = 1" "op_of (heap w2 m) \<in> set before \<union> (\<Union>j. set ((behind(k := plain_op t d # behind k)) j))"
        by (auto split: if_splits)
    qed
  qed (use d(3,4) w2(4,5) in simp_all)
  then show thesis using that w2(1) by blast
qed

section \<open>One operation\<close>

text \<open>
  Conditional jumps have two successors and all other operations one; jumps without a condition have been removed; the end
  of a life mentions one variable.
\<close>

definition regular :: "worker \<Rightarrow> bool" where
  "regular w \<longleftrightarrow> (\<forall>n \<in> set (wk_code w). let op = op_of (heap w n) in
     op_formed op \<and> op_type op \<noteq> OP_JMP \<and> (op_type op = OP_FREE_TEMP \<longrightarrow> attribute_variables op = []) \<and>
     length (nexts (heap w n)) = (if IS_JUMP (op_type op) then 2 else 1))"

lemma regularD:
  assumes "regular w" "n \<in> set (wk_code w)"
  shows "op_formed (op_of (heap w n))" "op_type (op_of (heap w n)) \<noteq> OP_JMP"
    "op_type (op_of (heap w n)) = OP_FREE_TEMP \<Longrightarrow> attribute_variables (op_of (heap w n)) = []"
    "length (nexts (heap w n)) = (if IS_JUMP (op_type (op_of (heap w n))) then 2 else 1)"
  using assms by (auto simp: regular_def Let_def)

definition loads_and_stores :: "OperationType set" where "loads_and_stores = {OP_LOAD, OP_STORE}"

text \<open>What comes before and behind the operation when it uses \<open>t\<close> in place of \<open>v\<close>.\<close>

definition loads :: "i64 \<Rightarrow> i64 \<Rightarrow> OperationBlock \<Rightarrow> OperationBlock list" where
  "loads v t op = (if v \<in> set (the (getReadVariables op)) then [plain_op OP_LOAD [t, v]] else [])"

definition stores :: "i64 \<Rightarrow> i64 \<Rightarrow> OperationBlock \<Rightarrow> nat \<Rightarrow> OperationBlock list" where
  "stores v t op k =
     (if k = 0 then (if v \<in> set (the (getWritedVariables op)) then [plain_op OP_STORE [t, v]] else []) @ [plain_op OP_FREE_TEMP [t]]
      else if k = 1 \<and> IS_JUMP (op_type op) then [plain_op OP_FREE_TEMP [t]] else [])"

lemma linked_temp: "linked (w\<lparr>wk_variables := x, nextTempId := y\<rparr>) = linked w"
  by (simp add: linked_def worker_ok_def links_ok_def)

lemma connectOp_Some: "connectOp (Some n) b w = connect_at 0 n b w" "connectOpSecond (Some n) b w = connect_at 1 n b w"
  by (simp_all add: connectOp_def connectOpSecond_def)

lemma split_op_spliced:
  assumes w: "linked w" "regular w" "n \<in> set (wk_code w)"
  obtains w1 op' where "spliced (fst (newTemp w (wk_variables w v))) n (loads v (nextTempId w) (op_of (heap w n)))
      (stores v (nextTempId w) (op_of (heap w n))) w1"
    "applyNamesTranslition [v \<mapsto> nextTempId w] (op_of (heap w n)) = Some op'" "renamed [v \<mapsto> nextTempId w] (op_of (heap w n)) op'"
    "split_op v n w = Some (w1\<lparr>heap := set_block n (\<lambda>b. b\<lparr>op_of := op'\<rparr>) (heap w1)\<rparr>, nextTempId w)"
proof -
  let ?op = "op_of (heap w n)"
  let ?t = "nextTempId w"
  let ?sp = "code_span (heap w n)"
  define w0 where "w0 = fst (newTemp w (wk_variables w v))"
  have w0: "linked w0" "wk_code w0 = wk_code w" "heap w0 = heap w" "newTemp w (wk_variables w v) = (w0, ?t)"
    using w(1) linked_temp by (simp_all add: w0_def newTemp_def)
  obtain rs ws where rs: "getReadVariables ?op = Some rs" "getWritedVariables ?op = Some ws" by (rule used_variables_formed [OF regularD(1) [OF w(2,3)]])
  obtain op' where op': "applyNamesTranslition [v \<mapsto> ?t] ?op = Some op'" "renamed [v \<mapsto> ?t] ?op op'"
    by (rule applyNamesTranslition_formed [OF regularD(1) [OF w(2,3)]])
  have len: "length (nexts (heap w n)) = (if IS_JUMP (op_type ?op) then 2 else 1)" by (rule regularD(4) [OF w(2,3)])
  have n0: "n \<in> set (wk_code w0)" and len0: "0 < length (nexts (heap w0 n))" "IS_JUMP (op_type ?op) \<Longrightarrow> 1 < length (nexts (heap w0 n))"
    using w(3) len by (simp_all add: w0(2,3))
  define w1 where "w1 = (if v \<in> set rs then connectBeforeOp (Some n) (op_block OP_LOAD [?t, v] ?sp) w0 else w0)"
  have s1: "spliced w0 n (loads v ?t ?op) (\<lambda>_. []) w1"
    using spliced_before [OF w0(1) n0] spliced_none [OF w0(1)] by (simp add: w1_def loads_def rs(1))
  obtain w2 where w2: "connect_at 0 n (op_block OP_FREE_TEMP [?t] ?sp) w1 = Some w2"
    and s2: "spliced w0 n (loads v ?t ?op) ((\<lambda>_. [])(0 := [plain_op OP_FREE_TEMP [?t]])) w2"
    by (rule spliced_behind [OF s1 n0 len0(1)])
  obtain w3 where w3: "(if IS_JUMP (op_type ?op) then connectOpSecond (Some n) (op_block OP_FREE_TEMP [?t] ?sp) w2 else Some w2) = Some w3"
    and s3: "spliced w0 n (loads v ?t ?op) (\<lambda>k. if k = 0 \<or> k = 1 \<and> IS_JUMP (op_type ?op) then [plain_op OP_FREE_TEMP [?t]] else []) w3"
  proof (cases "IS_JUMP (op_type ?op)")
    case True
    obtain x where x: "connect_at 1 n (op_block OP_FREE_TEMP [?t] ?sp) w2 = Some x"
      "spliced w0 n (loads v ?t ?op) (((\<lambda>_. [])(0 := [plain_op OP_FREE_TEMP [?t]]))
        (1 := plain_op OP_FREE_TEMP [?t] # ((\<lambda>_. [])(0 := [plain_op OP_FREE_TEMP [?t]])) (1 :: nat))) x"
      by (rule spliced_behind [OF s2 n0 len0(2) [OF True], where t = OP_FREE_TEMP and d = "[?t]" and sp = ?sp])
    have "((\<lambda>_. [])(0 := [plain_op OP_FREE_TEMP [?t]]))(1 := plain_op OP_FREE_TEMP [?t] # ((\<lambda>_. [])(0 := [plain_op OP_FREE_TEMP [?t]])) (1 :: nat)) =
        (\<lambda>k. if k = 0 \<or> k = 1 \<and> IS_JUMP (op_type ?op) then [plain_op OP_FREE_TEMP [?t]] else [])"
      using True by (auto simp: fun_eq_iff)
    from x(2) [unfolded this] show thesis by (rule that [rotated]) (use x(1) True in \<open>simp add: connectOp_Some\<close>)
  next
    case False
    have "(\<lambda>_. [])(0 := [plain_op OP_FREE_TEMP [?t]]) = (\<lambda>k. if k = 0 \<or> k = 1 \<and> IS_JUMP (op_type ?op) then [plain_op OP_FREE_TEMP [?t]] else [])"
      using False by (auto simp: fun_eq_iff)
    from s2 [unfolded this] show thesis by (rule that [rotated]) (use False in simp)
  qed
  obtain w4 where w4: "(if v \<in> set ws then connectOp (Some n) (op_block OP_STORE [?t, v] ?sp) w3 else Some w3) = Some w4"
    and s4: "spliced w0 n (loads v ?t ?op) (stores v ?t ?op) w4"
  proof (cases "v \<in> set ws")
    case True
    let ?free = "\<lambda>k :: nat. if k = 0 \<or> k = 1 \<and> IS_JUMP (op_type ?op) then [plain_op OP_FREE_TEMP [?t]] else []"
    obtain x where x: "connect_at 0 n (op_block OP_STORE [?t, v] ?sp) w3 = Some x"
      "spliced w0 n (loads v ?t ?op) (?free(0 := plain_op OP_STORE [?t, v] # ?free 0)) x"
      by (rule spliced_behind [OF s3 n0 len0(1), where t = OP_STORE and d = "[?t, v]" and sp = ?sp])
    have "?free(0 := plain_op OP_STORE [?t, v] # ?free 0) = stores v ?t ?op"
      using True by (auto simp: fun_eq_iff stores_def rs(2))
    from x(2) [unfolded this] show thesis by (rule that [rotated]) (use x(1) True in \<open>simp add: connectOp_Some\<close>)
  next
    case False
    have "(\<lambda>k. if k = 0 \<or> k = 1 \<and> IS_JUMP (op_type ?op) then [plain_op OP_FREE_TEMP [?t]] else []) = stores v ?t ?op"
      using False by (auto simp: fun_eq_iff stores_def rs(2))
    from s3 [unfolded this] show thesis by (rule that [rotated]) (use False in simp)
  qed
  have types: "IS_JUMP (op_type (op_of (heap w2 n))) = IS_JUMP (op_type ?op)"
    "op_of (heap w1 n) = ?op" "op_of (heap w2 n) = ?op" "op_of (heap w4 n) = ?op"
    using splicedD(5) [OF s1 n0] splicedD(5) [OF s2 n0] splicedD(5) [OF s4 n0] by (simp_all add: w0(3))
  have "split_op v n w = Some (w4\<lparr>heap := set_block n (\<lambda>b. b\<lparr>op_of := op'\<rparr>) (heap w4)\<rparr>, ?t)"
    unfolding split_op_def rs w0(4) by (simp add: w1_def [symmetric] connectOp_Some(1) w2 w3 types op'(1) Let_def)
      (use w4 op'(1) types in \<open>cases "v \<in> set ws"; simp add: connectOp_Some\<close>)
  then show thesis using that s4 op' by (simp add: w0_def)
qed

end
