(* ===== verification/SplittingEnds.thy ===== *)
theory SplittingEnds
  imports Splitting
begin

text \<open>
  The rounds of the register allocator (\<^verbatim>\<open>src/codegen/registerAllocator.hpp\<close>) end: every split takes a use of a
  variable away, and after the last round everything that is alive is a temporary of the allocator.
\<close>

section \<open>The state of the allocator\<close>

text \<open>
  Variables are below the next temporary, what has been put in uses temporaries of the allocator only, and there are
  enough numbers for a temporary in place of every use of another variable.
\<close>

definition to_split :: "worker \<Rightarrow> i64 list \<Rightarrow> nat" where
  "to_split w gen = (\<Sum>n \<in> set (wk_code w). card (used_by w n - set gen))"

definition allocating :: "worker \<Rightarrow> i64 list \<Rightarrow> bool" where
  "allocating w gen \<longleftrightarrow> linked w \<and> regular w \<and> frees_finite w \<and>
     (\<forall>n \<in> set (wk_code w). op_type (op_of (heap w n)) \<in> loads_and_stores \<longrightarrow> used_by w n \<subseteq> set gen) \<and>
     (\<forall>v \<in> set gen \<union> (\<Union>n \<in> set (wk_code w). used_by w n). 0 \<le> sint v \<and> sint v < sint (nextTempId w)) \<and>
     0 \<le> sint (nextTempId w) \<and> sint (nextTempId w) + int (to_split w gen) < 2 ^ 63"

lemma allocatingD:
  assumes "allocating w gen"
  shows "linked w" "regular w" "frees_finite w"
    "\<And>n. n \<in> set (wk_code w) \<Longrightarrow> op_type (op_of (heap w n)) \<in> loads_and_stores \<Longrightarrow> used_by w n \<subseteq> set gen"
    "\<And>n v. n \<in> set (wk_code w) \<Longrightarrow> v \<in> used_by w n \<Longrightarrow> 0 \<le> sint v \<and> sint v < sint (nextTempId w)"
    "\<And>v. v \<in> set gen \<Longrightarrow> 0 \<le> sint v \<and> sint v < sint (nextTempId w)"
    "0 \<le> sint (nextTempId w)" "sint (nextTempId w) + int (to_split w gen) < 2 ^ 63"
  using assms unfolding allocating_def by blast+

lemma finite_used [simp]: "finite (used_by w n)"
  by (simp add: used_by_def split: option.split)

lemma temp_fresh:
  assumes "allocating w gen"
  shows "n \<in> set (wk_code w) \<Longrightarrow> nextTempId w \<notin> used_by w n" "nextTempId w \<notin> set gen"
  using allocatingD(5,6) [OF assms] by blast+

lemma sint_next: "0 \<le> sint (x :: i64) \<Longrightarrow> sint x + 1 < 2 ^ 63 \<Longrightarrow> sint (x + 1) = sint x + 1"
  by (simp add: sint_word_ariths signed_take_bit_int_eq_self)

lemma plain_tables:
  "getUsedVariables (plain_op OP_LOAD [t, v]) = Some [t]" "getUsedVariables (plain_op OP_STORE [t, v]) = Some [t]"
  "getUsedVariables (plain_op OP_FREE_TEMP [t]) = Some [t]" "op_formed (plain_op OP_LOAD [t, v])" "op_formed (plain_op OP_STORE [t, v])"
  "op_formed (plain_op OP_FREE_TEMP [t])" "attribute_variables (plain_op ty ds) = []" "op_type (plain_op ty ds) = ty"
  by (simp_all add: plain_op_def getUsedVariables_def operands_def attribute_variables_def op_formed_def operand_number_def)

text \<open>The operations that are put in.\<close>

definition inserted :: "i64 \<Rightarrow> i64 \<Rightarrow> OperationBlock set" where
  "inserted v t = {plain_op OP_LOAD [t, v], plain_op OP_STORE [t, v], plain_op OP_FREE_TEMP [t]}"

lemma inserted_tables:
  assumes "op \<in> inserted v t"
  shows "getUsedVariables op = Some [t]" "op_formed op" "attribute_variables op = []" "op_type op \<noteq> OP_JMP" "\<not> IS_JUMP (op_type op)"
  using assms by (auto simp: inserted_def plain_tables IS_JUMP_def)

lemma loads_stores_inserted: "set (loads v t op) \<union> (\<Union>k. set (stores v t op k)) \<subseteq> inserted v t"
  by (auto simp: loads_def stores_def inserted_def split: if_splits)

section \<open>One operation\<close>

lemma split_op_facts:
  assumes a: "allocating w gen" and n: "n \<in> set (wk_code w)"
  obtains w' where "split_op v n w = Some (w', nextTempId w)" "linked w'" "regular w'" "frees_finite w'" "\<exists>new. wk_code w' = wk_code w @ new"
    "nextTempId w' = nextTempId w + 1" "\<And>m. m \<in> added w w' \<Longrightarrow> op_of (heap w' m) \<in> inserted v (nextTempId w)"
    "\<And>m. m \<in> set (wk_code w) \<Longrightarrow> m \<noteq> n \<Longrightarrow> op_of (heap w' m) = op_of (heap w m)"
    "applyNamesTranslition [v \<mapsto> nextTempId w] (op_of (heap w n)) = Some (op_of (heap w' n))"
    "renamed [v \<mapsto> nextTempId w] (op_of (heap w n)) (op_of (heap w' n))"
proof -
  let ?op = "op_of (heap w n)"
  let ?t = "nextTempId w"
  let ?w0 = "fst (newTemp w (wk_variables w v))"
  note w = allocatingD [OF a]
  obtain w1 op' where w1: "spliced ?w0 n (loads v ?t ?op) (stores v ?t ?op) w1"
    and op': "applyNamesTranslition [v \<mapsto> ?t] ?op = Some op'" "renamed [v \<mapsto> ?t] ?op op'"
    and s: "split_op v n w = Some (w1\<lparr>heap := set_block n (\<lambda>b. b\<lparr>op_of := op'\<rparr>) (heap w1)\<rparr>, ?t)"
    by (rule split_op_spliced [OF w(1,2) n])
  define w' where "w' = w1\<lparr>heap := set_block n (\<lambda>b. b\<lparr>op_of := op'\<rparr>) (heap w1)\<rparr>"
  have w0: "wk_code ?w0 = wk_code w" "heap ?w0 = heap w" "nextTempId ?w0 = ?t + 1" by (simp_all add: newTemp_def)
  note d = splicedD [OF w1, unfolded w0]
  have nx: "nexts (heap w' m) = nexts (heap w1 m)" "prevs (heap w' m) = prevs (heap w1 m)" for m by (simp_all add: w'_def set_block_def)
  have ops: "op_of (heap w' m) = (if m = n then op' else op_of (heap w1 m))" for m by (simp add: w'_def set_block_def)
  have type: "op_type op' = op_type ?op" "op_formed op'" using op'(2) by (simp_all add: renamed_def)
  have types: "op_type (op_of (heap w' m)) = op_type (op_of (heap w1 m))" for m using d(5) [OF n] type(1) by (simp add: ops)
  have code: "wk_code w' = wk_code w1" "nextTempId w' = ?t + 1" "wk_entry w' = wk_entry w1" "fresh w' = fresh w1" using d(4) by (simp_all add: w'_def)
  have "linked w'" using d(1) unfolding linked_def worker_ok_def links_ok_def nx code by simp
  moreover have "frees_finite w'"
  proof -
    have "frees_finite w1" by (rule d(12)) (use w(3) in \<open>simp add: frees_finite_def ranked_def is_free_def w0\<close>)
    then show ?thesis unfolding frees_finite_def ranked_def is_free_def types nx code by simp
  qed
  moreover have new: "op_of (heap w' m) \<in> inserted v ?t" "length (nexts (heap w' m)) = 1" if "m \<in> added w w'" for m
  proof -
    have m: "m \<in> added ?w0 w1" "m \<noteq> n" using that n by (auto simp: added_def w0 code)
    have "op_of (heap w1 m) \<in> inserted v ?t" using subsetD [OF loads_stores_inserted] d(10) [OF m(1)] by blast
    then show "op_of (heap w' m) \<in> inserted v ?t" "length (nexts (heap w' m)) = 1" using d(10) [OF m(1)] m(2) by (simp_all add: ops nx)
  qed
  moreover have old: "op_of (heap w' m) = op_of (heap w m)" if "m \<in> set (wk_code w)" "m \<noteq> n" for m using d(5) that by (simp add: ops)
  moreover have "regular w'"
    unfolding regular_def Let_def
  proof (rule ballI)
    fix m assume m: "m \<in> set (wk_code w')"
    have attr: "attribute_variables op' = map (rename [v \<mapsto> ?t]) (attribute_variables ?op)"
      using op'(1) by (auto simp: applyNamesTranslition_def Let_def attribute_variables_rename)
    have len: "length (nexts (heap w' m)) = length (nexts (heap w m))" if "m \<in> set (wk_code w)"
      using d(7) [OF that] d(8) list_all2_lengthD by (cases "m = n") (fastforce simp: nx)+
    show "op_formed (op_of (heap w' m)) \<and> op_type (op_of (heap w' m)) \<noteq> OP_JMP \<and>
      (op_type (op_of (heap w' m)) = OP_FREE_TEMP \<longrightarrow> attribute_variables (op_of (heap w' m)) = []) \<and>
      length (nexts (heap w' m)) = (if IS_JUMP (op_type (op_of (heap w' m))) then 2 else 1)"
    proof (cases "m \<in> set (wk_code w)")
      case True
      show ?thesis
      proof (cases "m = n")
        case True
        then show ?thesis using regularD [OF w(2) n] len n type attr by (simp add: ops)
      next
        case False
        then show ?thesis using regularD [OF w(2) True] len [OF True] by (simp add: old [OF True])
      qed
    next
      case False
      then have "m \<in> added w w'" using m by (simp add: added_def)
      then show ?thesis using inserted_tables [OF new(1)] new(2) by simp
    qed
  qed
  moreover have "\<exists>new. wk_code w' = wk_code w @ new" using d(11) by (simp add: code)
  ultimately show thesis using that [of w'] s op' code(2) by (simp add: ops w'_def [symmetric])
qed

lemma split_op_used:
  assumes a: "allocating w gen" and n: "n \<in> set (wk_code w)" "v \<in> used_by w n" "v \<notin> set gen" and s: "split_op v n w = Some (w', t)"
  shows "t = nextTempId w" "used_by w' n = insert t (used_by w n - {v})" "m \<in> set (wk_code w) \<Longrightarrow> m \<noteq> n \<Longrightarrow> used_by w' m = used_by w m"
    "m \<in> added w w' \<Longrightarrow> used_by w' m = {t}" "to_split w' (t # gen) + 1 = to_split w gen" "set (wk_code w) \<subseteq> set (wk_code w')"
proof -
  obtain w1 where w1: "split_op v n w = Some (w1, nextTempId w)" "\<exists>new. wk_code w1 = wk_code w @ new"
    and f: "\<And>m. m \<in> added w w1 \<Longrightarrow> op_of (heap w1 m) \<in> inserted v (nextTempId w)"
      "\<And>m. m \<in> set (wk_code w) \<Longrightarrow> m \<noteq> n \<Longrightarrow> op_of (heap w1 m) = op_of (heap w m)"
      "renamed [v \<mapsto> nextTempId w] (op_of (heap w n)) (op_of (heap w1 n))"
    by (rule split_op_facts [OF a n(1), of v]) blast
  have w': "w' = w1" and t: "t = nextTempId w" using s w1(1) by simp_all
  show "t = nextTempId w" by (rule t)
  have tn: "t \<notin> used_by w m" if "m \<in> set (wk_code w)" for m using temp_fresh(1) [OF a that] by (simp add: t)
  obtain us where us: "getUsedVariables (op_of (heap w n)) = Some us" using n(2) by (auto simp: used_by_def split: option.splits)
  have "used_by w1 n = rename [v \<mapsto> t] ` used_by w n" using f(3) us by (simp add: used_by_def renamed_def t)
  then show here: "used_by w' n = insert t (used_by w n - {v})"
    using n(2) unfolding w' by (auto simp: rename_def image_iff split: if_splits)
  show same: "used_by w' m = used_by w m" if "m \<in> set (wk_code w)" "m \<noteq> n" for m using f(2) [OF that] by (simp add: used_by_def w')
  show new: "used_by w' m = {t}" if "m \<in> added w w'" for m using inserted_tables(1) [OF f(1)] that by (simp add: used_by_def w' t)
  show code: "set (wk_code w) \<subseteq> set (wk_code w')" using w1(2) by (auto simp: w')
  have split: "set (wk_code w') = set (wk_code w) \<union> added w w'" "set (wk_code w) \<inter> added w w' = {}" using code by (auto simp: added_def)
  have fin: "finite (added w w')" by (simp add: added_def)
  have others: "used_by w' m - set (t # gen) = used_by w m - set gen" if "m \<in> set (wk_code w) - {n}" for m using same tn that by auto
  have "used_by w' n - set (t # gen) = (used_by w n - set gen) - {v}" using here tn [OF n(1)] by auto
  then have "card (used_by w' n - set (t # gen)) + 1 = card (used_by w n - set gen)"
    using n(2,3) card_Suc_Diff1 [of "used_by w n - set gen" v] by simp
  moreover have "(\<Sum>m \<in> set (wk_code w) - {n}. card (used_by w' m - set (t # gen))) = (\<Sum>m \<in> set (wk_code w) - {n}. card (used_by w m - set gen))"
    by (rule sum.cong) (use others in simp_all)
  moreover have "(\<Sum>m \<in> added w w'. card (used_by w' m - set (t # gen))) = 0" using new by simp
  ultimately show "to_split w' (t # gen) + 1 = to_split w gen"
    unfolding to_split_def split(1) sum.union_disjoint [OF finite_set fin split(2)]
    by (simp only: sum.remove [OF finite_set n(1)])
qed

lemma split_op_allocating:
  assumes a: "allocating w gen" and n: "n \<in> set (wk_code w)" "v \<in> used_by w n" "v \<notin> set gen"
  obtains w' where "split_op v n w = Some (w', nextTempId w)" "allocating w' (nextTempId w # gen)" "\<exists>new. wk_code w' = wk_code w @ new"
    "sint (nextTempId w') = sint (nextTempId w) + 1"
proof -
  let ?t = "nextTempId w"
  note w = allocatingD [OF a]
  obtain w' where w': "split_op v n w = Some (w', ?t)" "linked w'" "regular w'" "frees_finite w'" "\<exists>new. wk_code w' = wk_code w @ new"
    "nextTempId w' = ?t + 1" "\<And>m. m \<in> set (wk_code w) \<Longrightarrow> m \<noteq> n \<Longrightarrow> op_of (heap w' m) = op_of (heap w m)"
    "renamed [v \<mapsto> ?t] (op_of (heap w n)) (op_of (heap w' n))"
    by (rule split_op_facts [OF a n(1), of v]) blast
  note u = split_op_used [OF a n w'(1)]
  have budget: "to_split w' (?t # gen) + 1 = to_split w gen" by (rule u(5))
  then have nt: "sint (nextTempId w') = sint ?t + 1" using w(7,8) unfolding w'(6) by (intro sint_next) auto
  have cases: "m = n \<or> m \<in> set (wk_code w) \<and> m \<noteq> n \<or> m \<in> added w w'" if "m \<in> set (wk_code w')" for m using that n(1) by (auto simp: added_def)
  have used: "used_by w' m \<subseteq> insert ?t (\<Union>n \<in> set (wk_code w). used_by w n)" if "m \<in> set (wk_code w')" for m
    using cases [OF that] u(2-4) n(1) by auto
  have "allocating w' (?t # gen)"
    unfolding allocating_def
  proof (intro conjI ballI impI)
    fix m assume m: "m \<in> set (wk_code w')" and type: "op_type (op_of (heap w' m)) \<in> loads_and_stores"
    from cases [OF m] show "used_by w' m \<subseteq> set (?t # gen)"
    proof (elim disjE conjE)
      assume "m = n"
      then show ?thesis using w(4) [OF n(1)] type w'(8) u(2) by (auto simp: renamed_def)
    next
      assume "m \<in> set (wk_code w)" "m \<noteq> n"
      then show ?thesis using w(4) type w'(7) u(3) by auto
    qed (use u(4) in auto)
  next
    fix x assume "x \<in> set (?t # gen) \<union> (\<Union>n \<in> set (wk_code w'). used_by w' n)"
    then have "x = ?t \<or> x \<in> set gen \<or> x \<in> (\<Union>n \<in> set (wk_code w). used_by w n)" using used by auto
    then show "0 \<le> sint x" "sint x < sint (nextTempId w')" using w(5-7) nt by force+
  qed (use w' w(7,8) nt budget in auto)
  then show thesis using that w'(1,5) nt by blast
qed

section \<open>Sequences of splits\<close>

inductive split_steps :: "worker \<Rightarrow> i64 list \<Rightarrow> i64 list \<Rightarrow> worker \<Rightarrow> i64 list \<Rightarrow> bool" where
  no_steps: "split_steps w gen [] w gen"
| one_more: "n \<in> set (wk_code w) \<Longrightarrow> v \<in> used_by w n \<Longrightarrow> v \<notin> set gen \<Longrightarrow> split_op v n w = Some (w1, t) \<Longrightarrow>
    split_steps w1 (t # gen) vs w' gen' \<Longrightarrow> split_steps w gen (v # vs) w' gen'"

lemma split_steps_trans: "split_steps w gen vs w1 gen1 \<Longrightarrow> split_steps w1 gen1 vs' w' gen' \<Longrightarrow> split_steps w gen (vs @ vs') w' gen'"
  by (induction rule: split_steps.induct) (auto intro: one_more)

text \<open>A variable whose uses all end its life needs no register.\<close>

definition dead :: "worker \<Rightarrow> i64 \<Rightarrow> bool" where "dead w u \<longleftrightarrow> (\<forall>n \<in> users w u. ends_life w u n)"

lemma split_op_dead:
  assumes a: "allocating w gen" and n: "n \<in> set (wk_code w)" "v \<in> used_by w n" "v \<notin> set gen" and s: "split_op v n w = Some (w', t)"
    and u: "dead w u" "u \<noteq> t"
  shows "dead w' u"
  unfolding dead_def
proof
  fix m assume "m \<in> users w' u"
  then have m: "m \<in> set (wk_code w')" "u \<in> used_by w' m" by (simp_all add: users_def)
  obtain w1 where w1: "split_op v n w = Some (w1, nextTempId w)"
    and f: "\<And>m. m \<in> set (wk_code w) \<Longrightarrow> m \<noteq> n \<Longrightarrow> op_of (heap w1 m) = op_of (heap w m)"
      "applyNamesTranslition [v \<mapsto> nextTempId w] (op_of (heap w n)) = Some (op_of (heap w1 n))"
    by (rule split_op_facts [OF a n(1), of v]) blast
  have w': "w' = w1" using s w1 by simp
  note used = split_op_used [OF a n s]
  have mw: "m \<in> set (wk_code w)" using m u(2) used(4) [of m] by (cases "m \<in> set (wk_code w)") (auto simp: added_def)
  show "ends_life w' u m"
  proof (cases "m = n")
    case True
    then have un: "u \<in> used_by w n" "u \<noteq> v" using m(2) used(2) u(2) by auto
    then have e: "ends_life w u n" using u(1) n(1) by (auto simp: dead_def users_def)
    then obtain us where op: "op_type (op_of (heap w n)) = OP_FREE_TEMP" "op_data (op_of (heap w n)) = u # us"
      by (auto simp: ends_life_def split: list.splits)
    have "op_of (heap w' n) = (op_of (heap w n))\<lparr>op_data := map (rename [v \<mapsto> nextTempId w]) (u # us),
        op_attributes := map (rename_attribute [v \<mapsto> nextTempId w]) (op_attributes (op_of (heap w n)))\<rparr>"
      using f(2) op by (simp add: applyNamesTranslition_def Let_def w')
    then show ?thesis using op(1) un(2) True by (simp add: ends_life_def rename_def)
  next
    case False
    then have "u \<in> used_by w m" using m(2) used(3) [OF mw] by simp
    then have "ends_life w u m" using u(1) mw by (auto simp: dead_def users_def)
    then show ?thesis using f(1) [OF mw False] by (simp add: ends_life_def w')
  qed
qed

lemma split_op_unused:
  assumes a: "allocating w gen" and n: "n \<in> set (wk_code w)" "v \<in> used_by w n" "v \<notin> set gen" and s: "split_op v n w = Some (w', t)"
    and u: "users w u = {}" "u \<noteq> t"
  shows "users w' u = {}"
proof -
  note used = split_op_used [OF a n s]
  have "u \<notin> used_by w' m" if m: "m \<in> set (wk_code w')" for m
  proof (cases "m \<in> set (wk_code w)")
    case True
    then show ?thesis using u used(2,3) by (cases "m = n") (auto simp: users_def)
  next
    case False
    then show ?thesis using m u(2) used(4) by (simp add: added_def)
  qed
  then show ?thesis by (auto simp: users_def)
qed

lemma split_steps_facts:
  assumes "split_steps w gen vs w' gen'" "allocating w gen"
  shows "allocating w' gen' \<and> set gen \<subseteq> set gen' \<and> (\<forall>t \<in> set gen' - set gen. sint (nextTempId w) \<le> sint t) \<and>
    sint (nextTempId w) \<le> sint (nextTempId w') \<and> set vs \<inter> set gen' = {} \<and> (\<forall>v \<in> set vs. sint v < sint (nextTempId w')) \<and>
    (\<forall>u. dead w u \<longrightarrow> u \<notin> set gen' \<longrightarrow> dead w' u) \<and> (\<forall>u. users w u = {} \<longrightarrow> u \<notin> set gen' \<longrightarrow> users w' u = {})"
  using assms
proof (induction rule: split_steps.induct)
  case (one_more n w v gen w1 t vs w' gen')
  obtain w2 where "split_op v n w = Some (w2, nextTempId w)" "allocating w2 (nextTempId w # gen)" "sint (nextTempId w2) = sint (nextTempId w) + 1"
    by (rule split_op_allocating [OF one_more.prems one_more.hyps(1-3)]) blast
  then have w1: "t = nextTempId w" "allocating w1 (t # gen)" "sint (nextTempId w1) = sint (nextTempId w) + 1" using one_more.hyps(4) by simp_all
  have ih: "allocating w' gen'" "set (t # gen) \<subseteq> set gen'" "\<And>u. u \<in> set gen' \<Longrightarrow> u \<notin> set (t # gen) \<Longrightarrow> sint (nextTempId w1) \<le> sint u"
    "sint (nextTempId w1) \<le> sint (nextTempId w')" "set vs \<inter> set gen' = {}" "\<And>u. u \<in> set vs \<Longrightarrow> sint u < sint (nextTempId w')"
    "\<And>u. dead w1 u \<Longrightarrow> u \<notin> set gen' \<Longrightarrow> dead w' u" "\<And>u. users w1 u = {} \<Longrightarrow> u \<notin> set gen' \<Longrightarrow> users w' u = {}"
    using one_more.IH [OF w1(2)] by blast+
  have v: "sint v < sint (nextTempId w)" using allocatingD(5) [OF one_more.prems one_more.hyps(1,2)] by blast
  have vg: "v \<notin> set gen'"
  proof
    assume "v \<in> set gen'"
    then have "v \<in> set (t # gen) \<or> sint (nextTempId w1) \<le> sint v" using ih(3) by blast
    then show False using v one_more.hyps(3) w1(1,3) by auto
  qed
  have not_t: "u \<noteq> t" if "u \<notin> set gen'" for u using that ih(2) by auto
  show ?case
  proof (intro conjI allI impI ballI)
    show "dead w' u" if "dead w u" "u \<notin> set gen'" for u
      using ih(7) [OF split_op_dead [OF one_more.prems one_more.hyps(1-4) that(1) not_t [OF that(2)]] that(2)] .
    show "users w' u = {}" if "users w u = {}" "u \<notin> set gen'" for u
      using ih(8) [OF split_op_unused [OF one_more.prems one_more.hyps(1-4) that(1) not_t [OF that(2)]] that(2)] .
    show "sint (nextTempId w) \<le> sint u" if "u \<in> set gen' - set gen" for u
      using ih(3) [of u] that w1(1,3) by (cases "u = t") auto
    show "set (v # vs) \<inter> set gen' = {}" using vg ih(5) by simp
    show "sint u < sint (nextTempId w')" if "u \<in> set (v # vs)" for u using that ih(4,6) v w1(3) by auto
  qed (use ih(1,2,4) w1(3) in auto)
qed auto

lemma split_stepsD:
  assumes "split_steps w gen vs w' gen'" "allocating w gen"
  shows "allocating w' gen'" "set gen \<subseteq> set gen'" "\<And>u. u \<in> set gen' \<Longrightarrow> u \<notin> set gen \<Longrightarrow> sint (nextTempId w) \<le> sint u"
    "sint (nextTempId w) \<le> sint (nextTempId w')" "set vs \<inter> set gen' = {}"
    "\<And>u. dead w u \<Longrightarrow> u \<notin> set gen' \<Longrightarrow> dead w' u" "\<And>u. users w u = {} \<Longrightarrow> u \<notin> set gen' \<Longrightarrow> users w' u = {}"
  using split_steps_facts [OF assms] by blast+

text \<open>All uses of the variables that have been split are gone.\<close>

definition moved :: "worker \<Rightarrow> i64 list \<Rightarrow> worker \<Rightarrow> i64 list \<Rightarrow> bool" where
  "moved w gen w' gen' \<longleftrightarrow> (\<exists>vs. split_steps w gen vs w' gen' \<and> (\<forall>v \<in> set vs. users w' v = {}))"

lemma moved_refl: "moved w gen w gen"
  unfolding moved_def using no_steps by fastforce

lemma moved_trans:
  assumes "moved w gen w1 gen1" "moved w1 gen1 w' gen'" "allocating w gen"
  shows "moved w gen w' gen'"
proof -
  obtain vs vs' where s: "split_steps w gen vs w1 gen1" "\<forall>v \<in> set vs. users w1 v = {}" "split_steps w1 gen1 vs' w' gen'" "\<forall>v \<in> set vs'. users w' v = {}"
    using assms(1,2) by (auto simp: moved_def)
  note all = split_steps_trans [OF s(1,3)]
  have "users w' v = {}" if "v \<in> set vs" for v
  proof -
    have "v \<notin> set gen'" using split_stepsD(5) [OF all assms(3)] that by auto
    then show ?thesis by (rule split_stepsD(7) [OF s(3) split_stepsD(1) [OF s(1) assms(3)] bspec [OF s(2) that]])
  qed
  then show ?thesis using all s(4) unfolding moved_def by (intro exI [of _ "vs @ vs'"]) auto
qed

lemma moved_facts:
  assumes "moved w gen w' gen'" "allocating w gen"
  shows "allocating w' gen'" "set gen \<subseteq> set gen'" "sint (nextTempId w) \<le> sint (nextTempId w')"
    "\<And>u. dead w u \<Longrightarrow> u \<notin> set gen' \<Longrightarrow> dead w' u" "\<And>v. v \<notin> set gen \<Longrightarrow> sint v < sint (nextTempId w) \<Longrightarrow> v \<notin> set gen'"
proof -
  obtain vs where vs: "split_steps w gen vs w' gen'" using assms(1) by (auto simp: moved_def)
  show "allocating w' gen'" "set gen \<subseteq> set gen'" "sint (nextTempId w) \<le> sint (nextTempId w')"
    "\<And>u. dead w u \<Longrightarrow> u \<notin> set gen' \<Longrightarrow> dead w' u" by (rule split_stepsD [OF vs assms(2)]; assumption)+
  show "\<And>v. v \<notin> set gen \<Longrightarrow> sint v < sint (nextTempId w) \<Longrightarrow> v \<notin> set gen'"
    using split_stepsD(3) [OF vs assms(2)] by (meson linorder_not_le)
qed

end
