(* ===== verification/RoundsEnd.thy ===== *)
theory RoundsEnd
  imports SplittingEnds
begin

text \<open>
  The loops of the register allocator (\<^verbatim>\<open>src/codegen/registerAllocator.hpp\<close>) end: the walk over the operations
  in \<^verbatim>\<open>SplitVariable\<close>, which adds operations as it goes, and the rounds of \<^verbatim>\<open>spreadRegisters\<close>.
\<close>

section \<open>More fuel\<close>

lemma SplitVariable_from_more: "SplitVariable_from k v i w gen = Some r \<Longrightarrow> k \<le> k' \<Longrightarrow> SplitVariable_from k' v i w gen = Some r"
proof (induction k arbitrary: k' i w gen)
  case 0
  then show ?case by (simp add: SplitVariable_from.simps [of 0] SplitVariable_from.simps [of k'] split: if_splits)
next
  case (Suc k)
  obtain j where j: "k' = Suc j" "k \<le> j" using Suc.prems(2) by (cases k') auto
  show ?case
    using Suc.prems(1) Suc.IH [OF _ j(2)] unfolding j(1) SplitVariable_from.simps [of "Suc k"] SplitVariable_from.simps [of "Suc j"]
    by (auto split: if_splits bind_splits prod.splits)
qed

lemma split_all_more: "split_all k vs s = Some r \<Longrightarrow> k \<le> k' \<Longrightarrow> split_all k' vs s = Some r"
proof (induction vs arbitrary: s)
  case (Cons v vs)
  obtain s' where s': "SplitVariable_from k v 0 (fst s) (snd s) = Some s'" "split_all k vs s' = Some r"
    using Cons.prems(1) by (auto simp: SplitVariable_def bind_eq_Some_conv)
  then show ?case using SplitVariable_from_more [OF _ Cons.prems(2)] Cons.IH [OF s'(2) Cons.prems(2)] by (simp add: SplitVariable_def)
qed simp

lemma trySpreadRegisters_more:
  assumes "trySpreadRegisters k rnd cost g w gen = Some r" "k \<le> k'"
  shows "trySpreadRegisters k' rnd cost g w gen = Some r"
proof (cases "colour rnd g = None \<and> candidates cost g gen \<noteq> []")
  case True
  let ?vs = "take (max 1 (length (candidates cost g gen) div 4 - registersCount)) (candidates cost g gen)"
  obtain s where s: "split_all k ?vs (w, gen) = Some s" "r = (case s of (w, gen) \<Rightarrow> Again w gen)"
    using assms(1) True by (auto simp: trySpreadRegisters_def Let_def)
  then show ?thesis using split_all_more [OF s(1) assms(2)] True by (simp add: trySpreadRegisters_def Let_def)
qed (use assms in \<open>auto simp: trySpreadRegisters_def Let_def split: option.splits if_splits\<close>)

lemma update_uses_more: "update_uses k w us s = Some r \<Longrightarrow> k \<le> k' \<Longrightarrow> update_uses k' w us s = Some r"
proof (induction us arbitrary: s)
  case (Cons u us)
  obtain n v where u: "u = (n, v)" by (cases u)
  obtain s1 s2 where s: "updateCanTo k w n v s = Some s1" "updateCanFrom k w n v s1 = Some s2" "update_uses k w us s2 = Some r"
    using Cons.prems(1) by (auto simp: u bind_eq_Some_conv)
  have "updateCanTo k' w n v s = Some s1"
    using s(1) dfs_more [OF _ Cons.prems(2)] unfolding updateCanTo_def bind_eq_Some_conv by blast
  moreover have "updateCanFrom k' w n v s1 = Some s2"
    using s(2) dfs_more [OF _ Cons.prems(2)] unfolding updateCanFrom_def bind_eq_Some_conv by blast
  ultimately show ?case using Cons.IH [OF s(3) Cons.prems(2)] by (simp add: u)
qed simp

lemma freed_after_more: "freed_after k w x = Some r \<Longrightarrow> k \<le> k' \<Longrightarrow> freed_after k' w x = Some r"
proof (induction k arbitrary: k' x r)
  case 0
  then show ?case by (cases x) (auto simp: freed_after.simps(2) split: if_splits)
next
  case (Suc k)
  obtain j where j: "k' = Suc j" "k \<le> j" using Suc.prems(2) by (cases k') auto
  show ?case
    using Suc.prems(1) Suc.IH [OF _ j(2)] unfolding j(1) by (cases x) (auto simp: freed_after.simps(2) split: if_splits)
qed

lemma op_conflicts_more:
  assumes "op_conflicts k w vars n = Some r" "k \<le> k'"
  shows "op_conflicts k' w vars n = Some r"
proof -
  obtain writed reads freed where o: "getWritedVariables (op_of (heap w n)) = Some writed" "getReadVariables (op_of (heap w n)) = Some reads"
    "(case nexts (heap w n) of [x] \<Rightarrow> freed_after k w x | _ \<Rightarrow> Some []) = Some freed"
    "filter (\<lambda>(i, j). i \<noteq> j \<and> \<not> shares writed reads freed i j) (List.product vars vars) = r"
    using assms(1) unfolding op_conflicts_def bind_eq_Some_conv by blast
  have "(case nexts (heap w n) of [x] \<Rightarrow> freed_after k' w x | _ \<Rightarrow> Some []) = Some freed"
    using o(3) freed_after_more [OF _ assms(2)] by (auto split: list.splits)
  then show ?thesis using o unfolding op_conflicts_def by simp
qed

lemma conflicts_of_more: "conflicts_of k w vars ns = Some r \<Longrightarrow> k \<le> k' \<Longrightarrow> conflicts_of k' w vars ns = Some r"
proof (induction ns arbitrary: r)
  case (Cons n ns)
  show ?case
  proof (cases "vars n = []")
    case False
    then obtain ps qs where q: "op_conflicts k w (vars n) n = Some ps" "conflicts_of k w vars ns = Some qs" "r = ps @ qs"
      using Cons.prems(1) by (auto simp: bind_eq_Some_conv)
    then show ?thesis using False op_conflicts_more [OF q(1) Cons.prems(2)] Cons.IH [OF q(2) Cons.prems(2)] by simp
  qed (use Cons in simp)
qed simp

lemma buildMainConflictGraph_more:
  assumes "buildMainConflictGraph k w = Some r" "k \<le> k'"
  shows "buildMainConflictGraph k' w = Some r"
proof -
  obtain us s ps where o: "all_uses w (wk_code w) = Some us"
    "update_uses k w us \<lparr>visited = (\<lambda>_. {}), can_to = (\<lambda>_. {}), can_from = (\<lambda>_. {})\<rparr> = Some s"
    "conflicts_of k w (op_vars s (remdups (map snd us))) (wk_code w) = Some ps"
    "r = \<lparr>nodes = remdups (concat (map (op_vars s (remdups (map snd us))) (wk_code w))), overlap_pairs = remdups ps\<rparr>"
    using assms(1) by (auto simp: buildMainConflictGraph_def updateOpVars_def bind_eq_Some_conv)
  then show ?thesis
    using update_uses_more [OF o(2) assms(2)] conflicts_of_more [OF o(3) assms(2)] by (simp add: buildMainConflictGraph_def updateOpVars_def)
qed

lemma spread_rounds_more: "spread_rounds k rnd cost iter w gen = Some r \<Longrightarrow> k \<le> k' \<Longrightarrow> spread_rounds k' rnd cost iter w gen = Some r"
proof (induction k arbitrary: k' iter w gen)
  case (Suc k)
  obtain j where j: "k' = Suc j" "k \<le> j" using Suc.prems(2) by (cases k') auto
  obtain g x where g: "buildMainConflictGraph k w = Some g" "trySpreadRegisters k (rnd iter) (cost iter) g w gen = Some x"
    using Suc.prems(1) by (auto simp: bind_eq_Some_conv)
  note more = buildMainConflictGraph_more [OF g(1) j(2)] trySpreadRegisters_more [OF g(2) j(2)]
  show ?case
  proof (cases x)
    case (Again w1 gen1)
    show ?thesis
    proof (cases "50 < iter")
      case True
      then obtain w2 gen2 where s: "split_all k (filter (\<lambda>v. v \<notin> set gen1) (nodes g)) (w1, gen1) = Some (w2, gen2)"
        "spread_rounds k rnd cost (iter + 1) w2 gen2 = Some r"
        using Suc.prems(1) g Again by (auto simp: bind_eq_Some_conv)
      then show ?thesis using True more Again split_all_more [OF s(1) j(2)] Suc.IH [OF s(2) j(2)] by (simp add: j(1))
    next
      case False
      then have "spread_rounds k rnd cost (iter + 1) w1 gen1 = Some r" using Suc.prems(1) g Again by simp
      then show ?thesis using False more Again Suc.IH [OF _ j(2)] by (simp add: j(1))
    qed
  qed (use Suc.prems(1) g more in \<open>simp_all add: j(1)\<close>)
qed simp

section \<open>One variable\<close>

lemma SplitVariable_from_ends:
  assumes "allocating w gen" "v \<notin> set gen" "\<And>m. m \<in> set (take i (wk_code w)) \<Longrightarrow> v \<notin> used_by w m"
  shows "\<exists>k w' gen' vs. SplitVariable_from k v i w gen = Some (w', gen') \<and> split_steps w gen vs w' gen' \<and> set vs \<subseteq> {v} \<and> users w' v = {}"
  using assms
proof (induction "(card (users w v), length (wk_code w) - i)" arbitrary: w gen i rule: wf_induct_rule [OF wf_lex_prod [OF wf_less_than wf_less_than]])
  case (1 w i gen)
  note a = "1.prems"(1)
  show ?case
  proof (cases "length (wk_code w) \<le> i")
    case True
    then have "users w v = {}" using "1.prems"(3) by (auto simp: users_def)
    moreover have "SplitVariable_from 0 v i w gen = Some (w, gen)" using True by (simp add: SplitVariable_from.simps)
    ultimately show ?thesis using no_steps by (metis empty_subsetI list.set(1))
  next
    case False
    define n where "n = wk_code w ! i"
    have n: "n \<in> set (wk_code w)" using False by (simp add: n_def)
    have here: "set (take (i + 1) (wk_code w)) = insert n (set (take i (wk_code w)))"
      using False by (simp add: take_Suc_conv_app_nth n_def)
    have distinct: "distinct (wk_code w)" using allocatingD(1) [OF a] by (simp add: linked_def)
    have "n \<notin> set (take i (wk_code w))"
      using distinct False by (auto simp: n_def in_set_conv_nth nth_eq_iff_index_eq)
    note fresh = this
    obtain us where us: "getUsedVariables (op_of (heap w n)) = Some us"
      by (rule used_variables_formed [OF regularD(1) [OF allocatingD(2) [OF a] n]])
    have used: "used_by w n = set us" by (simp add: used_by_def us)
    have unfold: "SplitVariable_from (Suc k) v i w gen =
        (if v \<in> used_by w n then do { (w, t) \<leftarrow> split_op v n w; SplitVariable_from k v (i + 1) w (t # gen) } else SplitVariable_from k v (i + 1) w gen)" for k
      using False by (simp add: SplitVariable_from.simps [of "Suc k"] us n_def [symmetric] used)
    show ?thesis
    proof (cases "v \<in> used_by w n")
      case True
      obtain w1 where w1: "split_op v n w = Some (w1, nextTempId w)" "allocating w1 (nextTempId w # gen)" "\<exists>new. wk_code w1 = wk_code w @ new"
        by (rule split_op_allocating [OF a n True "1.prems"(2)]) blast
      note u = split_op_used [OF a n True "1.prems"(2) w1(1)]
      have vt: "v \<noteq> nextTempId w" using temp_fresh(1) [OF a n] True by blast
      have sub: "users w1 v \<subseteq> users w v - {n}"
      proof
        fix m assume "m \<in> users w1 v"
        then have m: "m \<in> set (wk_code w1)" "v \<in> used_by w1 m" by (simp_all add: users_def)
        then have "m \<noteq> n" "m \<notin> added w w1" using u(2,4) vt by auto
        then show "m \<in> users w v - {n}" using m u(3) by (auto simp: users_def added_def)
      qed
      have "n \<in> users w v" "finite (users w v)" using True n by (simp_all add: users_def)
      then have less: "card (users w1 v) < card (users w v)" using sub by (intro psubset_card_mono) auto
      have before: "v \<notin> used_by w1 m" if "m \<in> set (take (i + 1) (wk_code w1))" for m
      proof -
        have "m \<in> set (take (i + 1) (wk_code w))" using that w1(3) False by auto
        then have m: "m = n \<or> m \<in> set (take i (wk_code w))" unfolding here by simp
        show ?thesis
        proof (cases "m = n")
          case False
          then have mi: "m \<in> set (take i (wk_code w))" using m by simp
          then have "used_by w1 m = used_by w m" using u(3) False in_set_takeD by metis
          then show ?thesis using "1.prems"(3) [OF mi] by simp
        qed (use u(2) vt in auto)
      qed
      have vg: "v \<notin> set (nextTempId w # gen)" using vt "1.prems"(2) by simp
      obtain k w' gen' vs where k: "SplitVariable_from k v (i + 1) w1 (nextTempId w # gen) = Some (w', gen')"
        "split_steps w1 (nextTempId w # gen) vs w' gen'" "set vs \<subseteq> {v}" "users w' v = {}"
        using "1.hyps" [OF _ w1(2) vg, of "i + 1"] less before by auto
      have "SplitVariable_from (Suc k) v i w gen = Some (w', gen')" using True w1(1) k(1) by (simp add: unfold)
      then show ?thesis using one_more [OF n True "1.prems"(2) w1(1) k(2)] k(3,4) by (intro exI [of _ "Suc k"] exI [of _ w'] exI [of _ gen'] exI [of _ "v # vs"]) auto
    next
      case no: False
      have "v \<notin> used_by w m" if "m \<in> set (take (i + 1) (wk_code w))" for m using that "1.prems"(3) no unfolding here by auto
      then obtain k w' gen' vs where k: "SplitVariable_from k v (i + 1) w gen = Some (w', gen')" "split_steps w gen vs w' gen'" "set vs \<subseteq> {v}" "users w' v = {}"
        using "1.hyps" [OF _ a "1.prems"(2), of "i + 1"] diff_less_mono2 [of i "i + 1" "length (wk_code w)"] False by auto
      have "SplitVariable_from (Suc k) v i w gen = Some (w', gen')" using no k(1) by (simp add: unfold)
      then show ?thesis using k(2-4) by blast
    qed
  qed
qed

lemma SplitVariable_moves:
  assumes "allocating w gen" "v \<notin> set gen"
  obtains k w' gen' where "SplitVariable_from k v 0 w gen = Some (w', gen')" "moved w gen w' gen'" "users w' v = {}"
proof -
  obtain k w' gen' vs where k: "SplitVariable_from k v 0 w gen = Some (w', gen')" "split_steps w gen vs w' gen'" "set vs \<subseteq> {v}" "users w' v = {}"
    using SplitVariable_from_ends [OF assms, of 0] by auto
  have "moved w gen w' gen'" using k(2-4) unfolding moved_def by blast
  then show thesis using that k(1,4) by blast
qed

lemma split_all_ends:
  assumes "allocating w gen" "\<forall>v \<in> set vs. v \<notin> set gen \<and> sint v < sint (nextTempId w)"
  shows "\<exists>k w' gen'. split_all k vs (w, gen) = Some (w', gen') \<and> moved w gen w' gen' \<and> (\<forall>v \<in> set vs. dead w' v)"
  using assms
proof (induction vs arbitrary: w gen)
  case Nil
  then show ?case using moved_refl by fastforce
next
  case (Cons v vs)
  obtain k w1 gen1 where k: "SplitVariable_from k v 0 w gen = Some (w1, gen1)" "moved w gen w1 gen1" "users w1 v = {}"
    by (rule SplitVariable_moves [OF Cons.prems(1), of v]) (use Cons.prems(2) in auto)
  note f = moved_facts [OF k(2) Cons.prems(1)]
  have rest: "\<forall>x \<in> set vs. x \<notin> set gen1 \<and> sint x < sint (nextTempId w1)" using Cons.prems(2) f(3,5) by fastforce
  obtain j w' gen' where j: "split_all j vs (w1, gen1) = Some (w', gen')" "moved w1 gen1 w' gen'" "\<forall>v \<in> set vs. dead w' v"
    using Cons.IH [OF f(1) rest] by blast
  have "split_all (max k j) (v # vs) (w, gen) = Some (w', gen')"
    using SplitVariable_from_more [OF k(1), of "max k j"] split_all_more [OF j(1), of "max k j"] by (simp add: SplitVariable_def)
  moreover have both: "moved w gen w' gen'" by (rule moved_trans [OF k(2) j(2) Cons.prems(1)])
  moreover have "dead w' v"
  proof -
    have "v \<notin> set gen'" using moved_facts(5) [OF both Cons.prems(1)] Cons.prems(2) by simp
    moreover have "dead w1 v" using k(3) by (simp add: dead_def)
    ultimately show ?thesis using moved_facts(4) [OF j(2) f(1)] by blast
  qed
  ultimately show ?case using j(3) by (metis set_ConsD)
qed

section \<open>One round\<close>

lemma allocating_formed: "allocating w gen \<Longrightarrow> worker_ok w" "allocating w gen \<Longrightarrow> worker_formed w"
proof -
  show "worker_ok w" if "allocating w gen" using allocatingD(1) [OF that] by (simp add: linked_def)
  show "worker_formed w" if "allocating w gen"
    using regularD(1) [OF allocatingD(2) [OF that]] allocatingD(5) [OF that] by (auto simp: worker_formed_def used_by_def)
qed

lemma frees_end_always:
  assumes "allocating w gen"
  shows "\<exists>K. \<forall>k \<ge> K. frees_end k w"
proof -
  note w = allocatingD(1,2) [OF assms]
  obtain r where r: "ranked r w" using allocatingD(3) [OF assms] by (auto simp: frees_finite_def)
  have ends: "freed_after (Suc (r n)) w (Some n) \<noteq> None" if "n \<in> set (wk_code w)" for n
    using that
  proof (induction "r n" arbitrary: n rule: less_induct)
    case less
    note n = less.prems
    show ?case
    proof (cases "is_free w n")
      case True
      have ne: "op_data (op_of (heap w n)) \<noteq> []" "nexts (heap w n) \<noteq> []"
        using regularD(1) [OF w(2) n] True linkedD(2) [OF w(1) n] by (auto simp: is_free_def op_formed_def operand_number_def)
      have "freed_after (r n) w (hd (nexts (heap w n))) \<noteq> None"
      proof (cases "hd (nexts (heap w n))")
        case (Some b)
        then have b: "b \<in> set (wk_code w)" using linkedD(4) [OF w(1) n] ne(2) by (metis list.set_sel(1))
        show ?thesis
        proof (cases "is_free w b")
          case free: True
          then have "r b < r n" using r n True Some unfolding ranked_def by blast
          then show ?thesis using less.hyps [OF _ b] freed_after_more [of "Suc (r b)" w "Some b" _ "r n"] by (auto simp: Some)
        qed (simp add: Some freed_after.simps(2) is_free_def)
      qed simp
      then show ?thesis using ne by (simp add: freed_after.simps(2))
    qed (simp add: freed_after.simps(2) is_free_def)
  qed
  have "frees_end k w" if k: "Suc (\<Sum>n \<in> set (wk_code w). r n) \<le> k" for k
    unfolding frees_end_def
  proof (intro ballI)
    fix n x assume n: "n \<in> set (wk_code w)" "x \<in> set (nexts (heap w n))"
    show "freed_after k w x \<noteq> None"
    proof (cases x)
      case (Some b)
      then have b: "b \<in> set (wk_code w)" using linkedD(4) [OF w(1) n(1)] n(2) by blast
      have "r b \<le> (\<Sum>n \<in> set (wk_code w). r n)" by (rule member_le_sum [OF b]) auto
      then show ?thesis using ends [OF b] k freed_after_more [of "Suc (r b)" w x _ k] by (auto simp: Some)
    qed simp
  qed
  then show ?thesis by blast
qed

lemma alive_not_dead: "alive w v n \<Longrightarrow> \<not> dead w v"
proof
  assume a: "alive w v n" and d: "dead w v"
  have "reach (forward w v) (users w v) \<subseteq> users w v"
    by (rule reach_least) (use d in \<open>auto simp: dead_def forward_def\<close>)
  then show False using a d by (auto simp: alive_def dead_def)
qed

text \<open>What the allocator returns: nothing, or registers for the worker that some splits have made.\<close>

definition allocated :: "worker \<Rightarrow> i64 list \<Rightarrow> unit + (i64 \<rightharpoonup> nat) \<times> worker \<Rightarrow> bool" where
  "allocated w gen r \<longleftrightarrow> (case r of Inl _ \<Rightarrow> True
     | Inr (res, w') \<Rightarrow> \<exists>gen' k. moved w gen w' gen' \<and> allocating w' gen' \<and> frees_end k w' \<and> registers_apart k w' res)"

lemma allocated_none: "allocated w gen (Inl ())"
  by (simp add: allocated_def)

lemma allocated_later: "moved w gen w1 gen1 \<Longrightarrow> allocating w gen \<Longrightarrow> allocated w1 gen1 r \<Longrightarrow> allocated w gen r"
  using moved_trans by (fastforce simp: allocated_def split: sum.splits prod.splits)

lemma one_round:
  assumes a: "allocating w gen"
  obtains k g x where "buildMainConflictGraph k w = Some g" "trySpreadRegisters k rnd cost g w gen = Some x"
    "\<And>u. u \<in> set (nodes g) \<Longrightarrow> sint u < sint (nextTempId w)" "\<And>u. u \<in> set (nodes g) \<longleftrightarrow> \<not> dead w u"
    "\<And>res. x = Coloured res \<Longrightarrow> allocated w gen (Inr (res, w))"
    "\<And>w1 gen1. x = Again w1 gen1 \<Longrightarrow> \<not> set (nodes g) \<subseteq> set gen \<and> moved w gen w1 gen1"
proof -
  obtain K where K: "\<forall>k \<ge> K. frees_end k w" using frees_end_always [OF a] by blast
  define k0 where "k0 = max K (live_bound w)"
  obtain g where g: "buildMainConflictGraph k0 w = Some g" "set (nodes g) = {v. \<exists>n \<in> set (wk_code w). alive w v n}"
    "\<And>rnd res. colour rnd g = Some res \<Longrightarrow> registers_apart k0 w res"
    by (rule graph_registers [OF allocating_formed [OF a], of k0]) (use K in \<open>auto simp: k0_def\<close>)
  have used: "sint u < sint (nextTempId w)" if h: "u \<in> set (nodes g)" for u
  proof -
    obtain n where "alive w u n" using h unfolding g(2) by blast
    then have "users w u \<noteq> {}" by (auto simp: alive_def reach_def)
    then show ?thesis using allocatingD(5) [OF a] by (auto simp: users_def)
  qed
  have unused: "u \<in> set (nodes g) \<longleftrightarrow> \<not> dead w u" for u
    using alive_user alive_not_dead unfolding g(2) by (auto simp: dead_def users_def)
  have coloured: "allocated w gen (Inr (res, w))" if "colour rnd g = Some res" for res
  proof -
    have "frees_end k0 w" using K by (simp add: k0_def)
    then show ?thesis using a moved_refl g(3) [OF that] unfolding allocated_def sum.case prod.case by blast
  qed
  show thesis
  proof (cases "colour rnd g = None \<and> candidates cost g gen \<noteq> []")
    case True
    let ?vs = "take (max 1 (length (candidates cost g gen) div 4 - registersCount)) (candidates cost g gen)"
    have cand: "set (candidates cost g gen) = set (nodes g) - set gen" by (auto simp: candidates_def)
    have "\<forall>v \<in> set ?vs. v \<notin> set gen \<and> sint v < sint (nextTempId w)"
      using used cand in_set_takeD [of _ _ "candidates cost g gen"] by blast
    then obtain j w1 gen1 where j: "split_all j ?vs (w, gen) = Some (w1, gen1)" "moved w gen w1 gen1"
      using split_all_ends [OF a] by blast
    have t: "trySpreadRegisters (max k0 j) rnd cost g w gen = Some (Again w1 gen1)"
      using split_all_more [OF j(1), of "max k0 j"] True by (simp add: trySpreadRegisters_def Let_def)
    have ne: "\<not> set (nodes g) \<subseteq> set gen" using True cand by (metis Diff_eq_empty_iff set_empty)
    show thesis
      by (rule that [OF buildMainConflictGraph_more [OF g(1), of "max k0 j", OF max.cobounded1] t used unused]) (use ne j(2) in auto)
  next
    case False
    then have "\<exists>x. trySpreadRegisters k0 rnd cost g w gen = Some x \<and> (x = NoVariables \<or> (\<exists>res. x = Coloured res \<and> colour rnd g = Some res))"
      by (cases "colour rnd g") (simp_all add: trySpreadRegisters_def Let_def)
    then obtain x where x: "trySpreadRegisters k0 rnd cost g w gen = Some x" "x = NoVariables \<or> (\<exists>res. x = Coloured res \<and> colour rnd g = Some res)"
      by blast
    show thesis by (rule that [OF g(1) x(1) used unused]) (use x(2) coloured in auto)
  qed
qed

section \<open>All rounds\<close>

lemma rounds_last:
  assumes "allocating w gen" "\<forall>u. u \<notin> set gen \<longrightarrow> dead w u"
  shows "\<exists>k r. spread_rounds k rnd cost iter w gen = Some r \<and> allocated w gen r"
proof -
  obtain k g x where g: "buildMainConflictGraph k w = Some g" "trySpreadRegisters k (rnd iter) (cost iter) g w gen = Some x"
    "\<And>res. x = Coloured res \<Longrightarrow> allocated w gen (Inr (res, w))" "\<And>w1 gen1. x = Again w1 gen1 \<Longrightarrow> \<not> set (nodes g) \<subseteq> set gen"
    "\<And>u. u \<in> set (nodes g) \<longleftrightarrow> \<not> dead w u"
    by (rule one_round [OF assms(1), of "rnd iter" "cost iter"]) blast
  have "set (nodes g) \<subseteq> set gen" using assms(2) g(5) by blast
  then show ?thesis
  proof (cases x)
    case (Coloured res)
    then have "spread_rounds (Suc k) rnd cost iter w gen = Some (Inr (res, w))" using g(1,2) by simp
    then show ?thesis using g(3) [OF Coloured] by blast
  next
    case NoVariables
    then have "spread_rounds (Suc k) rnd cost iter w gen = Some (Inl ())" using g(1,2) by simp
    then show ?thesis using allocated_none by blast
  qed (use g(4) in blast)
qed

lemma rounds_late:
  assumes a: "allocating w gen" and i: "50 < iter"
  shows "\<exists>k r. spread_rounds k rnd cost iter w gen = Some r \<and> allocated w gen r"
proof -
  obtain k g x where g: "buildMainConflictGraph k w = Some g" "trySpreadRegisters k (rnd iter) (cost iter) g w gen = Some x"
    "\<And>u. u \<in> set (nodes g) \<Longrightarrow> sint u < sint (nextTempId w)" "\<And>u. u \<in> set (nodes g) \<longleftrightarrow> \<not> dead w u"
    "\<And>res. x = Coloured res \<Longrightarrow> allocated w gen (Inr (res, w))"
    "\<And>w1 gen1. x = Again w1 gen1 \<Longrightarrow> moved w gen w1 gen1"
    by (rule one_round [OF a, of "rnd iter" "cost iter"]) blast
  show ?thesis
  proof (cases x)
    case (Coloured res)
    then have "spread_rounds (Suc k) rnd cost iter w gen = Some (Inr (res, w))" using g(1,2) by simp
    then show ?thesis using g(5) [OF Coloured] by blast
  next
    case NoVariables
    then have "spread_rounds (Suc k) rnd cost iter w gen = Some (Inl ())" using g(1,2) by simp
    then show ?thesis using allocated_none by blast
  next
    case (Again w1 gen1)
    note us = g(6) [OF Again]
    note f = moved_facts [OF us a]
    let ?vs = "filter (\<lambda>v. v \<notin> set gen1) (nodes g)"
    have "\<forall>v \<in> set ?vs. v \<notin> set gen1 \<and> sint v < sint (nextTempId w1)" using f(3) g(3) by force
    then obtain j w2 gen2 where j: "split_all j ?vs (w1, gen1) = Some (w2, gen2)" "moved w1 gen1 w2 gen2" "\<forall>v \<in> set ?vs. dead w2 v"
      using split_all_ends [OF f(1), of ?vs] by blast
    note f2 = moved_facts(1,2,4) [OF j(2) f(1)]
    have "dead w2 u" if u: "u \<notin> set gen2" for u
    proof (cases "u \<in> set (nodes g)")
      case True
      then show ?thesis using j(3) f2(2) u by auto
    next
      case False
      then have "dead w1 u" using f(4) g(4) f2(2) u by blast
      then show ?thesis by (rule f2(3) [OF _ u])
    qed
    then obtain m r where m: "spread_rounds m rnd cost (iter + 1) w2 gen2 = Some r" "allocated w2 gen2 r"
      using rounds_last [OF f2(1)] by blast
    let ?k = "max k (max j m)"
    have "spread_rounds (Suc ?k) rnd cost iter w gen = Some r"
      using buildMainConflictGraph_more [OF g(1), of ?k] trySpreadRegisters_more [OF g(2), of ?k] split_all_more [OF j(1), of ?k]
        spread_rounds_more [OF m(1), of ?k] Again i by simp
    then show ?thesis using allocated_later [OF moved_trans [OF us j(2) a] a m(2)] by blast
  qed
qed

lemma rounds_end:
  "allocating w gen \<Longrightarrow> \<exists>k r. spread_rounds k rnd cost iter w gen = Some r \<and> allocated w gen r"
proof (induction "51 - iter" arbitrary: iter w gen)
  case 0
  then show ?case by (intro rounds_late) auto
next
  case (Suc d)
  obtain k g x where g: "buildMainConflictGraph k w = Some g" "trySpreadRegisters k (rnd iter) (cost iter) g w gen = Some x"
    "\<And>res. x = Coloured res \<Longrightarrow> allocated w gen (Inr (res, w))"
    "\<And>w1 gen1. x = Again w1 gen1 \<Longrightarrow> moved w gen w1 gen1"
    by (rule one_round [OF Suc.prems, of "rnd iter" "cost iter"]) blast
  show ?case
  proof (cases x)
    case (Coloured res)
    then have "spread_rounds (Suc k) rnd cost iter w gen = Some (Inr (res, w))" using g(1,2) by simp
    then show ?thesis using g(3) [OF Coloured] by blast
  next
    case NoVariables
    then have "spread_rounds (Suc k) rnd cost iter w gen = Some (Inl ())" using g(1,2) by simp
    then show ?thesis using allocated_none by blast
  next
    case (Again w1 gen1)
    note us = g(4) [OF Again]
    have "allocating w1 gen1" by (rule moved_facts(1) [OF us Suc.prems])
    moreover have "d = 51 - (iter + 1)" using Suc.hyps(2) by simp
    ultimately obtain m r where m: "spread_rounds m rnd cost (iter + 1) w1 gen1 = Some r" "allocated w1 gen1 r"
      using Suc.hyps(1) by blast
    let ?k = "max k m"
    have "\<not> 50 < iter" using Suc.hyps(2) by simp
    then have "spread_rounds (Suc ?k) rnd cost iter w gen = Some r"
      using buildMainConflictGraph_more [OF g(1), of ?k] trySpreadRegisters_more [OF g(2), of ?k] spread_rounds_more [OF m(1), of ?k]
        Again by simp
    then show ?thesis using allocated_later [OF us Suc.prems m(2)] by blast
  qed
qed

end
