(* ===== verification/IRSemantics.thy ===== *)
theory IRSemantics
  imports Splitting
begin

text \<open>
  What the operations of a worker do, for the proof that the register allocator keeps it. The effect of an operation is a
  parameter \<open>sem\<close>: from the operation without its variables, the values that it reads and the state of the
  world it makes the values that it writes, the number of the successor and the next state of the world. Fixed is what
  the allocator relies on: the end of a life forgets a value, and \<^verbatim>\<open>OP_LOAD\<close> and
  \<^verbatim>\<open>OP_STORE\<close> copy between a variable and its memory.
\<close>

section \<open>Execution\<close>

text \<open>A value is in a register or under a name (\<open>At\<close>), or in the memory of a variable (\<open>Slot\<close>).\<close>

datatype 'l place = At 'l | Slot i64

type_synonym ('v, 'w) sem = "OperationBlock option \<Rightarrow> 'v list \<Rightarrow> 'w \<Rightarrow> ('v list \<times> 'w \<times> nat) option"

definition skeleton :: "OperationBlock \<Rightarrow> OperationBlock option" where
  "skeleton op = applyNamesTranslition (\<lambda>_. Some 0) op"

fun values_of :: "('p \<rightharpoonup> 'v) \<Rightarrow> 'p list \<Rightarrow> 'v list option" where
  "values_of env [] = Some []"
| "values_of env (p # ps) = do { x \<leftarrow> env p; xs \<leftarrow> values_of env ps; Some (x # xs) }"

text \<open>\<open>loc\<close> tells where a variable is; \<open>keep\<close>, that the end of a life leaves the value.\<close>

definition exec :: "('v, 'w) sem \<Rightarrow> (i64 \<Rightarrow> 'l place) \<Rightarrow> bool \<Rightarrow> OperationBlock \<Rightarrow> ('l place \<rightharpoonup> 'v) \<times> 'w \<Rightarrow> (('l place \<rightharpoonup> 'v) \<times> 'w \<times> nat) option" where
  "exec sem loc keep op = (\<lambda>(env, world).
     if op_type op = OP_FREE_TEMP then (case op_data op of [] \<Rightarrow> None | v # _ \<Rightarrow> Some (if keep then env else env(loc v := None), world, 0))
     else if op_type op = OP_LOAD then
       (case op_data op of [t, v] \<Rightarrow> map_option (\<lambda>x. (env(loc t \<mapsto> x), world, 0)) (env (Slot v)) | _ \<Rightarrow> None)
     else if op_type op = OP_STORE then
       (case op_data op of [t, v] \<Rightarrow> map_option (\<lambda>x. (env(Slot v \<mapsto> x), world, 0)) (env (loc t)) | _ \<Rightarrow> None)
     else do { reads \<leftarrow> getReadVariables op;
               writed \<leftarrow> getWritedVariables op;
               xs \<leftarrow> values_of env (map loc reads);
               (ys, world, k) \<leftarrow> sem (skeleton op) xs world;
               if length ys = length writed then Some (env(map loc writed [\<mapsto>] ys), world, k) else None })"

type_synonym ('l, 'v, 'w) state = "nat option \<times> ('l place \<rightharpoonup> 'v) \<times> 'w"

definition step :: "('v, 'w) sem \<Rightarrow> (i64 \<Rightarrow> 'l place) \<Rightarrow> bool \<Rightarrow> worker \<Rightarrow> ('l, 'v, 'w) state \<Rightarrow> ('l, 'v, 'w) state option" where
  "step sem loc keep w = (\<lambda>(s, env, world).
     case s of None \<Rightarrow> None
     | Some n \<Rightarrow>
         do { (env, world, k) \<leftarrow> exec sem loc keep (op_of (heap w n)) (env, world);
              if k < length (nexts (heap w n)) then Some (nexts (heap w n) ! k, env, world) else None })"

definition runs :: "('v, 'w) sem \<Rightarrow> (i64 \<Rightarrow> 'l place) \<Rightarrow> bool \<Rightarrow> worker \<Rightarrow> ('l, 'v, 'w) state \<Rightarrow> ('l, 'v, 'w) state \<Rightarrow> bool" where
  "runs sem loc keep w = (\<lambda>x y. step sem loc keep w x = Some y)\<^sup>*\<^sup>*"

lemma runs_refl [simp, intro]: "runs sem loc keep w x x"
  by (simp add: runs_def)

lemma runs_step: "step sem loc keep w x = Some y \<Longrightarrow> runs sem loc keep w y z \<Longrightarrow> runs sem loc keep w x z"
  unfolding runs_def by (rule converse_rtranclp_into_rtranclp)

lemma runs_trans: "runs sem loc keep w x y \<Longrightarrow> runs sem loc keep w y z \<Longrightarrow> runs sem loc keep w x z"
  unfolding runs_def by (rule rtranclp_trans)

text \<open>A simulation step by step is one of whole runs.\<close>

lemma runs_simulation:
  assumes "runs sem loc keep w x x'" "R x y"
    and "\<And>x x' y. step sem loc keep w x = Some x' \<Longrightarrow> R x y \<Longrightarrow> \<exists>y'. runs sem loc' keep' w' y y' \<and> R x' y'"
  shows "\<exists>y'. runs sem loc' keep' w' y y' \<and> R x' y'"
  using assms(1) unfolding runs_def
proof (induction rule: rtranclp_induct)
  case base
  then show ?case using assms(2) runs_refl unfolding runs_def by blast
next
  case (step x1 x2)
  then show ?case using assms(3) runs_trans unfolding runs_def by (meson rtranclp_trans)
qed

text \<open>
  What one sees of a worker from outside: the states of the world that it goes through, and that it ends.
\<close>

definition start :: "worker \<Rightarrow> 'w \<Rightarrow> ('l, 'v, 'w) state" where "start w world = (wk_entry w, Map.empty, world)"

definition same_outside :: "('l, 'v, 'w) state \<Rightarrow> ('m, 'v, 'w) state \<Rightarrow> bool" where
  "same_outside x y \<longleftrightarrow> snd (snd x) = snd (snd y) \<and> (fst x = None \<longrightarrow> fst y = None)"

text \<open>The second worker does in any world what the first does.\<close>

definition follows :: "(i64 \<Rightarrow> 'l place) \<Rightarrow> bool \<Rightarrow> worker \<Rightarrow> (i64 \<Rightarrow> 'm place) \<Rightarrow> bool \<Rightarrow> worker \<Rightarrow> ('v, 'w) sem \<Rightarrow> bool" where
  "follows loc keep w loc' keep' w' sem \<longleftrightarrow>
     (\<forall>world x. runs sem loc keep w (start w world) x \<longrightarrow> (\<exists>y. runs sem loc' keep' w' (start w' world) y \<and> same_outside x y))"

lemma follows_trans:
  "follows loc keep w loc' keep' w' sem \<Longrightarrow> follows loc' keep' w' loc'' keep'' w'' sem \<Longrightarrow> follows loc keep w loc'' keep'' w'' sem"
  unfolding follows_def same_outside_def by metis

lemma follows_refl: "follows loc keep w loc keep w sem"
  unfolding follows_def same_outside_def by blast

lemma follows_simulation:
  assumes "\<And>world. R (start w world) (start w' world)" "\<And>x y. R x y \<Longrightarrow> same_outside x y"
    "\<And>x x' y. step sem loc keep w x = Some x' \<Longrightarrow> R x y \<Longrightarrow> \<exists>y'. runs sem loc' keep' w' y y' \<and> R x' y'"
  shows "follows loc keep w loc' keep' w' sem"
  unfolding follows_def
proof (intro allI impI)
  fix world x assume "runs sem loc keep w (start w world) x"
  then have "\<exists>y'. runs sem loc' keep' w' (start w' world) y' \<and> R x y'"
    by (rule runs_simulation [where R = R]) (use assms in auto)
  then show "\<exists>y. runs sem loc' keep' w' (start w' world) y \<and> same_outside x y" using assms(2) by blast
qed

section \<open>More values are known\<close>

lemma values_of_le: "env \<subseteq>\<^sub>m env' \<Longrightarrow> values_of env ps = Some xs \<Longrightarrow> values_of env' ps = Some xs"
  by (induction ps arbitrary: xs) (auto simp: map_le_def dom_def split: bind_splits)

lemma values_of_map: "(\<And>p. p \<in> set ps \<Longrightarrow> env (f p) = env' (g p)) \<Longrightarrow> values_of env (map f ps) = values_of env' (map g ps)"
  by (induction ps) auto

lemma values_of_some: "values_of env ps = Some xs \<Longrightarrow> p \<in> set ps \<Longrightarrow> \<exists>x. env p = Some x"
  by (induction ps arbitrary: xs) (auto split: bind_splits)

lemma exec_le:
  assumes "exec sem loc keep op (env, world) = Some (env1, world1, k)" "env \<subseteq>\<^sub>m env'"
  shows "\<exists>env1'. exec sem loc keep op (env', world) = Some (env1', world1, k) \<and> env1 \<subseteq>\<^sub>m env1'"
proof -
  have upd: "env(p := x) \<subseteq>\<^sub>m env'(p := x)" for p x using assms(2) by (auto simp: map_le_def dom_def)
  have known: "env p = Some x \<Longrightarrow> env' p = Some x" for p x using assms(2) by (force simp: map_le_def dom_def)
  consider "op_type op = OP_FREE_TEMP" | "op_type op = OP_LOAD" | "op_type op = OP_STORE" | "op_type op \<notin> {OP_FREE_TEMP, OP_LOAD, OP_STORE}" by blast
  then show ?thesis
  proof cases
    case 1
    then show ?thesis using assms upd by (auto simp: exec_def split: list.splits)
  next
    case 2
    then show ?thesis using assms(1) upd known by (auto simp: exec_def split: list.splits)
  next
    case 3
    then show ?thesis using assms(1) upd known by (auto simp: exec_def split: list.splits)
  next
    case 4
    then show ?thesis using assms(1) values_of_le [OF assms(2)] map_le_upds [OF assms(2)]
      by (auto simp: exec_def split: bind_splits if_splits)
  qed
qed

section \<open>Renaming\<close>

lemma skeleton_renamed:
  assumes "op_formed op" "applyNamesTranslition m op = Some op'"
  shows "skeleton op' = skeleton op"
proof -
  have attr: "map (rename_attribute (\<lambda>_. Some 0)) (map (rename_attribute m) as) = map (rename_attribute (\<lambda>_. Some 0)) as" for as
    by (auto simp: rename_attribute_def rename_def split: sum.splits)
  note d = skeleton_def applyNamesTranslition_def rename_at_def op_formed_def operand_number_def rename_def attr [simplified]
  show ?thesis
    using assms(1)
  proof (cases rule: op_formed_cases)
    case (call a ds)
    then show ?thesis using assms(2) [symmetric] by (simp add: d)
  next
    case none
    then show ?thesis using assms(2) [symmetric] by (cases "op_type op"; simp add: d)
  next
    case (one a)
    then show ?thesis using assms(2) [symmetric] by (cases "op_type op"; simp add: d)
  next
    case (two a b)
    then show ?thesis using assms(2) [symmetric] by (cases "op_type op"; simp add: d)
  next
    case (three a b c)
    then show ?thesis using assms(2) [symmetric] by (cases "op_type op"; simp add: d)
  next
    case (four a b c e)
    then show ?thesis using assms(2) [symmetric] by (cases "op_type op"; simp add: d)
  next
    case (five a b c e f)
    then show ?thesis using assms(2) [symmetric] by (cases "op_type op"; simp add: d)
  qed
qed

end
