(* ===== verification/SplittingRuns.thy ===== *)
theory SplittingRuns
  imports IRSemantics
begin

text \<open>A worker does the same after an operation has got a temporary in place of a variable that moves to memory.\<close>

section \<open>The operations that are put in\<close>

fun exec_all :: "('v, 'w) sem \<Rightarrow> (i64 \<Rightarrow> 'l place) \<Rightarrow> bool \<Rightarrow> OperationBlock list \<Rightarrow> ('l place \<rightharpoonup> 'v) \<times> 'w \<Rightarrow> (('l place \<rightharpoonup> 'v) \<times> 'w) option" where
  "exec_all sem loc keep [] st = Some st"
| "exec_all sem loc keep (op # ops) st =
     do { (env, world, k) \<leftarrow> exec sem loc keep op st; if k = 0 then exec_all sem loc keep ops (env, world) else None }"

lemma flows_runs:
  assumes "flows w A s ops s'" "exec_all sem loc keep ops (env, world) = Some (env', world')"
  shows "runs sem loc keep w (s, env, world) (s', env', world')"
  using assms
proof (induction arbitrary: env world)
  case (flows_op m s1 op ops s')
  obtain env1 world1 where e: "exec sem loc keep op (env, world) = Some (env1, world1, 0)" "exec_all sem loc keep ops (env1, world1) = Some (env', world')"
    using flows_op.prems by (auto split: bind_splits if_splits)
  have "step sem loc keep w (Some m, env, world) = Some (s1, env1, world1)"
    using flows_op.hyps(2,3) e(1) by (simp add: step_def)
  then show ?case using flows_op.IH [OF e(2)] by (rule runs_step)
qed auto

lemma exec_plain:
  "exec sem loc keep (plain_op OP_LOAD [t, v]) (env, world) = map_option (\<lambda>x. (env(loc t \<mapsto> x), world, 0)) (env (Slot v))"
  "exec sem loc keep (plain_op OP_STORE [t, v]) (env, world) = map_option (\<lambda>x. (env(Slot v \<mapsto> x), world, 0)) (env (loc t))"
  "exec sem loc keep (plain_op OP_FREE_TEMP [t]) (env, world) = Some (if keep then env else env(loc t := None), world, 0)"
  by (simp_all add: exec_def plain_op_def)

text \<open>The variables in \<open>M\<close> live in memory.\<close>

definition memory :: "i64 set \<Rightarrow> i64 \<Rightarrow> i64 place" where "memory M v = (if v \<in> M then Slot v else At v)"

lemma memory_inj [simp]: "memory M u = memory M v \<longleftrightarrow> u = v"
  by (auto simp: memory_def)

lemma one_write:
  assumes "getWritedVariables op = Some ws"
  shows "ws = [] \<or> (\<exists>u. ws = [u])" "IS_JUMP (op_type op) \<Longrightarrow> ws = []"
  using assms by (auto simp: getWritedVariables_def operands_def IS_JUMP_def split: if_splits)

text \<open>The places that an operation writes are those of its variables.\<close>

definition used_in :: "OperationBlock \<Rightarrow> i64 set" where
  "used_in op = (case getUsedVariables op of None \<Rightarrow> {} | Some us \<Rightarrow> set us)"

lemma used_in_facts:
  assumes "op_formed op"
  shows "getReadVariables op = Some rs \<Longrightarrow> set rs \<subseteq> used_in op" "getWritedVariables op = Some ws \<Longrightarrow> set ws \<subseteq> used_in op"
    "op_type op \<in> {OP_LOAD, OP_STORE, OP_FREE_TEMP} \<Longrightarrow> op_data op = u # us \<Longrightarrow> u \<in> used_in op"
proof -
  obtain vs rs' ws' where "getUsedVariables op = Some vs" "getReadVariables op = Some rs'" "getWritedVariables op = Some ws'"
    "set rs' \<union> set ws' \<subseteq> set vs" by (rule used_variables_formed [OF assms])
  then show "getReadVariables op = Some rs \<Longrightarrow> set rs \<subseteq> used_in op" "getWritedVariables op = Some ws \<Longrightarrow> set ws \<subseteq> used_in op"
    by (auto simp: used_in_def)
  show "op_type op \<in> {OP_LOAD, OP_STORE, OP_FREE_TEMP} \<Longrightarrow> op_data op = u # us \<Longrightarrow> u \<in> used_in op"
    by (auto simp: used_in_def getUsedVariables_def operands_def Let_def split: option.splits)
qed

lemma exec_untouched:
  assumes "op_formed op" "exec sem loc keep op (env, world) = Some (env1, world1, k)" "\<And>v. v \<in> used_in op \<Longrightarrow> loc v \<noteq> At t"
  shows "env1 (At t) = env (At t)"
proof -
  note u = used_in_facts [OF assms(1)]
  have other: "At t \<noteq> loc v" if "v \<in> used_in op" for v using assms(3) [OF that] by simp
  consider "op_type op = OP_FREE_TEMP" | "op_type op = OP_LOAD" | "op_type op = OP_STORE" | "op_type op \<notin> {OP_FREE_TEMP, OP_LOAD, OP_STORE}" by blast
  then show ?thesis
  proof cases
    case 4
    obtain ws ys where ws: "getWritedVariables op = Some ws" "length ys = length ws" "env1 = env(map loc ws [\<mapsto>] ys)"
      using 4 assms(2) by (auto simp: exec_def split: bind_splits if_splits)
    have "At t \<notin> set (map loc ws)" using u(2) [OF ws(1)] assms(3) by fastforce
    then show ?thesis by (simp add: ws(3))
  qed (use assms(2) other u(3) in \<open>auto simp: exec_def split: list.splits\<close>)
qed

section \<open>The operation\<close>

lemma exec_split:
  assumes op: "op_formed op" "op_type op \<notin> loads_and_stores" "op_type op = OP_FREE_TEMP \<Longrightarrow> attribute_variables op = []"
    and v: "v \<in> M" "t \<notin> M" "t \<notin> used_in op"
    and e: "exec sem (memory M) False op (env, world) = Some (env1, world1, k)" "env \<subseteq>\<^sub>m env'" "env (At t) = None"
    and k: "k < (if IS_JUMP (op_type op) then 2 else 1)"
    and op': "applyNamesTranslition [v \<mapsto> t] op = Some op'" "renamed [v \<mapsto> t] op op'"
  shows "\<exists>env0' env1' env2'. exec_all sem (memory M) False (loads v t op) (env', world) = Some (env0', world) \<and>
    exec sem (memory M) False op' (env0', world) = Some (env1', world1, k) \<and>
    exec_all sem (memory M) False (stores v t op k) (env1', world1) = Some (env2', world1) \<and> env1 \<subseteq>\<^sub>m env2'"
proof -
  have vt: "v \<noteq> t" using v(1,2) by blast
  have loc: "memory M v = Slot v" "memory M t = At t" using v(1,2) by (simp_all add: memory_def)
  have type: "op_type op' = op_type op" using op'(2) by (simp add: renamed_def)
  obtain rs ws where rs: "getReadVariables op = Some rs" "getWritedVariables op = Some ws" by (rule used_variables_formed [OF op(1)])
  note used = used_in_facts(1) [OF op(1) rs(1)] used_in_facts(2) [OF op(1) rs(2)]
  show ?thesis
  proof (cases "op_type op = OP_FREE_TEMP")
    case True
    obtain u where u: "op_data op = [u]" using op(1) True by (auto simp: op_formed_def operand_number_def length_Suc_conv)
    have io: "rs = []" "ws = []" using rs True u op(3) by (auto simp: getReadVariables_def getWritedVariables_def)
    have data: "op_data op' = [rename [v \<mapsto> t] u]" using op'(1) True u by (auto simp: applyNamesTranslition_def)
    have ks: "k = 0" "env1 = env(memory M u := None)" "world1 = world" using e(1) True u by (auto simp: exec_def)
    have "u \<noteq> t" using used_in_facts(3) [OF op(1), of u "[]"] True u v(3) by auto
    then have "env1 \<subseteq>\<^sub>m (env'(memory M (rename [v \<mapsto> t] u) := None))(At t := None)"
      using e(2,3) loc unfolding ks(2) by (auto simp: map_le_def dom_def rename_def memory_def)
    then show ?thesis
      using True data ks type by (simp add: loads_def stores_def rs io exec_plain loc) (simp add: exec_def)
  next
    case False
    have plain: "op_type op \<notin> {OP_FREE_TEMP, OP_LOAD, OP_STORE}" using False op(2) by (simp add: loads_and_stores_def)
    obtain xs ys where sem: "values_of env (map (memory M) rs) = Some xs" "sem (skeleton op) xs world = Some (ys, world1, k)"
      "length ys = length ws" "env1 = env(map (memory M) ws [\<mapsto>] ys)"
      using e(1) plain rs by (auto simp: exec_def split: bind_splits if_splits)
    define env0' where "env0' = (if v \<in> set rs then env'(At t := env' (Slot v)) else env')"
    have vals: "values_of env' (map (memory M) rs) = Some xs" by (rule values_of_le [OF e(2) sem(1)])
    have "\<exists>x. env' (Slot v) = Some x" if "v \<in> set rs" using values_of_some [OF vals, of "Slot v"] loc(1) that by force
    then have load: "exec_all sem (memory M) False (loads v t op) (env', world) = Some (env0', world)"
      by (auto simp: loads_def rs(1) env0'_def exec_plain loc)
    have "values_of env0' (map (memory M \<circ> rename [v \<mapsto> t]) rs) = values_of env' (map (memory M) rs)"
      by (rule values_of_map) (use used(1) v(3) loc in \<open>auto simp: env0'_def rename_def memory_def\<close>)
    then have vals0: "values_of env0' (map (memory M) (map (rename [v \<mapsto> t]) rs)) = Some xs" by (simp add: vals)
    have op'_tables: "getReadVariables op' = Some (map (rename [v \<mapsto> t]) rs)" "getWritedVariables op' = Some (map (rename [v \<mapsto> t]) ws)"
      using op'(2) rs by (simp_all add: renamed_def)
    define env1' where "env1' = env0'(map (memory M) (map (rename [v \<mapsto> t]) ws) [\<mapsto>] ys)"
    have run: "exec sem (memory M) False op' (env0', world) = Some (env1', world1, k)"
      using plain sem(2,3) vals0 skeleton_renamed [OF op(1) op'(1)] by (simp add: exec_def type op'_tables env1'_def)
    have env0: "env \<subseteq>\<^sub>m env0'(At t := None)" using e(2,3) by (auto simp: env0'_def map_le_def dom_def)
    have "\<exists>env2'. exec_all sem (memory M) False (stores v t op k) (env1', world1) = Some (env2', world1) \<and> env1 \<subseteq>\<^sub>m env2'"
    proof (cases "ws = []")
      case True
      then have "k = 0 \<or> k = 1 \<and> IS_JUMP (op_type op)" using k by (auto split: if_splits)
      then show ?thesis using True env0 sem(4) by (auto simp: stores_def rs(2) exec_plain loc env1'_def)
    next
      case some: False
      then obtain u where u: "ws = [u]" using one_write(1) [OF rs(2)] by blast
      then obtain y where y: "ys = [y]" using sem(3) by (auto simp: length_Suc_conv)
      have k0: "k = 0" using k one_write(2) [OF rs(2)] some by (auto split: if_splits)
      have ut: "u \<noteq> t" using used(2) u v(3) by auto
      have "env(memory M u \<mapsto> y) \<subseteq>\<^sub>m (env0'(At t := None))(memory M u \<mapsto> y)" using env0 by (auto simp: map_le_def dom_def)
      moreover have "(env0'(At t := None))(memory M u \<mapsto> y) = (env0'(memory M u \<mapsto> y))(At t := None)" if "u \<noteq> v"
        using ut loc(2) memory_inj [of M u t] by (auto simp: fun_eq_iff)
      ultimately show ?thesis
        using u y k0 sem(4) vt by (cases "u = v") (auto simp: stores_def rs(2) exec_plain loc env1'_def rename_def fun_upd_twist fun_upd_upd)
    qed
    then show ?thesis using load run by blast
  qed
qed

lemma used_by_op: "used_by w n = used_in (op_of (heap w n))"
  by (simp add: used_by_def used_in_def)

lemma step_Some:
  "step sem loc keep w (Some m, env, world) = Some x' \<longleftrightarrow>
     (\<exists>env1 world1 k. exec sem loc keep (op_of (heap w m)) (env, world) = Some (env1, world1, k) \<and> k < length (nexts (heap w m)) \<and>
        x' = (nexts (heap w m) ! k, env1, world1))"
  by (auto simp: step_def split: bind_splits if_splits)

text \<open>Related states: more is known in the second worker, and it is in front of what has been put before the operation.\<close>

definition related :: "worker \<Rightarrow> nat \<Rightarrow> i64 \<Rightarrow> OperationBlock list \<Rightarrow> worker \<Rightarrow> (i64, 'v, 'w) state \<Rightarrow> (i64, 'v, 'w) state \<Rightarrow> bool" where
  "related w n t before w' = (\<lambda>(s, env, world) (s', env', world'). world = world' \<and> env \<subseteq>\<^sub>m env' \<and> env (At t) = None \<and>
     these [s] \<subseteq> set (wk_code w) \<and> arrives w n before w' s s')"

lemma split_op_step:
  fixes sem :: "('v, 'w) sem"
  assumes w: "linked w" "regular w" "n \<in> set (wk_code w)" "op_type (op_of (heap w n)) \<notin> loads_and_stores"
    and t: "v \<in> M" "nextTempId w \<notin> M" "\<forall>m \<in> set (wk_code w). nextTempId w \<notin> used_by w m"
    and r: "split_op v n w = Some (w', t')"
  shows "\<exists>before. (\<forall>world. related w n (nextTempId w) before w' (start w world :: (i64, 'v, 'w) state) (start w' world)) \<and>
    (\<forall>x x' y. step sem (memory M) False w x = Some x' \<longrightarrow> related w n (nextTempId w) before w' x y \<longrightarrow>
       (\<exists>y'. runs sem (memory M) False w' y y' \<and> related w n (nextTempId w) before w' x' y'))"
proof -
  let ?op = "op_of (heap w n)"
  let ?t = "nextTempId w"
  let ?w0 = "fst (newTemp w (wk_variables w v))"
  let ?L = "loads v ?t ?op"
  obtain w1 op' where w1: "spliced ?w0 n ?L (stores v ?t ?op) w1"
    and op': "applyNamesTranslition [v \<mapsto> ?t] ?op = Some op'" "renamed [v \<mapsto> ?t] ?op op'"
    and s: "split_op v n w = Some (w1\<lparr>heap := set_block n (\<lambda>b. b\<lparr>op_of := op'\<rparr>) (heap w1)\<rparr>, ?t)"
    by (rule split_op_spliced [OF w(1-3)])
  have w': "w' = w1\<lparr>heap := set_block n (\<lambda>b. b\<lparr>op_of := op'\<rparr>) (heap w1)\<rparr>" using s r by simp
  have w0: "wk_code ?w0 = wk_code w" "heap ?w0 = heap w" "wk_entry ?w0 = wk_entry w" by (simp_all add: newTemp_def)
  note d = splicedD [OF w1, unfolded w0]
  have code: "wk_code w' = wk_code w1" "wk_entry w' = wk_entry w1" by (simp_all add: w')
  have nx: "nexts (heap w' m) = nexts (heap w1 m)" for m by (simp add: w' set_block_def)
  have ops: "op_of (heap w' m) = (if m = n then op' else op_of (heap w1 m))" for m by (simp add: w' set_block_def)
  have A: "added ?w0 w1 = added w w'" "n \<notin> added w w'" using w(3) by (simp_all add: added_def w0 code)
  have flow: "flows w' (added w w') x bs y" if "flows w1 (added ?w0 w1) x bs y" for x bs y
    by (rule flows_cong [OF that]) (use A nx ops in auto)
  have arr: "arrives w n ?L w' x y" if "arrives ?w0 n ?L w1 x y" for x y
    using that flow by (auto simp: arrives_def split: if_splits)
  have inside: "these [x] \<subseteq> set (wk_code w)" if "x \<in> set (nexts (heap w m))" "m \<in> set (wk_code w)" for x m
    using linkedD(4) [OF w(1) that(2)] that(1) by (cases x) auto
  show ?thesis
  proof (intro exI [of _ ?L] conjI allI impI)
    show "related w n ?t ?L w' (start w world) (start w' world)" for world
      using arr [OF d(6) [folded w0(3)]] w(1) by (auto simp: related_def start_def code w0(3) linked_def worker_ok_def)
  next
    fix x x' y
    assume st: "step sem (memory M) False w x = Some x'" and rel: "related w n ?t ?L w' x y"
    obtain m env world where x: "x = (Some m, env, world)" using st by (cases x; cases "fst x") (auto simp: step_def)
    obtain s' env' where y: "y = (s', env', world)" and e: "env \<subseteq>\<^sub>m env'" "env (At ?t) = None" "m \<in> set (wk_code w)" "arrives w n ?L w' (Some m) s'"
      using rel x by (cases y) (auto simp: related_def)
    obtain env1 world1 k where ex: "exec sem (memory M) False (op_of (heap w m)) (env, world) = Some (env1, world1, k)"
      and k: "k < length (nexts (heap w m))" and x': "x' = (nexts (heap w m) ! k, env1, world1)"
      using st unfolding x step_Some by blast
    have formed: "op_formed (op_of (heap w m))" by (rule regularD(1) [OF w(2) e(3)])
    have temp: "env1 (At ?t) = None"
    proof -
      have "memory M u \<noteq> At ?t" if "u \<in> used_in (op_of (heap w m))" for u
        using bspec [OF t(3) e(3)] that by (auto simp: used_by_op memory_def)
      then show ?thesis using exec_untouched [OF formed ex] e(2) by metis
    qed
    have succ: "these [nexts (heap w m) ! k] \<subseteq> set (wk_code w)" by (rule inside [OF _ e(3)]) (use k in simp)
    show "\<exists>y'. runs sem (memory M) False w' y y' \<and> related w n ?t ?L w' x' y'"
    proof (cases "m = n")
      case False
      then have s': "s' = Some m" using e(4) by (simp add: arrives_def)
      obtain env1' where ex': "exec sem (memory M) False (op_of (heap w m)) (env', world) = Some (env1', world1, k)" "env1 \<subseteq>\<^sub>m env1'"
        using exec_le [OF ex e(1)] by blast
      have next_step: "list_all2 (arrives ?w0 n ?L w1) (nexts (heap w m)) (nexts (heap w' m))" using d(7) [OF e(3) False] by (simp add: nx)
      then have "arrives w n ?L w' (nexts (heap w m) ! k) (nexts (heap w' m) ! k)" using arr list_all2_nthD [OF _ k] by blast
      moreover have "step sem (memory M) False w' y = Some (nexts (heap w' m) ! k, env1', world1)"
        unfolding y s' step_Some using ex' k list_all2_lengthD [OF next_step] False d(5) [OF e(3)] by (auto simp: ops)
      ultimately show ?thesis
        using ex'(2) temp succ unfolding x' by (intro exI [of _ "(nexts (heap w' m) ! k, env1', world1)"] conjI runs_step [OF _ runs_refl]) (auto simp: related_def)
    next
      case True
      have kk: "k < (if IS_JUMP (op_type ?op) then 2 else 1)" using k regularD(4) [OF w(2,3)] by (simp add: True)
      obtain env0' env1' env2' where run: "exec_all sem (memory M) False ?L (env', world) = Some (env0', world)"
        "exec sem (memory M) False op' (env0', world) = Some (env1', world1, k)"
        "exec_all sem (memory M) False (stores v ?t ?op k) (env1', world1) = Some (env2', world1)" "env1 \<subseteq>\<^sub>m env2'"
        using exec_split [OF regularD(1) [OF w(2,3)] w(4) regularD(3) [OF w(2,3)] t(1,2) _ ex [unfolded True] e(1,2) kk op'] bspec [OF t(3) w(3)]
        unfolding used_by_op by blast
      obtain z where z: "flows w1 (added ?w0 w1) (nexts (heap w1 n) ! k) (stores v ?t ?op k) z" "arrives ?w0 n ?L w1 (nexts (heap w n) ! k) z"
        using d(9) k True by blast
      have "flows w' (added w w') s' ?L (Some n)" using e(4) True by (simp add: arrives_def)
      from flows_runs [OF this run(1)] have r1: "runs sem (memory M) False w' y (Some n, env0', world)" by (simp add: y)
      have r2: "step sem (memory M) False w' (Some n, env0', world) = Some (nexts (heap w1 n) ! k, env1', world1)"
        unfolding step_Some using run(2) k d(8) True by (auto simp: ops nx)
      have r3: "runs sem (memory M) False w' (nexts (heap w1 n) ! k, env1', world1) (z, env2', world1)"
        by (rule flows_runs [OF flow [OF z(1)] run(3)])
      have "related w n ?t ?L w' x' (z, env2', world1)"
        using arr [OF z(2)] run(4) temp succ True by (simp add: related_def x')
      then show ?thesis using runs_trans [OF r1 runs_step [OF r2 r3]] by blast
    qed
  qed
qed

lemma split_op_follows:
  fixes sem :: "('v, 'w) sem"
  assumes "linked w" "regular w" "n \<in> set (wk_code w)" "op_type (op_of (heap w n)) \<notin> loads_and_stores"
    and "v \<in> M" "nextTempId w \<notin> M" "\<forall>m \<in> set (wk_code w). nextTempId w \<notin> used_by w m" "split_op v n w = Some (w', t')"
  shows "follows (memory M) False w (memory M) False w' sem"
proof -
  obtain before where b: "\<And>world. related w n (nextTempId w) before w' (start w world :: (i64, 'v, 'w) state) (start w' world)"
    "\<And>x x' y. step sem (memory M) False w x = Some x' \<Longrightarrow> related w n (nextTempId w) before w' x y \<Longrightarrow>
       \<exists>y'. runs sem (memory M) False w' y y' \<and> related w n (nextTempId w) before w' x' y'"
    using split_op_step [OF assms, of sem] by blast
  show ?thesis
    by (rule follows_simulation [where R = "related w n (nextTempId w) before w'", OF b(1) _ b(2)])
      (auto simp: related_def same_outside_def arrives_def split: if_splits)
qed

end
