(* ===== verification/ColouringRuns.thy ===== *)
theory ColouringRuns
  imports RoundsEnd SplittingRuns
begin

text \<open>
  A worker does the same with registers in place of variables when variables that are alive at the same operation have
  different registers, or one is the result and the other an operand whose life ends.
\<close>

section \<open>The end of a life\<close>

text \<open>Nothing but ends of lives comes between an operation and the end of the life of \<open>v\<close>.\<close>

inductive dying :: "worker \<Rightarrow> i64 \<Rightarrow> nat \<Rightarrow> bool" for w v where
  dying_here: "ends_life w v n \<Longrightarrow> dying w v n"
| dying_later: "is_free w n \<Longrightarrow> hd (nexts (heap w n)) = Some m \<Longrightarrow> dying w v m \<Longrightarrow> dying w v n"

inductive_cases dyingE: "dying w v n"

lemma ends_life_free: "ends_life w v n \<Longrightarrow> is_free w n"
  by (simp add: ends_life_def is_free_def)

lemma dying_free: "dying w v n \<Longrightarrow> is_free w n"
  by (erule dyingE) (auto dest: ends_life_free)

lemma freed_after_dying: "freed_after k w (Some n) = Some fs \<Longrightarrow> v \<in> set fs \<Longrightarrow> dying w v n"
proof (induction k arbitrary: n fs)
  case 0
  then show ?case by (auto simp: freed_after.simps(2) split: if_splits)
next
  case (Suc k)
  have free: "is_free w n" using Suc.prems by (auto simp: freed_after.simps(2) is_free_def split: if_splits)
  then obtain gs where gs: "op_data (op_of (heap w n)) \<noteq> []" "freed_after k w (hd (nexts (heap w n))) = Some gs" "fs = hd (op_data (op_of (heap w n))) # gs"
    using Suc.prems(1) by (auto simp: freed_after.simps(2) is_free_def split: if_splits)
  show ?case
  proof (cases "v = hd (op_data (op_of (heap w n)))")
    case True
    then have "ends_life w v n" using free gs(1) by (auto simp: ends_life_def is_free_def neq_Nil_conv)
    then show ?thesis by (rule dying_here)
  next
    case False
    then have v: "v \<in> set gs" using Suc.prems(2) gs(3) by simp
    obtain m where m: "hd (nexts (heap w n)) = Some m" using gs(2) v by (cases "hd (nexts (heap w n))") auto
    then show ?thesis using dying_later [OF free m] Suc.IH [of m gs] gs(2) v by simp
  qed
qed

section \<open>One step\<close>

definition in_register :: "(i64 \<rightharpoonup> nat) \<Rightarrow> i64 \<Rightarrow> nat place" where
  "in_register res v = At (case res v of None \<Rightarrow> registersCount | Some r \<Rightarrow> r)"

text \<open>An operation that is no end of a life, run with variables and with registers that hold what it reads.\<close>

lemma exec_registers:
  assumes op: "op_formed op" "op_type op \<noteq> OP_FREE_TEMP" "getWritedVariables op = Some ws"
    and e: "exec sem At False op (env, world) = Some (env1, world1, j)"
    and slots: "\<And>s. env (Slot s) = renv (Slot s)"
    and reads: "\<And>v x. v \<in> used_in op \<Longrightarrow> env (At v) = Some x \<Longrightarrow> renv (in_register res v) = Some x"
  obtains renv1 where "exec sem (in_register res) True op (renv, world) = Some (renv1, world1, j)" "\<And>s. env1 (Slot s) = renv1 (Slot s)"
    "\<And>v. v \<notin> set ws \<Longrightarrow> env1 (At v) = env (At v)" "\<And>r. r \<notin> in_register res ` set ws \<Longrightarrow> r \<notin> range Slot \<Longrightarrow> renv1 r = renv r"
    "\<And>v. v \<in> set ws \<Longrightarrow> renv1 (in_register res v) = env1 (At v)"
proof -
  have reg: "in_register res v \<noteq> Slot s" "Slot s \<noteq> in_register res v" for v s by (simp_all add: in_register_def)
  note u = used_in_facts [OF op(1)]
  consider (load) "op_type op = OP_LOAD" | (store) "op_type op = OP_STORE" | (other) "op_type op \<notin> {OP_FREE_TEMP, OP_LOAD, OP_STORE}" using op(2) by blast
  then show thesis
  proof cases
    case load
    obtain t v x where d: "op_data op = [t, v]" "env (Slot v) = Some x" "env1 = env(At t \<mapsto> x)" "world1 = world" "j = 0"
      using e load by (auto simp: exec_def split: list.splits)
    have "ws = [t]" using op(3) load d(1) by (simp add: getWritedVariables_def operands_def)
    then show thesis
      using load d slots reg by (intro that [of "renv(in_register res t \<mapsto> x)"]) (auto simp: exec_def)
  next
    case store
    obtain t v x where d: "op_data op = [t, v]" "env (At t) = Some x" "env1 = env(Slot v \<mapsto> x)" "world1 = world" "j = 0"
      using e store by (auto simp: exec_def split: list.splits)
    have "ws = []" using op(3) store by (simp add: getWritedVariables_def)
    moreover have "renv (in_register res t) = Some x" by (rule reads [OF u(3) d(2)]) (use store d(1) in auto)
    ultimately show thesis
      using store d slots reg by (intro that [of "renv(Slot v \<mapsto> x)"]) (auto simp: exec_def)
  next
    case other
    obtain rs xs ys where d: "getReadVariables op = Some rs" "values_of env (map At rs) = Some xs" "sem (skeleton op) xs world = Some (ys, world1, j)"
      "length ys = length ws" "env1 = env(map At ws [\<mapsto>] ys)"
      using e other op(3) by (auto simp: exec_def split: bind_splits if_splits)
    have "values_of renv (map (in_register res) rs) = values_of env (map At rs)"
    proof (rule values_of_map)
      fix p assume p: "p \<in> set rs"
      then obtain x where "env (At p) = Some x" using values_of_some [OF d(2), of "At p"] by auto
      then show "renv (in_register res p) = env (At p)" using reads u(1) [OF d(1)] p by auto
    qed
    then have run: "exec sem (in_register res) True op (renv, world) = Some (renv(map (in_register res) ws [\<mapsto>] ys), world1, j)"
      using other op(3) d by (simp add: exec_def)
    consider "ws = []" | w y where "ws = [w]" "ys = [y]" using one_write(1) [OF op(3)] d(4) by (auto simp: length_Suc_conv)
    then show thesis
      by cases (use run d(5) slots reg in \<open>auto intro!: that\<close>)
  qed
qed

text \<open>
  Related states: what will still be used is in its register. A variable that has a value has been used on the way, since
  its life last ended.
\<close>

definition held :: "(i64 \<rightharpoonup> nat) \<Rightarrow> worker \<Rightarrow> (i64, 'v, 'w) state \<Rightarrow> (nat, 'v, 'w) state \<Rightarrow> bool" where
  "held res w = (\<lambda>(s, env, world) (s', renv, world'). s' = s \<and> world' = world \<and> these [s] \<subseteq> set (wk_code w) \<and> (\<forall>v. env (Slot v) = renv (Slot v)) \<and>
     (\<forall>n v x. s = Some n \<longrightarrow> env (At v) = Some x \<longrightarrow> n \<in> reach (forward w v) (users w v) \<and>
        (n \<in> reach (backward w v) (users w v) \<longrightarrow> \<not> dying w v n \<longrightarrow> renv (in_register res v) = Some x)))"

lemma heldI:
  assumes "these [s] \<subseteq> set (wk_code w)" "\<And>v. env (Slot v) = renv (Slot v)"
    and "\<And>n v x. s = Some n \<Longrightarrow> env (At v) = Some x \<Longrightarrow> n \<in> reach (forward w v) (users w v)"
    and "\<And>n v x. s = Some n \<Longrightarrow> env (At v) = Some x \<Longrightarrow> n \<in> reach (backward w v) (users w v) \<Longrightarrow> \<not> dying w v n \<Longrightarrow> renv (in_register res v) = Some x"
  shows "held res w (s, env, world) (s, renv, world)"
  using assms by (auto simp: held_def)

lemma held_step:
  fixes sem :: "('v, 'w) sem"
  assumes a: "allocating w gen" and k: "registers_apart k w res"
    and st: "step sem At False w x = Some x'" and h: "held res w x y"
  shows "\<exists>y'. step sem (in_register res) True w y = Some y' \<and> held res w x' y'"
proof -
  note w = allocatingD(1,2) [OF a]
  obtain n env world where x: "x = (Some n, env, world)" using st by (cases x; cases "fst x") (auto simp: step_def)
  obtain renv where y: "y = (Some n, renv, world)" and n: "n \<in> set (wk_code w)" and slots: "\<And>v. env (Slot v) = renv (Slot v)"
    and I: "\<And>v z. env (At v) = Some z \<Longrightarrow> n \<in> reach (forward w v) (users w v)"
      "\<And>v z. env (At v) = Some z \<Longrightarrow> n \<in> reach (backward w v) (users w v) \<Longrightarrow> \<not> dying w v n \<Longrightarrow> renv (in_register res v) = Some z"
    using h unfolding x by (cases y) (auto simp: held_def)
  let ?op = "op_of (heap w n)"
  obtain env1 world1 j where e: "exec sem At False ?op (env, world) = Some (env1, world1, j)" and j: "j < length (nexts (heap w n))"
    and x': "x' = (nexts (heap w n) ! j, env1, world1)"
    using st unfolding x step_Some by blast
  let ?s = "nexts (heap w n) ! j"
  have sin: "?s \<in> set (nexts (heap w n))" using j by simp
  have inside: "these [?s] \<subseteq> set (wk_code w)" using linkedD(4) [OF w(1) n] sin by (cases ?s) auto
  have onward: "m \<in> reach (forward w v) (users w v)" if "n \<in> reach (forward w v) (users w v)" "\<not> ends_life w v n" "?s = Some m" for v m
    by (rule reach_step [OF that(1)]) (use that sin in \<open>simp add: forward_def\<close>)
  have before: "n \<in> reach (backward w v) (users w v)" if h: "m \<in> reach (backward w v) (users w v)" "\<not> ends_life w v m" "?s = Some m" for v m
  proof -
    have m: "m \<in> set (wk_code w)" using inside h(3) by simp
    have "n \<in> prevs (heap w m)" using linkedD(5) [OF w(1) m n] sin h(3) by simp
    moreover have "finite (prevs (heap w m))" using finite_prevs m w(1) by (simp add: linked_def)
    ultimately show ?thesis by (intro reach_step [OF h(1)]) (use h(2) in \<open>simp add: backward_def\<close>)
  qed
  show ?thesis
  proof (cases "op_type ?op = OP_FREE_TEMP")
    case True
    obtain u where u: "op_data ?op = [u]" using regularD(1) [OF w(2) n] True by (auto simp: op_formed_def operand_number_def length_Suc_conv)
    have e1: "env1 = env(At u := None)" "world1 = world" "j = 0" using e True u by (auto simp: exec_def)
    have first: "hd (nexts (heap w n)) = ?s" using j e1(3) by (cases "nexts (heap w n)") auto
    have not_end: "\<not> ends_life w v n" if "v \<noteq> u" for v using that u by (simp add: ends_life_def)
    have "step sem (in_register res) True w y = Some (?s, renv, world)"
      unfolding y step_Some using True u j e1(3) by (auto simp: exec_def)
    moreover have "held res w x' (?s, renv, world)"
      unfolding x' e1(2)
    proof (rule heldI)
      show "env1 (Slot v) = renv (Slot v)" for v by (simp add: e1 slots)
      fix m v z assume m: "?s = Some m" "env1 (At v) = Some z"
      then have v: "v \<noteq> u" "env (At v) = Some z" by (auto simp: e1(1) split: if_splits)
      show "m \<in> reach (forward w v) (users w v)" by (rule onward [OF I(1) [OF v(2)] not_end [OF v(1)] m(1)])
      assume b: "m \<in> reach (backward w v) (users w v)" "\<not> dying w v m"
      then have "n \<in> reach (backward w v) (users w v)" using before [OF b(1) _ m(1)] dying_here by blast
      moreover have "\<not> dying w v n" using b(2) not_end [OF v(1)] first m(1) by (auto elim: dyingE)
      ultimately show "renv (in_register res v) = Some z" using I(2) [OF v(2)] by blast
    qed (rule inside)
    ultimately show ?thesis by blast
  next
    case False
    have not_end: "\<not> ends_life w v n" "\<not> dying w v n" for v
      using False dying_free [of w v n] by (auto simp: ends_life_def is_free_def)
    obtain ws where ws: "getWritedVariables ?op = Some ws" by (rule used_variables_formed [OF regularD(1) [OF w(2) n]])
    have wu: "set ws \<subseteq> used_by w n" using used_in_facts(2) [OF regularD(1) [OF w(2) n] ws] by (simp add: used_by_op)
    have reads: "renv (in_register res v) = Some z" if "v \<in> used_in ?op" "env (At v) = Some z" for v z
    proof -
      have "n \<in> users w v" using that(1) n by (simp add: users_def used_by_op)
      then show ?thesis using I(2) [OF that(2)] not_end(2) reach_refl by blast
    qed
    obtain renv1 where r: "exec sem (in_register res) True ?op (renv, world) = Some (renv1, world1, j)" "\<And>s. env1 (Slot s) = renv1 (Slot s)"
      "\<And>v. v \<notin> set ws \<Longrightarrow> env1 (At v) = env (At v)" "\<And>r. r \<notin> in_register res ` set ws \<Longrightarrow> r \<notin> range Slot \<Longrightarrow> renv1 r = renv r"
      "\<And>v. v \<in> set ws \<Longrightarrow> renv1 (in_register res v) = env1 (At v)"
      by (rule exec_registers [OF regularD(1) [OF w(2) n] False ws e slots reads]) blast+
    have "step sem (in_register res) True w y = Some (?s, renv1, world1)" unfolding y step_Some using r(1) j by blast
    moreover have "held res w x' (?s, renv1, world1)"
      unfolding x'
    proof (rule heldI)
      show "env1 (Slot v) = renv1 (Slot v)" for v by (rule r(2))
      fix m v z assume m: "?s = Some m" "env1 (At v) = Some z"
      have here: "n \<in> reach (forward w v) (users w v)"
      proof (cases "v \<in> set ws")
        case True
        then have "n \<in> users w v" using wu n by (auto simp: users_def)
        then show ?thesis using reach_refl by blast
      qed (use r(3) m(2) I(1) in auto)
      show "m \<in> reach (forward w v) (users w v)" by (rule onward [OF here not_end(1) m(1)])
      assume b: "m \<in> reach (backward w v) (users w v)" "\<not> dying w v m"
      show "renv1 (in_register res v) = Some z"
      proof (cases "v \<in> set ws")
        case True
        then show ?thesis using r(5) m(2) by simp
      next
        case other: False
        then have v: "env (At v) = Some z" using r(3) m(2) by simp
        have nb: "n \<in> reach (backward w v) (users w v)" using before [OF b(1) _ m(1)] b(2) dying_here by blast
        then have alive: "alive w v n" using here not_end(1) by (simp add: alive_def)
        have "in_register res v \<noteq> in_register res u" if u: "u \<in> set ws" for u
        proof
          assume same: "in_register res v = in_register res u"
          have au: "alive w u n" using alive_user [OF n, of u] wu u not_end(1) by blast
          then obtain r1 r2 where "res v = Some r1" "res u = Some r2" using alive n k unfolding registers_apart_def by blast
          then have "res u = res v" using same by (simp add: in_register_def)
          then have "may_share k w n u v" using k n au alive other u unfolding registers_apart_def by blast
          then obtain rs fs where s: "nexts (heap w n) = [?s]" "freed_after k w ?s = Some fs" "shares ws rs fs u v"
            using ws j by (auto simp: may_share_def)
          then have "v \<in> set fs" using other by (auto simp: shares_def)
          then show False using freed_after_dying [of k w m fs v] s(2) m(1) b(2) by simp
        qed
        then have "renv1 (in_register res v) = renv (in_register res v)" by (intro r(4)) (auto simp: in_register_def)
        then show ?thesis using I(2) [OF v nb not_end(2)] by simp
      qed
    qed (rule inside)
    ultimately show ?thesis by blast
  qed
qed

lemma colouring_follows:
  fixes sem :: "('v, 'w) sem"
  assumes "allocating w gen" "registers_apart k w res"
  shows "follows At False w (in_register res) True w sem"
proof (rule follows_simulation [where R = "held res w"])
  show "held res w (start w world) (start w world)" for world
    using allocatingD(1) [OF assms(1)] by (auto simp: held_def start_def linked_def worker_ok_def)
  show "same_outside x y" if "held res w x y" for x y using that by (auto simp: held_def same_outside_def)
  show "\<exists>y'. runs sem (in_register res) True w y y' \<and> held res w x' y'" if "step sem At False w x = Some x'" "held res w x y" for x x' y
    using held_step [OF assms that] runs_step [OF _ runs_refl] by blast
qed

end
