(* ===== verification/AllocationRuns.thy ===== *)
theory AllocationRuns
  imports ColouringRuns
begin

text \<open>
  The register allocator (\<^verbatim>\<open>spreadRegisters\<close> in \<^verbatim>\<open>src/codegen/registerAllocator.hpp\<close>) ends, and a
  worker does with its registers and memory what it did with its variables.
\<close>

section \<open>Places\<close>

lemma exec_cong:
  assumes "op_formed op" "\<And>v. v \<in> used_in op \<Longrightarrow> loc v = loc' v"
  shows "exec sem loc keep op = exec sem loc' keep op"
proof -
  note u = used_in_facts [OF assms(1)]
  obtain rs ws where rs: "getReadVariables op = Some rs" "getWritedVariables op = Some ws" by (rule used_variables_formed [OF assms(1)])
  have maps: "map loc rs = map loc' rs" "map loc ws = map loc' ws" using u(1) [OF rs(1)] u(2) [OF rs(2)] assms(2) by auto
  have hd: "loc x = loc' x" if "op_type op \<in> {OP_LOAD, OP_STORE, OP_FREE_TEMP}" "op_data op = x # xs" for x xs using u(3) that assms(2) by blast
  consider "op_type op = OP_FREE_TEMP" | "op_type op = OP_LOAD" | "op_type op = OP_STORE" | "op_type op \<notin> {OP_FREE_TEMP, OP_LOAD, OP_STORE}" by blast
  then show ?thesis
    by cases (use hd in \<open>auto simp: exec_def rs maps fun_eq_iff split: list.split cong: if_cong\<close>)
qed

lemma successor_inside:
  assumes "linked w" "n \<in> set (wk_code w)" "j < length (nexts (heap w n))"
  shows "these [nexts (heap w n) ! j] \<subseteq> set (wk_code w)"
proof -
  have "nexts (heap w n) ! j \<in> set (nexts (heap w n))" using assms(3) by simp
  then show ?thesis using linkedD(4) [OF assms(1,2)] unfolding these_def by auto
qed

text \<open>Variables that nothing uses may be anywhere.\<close>

lemma unused_follows:
  assumes w: "linked w" "regular w" and u: "\<forall>v \<in> M. users w v = {}"
  shows "follows (memory M) False w At False w sem"
proof (rule follows_simulation [where R = "\<lambda>x y. x = y \<and> these [fst x] \<subseteq> set (wk_code w)"])
  fix world
  show "start w world = start w world \<and> these [fst (start w world)] \<subseteq> set (wk_code w)"
    using w(1) by (simp add: start_def linked_def worker_ok_def)
next
  fix x x' y
  assume st: "step sem (memory M) False w x = Some x'" and xy: "x = y \<and> these [fst x] \<subseteq> set (wk_code w)"
  obtain n env world where x: "x = (Some n, env, world)" using st by (cases x; cases "fst x") (auto simp: step_def)
  have n: "n \<in> set (wk_code w)" using xy x by simp
  have "memory M v = At v" if "v \<in> used_in (op_of (heap w n))" for v
    using that u n by (auto simp: memory_def users_def used_by_op)
  then have "exec sem (memory M) False (op_of (heap w n)) = exec sem At False (op_of (heap w n))"
    by (rule exec_cong [OF regularD(1) [OF w(2) n]])
  then have "step sem At False w x = Some x'" using st by (simp add: x step_def)
  moreover have "these [fst x'] \<subseteq> set (wk_code w)"
  proof -
    obtain j where "j < length (nexts (heap w n))" "fst x' = nexts (heap w n) ! j" using st unfolding x step_Some by auto
    then show ?thesis using successor_inside [OF w(1) n] by simp
  qed
  ultimately show "\<exists>y'. runs sem At False w y y' \<and> x' = y' \<and> these [fst x'] \<subseteq> set (wk_code w)"
    using xy runs_step [OF _ runs_refl] by blast
qed (simp add: same_outside_def)

text \<open>Without operations on memory, variables may be in memory as well.\<close>

lemma exec_memory:
  assumes op: "op_formed op" "op_type op \<notin> loads_and_stores" and e: "exec sem At False op (env, world) = Some (env1, world1, j)"
    and same: "\<And>v. env (At v) = env' (memory M v)"
  shows "\<exists>env1'. exec sem (memory M) False op (env', world) = Some (env1', world1, j) \<and> (\<forall>v. env1 (At v) = env1' (memory M v))"
proof (cases "op_type op = OP_FREE_TEMP")
  case True
  then show ?thesis using e same by (auto simp: exec_def split: list.splits)
next
  case False
  then have other: "op_type op \<notin> {OP_FREE_TEMP, OP_LOAD, OP_STORE}" using op(2) by (simp add: loads_and_stores_def)
  obtain rs ws where rs: "getReadVariables op = Some rs" "getWritedVariables op = Some ws" by (rule used_variables_formed [OF op(1)])
  obtain xs ys where d: "values_of env (map At rs) = Some xs" "sem (skeleton op) xs world = Some (ys, world1, j)"
    "length ys = length ws" "env1 = env(map At ws [\<mapsto>] ys)"
    using e other rs by (auto simp: exec_def split: bind_splits if_splits)
  have "values_of env' (map (memory M) rs) = values_of env (map At rs)" by (rule values_of_map) (simp add: same)
  then have run: "exec sem (memory M) False op (env', world) = Some (env'(map (memory M) ws [\<mapsto>] ys), world1, j)"
    using other rs d by (simp add: exec_def)
  consider "ws = []" | w y where "ws = [w]" "ys = [y]" using one_write(1) [OF rs(2)] d(3) by (auto simp: length_Suc_conv)
  then show ?thesis by cases (use run d(4) same in auto)
qed

definition elsewhere :: "i64 set \<Rightarrow> worker \<Rightarrow> (i64, 'v, 'w) state \<Rightarrow> (i64, 'v, 'w) state \<Rightarrow> bool" where
  "elsewhere M w = (\<lambda>(s, env, world) (s', env', world'). s' = s \<and> world' = world \<and> these [s] \<subseteq> set (wk_code w) \<and>
     (\<forall>v. env (At v) = env' (memory M v)))"

lemma memory_follows:
  fixes sem :: "('v, 'w) sem"
  assumes w: "linked w" "regular w" and m: "\<forall>n \<in> set (wk_code w). op_type (op_of (heap w n)) \<notin> loads_and_stores"
  shows "follows At False w (memory M) False w sem"
proof (rule follows_simulation [where R = "elsewhere M w"])
  show "elsewhere M w (start w world) (start w world)" for world
    using w(1) by (simp add: elsewhere_def start_def linked_def worker_ok_def)
  show "same_outside x y" if "elsewhere M w x y" for x y using that by (auto simp: elsewhere_def same_outside_def)
next
  fix x x' y assume st: "step sem At False w x = Some x'" and h: "elsewhere M w x y"
  obtain n env world where x: "x = (Some n, env, world)" using st by (cases x; cases "fst x") (auto simp: step_def)
  obtain env' where y: "y = (Some n, env', world)" and n: "n \<in> set (wk_code w)" and same: "\<And>v. env (At v) = env' (memory M v)"
    using h unfolding x by (cases y) (auto simp: elsewhere_def)
  obtain env1 world1 j where e: "exec sem At False (op_of (heap w n)) (env, world) = Some (env1, world1, j)" and j: "j < length (nexts (heap w n))"
    and x': "x' = (nexts (heap w n) ! j, env1, world1)"
    using st unfolding x step_Some by blast
  obtain env1' where e': "exec sem (memory M) False (op_of (heap w n)) (env', world) = Some (env1', world1, j)" "\<forall>v. env1 (At v) = env1' (memory M v)"
    using exec_memory [OF regularD(1) [OF w(2) n] bspec [OF m n] e same] by blast
  have "these [nexts (heap w n) ! j] \<subseteq> set (wk_code w)" by (rule successor_inside [OF w(1) n j])
  then have "elsewhere M w x' (nexts (heap w n) ! j, env1', world1)" using e'(2) by (simp add: elsewhere_def x')
  moreover have "step sem (memory M) False w y = Some (nexts (heap w n) ! j, env1', world1)" unfolding y step_Some using e'(1) j by blast
  ultimately show "\<exists>y'. runs sem (memory M) False w y y' \<and> elsewhere M w x' y'" using runs_step [OF _ runs_refl] by blast
qed

section \<open>The whole allocator\<close>

lemma split_steps_follow:
  assumes "split_steps w gen vs w' gen'" "allocating w gen" "set vs \<subseteq> M" "M \<inter> set gen' = {}"
  shows "follows (memory M) False w (memory M) False w' sem"
  using assms
proof (induction rule: split_steps.induct)
  case (no_steps w gen)
  show ?case by (rule follows_refl)
next
  case (one_more n w v gen w1 t vs w' gen')
  note a = allocatingD [OF one_more.prems(1)]
  obtain w2 where "split_op v n w = Some (w2, nextTempId w)" "allocating w2 (nextTempId w # gen)"
    by (rule split_op_allocating [OF one_more.prems(1) one_more.hyps(1-3)]) blast
  then have w1: "t = nextTempId w" "allocating w1 (t # gen)" using one_more.hyps(4) by simp_all
  have "t \<in> set gen'" using split_stepsD(2) [OF one_more.hyps(5) w1(2)] by auto
  then have t: "nextTempId w \<notin> M" using one_more.prems(3) w1(1) by blast
  have type: "op_type (op_of (heap w n)) \<notin> loads_and_stores" using a(4) [OF one_more.hyps(1)] one_more.hyps(2,3) by blast
  have v: "v \<in> M" using one_more.prems(2) by simp
  have "\<forall>m \<in> set (wk_code w). nextTempId w \<notin> used_by w m" using temp_fresh(1) [OF one_more.prems(1)] by blast
  from split_op_follows [OF a(1,2) one_more.hyps(1) type v t this one_more.hyps(4)]
  have "follows (memory M) False w (memory M) False w1 sem" .
  moreover have "follows (memory M) False w1 (memory M) False w' sem"
    by (rule one_more.IH [OF w1(2)]) (use one_more.prems(2,3) in auto)
  ultimately show ?case by (rule follows_trans)
qed

lemma moved_follows:
  assumes "moved w [] w' gen'" "allocating w []"
  shows "follows At False w At False w' sem"
proof -
  obtain vs where vs: "split_steps w [] vs w' gen'" "\<forall>v \<in> set vs. users w' v = {}" using assms(1) by (auto simp: moved_def)
  note a = allocatingD [OF assms(2)] and a' = allocatingD [OF split_stepsD(1) [OF vs(1) assms(2)]]
  have "used_by w n \<noteq> {}" if n: "n \<in> set (wk_code w)" "op_type (op_of (heap w n)) \<in> loads_and_stores" for n
  proof -
    have "op_formed (op_of (heap w n))" by (rule regularD(1) [OF a(2) n(1)])
    then obtain x xs where "op_data (op_of (heap w n)) = x # xs"
      using n(2) by (cases "op_data (op_of (heap w n))") (auto simp: op_formed_def operand_number_def loads_and_stores_def)
    then show ?thesis using n(2) by (auto simp: used_by_def getUsedVariables_def operands_def Let_def loads_and_stores_def)
  qed
  then have none: "\<forall>n \<in> set (wk_code w). op_type (op_of (heap w n)) \<notin> loads_and_stores" using a(4) by fastforce
  have "follows At False w (memory (set vs)) False w sem" by (rule memory_follows [OF a(1,2) none])
  moreover have "follows (memory (set vs)) False w (memory (set vs)) False w' sem"
    by (rule split_steps_follow [OF vs(1) assms(2) order_refl split_stepsD(5) [OF vs(1) assms(2)]])
  moreover have "follows (memory (set vs)) False w' At False w' sem" by (rule unused_follows [OF a'(1,2) vs(2)])
  ultimately show ?thesis using follows_trans by blast
qed

text \<open>The walk over the lives that end, from an operation, with the steps that it takes as a rank.\<close>

lemma frees_end_finite:
  assumes "frees_end k w" "linked w"
  shows "frees_finite w"
proof -
  define r where "r n = (LEAST j. freed_after j w (Some n) \<noteq> None)" for n
  define q where "q n = (if is_free w n then (case hd (nexts (heap w n)) of None \<Rightarrow> 0 | Some b \<Rightarrow> Suc (r b)) else 0)" for n
  have "q b < q n" if n: "n \<in> set (wk_code w)" "is_free w n" "hd (nexts (heap w n)) = Some b" "is_free w b" for n b
  proof -
    have "hd (nexts (heap w n)) \<in> set (nexts (heap w n))" using linkedD(2) [OF assms(2) n(1)] by simp
    then have "freed_after k w (Some b) \<noteq> None" using assms(1) n(1,3) unfolding frees_end_def by auto
    then have rb: "freed_after (r b) w (Some b) \<noteq> None" unfolding r_def by (rule LeastI)
    then obtain j where j: "r b = Suc j" "freed_after j w (hd (nexts (heap w b))) \<noteq> None"
      using n(4) by (cases "r b") (auto simp: freed_after.simps(2) is_free_def split: if_splits)
    show ?thesis
    proof (cases "hd (nexts (heap w b))")
      case (Some c)
      then have "r c \<le> j" unfolding r_def using j(2) by (intro Least_le) simp
      then show ?thesis using n Some j(1) by (simp add: q_def)
    qed (use n in \<open>simp add: q_def\<close>)
  qed
  then show ?thesis unfolding frees_finite_def ranked_def by blast
qed

definition variables_small :: "worker \<Rightarrow> bool" where
  "variables_small w \<longleftrightarrow> 0 \<le> sint (nextTempId w) \<and> (\<forall>n \<in> set (wk_code w). \<forall>v \<in> used_by w n. 0 \<le> sint v \<and> sint v < sint (nextTempId w)) \<and>
     sint (nextTempId w) + int (\<Sum>n \<in> set (wk_code w). card (used_by w n)) < 2 ^ 63"

lemma allocatable:
  assumes "linked w" "regular w" "frees_end k w" "variables_small w" "\<forall>n \<in> set (wk_code w). op_type (op_of (heap w n)) \<notin> loads_and_stores"
  shows "allocating w []"
  unfolding allocating_def to_split_def using assms frees_end_finite [OF assms(3,1)] by (auto simp: variables_small_def)

text \<open>
  C4. The register allocator ends for any random numbers and any estimates of costs, and when it finds registers there are nine at
  most and the worker that it returns does with them, in any world and whatever the operations do, what the given worker did
  with its variables.
\<close>

theorem allocation_keeps_runs:
  assumes "linked w" "regular w" "frees_end k0 w" "variables_small w"
    "\<forall>n \<in> set (wk_code w). op_type (op_of (heap w n)) \<notin> loads_and_stores"
  shows "\<exists>k r. (\<forall>fuel \<ge> k. spreadRegisters fuel rnd cost w = Some r) \<and>
    (\<forall>res w'. r = Inr (res, w') \<longrightarrow> ran res \<subseteq> {..<registersCount} \<and>
       (\<forall>sem :: ('v, 'w) sem. follows At False w (in_register res) True w' sem))"
proof -
  have a: "allocating w []" by (rule allocatable [OF assms])
  obtain k r where k: "spread_rounds k rnd cost 1 w [] = Some r" "allocated w [] r" using rounds_end [OF a] by blast
  have good: "ran res \<subseteq> {..<registersCount} \<and> (\<forall>sem :: ('v, 'w) sem. follows At False w (in_register res) True w' sem)"
    if r: "r = Inr (res, w')" for res w'
  proof -
    obtain gen' j where j: "moved w [] w' gen'" "allocating w' gen'" "registers_apart j w' res"
      using k(2) by (auto simp: allocated_def r)
    have "ran res \<subseteq> {..<registersCount}" using j(3) by (auto simp: registers_apart_def ran_def)
    then show ?thesis using follows_trans [OF moved_follows [OF j(1) a] colouring_follows [OF j(2,3)]] by blast
  qed
  show ?thesis
    using spread_rounds_more [OF k(1)] good by (intro exI [of _ k] exI [of _ r]) (simp add: spreadRegisters_def)
qed

text \<open>A loop that counts the first input down by the second.\<close>

definition counting_worker :: worker where
  "counting_worker =
     (let op = (\<lambda>t d ns ps. \<lparr>op_of = \<lparr>op_type = t, op_data = d, op_attributes = []\<rparr>, nexts = ns, prevs = ps, code_span = (0, 9)\<rparr>) in
      \<lparr>wk_entry = Some 0, wk_code = [0, 1, 2, 3, 4, 5],
       heap = (\<lambda>n. [op OP_LOAD_INPUT [0, 0] [Some 1] {}, op OP_LOAD_INPUT [1, 1] [Some 2] {0}, op OP_SUB [1000000, 0, 1] [Some 3] {1, 5},
          op OP_MOV [0, 1000000] [Some 4] {2}, op OP_FREE_TEMP [1000000] [Some 5] {3}, op OP_JNZ [0] [None, Some 2] {4}] ! n),
       fresh = 6, wk_variables = Map.empty, nextTempId = 1000001\<rparr>)"

lemma counting_worker_parts:
  "wk_code counting_worker = [0, 1, 2, 3, 4, 5]" "wk_entry counting_worker = Some 0" "fresh counting_worker = 6" "nextTempId counting_worker = 1000001"
  "op_of (heap counting_worker 0) = plain_op OP_LOAD_INPUT [0, 0]" "op_of (heap counting_worker (Suc 0)) = plain_op OP_LOAD_INPUT [1, 1]"
  "op_of (heap counting_worker 2) = plain_op OP_SUB [1000000, 0, 1]" "op_of (heap counting_worker 3) = plain_op OP_MOV [0, 1000000]"
  "op_of (heap counting_worker 4) = plain_op OP_FREE_TEMP [1000000]" "op_of (heap counting_worker 5) = plain_op OP_JNZ [0]"
  "nexts (heap counting_worker 0) = [Some 1]" "nexts (heap counting_worker (Suc 0)) = [Some 2]" "nexts (heap counting_worker 2) = [Some 3]"
  "nexts (heap counting_worker 3) = [Some 4]" "nexts (heap counting_worker 4) = [Some 5]" "nexts (heap counting_worker 5) = [None, Some 2]"
  "prevs (heap counting_worker 0) = {}" "prevs (heap counting_worker (Suc 0)) = {0}" "prevs (heap counting_worker 2) = {1, 5}"
  "prevs (heap counting_worker 3) = {2}" "prevs (heap counting_worker 4) = {3}" "prevs (heap counting_worker 5) = {4}"
  by (simp_all add: counting_worker_def plain_op_def)

lemma counting_worker_used:
  "used_by counting_worker 0 = {0}" "used_by counting_worker (Suc 0) = {1}" "used_by counting_worker 2 = {1000000, 0, 1}"
  "used_by counting_worker 3 = {0, 1000000}" "used_by counting_worker 4 = {1000000}" "used_by counting_worker 5 = {0}"
  by (simp_all add: used_by_op used_in_def counting_worker_parts getUsedVariables_def operands_def plain_op_def attribute_variables_def)

lemma allocation_keeps_runs_witness:
  "(\<exists>k r. (\<forall>fuel \<ge> k. spreadRegisters fuel (\<lambda>_ _. 0) (\<lambda>_ _. 0) counting_worker = Some r) \<and>
     (\<forall>res w'. r = Inr (res, w') \<longrightarrow> ran res \<subseteq> {..<registersCount} \<and>
        (\<forall>sem :: (int, int list) sem. follows At False counting_worker (in_register res) True w' sem))) \<and>
   map_option (case_sum (\<lambda>_. []) (\<lambda>(res, _). map res [0, 1, 1000000])) (spreadRegisters 40 (\<lambda>_ _. 0) (\<lambda>_ _. 0) counting_worker) =
     Some [Some 0, Some 1, Some 2]"
proof -
  let ?w = counting_worker
  have "linked ?w" by (simp add: linked_def worker_ok_def links_ok_def these_def counting_worker_parts)
  moreover have "regular ?w"
    by (simp add: regular_def op_formed_def operand_number_def plain_op_def IS_JUMP_def attribute_variables_def counting_worker_parts)
  moreover have "frees_end (Suc (Suc 0)) ?w"
    by (simp add: frees_end_def freed_after.simps(2) plain_op_def counting_worker_parts)
  moreover have "variables_small ?w"
    by (simp add: variables_small_def counting_worker_used counting_worker_parts)
  moreover have "\<forall>n \<in> set (wk_code ?w). op_type (op_of (heap ?w n)) \<notin> loads_and_stores"
    by (simp add: loads_and_stores_def plain_op_def counting_worker_parts)
  ultimately have "\<exists>k r. (\<forall>fuel \<ge> k. spreadRegisters fuel (\<lambda>_ _. 0) (\<lambda>_ _. 0) ?w = Some r) \<and>
     (\<forall>res w'. r = Inr (res, w') \<longrightarrow> ran res \<subseteq> {..<registersCount} \<and>
        (\<forall>sem :: (int, int list) sem. follows At False ?w (in_register res) True w' sem))"
    by (rule allocation_keeps_runs)
  moreover have "map_option (case_sum (\<lambda>_. []) (\<lambda>(res, _). map res [0, 1, 1000000])) (spreadRegisters 40 (\<lambda>_ _. 0) (\<lambda>_ _. 0) ?w) =
     Some [Some 0, Some 1, Some 2]" by code_simp
  ultimately show ?thesis by blast
qed

end
