(* ===== verification/Spec2Isabelle.thy ===== *)
theory Spec2Isabelle
  imports HashTable64 RunTimeLib Network Program AssemblerCorrect Jumps MemoryAllocator Division BuildFnCorrect Lookups AllocationRuns
begin

text \<open>
  A verification development for Hive: its runtime (\<^verbatim>\<open>src/runtimes/0.3\<close>), which runs programs of small
  workers on several machines, called hives, and the parts of its compiler that produce the executable file.

  The program. A compiled program is a file \<^verbatim>\<open>res.bin\<close> with the code of its workers. The runtime loads it
  (\<^verbatim>\<open>common/runtime.c\<close>), starts scheduler threads (\<^verbatim>\<open>common/sheduler.c\<close>, \<^verbatim>\<open>common/queue.c\<close>) and the entry
  worker (\<^verbatim>\<open>common/hive_entry.c\<close>). A worker is a task that runs without a stack of its own; it creates,
  pushes and queries objects (\<^verbatim>\<open>common/x64/\<close>), which live on one hive and are named by 64-bit ids. When a
  value is not here or not ready the worker is paused and put into a wait list, and a message is sent to
  another hive (\<^verbatim>\<open>common/remote.c\<close>); the answer continues it. Pages of ids, paths to objects and the ids of
  hives are agreed on by broadcasts. Two kinds of lock-free hash tables (\<^verbatim>\<open>common/api.c\<close>) hold what is shared.

  The theories, bottom up, with what their lemmas show:

    Prelude: bytes and words, little-endian encodings, reads and writes of buffers that fail out of bounds.

    Probing, Layers: the search in a table with linear probing, and tables that grow by a new layer, both as
    locales, with a search bounded by the size of a layer (a longer one never ends, which is proved).

    HashTable64, HashTableBytes: the two tables of \<^verbatim>\<open>common/api.c\<close> on these: the hash functions, the
    compare-exchange, growth, tagged take and add; they refine a map, for keys within the conditions the
    code forgets to check. The room for byte-string keys is also modelled under interleaving of threads, as an
    inductive step relation on shared state.

    RingQueue, Scheduler: \<^verbatim>\<open>common/queue.c\<close>: the ring of one priority refines a double-ended queue, the queues
    of a thread a list per priority; no task is lost or run twice by enqueueing, affinity and stealing.

    Framing: the receiving loop of \<^verbatim>\<open>Worker\<close> in \<^verbatim>\<open>common/remote.c\<close>, against an independent definition of what
    the messages in a stream of bytes are; any splitting into chunks gives the same messages.

    Objects: the layout of objects in memory, creation, push and query, byte by byte.

    Hive: the state of one hive as a record. The tables are their contents (the refinement above), what is
    reached by pointer is a typed heap, what the system supplies (random bytes, clock, dialling, uninitialised
    memory) is a stream of the state. An operation returns no state when the C code would run into undefined
    behaviour or end the process; each theorem proves that the operations return.

    WaitLists, Senders, Allocators, Workers, Callbacks, Requests, Handlers: the wait lists, the messages and
    broadcasts that are sent, the free lists, pausing and starting workers, what an answer does, the operations of
    worker programs, and one definition for each case of \<^verbatim>\<open>HandleApiCall\<close>.

    Network: two hives: what one sends, the other receives in chunks of any size, frames, handles and answers.

    RunTimeLib: numbers and strings in and out, \<^verbatim>\<open>memcpy\<close> and \<^verbatim>\<open>memset\<close> of \<^verbatim>\<open>win/runtime_lib.c\<close>, the runtime
    whose build is freestanding. Signed overflow is undefined there and an outcome of its own.

    Loader, Exporter: the executable file, as the runtime reads it and as the compiler writes it
    (\<^verbatim>\<open>src/main/export.cpp\<close> and the code generators); what is written is what is loaded.

    Threads, Program: rounds of scheduler threads, the start of the first worker, options and boot: from an
    exported file to the first task.

    X64, Assembler, AssemblerCorrect: the instructions that the compiler prints (\<^verbatim>\<open>codegen/x64_win/asm.cpp\<close>), a decoder
    of their encodings written from the manual of the processor, and that decoding what is printed gives the
    instruction back, except for five kinds of calls for which it is proved that it does not.

    Jumps: the choice of short and long jumps and their insertion (\<^verbatim>\<open>call_expansion.cpp\<close>); the loop ends and every
    jump lands on its destination.

    MemoryAllocator: the addresses of variables without a register (\<^verbatim>\<open>codegen/memoryAllocator.cpp\<close>); two variables
    never overlap.

    Machine, Flags, Codegen, CodegenCorrect, Division: the code of each operation (\<^verbatim>\<open>operation.cpp\<close>, \<^verbatim>\<open>helpers.cpp\<close>),
    run on a model of registers, flags and frame: moves, arithmetic, comparisons and division compute the result for
    every choice of registers and memory that the tables allow.

    BuildFn, BuildFnCorrect: the code of a worker (\<^verbatim>\<open>build_fn.cpp\<close>): each operation is written once, and the jumps
    that are inserted lead from each to its successors.

    Lookups: the tables of variables of \<^verbatim>\<open>ir/lookups.cpp\<close>, which agree with one another and with the code generator.

    Search, IRGraph, Strip, Editing: the graph of operations of a worker, made from the list of the front end
    (\<^verbatim>\<open>ir/ir.cpp\<close>), and its editing (\<^verbatim>\<open>optimization/common.cpp\<close>); the removal of jumps keeps the control flow and the
    removal of unused instructions (\<^verbatim>\<open>strip_unused_instructions.cpp\<close>) what the entry reaches.

    Liveness, RegisterAllocator, RegisterAllocatorCorrect: live ranges and conflicts (\<^verbatim>\<open>analysis/analizators.hpp\<close>),
    the colouring and the variables that are moved to memory (\<^verbatim>\<open>codegen/registerAllocator.hpp\<close>).

    Splitting, SplittingEnds, RoundsEnd: what moving a variable to memory does to the graph of a worker, and that the
    loops of the allocator end: there is a temporary for each use of a variable at most, and after fifty rounds
    everything else is moved. Fuel is shown to exist and more fuel not to change the result.

    IRSemantics, SplittingRuns, ColouringRuns, AllocationRuns: a semantics of the graph in which the effect of an
    operation on values and on the world is a parameter, and simulations: step by step the worker does with memory, and
    then with registers, what it did with variables.

  Interfaces. Locales state what a client relies on: \<open>kv_table\<close> and \<open>layered\<close> (tables), \<open>deque\<close> (rings),
  \<open>task_pool\<close> (scheduler), \<open>pool\<close> (free lists). Each is interpreted on the model of the code.

  Concurrency. Operations run one at a time, except for the allocator of key rooms, which is modelled in its
  atomic steps; a lock or a spin lock is then a no-op. Loops that wait for another thread are bounded by what the
  other threads are said to do. Loops that may not end are partial functions or have fuel, and the theorems
  prove that they return or that they do not.

  Not modelled: the casts between providers and the GPU provider, which call OpenCL; the calls of DLL functions,
  whose frames are built in assembly; stalling of threads on Windows; the older runtimes 0.1 and 0.2; of the compiler
  the parsing and typing of programs, the inliner, the merging of promises, the removal of workers that nothing calls,
  the generator of OpenCL code, and the floating-point estimates by which the register allocator chooses, which
  are a parameter (so is the walk that computes them, \<^verbatim>\<open>calculateExecutionWay\<close>, which does not end on a cycle of
  first successors; the theorems on the allocator speak of compilations in which it does). Tables that C++ leaves
  unordered are gone through in one fixed order. In a scheduler round the counters of tasks, the time of the start
  and the mark that a thread may be stalled are left out: nothing but the statistics and the stalling reads them.
  The positions of a ring and the sizes of the queues are unbounded numbers where the code has 64 bits, which
  no run reaches.
\<close>

end
